(* ===== verification/Toy_Prelude.thy ===== *)
theory Toy_Prelude
  imports Main "HOL-Library.Word" "HOL-Library.Sublist"
begin

text \<open>
  Shared vocabulary of the development: the ways in which the C++ program can die,
  the result type that carries them, and the generic facts on results and integer
  intervals that every component uses.
\<close>

named_theorems res_intros \<open>rules that build a successful result\<close>

section \<open>Faults and results\<close>

text \<open>
  A fault is an execution that does not return normally: dereferencing a null pointer, a
  pointer to freed storage, an access outside a block, a read of storage that was never
  written, a failed \<open>CHECK\<close> or \<open>LOG(FATAL)\<close> of glog or another \<open>abort()\<close>, a C++ exception that nothing
  catches, a conversion, a shift or a
  signed result the type cannot hold, or a loop that does not end within the
  bound its model gives it.
\<close>

datatype fault =
    NullDeref
  | Dangling
  | OutOfBounds
  | Uninit
  | CheckFail
  | Throws
  | Overflow
  | FuelOut

type_synonym 'a res = "fault + 'a"

definition bindR :: "'a res \<Rightarrow> ('a \<Rightarrow> 'b res) \<Rightarrow> 'b res" where
  "bindR r f = (case r of Inl e \<Rightarrow> Inl e | Inr x \<Rightarrow> f x)"

definition CHECK :: "bool \<Rightarrow> 'a res \<Rightarrow> 'a res" where
  "CHECK c k = (if c then k else Inl CheckFail)"

lemma bindR_Inr [simp]: "bindR (Inr x) f = f x"
  by (simp add: bindR_def)

lemma bindR_Inl [simp]: "bindR (Inl e) f = Inl e"
  by (simp add: bindR_def)

lemma bindR_eq_Inr: "bindR r f = Inr y \<longleftrightarrow> (\<exists>x. r = Inr x \<and> f x = Inr y)"
  by (cases r) auto

lemma bindR_assoc: "bindR (bindR r f) g = bindR r (\<lambda>x. bindR (f x) g)"
  by (cases r) auto

lemma bindR_Inr_right [simp]: "bindR r Inr = r"
  by (cases r) auto

lemma bindR_cong [fundef_cong]:
  "r = r' \<Longrightarrow> (\<And>x. r' = Inr x \<Longrightarrow> f x = f' x) \<Longrightarrow> bindR r f = bindR r' f'"
  by (cases r') auto

lemma CHECK_True [simp]: "CHECK True k = k"
  by (simp add: CHECK_def)

lemma CHECK_False [simp]: "CHECK False k = Inl CheckFail"
  by (simp add: CHECK_def)

lemma CHECK_eq_Inr: "CHECK c k = Inr y \<longleftrightarrow> c \<and> k = Inr y"
  by (simp add: CHECK_def)

section \<open>Integer intervals as lists\<close>

lemma upto_append:
  "(i::int) \<le> j \<Longrightarrow> j \<le> k \<Longrightarrow> [i..k - 1] = [i..j - 1] @ [j..k - 1]"
  using upto_split1 [of i j "k - 1"] by (cases "j = k") auto

lemma upto_empty [simp]: "[(i::int)..i - 1] = []"
  by simp

lemma map_upto_shift:
  "map f [(i::int)..i + int n - 1] = map (\<lambda>k. f (i + int k)) [0..<n]"
proof (induction n)
  case 0
  then show ?case by simp
next
  case (Suc n)
  have "[i..i + int (Suc n) - 1] = [i..i + int n - 1] @ [i + int n]"
    using upto_rec2 [of i "i + int n"] by (simp add: add.commute)
  with Suc show ?case by simp
qed

lemma map_upto_nth:
  assumes "\<And>k. k < length xs \<Longrightarrow> f (i + int k) = xs ! k"
  shows "map f [(i::int)..i + int (length xs) - 1] = xs"
  unfolding map_upto_shift using assms by (intro nth_equalityI) auto

lemma drop_map_upto:
  assumes "i \<le> j" "j \<le> k + 1"
  shows "drop (nat (j - i)) (map f [(i::int)..k]) = map f [j..k]"
proof -
  have "[i..k] = [i..j - 1] @ [j..k]"
    using assms upto_append [of i j "k + 1"] by simp
  moreover have "length [i..j - 1] = nat (j - i)" by simp
  ultimately show ?thesis by simp
qed

lemma take_map_upto:
  assumes "i \<le> j" "j \<le> k + 1"
  shows "take (nat (j - i)) (map f [(i::int)..k]) = map f [i..j - 1]"
proof -
  have "[i..k] = [i..j - 1] @ [j..k]"
    using assms upto_append [of i j "k + 1"] by simp
  moreover have "length [i..j - 1] = nat (j - i)" by simp
  ultimately show ?thesis by simp
qed

section \<open>Lists\<close>

lemma distinct_bounded_length:
  "distinct xs \<Longrightarrow> \<forall>x\<in>set xs. x < n \<Longrightarrow> length xs \<le> (n::nat)"
  by (metis card_lessThan card_mono distinct_card finite_lessThan lessThan_iff subsetI)

lemma map_eq_on: "(\<And>x. x \<in> set xs \<Longrightarrow> f x = g x) \<Longrightarrow> map f xs = map g xs"
  by simp

text \<open>Division by a block size.\<close>

lemma div_below:
  fixes g :: int
  assumes "0 < k" "g < n * k"
  shows "g div k < n"
proof (rule ccontr)
  assume "\<not> g div k < n"
  then have "n * k \<le> (g div k) * k" using assms(1) by (intro mult_right_mono) simp_all
  also have "\<dots> \<le> g" using assms(1) by (metis div_mult_mod_eq le_add_same_cancel1 pos_mod_sign)
  finally show False using assms(2) by simp
qed

lemma div_mod_succ:
  fixes g :: int
  assumes "0 < k" "g mod k + 1 < k"
  shows "(g + 1) div k = g div k" "(g + 1) mod k = g mod k + 1"
proof -
  have e: "g + 1 = k * (g div k) + (g mod k + 1)" using mult_div_mod_eq [of k g] by linarith
  have r: "0 \<le> g mod k + 1" using assms(1) pos_mod_sign [of k g] by linarith
  show "(g + 1) div k = g div k" using int_div_pos_eq [OF e r assms(2)] .
  show "(g + 1) mod k = g mod k + 1" using int_mod_pos_eq [OF e r assms(2)] .
qed

lemma div_zero_less:
  fixes g :: int
  assumes "0 < k" "g div k = 0"
  shows "g < k"
  using pos_mod_bound [OF assms(1), of g] div_mult_mod_eq [of g k] assms(2) by simp

end
