(* ===== verification/Block_Heap.thy ===== *)
theory Block_Heap
  imports Toy_Prelude
begin

text \<open>
  The blocks of an \<open>IOBuffer\<close> (\<open>struct IOBuffer::Block\<close>, src/src/iobuffer.h) and the
  store they live in. Blocks are linked by raw pointers and are shared by the buffer's
  list, its recycling list and its iterators, so the store is explicit: an address is an
  index of a list of cells, \<open>new\<close> adds a cell at the end and \<open>delete\<close> empties one.
\<close>

section \<open>Blocks\<close>

type_synonym addr = nat

text \<open>
  \<open>b_data\<close> is the array a block owns, a partial map because \<open>new char[n]\<close> leaves it
  unwritten; the source's \<open>next\<close>, \<open>pre\<close>, \<open>start\<close> and \<open>end\<close> keep their roles.
\<close>

record block =
  b_data :: "int \<rightharpoonup> char"
  b_next :: "addr option"
  b_pre :: "addr option"
  b_start :: int
  b_end :: int

definition kDefaultBlockBytes :: int where
  "kDefaultBlockBytes = 8192"

definition new_Block :: block where
  "new_Block = \<lparr>b_data = Map.empty, b_next = None, b_pre = None, b_start = 0, b_end = 0\<rparr>"

definition Block_Full :: "block \<Rightarrow> bool" where
  "Block_Full blk = (b_end blk = kDefaultBlockBytes)"

definition Block_Empty :: "block \<Rightarrow> bool" where
  "Block_Empty blk = (b_end blk = b_start blk)"

definition FreeSpace :: "block \<Rightarrow> int" where
  "FreeSpace blk = kDefaultBlockBytes - b_end blk"

definition Size :: "block \<Rightarrow> int" where
  "Size blk = b_end blk - b_start blk"

definition MarkFull :: "block \<Rightarrow> block" where
  "MarkFull blk = blk\<lparr>b_end := kDefaultBlockBytes\<rparr>"

text \<open>
  \<open>memcpy\<close> to the block at offset \<open>i\<close>: byte \<open>k\<close> of the source goes to \<open>i + k\<close>. The
  copy is a fault when it would leave the array.
\<close>

fun store_bytes :: "(int \<rightharpoonup> char) \<Rightarrow> int \<Rightarrow> char list \<Rightarrow> (int \<rightharpoonup> char)" where
  "store_bytes d i [] = d"
| "store_bytes d i (c # cs) = store_bytes (d(i \<mapsto> c)) (i + 1) cs"

definition copy_to_block :: "block \<Rightarrow> int \<Rightarrow> char list \<Rightarrow> block res" where
  "copy_to_block blk i cs =
     (if 0 \<le> i \<and> i + int (length cs) \<le> kDefaultBlockBytes
      then Inr (blk\<lparr>b_data := store_bytes (b_data blk) i cs\<rparr>) else Inl OutOfBounds)"

section \<open>The store\<close>

type_synonym mem = "block option list"

definition lk :: "mem \<Rightarrow> addr \<Rightarrow> block option" where
  "lk m a = (if a < length m then m ! a else None)"

definition deref :: "mem \<Rightarrow> addr option \<Rightarrow> block res" where
  "deref m p =
     (case p of None \<Rightarrow> Inl NullDeref
      | Some a \<Rightarrow> (case lk m a of None \<Rightarrow> Inl Dangling | Some blk \<Rightarrow> Inr blk))"

definition modify :: "mem \<Rightarrow> addr option \<Rightarrow> (block \<Rightarrow> block) \<Rightarrow> mem res" where
  "modify m p f =
     (case p of None \<Rightarrow> Inl NullDeref
      | Some a \<Rightarrow> (case lk m a of None \<Rightarrow> Inl Dangling
                   | Some blk \<Rightarrow> Inr (m[a := Some (f blk)])))"

definition delete_block :: "mem \<Rightarrow> addr \<Rightarrow> mem res" where
  "delete_block m a = (case lk m a of None \<Rightarrow> Inl Dangling | Some blk \<Rightarrow> Inr (m[a := None]))"

lemma lk_update: "lk (m[a := v]) c = (if c = a \<and> a < length m then v else lk m c)"
  by (auto simp: lk_def)

lemma lk_SomeD: "lk m a = Some blk \<Longrightarrow> a < length m"
  by (auto simp: lk_def split: if_splits)

lemma lk_update_same [simp]: "lk m a = Some blk \<Longrightarrow> lk (m[a := v]) a = v"
  by (simp add: lk_update lk_SomeD)

lemma lk_update_other [simp]: "c \<noteq> a \<Longrightarrow> lk (m[a := v]) c = lk m c"
  by (simp add: lk_update)

lemma lk_alloc: "lk (m @ [v]) c = (if c = length m then v else lk m c)"
  by (auto simp: lk_def nth_append)

lemma lk_fresh [simp]: "lk m (length m) = None"
  by (simp add: lk_def)

lemma deref_Some [simp]: "lk m a = Some blk \<Longrightarrow> deref m (Some a) = Inr blk"
  by (simp add: deref_def)

lemma deref_None [simp]: "deref m None = Inl NullDeref"
  by (simp add: deref_def)

lemma modify_Some [simp]: "lk m a = Some blk \<Longrightarrow> modify m (Some a) f = Inr (m[a := Some (f blk)])"
  by (simp add: modify_def)

lemma modify_None [simp]: "modify m None f = Inl NullDeref"
  by (simp add: modify_def)

section \<open>What a block holds\<close>

definition block_ok :: "block \<Rightarrow> bool" where
  "block_ok blk \<longleftrightarrow> 0 \<le> b_start blk \<and> b_start blk \<le> b_end blk \<and> b_end blk \<le> kDefaultBlockBytes
     \<and> (\<forall>i \<in> {b_start blk..<b_end blk}. b_data blk i \<noteq> None)"

definition chunk :: "block \<Rightarrow> char list" where
  "chunk blk = map (\<lambda>i. the (b_data blk i)) [b_start blk..b_end blk - 1]"

lemma length_chunk: "length (chunk blk) = nat (Size blk)"
  by (simp add: chunk_def Size_def)

lemma block_ok_Size: "block_ok blk \<Longrightarrow> 0 \<le> Size blk \<and> Size blk \<le> kDefaultBlockBytes"
  by (auto simp: block_ok_def Size_def)

lemma block_ok_Empty_iff: "block_ok blk \<Longrightarrow> Block_Empty blk \<longleftrightarrow> chunk blk = []"
  by (auto simp: block_ok_def Block_Empty_def chunk_def)

lemma chunk_link [simp]:
  "chunk (blk\<lparr>b_next := x\<rparr>) = chunk blk" "chunk (blk\<lparr>b_pre := y\<rparr>) = chunk blk"
  "block_ok (blk\<lparr>b_next := x\<rparr>) = block_ok blk" "block_ok (blk\<lparr>b_pre := y\<rparr>) = block_ok blk"
  by (simp_all add: chunk_def block_ok_def)

lemma store_bytes_lookup:
  "store_bytes d i cs j =
     (if i \<le> j \<and> j < i + int (length cs) then Some (cs ! nat (j - i)) else d j)"
proof (induction cs arbitrary: d i)
  case Nil
  then show ?case by auto
next
  case (Cons c cs)
  have "nat (j - i) = Suc (nat (j - (i + 1)))" if "i < j" using that by simp
  then show ?case by (auto simp: Cons.IH)
qed

text \<open>Filling the free end of a block appends to what it holds.\<close>

definition extend_block :: "block \<Rightarrow> char list \<Rightarrow> block" where
  "extend_block blk cs =
     blk\<lparr>b_data := store_bytes (b_data blk) (b_end blk) cs, b_end := b_end blk + int (length cs)\<rparr>"

lemma extend_block_ok:
  "block_ok blk \<Longrightarrow> int (length cs) \<le> FreeSpace blk \<Longrightarrow> block_ok (extend_block blk cs)"
  by (auto simp: block_ok_def extend_block_def FreeSpace_def store_bytes_lookup)

lemma chunk_extend_block:
  assumes "block_ok blk"
  shows "chunk (extend_block blk cs) = chunk blk @ cs"
proof -
  let ?d = "store_bytes (b_data blk) (b_end blk) cs" and ?g = "\<lambda>i. the (b_data blk i)"
  have le: "b_start blk \<le> b_end blk" using assms by (simp add: block_ok_def)
  have split: "[b_start blk..b_end blk + int (length cs) - 1]
      = [b_start blk..b_end blk - 1] @ [b_end blk..b_end blk + int (length cs) - 1]"
    by (rule upto_append) (use le in simp_all)
  have old: "map (\<lambda>i. the (?d i)) [b_start blk..b_end blk - 1] = map ?g [b_start blk..b_end blk - 1]"
    by (rule map_eq_on) (simp add: store_bytes_lookup)
  have new: "map (\<lambda>i. the (?d i)) [b_end blk..b_end blk + int (length cs) - 1] = cs"
    by (rule map_upto_nth) (simp add: store_bytes_lookup)
  have "chunk (extend_block blk cs)
      = map (\<lambda>i. the (?d i)) [b_start blk..b_end blk + int (length cs) - 1]"
    by (simp add: chunk_def extend_block_def)
  also have "\<dots> = map ?g [b_start blk..b_end blk - 1] @ cs"
    unfolding split map_append old new ..
  finally show ?thesis by (simp add: chunk_def)
qed

lemma extend_block_link [simp]:
  "b_next (extend_block blk cs) = b_next blk" "b_pre (extend_block blk cs) = b_pre blk"
  "b_start (extend_block blk cs) = b_start blk"
  "b_end (extend_block blk cs) = b_end blk + int (length cs)"
  by (simp_all add: extend_block_def)

lemma chunk_advance:
  assumes "block_ok blk" "0 \<le> n" "n \<le> Size blk"
  shows "chunk (blk\<lparr>b_start := b_start blk + n\<rparr>) = drop (nat n) (chunk blk)"
  using assms drop_map_upto [of "b_start blk" "b_start blk + n" "b_end blk - 1" "\<lambda>i. the (b_data blk i)"]
  unfolding chunk_def Size_def block_ok_def by (simp del: drop_map)

lemma block_ok_advance:
  "block_ok blk \<Longrightarrow> 0 \<le> n \<Longrightarrow> n \<le> Size blk \<Longrightarrow> block_ok (blk\<lparr>b_start := b_start blk + n\<rparr>)"
  by (auto simp: block_ok_def Size_def)

lemma chunk_retreat:
  assumes "block_ok blk" "0 \<le> n" "n \<le> Size blk"
  shows "chunk (blk\<lparr>b_end := b_end blk - n\<rparr>) = take (nat (Size blk - n)) (chunk blk)"
proof -
  have "nat (Size blk - n) = nat (b_end blk - n - b_start blk)" by (simp add: Size_def algebra_simps)
  with assms take_map_upto [of "b_start blk" "b_end blk - n" "b_end blk - 1" "\<lambda>i. the (b_data blk i)"]
  show ?thesis unfolding chunk_def Size_def block_ok_def by (simp del: take_map)
qed

lemma block_ok_retreat:
  "block_ok blk \<Longrightarrow> 0 \<le> n \<Longrightarrow> n \<le> Size blk \<Longrightarrow> block_ok (blk\<lparr>b_end := b_end blk - n\<rparr>)"
  by (auto simp: block_ok_def Size_def)

lemma new_Block_ok [simp]: "block_ok new_Block" "chunk new_Block = []"
  by (simp_all add: block_ok_def new_Block_def chunk_def kDefaultBlockBytes_def)

section \<open>Linked segments\<close>

text \<open>
  \<open>dseg m pr p as nx\<close>: from pointer \<open>p\<close> the blocks \<open>as\<close> follow each other by \<open>next\<close>, the
  last one points to \<open>nx\<close>, and each \<open>pre\<close> names the block before it (\<open>pr\<close> for the first).
  \<open>fseg m p fs\<close>: from \<open>p\<close> the recycled blocks \<open>fs\<close> follow each other by \<open>next\<close> to the null
  pointer (the recycling list keeps no \<open>pre\<close>), each with an empty range.
\<close>

fun dseg :: "mem \<Rightarrow> addr option \<Rightarrow> addr option \<Rightarrow> addr list \<Rightarrow> addr option \<Rightarrow> bool" where
  "dseg m pr p [] nx \<longleftrightarrow> p = nx"
| "dseg m pr p (a # as) nx \<longleftrightarrow> p = Some a \<and>
     (case lk m a of None \<Rightarrow> False
      | Some blk \<Rightarrow> b_pre blk = pr \<and> dseg m (Some a) (b_next blk) as nx)"

fun fseg :: "mem \<Rightarrow> addr option \<Rightarrow> addr list \<Rightarrow> bool" where
  "fseg m p [] \<longleftrightarrow> p = None"
| "fseg m p (a # as) \<longleftrightarrow> p = Some a \<and>
     (case lk m a of None \<Rightarrow> False
      | Some blk \<Rightarrow> b_start blk = 0 \<and> b_end blk = 0 \<and> fseg m (b_next blk) as)"

definition last_ptr :: "addr option \<Rightarrow> addr list \<Rightarrow> addr option" where
  "last_ptr pr as = (if as = [] then pr else Some (last as))"

lemma last_ptr_simps [simp]:
  "last_ptr pr [] = pr" "last_ptr pr (a # as) = last_ptr (Some a) as"
  "last_ptr pr (as @ [a]) = Some a"
  by (simp_all add: last_ptr_def)

lemma dseg_append:
  "dseg m pr p (as @ bs) nx \<longleftrightarrow> (\<exists>q. dseg m pr p as q \<and> dseg m (last_ptr pr as) q bs nx)"
  by (induction as arbitrary: pr p) (auto split: option.splits)

lemma dseg_cong:
  "(\<And>a. a \<in> set as \<Longrightarrow> lk m' a = lk m a) \<Longrightarrow> dseg m' pr p as nx = dseg m pr p as nx"
  by (induction as arbitrary: pr p) (auto split: option.splits)

lemma fseg_cong:
  "(\<And>a. a \<in> set as \<Longrightarrow> lk m' a = lk m a) \<Longrightarrow> fseg m' p as = fseg m p as"
  by (induction as arbitrary: p) (auto split: option.splits)

lemma dseg_alive: "dseg m pr p as nx \<Longrightarrow> a \<in> set as \<Longrightarrow> \<exists>blk. lk m a = Some blk"
  by (induction as arbitrary: pr p) (auto split: option.splits)

lemma fseg_alive: "fseg m p as \<Longrightarrow> a \<in> set as \<Longrightarrow> \<exists>blk. lk m a = Some blk"
  by (induction as arbitrary: p) (auto split: option.splits)

text \<open>Walking a list of blocks by \<open>next\<close>, bounded by the number of cells.\<close>

fun chain :: "mem \<Rightarrow> nat \<Rightarrow> addr option \<Rightarrow> addr list" where
  "chain m 0 p = []"
| "chain m (Suc n) p =
     (case p of None \<Rightarrow> []
      | Some a \<Rightarrow> (case lk m a of None \<Rightarrow> [] | Some blk \<Rightarrow> a # chain m n (b_next blk)))"

lemma chain_dseg: "dseg m pr p as None \<Longrightarrow> length as \<le> n \<Longrightarrow> chain m n p = as"
proof (induction as arbitrary: pr p n)
  case Nil
  then show ?case by (cases n) auto
next
  case (Cons a as)
  then obtain n' where "n = Suc n'" by (cases n) auto
  with Cons show ?case by (auto split: option.splits)
qed

lemma chain_fseg: "fseg m p as \<Longrightarrow> length as \<le> n \<Longrightarrow> chain m n p = as"
proof (induction as arbitrary: p n)
  case Nil
  then show ?case by (cases n) auto
next
  case (Cons a as)
  then obtain n' where "n = Suc n'" by (cases n) auto
  with Cons show ?case by (auto split: option.splits)
qed

end
