(* ===== verification/IOBuffer.thy ===== *)
theory IOBuffer
  imports Block_Heap
begin

text \<open>
  \<open>class IOBuffer\<close> (src/src/iobuffer.h, src/src/iobuffer.cc): a byte queue kept as a doubly
  linked list of fixed-size blocks with a list of recycled blocks. Every method is a
  function of the store and the three pointers of the buffer, with the null, dangling and
  out-of-bounds accesses of the code as faults; \<open>buf_inv\<close> is the representation invariant
  and \<open>contents\<close> the byte string a buffer stands for.
\<close>

section \<open>State\<close>

record iobuffer =
  io_head :: "addr option"
  io_tail :: "addr option"
  io_recycled :: "addr option"

definition IOBuffer_init :: iobuffer where
  "IOBuffer_init = \<lparr>io_head = None, io_tail = None, io_recycled = None\<rparr>"

text \<open>
  Replies of the kernel. \<open>readv\<close> and \<open>writev\<close> are parameters of the operations that call
  them: a function of the two free lengths, and of the ranges handed over.
\<close>

datatype errno = EINTR | EAGAIN | EWOULDBLOCK | EINPROGRESS | EOTHER nat

datatype read_reply = ReadErr errno | ReadBytes "char list"

datatype write_reply = WriteErr errno | Wrote nat

definition read_rc :: "read_reply \<Rightarrow> int" where
  "read_rc r = (case r of ReadErr e \<Rightarrow> - 1 | ReadBytes bs \<Rightarrow> int (length bs))"

definition write_rc :: "write_reply \<Rightarrow> int" where
  "write_rc r = (case r of WriteErr e \<Rightarrow> - 1 | Wrote n \<Rightarrow> int n)"

text \<open>
  A bound for the loops that walk or drain a buffer: every cell is visited once and every
  byte of it dropped once, so a loop that runs longer has met a cycle or makes no progress.
\<close>

definition steps :: "mem \<Rightarrow> nat" where
  "steps m = nat kDefaultBlockBytes * length m + length m + 1"

section \<open>Operations\<close>

definition IOBuffer_Empty :: "mem \<Rightarrow> iobuffer \<Rightarrow> bool res" where
  "IOBuffer_Empty m b =
     (if io_head b = None \<and> io_tail b = None then Inr True
      else bindR (deref m (io_head b)) (\<lambda>blk. Inr (Block_Empty blk)))"

definition FreeSpaceWrapper :: "mem \<Rightarrow> addr option \<Rightarrow> int res" where
  "FreeSpaceWrapper m p =
     (case p of None \<Rightarrow> Inr 0 | Some a \<Rightarrow> bindR (deref m p) (\<lambda>blk. Inr (FreeSpace blk)))"

definition SizeWrapper :: "mem \<Rightarrow> addr option \<Rightarrow> int res" where
  "SizeWrapper m p =
     (case p of None \<Rightarrow> Inr 0 | Some a \<Rightarrow> bindR (deref m p) (\<lambda>blk. Inr (Size blk)))"

definition MarkFilled :: "iobuffer \<Rightarrow> int \<Rightarrow> unit res" where
  "MarkFilled b len = CHECK (io_tail b \<noteq> None) (CHECK False (Inr ()))"

definition AllocateBlock :: "mem \<Rightarrow> iobuffer \<Rightarrow> (addr \<times> mem \<times> iobuffer) res" where
  "AllocateBlock m b =
     (case io_recycled b of
        Some a \<Rightarrow>
          bindR (deref m (Some a)) (\<lambda>blk.
          bindR (modify m (Some a) (\<lambda>x. x\<lparr>b_next := None\<rparr>)) (\<lambda>m'.
          Inr (a, m', b\<lparr>io_recycled := b_next blk\<rparr>)))
      | None \<Rightarrow> Inr (length m, m @ [Some new_Block], b))"

definition RecycleBlock :: "mem \<Rightarrow> iobuffer \<Rightarrow> addr option \<Rightarrow> (mem \<times> iobuffer) res" where
  "RecycleBlock m b p =
     bindR (modify m p (\<lambda>x. x\<lparr>b_start := 0, b_end := 0, b_pre := None, b_next := io_recycled b\<rparr>))
       (\<lambda>m'. Inr (m', b\<lparr>io_recycled := p\<rparr>))"

definition Append_block :: "mem \<Rightarrow> iobuffer \<Rightarrow> addr option \<Rightarrow> (mem \<times> iobuffer) res" where
  "Append_block m b p =
     (case p of None \<Rightarrow> Inr (m, b)
      | Some a \<Rightarrow>
         bindR (IOBuffer_Empty m b) (\<lambda>e.
           if e then
             bindR (modify m p (\<lambda>x. x\<lparr>b_pre := None, b_next := None\<rparr>)) (\<lambda>m'.
             Inr (m', b\<lparr>io_head := p, io_tail := p\<rparr>))
           else
             bindR (modify m (io_tail b) (\<lambda>x. x\<lparr>b_next := p\<rparr>)) (\<lambda>m1.
             bindR (modify m1 p (\<lambda>x. x\<lparr>b_pre := io_tail b\<rparr>)) (\<lambda>m2.
             Inr (m2, b\<lparr>io_tail := p\<rparr>)))))"

definition Append_buffer :: "mem \<Rightarrow> iobuffer \<Rightarrow> iobuffer \<Rightarrow> (mem \<times> iobuffer \<times> iobuffer) res" where
  "Append_buffer m b other =
     bindR (IOBuffer_Empty m other) (\<lambda>eo.
       if eo then Inr (m, b, other)
       else
         bindR (IOBuffer_Empty m b) (\<lambda>e.
         bindR (if e then Inr (m, b\<lparr>io_head := io_head other, io_tail := io_tail other\<rparr>)
                else
                  bindR (modify m (io_tail b) (\<lambda>x. x\<lparr>b_next := io_head other\<rparr>)) (\<lambda>m1.
                  bindR (modify m1 (io_head other) (\<lambda>x. x\<lparr>b_pre := io_tail b\<rparr>)) (\<lambda>m2.
                  Inr (m2, b\<lparr>io_tail := io_tail other\<rparr>))))
           (\<lambda>(m', b'). Inr (m', b', other\<lparr>io_head := None, io_tail := None\<rparr>))))"

text \<open>
  The loop of \<open>Append(const char*, size_t)\<close>; its argument is the part of the data that is
  still to be copied (\<open>var_len\<close> is its length, \<open>idx\<close> the number of bytes before it).
\<close>

fun Append_loop :: "nat \<Rightarrow> mem \<Rightarrow> iobuffer \<Rightarrow> char list \<Rightarrow> (mem \<times> iobuffer) res" where
  "Append_loop 0 m b rest = Inl FuelOut"
| "Append_loop (Suc n) m b rest =
     (if rest = [] then Inr (m, b)
      else
        bindR (FreeSpaceWrapper m (io_tail b)) (\<lambda>fs.
          if fs = 0 then
            bindR (AllocateBlock m b) (\<lambda>(a, m1, b1).
            bindR (Append_block m1 b1 (Some a)) (\<lambda>(m2, b2).
            Append_loop n m2 b2 rest))
          else if fs \<le> int (length rest) then
            bindR (deref m (io_tail b)) (\<lambda>t.
            bindR (copy_to_block t (b_end t) (take (nat fs) rest)) (\<lambda>t'.
            bindR (modify m (io_tail b) (\<lambda>_. MarkFull t')) (\<lambda>m1.
            Append_loop n m1 b (drop (nat fs) rest))))
          else
            bindR (deref m (io_tail b)) (\<lambda>t.
            bindR (copy_to_block t (b_end t) rest) (\<lambda>t'.
            bindR (modify m (io_tail b) (\<lambda>_. t'\<lparr>b_end := b_end t' + int (length rest)\<rparr>)) (\<lambda>m1.
            Inr (m1, b))))))"

definition Append_bytes :: "mem \<Rightarrow> iobuffer \<Rightarrow> char list \<Rightarrow> (mem \<times> iobuffer) res" where
  "Append_bytes m b buff = Append_loop (2 * length buff + 1) m b buff"

definition ForwardHeadByOneBlock :: "mem \<Rightarrow> iobuffer \<Rightarrow> (mem \<times> iobuffer) res" where
  "ForwardHeadByOneBlock m b =
     bindR (IOBuffer_Empty m b) (\<lambda>e.
       if e then Inr (m, b)
       else
         bindR (deref m (io_head b)) (\<lambda>h.
         bindR (case b_next h of
                  Some a \<Rightarrow> bindR (modify m (Some a) (\<lambda>x. x\<lparr>b_pre := None\<rparr>))
                              (\<lambda>m1. Inr (m1, b\<lparr>io_head := Some a\<rparr>))
                | None \<Rightarrow> Inr (m, b\<lparr>io_head := None, io_tail := None\<rparr>))
           (\<lambda>(m1, b1). RecycleBlock m1 b1 (io_head b))))"

definition BackwardTailByOneBlock :: "mem \<Rightarrow> iobuffer \<Rightarrow> (mem \<times> iobuffer) res" where
  "BackwardTailByOneBlock m b =
     bindR (IOBuffer_Empty m b) (\<lambda>e.
       if e then Inr (m, b)
       else
         bindR (deref m (io_tail b)) (\<lambda>t.
         bindR (case b_pre t of
                  Some a \<Rightarrow> bindR (modify m (Some a) (\<lambda>x. x\<lparr>b_next := None\<rparr>))
                              (\<lambda>m1. Inr (m1, b\<lparr>io_tail := Some a\<rparr>))
                | None \<Rightarrow> Inr (m, b\<lparr>io_tail := None, io_head := None\<rparr>))
           (\<lambda>(m1, b1). RecycleBlock m1 b1 (io_tail b))))"

fun PopFront_loop :: "nat \<Rightarrow> mem \<Rightarrow> iobuffer \<Rightarrow> int \<Rightarrow> (mem \<times> iobuffer) res" where
  "PopFront_loop 0 m b len = Inl FuelOut"
| "PopFront_loop (Suc n) m b len =
     (if len > 0 then
        bindR (IOBuffer_Empty m b) (\<lambda>e.
          if e then Inr (m, b)
          else
            bindR (deref m (io_head b)) (\<lambda>h.
              let fs = Size h in
              if fs \<le> len then
                bindR (ForwardHeadByOneBlock m b) (\<lambda>(m1, b1). PopFront_loop n m1 b1 (len - fs))
              else
                bindR (modify m (io_head b) (\<lambda>x. x\<lparr>b_start := b_start x + len\<rparr>))
                  (\<lambda>m1. PopFront_loop n m1 b len)))
      else Inr (m, b))"

definition PopFront :: "mem \<Rightarrow> iobuffer \<Rightarrow> int \<Rightarrow> (mem \<times> iobuffer) res" where
  "PopFront m b len = PopFront_loop (steps m) m b len"

fun PopBack_loop :: "nat \<Rightarrow> mem \<Rightarrow> iobuffer \<Rightarrow> int \<Rightarrow> (mem \<times> iobuffer) res" where
  "PopBack_loop 0 m b len = Inl FuelOut"
| "PopBack_loop (Suc n) m b len =
     (if len > 0 then
        bindR (IOBuffer_Empty m b) (\<lambda>e.
          if e then Inr (m, b)
          else
            bindR (deref m (io_tail b)) (\<lambda>t.
              let fs = Size t in
              if fs \<le> len then
                bindR (BackwardTailByOneBlock m b) (\<lambda>(m1, b1). PopBack_loop n m1 b1 (len - fs))
              else
                bindR (modify m (io_tail b) (\<lambda>x. x\<lparr>b_end := b_end x - len\<rparr>))
                  (\<lambda>m1. PopBack_loop n m1 b len)))
      else Inr (m, b))"

definition PopBack :: "mem \<Rightarrow> iobuffer \<Rightarrow> int \<Rightarrow> (mem \<times> iobuffer) res" where
  "PopBack m b len = PopBack_loop (steps m) m b len"

fun Clear_loop :: "nat \<Rightarrow> mem \<Rightarrow> iobuffer \<Rightarrow> (mem \<times> iobuffer) res" where
  "Clear_loop 0 m b = Inl FuelOut"
| "Clear_loop (Suc n) m b =
     (if io_head b \<noteq> io_tail b then
        bindR (RecycleBlock m b (io_head b)) (\<lambda>(m1, b1).
        bindR (deref m1 (io_head b1)) (\<lambda>h.
        Clear_loop n m1 (b1\<lparr>io_head := b_next h\<rparr>)))
      else Inr (m, b\<lparr>io_head := None, io_tail := None\<rparr>))"

definition IOBuffer_Clear :: "mem \<Rightarrow> iobuffer \<Rightarrow> (mem \<times> iobuffer) res" where
  "IOBuffer_Clear m b = Clear_loop (steps m) m b"

text \<open>The destructor deletes the recycled blocks and no others.\<close>

fun destroy_loop :: "nat \<Rightarrow> mem \<Rightarrow> iobuffer \<Rightarrow> (mem \<times> iobuffer) res" where
  "destroy_loop 0 m b = Inl FuelOut"
| "destroy_loop (Suc n) m b =
     (case io_recycled b of
        None \<Rightarrow> Inr (m, b)
      | Some a \<Rightarrow>
          bindR (deref m (Some a)) (\<lambda>blk.
          bindR (delete_block m a) (\<lambda>m1.
          destroy_loop n m1 (b\<lparr>io_recycled := b_next blk\<rparr>))))"

definition IOBuffer_destroy :: "mem \<Rightarrow> iobuffer \<Rightarrow> (mem \<times> iobuffer) res" where
  "IOBuffer_destroy m b = bindR (IOBuffer_Empty m b) (\<lambda>_. destroy_loop (steps m) m b)"

section \<open>Socket transfers\<close>

text \<open>\<open>readv\<close> fills the first range before the second.\<close>

definition scatter :: "mem \<Rightarrow> addr option \<Rightarrow> int \<Rightarrow> int \<Rightarrow> addr option \<Rightarrow> int \<Rightarrow> char list \<Rightarrow> mem res" where
  "scatter m p0 off0 n0 p1 off1 bytes =
     bindR (deref m p0) (\<lambda>x0.
     bindR (copy_to_block x0 off0 (take (nat n0) bytes)) (\<lambda>y0.
     bindR (modify m p0 (\<lambda>_. y0)) (\<lambda>m1.
     bindR (deref m1 p1) (\<lambda>x1.
     bindR (copy_to_block x1 off1 (drop (nat n0) bytes)) (\<lambda>y1.
     modify m1 p1 (\<lambda>_. y1))))))"

definition ReadFromSock ::
  "(int \<Rightarrow> int \<Rightarrow> read_reply) \<Rightarrow> mem \<Rightarrow> iobuffer \<Rightarrow> (read_reply \<times> mem \<times> iobuffer) res" where
  "ReadFromSock readv m b =
     bindR (IOBuffer_Empty m b) (\<lambda>e.
     bindR (if e then bindR (AllocateBlock m b) (\<lambda>(a, m', b'). Append_block m' b' (Some a))
            else Inr (m, b)) (\<lambda>(m0, b0).
     bindR (deref m0 (io_tail b0)) (\<lambda>t.
     bindR (AllocateBlock m0 b0) (\<lambda>(a, m1, b1).
     bindR (deref m1 (Some a)) (\<lambda>blk.
       let n0 = FreeSpace t; n1 = FreeSpace blk; reply = readv n0 n1; rc = read_rc reply in
       case reply of
         ReadErr _ \<Rightarrow>
           bindR (RecycleBlock m1 b1 (Some a)) (\<lambda>(m2, b2). Inr (reply, m2, b2))
       | ReadBytes bytes \<Rightarrow>
           if rc \<le> 0 then
             bindR (RecycleBlock m1 b1 (Some a)) (\<lambda>(m2, b2). Inr (reply, m2, b2))
           else
             bindR (scatter m1 (io_tail b1) (b_end t) n0 (Some a) (b_end blk) bytes) (\<lambda>m2.
               if rc < n0 then
                 bindR (RecycleBlock m2 b1 (Some a)) (\<lambda>(m3, b2).
                 bindR (modify m3 (io_tail b2) (\<lambda>x. x\<lparr>b_end := b_end x + rc\<rparr>)) (\<lambda>m4.
                 Inr (reply, m4, b2)))
               else
                 bindR (modify m2 (io_tail b1) MarkFull) (\<lambda>m3.
                 bindR (Append_block m3 b1 (Some a)) (\<lambda>(m4, b2).
                 Inr (reply, m4, b2)))))))))"

definition read_range :: "block \<Rightarrow> int \<Rightarrow> int \<Rightarrow> char list res" where
  "read_range blk i j =
     (if 0 \<le> i \<and> i \<le> j \<and> j \<le> kDefaultBlockBytes then
        if \<forall>k \<in> set [i..j - 1]. b_data blk k \<noteq> None
        then Inr (map (\<lambda>k. the (b_data blk k)) [i..j - 1]) else Inl Uninit
      else Inl OutOfBounds)"

definition kMaxVCnt :: nat where
  "kMaxVCnt = 4"

fun gather :: "nat \<Rightarrow> mem \<Rightarrow> addr option \<Rightarrow> char list list res" where
  "gather 0 m p = Inr []"
| "gather (Suc n) m p =
     (case p of None \<Rightarrow> Inr []
      | Some a \<Rightarrow>
          bindR (deref m p) (\<lambda>blk.
          bindR (read_range blk (b_start blk) (b_end blk)) (\<lambda>cs.
          bindR (gather n m (b_next blk)) (\<lambda>css.
          Inr (cs # css)))))"

text \<open>The result of a write: the ranges handed to \<open>writev\<close> (none, without a call) and its reply.\<close>

definition WriteToSock ::
  "(char list list \<Rightarrow> write_reply) \<Rightarrow> mem \<Rightarrow> iobuffer \<Rightarrow> (char list list \<times> write_reply) res" where
  "WriteToSock writev m b =
     bindR (IOBuffer_Empty m b) (\<lambda>e.
       if e then Inr ([], Wrote 0)
       else bindR (gather kMaxVCnt m (io_head b)) (\<lambda>vecs. Inr (vecs, writev vecs)))"

end
