(* ===== verification/IOBuffer_Inv.thy ===== *)
theory IOBuffer_Inv
  imports IOBuffer
begin

text \<open>
  The representation invariant of an \<open>IOBuffer\<close>, the byte string it stands for, and the
  effect of the block-level operations on both.
\<close>

section \<open>Representation invariant\<close>

text \<open>
  \<open>buf_wf m b as fs\<close>: the blocks \<open>as\<close> form the doubly linked list from \<open>head_\<close> to \<open>tail_\<close>,
  \<open>fs\<close> the recycling list, no block occurs twice, and every listed block has a valid
  range of written bytes.
\<close>

definition buf_wf :: "mem \<Rightarrow> iobuffer \<Rightarrow> addr list \<Rightarrow> addr list \<Rightarrow> bool" where
  "buf_wf m b as fs \<longleftrightarrow>
     dseg m None (io_head b) as None \<and> io_tail b = last_ptr None as \<and>
     fseg m (io_recycled b) fs \<and> distinct (as @ fs) \<and>
     (\<forall>a \<in> set as. block_ok (the (lk m a)))"

definition held :: "mem \<Rightarrow> addr list \<Rightarrow> char list list" where
  "held m as = map (\<lambda>a. chunk (the (lk m a))) as"

text \<open>
  \<open>Empty()\<close> looks at the first block only, so the invariant asks that a first block
  without bytes is the only block.
\<close>

definition front_ok :: "char list list \<Rightarrow> bool" where
  "front_ok cs \<longleftrightarrow> (case cs of [] \<Rightarrow> True | c # cs' \<Rightarrow> c = [] \<longrightarrow> cs' = [])"

definition buf_inv :: "mem \<Rightarrow> iobuffer \<Rightarrow> addr list \<Rightarrow> addr list \<Rightarrow> bool" where
  "buf_inv m b as fs \<longleftrightarrow> buf_wf m b as fs \<and> front_ok (held m as)"

definition blocks_of :: "mem \<Rightarrow> iobuffer \<Rightarrow> addr list" where
  "blocks_of m b = chain m (length m) (io_head b)"

definition recycled_of :: "mem \<Rightarrow> iobuffer \<Rightarrow> addr list" where
  "recycled_of m b = chain m (length m) (io_recycled b)"

definition contents :: "mem \<Rightarrow> iobuffer \<Rightarrow> char list" where
  "contents m b = concat (held m (blocks_of m b))"

definition valid_buffer :: "mem \<Rightarrow> iobuffer \<Rightarrow> bool" where
  "valid_buffer m b \<longleftrightarrow> buf_inv m b (blocks_of m b) (recycled_of m b)"

lemma buf_wf_alive: "buf_wf m b as fs \<Longrightarrow> a \<in> set as \<union> set fs \<Longrightarrow> a < length m"
  unfolding buf_wf_def using dseg_alive fseg_alive lk_SomeD by blast

lemma buf_wf_length: "buf_wf m b as fs \<Longrightarrow> length as \<le> length m \<and> length fs \<le> length m"
  using buf_wf_alive by (auto simp: buf_wf_def intro!: distinct_bounded_length)

lemma buf_wf_blocks: "buf_wf m b as fs \<Longrightarrow> blocks_of m b = as"
  using buf_wf_length by (auto simp: blocks_of_def buf_wf_def intro: chain_dseg)

lemma buf_wf_recycled: "buf_wf m b as fs \<Longrightarrow> recycled_of m b = fs"
  using buf_wf_length by (auto simp: recycled_of_def buf_wf_def intro: chain_fseg)

lemma buf_wf_contents: "buf_wf m b as fs \<Longrightarrow> contents m b = concat (held m as)"
  by (simp add: contents_def buf_wf_blocks)

lemma buf_inv_valid: "buf_inv m b as fs \<Longrightarrow> valid_buffer m b"
  using buf_wf_blocks buf_wf_recycled by (auto simp: valid_buffer_def buf_inv_def)

lemma valid_buffer_iff: "valid_buffer m b \<longleftrightarrow> (\<exists>as fs. buf_inv m b as fs)"
  using buf_inv_valid by (auto simp: valid_buffer_def)

lemma buf_inv_wf: "buf_inv m b as fs \<Longrightarrow> buf_wf m b as fs"
  by (simp add: buf_inv_def)

lemma buf_wf_init: "buf_wf m IOBuffer_init [] []"
  by (simp add: buf_wf_def IOBuffer_init_def)

lemma buf_inv_init: "buf_inv m IOBuffer_init [] []"
  by (simp add: buf_inv_def buf_wf_init held_def front_ok_def)

lemma held_simps [simp]:
  "held m [] = []" "held m (a # as) = chunk (the (lk m a)) # held m as"
  "held m (as @ bs) = held m as @ held m bs"
  by (simp_all add: held_def)

lemma held_cong: "(\<And>a. a \<in> set as \<Longrightarrow> lk m' a = lk m a) \<Longrightarrow> held m' as = held m as"
  by (simp add: held_def)

lemma length_held [simp]: "length (held m as) = length as"
  by (simp add: held_def)

lemma front_ok_simps [simp]:
  "front_ok []" "front_ok [c]" "front_ok (c # d # cs) \<longleftrightarrow> c \<noteq> []"
  by (auto simp: front_ok_def)

section \<open>Reading the ends\<close>

lemma buf_wf_head:
  assumes "buf_wf m b (a # as) fs"
  obtains blk where "io_head b = Some a" "lk m a = Some blk" "block_ok blk" "b_pre blk = None"
    "dseg m (Some a) (b_next blk) as None"
  using assms by (auto simp: buf_wf_def split: option.splits)

lemma buf_wf_tail:
  assumes "buf_wf m b (as @ [a]) fs"
  obtains blk where "io_tail b = Some a" "lk m a = Some blk" "block_ok blk" "b_next blk = None"
    "b_pre blk = last_ptr None as"
  using assms by (auto simp: buf_wf_def dseg_append split: option.splits)

lemma Empty_wf:
  assumes "buf_wf m b as fs"
  shows "IOBuffer_Empty m b = Inr (as = [] \<or> hd (held m as) = [])"
proof (cases as)
  case Nil
  with assms show ?thesis by (simp add: buf_wf_def IOBuffer_Empty_def)
next
  case (Cons a as')
  with assms obtain blk where "io_head b = Some a" "lk m a = Some blk" "block_ok blk"
    using buf_wf_head by metis
  with Cons show ?thesis by (simp add: IOBuffer_Empty_def block_ok_Empty_iff)
qed

lemma Empty_inv:
  assumes "buf_inv m b as fs"
  shows "IOBuffer_Empty m b = Inr (concat (held m as) = [])"
proof -
  have "as = [] \<or> hd (held m as) = [] \<longleftrightarrow> concat (held m as) = []"
    using assms by (cases as) (auto simp: buf_inv_def front_ok_def split: list.splits)
  with Empty_wf [OF buf_inv_wf [OF assms]] show ?thesis by simp
qed

lemma Empty_contents:
  "valid_buffer m b \<Longrightarrow> IOBuffer_Empty m b = Inr (contents m b = [])"
  by (metis valid_buffer_def Empty_inv contents_def)

section \<open>Allocation and recycling\<close>

text \<open>
  A block that is in neither list: the result of an allocation, ready to be appended.
\<close>

definition spare :: "mem \<Rightarrow> addr list \<Rightarrow> addr list \<Rightarrow> addr \<Rightarrow> bool" where
  "spare m as fs a \<longleftrightarrow> a \<notin> set as \<union> set fs \<and>
     (\<exists>blk. lk m a = Some blk \<and> b_start blk = 0 \<and> b_end blk = 0 \<and> b_next blk = None)"

lemma buf_wf_frame:
  assumes "buf_wf m b as fs" "\<And>a. a \<in> set as \<union> set fs \<Longrightarrow> lk m' a = lk m a"
  shows "buf_wf m' b as fs" "held m' as = held m as"
proof -
  have "dseg m' None (io_head b) as None = dseg m None (io_head b) as None"
    "fseg m' (io_recycled b) fs = fseg m (io_recycled b) fs"
    by (rule dseg_cong, use assms(2) in blast) (rule fseg_cong, use assms(2) in blast)
  with assms show "buf_wf m' b as fs" by (simp add: buf_wf_def)
  show "held m' as = held m as" by (rule held_cong) (use assms(2) in blast)
qed

lemma spare_ok: "spare m as fs a \<Longrightarrow> block_ok (the (lk m a)) \<and> chunk (the (lk m a)) = []"
  by (auto simp: spare_def block_ok_def chunk_def kDefaultBlockBytes_def)

lemma AllocateBlock_wf:
  assumes wf: "buf_wf m b as fs"
  obtains a m' b' fs' where "AllocateBlock m b = Inr (a, m', b')" "buf_wf m' b' as fs'"
    "spare m' as fs' a" "\<And>c. c \<in> set as \<Longrightarrow> lk m' c = lk m c" "held m' as = held m as"
    "io_head b' = io_head b" "io_tail b' = io_tail b" "set fs' \<subseteq> set fs"
    "length m \<le> length m'" "length m' \<le> Suc (length m)"
    "\<And>c. c \<notin> set fs \<Longrightarrow> c < length m \<Longrightarrow> lk m' c = lk m c"
    "a \<in> set fs \<or> a = length m"
proof (cases fs)
  case Nil
  then have rec: "io_recycled b = None" using wf by (simp add: buf_wf_def)
  let ?m' = "m @ [Some new_Block]"
  have same: "lk ?m' c = lk m c" if "c \<noteq> length m" for c using that by (simp add: lk_alloc)
  have old: "c \<noteq> length m" if "c \<in> set as" for c
    using buf_wf_alive [OF wf] that by auto
  have keep: "lk ?m' c = lk m c" if "c \<in> set as \<union> set fs" for c
    by (rule same) (use that old Nil in auto)
  note wf' = buf_wf_frame(1) [OF wf keep] and held' = buf_wf_frame(2) [OF wf keep]
  show thesis
  proof (rule that [of "length m" ?m' b "[]"])
    show "AllocateBlock m b = Inr (length m, ?m', b)" using rec by (simp add: AllocateBlock_def)
    show "spare ?m' as [] (length m)"
      using old by (auto simp: spare_def lk_alloc new_Block_def)
  qed (use wf' held' same old Nil in auto)
next
  case (Cons a fs')
  with wf obtain blk where blk: "io_recycled b = Some a" "lk m a = Some blk" "b_start blk = 0"
    "b_end blk = 0" "fseg m (b_next blk) fs'"
    by (auto simp: buf_wf_def split: option.splits)
  let ?m' = "m[a := Some (blk\<lparr>b_next := None\<rparr>)]" and ?b' = "b\<lparr>io_recycled := b_next blk\<rparr>"
  have na: "a \<notin> set as" "a \<notin> set fs'" using wf Cons by (auto simp: buf_wf_def)
  have same: "lk ?m' c = lk m c" if "c \<noteq> a" for c using that by simp
  have wf1: "buf_wf m ?b' as fs'" using wf Cons blk by (auto simp: buf_wf_def)
  have keep: "lk ?m' c = lk m c" if "c \<in> set as \<union> set fs'" for c
    by (rule same) (use that na in auto)
  note wf' = buf_wf_frame(1) [OF wf1 keep] and held' = buf_wf_frame(2) [OF wf1 keep]
  show thesis
  proof (rule that [of a ?m' ?b' fs'])
    show "AllocateBlock m b = Inr (a, ?m', ?b')" using blk by (simp add: AllocateBlock_def)
    show "spare ?m' as fs' a" using na blk by (auto simp: spare_def)
  qed (use wf' held' keep Cons in auto)
qed

lemma RecycleBlock_wf:
  assumes wf: "buf_wf m b as fs" and new: "a \<notin> set as \<union> set fs" and blk: "lk m a = Some blk"
  obtains m' b' where "RecycleBlock m b (Some a) = Inr (m', b')" "buf_wf m' b' as (a # fs)"
    "held m' as = held m as" "io_head b' = io_head b" "io_tail b' = io_tail b"
    "length m' = length m" "\<And>c. c \<noteq> a \<Longrightarrow> lk m' c = lk m c"
proof -
  let ?blk' = "blk\<lparr>b_start := 0, b_end := 0, b_pre := None, b_next := io_recycled b\<rparr>"
  let ?m' = "m[a := Some ?blk']" and ?b' = "b\<lparr>io_recycled := Some a\<rparr>"
  have keep: "lk ?m' c = lk m c" if "c \<in> set as \<union> set fs" for c
    by (rule lk_update_other) (use that new in auto)
  note held' = buf_wf_frame(2) [OF wf keep]
  from buf_wf_frame(1) [OF wf keep] have "buf_wf ?m' ?b' as (a # fs)" using new blk by (auto simp: buf_wf_def)
  moreover have "RecycleBlock m b (Some a) = Inr (?m', ?b')"
    using blk by (simp add: RecycleBlock_def)
  ultimately show thesis using that held' by auto
qed

section \<open>Appending a block\<close>

text \<open>Linking a block changes pointers only, never the bytes or the range of a block.\<close>

definition span :: "mem \<Rightarrow> addr \<Rightarrow> ((int \<rightharpoonup> char) \<times> int \<times> int) option" where
  "span m c = map_option (\<lambda>x. (b_data x, b_start x, b_end x)) (lk m c)"

lemma span_eqD:
  assumes "span m' c = span m c" "lk m c = Some blk"
  shows "\<exists>x. lk m' c = Some x \<and> b_data x = b_data blk \<and> b_start x = b_start blk \<and> b_end x = b_end blk"
  using assms by (auto simp: span_def)

lemma buf_wf_snoc:
  assumes wf: "buf_wf m b as fs" and ne: "as \<noteq> []"
    and a: "a \<notin> set as \<union> set fs" "lk m a = Some blk" "b_next blk = None" "block_ok blk"
  obtains m' b' where
    "bindR (modify m (io_tail b) (\<lambda>x. x\<lparr>b_next := Some a\<rparr>)) (\<lambda>m1.
       bindR (modify m1 (Some a) (\<lambda>x. x\<lparr>b_pre := io_tail b\<rparr>)) (\<lambda>m2.
       Inr (m2, b\<lparr>io_tail := Some a\<rparr>))) = Inr (m', b')"
    "buf_wf m' b' (as @ [a]) fs" "held m' (as @ [a]) = held m as @ [chunk blk]"
    "length m' = length m" "\<And>c. c \<notin> set as \<Longrightarrow> c \<noteq> a \<Longrightarrow> lk m' c = lk m c"
    "\<And>c. span m' c = span m c"
proof -
  from ne obtain as0 t where as: "as = as0 @ [t]" by (metis rev_exhaust)
  obtain tb where t: "io_tail b = Some t" "lk m t = Some tb" "b_next tb = None"
    "b_pre tb = last_ptr None as0" "block_ok tb"
    using wf as by (metis buf_wf_tail)
  have nt: "t \<noteq> a" "t \<notin> set as0" "t \<notin> set fs" "a \<notin> set as0" "a \<notin> set fs"
    using a as wf by (auto simp: buf_wf_def)
  let ?m1 = "m[t := Some (tb\<lparr>b_next := Some a\<rparr>)]"
  let ?m' = "?m1[a := Some (blk\<lparr>b_pre := Some t\<rparr>)]" and ?b' = "b\<lparr>io_tail := Some a\<rparr>"
  have lka: "lk ?m1 a = Some blk" using a nt by simp
  have lk': "lk ?m' a = Some (blk\<lparr>b_pre := Some t\<rparr>)" "lk ?m' t = Some (tb\<lparr>b_next := Some a\<rparr>)"
    "\<And>c. c \<noteq> a \<Longrightarrow> c \<noteq> t \<Longrightarrow> lk ?m' c = lk m c"
    using lka nt t by simp_all
  have d0: "dseg m None (io_head b) as0 (Some t)"
    using wf as by (auto simp: buf_wf_def dseg_append)
  have keep: "lk ?m' c = lk m c" if "c \<in> set as0 \<union> set fs" for c
    by (rule lk'(3)) (use that nt in auto)
  have "dseg ?m' None (io_head b) as0 (Some t)"
    using d0 by (subst dseg_cong [of as0 ?m' m]) (use keep in blast)+
  then have "dseg ?m' None (io_head b) (as @ [a]) None"
    using as lk' t a by (auto simp: dseg_append)
  moreover have "fseg ?m' (io_recycled b) fs"
    using wf by (subst fseg_cong [of fs ?m' m]) (use keep in \<open>auto simp: buf_wf_def\<close>)
  moreover have "block_ok (the (lk ?m' c))" if "c \<in> set (as @ [a])" for c
    using that wf as lk' a t by (cases "c = a"; cases "c = t") (auto simp: buf_wf_def)
  ultimately have wf': "buf_wf ?m' ?b' (as @ [a]) fs"
    using wf as a by (simp add: buf_wf_def last_ptr_def)
  have h0: "held ?m' as0 = held m as0" by (rule held_cong) (use keep in blast)
  have held': "held ?m' (as @ [a]) = held m as @ [chunk blk]"
    using as h0 lk' t by simp
  have span': "span ?m' c = span m c" for c
    using lk' t a nt by (cases "c = a"; cases "c = t") (simp_all add: span_def)
  show thesis
    by (rule that [of ?m' ?b']) (use wf' held' t lka lk' as span' in simp_all)
qed

lemma Append_block_nonempty:
  assumes wf: "buf_wf m b as fs" and ne: "as \<noteq> []" "hd (held m as) \<noteq> []"
    and a: "a \<notin> set as \<union> set fs" "lk m a = Some blk" "b_next blk = None" "block_ok blk"
  obtains m' b' where "Append_block m b (Some a) = Inr (m', b')" "buf_wf m' b' (as @ [a]) fs"
    "held m' (as @ [a]) = held m as @ [chunk blk]" "length m' = length m"
    "\<And>c. c \<notin> set as \<Longrightarrow> c \<noteq> a \<Longrightarrow> lk m' c = lk m c" "\<And>c. span m' c = span m c"
proof -
  have e: "IOBuffer_Empty m b = Inr False" using Empty_wf [OF wf] ne by simp
  from buf_wf_snoc [OF wf ne(1) a] obtain m' b' where
    *: "bindR (modify m (io_tail b) (\<lambda>x. x\<lparr>b_next := Some a\<rparr>)) (\<lambda>m1.
       bindR (modify m1 (Some a) (\<lambda>x. x\<lparr>b_pre := io_tail b\<rparr>)) (\<lambda>m2.
       Inr (m2, b\<lparr>io_tail := Some a\<rparr>))) = Inr (m', b')"
    "buf_wf m' b' (as @ [a]) fs" "held m' (as @ [a]) = held m as @ [chunk blk]"
    "length m' = length m" "\<And>c. c \<notin> set as \<Longrightarrow> c \<noteq> a \<Longrightarrow> lk m' c = lk m c"
    "\<And>c. span m' c = span m c" by metis
  have "Append_block m b (Some a) = Inr (m', b')"
    using * e by (simp add: Append_block_def)
  with * that show thesis by blast
qed

text \<open>An append to a buffer that \<open>Empty()\<close> takes for empty replaces its list.\<close>

lemma Append_block_empty:
  assumes wf: "buf_wf m b as fs" and e: "as = [] \<or> hd (held m as) = []"
    and a: "a \<notin> set as \<union> set fs" "lk m a = Some blk" "block_ok blk"
  obtains m' b' where "Append_block m b (Some a) = Inr (m', b')" "buf_wf m' b' [a] fs"
    "held m' [a] = [chunk blk]" "length m' = length m" "\<And>c. c \<noteq> a \<Longrightarrow> lk m' c = lk m c"
    "lk m' a = Some (blk\<lparr>b_pre := None, b_next := None\<rparr>)"
proof -
  let ?blk' = "blk\<lparr>b_pre := None, b_next := None\<rparr>"
  let ?m' = "m[a := Some ?blk']" and ?b' = "b\<lparr>io_head := Some a, io_tail := Some a\<rparr>"
  have "fseg ?m' (io_recycled b) fs"
    using wf a by (subst fseg_cong [of fs ?m' m], use a in \<open>metis lk_update_other UnI2\<close>)
      (auto simp: buf_wf_def)
  then have "buf_wf ?m' ?b' [a] fs" using wf a by (auto simp: buf_wf_def)
  moreover have "Append_block m b (Some a) = Inr (?m', ?b')"
    using Empty_wf [OF wf] e a by (simp add: Append_block_def)
  ultimately show thesis using that a by auto
qed

end
