(* ===== verification/IOBuffer_Queue.thy ===== *)
theory IOBuffer_Queue
  imports IOBuffer_Inv
begin

text \<open>
  The byte-level operations of an \<open>IOBuffer\<close> as operations on the list of chunks the
  blocks hold: appending bytes, dropping blocks at either end, and the loops of
  \<open>PopFront(int)\<close> and \<open>PopBack(int)\<close>.
\<close>

section \<open>Appending bytes\<close>

lemma extend_tail:
  assumes wf: "buf_wf m b (as @ [t]) fs" and tb: "lk m t = Some tb"
    and fits: "int (length cs) \<le> FreeSpace tb"
  shows "buf_wf (m[t := Some (extend_block tb cs)]) b (as @ [t]) fs"
    and "held (m[t := Some (extend_block tb cs)]) (as @ [t]) = held m as @ [chunk tb @ cs]"
proof -
  let ?m' = "m[t := Some (extend_block tb cs)]"
  have tb': "block_ok tb" "b_next tb = None" "b_pre tb = last_ptr None as"
    using buf_wf_tail [OF wf] tb by (metis option.inject)+
  have keep: "lk ?m' c = lk m c" if "c \<in> set as \<union> set fs" for c
    by (rule lk_update_other) (use that wf in \<open>auto simp: buf_wf_def\<close>)
  have "dseg ?m' None (io_head b) as (Some t)"
    using wf by (subst dseg_cong [of as ?m' m], use keep in blast) (auto simp: buf_wf_def dseg_append)
  then have "dseg ?m' None (io_head b) (as @ [t]) None"
    using tb tb' by (auto simp: dseg_append)
  moreover have "fseg ?m' (io_recycled b) fs"
    using wf by (subst fseg_cong [of fs ?m' m], use keep in blast) (auto simp: buf_wf_def)
  moreover have "block_ok (the (lk ?m' c))" if "c \<in> set (as @ [t])" for c
    using that wf tb tb' fits keep by (cases "c = t") (auto simp: buf_wf_def extend_block_ok)
  ultimately show "buf_wf ?m' b (as @ [t]) fs"
    using wf by (simp add: buf_wf_def)
  have "held ?m' as = held m as" by (rule held_cong) (use keep in blast)
  then show "held ?m' (as @ [t]) = held m as @ [chunk tb @ cs]"
    using tb tb' by (simp add: chunk_extend_block)
qed

lemma copy_to_free:
  assumes "block_ok t" "int (length cs) \<le> FreeSpace t"
  shows "\<exists>t'. copy_to_block t (b_end t) cs = Inr t' \<and>
     t'\<lparr>b_end := b_end t' + int (length cs)\<rparr> = extend_block t cs \<and>
     (int (length cs) = FreeSpace t \<longrightarrow> MarkFull t' = extend_block t cs)"
  using assms by (auto simp: copy_to_block_def extend_block_def MarkFull_def FreeSpace_def block_ok_def)

text \<open>Which blocks may be partly filled: only the last one of a buffer filled by appending.\<close>

fun packed :: "mem \<Rightarrow> addr list \<Rightarrow> bool" where
  "packed m [] = True"
| "packed m [a] = True"
| "packed m (a # c # as) =
     (b_end (the (lk m a)) = kDefaultBlockBytes \<and> b_start (the (lk m c)) = 0 \<and> packed m (c # as))"

lemma packed_cong:
  "(\<And>a. a \<in> set as \<Longrightarrow> b_start (the (lk m' a)) = b_start (the (lk m a)) \<and>
      b_end (the (lk m' a)) = b_end (the (lk m a))) \<Longrightarrow> packed m' as = packed m as"
  by (induction m' as rule: packed.induct) auto

lemma packed_snoc:
  "as \<noteq> [] \<Longrightarrow> packed m (as @ [a]) \<longleftrightarrow>
     packed m as \<and> b_end (the (lk m (last as))) = kDefaultBlockBytes \<and> b_start (the (lk m a)) = 0"
  by (induction m as rule: packed.induct) auto

lemma packed_tl: "packed m (a # as) \<Longrightarrow> packed m as"
  by (cases as) auto

lemma packed_butlast: "packed m (as @ [a]) \<Longrightarrow> packed m as"
  by (cases "as = []") (auto simp: packed_snoc)

lemma packed_extend:
  assumes "packed m (as @ [t])" "lk m t = Some tb" "t \<notin> set as"
  shows "packed (m[t := Some (extend_block tb cs)]) (as @ [t])"
proof -
  let ?m' = "m[t := Some (extend_block tb cs)]"
  have keep: "lk ?m' c = lk m c" if "c \<in> set as" for c
    by (rule lk_update_other) (use that assms in auto)
  then show ?thesis
  proof (cases "as = []")
    case False
    then have "last as \<in> set as" by simp
    with assms False keep packed_cong [of as ?m' m] show ?thesis by (simp add: packed_snoc)
  qed simp
qed

text \<open>A state of the append loop: a valid buffer and the chunks it holds.\<close>

lemma grow_step:
  assumes inv: "buf_inv m b as fs" and fs0: "FreeSpaceWrapper m (io_tail b) = Inr 0"
  obtains m' b' as' fs' where
    "bindR (AllocateBlock m b) (\<lambda>(a, m1, b1). Append_block m1 b1 (Some a)) = Inr (m', b')"
    "buf_inv m' b' as' fs'" "concat (held m' as') = concat (held m as)"
    "FreeSpaceWrapper m' (io_tail b') = Inr kDefaultBlockBytes"
    "packed m as \<longrightarrow> packed m' as'"
proof -
  have wf: "buf_wf m b as fs" using inv by (rule buf_inv_wf)
  obtain a m1 b1 fs1 where al: "AllocateBlock m b = Inr (a, m1, b1)" "buf_wf m1 b1 as fs1"
    "spare m1 as fs1 a" "\<And>c. c \<in> set as \<Longrightarrow> lk m1 c = lk m c" "held m1 as = held m as"
    "io_tail b1 = io_tail b"
    using AllocateBlock_wf [OF wf] by metis
  obtain blk where a: "a \<notin> set as \<union> set fs1" "lk m1 a = Some blk" "b_next blk = None"
    "b_start blk = 0" "b_end blk = 0"
    using al(3) by (auto simp: spare_def)
  have blk: "block_ok blk" "chunk blk = []" using spare_ok [OF al(3)] a by auto
  show thesis
  proof (cases "as = [] \<or> hd (held m as) = []")
    case True
    then obtain m2 b2 where ap: "Append_block m1 b1 (Some a) = Inr (m2, b2)" "buf_wf m2 b2 [a] fs1"
      "held m2 [a] = [chunk blk]" "lk m2 a = Some (blk\<lparr>b_pre := None, b_next := None\<rparr>)"
      using Append_block_empty [OF al(2) _ a(1,2) blk(1)] al(5) by metis
    have "concat (held m as) = []"
      using Empty_inv [OF inv] Empty_wf [OF wf] True by simp
    moreover have "io_tail b2 = Some a" using ap(2) by (simp add: buf_wf_def)
    ultimately show thesis
      using that [of m2 b2 "[a]" fs1] al ap blk a
      by (simp add: buf_inv_def FreeSpaceWrapper_def FreeSpace_def)
  next
    case False
    obtain m2 b2 where ap: "Append_block m1 b1 (Some a) = Inr (m2, b2)" "buf_wf m2 b2 (as @ [a]) fs1"
      "held m2 (as @ [a]) = held m1 as @ [chunk blk]" "\<And>c. span m2 c = span m1 c"
      using Append_block_nonempty [OF al(2) _ _ a(1-3) blk(1)] al(5) False by metis
    obtain x where x: "lk m2 a = Some x" "b_start x = 0" "b_end x = 0"
      using span_eqD [OF ap(4) a(2)] a by auto
    have tail: "io_tail b2 = Some a" using ap(2) by (simp add: buf_wf_def)
    have "packed m2 (as @ [a])" if pk: "packed m as"
    proof -
      from False obtain as0 t where as: "as = as0 @ [t]" by (metis rev_exhaust)
      obtain tb where tb: "io_tail b = Some t" "lk m t = Some tb"
        using buf_wf_tail wf as by metis
      have full: "b_end tb = kDefaultBlockBytes"
        using fs0 tb by (simp add: FreeSpaceWrapper_def FreeSpace_def)
      have keep: "\<exists>y. lk m2 c = Some y \<and> b_start y = b_start (the (lk m c)) \<and> b_end y = b_end (the (lk m c))"
        if c: "c \<in> set as" for c
      proof -
        obtain z where "lk m c = Some z" using wf c by (auto simp: buf_wf_def dest: dseg_alive)
        then show ?thesis using span_eqD [OF ap(4) [of c]] al(4) [OF c] by auto
      qed
      have "packed m2 as"
        using pk by (subst packed_cong [of as m2 m]) (use keep in fastforce)+
      then show ?thesis
        using keep [of t] as tb full x by (subst packed_snoc) auto
    qed
    moreover have "front_ok (held m2 (as @ [a]))"
      using ap(3) al(5) False by (cases "held m as") (auto simp: front_ok_def split: list.splits)
    ultimately show thesis
      using that [of m2 b2 "as @ [a]" fs1] al ap blk x tail
      by (simp add: buf_inv_def FreeSpaceWrapper_def FreeSpace_def)
  qed
qed

lemma front_ok_snoc: "front_ok (cs @ [c]) \<Longrightarrow> front_ok (cs @ [c'])"
  by (cases cs) (auto simp: front_ok_def split: list.splits)

lemma tail_free:
  assumes "buf_wf m b as fs"
  obtains s where "FreeSpaceWrapper m (io_tail b) = Inr s" "0 \<le> s"
proof (cases as rule: rev_cases)
  case Nil
  then show thesis using assms that by (simp add: buf_wf_def FreeSpaceWrapper_def)
next
  case (snoc as0 t)
  then obtain tb where "io_tail b = Some t" "lk m t = Some tb" "block_ok tb"
    using assms buf_wf_tail by metis
  then show thesis using that by (simp add: FreeSpaceWrapper_def FreeSpace_def block_ok_def)
qed

lemma fill_step:
  assumes inv: "buf_inv m b as fs" and s: "FreeSpaceWrapper m (io_tail b) = Inr s" "s \<noteq> 0"
    and cs: "int (length cs) \<le> s"
  obtains t tb t' m' where "io_tail b = Some t" "lk m t = Some tb" "FreeSpace tb = s"
    "copy_to_block tb (b_end tb) cs = Inr t'"
    "t'\<lparr>b_end := b_end t' + int (length cs)\<rparr> = extend_block tb cs"
    "int (length cs) = s \<Longrightarrow> MarkFull t' = extend_block tb cs"
    "m' = m[t := Some (extend_block tb cs)]" "buf_inv m' b as fs"
    "concat (held m' as) = concat (held m as) @ cs"
    "int (length cs) = s \<Longrightarrow> FreeSpaceWrapper m' (io_tail b) = Inr 0"
    "packed m as \<Longrightarrow> packed m' as"
proof -
  have wf: "buf_wf m b as fs" using inv by (rule buf_inv_wf)
  have "as \<noteq> []" using wf s by (auto simp: buf_wf_def FreeSpaceWrapper_def)
  then obtain as0 t where as: "as = as0 @ [t]" by (metis rev_exhaust)
  obtain tb where t: "io_tail b = Some t" "lk m t = Some tb" "block_ok tb"
    using wf as buf_wf_tail by metis
  have fs: "FreeSpace tb = s" using s t by (simp add: FreeSpaceWrapper_def)
  let ?m' = "m[t := Some (extend_block tb cs)]"
  have fit: "int (length cs) \<le> FreeSpace tb" using cs fs by simp
  note ext = extend_tail [OF wf [unfolded as] t(2) fit]
  have "held m as = held m as0 @ [chunk tb]" using as t by simp
  moreover have "front_ok (held m as)" using inv by (simp add: buf_inv_def)
  ultimately have inv': "buf_inv ?m' b as fs" and cat: "concat (held ?m' as) = concat (held m as) @ cs"
    using ext as front_ok_snoc by (auto simp: buf_inv_def)
  have nt: "t \<notin> set as0" using wf as by (auto simp: buf_wf_def)
  obtain t' where t': "copy_to_block tb (b_end tb) cs = Inr t'"
    "t'\<lparr>b_end := b_end t' + int (length cs)\<rparr> = extend_block tb cs"
    "int (length cs) = FreeSpace tb \<longrightarrow> MarkFull t' = extend_block tb cs"
    using copy_to_free [OF t(3) fit] by blast
  have mf: "MarkFull t' = extend_block tb cs" if "int (length cs) = s"
    using t'(3) that fs by simp
  have e: "FreeSpaceWrapper ?m' (io_tail b) = Inr 0" if "int (length cs) = s"
    using that t fs by (simp add: FreeSpaceWrapper_def FreeSpace_def)
  have p: "packed ?m' as" if "packed m as"
    using that as packed_extend [OF _ t(2) nt] by simp
  show thesis
    by (rule that [OF t(1,2) fs t'(1,2) mf refl inv' cat e p])
qed

lemma Append_loop_inv:
  assumes "buf_inv m b as fs" "FreeSpaceWrapper m (io_tail b) = Inr s" "0 \<le> s"
    "2 * length rest < n + (if s \<noteq> 0 \<and> rest \<noteq> [] then 1 else 0)"
  shows "\<exists>m' b' as' fs'. Append_loop n m b rest = Inr (m', b') \<and> buf_inv m' b' as' fs' \<and>
    concat (held m' as') = concat (held m as) @ rest \<and> (packed m as \<longrightarrow> packed m' as')"
  using assms
proof (induction n arbitrary: m b as fs s rest)
  case 0
  then show ?case by (auto split: if_splits)
next
  case (Suc n)
  note inv = Suc.prems(1) and s = Suc.prems(2,3)
  consider "rest = []" | "rest \<noteq> []" "s = 0" | "rest \<noteq> []" "s \<noteq> 0" "s \<le> int (length rest)"
    | "rest \<noteq> []" "s \<noteq> 0" "int (length rest) < s" by linarith
  then show ?case
  proof cases
    case 1
    with inv show ?thesis by auto
  next
    case 2
    obtain m1 b1 as1 fs1 where g:
      "bindR (AllocateBlock m b) (\<lambda>(a, m1, b1). Append_block m1 b1 (Some a)) = Inr (m1, b1)"
      "buf_inv m1 b1 as1 fs1" "concat (held m1 as1) = concat (held m as)"
      "FreeSpaceWrapper m1 (io_tail b1) = Inr kDefaultBlockBytes" "packed m as \<longrightarrow> packed m1 as1"
      using grow_step [OF inv] s 2 by metis
    have "Append_loop (Suc n) m b rest = Append_loop n m1 b1 rest"
      using 2 s g(1) by (auto simp: bindR_eq_Inr split: prod.splits)
    moreover have "2 * length rest < n + (if kDefaultBlockBytes \<noteq> 0 \<and> rest \<noteq> [] then 1 else 0)"
      using Suc.prems(4) 2 by (simp add: kDefaultBlockBytes_def)
    ultimately show ?thesis
      using Suc.IH [OF g(2,4)] g by (fastforce simp: kDefaultBlockBytes_def)
  next
    case 3
    let ?cs = "take (nat s) rest"
    have len: "int (length ?cs) = s" using 3 s by simp
    obtain t tb t' m1 where f: "io_tail b = Some t" "lk m t = Some tb"
      "copy_to_block tb (b_end tb) ?cs = Inr t'" "MarkFull t' = extend_block tb ?cs"
      "m1 = m[t := Some (extend_block tb ?cs)]" "buf_inv m1 b as fs"
      "concat (held m1 as) = concat (held m as) @ ?cs" "FreeSpaceWrapper m1 (io_tail b) = Inr 0"
      "packed m as \<Longrightarrow> packed m1 as"
      using fill_step [OF inv s(1) 3(2), of ?cs] len by (metis order_refl)
    have "Append_loop (Suc n) m b rest = Append_loop n m1 b (drop (nat s) rest)"
      using 3 s f by simp
    moreover have "2 * length (drop (nat s) rest) < n"
      using Suc.prems(4) 3 s by (simp add: nat_le_iff)
    ultimately show ?thesis
      using Suc.IH [OF f(6,8), of "drop (nat s) rest"] f(7,9) by fastforce
  next
    case 4
    then have len: "int (length rest) \<le> s" by simp
    obtain t tb t' m1 where f: "io_tail b = Some t" "lk m t = Some tb"
      "copy_to_block tb (b_end tb) rest = Inr t'"
      "t'\<lparr>b_end := b_end t' + int (length rest)\<rparr> = extend_block tb rest"
      "m1 = m[t := Some (extend_block tb rest)]" "buf_inv m1 b as fs"
      "concat (held m1 as) = concat (held m as) @ rest" "packed m as \<Longrightarrow> packed m1 as"
      using fill_step [OF inv s(1) 4(2) len] by metis
    have "Append_loop (Suc n) m b rest = Inr (m1, b)"
      using 4 s f by simp
    with f show ?thesis by blast
  qed
qed

theorem Append_bytes_inv:
  assumes inv: "buf_inv m b as fs"
  shows "\<exists>m' b' as' fs'. Append_bytes m b xs = Inr (m', b') \<and> buf_inv m' b' as' fs' \<and>
    concat (held m' as') = concat (held m as) @ xs \<and> (packed m as \<longrightarrow> packed m' as')"
proof -
  obtain s where s: "FreeSpaceWrapper m (io_tail b) = Inr s" "0 \<le> s"
    using tail_free [OF buf_inv_wf [OF inv]] .
  show ?thesis unfolding Append_bytes_def
    by (rule Append_loop_inv [OF inv s]) simp
qed

end
