(* ===== verification/IOBuffer_Pop.thy ===== *)
theory IOBuffer_Pop
  imports IOBuffer_Queue
begin

text \<open>
  Removing bytes at either end of an \<open>IOBuffer\<close>: the block-wise steps, the loops of
  \<open>PopFront(int)\<close> and \<open>PopBack(int)\<close> as functions of the list of chunks, and the cases in
  which these loops remove exactly the bytes they are asked to remove.
\<close>

section \<open>Dropping a block\<close>

lemma ForwardHead_wf:
  assumes wf: "buf_wf m b (a # as) fs" and ne: "chunk (the (lk m a)) \<noteq> []"
  obtains m' b' where "ForwardHeadByOneBlock m b = Inr (m', b')" "buf_wf m' b' as (a # fs)"
    "held m' as = held m as" "length m' = length m" "\<And>c. c \<in> set as \<Longrightarrow> span m' c = span m c"
proof -
  obtain blk where h: "io_head b = Some a" "lk m a = Some blk" "dseg m (Some a) (b_next blk) as None"
    using buf_wf_head [OF wf] by metis
  have e: "IOBuffer_Empty m b = Inr False" using Empty_wf [OF wf] ne by simp
  have na: "a \<notin> set as \<union> set fs" "distinct (as @ fs)" using wf by (auto simp: buf_wf_def)
  define st where "st = (case b_next blk of
      Some c \<Rightarrow> bindR (modify m (Some c) (\<lambda>x. x\<lparr>b_pre := None\<rparr>)) (\<lambda>m1. Inr (m1, b\<lparr>io_head := Some c\<rparr>))
    | None \<Rightarrow> Inr (m, b\<lparr>io_head := None, io_tail := None\<rparr>))"
  have "\<exists>m1 b1. st = Inr (m1, b1) \<and> buf_wf m1 b1 as fs \<and> held m1 as = held m as \<and>
      length m1 = length m \<and> lk m1 a = Some blk \<and> (\<forall>c. span m1 c = span m c)"
  proof (cases as)
    case Nil
    with h wf show ?thesis by (auto simp: buf_wf_def st_def)
  next
    case (Cons c as')
    with h obtain cb where c: "b_next blk = Some c" "lk m c = Some cb" "b_pre cb = Some a"
      "dseg m (Some c) (b_next cb) as' None"
      by (auto split: option.splits)
    let ?m1 = "m[c := Some (cb\<lparr>b_pre := None\<rparr>)]" and ?b1 = "b\<lparr>io_head := Some c\<rparr>"
    have ca: "c \<noteq> a" using na Cons by auto
    have keep: "lk ?m1 d = lk m d" if "d \<in> set as' \<union> set fs" for d
      by (rule lk_update_other) (use that na Cons in auto)
    have "dseg ?m1 (Some c) (b_next cb) as' None"
      using c by (subst dseg_cong [of as' ?m1 m], use keep in blast) auto
    then have "dseg ?m1 None (Some c) (c # as') None" using c by simp
    moreover have "fseg ?m1 (io_recycled b) fs"
      using wf by (subst fseg_cong [of fs ?m1 m], use keep in blast) (auto simp: buf_wf_def)
    moreover have "block_ok (the (lk ?m1 d))" if "d \<in> set as" for d
      using that wf Cons c keep by (cases "d = c") (auto simp: buf_wf_def)
    ultimately have "buf_wf ?m1 ?b1 as fs"
      using wf Cons by (simp add: buf_wf_def)
    moreover have "held ?m1 as' = held m as'" by (rule held_cong) (use keep in blast)
    moreover have "span ?m1 d = span m d" for d using c by (cases "d = c") (simp_all add: span_def)
    ultimately show ?thesis using c Cons h ca by (simp add: st_def)
  qed
  then obtain m1 b1 where s1: "st = Inr (m1, b1)" "buf_wf m1 b1 as fs" "held m1 as = held m as"
    "length m1 = length m" "lk m1 a = Some blk" "\<And>c. span m1 c = span m c" by metis
  obtain m2 b2 where r: "RecycleBlock m1 b1 (Some a) = Inr (m2, b2)" "buf_wf m2 b2 as (a # fs)"
    "held m2 as = held m1 as" "length m2 = length m1" "\<And>c. c \<noteq> a \<Longrightarrow> lk m2 c = lk m1 c"
    using RecycleBlock_wf [OF s1(2) na(1) s1(5)] by metis
  have "ForwardHeadByOneBlock m b = Inr (m2, b2)"
    using e h s1(1) r(1) by (simp add: ForwardHeadByOneBlock_def st_def)
  moreover have "span m2 c = span m c" if "c \<in> set as" for c
  proof -
    have "c \<noteq> a" using that na by auto
    then have "span m2 c = span m1 c" using r(5) by (simp add: span_def)
    with s1(6) show ?thesis by simp
  qed
  ultimately show thesis using that r s1 by simp
qed

lemma BackwardTail_wf:
  assumes wf: "buf_wf m b (as @ [a]) fs" and ne: "hd (held m (as @ [a])) \<noteq> []"
  obtains m' b' where "BackwardTailByOneBlock m b = Inr (m', b')" "buf_wf m' b' as (a # fs)"
    "held m' as = held m as" "length m' = length m" "\<And>c. c \<in> set as \<Longrightarrow> span m' c = span m c"
proof -
  obtain blk where h: "io_tail b = Some a" "lk m a = Some blk" "b_next blk = None"
    "b_pre blk = last_ptr None as"
    using buf_wf_tail [OF wf] by metis
  have e: "IOBuffer_Empty m b = Inr False" using Empty_wf [OF wf] ne by simp
  have na: "a \<notin> set as \<union> set fs" "distinct (as @ fs)" using wf by (auto simp: buf_wf_def)
  define st where "st = (case b_pre blk of
      Some c \<Rightarrow> bindR (modify m (Some c) (\<lambda>x. x\<lparr>b_next := None\<rparr>)) (\<lambda>m1. Inr (m1, b\<lparr>io_tail := Some c\<rparr>))
    | None \<Rightarrow> Inr (m, b\<lparr>io_tail := None, io_head := None\<rparr>))"
  have "\<exists>m1 b1. st = Inr (m1, b1) \<and> buf_wf m1 b1 as fs \<and> held m1 as = held m as \<and>
      length m1 = length m \<and> lk m1 a = Some blk \<and> (\<forall>c. span m1 c = span m c)"
  proof (cases as rule: rev_cases)
    case Nil
    with h wf show ?thesis by (auto simp: buf_wf_def st_def)
  next
    case (snoc as' c)
    have d: "dseg m None (io_head b) as' (Some c)" "dseg m (last_ptr None as') (Some c) [c] (Some a)"
      using wf snoc by (auto simp: buf_wf_def dseg_append split: option.splits)
    then obtain cb where c: "lk m c = Some cb" "b_pre cb = last_ptr None as'"
      by (auto split: option.splits)
    have pre: "b_pre blk = Some c" using h snoc by simp
    let ?m1 = "m[c := Some (cb\<lparr>b_next := None\<rparr>)]" and ?b1 = "b\<lparr>io_tail := Some c\<rparr>"
    have ca: "c \<noteq> a" using na snoc by auto
    have keep: "lk ?m1 d = lk m d" if "d \<in> set as' \<union> set fs" for d
      by (rule lk_update_other) (use that na snoc in auto)
    have "dseg ?m1 None (io_head b) as' (Some c)"
      using d by (subst dseg_cong [of as' ?m1 m], use keep in blast) auto
    then have "dseg ?m1 None (io_head b) as None" using c snoc by (auto simp: dseg_append)
    moreover have "fseg ?m1 (io_recycled b) fs"
      using wf by (subst fseg_cong [of fs ?m1 m], use keep in blast) (auto simp: buf_wf_def)
    moreover have "block_ok (the (lk ?m1 d))" if "d \<in> set as" for d
      using that wf snoc c keep by (cases "d = c") (auto simp: buf_wf_def)
    ultimately have "buf_wf ?m1 ?b1 as fs"
      using wf snoc by (simp add: buf_wf_def)
    moreover have "held ?m1 as' = held m as'" by (rule held_cong) (use keep in blast)
    moreover have "span ?m1 d = span m d" for d using c by (cases "d = c") (simp_all add: span_def)
    ultimately show ?thesis using c snoc h ca pre by (simp add: st_def)
  qed
  then obtain m1 b1 where s1: "st = Inr (m1, b1)" "buf_wf m1 b1 as fs" "held m1 as = held m as"
    "length m1 = length m" "lk m1 a = Some blk" "\<And>c. span m1 c = span m c" by metis
  obtain m2 b2 where r: "RecycleBlock m1 b1 (Some a) = Inr (m2, b2)" "buf_wf m2 b2 as (a # fs)"
    "held m2 as = held m1 as" "length m2 = length m1" "\<And>c. c \<noteq> a \<Longrightarrow> lk m2 c = lk m1 c"
    using RecycleBlock_wf [OF s1(2) na(1) s1(5)] by metis
  have "BackwardTailByOneBlock m b = Inr (m2, b2)"
    using e h s1(1) r(1) by (simp add: BackwardTailByOneBlock_def st_def)
  moreover have "span m2 c = span m c" if "c \<in> set as" for c
  proof -
    have "c \<noteq> a" using that na by auto
    then have "span m2 c = span m1 c" using r(5) by (simp add: span_def)
    with s1(6) show ?thesis by simp
  qed
  ultimately show thesis using that r s1 by simp
qed

lemma shrink_wf:
  assumes wf: "buf_wf m b as fs" and a: "a \<in> set as" "lk m a = Some blk"
    and blk': "block_ok blk'" "b_next blk' = b_next blk" "b_pre blk' = b_pre blk"
  shows "buf_wf (m[a := Some blk']) b as fs"
proof -
  let ?m' = "m[a := Some blk']"
  have "dseg ?m' pr p bs nx = dseg m pr p bs nx" for pr p bs nx
    using a blk' by (induction bs arbitrary: pr p) (auto simp: lk_update lk_SomeD split: option.splits)
  moreover have "fseg ?m' (io_recycled b) fs"
    using wf a by (subst fseg_cong [of fs ?m' m]) (auto simp: buf_wf_def lk_update)
  ultimately show ?thesis using wf a blk' by (auto simp: buf_wf_def lk_update lk_SomeD)
qed

section \<open>The loop of PopFront(int)\<close>

function drain :: "nat \<Rightarrow> 'a list list \<Rightarrow> 'a list list" where
  "drain n [] = []"
| "drain n (c # cs) =
     (if n = 0 \<or> c = [] then c # cs
      else if length c \<le> n then drain (n - length c) cs
      else drain n (drop n c # cs))"
  by pat_completeness auto
termination
  by (relation "measures [\<lambda>(n, cs). length cs, \<lambda>(n, cs). length (concat cs)]") auto

declare drain.simps [simp del]

lemma drain_Nil [simp]: "drain n [] = []"
  by (simp add: drain.simps)

lemma drain_0 [simp]: "drain 0 cs = cs"
  by (cases cs) (simp_all add: drain.simps)

lemma PopFront_loop_drain:
  assumes "buf_wf m b as fs" "length (concat (held m as)) + length as < n"
  shows "\<exists>m' b' as' fs'. PopFront_loop n m b len = Inr (m', b') \<and> buf_wf m' b' as' fs' \<and>
    held m' as' = drain (nat len) (held m as) \<and> length m' = length m \<and> suffix as' as"
  using assms
proof (induction n arbitrary: m b as fs len)
  case 0
  then show ?case by simp
next
  case (Suc n)
  note wf = Suc.prems(1)
  show ?case
  proof (cases "len > 0 \<and> as \<noteq> [] \<and> hd (held m as) \<noteq> []")
    case False
    then have "drain (nat len) (held m as) = held m as"
      by (cases as) (auto simp: drain.simps)
    with False wf show ?thesis by (auto simp: Empty_wf [OF wf])
  next
    case True
    then obtain a as' where as: "as = a # as'" by (cases as) auto
    obtain blk where a: "io_head b = Some a" "lk m a = Some blk" "block_ok blk"
      using wf as buf_wf_head by metis
    have e: "IOBuffer_Empty m b = Inr False" using Empty_wf [OF wf] True by simp
    have ne: "chunk blk \<noteq> []" using True as a by simp
    have sz: "Size blk = int (length (chunk blk))" "0 < Size blk"
      using ne block_ok_Size [OF a(3)] length_chunk [of blk] by (auto simp flip: length_greater_0_conv)
    show ?thesis
    proof (cases "Size blk \<le> len")
      case fits: True
      obtain m1 b1 where f: "ForwardHeadByOneBlock m b = Inr (m1, b1)" "buf_wf m1 b1 as' (a # fs)"
        "held m1 as' = held m as'" "length m1 = length m"
        using ForwardHead_wf [of m b a as' fs] wf as a ne by (metis option.sel)
      have "length (concat (held m1 as')) + length as' < n"
        using Suc.prems(2) as f(3) by simp
      from Suc.IH [OF f(2) this, of "len - Size blk"] f as a e sz fits True show ?thesis
        by (auto simp: drain.simps nat_diff_distrib intro: suffix_ConsI)
    next
      case small: False
      let ?blk' = "blk\<lparr>b_start := b_start blk + len\<rparr>" and ?m1 = "m[a := Some (blk\<lparr>b_start := b_start blk + len\<rparr>)]"
      have blk': "block_ok ?blk'" "chunk ?blk' = drop (nat len) (chunk blk)"
        using block_ok_advance [OF a(3), of len] chunk_advance [OF a(3), of len] small True by simp_all
      have wf1: "buf_wf ?m1 b as fs"
        by (rule shrink_wf [OF wf _ a(2) blk'(1)]) (use as in auto)
      have h1: "held ?m1 as = drop (nat len) (chunk blk) # held m as'"
        using as a blk' wf lk_SomeD [OF a(2)] by (auto simp: buf_wf_def held_def lk_update)
      have "length (concat (held ?m1 as)) + length as < n"
        using Suc.prems(2) as a h1 sz small True by (simp add: nat_less_iff)
      from Suc.IH [OF wf1 this, of len] as a e sz small True h1 show ?thesis
        by (auto simp: drain.simps(2) [of "nat len" "chunk blk"] Let_def)
    qed
  qed
qed

lemma held_bytes_bound:
  assumes "buf_wf m b as fs"
  shows "length (concat (held m as)) + length as < steps m"
proof -
  have "length c \<le> nat kDefaultBlockBytes" if "c \<in> set (held m as)" for c
    using that assms by (auto simp: held_def buf_wf_def length_chunk dest!: block_ok_Size intro!: nat_mono)
  then have "length (concat cs) \<le> nat kDefaultBlockBytes * length cs" if "set cs \<subseteq> set (held m as)" for cs
    using that by (induction cs) force+
  from this [of "held m as"] have "length (concat (held m as)) \<le> nat kDefaultBlockBytes * length as"
    by simp
  also have "\<dots> \<le> nat kDefaultBlockBytes * length m"
    using buf_wf_length [OF assms] by simp
  finally show ?thesis using buf_wf_length [OF assms] by (simp add: steps_def)
qed

lemma PopFront_drain:
  assumes "buf_wf m b as fs"
  shows "\<exists>m' b' as' fs'. PopFront m b len = Inr (m', b') \<and> buf_wf m' b' as' fs' \<and>
    held m' as' = drain (nat len) (held m as) \<and> length m' = length m \<and> suffix as' as"
  unfolding PopFront_def by (rule PopFront_loop_drain [OF assms held_bytes_bound [OF assms]])

text \<open>Which chunk lists survive: aligned counts, all bytes, and a count inside a chunk.\<close>

lemma drain_aligned:
  "\<forall>c \<in> set cs. c \<noteq> [] \<Longrightarrow> drain (length (concat cs) + k) (cs @ ds) = drain k ds"
  by (induction cs) (auto simp: drain.simps)

lemma drain_all: "\<forall>c \<in> set cs. c \<noteq> [] \<Longrightarrow> length (concat cs) \<le> n \<Longrightarrow> drain n cs = []"
  using drain_aligned [of cs "n - length (concat cs)" "[]"] by simp

lemma drain_inside:
  assumes "0 < n" "n < length c"
  shows "drain n (c # cs) = drain (n - ((length c - 1) mod n + 1)) cs"
  using assms
proof (induction "length c" arbitrary: c rule: less_induct)
  case less
  have step: "drain n (c # cs) = drain n (drop n c # cs)"
    using less.prems by (auto simp: drain.simps(2) [of n c cs])
  have "(length c - 1) mod n = (length c - 1 - n) mod n"
    using less.prems by (subst mod_if [of "length c - 1"]) auto
  then have m: "(length (drop n c) - 1) mod n = (length c - 1) mod n"
    by (simp add: diff_right_commute)
  show ?case
  proof (cases "n < length (drop n c)")
    case True
    then show ?thesis using less.hyps [of "drop n c"] less.prems step m by simp
  next
    case False
    then have "(length (drop n c) - 1) mod n = length (drop n c) - 1"
      using less.prems by (intro mod_less) auto
    then have "n - ((length c - 1) mod n + 1) = n - length (drop n c)"
      using m less.prems by simp
    with False less.prems step show ?thesis by (simp add: drain.simps(2) [of n "drop n c" cs])
  qed
qed

lemma drain_last:
  assumes "0 < n" "c \<noteq> []"
  shows "drain n [c] = []"
proof (cases "length c \<le> n")
  case True
  with assms show ?thesis by (simp add: drain.simps)
next
  case False
  with assms show ?thesis by (simp add: drain_inside)
qed

lemma drain_suffix: "suffix (concat (drain n cs)) (concat cs)"
proof (induction n cs rule: drain.induct)
  case (2 n c cs)
  have "suffix (concat cs) (c @ concat cs)" "suffix (drop n c @ concat cs) (c @ concat cs)"
    by (simp add: suffix_appendI) (metis append_assoc append_take_drop_id suffixI)
  with 2 show ?case
    unfolding drain.simps(2) [of n c cs]
    by (auto intro: suffix_order.trans simp del: append_assoc split: if_splits)
qed simp

lemma drain_front_ok: "front_ok cs \<Longrightarrow> \<forall>c \<in> set (butlast cs). c \<noteq> [] \<Longrightarrow> front_ok (drain n cs)"
proof (induction n cs rule: drain.induct)
  case (2 n c cs)
  show ?case
  proof (cases "n = 0 \<or> c = []")
    case False
    have "front_ok cs" "\<forall>c \<in> set (butlast cs). c \<noteq> []"
      using 2(4) by (auto simp: front_ok_def split: list.splits if_splits)
    moreover have "front_ok (drop n c # cs)" "\<forall>d \<in> set (butlast (drop n c # cs)). d \<noteq> []"
      if "\<not> length c \<le> n" using that 2(4) False by (auto simp: front_ok_def split: if_splits)
    ultimately show ?thesis using 2(1,2) False by (simp add: drain.simps(2) [of n c cs])
  qed (use 2 in \<open>auto simp: drain.simps(2) [of n c cs]\<close>)
qed simp

section \<open>The loop of PopBack(int)\<close>

text \<open>The chunks are given last block first; \<open>Empty()\<close> still looks at the first block.\<close>

function drain_back :: "nat \<Rightarrow> 'a list list \<Rightarrow> 'a list list" where
  "drain_back n [] = []"
| "drain_back n (c # cs) =
     (if n = 0 \<or> last (c # cs) = [] then c # cs
      else if length c \<le> n then drain_back (n - length c) cs
      else drain_back n (take (length c - n) c # cs))"
  by pat_completeness auto
termination
  by (relation "measures [\<lambda>(n, cs). length cs, \<lambda>(n, cs). length (concat cs)]") auto

declare drain_back.simps [simp del]

lemma drain_back_Nil [simp]: "drain_back n [] = []"
  by (simp add: drain_back.simps)

lemma drain_back_0 [simp]: "drain_back 0 cs = cs"
  by (cases cs) (simp_all add: drain_back.simps)

lemma PopBack_loop_drain:
  assumes "buf_wf m b as fs" "length (concat (held m as)) + length as < n"
  shows "\<exists>m' b' as' fs'. PopBack_loop n m b len = Inr (m', b') \<and> buf_wf m' b' as' fs' \<and>
    rev (held m' as') = drain_back (nat len) (rev (held m as)) \<and> length m' = length m \<and> prefix as' as"
  using assms
proof (induction n arbitrary: m b as fs len)
  case 0
  then show ?case by simp
next
  case (Suc n)
  note wf = Suc.prems(1)
  show ?case
  proof (cases "len > 0 \<and> as \<noteq> [] \<and> hd (held m as) \<noteq> []")
    case False
    have "drain_back (nat len) (rev (held m as)) = rev (held m as)"
    proof (cases "rev (held m as)")
      case (Cons c cs)
      have "last (c # cs) = hd (held m as)" unfolding Cons [symmetric] by (rule last_rev)
      moreover have "as \<noteq> []" using Cons by auto
      ultimately show ?thesis using False Cons by (auto simp: drain_back.simps(2) [of _ c cs])
    qed simp
    with False wf show ?thesis by (auto simp: Empty_wf [OF wf])
  next
    case True
    then obtain a as' where as: "as = as' @ [a]" by (cases as rule: rev_cases) auto
    obtain blk where a: "io_tail b = Some a" "lk m a = Some blk" "block_ok blk"
      using wf as buf_wf_tail by metis
    have e: "IOBuffer_Empty m b = Inr False" using Empty_wf [OF wf] True by simp
    have rev: "rev (held m as) = chunk blk # rev (held m as')" using as a by simp
    have first: "last (chunk blk # rev (held m as')) \<noteq> []"
      using True as a rev by (metis last_rev held_simps(1) length_held length_0_conv)
    have sz: "Size blk = int (length (chunk blk))"
      using block_ok_Size [OF a(3)] length_chunk [of blk] by simp
    show ?thesis
    proof (cases "Size blk \<le> len")
      case fits: True
      obtain m1 b1 where f: "BackwardTailByOneBlock m b = Inr (m1, b1)" "buf_wf m1 b1 as' (a # fs)"
        "held m1 as' = held m as'" "length m1 = length m"
        using BackwardTail_wf [of m b as' a fs] wf as True by metis
      have "length (concat (held m1 as')) + length as' < n"
        using Suc.prems(2) as f(3) by simp
      from Suc.IH [OF f(2) this, of "len - Size blk"] f as a e sz fits True first rev show ?thesis
        by (auto simp: drain_back.simps nat_diff_distrib)
    next
      case small: False
      let ?blk' = "blk\<lparr>b_end := b_end blk - len\<rparr>" and ?m1 = "m[a := Some (blk\<lparr>b_end := b_end blk - len\<rparr>)]"
      have blk': "block_ok ?blk'" "chunk ?blk' = take (length (chunk blk) - nat len) (chunk blk)"
        using block_ok_retreat [OF a(3), of len] chunk_retreat [OF a(3), of len] small True sz
        by (simp_all add: nat_diff_distrib)
      have wf1: "buf_wf ?m1 b as fs"
        by (rule shrink_wf [OF wf _ a(2) blk'(1)]) (use as in auto)
      have pos: "0 < nat len" "nat len < length (chunk blk)" using small True sz by auto
      have "held ?m1 as' = held m as'"
        by (rule held_cong, rule lk_update_other) (use wf as in \<open>auto simp: buf_wf_def\<close>)
      then have h1: "held ?m1 as = held m as' @ [take (length (chunk blk) - nat len) (chunk blk)]"
        using as a blk' by simp
      have "length (concat (held ?m1 as)) + length as < n"
        using Suc.prems(2) as a h1 pos by simp
      from Suc.IH [OF wf1 this, of len] as a e sz small True h1 first rev show ?thesis
        by (auto simp: drain_back.simps(2) [of "nat len" "chunk blk"] Let_def)
    qed
  qed
qed

lemma PopBack_drain:
  assumes "buf_wf m b as fs"
  shows "\<exists>m' b' as' fs'. PopBack m b len = Inr (m', b') \<and> buf_wf m' b' as' fs' \<and>
    rev (held m' as') = drain_back (nat len) (rev (held m as)) \<and> length m' = length m \<and> prefix as' as"
  unfolding PopBack_def by (rule PopBack_loop_drain [OF assms held_bytes_bound [OF assms]])

lemma drain_back_aligned:
  "\<forall>c \<in> set (cs @ ds). c \<noteq> [] \<Longrightarrow>
     drain_back (length (concat cs) + k) (cs @ ds) = drain_back k ds"
proof (induction cs)
  case (Cons c cs)
  have "last (c # cs @ ds) \<in> set ((c # cs) @ ds)" by (metis append_Cons last_in_set list.discI)
  with Cons.prems have "last (c # cs @ ds) \<noteq> []" by blast
  with Cons show ?case by (simp add: drain_back.simps(2) [of _ c "cs @ ds"])
qed simp

lemma drain_back_last:
  assumes "0 < n" "c \<noteq> []"
  shows "drain_back n [c] = []"
  using assms
proof (induction "length c" arbitrary: c rule: less_induct)
  case less
  show ?case
  proof (cases "length c \<le> n")
    case False
    with less.hyps [of "take (length c - n) c"] less.prems show ?thesis
      by (simp add: drain_back.simps(2) [of n c])
  qed (use less.prems in \<open>simp add: drain_back.simps\<close>)
qed

end
