(* ===== verification/IOBuffer_Transfer.thy ===== *)
theory IOBuffer_Transfer
  imports IOBuffer_Pop
begin

text \<open>
  Transfers between an \<open>IOBuffer\<close> and a socket (\<open>ReadFromSock\<close>, \<open>WriteToSock\<close>), joining two
  buffers, clearing and destroying one.
\<close>

section \<open>Reading from a socket\<close>

lemma front_ok_hd: "hd cs \<noteq> [] \<Longrightarrow> front_ok cs"
  by (auto simp: front_ok_def split: list.splits)

lemma grow_empty:
  assumes wf: "buf_wf m b as fs" and e: "as = [] \<or> hd (held m as) = []"
  obtains m' b' a x fs' where
    "bindR (AllocateBlock m b) (\<lambda>(a, m1, b1). Append_block m1 b1 (Some a)) = Inr (m', b')"
    "buf_wf m' b' [a] fs'" "lk m' a = Some x" "b_start x = 0" "b_end x = 0" "chunk x = []"
proof -
  obtain a m1 b1 fs1 where al: "AllocateBlock m b = Inr (a, m1, b1)" "buf_wf m1 b1 as fs1"
    "spare m1 as fs1 a" "held m1 as = held m as"
    using AllocateBlock_wf [OF wf] by metis
  obtain blk where a: "a \<notin> set as \<union> set fs1" "lk m1 a = Some blk" "b_start blk = 0" "b_end blk = 0"
    using al(3) by (auto simp: spare_def)
  have blk: "block_ok blk" "chunk blk = []" using spare_ok [OF al(3)] a by auto
  obtain m2 b2 where ap: "Append_block m1 b1 (Some a) = Inr (m2, b2)" "buf_wf m2 b2 [a] fs1"
    "lk m2 a = Some (blk\<lparr>b_pre := None, b_next := None\<rparr>)"
    using Append_block_empty [OF al(2) _ a(1,2) blk(1)] al(4) e by metis
  show thesis by (rule that [OF _ ap(2,3)]) (use al ap a blk in simp_all)
qed

definition tail_room :: "mem \<Rightarrow> iobuffer \<Rightarrow> nat" where
  "tail_room m b =
     (case (if contents m b = [] then None else io_tail b) of
        None \<Rightarrow> nat kDefaultBlockBytes
      | Some t \<Rightarrow> (case lk m t of None \<Rightarrow> 0 | Some blk \<Rightarrow> nat (FreeSpace blk)))"

lemma copy_keeps_chunk:
  assumes "block_ok t" "copy_to_block t (b_end t) cs = Inr t'"
  shows "block_ok t' \<and> chunk t' = chunk t \<and> b_next t' = b_next t \<and> b_pre t' = b_pre t \<and>
    b_start t' = b_start t \<and> b_end t' = b_end t"
  using assms
  by (auto simp: copy_to_block_def block_ok_def chunk_def store_bytes_lookup split: if_splits)

lemma held_replace:
  assumes "distinct (as @ [t])" "lk m t = Some x"
  shows "held (m[t := Some y]) (as @ [t]) = held m as @ [chunk y]"
proof -
  have "held (m[t := Some y]) as = held m as"
    by (rule held_cong, rule lk_update_other) (use assms in auto)
  then show ?thesis using assms by simp
qed

lemma scatter_wf:
  assumes wf: "buf_wf m b (as @ [t]) fs" and t: "lk m t = Some tb"
    and sp: "spare m (as @ [t]) fs a" "lk m a = Some ab"
    and len: "int (length bs) \<le> FreeSpace tb + kDefaultBlockBytes"
  obtains m2 t' a' where
    "scatter m (io_tail b) (b_end tb) (FreeSpace tb) (Some a) (b_end ab) bs = Inr m2"
    "buf_wf m2 b (as @ [t]) fs" "held m2 (as @ [t]) = held m (as @ [t])"
    "lk m2 t = Some t'" "copy_to_block tb (b_end tb) (take (nat (FreeSpace tb)) bs) = Inr t'"
    "lk m2 a = Some a'" "b_start a' = 0" "b_end a' = 0" "b_next a' = None" "chunk a' = []" "block_ok a'"
    "length m2 = length m"
proof -
  have ok: "block_ok tb" "io_tail b = Some t"
    using buf_wf_tail [OF wf] t by (metis option.inject)+
  have ab: "b_start ab = 0" "b_end ab = 0" "b_next ab = None" "a \<noteq> t" "a \<notin> set as \<union> set fs" "block_ok ab"
    using sp spare_ok [OF sp(1)] by (auto simp: spare_def)
  have fs0: "0 \<le> FreeSpace tb" using ok by (simp add: block_ok_def FreeSpace_def)
  have l0: "int (length (take (nat (FreeSpace tb)) bs)) \<le> FreeSpace tb" using fs0 by simp
  have l1: "int (length (drop (nat (FreeSpace tb)) bs)) \<le> FreeSpace ab"
    using len fs0 ab by (simp add: FreeSpace_def kDefaultBlockBytes_def)
  obtain t' where t': "copy_to_block tb (b_end tb) (take (nat (FreeSpace tb)) bs) = Inr t'"
    using copy_to_free [OF ok(1) l0] by blast
  obtain a' where a': "copy_to_block ab (b_end ab) (drop (nat (FreeSpace tb)) bs) = Inr a'"
    using copy_to_free [OF ab(6) l1] by blast
  note kt = copy_keeps_chunk [OF ok(1) t'] and ka = copy_keeps_chunk [OF ab(6) a']
  let ?m1 = "m[t := Some t']" and ?m2 = "m[t := Some t', a := Some a']"
  have a1: "lk ?m1 a = Some ab" using sp ab by simp
  have wf1: "buf_wf ?m1 b (as @ [t]) fs"
    by (rule shrink_wf [OF wf _ t]) (use kt in auto)
  have keep: "lk ?m2 c = lk ?m1 c" if "c \<in> set (as @ [t]) \<union> set fs" for c
    by (rule lk_update_other) (use that ab in auto)
  have h1: "held ?m1 (as @ [t]) = held m (as @ [t])"
    using held_replace [OF _ t] wf kt t by (simp add: buf_wf_def)
  have sc: "scatter m (io_tail b) (b_end tb) (FreeSpace tb) (Some a) (b_end ab) bs = Inr ?m2"
    using ok t t' a' a1 by (simp add: scatter_def)
  have h2: "held ?m2 (as @ [t]) = held m (as @ [t])"
    using buf_wf_frame(2) [OF wf1 keep] h1 by (rule trans)
  have t2: "lk ?m2 t = Some t'" using t ab by simp
  have a2: "lk ?m2 a = Some a'" using a1 by simp
  show thesis
    by (rule that [OF sc buf_wf_frame(1) [OF wf1 keep] h2 t2 t' a2])
      (use ka ab spare_ok [OF sp(1)] sp(2) in simp_all)
qed

text \<open>The second half of \<open>ReadFromSock\<close>, from a buffer whose tail \<open>t\<close> can take bytes.\<close>

definition read_into :: "(int \<Rightarrow> int \<Rightarrow> read_reply) \<Rightarrow> mem \<Rightarrow> iobuffer \<Rightarrow> (read_reply \<times> mem \<times> iobuffer) res" where
  "read_into readv m0 b0 =
     bindR (deref m0 (io_tail b0)) (\<lambda>t.
     bindR (AllocateBlock m0 b0) (\<lambda>(a, m1, b1).
     bindR (deref m1 (Some a)) (\<lambda>blk.
       let n0 = FreeSpace t; n1 = FreeSpace blk; reply = readv n0 n1; rc = read_rc reply in
       case reply of
         ReadErr _ \<Rightarrow>
           bindR (RecycleBlock m1 b1 (Some a)) (\<lambda>(m2, b2). Inr (reply, m2, b2))
       | ReadBytes bytes \<Rightarrow>
           if rc \<le> 0 then
             bindR (RecycleBlock m1 b1 (Some a)) (\<lambda>(m2, b2). Inr (reply, m2, b2))
           else
             bindR (scatter m1 (io_tail b1) (b_end t) n0 (Some a) (b_end blk) bytes) (\<lambda>m2.
               if rc < n0 then
                 bindR (RecycleBlock m2 b1 (Some a)) (\<lambda>(m3, b2).
                 bindR (modify m3 (io_tail b2) (\<lambda>x. x\<lparr>b_end := b_end x + rc\<rparr>)) (\<lambda>m4.
                 Inr (reply, m4, b2)))
               else
                 bindR (modify m2 (io_tail b1) MarkFull) (\<lambda>m3.
                 bindR (Append_block m3 b1 (Some a)) (\<lambda>(m4, b2).
                 Inr (reply, m4, b2)))))))"

lemma ReadFromSock_read_into:
  "ReadFromSock readv m b =
     bindR (IOBuffer_Empty m b) (\<lambda>e.
     bindR (if e then bindR (AllocateBlock m b) (\<lambda>(a, m', b'). Append_block m' b' (Some a))
            else Inr (m, b)) (\<lambda>(m0, b0). read_into readv m0 b0))"
  by (simp add: ReadFromSock_def read_into_def)

definition kernel_read_ok :: "(int \<Rightarrow> int \<Rightarrow> read_reply) \<Rightarrow> bool" where
  "kernel_read_ok readv \<longleftrightarrow> (\<forall>n0 n1 bs. readv n0 n1 = ReadBytes bs \<longrightarrow> int (length bs) \<le> n0 + n1)"

definition delivered :: "read_reply \<Rightarrow> char list" where
  "delivered r = (case r of ReadErr e \<Rightarrow> [] | ReadBytes bs \<Rightarrow> bs)"

lemma read_into_inv:
  assumes wf: "buf_wf m b (as @ [t]) fs" and t: "lk m t = Some tb"
    and ne: "as = [] \<and> FreeSpace tb = kDefaultBlockBytes \<or> hd (held m (as @ [t])) \<noteq> []"
    and k: "kernel_read_ok readv"
  shows "\<exists>m' b' as' fs'. read_into readv m b = Inr (readv (FreeSpace tb) kDefaultBlockBytes, m', b') \<and>
    buf_inv m' b' as' fs' \<and>
    concat (held m' as') = concat (held m (as @ [t])) @
      take (nat (FreeSpace tb)) (delivered (readv (FreeSpace tb) kDefaultBlockBytes))"
proof -
  have ok: "block_ok tb" "io_tail b = Some t"
    using buf_wf_tail [OF wf] t by (metis option.inject)+
  obtain a m1 b1 fs1 where al: "AllocateBlock m b = Inr (a, m1, b1)" "buf_wf m1 b1 (as @ [t]) fs1"
    "spare m1 (as @ [t]) fs1 a" "\<And>c. c \<in> set (as @ [t]) \<Longrightarrow> lk m1 c = lk m c"
    "held m1 (as @ [t]) = held m (as @ [t])" "io_tail b1 = io_tail b"
    using AllocateBlock_wf [OF wf] by metis
  obtain ab where a: "a \<notin> set (as @ [t]) \<union> set fs1" "lk m1 a = Some ab" "b_end ab = 0" "block_ok ab"
    using al(3) spare_ok [OF al(3)] by (auto simp: spare_def)
  have t1: "lk m1 t = Some tb" using al(4) [of t] t by simp
  have fsab: "FreeSpace ab = kDefaultBlockBytes" using a by (simp add: FreeSpace_def)
  let ?n0 = "FreeSpace tb" and ?r = "readv (FreeSpace tb) kDefaultBlockBytes"
  have n0: "0 \<le> ?n0" using ok by (simp add: block_ok_def FreeSpace_def)
  have front: "front_ok (held m1 (as @ [t]))"
    using ne al(5) by (auto simp: front_ok_def split: list.splits)
  note unf = read_into_def ok(2) t al(1) a(2) fsab
  show ?thesis
  proof (cases "delivered ?r = []")
    case True
    obtain m2 b2 where r: "RecycleBlock m1 b1 (Some a) = Inr (m2, b2)" "buf_wf m2 b2 (as @ [t]) (a # fs1)"
      "held m2 (as @ [t]) = held m1 (as @ [t])"
      using RecycleBlock_wf [OF al(2) a(1,2)] by metis
    have "read_into readv m b = Inr (?r, m2, b2)"
      using True r(1) by (simp add: unf Let_def delivered_def read_rc_def split: read_reply.splits)
    with r front al(5) True show ?thesis by (auto simp: buf_inv_def)
  next
    case False
    then obtain bs where bs: "?r = ReadBytes bs" "bs \<noteq> []" "delivered ?r = bs"
      by (auto simp: delivered_def split: read_reply.splits)
    have len: "int (length bs) \<le> ?n0 + kDefaultBlockBytes"
      using k bs(1) by (simp add: kernel_read_ok_def)
    obtain m2 t' a' where sc: "scatter m1 (io_tail b1) (b_end tb) ?n0 (Some a) (b_end ab) bs = Inr m2"
      "buf_wf m2 b1 (as @ [t]) fs1" "held m2 (as @ [t]) = held m1 (as @ [t])"
      "lk m2 t = Some t'" "copy_to_block tb (b_end tb) (take (nat ?n0) bs) = Inr t'"
      "lk m2 a = Some a'" "b_next a' = None" "chunk a' = []" "block_ok a'"
      using scatter_wf [OF al(2) t1 al(3) a(2) len] by metis
    let ?x = "extend_block tb (take (nat ?n0) bs)"
    have fit: "int (length (take (nat ?n0) bs)) \<le> ?n0" using n0 by simp
    have ex: "t'\<lparr>b_end := b_end t' + int (length (take (nat ?n0) bs))\<rparr> = ?x"
      "int (length (take (nat ?n0) bs)) = ?n0 \<Longrightarrow> MarkFull t' = ?x"
      using copy_to_free [OF ok(1) fit] sc(5) by auto
    have xk: "block_ok ?x" "b_next ?x = b_next t'" "b_pre ?x = b_pre t'"
      using extend_block_ok [OF ok(1) fit] copy_keeps_chunk [OF ok(1) sc(5)] by simp_all
    have xc: "held m as @ [chunk ?x] = held m as @ [chunk tb @ take (nat ?n0) bs]"
      using chunk_extend_block [OF ok(1)] by simp
    have hm: "held m (as @ [t]) = held m as @ [chunk tb]" using t by simp
    have h1: "held m1 as = held m as" using al(5) by simp
    have dt: "distinct (as @ [t])" using wf by (simp add: buf_wf_def)
    show ?thesis
    proof (cases "int (length bs) < ?n0")
      case True
      then have tk: "take (nat ?n0) bs = bs" by simp
      obtain m3 b2 where r: "RecycleBlock m2 b1 (Some a) = Inr (m3, b2)"
        "buf_wf m3 b2 (as @ [t]) (a # fs1)" "held m3 (as @ [t]) = held m2 (as @ [t])"
        "io_tail b2 = io_tail b1" "\<And>c. c \<noteq> a \<Longrightarrow> lk m3 c = lk m2 c"
        using RecycleBlock_wf [OF sc(2) a(1) sc(6)] by metis
      have t3: "lk m3 t = Some t'" using r(5) sc(4) a(1) by auto
      let ?m4 = "m3[t := Some ?x]"
      have "read_into readv m b = Inr (?r, ?m4, b2)"
        using True bs sc(1) r(1,4) t3 ex(1) al(6) ok(2) tk
        by (simp add: unf Let_def read_rc_def)
      moreover have "buf_wf ?m4 b2 (as @ [t]) (a # fs1)"
        by (rule shrink_wf [OF r(2) _ t3 xk]) simp
      moreover have h4: "held ?m4 (as @ [t]) = held m as @ [chunk tb @ take (nat ?n0) bs]"
        using held_replace [OF dt t3, of ?x] r(3) sc(3) h1 xc by simp
      moreover have "front_ok (held ?m4 (as @ [t]))"
        unfolding h4 by (rule front_ok_snoc [of _ "chunk tb"]) (use front al(5) hm in simp)
      ultimately show ?thesis
        using bs hm by (intro exI [of _ ?m4] exI [of _ b2] exI [of _ "as @ [t]"] exI [of _ "a # fs1"])
          (simp add: buf_inv_def)
    next
      case False
      then have lt: "int (length (take (nat ?n0) bs)) = ?n0" using n0 by simp
      let ?m3 = "m2[t := Some ?x]"
      have wf3: "buf_wf ?m3 b1 (as @ [t]) fs1"
        by (rule shrink_wf [OF sc(2) _ sc(4) xk]) simp
      have h3: "held ?m3 (as @ [t]) = held m as @ [chunk tb @ take (nat ?n0) bs]"
        using held_replace [OF dt sc(4), of ?x] sc(3) h1 xc by simp
      have hd3: "hd (held ?m3 (as @ [t])) \<noteq> []"
        using ne bs(2) hm h3 by (cases as) (auto simp: kDefaultBlockBytes_def)
      have a3: "lk ?m3 a = Some a'" using sc(6) a(1) by simp
      obtain m4 b2 where ap: "Append_block ?m3 b1 (Some a) = Inr (m4, b2)"
        "buf_wf m4 b2 ((as @ [t]) @ [a]) fs1"
        "held m4 ((as @ [t]) @ [a]) = held ?m3 (as @ [t]) @ [chunk a']"
        using Append_block_nonempty [OF wf3 _ hd3 a(1) a3 sc(7,9)] by (metis snoc_eq_iff_butlast)
      have "read_into readv m b = Inr (?r, m4, b2)"
        using False bs sc(1,4) al(6) ok(2) ex(2) [OF lt] ap(1)
        by (simp add: unf Let_def read_rc_def)
      moreover have "front_ok (held m4 ((as @ [t]) @ [a]))"
        unfolding ap(3) by (rule front_ok_hd, subst hd_append2) (use hd3 in simp_all)
      ultimately show ?thesis
        using ap bs h3 hm sc(8)
        by (intro exI [of _ m4] exI [of _ b2] exI [of _ "(as @ [t]) @ [a]"] exI [of _ fs1])
          (simp add: buf_inv_def)
    qed
  qed
qed

theorem ReadFromSock_inv:
  assumes inv: "buf_inv m b as fs" and k: "kernel_read_ok readv"
  shows "\<exists>m' b' as' fs'.
    ReadFromSock readv m b = Inr (readv (int (tail_room m b)) kDefaultBlockBytes, m', b') \<and>
    buf_inv m' b' as' fs' \<and>
    concat (held m' as') = concat (held m as) @
      take (tail_room m b) (delivered (readv (int (tail_room m b)) kDefaultBlockBytes))"
proof -
  have wf: "buf_wf m b as fs" using inv by (rule buf_inv_wf)
  have c: "contents m b = concat (held m as)" using wf by (rule buf_wf_contents)
  show ?thesis
  proof (cases "concat (held m as) = []")
    case True
    then have e: "IOBuffer_Empty m b = Inr True" "as = [] \<or> hd (held m as) = []"
      using Empty_inv [OF inv] Empty_wf [OF wf] by simp_all
    obtain m0 b0 a x fs0 where g:
      "bindR (AllocateBlock m b) (\<lambda>(a, m1, b1). Append_block m1 b1 (Some a)) = Inr (m0, b0)"
      "buf_wf m0 b0 [a] fs0" "lk m0 a = Some x" "b_end x = 0" "chunk x = []"
      using grow_empty [OF wf e(2)] by metis
    have room: "tail_room m b = nat kDefaultBlockBytes" "0 \<le> kDefaultBlockBytes" "FreeSpace x = kDefaultBlockBytes"
      using True c g by (simp_all add: tail_room_def FreeSpace_def kDefaultBlockBytes_def)
    have "ReadFromSock readv m b = read_into readv m0 b0"
      using e g(1) by (simp add: ReadFromSock_read_into)
    with read_into_inv [of m0 b0 "[]" a fs0 x readv] g k room show ?thesis
      unfolding True by simp
  next
    case False
    then have e: "IOBuffer_Empty m b = Inr False" using Empty_inv [OF inv] by simp
    from False obtain as0 t where as: "as = as0 @ [t]" by (cases as rule: rev_cases) auto
    obtain tb where t: "io_tail b = Some t" "lk m t = Some tb" "block_ok tb"
      using wf as buf_wf_tail by metis
    have room: "tail_room m b = nat (FreeSpace tb)" "0 \<le> FreeSpace tb"
      using False [folded c] t by (simp_all add: tail_room_def block_ok_def FreeSpace_def)
    have "hd (held m as) \<noteq> []" using Empty_wf [OF wf] e by simp
    with read_into_inv [of m b as0 t fs tb readv] wf t k e room as show ?thesis
      by (simp add: ReadFromSock_read_into)
  qed
qed

section \<open>Writing to a socket\<close>

lemma read_range_chunk: "block_ok blk \<Longrightarrow> read_range blk (b_start blk) (b_end blk) = Inr (chunk blk)"
  by (auto simp: read_range_def block_ok_def chunk_def)

lemma gather_dseg:
  "dseg m pr p as None \<Longrightarrow> \<forall>a \<in> set as. block_ok (the (lk m a)) \<Longrightarrow>
     gather n m p = Inr (take n (held m as))"
proof (induction n arbitrary: pr p as)
  case 0
  then show ?case by simp
next
  case (Suc n)
  then show ?case by (cases as) (auto simp: read_range_chunk split: option.splits)
qed

theorem WriteToSock_inv:
  assumes inv: "buf_inv m b as fs"
  shows "WriteToSock writev m b =
    Inr (if concat (held m as) = [] then ([], Wrote 0)
         else (take 4 (held m as), writev (take 4 (held m as))))"
proof -
  have "gather kMaxVCnt m (io_head b) = Inr (take 4 (held m as))"
    using inv by (auto simp: buf_inv_def buf_wf_def kMaxVCnt_def intro!: gather_dseg)
  then show ?thesis by (simp add: WriteToSock_def Empty_inv [OF inv])
qed

end
