(* ===== verification/IOBuffer_Props.thy ===== *)
theory IOBuffer_Props
  imports IOBuffer_Transfer
begin

text \<open>
  The contract of an \<open>IOBuffer\<close>: the interface a writer of bytes relies on, as a locale
  that the buffer's model provides, and the properties of appending, popping, clearing,
  joining, reading and writing, stated on the byte string a valid buffer holds.
\<close>

section \<open>The interface of a byte sink\<close>

text \<open>
  What the protocol and the socket rely on when they append: every append succeeds, keeps
  the invariant and adds its bytes at the end.
\<close>

locale byte_sink =
  fixes app :: "'m \<Rightarrow> 'b \<Rightarrow> char list \<Rightarrow> ('m \<times> 'b) res"
    and ok :: "'m \<Rightarrow> 'b \<Rightarrow> bool"
    and str :: "'m \<Rightarrow> 'b \<Rightarrow> char list"
  assumes app_ok: "ok m b \<Longrightarrow>
    \<exists>m' b'. app m b xs = Inr (m', b') \<and> ok m' b' \<and> str m' b' = str m b @ xs"
begin

primrec app_all :: "'m \<Rightarrow> 'b \<Rightarrow> char list list \<Rightarrow> ('m \<times> 'b) res" where
  "app_all m b [] = Inr (m, b)"
| "app_all m b (xs # xss) = bindR (app m b xs) (\<lambda>(m', b'). app_all m' b' xss)"

lemma app_all_ok: "ok m b \<Longrightarrow>
  \<exists>m' b'. app_all m b xss = Inr (m', b') \<and> ok m' b' \<and> str m' b' = str m b @ concat xss"
proof (induction xss arbitrary: m b)
  case Nil
  then show ?case by simp
next
  case (Cons xs xss)
  obtain m1 b1 where "app m b xs = Inr (m1, b1)" "ok m1 b1" "str m1 b1 = str m b @ xs"
    using app_ok [OF Cons.prems] by blast
  with Cons.IH [of m1 b1] show ?case by simp
qed

lemma app_app: "ok m b \<Longrightarrow> \<exists>m1 b1 m2 b2. app m b xs = Inr (m1, b1) \<and> app m1 b1 ys = Inr (m2, b2) \<and>
    ok m2 b2 \<and> str m2 b2 = str m b @ xs @ ys"
  using app_all_ok [of m b "[xs, ys]"] app_ok [of m b xs] by (auto simp: bindR_eq_Inr)

end

lemma buf_inv_contents: "buf_inv m b as fs \<Longrightarrow> contents m b = concat (held m as)"
  by (auto simp: buf_inv_def buf_wf_contents)

lemma Append_bytes_valid:
  assumes "valid_buffer m b"
  shows "\<exists>m' b'. Append_bytes m b xs = Inr (m', b') \<and> valid_buffer m' b' \<and>
    contents m' b' = contents m b @ xs"
proof -
  obtain as fs where inv: "buf_inv m b as fs" using assms valid_buffer_iff by blast
  obtain m' b' as' fs' where "Append_bytes m b xs = Inr (m', b')" "buf_inv m' b' as' fs'"
    "concat (held m' as') = concat (held m as) @ xs"
    using Append_bytes_inv [OF inv] by blast
  with inv show ?thesis by (metis buf_inv_contents buf_inv_valid)
qed

interpretation iob: byte_sink Append_bytes valid_buffer contents
  by unfold_locales (rule Append_bytes_valid)

section \<open>Buffers of one block\<close>

text \<open>A store with one block that holds \<open>xs\<close>, and the buffer over it.\<close>

definition one_mem :: "char list \<Rightarrow> mem" where
  "one_mem xs = [Some (extend_block new_Block xs)]"

definition one_buf :: iobuffer where
  "one_buf = \<lparr>io_head = Some 0, io_tail = Some 0, io_recycled = None\<rparr>"

lemma one_wf:
  assumes "int (length xs) \<le> kDefaultBlockBytes"
  shows "buf_wf (one_mem xs) one_buf [0] []"
proof -
  have "block_ok (extend_block new_Block xs)"
    by (rule extend_block_ok [OF new_Block_ok(1)])
      (use assms in \<open>simp add: FreeSpace_def new_Block_def\<close>)
  then show ?thesis
    by (simp add: buf_wf_def one_mem_def one_buf_def lk_def new_Block_def)
qed

lemma one_inv: "int (length xs) \<le> kDefaultBlockBytes \<Longrightarrow> buf_inv (one_mem xs) one_buf [0] []"
  using one_wf by (simp add: buf_inv_def)

lemma one_valid: "int (length xs) \<le> kDefaultBlockBytes \<Longrightarrow> valid_buffer (one_mem xs) one_buf"
  using one_inv buf_inv_valid by blast

lemma one_blocks: "int (length xs) \<le> kDefaultBlockBytes \<Longrightarrow> blocks_of (one_mem xs) one_buf = [0]"
  using one_wf buf_wf_blocks by blast

lemma one_chunk [simp]: "chunk (the (lk (one_mem xs) 0)) = xs"
  by (simp add: one_mem_def lk_def chunk_extend_block)

lemma one_contents: "int (length xs) \<le> kDefaultBlockBytes \<Longrightarrow> contents (one_mem xs) one_buf = xs"
  using buf_wf_contents [OF one_wf] by simp

section \<open>Appending\<close>

text \<open>
  C1. \<open>Append(const char*, size_t)\<close> returns on every valid buffer, whatever the fill of its
  last block, and the buffer then holds exactly its old bytes followed by the new ones:
  the abstract operation it implements is the concatenation of byte strings.
\<close>

theorem Append_refines_concat:
  assumes "valid_buffer m b"
  shows "\<exists>m' b'. Append_bytes m b xs = Inr (m', b') \<and> valid_buffer m' b' \<and>
    contents m' b' = contents m b @ xs"
  using iob.app_ok [OF assms] .

theorem Append_refines_concat_witness:
  "\<exists>m' b'. Append_bytes [] IOBuffer_init ''GET'' = Inr (m', b') \<and> valid_buffer m' b' \<and>
    contents m' b' = contents [] IOBuffer_init @ ''GET''"
  by (rule Append_refines_concat) (rule buf_inv_valid, rule buf_inv_init)

section \<open>Popping\<close>

definition chunks_of :: "mem \<Rightarrow> iobuffer \<Rightarrow> char list list" where
  "chunks_of m b = held m (blocks_of m b)"

lemma contents_chunks: "contents m b = concat (chunks_of m b)"
  by (simp add: contents_def chunks_of_def)

lemma chunks_of_wf: "buf_wf m b as fs \<Longrightarrow> chunks_of m b = held m as"
  by (simp add: chunks_of_def buf_wf_blocks)

lemma PopFront_chunks:
  assumes "valid_buffer m b"
  shows "\<exists>m' b'. PopFront m b len = Inr (m', b') \<and>
    chunks_of m' b' = drain (nat len) (chunks_of m b) \<and>
    (front_ok (chunks_of m' b') \<longrightarrow> valid_buffer m' b')"
proof -
  obtain as fs where wf: "buf_wf m b as fs"
    using assms by (auto simp: valid_buffer_iff buf_inv_def)
  obtain m' b' as' fs' where *: "PopFront m b len = Inr (m', b')" "buf_wf m' b' as' fs'"
    "held m' as' = drain (nat len) (held m as)"
    using PopFront_drain [OF wf] by blast
  then have "front_ok (chunks_of m' b') \<longrightarrow> valid_buffer m' b'"
    by (auto simp: chunks_of_wf buf_inv_def valid_buffer_iff)
  with * wf show ?thesis by (auto simp: chunks_of_wf)
qed

text \<open>
  C2. \<open>PopFront(int)\<close> ends on every valid buffer and for every count, reads no null or freed
  block, and leaves a suffix of the bytes: it never invents or reorders a byte.
\<close>

theorem PopFront_returns_suffix:
  assumes "valid_buffer m b"
  shows "\<exists>m' b'. PopFront m b len = Inr (m', b') \<and> suffix (contents m' b') (contents m b)"
  using PopFront_chunks [OF assms, of len] drain_suffix by (auto simp: contents_chunks)

theorem PopFront_returns_suffix_witness:
  "valid_buffer (one_mem ''hello'') one_buf \<and>
   (\<exists>m' b'. PopFront (one_mem ''hello'') one_buf 2 = Inr (m', b') \<and>
     suffix (contents m' b') (contents (one_mem ''hello'') one_buf))"
  using one_valid [of "''hello''"] PopFront_returns_suffix [of "one_mem ''hello''" one_buf 2]
  by (simp add: kDefaultBlockBytes_def)

text \<open>
  \<open>PopFront(int)\<close> removes exactly the first \<open>len\<close> bytes when \<open>len\<close> is the size of a
  whole number of leading blocks (in particular of all of them).
\<close>

theorem PopFront_whole_blocks:
  assumes "valid_buffer m b" "k \<le> length (chunks_of m b)"
    "\<forall>c \<in> set (take k (chunks_of m b)). c \<noteq> []"
    "front_ok (drop k (chunks_of m b))"
  shows "\<exists>m' b'. PopFront m b (int (length (concat (take k (chunks_of m b))))) = Inr (m', b') \<and>
    valid_buffer m' b' \<and>
    contents m' b' = drop (length (concat (take k (chunks_of m b)))) (contents m b)"
proof -
  let ?cs = "chunks_of m b" and ?n = "length (concat (take k (chunks_of m b)))"
  have split: "?cs = take k ?cs @ drop k ?cs" by simp
  have d: "drain ?n ?cs = drop k ?cs"
    using drain_aligned [OF assms(3), of 0 "drop k ?cs"] by simp
  have "contents m b = concat (take k ?cs) @ concat (drop k ?cs)"
    unfolding contents_chunks by (subst split, subst concat_append) simp
  with PopFront_chunks [OF assms(1), of "int ?n"] d assms(4) show ?thesis
    by (auto simp: contents_chunks)
qed

theorem PopFront_whole_blocks_witness:
  "\<exists>m' b'. PopFront (one_mem ''hello'') one_buf 5 = Inr (m', b') \<and> valid_buffer m' b' \<and>
    contents m' b' = drop 5 ''hello''"
proof -
  have v: "valid_buffer (one_mem ''hello'') one_buf"
    by (rule one_valid) (simp add: kDefaultBlockBytes_def)
  have c: "chunks_of (one_mem ''hello'') one_buf = [''hello'']"
    using one_blocks [of "''hello''"] by (simp add: chunks_of_def kDefaultBlockBytes_def)
  show ?thesis using PopFront_whole_blocks [OF v, of 1] c by (simp add: contents_chunks)
qed

text \<open>
  A count inside a block: the branch for a block larger than \<open>len\<close> advances \<open>start\<close> but
  leaves \<open>len\<close> as it is, so the loop goes on until a block is used up. On a buffer of one
  block every positive count removes every byte, not \<open>len\<close> of them.
\<close>

theorem PopFront_drains_single_block:
  assumes "valid_buffer m b" "length (blocks_of m b) = 1" "0 < len"
  shows "\<exists>m' b'. PopFront m b len = Inr (m', b') \<and> contents m' b' = []"
proof -
  obtain c where c: "chunks_of m b = [c]"
    using assms(2) by (auto simp: chunks_of_def held_def length_Suc_conv)
  have "concat (drain (nat len) [c]) = []"
    using assms(3) drain_last [of "nat len" c] by (cases "c = []") (simp_all add: drain.simps(2) [of _ "[]" "[]"])
  with PopFront_chunks [OF assms(1), of len] c show ?thesis by (auto simp: contents_chunks)
qed

theorem PopFront_drains_single_block_witness:
  "contents (one_mem ''hello'') one_buf = ''hello'' \<and>
   (\<exists>m' b'. PopFront (one_mem ''hello'') one_buf 2 = Inr (m', b') \<and> contents m' b' = [])"
proof -
  have l: "int (length ''hello'') \<le> kDefaultBlockBytes" by (simp add: kDefaultBlockBytes_def)
  show ?thesis
    using PopFront_drains_single_block [OF one_valid [OF l], of 2] one_blocks [OF l] one_contents [OF l]
    by simp
qed

text \<open>
  \<open>PopBack(int)\<close> has the same branch: on a buffer of one block every positive count
  removes every byte; and it removes exactly the bytes of the last block when the count
  is that block's size.
\<close>

theorem PopBack_block_granularity:
  assumes "valid_buffer m b" "chunks_of m b = cs @ [c]" "\<forall>d \<in> set (cs @ [c]). d \<noteq> []"
  shows "(\<exists>m' b'. PopBack m b (int (length c)) = Inr (m', b') \<and> contents m' b' = concat cs) \<and>
    (cs = [] \<longrightarrow> 0 < len \<longrightarrow> (\<exists>m' b'. PopBack m b len = Inr (m', b') \<and> contents m' b' = []))"
proof -
  obtain as fs where wf: "buf_wf m b as fs"
    using assms(1) by (auto simp: valid_buffer_iff buf_inv_def)
  have h: "held m as = cs @ [c]" using assms(2) chunks_of_wf [OF wf] by simp
  have pop: "\<exists>m' b'. PopBack m b l = Inr (m', b') \<and>
      contents m' b' = concat (rev (drain_back (nat l) (c # rev cs)))" for l
  proof -
    obtain m' b' as' fs' where p: "PopBack m b l = Inr (m', b')" "buf_wf m' b' as' fs'"
      "rev (held m' as') = drain_back (nat l) (rev (held m as))"
      using PopBack_drain [OF wf, of l] by blast
    have "rev (held m as) = c # rev cs" using h by simp
    with p(3) have "rev (rev (held m' as')) = rev (drain_back (nat l) (c # rev cs))" by simp
    then have "held m' as' = rev (drain_back (nat l) (c # rev cs))" by simp
    with p buf_wf_contents [OF p(2)] show ?thesis by auto
  qed
  have "drain_back (length c) (c # rev cs) = rev cs"
    using drain_back_aligned [of "[c]" "rev cs" 0] assms(3) by simp
  with pop [of "int (length c)"] have "\<exists>m' b'. PopBack m b (int (length c)) = Inr (m', b') \<and>
      contents m' b' = concat cs" by simp
  moreover have "\<exists>m' b'. PopBack m b len = Inr (m', b') \<and> contents m' b' = []" if "cs = []" "0 < len"
    using pop [of len] drain_back_last [of "nat len" c] that assms(3) by simp
  ultimately show ?thesis by blast
qed

theorem PopBack_block_granularity_witness:
  "\<exists>m' b'. PopBack (one_mem ''hello'') one_buf 2 = Inr (m', b') \<and> contents m' b' = []"
proof -
  have l: "int (length ''hello'') \<le> kDefaultBlockBytes" by (simp add: kDefaultBlockBytes_def)
  have c: "chunks_of (one_mem ''hello'') one_buf = [] @ [''hello'']"
    using one_blocks [OF l] by (simp add: chunks_of_def)
  show ?thesis
    using PopBack_block_granularity [OF one_valid [OF l] c, of 2] by simp
qed

section \<open>Socket transfers\<close>

text \<open>
  C23. \<open>ReadFromSock\<close> on a valid buffer, for any reply \<open>readv\<close> can give: an error or end of
  file leaves the bytes as they are; otherwise the delivered bytes are appended as far as
  they fit the last block (\<open>tail_room\<close>: its free bytes, a whole block when the buffer was
  empty). Bytes that \<open>readv\<close> put in the second block are not counted: that block is
  appended with an empty range.
\<close>

theorem ReadFromSock_appends_tail_room:
  assumes "valid_buffer m b" "kernel_read_ok readv"
  shows "\<exists>m' b' r. ReadFromSock readv m b = Inr (r, m', b') \<and>
    r = readv (int (tail_room m b)) kDefaultBlockBytes \<and> valid_buffer m' b' \<and>
    contents m' b' = contents m b @ take (tail_room m b) (delivered r)"
proof -
  obtain as fs where inv: "buf_inv m b as fs" using assms(1) by (auto simp: valid_buffer_iff)
  show ?thesis using ReadFromSock_inv [OF inv assms(2)] inv
    by (metis buf_inv_contents buf_inv_valid)
qed

definition sample_readv :: "int \<Rightarrow> int \<Rightarrow> read_reply" where
  "sample_readv n0 n1 = (if 3 \<le> n0 + n1 then ReadBytes ''abc'' else ReadErr EAGAIN)"

lemma sample_readv_ok: "kernel_read_ok sample_readv"
  by (auto simp: kernel_read_ok_def sample_readv_def split: if_splits)

theorem ReadFromSock_appends_tail_room_witness:
  "\<exists>m' b' r. ReadFromSock sample_readv (one_mem ''hello'') one_buf = Inr (r, m', b') \<and>
    r = sample_readv (int (tail_room (one_mem ''hello'') one_buf)) kDefaultBlockBytes \<and>
    valid_buffer m' b' \<and> contents m' b' = contents (one_mem ''hello'') one_buf @
      take (tail_room (one_mem ''hello'') one_buf) (delivered r)"
  by (rule ReadFromSock_appends_tail_room [OF one_valid sample_readv_ok])
    (simp add: kDefaultBlockBytes_def)

text \<open>
  \<open>WriteToSock\<close> offers \<open>writev\<close> the bytes at the front of the buffer, in order and from
  at most four blocks: all of them when the buffer has no more than four blocks. An empty
  buffer makes no system call and reports 0.
\<close>

theorem WriteToSock_offers_front:
  assumes "valid_buffer m b"
  shows "\<exists>vecs. WriteToSock writev m b = Inr (if contents m b = [] then ([], Wrote 0) else (vecs, writev vecs)) \<and>
    length vecs \<le> 4 \<and> prefix (concat vecs) (contents m b) \<and>
    (length (blocks_of m b) \<le> 4 \<longrightarrow> concat vecs = contents m b)"
proof -
  obtain as fs where inv: "buf_inv m b as fs" using assms by (auto simp: valid_buffer_iff)
  have as: "blocks_of m b = as" using inv by (auto simp: buf_inv_def buf_wf_blocks)
  have "prefix (concat (take 4 (held m as))) (concat (held m as))"
    by (metis append_take_drop_id concat_append prefixI)
  with WriteToSock_inv [OF inv, of writev] buf_inv_contents [OF inv] as show ?thesis
    by (intro exI [of _ "take 4 (held m as)"]) auto
qed

theorem WriteToSock_offers_front_witness:
  "\<exists>vecs. WriteToSock (\<lambda>_. Wrote 2) (one_mem ''hello'') one_buf =
      Inr (if contents (one_mem ''hello'') one_buf = [] then ([], Wrote 0) else (vecs, Wrote 2)) \<and>
    length vecs \<le> 4 \<and> prefix (concat vecs) (contents (one_mem ''hello'') one_buf) \<and>
    (length (blocks_of (one_mem ''hello'') one_buf) \<le> 4 \<longrightarrow>
      concat vecs = contents (one_mem ''hello'') one_buf)"
  by (rule WriteToSock_offers_front, rule one_valid) (simp add: kDefaultBlockBytes_def)

section \<open>Joining, clearing and destroying\<close>

text \<open>Two chains of blocks joined through the pointers at their ends.\<close>

lemma Append_buffer_joins:
  assumes wf: "buf_wf m b as fs" and wf2: "buf_wf m o' as2 fs2" and ne: "as \<noteq> []" "as2 \<noteq> []"
    and dis: "set as \<inter> set as2 = {}" "set fs \<inter> set as2 = {}"
    and e: "IOBuffer_Empty m b = Inr False" "IOBuffer_Empty m o' = Inr False"
  shows "\<exists>m2 b'. Append_buffer m b o' = Inr (m2, b', o'\<lparr>io_head := None, io_tail := None\<rparr>) \<and>
    buf_wf m2 b' (as @ as2) fs \<and> held m2 (as @ as2) = held m as @ held m as2"
proof -
  obtain as0 t where as: "as = as0 @ [t]" using ne by (cases as rule: rev_cases) auto
  obtain c as2' where as2: "as2 = c # as2'" using ne by (cases as2) auto
  obtain tb where t: "io_tail b = Some t" "lk m t = Some tb" "block_ok tb" "b_next tb = None"
    "b_pre tb = last_ptr None as0" using wf as buf_wf_tail by metis
  obtain cb where c: "io_head o' = Some c" "lk m c = Some cb" "block_ok cb" "b_pre cb = None"
    "dseg m (Some c) (b_next cb) as2' None" using wf2 as2 buf_wf_head by metis
  have tc: "t \<noteq> c" "c \<notin> set as0" "c \<notin> set fs" "t \<notin> set as2'" "t \<notin> set as0" "t \<notin> set fs" "c \<notin> set as2'"
    using dis as as2 wf wf2 by (auto simp: buf_wf_def)
  let ?m1 = "m[t := Some (tb\<lparr>b_next := Some c\<rparr>)]"
  let ?m2 = "?m1[c := Some (cb\<lparr>b_pre := Some t\<rparr>)]" and ?b' = "b\<lparr>io_tail := io_tail o'\<rparr>"
  have c1: "lk ?m1 c = Some cb" using c tc by simp
  have lk2: "lk ?m2 c = Some (cb\<lparr>b_pre := Some t\<rparr>)" "lk ?m2 t = Some (tb\<lparr>b_next := Some c\<rparr>)"
    using c1 t tc by simp_all
  have other: "lk ?m2 d = lk m d" if "d \<in> set as0 \<union> set as2' \<union> set fs" for d
    using that tc by (subst lk_update_other, blast)+ simp
  have "dseg ?m2 None (io_head b) as0 (Some t)"
    using wf as by (subst dseg_cong [of as0 ?m2 m], use other in blast) (auto simp: buf_wf_def dseg_append)
  moreover have "dseg ?m2 (Some c) (b_next cb) as2' None"
    using c by (subst dseg_cong [of as2' ?m2 m], use other in blast) simp
  ultimately have "dseg ?m2 None (io_head b) (as @ as2) None"
    using as as2 lk2 t by (auto simp: dseg_append)
  moreover have "fseg ?m2 (io_recycled b) fs"
    using wf by (subst fseg_cong [of fs ?m2 m], use other in blast) (auto simp: buf_wf_def)
  moreover have "block_ok (the (lk ?m2 d))" if "d \<in> set (as @ as2)" for d
    using that wf wf2 as as2 lk2 t c other [of d] by (cases "d = c"; cases "d = t") (auto simp: buf_wf_def)
  ultimately have "buf_wf ?m2 ?b' (as @ as2) fs"
    using wf wf2 dis as2 by (auto simp: buf_wf_def last_ptr_def)
  moreover have "held ?m2 as0 = held m as0" "held ?m2 as2' = held m as2'"
    by (rule held_cong, use other in blast)+
  then have "held ?m2 (as @ as2) = held m as @ held m as2" using as as2 lk2 t c by simp
  moreover have "Append_buffer m b o' = Inr (?m2, ?b', o'\<lparr>io_head := None, io_tail := None\<rparr>)"
    using e t c c1 by (simp add: Append_buffer_def)
  ultimately show ?thesis by blast
qed

text \<open>
  \<open>Append(IOBuffer&)\<close> on two valid buffers with separate blocks moves the bytes of
  the second behind those of the first and leaves the second empty.
\<close>

theorem Append_buffer_moves:
  assumes v: "valid_buffer m b" "valid_buffer m o'"
    and sep: "(set (blocks_of m b) \<union> set (recycled_of m b)) \<inter> (set (blocks_of m o') \<union> set (recycled_of m o')) = {}"
  shows "\<exists>m' b' o''. Append_buffer m b o' = Inr (m', b', o'') \<and> valid_buffer m' b' \<and>
    contents m' b' = contents m b @ contents m o' \<and> contents m' o'' = []"
proof -
  obtain as fs where inv: "buf_inv m b as fs" using v(1) by (auto simp: valid_buffer_iff)
  obtain as2 fs2 where inv2: "buf_inv m o' as2 fs2" using v(2) by (auto simp: valid_buffer_iff)
  note wf = buf_inv_wf [OF inv] and wf2 = buf_inv_wf [OF inv2]
  have sets: "blocks_of m b = as" "recycled_of m b = fs" "blocks_of m o' = as2" "recycled_of m o' = fs2"
    using wf wf2 buf_wf_blocks buf_wf_recycled by blast+
  have dis: "set as \<inter> set as2 = {}" "set fs \<inter> set as2 = {}" using sep sets by auto
  note cont = buf_inv_contents [OF inv] buf_inv_contents [OF inv2]
  note E = Empty_inv [OF inv] Empty_inv [OF inv2]
  have cleared: "contents m' (o'\<lparr>io_head := None, io_tail := None\<rparr>) = []" for m'
    by (cases "length m'") (simp_all add: contents_def blocks_of_def)
  consider "concat (held m as2) = []" | "concat (held m as2) \<noteq> []" "concat (held m as) = []"
    | "concat (held m as2) \<noteq> []" "concat (held m as) \<noteq> []" by blast
  then show ?thesis
  proof cases
    case 1
    then show ?thesis using v cont E by (auto simp: Append_buffer_def)
  next
    case 2
    let ?b' = "b\<lparr>io_head := io_head o', io_tail := io_tail o'\<rparr>"
    have "buf_inv m ?b' as2 fs"
      using wf wf2 inv2 dis by (auto simp: buf_inv_def buf_wf_def)
    then show ?thesis
      using 2 E cont cleared by (auto simp: Append_buffer_def buf_inv_contents intro!: buf_inv_valid)
  next
    case 3
    have ne: "as \<noteq> []" "as2 \<noteq> []" using 3 by auto
    obtain m2 b' where j: "Append_buffer m b o' = Inr (m2, b', o'\<lparr>io_head := None, io_tail := None\<rparr>)"
      "buf_wf m2 b' (as @ as2) fs" "held m2 (as @ as2) = held m as @ held m as2"
      using Append_buffer_joins [OF wf wf2 ne dis] E 3 by auto
    have "front_ok (held m2 (as @ as2))"
      unfolding j(3) using 3 E Empty_wf [OF wf] by (intro front_ok_hd) (auto simp: hd_append)
    with j have "buf_inv m2 b' (as @ as2) fs" by (simp add: buf_inv_def)
    with j show ?thesis
      using cont cleared by (auto simp: buf_inv_contents simp del: held_simps intro!: buf_inv_valid)
  qed
qed

theorem Append_buffer_moves_witness:
  "\<exists>m' b' o''. Append_buffer (one_mem ''hello'') one_buf IOBuffer_init = Inr (m', b', o'') \<and>
    valid_buffer m' b' \<and> contents m' b' = contents (one_mem ''hello'') one_buf @
      contents (one_mem ''hello'') IOBuffer_init \<and> contents m' o'' = []"
proof (rule Append_buffer_moves)
  show "valid_buffer (one_mem ''hello'') one_buf"
    by (rule one_valid) (simp add: kDefaultBlockBytes_def)
  show "valid_buffer (one_mem ''hello'') IOBuffer_init" by (rule buf_inv_valid, rule buf_inv_init)
  show "(set (blocks_of (one_mem ''hello'') one_buf) \<union> set (recycled_of (one_mem ''hello'') one_buf)) \<inter>
      (set (blocks_of (one_mem ''hello'') IOBuffer_init) \<union>
       set (recycled_of (one_mem ''hello'') IOBuffer_init)) = {}"
    using buf_wf_blocks [OF buf_wf_init] buf_wf_recycled [OF buf_wf_init] by simp
qed

text \<open>
  Once a block of the list has been recycled, \<open>head_->next\<close> is the head of the recycling
  list: with a recycled block at hand the loop of \<open>Clear\<close> goes back and forth for ever.
\<close>

lemma Clear_loop_cycles:
  "lk m x \<noteq> None \<Longrightarrow> lk m y \<noteq> None \<Longrightarrow> x \<noteq> y \<Longrightarrow> x \<noteq> t \<Longrightarrow> y \<noteq> t \<Longrightarrow>
     io_head b = Some x \<Longrightarrow> io_recycled b = Some y \<Longrightarrow> io_tail b = Some t \<Longrightarrow>
     Clear_loop n m b = Inl FuelOut"
proof (induction n arbitrary: m b x y)
  case 0
  then show ?case by simp
next
  case (Suc n)
  obtain bx where bx: "lk m x = Some bx" using Suc.prems by auto
  let ?bx = "bx\<lparr>b_start := 0, b_end := 0, b_pre := None, b_next := Some y\<rparr>"
  let ?b = "b\<lparr>io_recycled := Some x, io_head := Some y\<rparr>"
  have "Clear_loop n (m[x := Some ?bx]) ?b = Inl FuelOut"
    by (rule Suc.IH [of _ y x]) (use Suc.prems bx in auto)
  then show ?case using Suc.prems bx by (simp add: RecycleBlock_def)
qed

text \<open>
  \<open>Clear()\<close> of a buffer with at most one block resets the two ends and recycles nothing.
  With two or more blocks it never returns: it dereferences the null pointer when no block
  has been recycled before and loops for ever otherwise, because it reads \<open>head_->next\<close>
  after \<open>RecycleBlock\<close> has redirected it.
\<close>

theorem Clear_behaviour:
  assumes v: "valid_buffer m b"
  shows "(length (blocks_of m b) \<le> 1 \<longrightarrow>
      IOBuffer_Clear m b = Inr (m, b\<lparr>io_head := None, io_tail := None\<rparr>)) \<and>
    (2 \<le> length (blocks_of m b) \<longrightarrow>
      IOBuffer_Clear m b = Inl (if recycled_of m b = [] then NullDeref else FuelOut))"
proof -
  obtain as fs where wf: "buf_wf m b as fs"
    using v by (auto simp: valid_buffer_iff buf_inv_def)
  have sets: "blocks_of m b = as" "recycled_of m b = fs"
    using wf buf_wf_blocks buf_wf_recycled by blast+
  obtain n where n: "steps m = Suc n" by (simp add: steps_def)
  have short: "IOBuffer_Clear m b = Inr (m, b\<lparr>io_head := None, io_tail := None\<rparr>)"
    if "length as \<le> 1"
  proof -
    have "io_head b = io_tail b" using that wf by (cases as) (auto simp: buf_wf_def)
    then show ?thesis by (simp add: IOBuffer_Clear_def n)
  qed
  have long: "IOBuffer_Clear m b = Inl (if fs = [] then NullDeref else FuelOut)" if l: "2 \<le> length as"
  proof -
    obtain a as' where as: "as = a # as'" "as' \<noteq> []" using l by (cases as; cases "tl as") auto
    obtain blk where a: "io_head b = Some a" "lk m a = Some blk" using buf_wf_head wf as by metis
    have t: "io_tail b = Some (last as')" using wf as by (simp add: buf_wf_def last_ptr_def)
    have ta: "last as' \<noteq> a" using wf as last_in_set [OF as(2)] by (auto simp: buf_wf_def)
    show ?thesis
    proof (cases fs)
      case Nil
      then have r: "io_recycled b = None" using wf by (simp add: buf_wf_def)
      have "2 \<le> length m" using buf_wf_length [OF wf] l by simp
      then obtain k where "n = Suc k" using n by (cases n) (auto simp: steps_def)
      then show ?thesis using Nil a t ta r by (simp add: IOBuffer_Clear_def n RecycleBlock_def)
    next
      case (Cons f fs')
      have f: "io_recycled b = Some f" "lk m f \<noteq> None" "f \<noteq> a" "f \<noteq> last as'"
        using wf Cons as last_in_set [OF as(2)] by (auto simp: buf_wf_def split: option.splits)
      show ?thesis
        using Clear_loop_cycles [of m a f "last as'" b] a t ta f Cons by (simp add: IOBuffer_Clear_def)
    qed
  qed
  show ?thesis using short long sets by simp
qed

theorem Clear_behaviour_witness:
  "IOBuffer_Clear (one_mem ''hello'') one_buf = Inr (one_mem ''hello'', IOBuffer_init)"
proof -
  have l: "int (length ''hello'') \<le> kDefaultBlockBytes" by (simp add: kDefaultBlockBytes_def)
  show ?thesis using Clear_behaviour [OF one_valid [OF l]] one_blocks [OF l]
    by (simp add: one_buf_def IOBuffer_init_def)
qed

lemma destroy_loop_frees:
  "fseg m (io_recycled b) fs \<Longrightarrow> distinct fs \<Longrightarrow> length fs < n \<Longrightarrow>
     \<exists>m'. destroy_loop n m b = Inr (m', b\<lparr>io_recycled := None\<rparr>) \<and>
       (\<forall>a. lk m' a = (if a \<in> set fs then None else lk m a))"
proof (induction n arbitrary: m b fs)
  case 0
  then show ?case by simp
next
  case (Suc n)
  show ?case
  proof (cases fs)
    case Nil
    with Suc.prems show ?thesis by (auto intro!: exI [of _ m])
  next
    case (Cons f fs')
    then obtain blk where f: "io_recycled b = Some f" "lk m f = Some blk" "fseg m (b_next blk) fs'"
      using Suc.prems by (auto split: option.splits)
    let ?m = "m[f := None]" and ?b = "b\<lparr>io_recycled := b_next blk\<rparr>"
    have nf: "f \<notin> set fs'" using Suc.prems Cons by simp
    have "fseg ?m (b_next blk) fs'"
      using f by (subst fseg_cong [of fs' ?m m]) (use nf in \<open>auto simp: lk_update\<close>)
    then obtain m' where "destroy_loop n ?m ?b = Inr (m', ?b\<lparr>io_recycled := None\<rparr>)"
      "\<forall>a. lk m' a = (if a \<in> set fs' then None else lk ?m a)"
      using Suc.IH [of ?m ?b fs'] Suc.prems Cons by auto
    then show ?thesis using f Cons lk_SomeD [OF f(2)]
      by (auto simp: delete_block_def lk_update intro!: exI [of _ m'])
  qed
qed

text \<open>
  C24. The destructor of a valid buffer returns, deletes every recycled block once and no
  other: the blocks that still hold data stay allocated with nothing left to reach them.
\<close>

theorem destroy_frees_recycled_only:
  assumes "valid_buffer m b"
  shows "\<exists>m' b'. IOBuffer_destroy m b = Inr (m', b') \<and>
    (\<forall>a. lk m' a = (if a \<in> set (recycled_of m b) then None else lk m a)) \<and>
    (\<forall>a \<in> set (blocks_of m b). lk m' a \<noteq> None)"
proof -
  obtain as fs where wf: "buf_wf m b as fs"
    using assms by (auto simp: valid_buffer_iff buf_inv_def)
  have sets: "blocks_of m b = as" "recycled_of m b = fs"
    using wf buf_wf_blocks buf_wf_recycled by blast+
  have f: "fseg m (io_recycled b) fs" "distinct fs" "length fs < steps m"
    using wf buf_wf_length [OF wf] by (auto simp: buf_wf_def steps_def)
  obtain m' where "destroy_loop (steps m) m b = Inr (m', b\<lparr>io_recycled := None\<rparr>)"
    "\<forall>a. lk m' a = (if a \<in> set fs then None else lk m a)"
    using destroy_loop_frees [OF f] by blast
  moreover have "lk m a \<noteq> None \<and> a \<notin> set fs" if "a \<in> set as" for a
    using that wf by (auto simp: buf_wf_def dest: dseg_alive)
  ultimately show ?thesis using sets by (auto simp: IOBuffer_destroy_def Empty_wf [OF wf])
qed

theorem destroy_frees_recycled_only_witness:
  "\<exists>m' b'. IOBuffer_destroy (one_mem ''hello'') one_buf = Inr (m', b') \<and>
    (\<forall>a. lk m' a = (if a \<in> set (recycled_of (one_mem ''hello'') one_buf) then None
                   else lk (one_mem ''hello'') a)) \<and>
    (\<forall>a \<in> set (blocks_of (one_mem ''hello'') one_buf). lk m' a \<noteq> None)"
  by (rule destroy_frees_recycled_only, rule one_valid) (simp add: kDefaultBlockBytes_def)

end
