(* ===== verification/IOBuffer_Iter.thy ===== *)
theory IOBuffer_Iter
  imports IOBuffer_Props
begin

text \<open>
  The iterators of an \<open>IOBuffer\<close> and what is built on them: \<open>Skip\<close>, \<open>AsString\<close>, the scanner
  \<open>Parse\<close> and \<open>PopFront(iterator)\<close>. An iterator is a block and an offset from the start of
  its array. The interface \<open>byte_cursor\<close> says what a walk over a string by iterators
  relies on; buffers filled by appending provide it.
\<close>

section \<open>Iterators\<close>

record iter =
  it_blk :: "addr option"
  it_offset :: int

definition kNull :: iter where
  "kNull = \<lparr>it_blk = None, it_offset = - 1\<rparr>"

definition it_IsValid :: "iter \<Rightarrow> bool" where
  "it_IsValid it = (it_blk it \<noteq> None \<and> it_offset it \<ge> 0)"

definition it_deref :: "mem \<Rightarrow> iter \<Rightarrow> char res" where
  "it_deref m it =
     bindR (deref m (it_blk it)) (\<lambda>blk.
       if 0 \<le> it_offset it \<and> it_offset it < kDefaultBlockBytes then
         (case b_data blk (it_offset it) of None \<Rightarrow> Inl Uninit | Some c \<Rightarrow> Inr c)
       else Inl OutOfBounds)"

definition it_inc :: "mem \<Rightarrow> iter \<Rightarrow> iter res" where
  "it_inc m it =
     (let o' = it_offset it + 1 in
      if o' \<ge> kDefaultBlockBytes then
        bindR (deref m (it_blk it)) (\<lambda>blk. Inr \<lparr>it_blk = b_next blk, it_offset = 0\<rparr>)
      else Inr \<lparr>it_blk = it_blk it, it_offset = o'\<rparr>)"

fun it_plus_loop :: "mem \<Rightarrow> iter \<Rightarrow> nat \<Rightarrow> iter res" where
  "it_plus_loop m it 0 = Inr it"
| "it_plus_loop m it (Suc step) = bindR (it_inc m it) (\<lambda>it'. it_plus_loop m it' step)"

definition it_plus :: "mem \<Rightarrow> iter \<Rightarrow> int \<Rightarrow> iter res" where
  "it_plus m it step = CHECK (step \<ge> 0) (it_plus_loop m it (nat step))"

fun it_minus_loop :: "nat \<Rightarrow> mem \<Rightarrow> iter \<Rightarrow> iter \<Rightarrow> int \<Rightarrow> int res" where
  "it_minus_loop 0 m it oth cnt = Inl FuelOut"
| "it_minus_loop (Suc n) m it oth cnt =
     (if oth \<noteq> it then bindR (it_inc m oth) (\<lambda>oth'. it_minus_loop n m it oth' (cnt + 1))
      else Inr cnt)"

definition it_minus :: "mem \<Rightarrow> iter \<Rightarrow> iter \<Rightarrow> int res" where
  "it_minus m it other = it_minus_loop (steps m) m it other 0"

definition Begin :: "mem \<Rightarrow> iobuffer \<Rightarrow> iter res" where
  "Begin m b =
     (case io_head b of None \<Rightarrow> Inr kNull
      | Some a \<Rightarrow> bindR (deref m (Some a)) (\<lambda>blk. Inr \<lparr>it_blk = Some a, it_offset = b_start blk\<rparr>))"

definition End :: "mem \<Rightarrow> iobuffer \<Rightarrow> iter res" where
  "End m b =
     (case io_tail b of None \<Rightarrow> Inr kNull
      | Some a \<Rightarrow> bindR (deref m (Some a)) (\<lambda>blk. Inr \<lparr>it_blk = Some a, it_offset = b_end blk\<rparr>))"

fun Skip_loop :: "nat \<Rightarrow> mem \<Rightarrow> iter \<Rightarrow> iter \<Rightarrow> char \<Rightarrow> iter res" where
  "Skip_loop 0 m e it ch = Inl FuelOut"
| "Skip_loop (Suc n) m e it ch =
     bindR (it_deref m it) (\<lambda>c.
       if c = ch then
         bindR (it_plus m it 1) (\<lambda>nx.
           if nx \<noteq> e then bindR (it_inc m it) (\<lambda>it'. Skip_loop n m e it' ch)
           else Inr it)
       else Inr it)"

definition Skip :: "mem \<Rightarrow> iobuffer \<Rightarrow> iter \<Rightarrow> char \<Rightarrow> iter res" where
  "Skip m b begin ch =
     bindR (End m b) (\<lambda>e.
     bindR (it_deref m begin) (\<lambda>c.
     CHECK (c = ch) (Skip_loop (steps m) m e begin ch)))"

fun AsString_loop :: "nat \<Rightarrow> mem \<Rightarrow> iter \<Rightarrow> iter \<Rightarrow> iter \<Rightarrow> char list res" where
  "AsString_loop 0 m e buff_end it = Inl FuelOut"
| "AsString_loop (Suc n) m e buff_end it =
     (if it \<noteq> e \<and> it \<noteq> buff_end then
        bindR (it_deref m it) (\<lambda>c.
        bindR (it_inc m it) (\<lambda>it'.
        bindR (AsString_loop n m e buff_end it') (\<lambda>rest.
        Inr (c # rest))))
      else Inr [])"

definition AsString :: "mem \<Rightarrow> iobuffer \<Rightarrow> iter \<Rightarrow> iter \<Rightarrow> char list res" where
  "AsString m b begin e = bindR (End m b) (\<lambda>buff_end. AsString_loop (steps m) m e buff_end begin)"

text \<open>
  \<open>Parse\<close>: the caller's matcher and callbacks are arguments, the caller's state \<open>st\<close>
  is what they read and write. The result tells whether the matcher hit.
\<close>

fun Parse_loop ::
  "nat \<Rightarrow> mem \<Rightarrow> (iter \<Rightarrow> iter \<Rightarrow> bool res) \<Rightarrow> (iter \<Rightarrow> iter \<Rightarrow> 'st res) \<Rightarrow> (iter \<Rightarrow> 'st res) \<Rightarrow>
   iter \<Rightarrow> iter \<Rightarrow> iter \<Rightarrow> (bool \<times> 'st) res" where
  "Parse_loop 0 m matcher on_hit on_miss e pre cur = Inl FuelOut"
| "Parse_loop (Suc n) m matcher on_hit on_miss e pre cur =
     (if cur \<noteq> e then
        bindR (if pre \<noteq> kNull then matcher pre cur else Inr False) (\<lambda>hit.
          if hit then bindR (on_hit pre cur) (\<lambda>st. Inr (True, st))
          else bindR (it_inc m cur) (\<lambda>cur'. Parse_loop n m matcher on_hit on_miss e cur cur'))
      else CHECK (cur = e) (bindR (on_miss pre) (\<lambda>st. Inr (False, st))))"

definition IOBuffer_Parse ::
  "mem \<Rightarrow> iobuffer \<Rightarrow> iter \<Rightarrow> (iter \<Rightarrow> iter \<Rightarrow> bool res) \<Rightarrow> (iter \<Rightarrow> iter \<Rightarrow> 'st res) \<Rightarrow>
   (iter \<Rightarrow> 'st res) \<Rightarrow> (bool \<times> 'st) res" where
  "IOBuffer_Parse m b starting_point matcher on_hit on_miss =
     bindR (End m b) (\<lambda>e. Parse_loop (steps m) m matcher on_hit on_miss e kNull starting_point)"

fun PopFront_pos_loop :: "nat \<Rightarrow> mem \<Rightarrow> iobuffer \<Rightarrow> addr option \<Rightarrow> (mem \<times> iobuffer) res" where
  "PopFront_pos_loop 0 m b p = Inl FuelOut"
| "PopFront_pos_loop (Suc n) m b p =
     (if io_head b \<noteq> p then
        bindR (ForwardHeadByOneBlock m b) (\<lambda>(m1, b1). PopFront_pos_loop n m1 b1 p)
      else Inr (m, b))"

definition PopFront_pos :: "mem \<Rightarrow> iobuffer \<Rightarrow> iter \<Rightarrow> (mem \<times> iobuffer) res" where
  "PopFront_pos m b pos =
     bindR (IOBuffer_Empty m b) (\<lambda>e.
       if e then Inr (m, b)
       else
         bindR (PopFront_pos_loop (steps m) m b (it_blk pos)) (\<lambda>(m1, b1).
         bindR (modify m1 (io_head b1) (\<lambda>x. x\<lparr>b_start := b_start x + (it_offset pos + 1)\<rparr>)) (\<lambda>m2.
         bindR (deref m2 (io_head b1)) (\<lambda>h.
         bindR (if b_start h \<ge> kDefaultBlockBytes then ForwardHeadByOneBlock m2 b1
                else Inr (m2, b1)) (\<lambda>(m3, b3).
         Inr (m3, if io_head b3 = None then b3\<lparr>io_tail := None\<rparr> else b3))))))"

section \<open>The interface of a cursor\<close>

text \<open>
  A text with positions \<open>0\<close> to its length: reading at a position gives the character there,
  a step leads to the next position, and different positions are different iterators.
\<close>

locale byte_cursor =
  fixes good :: "'s \<Rightarrow> bool"
    and str :: "'s \<Rightarrow> char list"
    and pos :: "'s \<Rightarrow> nat \<Rightarrow> 'i"
    and inc :: "'s \<Rightarrow> 'i \<Rightarrow> 'i res"
    and get :: "'s \<Rightarrow> 'i \<Rightarrow> char res"
  assumes inc_pos: "good s \<Longrightarrow> i < length (str s) \<Longrightarrow> inc s (pos s i) = Inr (pos s (Suc i))"
    and get_pos: "good s \<Longrightarrow> i < length (str s) \<Longrightarrow> get s (pos s i) = Inr (str s ! i)"
    and pos_inj: "good s \<Longrightarrow> i \<le> length (str s) \<Longrightarrow> j \<le> length (str s) \<Longrightarrow> pos s i = pos s j \<longleftrightarrow> i = j"
begin

fun walk :: "'s \<Rightarrow> nat \<Rightarrow> 'i \<Rightarrow> 'i res" where
  "walk s 0 p = Inr p"
| "walk s (Suc k) p = bindR (inc s p) (walk s k)"

lemma walk_pos: "good s \<Longrightarrow> i + k \<le> length (str s) \<Longrightarrow> walk s k (pos s i) = Inr (pos s (i + k))"
  by (induction k arbitrary: i) (simp_all add: inc_pos)

fun read_n :: "'s \<Rightarrow> nat \<Rightarrow> 'i \<Rightarrow> char list res" where
  "read_n s 0 p = Inr []"
| "read_n s (Suc k) p = bindR (get s p) (\<lambda>c. bindR (inc s p) (\<lambda>p'. bindR (read_n s k p') (\<lambda>cs. Inr (c # cs))))"

lemma read_n_pos:
  "good s \<Longrightarrow> i + k \<le> length (str s) \<Longrightarrow> read_n s k (pos s i) = Inr (take k (drop i (str s)))"
proof (induction k arbitrary: i)
  case 0
  then show ?case by simp
next
  case (Suc k)
  then have "i < length (str s)" by simp
  with Suc show ?case by (simp add: inc_pos get_pos take_Suc_conv_app_nth Cons_nth_drop_Suc [symmetric])
qed

end

section \<open>Buffers that iterators can walk\<close>

text \<open>
  Every block but the last is full, every block but the first starts at 0, and the last
  one is not full: the iterator after the last byte is then \<open>End()\<close>.
\<close>

definition walkable :: "mem \<times> iobuffer \<Rightarrow> bool" where
  "walkable s \<longleftrightarrow> (case s of (m, b) \<Rightarrow>
     valid_buffer m b \<and> blocks_of m b \<noteq> [] \<and> packed m (blocks_of m b) \<and>
     b_end (the (lk m (last (blocks_of m b)))) < kDefaultBlockBytes)"

definition first_start :: "mem \<Rightarrow> addr list \<Rightarrow> int" where
  "first_start m as = b_start (the (lk m (hd as)))"

definition buf_pos :: "mem \<times> iobuffer \<Rightarrow> nat \<Rightarrow> iter" where
  "buf_pos s i = (case s of (m, b) \<Rightarrow>
     (let as = blocks_of m b; g = first_start m as + int i in
      \<lparr>it_blk = Some (as ! nat (g div kDefaultBlockBytes)), it_offset = g mod kDefaultBlockBytes\<rparr>))"

lemma K_pos [simp]: "0 < kDefaultBlockBytes" "kDefaultBlockBytes \<noteq> 0"
  by (simp_all add: kDefaultBlockBytes_def)

lemma chunk_nth:
  assumes "i < length (chunk blk)"
  shows "chunk blk ! i = the (b_data blk (b_start blk + int i))"
  using assms by (simp add: chunk_def nth_upto)

text \<open>Byte \<open>i\<close> of a packed list of blocks lies at index \<open>first_start + i\<close> of the joined arrays.\<close>

lemma packed_index:
  assumes "packed m as" "\<forall>a \<in> set as. block_ok (the (lk m a))" "as \<noteq> []"
    "i < length (concat (held m as))" "g = first_start m as + int i"
  shows "nat (g div kDefaultBlockBytes) < length as \<and>
    b_data (the (lk m (as ! nat (g div kDefaultBlockBytes)))) (g mod kDefaultBlockBytes)
      = Some (concat (held m as) ! i)"
  using assms
proof (induction m as arbitrary: i g rule: packed.induct)
  case (2 m a)
  let ?x = "the (lk m a)"
  have ok: "block_ok ?x" and i: "i < length (chunk ?x)" using 2 by simp_all
  have g: "b_start ?x \<le> g" "g < b_end ?x" "g < kDefaultBlockBytes" "0 \<le> g"
    using ok i 2(5) by (auto simp: length_chunk Size_def block_ok_def first_start_def)
  then have "b_data ?x g \<noteq> None" using ok by (simp add: block_ok_def)
  then show ?case using g i 2(5) by (auto simp: chunk_nth first_start_def)
next
  case (3 m a c as)
  let ?x = "the (lk m a)"
  have ok: "block_ok ?x" and full: "b_end ?x = kDefaultBlockBytes" and c0: "first_start m (c # as) = 0"
    using 3 by (simp_all add: first_start_def)
  have len: "int (length (chunk ?x)) = kDefaultBlockBytes - b_start ?x"
    using ok full by (simp add: length_chunk Size_def block_ok_def)
  show ?case
  proof (cases "i < length (chunk ?x)")
    case True
    then have g: "b_start ?x \<le> g" "g < kDefaultBlockBytes" "0 \<le> g"
      using ok len 3(6) by (auto simp: block_ok_def first_start_def)
    then have "b_data ?x g \<noteq> None" using ok full by (simp add: block_ok_def)
    then show ?thesis using g True 3(6) by (auto simp: chunk_nth first_start_def nth_append)
  next
    case False
    let ?i = "i - length (chunk ?x)" and ?g = "g - kDefaultBlockBytes"
    have gi: "?g = first_start m (c # as) + int ?i"
      using False len c0 3(6) by (simp add: first_start_def)
    have IH: "nat (?g div kDefaultBlockBytes) < length (c # as) \<and>
      b_data (the (lk m ((c # as) ! nat (?g div kDefaultBlockBytes)))) (?g mod kDefaultBlockBytes)
        = Some (concat (held m (c # as)) ! ?i)"
      by (rule 3(1) [OF _ _ _ _ gi]) (use 3 False in auto)
    have g0: "0 \<le> ?g" using gi c0 by simp
    have dm: "g div kDefaultBlockBytes = ?g div kDefaultBlockBytes + 1" "?g mod kDefaultBlockBytes = g mod kDefaultBlockBytes"
      using div_add_self2 [of kDefaultBlockBytes ?g] by (simp_all add: mod_diff_right_eq)
    have "nat (g div kDefaultBlockBytes) = Suc (nat (?g div kDefaultBlockBytes))"
      using dm g0 by (simp add: nat_add_distrib pos_imp_zdiv_nonneg_iff)
    then show ?thesis using IH dm False by (simp add: nth_append)
  qed
qed simp

lemma packed_span:
  assumes "packed m as" "\<forall>a \<in> set as. block_ok (the (lk m a))" "as \<noteq> []"
  shows "first_start m as + int (length (concat (held m as))) =
    int (length as - 1) * kDefaultBlockBytes + b_end (the (lk m (last as)))"
  using assms
proof (induction m as rule: packed.induct)
  case (2 m a)
  then show ?case by (simp add: first_start_def length_chunk Size_def block_ok_def)
next
  case (3 m a c as)
  then have "int (length (chunk (the (lk m a)))) = kDefaultBlockBytes - first_start m (a # c # as)"
    by (simp add: length_chunk Size_def block_ok_def first_start_def)
  moreover have "first_start m (c # as) = 0" using 3 by (simp add: first_start_def)
  ultimately show ?case using 3 by (simp add: algebra_simps)
qed simp

lemma dseg_next:
  "dseg m pr p as nx \<Longrightarrow> Suc j < length as \<Longrightarrow>
     \<exists>blk. lk m (as ! j) = Some blk \<and> b_next blk = Some (as ! Suc j)"
proof (induction as arbitrary: pr p j)
  case (Cons a as)
  then show ?case by (cases j; cases as) (auto split: option.splits)
qed simp

text \<open>The facts about a walkable buffer that its cursor laws need.\<close>

lemma walkableE:
  assumes "walkable (m, b)"
  obtains as fs where "buf_wf m b as fs" "blocks_of m b = as" "as \<noteq> []" "packed m as"
    "\<forall>a \<in> set as. block_ok (the (lk m a))" "front_ok (held m as)" "distinct as"
    "contents m b = concat (held m as)" "b_end (the (lk m (last as))) < kDefaultBlockBytes"
    "dseg m None (io_head b) as None"
proof -
  obtain as fs where inv: "buf_inv m b as fs"
    using assms by (auto simp: walkable_def valid_buffer_iff)
  have wf: "buf_wf m b as fs" using inv by (rule buf_inv_wf)
  show thesis
    by (rule that [OF wf buf_wf_blocks [OF wf]])
      (use assms inv buf_wf_blocks [OF wf] buf_inv_contents [OF inv]
        in \<open>auto simp: walkable_def buf_inv_def buf_wf_def\<close>)
qed

lemma first_start_range:
  assumes "\<forall>a \<in> set as. block_ok (the (lk m a))" "as \<noteq> []"
  shows "0 \<le> first_start m as"
  using assms by (auto simp: first_start_def block_ok_def)

lemma walkable_index:
  assumes w: "walkable (m, b)" and i: "i \<le> length (contents m b)"
    and g: "g = first_start m (blocks_of m b) + int i"
  shows "0 \<le> g" "nat (g div kDefaultBlockBytes) < length (blocks_of m b)"
proof -
  obtain as fs where *: "blocks_of m b = as" "as \<noteq> []" "packed m as" "\<forall>a \<in> set as. block_ok (the (lk m a))"
    "contents m b = concat (held m as)" "b_end (the (lk m (last as))) < kDefaultBlockBytes"
    using walkableE [OF w] by metis
  show g0: "0 \<le> g" using first_start_range [OF *(4,2)] g * by simp
  have "g < int (length as) * kDefaultBlockBytes"
  proof -
    have "g \<le> int (length as - 1) * kDefaultBlockBytes + b_end (the (lk m (last as)))"
      using packed_span [OF *(3,4,2)] i g * by simp
    also have "\<dots> < int (length as - 1) * kDefaultBlockBytes + kDefaultBlockBytes" using * by simp
    also have "\<dots> = (int (length as - 1) + 1) * kDefaultBlockBytes" by (simp add: algebra_simps)
    also have "int (length as - 1) + 1 = int (length as)" using *(2) by (cases as) simp_all
    finally show ?thesis .
  qed
  then have "g div kDefaultBlockBytes < int (length as)"
    by (rule div_below [OF K_pos(1)])
  then show "nat (g div kDefaultBlockBytes) < length (blocks_of m b)"
    using * g0 by (simp add: nat_less_iff pos_imp_zdiv_nonneg_iff)
qed

lemma it_inc_pos:
  assumes w: "walkable (m, b)" and i: "i < length (contents m b)"
  shows "it_inc m (buf_pos (m, b) i) = Inr (buf_pos (m, b) (Suc i))"
proof -
  obtain as where as: "blocks_of m b = as" "dseg m None (io_head b) as None"
    using walkableE [OF w] by metis
  let ?K = kDefaultBlockBytes
  define g where "g = first_start m as + int i"
  have g0: "0 \<le> g" and j: "nat (g div ?K) < length as" and j': "nat ((g + 1) div ?K) < length as"
    using walkable_index [OF w, of i g] walkable_index [OF w, of "Suc i" "g + 1"] i as
    by (simp_all add: g_def)
  have m0: "0 \<le> g mod ?K" "g mod ?K < ?K" by simp_all
  show ?thesis
  proof (cases "g mod ?K + 1 \<ge> ?K")
    case True
    then have e: "g mod ?K = ?K - 1" using m0 by linarith
    have s: "g + 1 = (g div ?K + 1) * ?K"
      using div_mult_mod_eq [of g ?K] e by (simp add: algebra_simps)
    have dm: "(g + 1) div ?K = g div ?K + 1" "(g + 1) mod ?K = 0"
      unfolding s by simp_all
    have nn: "nat ((g + 1) div ?K) = Suc (nat (g div ?K))"
      using dm g0 by (simp add: nat_add_distrib pos_imp_zdiv_nonneg_iff)
    obtain blk where blk: "lk m (as ! nat (g div ?K)) = Some blk"
      "b_next blk = Some (as ! Suc (nat (g div ?K)))"
      using dseg_next [OF as(2), of "nat (g div ?K)"] j' nn by auto
    have p: "buf_pos (m, b) i = \<lparr>it_blk = Some (as ! nat (g div ?K)), it_offset = g mod ?K\<rparr>"
      using as by (simp add: buf_pos_def Let_def g_def)
    have "first_start m as + int (Suc i) = g + 1" by (simp add: g_def)
    then have "buf_pos (m, b) (Suc i) = \<lparr>it_blk = Some (as ! nat ((g + 1) div ?K)), it_offset = (g + 1) mod ?K\<rparr>"
      using as by (simp only: buf_pos_def Let_def prod.case)
    then show ?thesis using True nn dm blk p by (simp add: it_inc_def)
  next
    case False
    have dm: "(g + 1) div ?K = g div ?K" "(g + 1) mod ?K = g mod ?K + 1"
      using div_mod_succ [OF K_pos(1), of g] False by simp_all
    have p: "buf_pos (m, b) i = \<lparr>it_blk = Some (as ! nat (g div ?K)), it_offset = g mod ?K\<rparr>"
      using as by (simp add: buf_pos_def Let_def g_def)
    have "first_start m as + int (Suc i) = g + 1" by (simp add: g_def)
    then have "buf_pos (m, b) (Suc i) = \<lparr>it_blk = Some (as ! nat ((g + 1) div ?K)), it_offset = (g + 1) mod ?K\<rparr>"
      using as by (simp only: buf_pos_def Let_def prod.case)
    then show ?thesis using False p by (simp add: it_inc_def dm)
  qed
qed

lemma it_deref_pos:
  assumes w: "walkable (m, b)" and i: "i < length (contents m b)"
  shows "it_deref m (buf_pos (m, b) i) = Inr (contents m b ! i)"
proof -
  obtain as where as: "blocks_of m b = as" "dseg m None (io_head b) as None" "packed m as"
    "\<forall>a \<in> set as. block_ok (the (lk m a))" "as \<noteq> []" "contents m b = concat (held m as)"
    using walkableE [OF w] by metis
  let ?g = "first_start m as + int i"
  have p: "nat (?g div kDefaultBlockBytes) < length as"
    "b_data (the (lk m (as ! nat (?g div kDefaultBlockBytes)))) (?g mod kDefaultBlockBytes)
      = Some (contents m b ! i)"
    using packed_index [OF as(3-5), of i ?g] i as(6) by simp_all
  then obtain blk where "lk m (as ! nat (?g div kDefaultBlockBytes)) = Some blk"
    using dseg_alive [OF as(2)] nth_mem by blast
  with p as(1) show ?thesis by (simp add: it_deref_def buf_pos_def Let_def)
qed

lemma buf_pos_inj:
  assumes w: "walkable (m, b)" and ij: "i \<le> length (contents m b)" "j \<le> length (contents m b)"
  shows "buf_pos (m, b) i = buf_pos (m, b) j \<longleftrightarrow> i = j"
proof
  assume eq: "buf_pos (m, b) i = buf_pos (m, b) j"
  obtain as where as: "blocks_of m b = as" "distinct as" using walkableE [OF w] by metis
  let ?g = "first_start m as + int i" and ?h = "first_start m as + int j"
  let ?K = kDefaultBlockBytes
  have r: "0 \<le> ?g" "0 \<le> ?h" "nat (?g div ?K) < length as" "nat (?h div ?K) < length as"
    using walkable_index [OF w ij(1)] walkable_index [OF w ij(2)] as by auto
  have "as ! nat (?g div ?K) = as ! nat (?h div ?K)" "?g mod ?K = ?h mod ?K"
    using eq as(1) by (simp_all add: buf_pos_def Let_def)
  then have "?g div ?K = ?h div ?K" "?g mod ?K = ?h mod ?K"
    using r as(2) by (auto simp: nth_eq_iff_index_eq eq_nat_nat_iff pos_imp_zdiv_nonneg_iff)
  then have "?g = ?h" by (metis div_mult_mod_eq)
  then show "i = j" by simp
qed simp

interpretation cur: byte_cursor walkable "\<lambda>(m, b). contents m b" buf_pos
  "\<lambda>(m, b). it_inc m" "\<lambda>(m, b). it_deref m"
  by unfold_locales (auto simp: it_inc_pos it_deref_pos buf_pos_inj)

lemma End_pos:
  assumes w: "walkable (m, b)"
  shows "End m b = Inr (buf_pos (m, b) (length (contents m b)))"
proof -
  obtain as fs where as: "blocks_of m b = as" "buf_wf m b as fs" "packed m as" "as \<noteq> []"
    "\<forall>a \<in> set as. block_ok (the (lk m a))" "contents m b = concat (held m as)"
    "b_end (the (lk m (last as))) < kDefaultBlockBytes"
    using walkableE [OF w] by metis
  from as(4) obtain as0 t where t: "as = as0 @ [t]" by (metis rev_exhaust)
  obtain tb where tb: "io_tail b = Some t" "lk m t = Some tb" "block_ok tb"
    using buf_wf_tail as(2) t by metis
  have e: "0 \<le> b_end tb" "b_end tb < kDefaultBlockBytes" using tb as t by (auto simp: block_ok_def)
  have "first_start m as + int (length (contents m b)) = b_end tb + int (length as0) * kDefaultBlockBytes"
    using packed_span [OF as(3,5,4)] as(6) t tb by simp
  with e tb t as(1) show ?thesis by (simp add: End_def buf_pos_def Let_def)
qed

lemma Begin_pos:
  assumes w: "walkable (m, b)"
  shows "Begin m b = Inr (buf_pos (m, b) 0)"
proof -
  obtain as fs where as: "blocks_of m b = as" "buf_wf m b as fs" "packed m as" "as \<noteq> []"
    "\<forall>a \<in> set as. block_ok (the (lk m a))" "front_ok (held m as)"
    "b_end (the (lk m (last as))) < kDefaultBlockBytes"
    using walkableE [OF w] by metis
  then obtain a as' where a: "as = a # as'" by (cases as) auto
  obtain blk where h: "io_head b = Some a" "lk m a = Some blk" "block_ok blk"
    using buf_wf_head as(2) a by metis
  have "b_start blk < kDefaultBlockBytes"
  proof (cases as')
    case Nil
    then show ?thesis using as a h by (auto simp: block_ok_def)
  next
    case (Cons c as'')
    then have "chunk blk \<noteq> []" using as(6) a h by simp
    then show ?thesis using h by (auto simp: chunk_def block_ok_def)
  qed
  with h a as(1) show ?thesis
    by (simp add: Begin_def buf_pos_def Let_def first_start_def block_ok_def)
qed

lemma buf_pos_neq_kNull [simp]: "buf_pos s i \<noteq> kNull"
  by (cases s) (simp add: buf_pos_def kNull_def Let_def)

end
