(* ===== verification/IOBuffer_Scan.thy ===== *)
theory IOBuffer_Scan
  imports IOBuffer_Iter
begin

text \<open>
  The scanners of an \<open>IOBuffer\<close> on walkable buffers, as functions of the byte string:
  \<open>Skip\<close>, \<open>AsString\<close>, iterator difference and \<open>Parse\<close>.
\<close>

lemma walk_steps:
  assumes "walkable (m, b)"
  shows "Suc (length (contents m b)) < steps m"
proof -
  obtain as fs where *: "buf_wf m b as fs" "as \<noteq> []" "contents m b = concat (held m as)"
    using walkableE [OF assms] by metis
  then have "length as > 0" by simp
  with held_bytes_bound [OF *(1)] show ?thesis unfolding *(3) by linarith
qed

lemma walkable_valid: "walkable (m, b) \<Longrightarrow> valid_buffer m b"
  by (simp add: walkable_def)

lemma pos_eq_iff [simp]:
  "walkable (m, b) \<Longrightarrow> i \<le> length (contents m b) \<Longrightarrow> j \<le> length (contents m b) \<Longrightarrow>
    buf_pos (m, b) i = buf_pos (m, b) j \<longleftrightarrow> i = j"
  by (rule buf_pos_inj)

section \<open>Skip\<close>

fun run_len :: "char \<Rightarrow> char list \<Rightarrow> nat" where
  "run_len ch [] = 0"
| "run_len ch [c] = 0"
| "run_len ch (c # d # cs) = (if c = ch then Suc (run_len ch (d # cs)) else 0)"

lemma run_len_less: "cs \<noteq> [] \<Longrightarrow> run_len ch cs < length cs"
  by (induction ch cs rule: run_len.induct) auto

lemma run_len_stop: "cs \<noteq> [] \<Longrightarrow> hd cs \<noteq> ch \<Longrightarrow> run_len ch cs = 0"
  by (cases "(ch, cs)" rule: run_len.cases) auto

lemma Skip_loop_pos:
  assumes w: "walkable (m, b)" and i: "i < length (contents m b)"
    and n: "length (contents m b) - i < n"
  shows "Skip_loop n m (buf_pos (m, b) (length (contents m b))) (buf_pos (m, b) i) ch =
    Inr (buf_pos (m, b) (i + run_len ch (drop i (contents m b))))"
  using i n
proof (induction n arbitrary: i)
  case (Suc n)
  let ?w = "contents m b"
  have plus: "it_plus m (buf_pos (m, b) i) 1 = Inr (buf_pos (m, b) (Suc i))"
    using it_inc_pos [OF w Suc.prems(1)] by (simp add: it_plus_def eval_nat_numeral)
  have d: "drop i ?w = ?w ! i # drop (Suc i) ?w"
    using Suc.prems(1) by (simp add: Cons_nth_drop_Suc)
  show ?case
  proof (cases "Suc i < length ?w")
    case True
    then have "drop (Suc i) ?w = ?w ! Suc i # drop (Suc (Suc i)) ?w"
      by (simp add: Cons_nth_drop_Suc)
    with d True Suc.IH [of "Suc i"] Suc.prems w show ?thesis
      by (simp add: it_deref_pos it_inc_pos plus)
  next
    case False
    with Suc.prems have "Suc i = length ?w" by simp
    with d w Suc.prems show ?thesis by (simp add: it_deref_pos plus)
  qed
qed simp

lemma Skip_pos:
  assumes w: "walkable (m, b)" and i: "i < length (contents m b)"
  shows "Skip m b (buf_pos (m, b) i) ch =
    CHECK (contents m b ! i = ch) (Inr (buf_pos (m, b) (i + run_len ch (drop i (contents m b)))))"
  using Skip_loop_pos [OF w i, of "steps m"] walk_steps [OF w] w i
  by (simp add: Skip_def End_pos it_deref_pos)

section \<open>AsString and the distance of two iterators\<close>

lemma AsString_loop_read:
  assumes w: "walkable (m, b)" and ij: "i \<le> j" "j \<le> length (contents m b)" and n: "j - i < n"
  shows "AsString_loop n m (buf_pos (m, b) j) (buf_pos (m, b) (length (contents m b))) (buf_pos (m, b) i) =
    cur.read_n (m, b) (j - i) (buf_pos (m, b) i)"
  using ij n
proof (induction n arbitrary: i)
  case (Suc n)
  show ?case
  proof (cases "i = j")
    case False
    then have "i < j" "i < length (contents m b)" "j - i = Suc (j - Suc i)" using Suc.prems by simp_all
    then show ?thesis using Suc w by (simp add: it_deref_pos it_inc_pos)
  qed simp
qed simp

lemma AsString_pos:
  assumes w: "walkable (m, b)" and ij: "i \<le> j" "j \<le> length (contents m b)"
  shows "AsString m b (buf_pos (m, b) i) (buf_pos (m, b) j) = Inr (take (j - i) (drop i (contents m b)))"
  using AsString_loop_read [OF w ij, of "steps m"] walk_steps [OF w] w ij
    cur.read_n_pos [of "(m, b)" i "j - i"]
  by (simp add: AsString_def End_pos)

lemma it_plus_loop_walk: "it_plus_loop m it k = cur.walk (m, b) k it"
  by (induction k arbitrary: it) simp_all

lemma it_plus_pos:
  assumes "walkable (m, b)" "i + k \<le> length (contents m b)"
  shows "it_plus m (buf_pos (m, b) i) (int k) = Inr (buf_pos (m, b) (i + k))"
  using cur.walk_pos [of "(m, b)" i k] assms by (simp add: it_plus_def it_plus_loop_walk [of _ _ _ b])

lemma it_minus_loop_pos:
  assumes w: "walkable (m, b)" and ij: "i \<le> j" "j \<le> length (contents m b)" and n: "j - i < n"
  shows "it_minus_loop n m (buf_pos (m, b) j) (buf_pos (m, b) i) k = Inr (k + int (j - i))"
  using ij n
proof (induction n arbitrary: i k)
  case (Suc n)
  show ?case
  proof (cases "i = j")
    case False
    then have "i < j" "i < length (contents m b)" using Suc.prems by simp_all
    then show ?thesis using Suc w by (simp add: it_inc_pos)
  qed simp
qed simp

lemma it_minus_pos:
  assumes w: "walkable (m, b)" and ij: "i \<le> j" "j \<le> length (contents m b)"
  shows "it_minus m (buf_pos (m, b) j) (buf_pos (m, b) i) = Inr (int (j - i))"
  using it_minus_loop_pos [OF w ij, of "steps m" 0] walk_steps [OF w] ij by (simp add: it_minus_def)

section \<open>Parse\<close>

text \<open>The first of \<open>n\<close> positions from \<open>k\<close> on at which a pair of neighbours matches.\<close>

fun find_hit :: "(nat \<Rightarrow> bool) \<Rightarrow> nat \<Rightarrow> nat \<Rightarrow> nat option" where
  "find_hit P k 0 = None"
| "find_hit P k (Suc n) = (if P k then Some k else find_hit P (Suc k) n)"

lemma find_hit_Some:
  "find_hit P k n = Some j \<Longrightarrow> k \<le> j \<and> j < k + n \<and> P j \<and> (\<forall>i. k \<le> i \<and> i < j \<longrightarrow> \<not> P i)"
  by (induction P k n rule: find_hit.induct) (auto simp: less_Suc_eq le_Suc_eq Suc_le_eq split: if_splits,
      (metis le_neq_implies_less)+)

lemma find_hit_None: "find_hit P k n = None \<longleftrightarrow> (\<forall>i. k \<le> i \<and> i < k + n \<longrightarrow> \<not> P i)"
proof (induction P k n rule: find_hit.induct)
  case (2 P k n)
  have "(\<forall>i. k \<le> i \<and> i < k + Suc n \<longrightarrow> \<not> P i) \<longleftrightarrow>
      \<not> P k \<and> (\<forall>i. Suc k \<le> i \<and> i < Suc k + n \<longrightarrow> \<not> P i)"
    by (auto simp: Suc_le_eq) (metis le_neq_implies_less)
  with 2 show ?case by simp
qed auto

lemma find_hit_intro:
  "k \<le> j \<Longrightarrow> j < k + n \<Longrightarrow> P j \<Longrightarrow> (\<And>i. k \<le> i \<Longrightarrow> i < j \<Longrightarrow> \<not> P i) \<Longrightarrow> find_hit P k n = Some j"
  by (cases "find_hit P k n") (auto simp: find_hit_None dest!: find_hit_Some, metis linorder_neqE_nat)

lemma Parse_loop_pos:
  assumes w: "walkable (m, b)" and k: "k < length (contents m b)"
    and n: "length (contents m b) - k \<le> n"
    and M: "\<And>i. k \<le> i \<Longrightarrow> Suc i < length (contents m b) \<Longrightarrow>
      matcher (buf_pos (m, b) i) (buf_pos (m, b) (Suc i)) = Inr (P i)"
  shows "Parse_loop n m matcher on_hit on_miss (buf_pos (m, b) (length (contents m b)))
      (buf_pos (m, b) k) (buf_pos (m, b) (Suc k)) =
    (case find_hit P k (length (contents m b) - Suc k) of
       Some j \<Rightarrow> bindR (on_hit (buf_pos (m, b) j) (buf_pos (m, b) (Suc j))) (\<lambda>st. Inr (True, st))
     | None \<Rightarrow> bindR (on_miss (buf_pos (m, b) (length (contents m b) - 1))) (\<lambda>st. Inr (False, st)))"
  using k n M
proof (induction n arbitrary: k)
  case (Suc n)
  let ?N = "length (contents m b)"
  show ?case
  proof (cases "Suc k < ?N")
    case True
    then have N: "?N - Suc k = Suc (?N - Suc (Suc k))" by simp
    show ?thesis
    proof (cases "P k")
      case False
      then show ?thesis
        using Suc.IH [of "Suc k"] Suc.prems True w by (simp add: N it_inc_pos)
    qed (use Suc.prems True w in \<open>simp add: N\<close>)
  next
    case False
    then have "Suc k = ?N" using Suc.prems by simp
    then have "?N - 1 = k" "?N - Suc k = 0" by simp_all
    with \<open>Suc k = ?N\<close> show ?thesis by simp
  qed
qed simp

lemma Parse_pos:
  assumes w: "walkable (m, b)" and s: "s \<le> length (contents m b)"
    and M: "\<And>i. s \<le> i \<Longrightarrow> Suc i < length (contents m b) \<Longrightarrow>
      matcher (buf_pos (m, b) i) (buf_pos (m, b) (Suc i)) = Inr (P i)"
  shows "IOBuffer_Parse m b (buf_pos (m, b) s) matcher on_hit on_miss =
    (if s = length (contents m b) then bindR (on_miss kNull) (\<lambda>st. Inr (False, st))
     else case find_hit P s (length (contents m b) - Suc s) of
       Some j \<Rightarrow> bindR (on_hit (buf_pos (m, b) j) (buf_pos (m, b) (Suc j))) (\<lambda>st. Inr (True, st))
     | None \<Rightarrow> bindR (on_miss (buf_pos (m, b) (length (contents m b) - 1))) (\<lambda>st. Inr (False, st)))"
proof -
  let ?N = "length (contents m b)"
  obtain n where n: "steps m = Suc n" "?N < n" using walk_steps [OF w] by (cases "steps m") auto
  then obtain n' where n': "n = Suc n'" by (cases n) auto
  show ?thesis
  proof (cases "s = ?N")
    case True
    with w n n' show ?thesis by (simp add: IOBuffer_Parse_def End_pos)
  next
    case False
    then have s': "s < ?N" using s by simp
    have "?N - s \<le> n" using n by simp
    from Parse_loop_pos [where matcher = matcher and P = P and on_hit = on_hit and on_miss = on_miss,
        OF w s' this M]
    show ?thesis using False s' w n by (simp add: IOBuffer_Parse_def End_pos it_inc_pos)
  qed
qed

section \<open>Properties\<close>

lemma one_walkable:
  assumes "int (length xs) < kDefaultBlockBytes"
  shows "walkable (one_mem xs, one_buf)" "first_start (one_mem xs) (blocks_of (one_mem xs) one_buf) = 0"
proof -
  have "b_end (the (lk (one_mem xs) 0)) = int (length xs)" "b_start (the (lk (one_mem xs) 0)) = 0"
    by (simp_all add: one_mem_def lk_def extend_block_def new_Block_def)
  then show "walkable (one_mem xs, one_buf)"
    "first_start (one_mem xs) (blocks_of (one_mem xs) one_buf) = 0"
    using assms one_valid [of xs] one_blocks [of xs] by (simp_all add: walkable_def first_start_def)
qed

text \<open>
  Iterator arithmetic over a buffer filled by appending: \<open>Begin()\<close> and \<open>End()\<close> are the
  positions 0 and the length, \<open>+ k\<close> moves \<open>k\<close> positions across block borders, and the
  difference of two iterators is the distance it takes to walk from one to the other.
\<close>

theorem iterator_arithmetic:
  assumes "walkable (m, b)" "i + k \<le> length (contents m b)"
  shows "Begin m b = Inr (buf_pos (m, b) 0) \<and> End m b = Inr (buf_pos (m, b) (length (contents m b))) \<and>
    it_plus m (buf_pos (m, b) i) (int k) = Inr (buf_pos (m, b) (i + k)) \<and>
    it_minus m (buf_pos (m, b) (i + k)) (buf_pos (m, b) i) = Inr (int k)"
  using it_plus_pos [OF assms] it_minus_pos [OF assms(1), of i "i + k"] assms(2)
    Begin_pos [OF assms(1)] End_pos [OF assms(1)] by simp

theorem iterator_arithmetic_witness:
  "it_plus (one_mem ''GET /'') (buf_pos (one_mem ''GET /'', one_buf) 1) 2 =
     Inr (buf_pos (one_mem ''GET /'', one_buf) 3) \<and>
   it_minus (one_mem ''GET /'') (buf_pos (one_mem ''GET /'', one_buf) 3)
     (buf_pos (one_mem ''GET /'', one_buf) 1) = Inr 2"
proof -
  have l: "int (length ''GET /'') < kDefaultBlockBytes" by (simp add: kDefaultBlockBytes_def)
  then have "contents (one_mem ''GET /'') one_buf = ''GET /''" using one_contents by simp
  then show ?thesis
    using iterator_arithmetic [OF one_walkable(1) [OF l], of 1 2] by (simp add: eval_nat_numeral)
qed

text \<open>
  \<open>AsString(begin, end)\<close> is exactly the slice of the buffer's bytes between its two
  iterators, also when it spans several blocks.
\<close>

theorem AsString_slice:
  assumes "walkable (m, b)" "i \<le> j" "j \<le> length (contents m b)"
  shows "AsString m b (buf_pos (m, b) i) (buf_pos (m, b) j) = Inr (take (j - i) (drop i (contents m b)))"
  using assms by (rule AsString_pos)

theorem AsString_slice_witness:
  "AsString (one_mem ''GET /'') one_buf (buf_pos (one_mem ''GET /'', one_buf) 1)
     (buf_pos (one_mem ''GET /'', one_buf) 3) = Inr ''ET''"
proof -
  have l: "int (length ''GET /'') < kDefaultBlockBytes" by (simp add: kDefaultBlockBytes_def)
  then have "contents (one_mem ''GET /'') one_buf = ''GET /''" using one_contents by simp
  then show ?thesis
    using AsString_slice [OF one_walkable(1) [OF l], of 1 3] by simp
qed

end
