(* ===== verification/String_Util.thy ===== *)
theory String_Util
  imports Toy_Prelude
begin

text \<open>
  src/src/common/string_util.h and string_util.cc: appending formatted text, splitting at a
  delimiter, and the checked conversions from text to integers. The C library functions the
  code calls (\<open>strlen\<close>, \<open>isspace\<close>, \<open>strtol\<close>, \<open>strtoll\<close>, \<open>strtoul\<close>,
  \<open>vsnprintf\<close>) are modelled by their documented behaviour on LP64.
\<close>

section \<open>C strings\<close>

definition c_str :: "char list \<Rightarrow> char list" where
  "c_str s = takeWhile (\<lambda>c. c \<noteq> CHR 0x00) s"

definition isspace :: "char \<Rightarrow> bool" where
  "isspace c \<longleftrightarrow> c \<in> {CHR '' '', CHR 0x09, CHR 0x0A, CHR 0x0B, CHR 0x0C, CHR 0x0D}"

lemma c_str_id [simp]: "CHR 0x00 \<notin> set s \<Longrightarrow> c_str s = s"
  by (auto simp: c_str_def takeWhile_eq_all_conv)

section \<open>Appending formatted text\<close>

text \<open>
  What a format produces: its whole text, or an error number when \<open>vsnprintf\<close> fails on it.
  A text longer than \<open>INT_MAX\<close> also fails, with \<open>EOVERFLOW\<close>.
\<close>

type_synonym formatted = "int + char list"

definition EOVERFLOW :: int where
  "EOVERFLOW = 75"

definition vsnprintf_rc :: "formatted \<Rightarrow> int \<times> int" where
  "vsnprintf_rc f =
     (case f of Inl e \<Rightarrow> (- 1, e)
      | Inr txt \<Rightarrow> if int (length txt) \<le> 2 ^ 31 - 1 then (int (length txt), 0) else (- 1, EOVERFLOW))"

definition vsnprintf_text :: "formatted \<Rightarrow> int \<Rightarrow> char list" where
  "vsnprintf_text f n = (case f of Inl e \<Rightarrow> [] | Inr txt \<Rightarrow> take (nat (n - 1)) txt)"

text \<open>The 32-bit signed value of an \<open>int\<close> expression.\<close>

definition int32 :: "int \<Rightarrow> int" where
  "int32 x = sint (word_of_int x :: 32 word)"

definition kMaxMem :: int where
  "kMaxMem = 32 * 1024 * 1024"

fun StringAppend_grow :: "nat \<Rightarrow> char list \<Rightarrow> formatted \<Rightarrow> int \<Rightarrow> int \<Rightarrow> int \<Rightarrow> char list res" where
  "StringAppend_grow 0 dst f result err mem_length = Inl FuelOut"
| "StringAppend_grow (Suc n) dst f result err mem_length =
     (if result < 0 \<and> err \<noteq> 0 \<and> err \<noteq> EOVERFLOW then Inr dst
      else
        let mem_length' = (if result < 0 then int32 (mem_length * 2) else int32 (result + 1)) in
        if mem_length' > kMaxMem then Inr dst
        else if mem_length' < 0 then Inl Throws
        else
          let (result', err') = vsnprintf_rc f in
          if 0 \<le> result' \<and> result' < mem_length'
          then Inr (dst @ take (nat result') (vsnprintf_text f mem_length'))
          else StringAppend_grow n dst f result' (if err' = 0 then err else err') mem_length')"

definition StringAppendVT :: "char list \<Rightarrow> formatted \<Rightarrow> char list res" where
  "StringAppendVT dst f =
     (let array_size = 1024; (result, err) = vsnprintf_rc f in
      if 0 \<le> result \<and> result < array_size
      then Inr (dst @ take (nat result) (vsnprintf_text f array_size))
      else StringAppend_grow 16 dst f result err array_size)"

definition StringAppendV :: "char list \<Rightarrow> formatted \<Rightarrow> char list res" where
  "StringAppendV dst f = StringAppendVT dst f"

definition StringAppendF :: "char list \<Rightarrow> formatted \<Rightarrow> char list res" where
  "StringAppendF dst f = StringAppendV dst f"

definition StringPrintf :: "char list \<Rightarrow> formatted \<Rightarrow> char list res" where
  "StringPrintf dst f = StringAppendV [] f"

lemma int32_id: "- (2 ^ 31) \<le> x \<Longrightarrow> x < 2 ^ 31 \<Longrightarrow> int32 x = x"
  by (simp add: int32_def signed_of_int signed_take_bit_int_eq_self)

lemma StringAppendVT_text:
  assumes "int (length txt) < 2 ^ 31 - 1"
  shows "StringAppendVT dst (Inr txt) =
    Inr (if int (length txt) + 1 \<le> kMaxMem then dst @ txt else dst)"
proof -
  have i: "int32 (int (length txt) + 1) = int (length txt) + 1"
    by (rule int32_id) (use assms in simp_all)
  show ?thesis
  proof (cases "int (length txt) < 1024")
    case True
    then show ?thesis
      by (simp add: StringAppendVT_def vsnprintf_rc_def vsnprintf_text_def kMaxMem_def)
  next
    case False
    have "StringAppend_grow (Suc n) dst (Inr txt) (int (length txt)) 0 1024 =
      Inr (if int (length txt) + 1 \<le> kMaxMem then dst @ txt else dst)" for n
      using assms i by (simp add: vsnprintf_rc_def vsnprintf_text_def Let_def)
    from this [of 15] False assms show ?thesis
      by (simp add: StringAppendVT_def vsnprintf_rc_def del: StringAppend_grow.simps)
  qed
qed

lemma StringAppendF_short: "length txt \<le> 33000000 \<Longrightarrow> StringAppendF dst (Inr txt) = Inr (dst @ txt)"
  by (simp add: StringAppendF_def StringAppendV_def StringAppendVT_text kMaxMem_def)

lemma StringPrintf_short: "length txt \<le> 33000000 \<Longrightarrow> StringPrintf dst (Inr txt) = Inr txt"
  by (simp add: StringPrintf_def StringAppendV_def StringAppendVT_text kMaxMem_def)

section \<open>Splitting\<close>

fun SplitString_loop :: "char \<Rightarrow> nat \<Rightarrow> char list \<Rightarrow> char list list \<Rightarrow> char list list" where
  "SplitString_loop d i [] results = results"
| "SplitString_loop d i (c # cs) results =
     (if c = d then SplitString_loop d (i + 1) cs (if i \<noteq> 0 then results @ [[]] else results)
      else SplitString_loop d (i + 1) cs (butlast results @ [last results @ [c]]))"

definition SplitString :: "char list \<Rightarrow> char \<Rightarrow> char list list \<Rightarrow> char list list" where
  "SplitString in_str d results =
     (let s = c_str in_str in
      if s = [] then results else SplitString_loop d 0 s (results @ [[]]))"

text \<open>The text whose fields are \<open>fs\<close>.\<close>

fun join :: "char \<Rightarrow> char list list \<Rightarrow> char list" where
  "join d [] = []"
| "join d [f] = f"
| "join d (f # g # fs) = f @ d # join d (g # fs)"

lemma join_snoc: "fs \<noteq> [] \<Longrightarrow> join d (fs @ [g]) = join d fs @ d # g"
  by (induction d fs rule: join.induct) auto

lemma join_last: "fs \<noteq> [] \<Longrightarrow> join d (butlast fs @ [last fs @ cs]) = join d fs @ cs"
proof (cases fs rule: rev_cases)
  case (snoc gs f)
  then show ?thesis by (cases "gs = []") (simp_all add: join_snoc)
qed simp

lemma SplitString_loop_field:
  "d \<notin> set f \<Longrightarrow> rs \<noteq> [] \<Longrightarrow>
    SplitString_loop d i (f @ cs) rs = SplitString_loop d (i + length f) cs (butlast rs @ [last rs @ f])"
  by (induction f arbitrary: i rs) auto

lemma SplitString_loop_join:
  assumes "\<forall>f \<in> set fs. d \<notin> set f" "fs \<noteq> []" "0 < i \<or> hd fs \<noteq> []"
  shows "SplitString_loop d i (join d fs) (rs @ [[]]) = rs @ fs"
  using assms
proof (induction d fs arbitrary: i rs rule: join.induct)
  case (2 d f)
  then show ?case using SplitString_loop_field [of d f "rs @ [[]]" i "[]"] by simp
next
  case (3 d f g fs)
  have "0 < i + length f" using 3(4) by auto
  then have "SplitString_loop d i (join d (f # g # fs)) (rs @ [[]]) =
      SplitString_loop d (Suc (i + length f)) (join d (g # fs)) ((rs @ [f]) @ [[]])"
    using 3 SplitString_loop_field [of d f "rs @ [[]]" i "d # join d (g # fs)"] by auto
  then show ?case using 3(1) [of "Suc (i + length f)" "rs @ [f]"] 3(2) by auto
qed simp

lemma SplitString_join_fields:
  assumes "\<forall>f \<in> set fs. d \<notin> set f \<and> CHR 0x00 \<notin> set f" "d \<noteq> CHR 0x00" "fs \<noteq> []" "hd fs \<noteq> []"
  shows "SplitString (join d fs) d rs = rs @ fs"
proof -
  have "CHR 0x00 \<notin> set (join d fs)" using assms(1,2) by (induction d fs rule: join.induct) auto
  moreover have "join d fs \<noteq> []" using assms(3,4) by (cases "(d, fs)" rule: join.cases) auto
  ultimately show ?thesis
    using SplitString_loop_join [of fs d 0 rs] assms by (simp add: SplitString_def)
qed

text \<open>Every text is the join of its fields, but for a delimiter at its very beginning.\<close>

lemma join_SplitString_loop:
  "rs \<noteq> [] \<Longrightarrow> join d (SplitString_loop d i cs rs) =
    join d rs @ (if i = 0 \<and> cs \<noteq> [] \<and> hd cs = d then tl cs else cs)"
proof (induction cs arbitrary: i rs)
  case (Cons c cs)
  show ?case
  proof (cases "c = d \<and> i = 0")
    case True
    then show ?thesis using Cons.IH [of rs 1] Cons.prems by simp
  next
    case False
    show ?thesis
    proof (cases "c = d")
      case True
      then have "i \<noteq> 0" using False by simp
      then show ?thesis
        using True Cons.prems Cons.IH [of "rs @ [[]]" "Suc i"] by (simp add: join_snoc)
    next
      case False
      then show ?thesis
        using Cons.prems Cons.IH [of "butlast rs @ [last rs @ [c]]" "Suc i"] by (simp add: join_last)
    qed
  qed
qed simp

lemma fields_free_loop:
  "\<forall>f \<in> set rs. d \<notin> set f \<Longrightarrow> rs \<noteq> [] \<Longrightarrow> \<forall>f \<in> set (SplitString_loop d i cs rs). d \<notin> set f"
proof (induction cs arbitrary: i rs)
  case (Cons c cs)
  show ?case
  proof (cases "c = d")
    case True
    have "\<forall>f \<in> set (rs @ [[]]). d \<notin> set f" using Cons.prems by auto
    from Cons.IH [OF this, of "Suc i"] Cons.IH [OF Cons.prems, of "Suc i"] show ?thesis
      unfolding True SplitString_loop.simps by (cases "i = 0") simp_all
  next
    case False
    have "d \<notin> set f" if "f \<in> set (butlast rs @ [last rs @ [c]])" for f
    proof (cases "f \<in> set (butlast rs)")
      case True
      then show ?thesis using Cons.prems by (meson in_set_butlastD)
    next
      case notin: False
      then have "f = last rs @ [c]" using that by simp
      then show ?thesis using False Cons.prems by simp
    qed
    then have "\<forall>f \<in> set (SplitString_loop d (Suc i) cs (butlast rs @ [last rs @ [c]])). d \<notin> set f"
      by (intro Cons.IH) blast+
    then show ?thesis using False by simp
  qed
qed simp

lemma SplitString_loop_nonempty: "rs \<noteq> [] \<Longrightarrow> SplitString_loop d i cs rs \<noteq> []"
  by (induction cs arbitrary: i rs) auto

lemma join_member: "f \<in> set fs \<Longrightarrow> set f \<subseteq> set (join d fs) \<and> length f \<le> length (join d fs)"
  by (induction d fs rule: join.induct) fastforce+

end
