(* ===== verification/String_Num.thy ===== *)
theory String_Num
  imports String_Util
begin

unbundle bit_operations_syntax

text \<open>
  The checked conversions of src/src/common/string_util.cc: \<open>StringToInt\<close>,
  \<open>StringToInt64\<close> and \<open>HexStringToInt\<close>, over the C library's \<open>strtol\<close> family.
\<close>

section \<open>strtol, strtoll and strtoul\<close>

definition digit_val :: "char \<Rightarrow> nat option" where
  "digit_val c =
     (let k = of_char c :: nat in
      if 48 \<le> k \<and> k \<le> 57 then Some (k - 48)
      else if 97 \<le> k \<and> k \<le> 122 then Some (k - 87)
      else if 65 \<le> k \<and> k \<le> 90 then Some (k - 55)
      else None)"

definition is_digit :: "nat \<Rightarrow> char \<Rightarrow> bool" where
  "is_digit base c = (case digit_val c of None \<Rightarrow> False | Some v \<Rightarrow> v < base)"

definition digits_value :: "nat \<Rightarrow> char list \<Rightarrow> nat" where
  "digits_value base ds = foldl (\<lambda>a c. a * base + the (digit_val c)) 0 ds"

definition scan_sign :: "char list \<Rightarrow> bool \<times> char list" where
  "scan_sign s =
     (case s of [] \<Rightarrow> (False, [])
      | c # r \<Rightarrow> if c = CHR ''-'' then (True, r) else if c = CHR ''+'' then (False, r) else (False, s))"

definition scan_prefix :: "nat \<Rightarrow> char list \<Rightarrow> char list" where
  "scan_prefix base s =
     (if base = 16 \<and> 3 \<le> length s \<and> s ! 0 = CHR ''0'' \<and> (s ! 1 = CHR ''x'' \<or> s ! 1 = CHR ''X'') \<and>
         is_digit 16 (s ! 2)
      then drop 2 s else s)"

text \<open>
  Sign, magnitude and number of characters consumed; \<open>None\<close> when there are no digits, and
  then \<open>endptr\<close> is the beginning of the text.
\<close>

definition strto_scan :: "nat \<Rightarrow> char list \<Rightarrow> (bool \<times> nat \<times> nat) option" where
  "strto_scan base s =
     (let (neg, s1) = scan_sign (dropWhile isspace s); s2 = scan_prefix base s1;
          ds = takeWhile (is_digit base) s2 in
      if ds = [] then None
      else Some (neg, digits_value base ds, length s - length s2 + length ds))"

text \<open>Results: the value, the offset of \<open>endptr\<close>, and whether \<open>errno\<close> is set to \<open>ERANGE\<close>.\<close>

definition strtol :: "nat \<Rightarrow> char list \<Rightarrow> int \<times> nat \<times> bool" where
  "strtol base s =
     (case strto_scan base s of None \<Rightarrow> (0, 0, False)
      | Some (neg, mag, k) \<Rightarrow>
          let v = (if neg then - int mag else int mag) in
          if v > 2 ^ 63 - 1 then (2 ^ 63 - 1, k, True)
          else if v < - (2 ^ 63) then (- (2 ^ 63), k, True)
          else (v, k, False))"

definition strtoul :: "nat \<Rightarrow> char list \<Rightarrow> 64 word \<times> nat \<times> bool" where
  "strtoul base s =
     (case strto_scan base s of None \<Rightarrow> (0, 0, False)
      | Some (neg, mag, k) \<Rightarrow>
          if mag > 2 ^ 64 - 1 then (- 1, k, True)
          else ((if neg then - of_nat mag else of_nat mag), k, False))"

section \<open>strtoi, strtoui and StringToNumber\<close>

definition kint32max :: int where
  "kint32max = 2 ^ 31 - 1"

definition kint32min :: int where
  "kint32min = - (2 ^ 31)"

definition strtoi :: "nat \<Rightarrow> char list \<Rightarrow> int \<times> nat \<times> bool" where
  "strtoi base s =
     (let (res, k, e) = strtol base s in
      if res > kint32max then (kint32max, k, True)
      else if res < kint32min then (kint32min, k, True)
      else (int32 res, k, e))"

definition strtoui :: "nat \<Rightarrow> char list \<Rightarrow> 32 word \<times> nat \<times> bool" where
  "strtoui base s =
     (let (res, k, e) = strtoul base s in
      if (scast (ucast res :: 32 word) :: 64 word) \<noteq> res \<and> (ucast (ucast res :: 32 word) :: 64 word) \<noteq> res
      then (- 1, k, True)
      else (ucast res, k, e))"

definition valid_func :: "char list \<Rightarrow> bool" where
  "valid_func str \<longleftrightarrow> str \<noteq> [] \<and> \<not> isspace (hd str)"

text \<open>The value written to \<open>*output\<close>, and the returned flag.\<close>

definition StringToNumber :: "(char list \<Rightarrow> 'v \<times> nat \<times> bool) \<Rightarrow> char list \<Rightarrow> 'v \<times> bool" where
  "StringToNumber convert_func input =
     (let (value, endptr, erange) = convert_func (c_str input) in
      (value, \<not> erange \<and> input \<noteq> [] \<and> length input = endptr \<and> valid_func input))"

text \<open>The traits classes: the conversion of each instance of the template.\<close>

definition StringToIntTraits :: "char list \<Rightarrow> int \<times> nat \<times> bool" where
  "StringToIntTraits str = strtoi 10 str"

definition StringToInt64Traits :: "char list \<Rightarrow> int \<times> nat \<times> bool" where
  "StringToInt64Traits str = strtol 10 str"

definition HexStringToIntTraits :: "char list \<Rightarrow> int \<times> nat \<times> bool" where
  "HexStringToIntTraits str = (let (v, k, e) = strtoui 16 str in (sint v, k, e))"

definition StringToInt :: "char list \<Rightarrow> int \<times> bool" where
  "StringToInt input = StringToNumber StringToIntTraits input"

definition StringToInt_value :: "char list \<Rightarrow> int" where
  "StringToInt_value input = fst (StringToInt input)"

definition StringToInt64 :: "char list \<Rightarrow> int \<times> bool" where
  "StringToInt64 input = StringToNumber StringToInt64Traits input"

definition StringToInt64_value :: "char list \<Rightarrow> int" where
  "StringToInt64_value input = fst (StringToInt64 input)"

definition HexStringToInt :: "char list \<Rightarrow> int \<times> bool" where
  "HexStringToInt input = StringToNumber HexStringToIntTraits input"

lemmas StringToInt_defs = StringToInt_def StringToIntTraits_def
lemmas StringToInt64_defs = StringToInt64_def StringToInt64Traits_def

section \<open>Decimal numerals\<close>

text \<open>What \<open>%d\<close> and \<open>%lu\<close> print.\<close>

fun dec_nat :: "nat \<Rightarrow> char list" where
  "dec_nat n = (if n < 10 then [char_of (48 + n)] else dec_nat (n div 10) @ [char_of (48 + n mod 10)])"

declare dec_nat.simps [simp del]

definition dec_int :: "int \<Rightarrow> char list" where
  "dec_int v = (if v < 0 then CHR ''-'' # dec_nat (nat (- v)) else dec_nat (nat v))"

lemma digit_val_digit: "v < 10 \<Longrightarrow> digit_val (char_of (48 + v)) = Some v"
  by (simp add: digit_val_def Let_def of_char_of)

lemma is_digit_digit: "(v::nat) < 10 \<Longrightarrow> is_digit 10 (char_of (48 + v))"
  by (simp add: is_digit_def digit_val_digit)

lemma dec_nat_digits: "c \<in> set (dec_nat n) \<Longrightarrow> is_digit 10 c"
  by (induction n rule: dec_nat.induct) (subst (asm) (2) dec_nat.simps, auto simp: is_digit_digit split: if_splits)

lemma dec_nat_nonempty [simp]: "dec_nat n \<noteq> []"
  by (subst dec_nat.simps) simp

lemma dec_nat_length: "n < 10 ^ k \<Longrightarrow> 0 < k \<Longrightarrow> length (dec_nat n) \<le> k"
proof (induction k arbitrary: n)
  case (Suc k)
  show ?case
  proof (cases "n < 10")
    case True
    then show ?thesis by (subst dec_nat.simps) simp
  next
    case False
    then have "k \<noteq> 0" using Suc.prems by (cases k) auto
    moreover have "n div 10 < 10 ^ k" using Suc.prems by (simp add: less_mult_imp_div_less mult.commute)
    ultimately have "length (dec_nat (n div 10)) \<le> k" using Suc.IH by simp
    then show ?thesis using False by (subst dec_nat.simps) simp
  qed
qed simp

lemma dec_int_length:
  assumes "- (2 ^ 31) \<le> v" "v < 2 ^ 31"
  shows "length (dec_int v) \<le> 11"
proof -
  have "nat v < 10 ^ 10" "nat (- v) < 10 ^ 10" using assms by simp_all
  then show ?thesis
    using dec_nat_length [of "nat v" 10] dec_nat_length [of "nat (- v)" 10] by (simp add: dec_int_def)
qed

lemma digits_value_snoc: "digits_value b (ds @ [c]) = digits_value b ds * b + the (digit_val c)"
  by (simp add: digits_value_def)

lemma digits_value_dec: "digits_value 10 (dec_nat n) = n"
proof (induction n rule: dec_nat.induct)
  case (1 n)
  show ?case
  proof (cases "n < 10")
    case True
    then have "dec_nat n = [] @ [char_of (48 + n)]" by (subst dec_nat.simps) simp
    then show ?thesis using True by (simp add: digits_value_def digit_val_digit)
  next
    case False
    then have "dec_nat n = dec_nat (n div 10) @ [char_of (48 + n mod 10)]" by (subst dec_nat.simps) simp
    then show ?thesis using 1 False by (simp add: digits_value_snoc digit_val_digit)
  qed
qed

lemma digit_not_space: "is_digit 10 c \<Longrightarrow> \<not> isspace c \<and> c \<noteq> CHR ''-'' \<and> c \<noteq> CHR ''+'' \<and> c \<noteq> CHR 0x00"
  by (auto simp: is_digit_def digit_val_def isspace_def)

lemma scan_dec:
  assumes "\<forall>c \<in> set ds. is_digit 10 c" "ds \<noteq> []"
  shows "strto_scan 10 ds = Some (False, digits_value 10 ds, length ds)"
    "strto_scan 10 (CHR ''-'' # ds) = Some (True, digits_value 10 ds, Suc (length ds))"
    "strto_scan 10 (CHR ''+'' # ds) = Some (False, digits_value 10 ds, Suc (length ds))"
proof -
  from assms(2) obtain c cs where ds: "ds = c # cs" by (cases ds) auto
  with assms(1) have c: "\<not> isspace c" "c \<noteq> CHR ''-''" "c \<noteq> CHR ''+''" using digit_not_space [of c] by auto
  have "takeWhile (is_digit 10) ds = ds" using assms(1) by (simp add: takeWhile_eq_all_conv)
  with c ds show "strto_scan 10 ds = Some (False, digits_value 10 ds, length ds)"
    "strto_scan 10 (CHR ''-'' # ds) = Some (True, digits_value 10 ds, Suc (length ds))"
    "strto_scan 10 (CHR ''+'' # ds) = Some (False, digits_value 10 ds, Suc (length ds))"
    by (simp_all add: strto_scan_def scan_sign_def scan_prefix_def isspace_def)
qed

lemma scan_dec_int:
  "strto_scan 10 (dec_int v) = Some (v < 0, nat \<bar>v\<bar>, length (dec_int v))"
  using scan_dec [of "dec_nat (nat v)"] scan_dec [of "dec_nat (nat (- v))"] dec_nat_digits
  by (auto simp: dec_int_def digits_value_dec)

lemma dec_int_valid: "valid_func (dec_int v)" "CHR 0x00 \<notin> set (dec_int v)" "dec_int v \<noteq> []"
proof -
  show "CHR 0x00 \<notin> set (dec_int v)"
    using dec_nat_digits digit_not_space by (auto simp: dec_int_def)
  show "dec_int v \<noteq> []" by (simp add: dec_int_def)
  have "\<not> isspace (hd (dec_nat n))" for n
    using dec_nat_digits [of "hd (dec_nat n)" n] digit_not_space by simp
  then show "valid_func (dec_int v)" by (auto simp: valid_func_def dec_int_def isspace_def)
qed

lemma StringToInt64_dec:
  "- (2 ^ 63) \<le> v \<Longrightarrow> v \<le> 2 ^ 63 - 1 \<Longrightarrow> StringToInt64 (dec_int v) = (v, True)"
  using dec_int_valid [of v]
  by (auto simp: StringToInt64_defs StringToNumber_def strtol_def scan_dec_int Let_def)

lemma StringToInt_dec:
  assumes "- (2 ^ 31) \<le> v" "v \<le> 2 ^ 31 - 1"
  shows "StringToInt (dec_int v) = (v, True)"
proof -
  have "strtol 10 (dec_int v) = (v, length (dec_int v), False)"
    using assms by (auto simp: strtol_def scan_dec_int Let_def)
  then show ?thesis
    using dec_int_valid [of v] assms int32_id [of v]
    by (simp add: StringToInt_defs StringToNumber_def strtoi_def kint32max_def kint32min_def Let_def)
qed

lemma strtol_range: "strtol b s = (v, k, e) \<Longrightarrow> - (2 ^ 63) \<le> v \<and> v \<le> 2 ^ 63 - 1"
  by (auto simp: strtol_def Let_def split: option.splits if_splits)

lemma strtoi_range: "strtoi b s = (v, k, e) \<Longrightarrow> - (2 ^ 31) \<le> v \<and> v \<le> 2 ^ 31 - 1"
  using int32_id [of "fst (strtol b s)"]
  by (auto simp: strtoi_def kint32max_def kint32min_def split: prod.splits if_splits)

text \<open>A conversion that reports success has read a sign and digits up to the end of the text.\<close>

lemma scan_whole:
  assumes "strto_scan 10 s = Some (neg, mag, length s)" "s \<noteq> []" "\<not> isspace (hd s)"
  shows "\<exists>ds. ds \<noteq> [] \<and> (\<forall>c \<in> set ds. is_digit 10 c) \<and> mag = digits_value 10 ds \<and>
    (s = ds \<and> \<not> neg \<or> s = CHR ''+'' # ds \<and> \<not> neg \<or> s = CHR ''-'' # ds \<and> neg)"
proof -
  have d: "dropWhile isspace s = s" using assms(2,3) by (cases s) simp_all
  obtain n1 s1 where s1: "scan_sign s = (n1, s1)" by fastforce
  let ?ds = "takeWhile (is_digit 10) s1"
  have eq: "?ds \<noteq> []" "neg = n1" "mag = digits_value 10 ?ds" "length s = length s - length s1 + length ?ds"
    using assms(1) d s1 by (auto simp: strto_scan_def scan_prefix_def Let_def split: if_splits)
  have "length s1 \<le> length s" using s1 by (auto simp: scan_sign_def split: list.splits if_splits)
  with eq(4) have "length ?ds = length s1" by linarith
  then have all: "?ds = s1" by (metis takeWhile_eq_take take_all order_refl)
  then have "\<forall>c \<in> set s1. is_digit 10 c" by (simp add: takeWhile_eq_all_conv)
  moreover have "s = s1 \<and> \<not> n1 \<or> s = CHR ''+'' # s1 \<and> \<not> n1 \<or> s = CHR ''-'' # s1 \<and> n1"
    using s1 assms(2) by (auto simp: scan_sign_def split: list.splits if_splits)
  ultimately show ?thesis using eq all by auto
qed

lemma scan_consumed: "strto_scan b s = Some (neg, mag, k) \<Longrightarrow> k \<le> length s"
proof -
  assume a: "strto_scan b s = Some (neg, mag, k)"
  obtain n1 s1 where s1: "scan_sign (dropWhile isspace s) = (n1, s1)" by fastforce
  have "length s1 \<le> length s"
    using s1 length_dropWhile_le [of isspace s]
    by (auto simp: scan_sign_def split: list.splits if_splits) (metis length_Cons)
  moreover have "length (scan_prefix b s1) \<le> length s1" by (simp add: scan_prefix_def)
  moreover have "length (takeWhile (is_digit b) (scan_prefix b s1)) \<le> length (scan_prefix b s1)"
    by (rule length_takeWhile_le)
  ultimately show ?thesis using a s1 by (auto simp: strto_scan_def Let_def split: if_splits)
qed

lemma StringToNumber_strtol_ok:
  assumes "StringToInt64 s = (v, True)"
  shows "\<exists>neg mag. strto_scan 10 s = Some (neg, mag, length s) \<and> s \<noteq> [] \<and> \<not> isspace (hd s) \<and>
    v = (if neg then - int mag else int mag) \<and> - (2 ^ 63) \<le> v \<and> v \<le> 2 ^ 63 - 1"
proof -
  obtain k where k: "strtol 10 (c_str s) = (v, k, False)" "length s = k" "valid_func s" "s \<noteq> []"
    using assms by (auto simp: StringToInt64_defs StringToNumber_def split: prod.splits)
  then obtain neg mag where sc: "strto_scan 10 (c_str s) = Some (neg, mag, length s)"
    "v = (if neg then - int mag else int mag)"
    by (auto simp: strtol_def Let_def split: option.splits prod.splits if_splits)
  have "length s \<le> length (c_str s)"
    using scan_consumed [OF sc(1)] .
  then have "c_str s = s" unfolding c_str_def
    by (metis takeWhile_eq_take take_all)
  with sc k strtol_range [OF k(1)] show ?thesis by (auto simp: valid_func_def)
qed

section \<open>Properties\<close>

lemma grow_fails:
  assumes "vsnprintf_rc f = (- 1, e)" "0 < mem" "2 ^ n * mem = 2 * kMaxMem" "0 < n"
  shows "StringAppend_grow n dst f (- 1) e mem = Inr dst"
  using assms(2-4)
proof (induction n arbitrary: mem)
  case (Suc n)
  have le: "mem \<le> kMaxMem"
  proof -
    have "2 * mem \<le> 2 ^ Suc n * mem" using Suc.prems(1) by (intro mult_right_mono) (simp_all add: power_Suc)
    then show ?thesis using Suc.prems(2) by simp
  qed
  then have i: "int32 (mem * 2) = mem * 2"
    by (intro int32_id) (use Suc.prems(1) in \<open>simp_all add: kMaxMem_def\<close>)
  show ?case
  proof (cases "n = 0")
    case True
    then have "mem * 2 = 2 * kMaxMem" using Suc.prems(2) by simp
    then show ?thesis using i by (simp add: kMaxMem_def)
  next
    case False
    then have "StringAppend_grow n dst f (- 1) e (mem * 2) = Inr dst"
      using Suc.IH [of "mem * 2"] Suc.prems by (simp add: mult.commute mult.left_commute)
    then show ?thesis using i assms(1) Suc.prems(1) by (auto simp: Let_def)
  qed
qed simp

text \<open>
  \<open>StringAppendF\<close> appends the whole formatted text or nothing: whatever the format
  produces, it returns, and the text is dropped exactly when \<open>vsnprintf\<close> fails or the text
  with its terminator needs more than 32 MiB.
\<close>

theorem StringAppendF_all_or_nothing:
  assumes "\<forall>txt. f = Inr txt \<longrightarrow> int (length txt) \<noteq> 2 ^ 31 - 1"
  shows "StringAppendF dst f = Inr (case f of Inl e \<Rightarrow> dst
    | Inr txt \<Rightarrow> if int (length txt) + 1 \<le> kMaxMem then dst @ txt else dst)"
proof (cases "\<exists>txt. f = Inr txt \<and> int (length txt) < 2 ^ 31 - 1")
  case True
  then show ?thesis
    by (auto simp: StringAppendF_def StringAppendV_def StringAppendVT_text)
next
  case False
  then obtain e where e: "vsnprintf_rc f = (- 1, e)"
    using assms by (cases f) (auto simp: vsnprintf_rc_def)
  have "StringAppend_grow 16 dst f (- 1) e 1024 = Inr dst"
    by (rule grow_fails [OF e]) (simp_all add: kMaxMem_def)
  moreover have "\<not> int (length t) + 1 \<le> kMaxMem" if "f = Inr t" for t
    using False that by (auto simp: kMaxMem_def)
  ultimately show ?thesis
    using e by (auto simp: StringAppendF_def StringAppendV_def StringAppendVT_def simp del: StringAppend_grow.simps
        split: sum.splits)
qed

theorem StringAppendF_all_or_nothing_witness:
  "StringAppendF ''GET'' (Inr '' /'') = Inr ''GET /''"
  using StringAppendF_all_or_nothing [of "Inr '' /''" "''GET''"] by (simp add: kMaxMem_def)

text \<open>
  \<open>SplitString\<close> inverts joining: fields that do not contain the delimiter come back as
  they were when the first is not empty, and joining what it returns restores the text, less
  one delimiter at its very beginning.
\<close>

theorem SplitString_join:
  assumes "\<forall>f \<in> set fs. d \<notin> set f \<and> CHR 0x00 \<notin> set f" "d \<noteq> CHR 0x00" "fs \<noteq> []" "hd fs \<noteq> []"
  shows "SplitString (join d fs) d [] = fs"
  using SplitString_join_fields [OF assms, of "[]"] by simp

theorem SplitString_join_witness:
  "SplitString (join CHR '' '' [''GET'', ''/'', ''HTTP/1.1'']) (CHR '' '') [] = [''GET'', ''/'', ''HTTP/1.1'']"
  by (rule SplitString_join) simp_all

text \<open>
  For every text without a terminator: the fields \<open>SplitString\<close> returns contain no
  delimiter, and joined they give the text again, except that a leading delimiter is lost
  (no empty first field is made for it).
\<close>

theorem SplitString_fields:
  assumes "CHR 0x00 \<notin> set s" "s \<noteq> []"
  shows "join d (SplitString s d []) = (if hd s = d then tl s else s) \<and>
    (\<forall>f \<in> set (SplitString s d []). d \<notin> set f)"
  using assms join_SplitString_loop [of "[[]]" d 0 s] fields_free_loop [of "[[]]" d 0 s]
  by (simp add: SplitString_def)

theorem SplitString_fields_witness:
  "join CHR '':'' (SplitString '':a:'' (CHR '':'') []) = ''a:'' \<and>
    list_all (\<lambda>f. CHR '':'' \<notin> set f) (SplitString '':a:'' (CHR '':'') [])"
  using SplitString_fields [of "'':a:''" "CHR '':''"] by (simp add: list_all_iff)

text \<open>
  \<open>StringToInt64\<close> (the parser of the \<open>CallId\<close> header) succeeds exactly on the texts that
  are an optional sign and decimal digits, nothing else, with a value in the 64-bit range, and
  it then returns that value.
\<close>

theorem StringToInt64_accepts:
  "StringToInt64 s = (v, True) \<longleftrightarrow>
    (\<exists>neg ds. ds \<noteq> [] \<and> list_all (is_digit 10) ds \<and>
      (s = ds \<and> \<not> neg \<or> s = CHR ''+'' # ds \<and> \<not> neg \<or> s = CHR ''-'' # ds \<and> neg) \<and>
      v = (if neg then - int (digits_value 10 ds) else int (digits_value 10 ds)) \<and>
      - (2 ^ 63) \<le> v \<and> v \<le> 2 ^ 63 - 1)" (is "?l \<longleftrightarrow> ?r")
proof
  assume ?l
  from StringToNumber_strtol_ok [OF this] obtain neg mag where
    *: "strto_scan 10 s = Some (neg, mag, length s)" "s \<noteq> []" "\<not> isspace (hd s)"
    "v = (if neg then - int mag else int mag)" "- (2 ^ 63) \<le> v" "v \<le> 2 ^ 63 - 1" by metis
  from scan_whole [OF *(1-3)] obtain ds where "ds \<noteq> []" "\<forall>c \<in> set ds. is_digit 10 c"
    "mag = digits_value 10 ds" "s = ds \<and> \<not> neg \<or> s = CHR ''+'' # ds \<and> \<not> neg \<or> s = CHR ''-'' # ds \<and> neg"
    by metis
  with *(4-6) show ?r by (intro exI [of _ neg] exI [of _ ds]) (simp add: list_all_iff)
next
  assume ?r
  then obtain neg ds where *: "ds \<noteq> []" "\<forall>c \<in> set ds. is_digit 10 c"
    "s = ds \<and> \<not> neg \<or> s = CHR ''+'' # ds \<and> \<not> neg \<or> s = CHR ''-'' # ds \<and> neg"
    "v = (if neg then - int (digits_value 10 ds) else int (digits_value 10 ds))"
    "- (2 ^ 63) \<le> v" "v \<le> 2 ^ 63 - 1" by (auto simp: list_all_iff)
  have sc: "strto_scan 10 s = Some (neg, digits_value 10 ds, length s)"
    using *(3) scan_dec [OF *(2,1)] by auto
  have "CHR 0x00 \<notin> set ds" using *(2) digit_not_space [of "CHR 0x00"] by metis
  then have z: "CHR 0x00 \<notin> set s" using *(3) by auto
  have "\<not> isspace (hd ds)" using *(1,2) digit_not_space [of "hd ds"] by simp
  then have "valid_func s"
    using *(1,3) by (auto simp: valid_func_def isspace_def)
  with z sc *(4-6) show ?l
    by (auto simp: StringToInt64_defs StringToNumber_def strtol_def Let_def valid_func_def)
qed

text \<open>
  \<open>StringToInt\<close> saturates at the bounds of \<open>int\<close>, always delivers a value in range, and
  reads back what \<open>%d\<close> prints for every \<open>int\<close>.
\<close>

theorem StringToInt_bounds:
  "- (2 ^ 31) \<le> fst (StringToInt s) \<and> fst (StringToInt s) \<le> 2 ^ 31 - 1 \<and>
   StringToInt (dec_int v) =
     (if v > 2 ^ 31 - 1 then (2 ^ 31 - 1, False) else if v < - (2 ^ 31) then (- (2 ^ 31), False)
      else (v, True))"
proof -
  obtain w k e where "strtoi 10 (c_str s) = (w, k, e)" by (metis prod_cases3)
  with strtoi_range [OF this] have "- (2 ^ 31) \<le> fst (StringToInt s) \<and> fst (StringToInt s) \<le> 2 ^ 31 - 1"
    by (simp add: StringToInt_defs StringToNumber_def)
  moreover have "StringToInt (dec_int v) =
     (if v > 2 ^ 31 - 1 then (2 ^ 31 - 1, False) else if v < - (2 ^ 31) then (- (2 ^ 31), False)
      else (v, True))"
    using StringToInt_dec [of v] dec_int_valid [of v]
    by (auto simp: StringToInt_defs StringToNumber_def strtoi_def strtol_def scan_dec_int Let_def
        kint32max_def kint32min_def)
  ultimately show ?thesis by simp
qed

end
