(* ===== verification/Http.thy ===== *)
theory Http
  imports IOBuffer_Scan String_Num
begin

text \<open>
  src/src/protocols/http.h and http.cc with the parse status of src/src/protocol.h: the
  incremental parser of requests over an \<open>IOBuffer\<close>, and the building and packing of
  requests and responses. A parser state is the request record with the store and the buffer
  that its \<open>data\<close> pointer names (every caller passes that same buffer to \<open>Http::Parse\<close>).
\<close>

section \<open>State\<close>

datatype ParseStatus = INIT | OK | NEED_MORE_DATA | CONTINUE | UNIMPLEMENTED | ERROR

datatype matcher_type = HitCRFL | HasCompleteContent

datatype hit_callback = OnHitRequestLine | OnHitHeaders | OnHitContent

type_synonym headers = "char list \<rightharpoonup> char list"

record http_request =
  rq_method :: "char list"
  rq_uri :: "char list"
  rq_version :: "char list"
  rq_headers :: headers
  rq_content_length :: int
  rq_content_begin :: iter
  rq_content_end :: iter
  rq_starting_point :: iter
  rq_matcher :: matcher_type
  rq_on_hit :: hit_callback
  rq_pr :: ParseStatus

record http_response =
  rs_version :: "char list"
  rs_status_code :: int
  rs_status_text :: "char list"
  rs_headers :: headers
  rs_content :: "char list"

definition CR :: char where "CR = CHR 0x0D"

definition LF :: char where "LF = CHR 0x0A"

lemma CR_LF [simp]: "CR \<noteq> LF" "LF \<noteq> CR"
  by (simp_all add: CR_def LF_def)

definition blank_HttpRequest :: http_request where
  "blank_HttpRequest =
     \<lparr>rq_method = [], rq_uri = [], rq_version = [], rq_headers = Map.empty, rq_content_length = - 1,
      rq_content_begin = kNull, rq_content_end = kNull, rq_starting_point = kNull,
      rq_matcher = HitCRFL, rq_on_hit = OnHitRequestLine, rq_pr = INIT\<rparr>"

text \<open>
  A new response. The constructor leaves \<open>status_code\<close> unset; it stands as 0 here, and \<open>BuildResponse\<close>
  sets it before anything reads it.
\<close>

definition blank_HttpResponse :: http_response where
  "blank_HttpResponse =
     \<lparr>rs_version = [], rs_status_code = 0, rs_status_text = [], rs_headers = Map.empty, rs_content = []\<rparr>"

definition HttpRequest_Reset :: "mem \<Rightarrow> iobuffer \<Rightarrow> http_request \<Rightarrow> http_request res" where
  "HttpRequest_Reset m b req =
     bindR (Begin m b) (\<lambda>p.
     Inr (req\<lparr>rq_method := [], rq_uri := [], rq_version := [], rq_headers := Map.empty,
            rq_content_length := - 1, rq_starting_point := p, rq_matcher := HitCRFL,
            rq_on_hit := OnHitRequestLine\<rparr>))"

definition new_HttpRequest :: "mem \<Rightarrow> iobuffer \<Rightarrow> http_request res" where
  "new_HttpRequest m b = HttpRequest_Reset m b blank_HttpRequest"

definition HttpRequest_Swap :: "http_request \<Rightarrow> http_request \<Rightarrow> http_request \<times> http_request" where
  "HttpRequest_Swap this other =
     (this\<lparr>rq_method := rq_method other, rq_uri := rq_uri other, rq_version := rq_version other,
        rq_headers := rq_headers other, rq_content_length := rq_content_length other,
        rq_content_begin := rq_content_begin other, rq_content_end := rq_content_end other\<rparr>,
      other\<lparr>rq_method := rq_method this, rq_uri := rq_uri this, rq_version := rq_version this,
        rq_headers := rq_headers this\<rparr>)"

definition IsGet :: "http_request \<Rightarrow> bool" where
  "IsGet req \<longleftrightarrow> rq_method req = ''GET'' \<or> rq_method req = ''get''"

definition IsPost :: "http_request \<Rightarrow> bool" where
  "IsPost req \<longleftrightarrow> rq_method req = ''POST'' \<or> rq_method req = ''post''"

text \<open>The value of \<open>ContentLength()\<close>, which the method also caches in the request.\<close>

definition ContentLength :: "http_request \<Rightarrow> int" where
  "ContentLength req =
     (if rq_content_length req < 0 then
        (case rq_headers req ''Content-Length'' of None \<Rightarrow> 0 | Some v \<Rightarrow> StringToInt_value v)
      else rq_content_length req)"

definition GetCallId :: "http_request \<Rightarrow> 64 word \<Rightarrow> 64 word \<times> bool" where
  "GetCallId req call_id =
     (case rq_headers req ''CallId'' of None \<Rightarrow> (call_id, False)
      | Some v \<Rightarrow> let (i, ret) = StringToInt64 v in (word_of_int i, ret))"

section \<open>Matchers and callbacks\<close>

definition HitCRFL_match :: "mem \<Rightarrow> iter \<Rightarrow> iter \<Rightarrow> bool res" where
  "HitCRFL_match m pre cur =
     bindR (it_deref m pre) (\<lambda>p.
       if p = CR then bindR (it_deref m cur) (\<lambda>c. Inr (c = LF)) else Inr False)"

definition HasCompleteContent_match :: "mem \<Rightarrow> http_request \<Rightarrow> iter \<Rightarrow> iter \<Rightarrow> bool res" where
  "HasCompleteContent_match m req pre cur =
     bindR (it_minus m cur (rq_starting_point req)) (\<lambda>d. Inr (rq_content_length req = d + 1))"

definition run_matcher :: "mem \<Rightarrow> http_request \<Rightarrow> iter \<Rightarrow> iter \<Rightarrow> bool res" where
  "run_matcher m req pre cur =
     (case rq_matcher req of HitCRFL \<Rightarrow> HitCRFL_match m pre cur
      | HasCompleteContent \<Rightarrow> HasCompleteContent_match m req pre cur)"

definition ForwardStartingPoint :: "mem \<Rightarrow> iobuffer \<Rightarrow> http_request \<Rightarrow> http_request res" where
  "ForwardStartingPoint m b req =
     (if rq_pr req = NEED_MORE_DATA then
        bindR (Skip m b (rq_starting_point req) LF) (\<lambda>p.
        bindR (it_deref m p) (\<lambda>c. CHECK (c \<noteq> LF) (Inr (req\<lparr>rq_starting_point := p\<rparr>))))
      else if rq_pr req = OK then
        bindR (it_inc m (rq_starting_point req)) (\<lambda>p.
        CHECK (it_IsValid p) (Inr (req\<lparr>rq_starting_point := p\<rparr>)))
      else Inr req)"

definition ForwardStartingPoint_to :: "mem \<Rightarrow> iobuffer \<Rightarrow> http_request \<Rightarrow> iter \<Rightarrow> http_request res" where
  "ForwardStartingPoint_to m b req cur =
     bindR (Skip m b cur LF) (\<lambda>cur'.
     bindR (it_deref m cur') (\<lambda>c.
     Inr (req\<lparr>rq_pr := (if c = LF then NEED_MORE_DATA else CONTINUE), rq_starting_point := cur'\<rparr>)))"

type_synonym pstate = "mem \<times> iobuffer \<times> http_request"

definition Finish :: "mem \<Rightarrow> iobuffer \<Rightarrow> http_request \<Rightarrow> iter \<Rightarrow> pstate res" where
  "Finish m b req cur =
     bindR (PopFront_pos m b cur) (\<lambda>(m', b').
     Inr (m', b', req\<lparr>rq_pr := (if IsGet req \<or> IsPost req then OK else UNIMPLEMENTED),
        rq_starting_point := cur, rq_matcher := HitCRFL, rq_on_hit := OnHitRequestLine\<rparr>))"

definition do_OnHitRequestLine :: "mem \<Rightarrow> iobuffer \<Rightarrow> http_request \<Rightarrow> iter \<Rightarrow> iter \<Rightarrow> pstate res" where
  "do_OnHitRequestLine m b req pre cur =
     bindR (AsString m b (rq_starting_point req) pre) (\<lambda>request_line.
       let splits = SplitString request_line (CHR '' '') [] in
       CHECK (length splits = 3)
         (bindR (ForwardStartingPoint_to m b
              (req\<lparr>rq_method := splits ! 0, rq_uri := splits ! 1, rq_version := splits ! 2,
                 rq_on_hit := OnHitHeaders\<rparr>) cur)
            (\<lambda>req'. Inr (m, b, req'))))"

text \<open>The loop that puts a value with colons together again; \<open>i\<close> is the loop variable.\<close>

fun rejoin_value :: "nat \<Rightarrow> char list list \<Rightarrow> char list \<Rightarrow> char list res" where
  "rejoin_value i [] tmp = Inr tmp"
| "rejoin_value i (f # fs) tmp =
     bindR (StringAppendF tmp (Inr (if i = 1 then c_str f else CHR '':'' # c_str f)))
       (rejoin_value (i + 1) fs)"

definition do_OnHitHeaders :: "mem \<Rightarrow> iobuffer \<Rightarrow> http_request \<Rightarrow> iter \<Rightarrow> iter \<Rightarrow> pstate res" where
  "do_OnHitHeaders m b req0 pre cur =
     bindR (ForwardStartingPoint m b req0) (\<lambda>req.
       if rq_starting_point req = pre then
         let req1 = req\<lparr>rq_content_length := ContentLength req\<rparr> in
         if rq_content_length req1 = 0 then Finish m b req1 cur
         else
           bindR (ForwardStartingPoint_to m b
               (req1\<lparr>rq_matcher := HasCompleteContent, rq_on_hit := OnHitContent\<rparr>) cur)
             (\<lambda>req'. Inr (m, b, req'))
       else
         bindR (AsString m b (rq_starting_point req) pre) (\<lambda>header.
           let splits = SplitString header (CHR '':'') [] in
           bindR (if length splits \<ge> 3 then
                    bindR (rejoin_value 1 (tl splits) []) (\<lambda>tmp.
                    Inr (req\<lparr>rq_headers := (rq_headers req)(splits ! 0 \<mapsto> tmp)\<rparr>))
                  else if length splits = 2 then
                    Inr (req\<lparr>rq_headers := (rq_headers req)(splits ! 0 \<mapsto> splits ! 1)\<rparr>)
                  else Inl CheckFail)
             (\<lambda>req1. bindR (ForwardStartingPoint_to m b req1 cur) (\<lambda>req'. Inr (m, b, req')))))"

definition do_OnHitContent :: "mem \<Rightarrow> iobuffer \<Rightarrow> http_request \<Rightarrow> iter \<Rightarrow> iter \<Rightarrow> pstate res" where
  "do_OnHitContent m b req0 pre cur =
     bindR (ForwardStartingPoint m b req0) (\<lambda>req.
     Finish m b (req\<lparr>rq_content_begin := rq_starting_point req, rq_content_end := cur\<rparr>) cur)"

definition run_on_hit :: "mem \<Rightarrow> iobuffer \<Rightarrow> http_request \<Rightarrow> iter \<Rightarrow> iter \<Rightarrow> pstate res" where
  "run_on_hit m b req pre cur =
     (case rq_on_hit req of
        OnHitRequestLine \<Rightarrow> do_OnHitRequestLine m b req pre cur
      | OnHitHeaders \<Rightarrow> do_OnHitHeaders m b req pre cur
      | OnHitContent \<Rightarrow> do_OnHitContent m b req pre cur)"

definition OnMiss :: "mem \<Rightarrow> iobuffer \<Rightarrow> http_request \<Rightarrow> iter \<Rightarrow> pstate res" where
  "OnMiss m b req pre = Inr (m, b, req\<lparr>rq_pr := NEED_MORE_DATA\<rparr>)"

text \<open>One call of \<open>data.Parse(req->opts)\<close>, and the loop of \<open>Http::Parse\<close> around it.\<close>

definition parse_once :: "mem \<Rightarrow> iobuffer \<Rightarrow> http_request \<Rightarrow> (bool \<times> pstate) res" where
  "parse_once m b req =
     IOBuffer_Parse m b (rq_starting_point req) (run_matcher m req) (run_on_hit m b req) (OnMiss m b req)"

fun Http_Parse_loop :: "nat \<Rightarrow> mem \<Rightarrow> iobuffer \<Rightarrow> http_request \<Rightarrow> pstate res" where
  "Http_Parse_loop 0 m b req = Inl FuelOut"
| "Http_Parse_loop (Suc n) m b req =
     bindR (parse_once m b req) (\<lambda>(hit, m', b', req').
       if hit \<and> rq_pr req' \<notin> {NEED_MORE_DATA, OK, UNIMPLEMENTED}
       then Http_Parse_loop n m' b' req'
       else Inr (m', b', req'))"

definition Http_Parse :: "mem \<Rightarrow> iobuffer \<Rightarrow> http_request \<Rightarrow> pstate res" where
  "Http_Parse m b req = Http_Parse_loop (steps m) m b req"

section \<open>Building and packing\<close>

text \<open>
  A hash map is iterated in an unspecified order: the enumeration the iteration delivers is
  an argument \<open>es\<close> of the packing functions, which \<open>enumerates\<close> ties to the map.
\<close>

definition enumerates :: "(char list \<times> char list) list \<Rightarrow> headers \<Rightarrow> bool" where
  "enumerates es h \<longleftrightarrow> distinct (map fst es) \<and> map_of es = h"

definition BuildRequest :: "char list \<Rightarrow> http_request \<Rightarrow> http_request" where
  "BuildRequest service_full_name req =
     req\<lparr>rq_method := ''GET'', rq_version := ''HTTP/1.1'',
         rq_headers := (rq_headers req)(''Content-Length'' \<mapsto> [], ''ServiceFullName'' \<mapsto> [])\<rparr>"

definition BuildResponse :: "char list \<Rightarrow> int \<Rightarrow> http_response \<Rightarrow> http_response res" where
  "BuildResponse msg code resp =
     (let content = rs_content resp @ c_str msg @ [LF] in
      bindR (StringPrintf [] (Inr (dec_int (int32 (int (length content)))))) (\<lambda>sz.
      Inr (resp\<lparr>rs_version := ''HTTP/1.1'', rs_status_code := code, rs_status_text := ''Not Found'',
         rs_content := content,
         rs_headers := (rs_headers resp)(''Content-Length'' \<mapsto> sz, ''Content-Type'' \<mapsto> ''text/plain'')\<rparr>)))"

definition header_line :: "char list \<times> char list \<Rightarrow> char list" where
  "header_line e = c_str (fst e) @ '': '' @ c_str (snd e) @ [CR, LF]"

fun append_headers :: "(char list \<times> char list) list \<Rightarrow> char list \<Rightarrow> char list res" where
  "append_headers [] buf = Inr buf"
| "append_headers (e # es) buf = bindR (StringAppendF buf (Inr (header_line e))) (append_headers es)"

definition PackResponse :: "(char list \<times> char list) list \<Rightarrow> http_response \<Rightarrow> char list \<Rightarrow> char list res" where
  "PackResponse es resp buf =
     bindR (StringAppendF buf (Inr (c_str (rs_version resp) @ '' '' @ dec_int (rs_status_code resp) @ '' '' @
              c_str (rs_status_text resp) @ [CR, LF]))) (\<lambda>buf1.
     bindR (append_headers es buf1) (\<lambda>buf2.
     StringAppendF buf2 (Inr ([CR, LF] @ c_str (rs_content resp)))))"

definition PackResponse_out ::
  "(char list \<times> char list) list \<Rightarrow> http_response \<Rightarrow> mem \<Rightarrow> iobuffer \<Rightarrow> (mem \<times> iobuffer) res" where
  "PackResponse_out es resp m out = bindR (PackResponse es resp []) (Append_bytes m out)"

definition PackRequest :: "(char list \<times> char list) list \<Rightarrow> http_request \<Rightarrow> char list \<Rightarrow> char list res" where
  "PackRequest es req buf =
     bindR (StringAppendF buf (Inr (''GET / HTTP/1.1'' @ [CR, LF]))) (append_headers es)"

definition PackRequest_out ::
  "(char list \<times> char list) list \<Rightarrow> http_request \<Rightarrow> mem \<Rightarrow> iobuffer \<Rightarrow> (mem \<times> iobuffer) res" where
  "PackRequest_out es req m out = bindR (PackRequest es req []) (Append_bytes m out)"

text \<open>The stream output operator of a request.\<close>

definition print_request :: "(char list \<times> char list) list \<Rightarrow> http_request \<Rightarrow> char list" where
  "print_request es req =
     rq_method req @ '' '' @ rq_uri req @ '' '' @ rq_version req @ [CR, LF] @
     concat (map (\<lambda>(k, v). k @ '':'' @ v @ [CR, LF]) es)"

end
