(* ===== verification/IOBuffer_Cut.thy ===== *)
theory IOBuffer_Cut
  imports IOBuffer_Scan
begin

text \<open>
  \<open>PopFront(iterator)\<close> on walkable buffers: which bytes go and what is left, for every position,
  in the first block or a later one, up to the last byte of an array.
\<close>

section \<open>Blocks and positions\<close>

lemma packed_append:
  "packed m (as @ a # bs) \<longleftrightarrow> packed m as \<and> packed m (a # bs) \<and>
     (as \<noteq> [] \<longrightarrow> b_end (the (lk m (last as))) = kDefaultBlockBytes \<and> b_start (the (lk m a)) = 0)"
  by (induction m as rule: packed.induct) auto

lemma PopFront_pos_loop_wf:
  assumes "buf_wf m b (as0 @ a # as1) fs" "\<forall>c \<in> set as0. chunk (the (lk m c)) \<noteq> []" "length as0 < n"
  shows "\<exists>m' b' fs'. PopFront_pos_loop n m b (Some a) = Inr (m', b') \<and> buf_wf m' b' (a # as1) fs' \<and>
    held m' (a # as1) = held m (a # as1) \<and> length m' = length m \<and>
    (\<forall>c \<in> set (a # as1). span m' c = span m c)"
  using assms
proof (induction as0 arbitrary: m b fs n)
  case Nil
  then obtain k where "n = Suc k" by (cases n) auto
  moreover have "io_head b = Some a" using Nil.prems(1) buf_wf_head by (metis append_Nil)
  ultimately show ?case using Nil.prems by (intro exI [of _ m] exI [of _ b] exI [of _ fs]) simp
next
  case (Cons c as0)
  then obtain k where k: "n = Suc k" by (cases n) auto
  have h: "io_head b = Some c" using Cons.prems(1) buf_wf_head by (metis append_Cons)
  have ca: "c \<noteq> a" using Cons.prems(1) by (auto simp: buf_wf_def)
  obtain m1 b1 where f: "ForwardHeadByOneBlock m b = Inr (m1, b1)"
    "buf_wf m1 b1 (as0 @ a # as1) (c # fs)" "held m1 (as0 @ a # as1) = held m (as0 @ a # as1)"
    "length m1 = length m" "\<And>d. d \<in> set (as0 @ a # as1) \<Longrightarrow> span m1 d = span m d"
    using ForwardHead_wf [of m b c "as0 @ a # as1" fs] Cons.prems by (metis append_Cons list.set_intros(1))
  have "\<forall>d \<in> set as0. chunk (the (lk m1 d)) \<noteq> []"
    using f(3) Cons.prems(2) by (auto simp: held_def)
  then obtain m' b' fs' where "PopFront_pos_loop k m1 b1 (Some a) = Inr (m', b')" "buf_wf m' b' (a # as1) fs'"
    "held m' (a # as1) = held m1 (a # as1)" "length m' = length m1"
    "\<forall>c \<in> set (a # as1). span m' c = span m1 c"
    using Cons.IH [OF f(2), of k] Cons.prems(3) k by auto
  with f h ca k show ?case by (auto simp: held_def)
qed

lemma packed_prefix_length:
  assumes "packed m (as @ a # bs)" "\<forall>c \<in> set as. block_ok (the (lk m c))" "as \<noteq> []"
  shows "first_start m as + int (length (concat (held m as))) = int (length as) * kDefaultBlockBytes"
proof -
  have e: "b_end (the (lk m (last as))) = kDefaultBlockBytes" "packed m as"
    using assms by (simp_all add: packed_append)
  have "int (length as - 1) = int (length as) - 1" using assms(3) by (cases as) simp_all
  with packed_span [OF e(2) assms(2,3)] e(1) show ?thesis by (simp add: algebra_simps)
qed

lemma packed_chunk_nonempty:
  assumes "packed m as" "\<forall>a \<in> set as. block_ok (the (lk m a))" "front_ok (held m as)"
    "as = as0 @ a # as1" "as1 \<noteq> []"
  shows "chunk (the (lk m a)) \<noteq> []"
proof (cases as0)
  case Nil
  then show ?thesis using assms by (cases as1) simp_all
next
  case (Cons c cs)
  obtain d ds where d: "as1 = d # ds" using assms(5) by (cases as1) auto
  have "packed m (as0 @ a # d # ds)" using assms(1,4) d by simp
  then have "packed m (a # d # ds)" "as0 \<noteq> [] \<longrightarrow> b_start (the (lk m a)) = 0"
    by (simp_all add: packed_append)
  then have "b_end (the (lk m a)) = kDefaultBlockBytes" "b_start (the (lk m a)) = 0"
    using Cons by simp_all
  then show ?thesis by (simp add: chunk_def kDefaultBlockBytes_def)
qed

lemma span_eq_range:
  assumes "span m' c = span m c" "lk m c \<noteq> None"
  shows "b_start (the (lk m' c)) = b_start (the (lk m c)) \<and> b_end (the (lk m' c)) = b_end (the (lk m c))"
  using assms by (auto simp: span_def)

lemma walkable_split:
  assumes w: "walkable (m, b)" and i: "i < length (contents m b)"
    and g: "g = first_start m (blocks_of m b) + int i"
  obtains as0 a as1 blk fs where "buf_wf m b (as0 @ a # as1) fs" "packed m (as0 @ a # as1)"
    "length as0 = nat (g div kDefaultBlockBytes)" "lk m a = Some blk" "block_ok blk"
    "buf_pos (m, b) i = \<lparr>it_blk = Some a, it_offset = g mod kDefaultBlockBytes\<rparr>"
    "\<forall>c \<in> set as0. chunk (the (lk m c)) \<noteq> []"
    "contents m b = concat (held m as0) @ chunk blk @ concat (held m as1)"
    "b_end (the (lk m (last (a # as1)))) < kDefaultBlockBytes"
    "as0 \<noteq> [] \<Longrightarrow> first_start m (blocks_of m b) + int (length (concat (held m as0))) =
       int (length as0) * kDefaultBlockBytes"
    "as0 \<noteq> [] \<Longrightarrow> b_start blk = 0"
    "as0 = [] \<Longrightarrow> b_start blk = first_start m (blocks_of m b)"
    "as1 \<noteq> [] \<Longrightarrow> b_end blk = kDefaultBlockBytes"
    "g mod kDefaultBlockBytes < b_end blk"
proof -
  obtain as fs where *: "buf_wf m b as fs" "blocks_of m b = as" "packed m as"
    "\<forall>a \<in> set as. block_ok (the (lk m a))" "front_ok (held m as)" "as \<noteq> []"
    "contents m b = concat (held m as)" "b_end (the (lk m (last as))) < kDefaultBlockBytes"
    "dseg m None (io_head b) as None"
    using walkableE [OF w] by metis
  let ?j = "nat (g div kDefaultBlockBytes)"
  have j: "?j < length as" and cell: "b_data (the (lk m (as ! ?j))) (g mod kDefaultBlockBytes) \<noteq> None"
    using packed_index [OF *(3,4,6), of i g] i g * by simp_all
  define as0 a as1 where d: "as0 = take ?j as" "a = as ! ?j" "as1 = drop (Suc ?j) as"
  have as: "as = as0 @ a # as1" unfolding d using j by (rule id_take_nth_drop)
  obtain blk where blk: "lk m a = Some blk"
    using dseg_alive [OF *(9), of a] as by auto
  have ok: "block_ok blk" using *(4) as blk by auto
  have p: "packed m (as0 @ a # as1)" using *(3) as by simp
  have l0: "length as0 = ?j" using j d by simp
  have s0: "first_start m (as0 @ a # as1) = first_start m as0" if "as0 \<noteq> []"
    using that by (cases as0) (simp_all add: first_start_def)
  have pl: "first_start m (blocks_of m b) + int (length (concat (held m as0))) =
       int (length as0) * kDefaultBlockBytes" if "as0 \<noteq> []"
    using packed_prefix_length [OF p _ that] *(2,4) as s0 [OF that] by simp
  have st: "b_start blk = 0" if "as0 \<noteq> []" using p blk that by (simp add: packed_append)
  have fst: "b_start blk = first_start m (blocks_of m b)" if "as0 = []"
    using that as *(2) blk by (simp add: first_start_def)
  have full: "b_end blk = kDefaultBlockBytes" if "as1 \<noteq> []"
    using p blk that by (cases as1) (simp_all add: packed_append)
  have ne: "\<forall>c \<in> set as0. chunk (the (lk m c)) \<noteq> []"
  proof
    fix c assume "c \<in> set as0"
    then obtain xs ys where "as0 = xs @ c # ys" by (meson split_list)
    then show "chunk (the (lk m c)) \<noteq> []"
      using packed_chunk_nonempty [OF *(3-5), of xs c "ys @ a # as1"] as by simp
  qed
  have lt: "g mod kDefaultBlockBytes < b_end blk"
  proof (cases "as1 = []")
    case False
    with full show ?thesis by simp
  next
    case True
    have "g < first_start m as + int (length (contents m b))" using i g * by simp
    also have "\<dots> = int (length as - 1) * kDefaultBlockBytes + b_end blk"
      using packed_span [OF *(3,4,6)] *(7) as True blk by simp
    also have "int (length as - 1) = g div kDefaultBlockBytes"
      using as l0 True walkable_index(1) [OF w, of i g] i g
      by (simp add: pos_imp_zdiv_nonneg_iff)
    finally show ?thesis using div_mult_mod_eq [of g kDefaultBlockBytes] by linarith
  qed
  have c: "contents m b = concat (held m as0) @ chunk blk @ concat (held m as1)"
    using *(7) as blk by simp
  have e: "b_end (the (lk m (last (a # as1)))) < kDefaultBlockBytes"
    using *(8) as by simp
  have bp: "buf_pos (m, b) i = \<lparr>it_blk = Some a, it_offset = g mod kDefaultBlockBytes\<rparr>"
    by (simp add: buf_pos_def Let_def d(2) *(2) g)
  have wf: "buf_wf m b (as0 @ a # as1) fs" using *(1) as by simp
  show thesis
    by (rule that [OF wf p l0 blk ok bp ne c e pl st fst full lt])
qed

section \<open>The call\<close>

text \<open>What the method does to the block it lands in.\<close>

lemma shrink_blocks:
  assumes wf: "buf_wf m b as fs" and a: "a \<in> set as" "lk m a = Some blk"
    and blk': "b_next blk' = b_next blk" "b_pre blk' = b_pre blk"
  shows "blocks_of (m[a := Some blk']) b = as"
proof -
  let ?m' = "m[a := Some blk']"
  have "dseg ?m' pr p bs nx = dseg m pr p bs nx" for pr p bs nx
    using a blk' by (induction bs arbitrary: pr p) (auto simp: lk_update lk_SomeD split: option.splits)
  then have "dseg ?m' None (io_head b) as None" using wf by (simp add: buf_wf_def)
  then show ?thesis unfolding blocks_of_def by (rule chain_dseg) (use buf_wf_length [OF wf] in simp)
qed

lemma drop_chunk:
  assumes "b_start blk \<le> b_end blk" "0 \<le> k"
  shows "chunk (blk\<lparr>b_start := b_start blk + k\<rparr>) = drop (nat k) (chunk blk)"
proof (cases "b_start blk + k \<le> b_end blk")
  case True
  then show ?thesis
    using drop_map_upto [of "b_start blk" "b_start blk + k" "b_end blk - 1" "\<lambda>i. the (b_data blk i)"] assms
    by (simp add: chunk_def)
next
  case False
  then have "length (chunk blk) \<le> nat k" using assms by (simp add: length_chunk Size_def)
  with False show ?thesis by (simp add: chunk_def)
qed

text \<open>Forgetting the head block does not depend on how far it has been read.\<close>

lemma ForwardHead_start:
  assumes wf: "buf_wf m b (a # as) fs" and blk: "lk m a = Some blk" "chunk blk \<noteq> []"
    and k: "b_start blk + k \<noteq> b_end blk"
  shows "ForwardHeadByOneBlock (m[a := Some (blk\<lparr>b_start := b_start blk + k\<rparr>)]) b = ForwardHeadByOneBlock m b"
proof -
  let ?x = "blk\<lparr>b_start := b_start blk + k\<rparr>"
  obtain blk0 where h: "io_head b = Some a" "lk m a = Some blk0" "block_ok blk0"
    using buf_wf_head [OF wf] by metis
  have l: "a < length m" using blk(1) by (rule lk_SomeD)
  have e: "b_start blk \<noteq> b_end blk" using blk h by (auto simp: chunk_def)
  have E: "IOBuffer_Empty m b = Inr False" "IOBuffer_Empty (m[a := Some ?x]) b = Inr False"
    using h blk(1) e k l by (simp_all add: IOBuffer_Empty_def deref_def Block_Empty_def lk_update)
  have ne: "b_next blk \<noteq> Some a"
    using wf blk(1) by (cases as) (auto simp: buf_wf_def split: option.splits)
  show ?thesis
  proof (cases "b_next blk")
    case None
    then show ?thesis using E h blk(1) l by (simp add: ForwardHeadByOneBlock_def RecycleBlock_def deref_def modify_def lk_update)
  next
    case (Some c)
    then have ca: "c \<noteq> a" using ne by simp
    then show ?thesis using E h blk(1) l Some
      by (auto simp: ForwardHeadByOneBlock_def RecycleBlock_def deref_def modify_def lk_update list_update_swap [of a c]
        split: option.splits)
  qed
qed

lemma head_tail_null: "io_head b = None \<Longrightarrow> io_tail b = None \<Longrightarrow> b\<lparr>io_tail := None\<rparr> = b"
  by simp

text \<open>
  The call up to its last step: the blocks before the iterator's are gone, and the start of that
  block has moved; then the block stays or goes.
\<close>

lemma PopFront_pos_reach:
  assumes w: "walkable (m, b)" and i: "i < length (contents m b)"
    and g: "g = first_start m (blocks_of m b) + int i"
  obtains as0 a as1 m1 b1 blk fs where
    "PopFront_pos m b (buf_pos (m, b) i) =
       (let m2 = m1[a := Some (blk\<lparr>b_start := b_start blk + (g mod kDefaultBlockBytes + 1)\<rparr>)] in
        bindR (if kDefaultBlockBytes \<le> b_start blk + (g mod kDefaultBlockBytes + 1) then ForwardHeadByOneBlock m2 b1
               else Inr (m2, b1)) (\<lambda>(m3, b3). Inr (m3, if io_head b3 = None then b3\<lparr>io_tail := None\<rparr> else b3)))"
    "buf_wf m1 b1 (a # as1) fs" "lk m1 a = Some blk" "block_ok blk" "packed m1 (a # as1)"
    "contents m b = concat as0 @ chunk blk @ concat (held m1 as1)"
    "b_end (the (lk m1 (last (a # as1)))) < kDefaultBlockBytes" "g mod kDefaultBlockBytes < b_end blk"
    "as0 = [] \<Longrightarrow> b_start blk = first_start m (blocks_of m b) \<and> g < kDefaultBlockBytes"
    "as0 \<noteq> [] \<Longrightarrow> b_start blk = 0 \<and> kDefaultBlockBytes \<le> g \<and>
       Suc i = length (concat as0) + nat (g mod kDefaultBlockBytes + 1)"
    "as1 \<noteq> [] \<Longrightarrow> b_end blk = kDefaultBlockBytes"
proof -
  let ?K = kDefaultBlockBytes and ?S = "first_start m (blocks_of m b)"
  obtain as0 a as1 blk0 fs0 where *: "buf_wf m b (as0 @ a # as1) fs0" "packed m (as0 @ a # as1)"
    "length as0 = nat (g div ?K)" "lk m a = Some blk0" "block_ok blk0"
    "buf_pos (m, b) i = \<lparr>it_blk = Some a, it_offset = g mod ?K\<rparr>"
    "\<forall>c \<in> set as0. chunk (the (lk m c)) \<noteq> []"
    "contents m b = concat (held m as0) @ chunk blk0 @ concat (held m as1)"
    "b_end (the (lk m (last (a # as1)))) < ?K"
    "as0 \<noteq> [] \<Longrightarrow> ?S + int (length (concat (held m as0))) = int (length as0) * ?K"
    "as0 \<noteq> [] \<Longrightarrow> b_start blk0 = 0" "as0 = [] \<Longrightarrow> b_start blk0 = ?S"
    "as1 \<noteq> [] \<Longrightarrow> b_end blk0 = ?K" "g mod ?K < b_end blk0"
    by (rule walkable_split [OF w i g], rule that)
  have e: "IOBuffer_Empty m b = Inr False"
    using Empty_contents [OF walkable_valid [OF w]] i by auto
  have "length as0 < steps m" using buf_wf_length [OF *(1)] by (simp add: steps_def)
  from PopFront_pos_loop_wf [OF *(1,7) this] obtain m1 b1 fs where
    l: "PopFront_pos_loop (steps m) m b (Some a) = Inr (m1, b1)" "buf_wf m1 b1 (a # as1) fs"
    "held m1 (a # as1) = held m (a # as1)" "\<forall>c \<in> set (a # as1). span m1 c = span m c"
    by blast
  obtain blk where blk: "io_head b1 = Some a" "lk m1 a = Some blk" "block_ok blk"
    using buf_wf_head [OF l(2)] by metis
  have P: "PopFront_pos m b (buf_pos (m, b) i) =
       (let m2 = m1[a := Some (blk\<lparr>b_start := b_start blk + (g mod ?K + 1)\<rparr>)] in
        bindR (if ?K \<le> b_start blk + (g mod ?K + 1) then ForwardHeadByOneBlock m2 b1 else Inr (m2, b1))
          (\<lambda>(m3, b3). Inr (m3, if io_head b3 = None then b3\<lparr>io_tail := None\<rparr> else b3)))"
    using e l(1) *(6) blk lk_SomeD [OF blk(2)] by (simp add: PopFront_pos_def deref_def modify_def lk_update Let_def)
  have rng: "b_start (the (lk m1 c)) = b_start (the (lk m c)) \<and> b_end (the (lk m1 c)) = b_end (the (lk m c))"
    if "c \<in> set (a # as1)" for c
  proof -
    have "lk m c \<noteq> None" using *(1) that dseg_alive by (fastforce simp: buf_wf_def)
    then show ?thesis using span_eq_range [of m1 c m] l(4) that by blast
  qed
  have sb: "b_start blk = b_start blk0" "b_end blk = b_end blk0" using rng [of a] *(4) blk by simp_all
  have pk: "packed m1 (a # as1)"
    using *(2) packed_cong [of "a # as1" m1 m] rng by (simp only: packed_append)
  have cont: "contents m b = concat (held m as0) @ chunk blk @ concat (held m1 as1)"
    using *(4,8) l(3) blk by simp
  have lst: "b_end (the (lk m1 (last (a # as1)))) < ?K" using *(9) rng [OF last_in_set [of "a # as1"]] by simp
  have g0: "0 \<le> g" using walkable_index(1) [OF w _ g] i by simp
  then have gd: "int (length as0) = g div ?K" using *(3) by (simp add: pos_imp_zdiv_nonneg_iff)
  have fst: "b_start blk = ?S \<and> g < ?K" if "held m as0 = []"
  proof -
    have z: "as0 = []" using that by (simp add: held_def)
    then show ?thesis using gd div_zero_less [OF K_pos(1), of g] *(12) sb(1) by simp
  qed
  have later: "b_start blk = 0 \<and> ?K \<le> g \<and> Suc i = length (concat (held m as0)) + nat (g mod ?K + 1)"
    if "held m as0 \<noteq> []"
  proof -
    have ne: "as0 \<noteq> []" using that by auto
    have r: "0 \<le> g mod ?K + 1" using pos_mod_sign [OF K_pos(1), of g] by linarith
    have q: "?S + int (length (concat (held m as0))) = g div ?K * ?K" using *(10) [OF ne] unfolding gd .
    then have "int (length (concat (held m as0))) = int i - g mod ?K"
      using g div_mult_mod_eq [of g ?K] by linarith
    then have "Suc i = length (concat (held m as0)) + nat (g mod ?K + 1)" using r by linarith
    moreover have "1 \<le> g div ?K" using gd ne by (cases as0) auto
    then have "?K \<le> g" using g0 by (metis K_pos(1) div_pos_pos_trivial not_le not_one_le_zero)
    ultimately show ?thesis using *(11) [OF ne] sb(1) by simp
  qed
  show thesis
    by (rule that [OF P l(2) blk(2,3) pk cont lst _ fst later]) (use *(13,14) sb in simp_all)
qed

text \<open>
  How many bytes go: up to the iterator when its block starts at 0; otherwise the bytes before
  the start of the block are counted once more, and at most the whole block goes. \<open>next_start\<close> is
  where the block starts afterwards, or would start if it stayed.
\<close>

definition cut_length :: "int \<Rightarrow> nat \<Rightarrow> nat" where
  "cut_length S i =
     (if S + int i < kDefaultBlockBytes then nat (min (S + int i + 1) (kDefaultBlockBytes - S)) else Suc i)"

definition next_start :: "int \<Rightarrow> nat \<Rightarrow> int" where
  "next_start S i =
     (if S + int i < kDefaultBlockBytes then S + (S + int i + 1) else (S + int i) mod kDefaultBlockBytes + 1)"

text \<open>
  The bytes that go beyond the first \<open>n\<close>, when those end in a first block that starts at \<open>S\<close>:
  another \<open>S\<close>, up to the end of the array.
\<close>

definition overcut :: "int \<Rightarrow> nat \<Rightarrow> nat" where
  "overcut S n = (if S + int n \<le> kDefaultBlockBytes then nat (min S (kDefaultBlockBytes - S - int n)) else 0)"

lemma overcut_unread [simp]: "overcut 0 n = 0"
  by (simp add: overcut_def)

lemma cut_length_overcut: "0 \<le> S \<Longrightarrow> cut_length S i = Suc i + overcut S (Suc i)"
  by (auto simp: cut_length_def overcut_def min_def nat_add_distrib)

lemma cut_length_whole: "S = 0 \<or> kDefaultBlockBytes \<le> S + int i \<Longrightarrow> cut_length S i = Suc i"
  by (auto simp: cut_length_def nat_add_distrib)

text \<open>The block stays: a shorter first block, or a full one of which nothing is left.\<close>

lemma keep_block:
  assumes wf: "buf_wf m b (a # as) fs" and blk: "lk m a = Some blk" "block_ok blk" and pk: "packed m (a # as)"
    and k: "0 \<le> k" and full: "as \<noteq> [] \<Longrightarrow> b_end blk = kDefaultBlockBytes"
    and lst: "b_end (the (lk m (last (a # as)))) < kDefaultBlockBytes"
    and m2: "m2 = m[a := Some (blk\<lparr>b_start := b_start blk + k\<rparr>)]"
  shows "contents m2 b = drop (nat k) (chunk blk) @ concat (held m as)"
    and "b_start blk + k < kDefaultBlockBytes \<Longrightarrow> b_start blk + k \<le> b_end blk \<Longrightarrow>
      walkable (m2, b) \<and> first_start m2 (blocks_of m2 b) = b_start blk + k"
    and "b_start blk + k = b_end blk \<Longrightarrow> IOBuffer_Empty m2 b = Inr True"
    and "io_head b = Some a"
proof -
  let ?x = "blk\<lparr>b_start := b_start blk + k\<rparr>"
  have l: "a < length m" using blk(1) by (rule lk_SomeD)
  have na: "a \<notin> set as" using wf by (simp add: buf_wf_def)
  have bl: "blocks_of m2 b = a # as" unfolding m2 by (rule shrink_blocks [OF wf _ blk(1)]) simp_all
  have keep: "lk m2 c = lk m c" if "c \<in> set as" for c
    unfolding m2 by (rule lk_update_other) (use that na in auto)
  have rest: "held m2 as = held m as" by (rule held_cong) (rule keep)
  have here: "lk m2 a = Some ?x" using l by (simp add: m2 lk_update)
  have new: "chunk ?x = drop (nat k) (chunk blk)" by (rule drop_chunk) (use blk k in \<open>simp_all add: block_ok_def\<close>)
  show "contents m2 b = drop (nat k) (chunk blk) @ concat (held m as)"
    using here rest new by (simp add: contents_def bl)
  show h: "io_head b = Some a" using buf_wf_head [OF wf] by metis
  show "IOBuffer_Empty m2 b = Inr True" if "b_start blk + k = b_end blk"
    using h here that by (simp add: IOBuffer_Empty_def deref_def Block_Empty_def)
  show "walkable (m2, b) \<and> first_start m2 (blocks_of m2 b) = b_start blk + k"
    if s: "b_start blk + k < kDefaultBlockBytes" "b_start blk + k \<le> b_end blk"
  proof -
    have ok: "block_ok ?x" using blk(2) k s by (auto simp: block_ok_def)
    have wf2: "buf_wf m2 b (a # as) fs" unfolding m2 by (rule shrink_wf [OF wf _ blk(1) ok]) simp_all
    have pk2: "packed m2 (a # as)"
    proof (cases as)
      case (Cons c cs)
      have "packed m2 as = packed m as" by (rule packed_cong) (simp add: keep)
      with Cons pk keep [of c] here full show ?thesis by simp
    qed simp
    have "chunk ?x \<noteq> []" if "as \<noteq> []" using full [OF that] s(1) by (simp add: chunk_def)
    then have "front_ok (held m2 (a # as))" using here by (auto simp: front_ok_def held_def)
    then have "buf_inv m2 b (a # as) fs" using wf2 unfolding buf_inv_def by blast
    then have "valid_buffer m2 b" by (rule buf_inv_valid)
    moreover have "b_end (the (lk m2 (last (a # as)))) < kDefaultBlockBytes"
      using lst here keep blk(1) by (cases "as = []") auto
    ultimately show ?thesis using pk2 here by (simp add: walkable_def bl first_start_def)
  qed
qed

lemma drop_block:
  assumes wf: "buf_wf m b (a # as) fs" and blk: "lk m a = Some blk" "chunk blk \<noteq> []" and pk: "packed m (a # as)"
    and lst: "b_end (the (lk m (last (a # as)))) < kDefaultBlockBytes" and k: "b_start blk + k \<noteq> b_end blk"
    and m2: "m2 = m[a := Some (blk\<lparr>b_start := b_start blk + k\<rparr>)]"
  shows "\<exists>m' b'. ForwardHeadByOneBlock m2 b = Inr (m', b') \<and> (io_head b' = None \<longrightarrow> io_tail b' = None) \<and>
    contents m' b' = concat (held m as) \<and>
    (as \<noteq> [] \<longrightarrow> walkable (m', b') \<and> first_start m' (blocks_of m' b') = 0)"
proof -
  obtain m' b' where f: "ForwardHeadByOneBlock m b = Inr (m', b')" "buf_wf m' b' as (a # fs)"
    "held m' as = held m as" "length m' = length m" "\<And>d. d \<in> set as \<Longrightarrow> span m' d = span m d"
    using ForwardHead_wf [OF wf] blk by (metis option.sel)
  have F: "ForwardHeadByOneBlock m2 b = Inr (m', b')"
    unfolding m2 using ForwardHead_start [OF wf blk k] f(1) by simp
  have bl: "blocks_of m' b' = as" by (rule buf_wf_blocks [OF f(2)])
  have rng: "b_start (the (lk m' c)) = b_start (the (lk m c)) \<and> b_end (the (lk m' c)) = b_end (the (lk m c))"
    if "c \<in> set as" for c
  proof -
    have "dseg m None (io_head b) (a # as) None" using wf unfolding buf_wf_def by blast
    then have "\<exists>x. lk m c = Some x" by (rule dseg_alive) (use that in simp)
    then have "lk m c \<noteq> None" by auto
    then show ?thesis using span_eq_range f(5) [OF that] by blast
  qed
  have "walkable (m', b') \<and> first_start m' (blocks_of m' b') = 0" if ne: "as \<noteq> []"
  proof -
    obtain c cs where c: "as = c # cs" using ne by (cases as) auto
    have z: "b_start (the (lk m' c)) = 0" using pk c rng [of c] by simp
    have pk': "packed m' as" using packed_cong [of as m' m] rng pk c by simp
    have "chunk (the (lk m' c)) \<noteq> []" if "cs \<noteq> []"
      using pk' that z c by (cases cs) (simp_all add: chunk_def kDefaultBlockBytes_def)
    then have "front_ok (held m' as)" using c by (auto simp: front_ok_def held_def)
    then have "buf_inv m' b' as (a # fs)" using f(2) unfolding buf_inv_def by blast
    then have "valid_buffer m' b'" by (rule buf_inv_valid)
    then show ?thesis
      using pk' ne rng [OF last_in_set [OF ne]] lst z c by (simp add: walkable_def bl first_start_def)
  qed
  moreover have "io_tail b' = None" if "io_head b' = None"
    using f(2) that by (cases as) (auto simp: buf_wf_def)
  moreover have "contents m' b' = concat (held m as)" using f(3) by (simp add: contents_def bl)
  ultimately show ?thesis using F by simp
qed

lemma PopFront_pos_total:
  assumes w: "walkable (m, b)" and i: "i < length (contents m b)" and S: "S = first_start m (blocks_of m b)"
  shows "\<exists>m' b'. PopFront_pos m b (buf_pos (m, b) i) = Inr (m', b') \<and>
    contents m' b' = drop (cut_length S i) (contents m b) \<and>
    (cut_length S i \<le> length (contents m b) \<longrightarrow>
      (if next_start S i = kDefaultBlockBytes then IOBuffer_Empty m' b' = Inr True
       else walkable (m', b') \<and> first_start m' (blocks_of m' b') = (if next_start S i < kDefaultBlockBytes then next_start S i else 0)))"
proof -
  let ?K = kDefaultBlockBytes
  define g where "g = S + int i"
  have g': "g = first_start m (blocks_of m b) + int i" by (simp add: g_def S)
  obtain as0 a as1 m1 b1 blk fs where P: "PopFront_pos m b (buf_pos (m, b) i) =
       (let m2 = m1[a := Some (blk\<lparr>b_start := b_start blk + (g mod ?K + 1)\<rparr>)] in
        bindR (if ?K \<le> b_start blk + (g mod ?K + 1) then ForwardHeadByOneBlock m2 b1
               else Inr (m2, b1)) (\<lambda>(m3, b3). Inr (m3, if io_head b3 = None then b3\<lparr>io_tail := None\<rparr> else b3)))"
    and *: "buf_wf m1 b1 (a # as1) fs" "lk m1 a = Some blk" "block_ok blk" "packed m1 (a # as1)"
    "contents m b = concat as0 @ chunk blk @ concat (held m1 as1)"
    "b_end (the (lk m1 (last (a # as1)))) < ?K" "g mod ?K < b_end blk"
    and fst: "as0 = [] \<Longrightarrow> b_start blk = first_start m (blocks_of m b) \<and> g < ?K"
    and later: "as0 \<noteq> [] \<Longrightarrow> b_start blk = 0 \<and> ?K \<le> g \<and> Suc i = length (concat as0) + nat (g mod ?K + 1)"
    and full: "as1 \<noteq> [] \<Longrightarrow> b_end blk = ?K"
    by (rule PopFront_pos_reach [OF w i g'], rule that)
  let ?k = "g mod ?K + 1"
  define m2 where "m2 = m1[a := Some (blk\<lparr>b_start := b_start blk + ?k\<rparr>)]"
  have k0: "0 \<le> ?k" using pos_mod_sign [OF K_pos(1), of g] by linarith
  have g0: "0 \<le> g" using walkable_index(1) [OF w _ g'] i by simp
  have ns: "next_start S i = b_start blk + ?k"
    using fst later g0 by (cases "as0 = []") (auto simp: next_start_def g_def [symmetric] S [symmetric])
  have len: "int (length (chunk blk)) = b_end blk - b_start blk" "b_end blk \<le> ?K" "0 \<le> b_start blk"
    using *(3) by (auto simp: length_chunk Size_def block_ok_def)
  note keep = keep_block [OF *(1-4) k0 full *(6) m2_def]
  have cut0: "cut_length S i = nat (min ?k (?K - b_start blk))" if "as0 = []"
    using fst [OF that] g0 by (simp add: cut_length_def g_def [symmetric] S [symmetric])
  have cut1: "cut_length S i = length (concat as0) + nat ?k" if "as0 \<noteq> []"
    using later [OF that] by (simp add: cut_length_def g_def [symmetric])
  show ?thesis
  proof (cases "b_start blk + ?k < ?K \<or> b_start blk + ?k = b_end blk")
    case True
    have cut: "cut_length S i = length (concat as0) + nat ?k"
      using cut0 cut1 True len by (cases "as0 = []") auto
    have fit: "nat ?k \<le> length (chunk blk)" if "as1 \<noteq> []"
      using True full [OF that] len by auto
    have cont: "contents m2 b1 = drop (cut_length S i) (contents m b)"
      using keep(1) fit by (cases "as1 = []") (simp_all add: *(5) cut)
    have E: "PopFront_pos m b (buf_pos (m, b) i) = Inr (m2, b1)"
    proof (cases "b_start blk + ?k < ?K")
      case t: True
      then show ?thesis using P keep(4) by (simp add: m2_def [symmetric] Let_def)
    next
      case False
      with True have "IOBuffer_Empty m2 b1 = Inr True" using keep(3) by simp
      then show ?thesis using P keep(4) False
        by (simp add: m2_def [symmetric] Let_def ForwardHeadByOneBlock_def)
    qed
    have "if next_start S i = ?K then IOBuffer_Empty m2 b1 = Inr True
       else walkable (m2, b1) \<and> first_start m2 (blocks_of m2 b1) = (if next_start S i < ?K then next_start S i else 0)"
      if c: "cut_length S i \<le> length (contents m b)"
    proof (cases "b_start blk + ?k = ?K")
      case t: True
      then show ?thesis using True keep(3) ns by auto
    next
      case False
      have le: "b_start blk + ?k \<le> b_end blk"
      proof (cases "as1 = []")
        case True
        then have "nat ?k \<le> length (chunk blk)" using c *(5) cut by simp
        then show ?thesis using len k0 by linarith
      next
        case False
        then show ?thesis using fit len k0 by linarith
      qed
      then have "b_start blk + ?k < ?K" using len False by linarith
      then show ?thesis using keep(2) le ns by simp
    qed
    then show ?thesis using E cont by blast
  next
    case False
    have z: "as0 = []"
    proof (rule ccontr)
      assume "as0 \<noteq> []"
      then have "b_start blk = 0" using later by simp
      then have "?K \<le> ?k" "?k \<le> b_end blk" using False *(7) by linarith+
      then show False using False len \<open>b_start blk = 0\<close> by linarith
    qed
    have g1: "g mod ?K = g" using fst [OF z] g0 by simp
    have bs: "b_start blk = S" using fst [OF z] S by simp
    have ne: "chunk blk \<noteq> []"
    proof -
      have "S \<le> g" by (simp add: g_def)
      then have "b_start blk < b_end blk" using *(7) g1 bs by linarith
      then show ?thesis by (simp add: chunk_def)
    qed
    obtain m' b' where f: "ForwardHeadByOneBlock m2 b1 = Inr (m', b')" "io_head b' = None \<longrightarrow> io_tail b' = None"
      "contents m' b' = concat (held m1 as1)"
      "as1 \<noteq> [] \<longrightarrow> walkable (m', b') \<and> first_start m' (blocks_of m' b') = 0"
      using drop_block [OF *(1,2) ne *(4,6) _ m2_def] False by auto
    have "(if io_head b' = None then b'\<lparr>io_tail := None\<rparr> else b') = b'" using f(2) head_tail_null by auto
    then have E: "PopFront_pos m b (buf_pos (m, b) i) = Inr (m', b')"
      using P f(1) False by (simp add: m2_def [symmetric] Let_def)
    have cut: "cut_length S i = nat (?K - b_start blk)" using cut0 [OF z] False by simp
    have cont: "contents m' b' = drop (cut_length S i) (contents m b)"
    proof (cases "as1 = []")
      case True
      have "length (chunk blk) \<le> cut_length S i" using len cut by linarith
      then show ?thesis using True f(3) z *(5) by simp
    next
      case a: False
      have "length (chunk blk) = cut_length S i" using full [OF a] len cut by linarith
      then show ?thesis using f(3) z *(5) by simp
    qed
    have "as1 \<noteq> []" if "cut_length S i \<le> length (contents m b)"
    proof
      assume "as1 = []"
      then have "b_end blk < ?K" "length (contents m b) = length (chunk blk)" using *(2,5,6) z by simp_all
      then show False using that cut len by linarith
    qed
    then show ?thesis using E cont f(4) full False ns by auto
  qed
qed

section \<open>Properties\<close>


definition half_read :: mem where
  "half_read = [Some ((extend_block new_Block ''abcdef'')\<lparr>b_start := 2\<rparr>)]"

lemma half_read_walkable: "walkable (half_read, one_buf)" "blocks_of half_read one_buf = [0]"
  "contents half_read one_buf = ''cdef''"
proof -
  let ?x = "(extend_block new_Block ''abcdef'')\<lparr>b_start := 2\<rparr>"
  have "block_ok (extend_block new_Block ''abcdef'')"
    by (rule extend_block_ok [OF new_Block_ok(1)]) (simp add: FreeSpace_def new_Block_def kDefaultBlockBytes_def)
  then have ok: "block_ok ?x" by (auto simp: block_ok_def extend_block_def new_Block_def)
  have wf: "buf_wf half_read one_buf [0] []"
    using ok by (simp add: buf_wf_def half_read_def one_buf_def lk_def extend_block_def new_Block_def)
  then show "blocks_of half_read one_buf = [0]" by (rule buf_wf_blocks)
  have "buf_inv half_read one_buf [0] []" using wf by (simp add: buf_inv_def)
  then have "valid_buffer half_read one_buf" by (rule buf_inv_valid)
  with \<open>blocks_of half_read one_buf = [0]\<close> show "walkable (half_read, one_buf)"
    by (simp add: walkable_def half_read_def lk_def extend_block_def new_Block_def kDefaultBlockBytes_def)
  have "chunk ?x = ''cdef''"
    by (simp add: chunk_def extend_block_def new_Block_def store_bytes_lookup upto_rec1)
  then show "contents half_read one_buf = ''cdef''"
    using buf_wf_contents [OF wf] by (simp add: half_read_def lk_def)
qed


end
