(* ===== verification/Http_Steps.thy ===== *)
theory Http_Steps
  imports Http IOBuffer_Cut
begin

text \<open>
  The request parser on a walkable buffer, step by step: what one call of
  \<open>IOBuffer::Parse\<close> does at a line, at a header, at the blank line and in the body, as facts
  about positions in the byte string.
\<close>

section \<open>Lines\<close>

abbreviation crlf_at :: "char list \<Rightarrow> nat \<Rightarrow> bool" where
  "crlf_at w k \<equiv> w ! k = CR \<and> w ! Suc k = LF"

lemma HitCRFL_pos:
  assumes "walkable (m, b)" "Suc k < length (contents m b)"
  shows "HitCRFL_match m (buf_pos (m, b) k) (buf_pos (m, b) (Suc k)) = Inr (crlf_at (contents m b) k)"
  using assms by (simp add: HitCRFL_match_def it_deref_pos)

lemma HasCompleteContent_pos:
  assumes "walkable (m, b)" "Suc k < length (contents m b)" "s \<le> k" "rq_starting_point req = buf_pos (m, b) s"
  shows "HasCompleteContent_match m req (buf_pos (m, b) k) (buf_pos (m, b) (Suc k)) =
    Inr (rq_content_length req = int (Suc k - s) + 1)"
  using assms by (simp add: HasCompleteContent_match_def it_minus_pos)

lemma find_crlf:
  assumes "w = u @ line @ CR # LF # rest" "CR \<notin> set line" "s = length u"
  shows "find_hit (crlf_at w) s (length w - Suc s) = Some (s + length line)"
proof (rule find_hit_intro)
  show "crlf_at w (s + length line)" using assms by (simp add: nth_append)
  fix i assume i: "s \<le> i" "i < s + length line"
  then have l: "i - s < length line" by linarith
  then have "w ! i = line ! (i - s)" using assms i by (simp add: nth_append)
  then show "\<not> crlf_at w i" using assms(2) nth_mem [OF l] by metis
qed (use assms in auto)

lemma parse_once_crlf:
  assumes w: "walkable (m, b)" and c: "contents m b = u @ line @ CR # LF # rest" "CR \<notin> set line"
    and req: "rq_starting_point req = buf_pos (m, b) (length u)" "rq_matcher req = HitCRFL"
  shows "parse_once m b req = bindR (run_on_hit m b req (buf_pos (m, b) (length u + length line))
    (buf_pos (m, b) (Suc (length u + length line)))) (\<lambda>st. Inr (True, st))"
proof -
  have M: "run_matcher m req (buf_pos (m, b) i) (buf_pos (m, b) (Suc i)) = Inr (crlf_at (contents m b) i)"
    if "Suc i < length (contents m b)" for i
    using that w req(2) by (simp add: run_matcher_def HitCRFL_pos)
  have le: "length u \<le> length (contents m b)" "length u \<noteq> length (contents m b)" using c(1) by simp_all
  show ?thesis
    unfolding parse_once_def req(1)
    using Parse_pos [where matcher = "run_matcher m req" and P = "crlf_at (contents m b)" and
        on_hit = "run_on_hit m b req" and on_miss = "OnMiss m b req", OF w le(1) M]
      find_crlf [OF c refl] le(2) by simp
qed

lemma parse_once_miss:
  assumes w: "walkable (m, b)" and s: "s \<le> length (contents m b)"
    and none: "\<And>i. s \<le> i \<Longrightarrow> Suc i < length (contents m b) \<Longrightarrow> \<not> crlf_at (contents m b) i"
    and req: "rq_starting_point req = buf_pos (m, b) s" "rq_matcher req = HitCRFL"
  shows "parse_once m b req = Inr (False, m, b, req\<lparr>rq_pr := NEED_MORE_DATA\<rparr>)"
proof -
  have M: "run_matcher m req (buf_pos (m, b) i) (buf_pos (m, b) (Suc i)) = Inr (crlf_at (contents m b) i)"
    if "Suc i < length (contents m b)" for i
    using that w req(2) by (simp add: run_matcher_def HitCRFL_pos)
  have "find_hit (crlf_at (contents m b)) s (length (contents m b) - Suc s) = None"
    using none by (auto simp: find_hit_None)
  then show ?thesis
    unfolding parse_once_def req(1)
    using Parse_pos [where matcher = "run_matcher m req" and P = "crlf_at (contents m b)" and
        on_hit = "run_on_hit m b req" and on_miss = "OnMiss m b req", OF w s M]
    by (simp add: OnMiss_def)
qed

text \<open>After the line feed at \<open>k\<close>: the next line begins there, or more data is needed.\<close>

lemma forward_next:
  assumes w: "walkable (m, b)" and c: "contents m b = u @ LF # x # rest" "x \<noteq> LF"
  shows "ForwardStartingPoint_to m b req (buf_pos (m, b) (length u)) =
    Inr (req\<lparr>rq_pr := CONTINUE, rq_starting_point := buf_pos (m, b) (Suc (length u))\<rparr>)"
proof -
  have "run_len LF (drop (length u) (contents m b)) = 1"
    using c run_len_stop [of "x # rest" LF] by simp
  moreover have "contents m b ! length u = LF" "contents m b ! Suc (length u) = x"
    using c(1) by (simp_all add: nth_append)
  ultimately show ?thesis
    using w c Skip_pos [OF w, of "length u" LF] by (simp add: ForwardStartingPoint_to_def it_deref_pos)
qed

lemma forward_end:
  assumes w: "walkable (m, b)" and c: "contents m b = u @ [LF]"
  shows "ForwardStartingPoint_to m b req (buf_pos (m, b) (length u)) =
    Inr (req\<lparr>rq_pr := NEED_MORE_DATA, rq_starting_point := buf_pos (m, b) (length u)\<rparr>)"
  using w c Skip_pos [OF w, of "length u" LF] by (simp add: ForwardStartingPoint_to_def it_deref_pos)

lemma slice_between:
  assumes "contents m b = u @ line @ rest" "walkable (m, b)"
  shows "AsString m b (buf_pos (m, b) (length u)) (buf_pos (m, b) (length u + length line)) = Inr line"
  using AsString_pos [OF assms(2), of "length u" "length u + length line"] assms(1) by simp

section \<open>Well-formed requests\<close>

definition request_line_ok :: "char list \<Rightarrow> char list \<Rightarrow> char list \<Rightarrow> bool" where
  "request_line_ok me uri ver \<longleftrightarrow> me \<noteq> [] \<and> (\<forall>f \<in> {me, uri, ver}. CHR '' '' \<notin> set f \<and> CR \<notin> set f \<and> CHR 0x00 \<notin> set f)"

definition header_ok :: "char list \<times> char list \<Rightarrow> bool" where
  "header_ok e \<longleftrightarrow> (case e of (k, v) \<Rightarrow> k \<noteq> [] \<and> hd k \<noteq> LF \<and> CHR '':'' \<notin> set k \<and> CR \<notin> set k \<and> CHR 0x00 \<notin> set k \<and>
     CR \<notin> set v \<and> CHR 0x00 \<notin> set v \<and> length v < 33000000)"

definition enc_request_line :: "char list \<Rightarrow> char list \<Rightarrow> char list \<Rightarrow> char list" where
  "enc_request_line me uri ver = join CHR '' '' [me, uri, ver]"

definition enc_header :: "char list \<times> char list \<Rightarrow> char list" where
  "enc_header e = fst e @ CHR '':'' # snd e @ [CR, LF]"

definition enc_headers :: "(char list \<times> char list) list \<Rightarrow> char list" where
  "enc_headers hs = concat (map enc_header hs)"

text \<open>The headers a list of header lines leaves: a later line replaces an earlier one.\<close>

definition headers_of :: "(char list \<times> char list) list \<Rightarrow> headers" where
  "headers_of hs = map_of (rev hs)"

lemma enc_headers_simps [simp]:
  "enc_headers [] = []" "enc_headers (e # hs) = enc_header e @ enc_headers hs"
  by (simp_all add: enc_headers_def)

section \<open>The request line\<close>

text \<open>
  The callbacks end with \<open>ForwardStartingPoint(cur)\<close>; \<open>advances\<close> names the status and the
  position that call leaves when the line feed is at \<open>k\<close>.
\<close>

definition advances :: "mem \<Rightarrow> iobuffer \<Rightarrow> nat \<Rightarrow> ParseStatus \<Rightarrow> nat \<Rightarrow> bool" where
  "advances m b k st j \<longleftrightarrow> (\<forall>req. ForwardStartingPoint_to m b req (buf_pos (m, b) k) =
     Inr (req\<lparr>rq_pr := st, rq_starting_point := buf_pos (m, b) j\<rparr>))"

lemma advances_next: "walkable (m, b) \<Longrightarrow> contents m b = u @ LF # x # rest \<Longrightarrow> x \<noteq> LF \<Longrightarrow>
    advances m b (length u) CONTINUE (Suc (length u))"
  by (simp add: advances_def forward_next)

lemma advances_end: "walkable (m, b) \<Longrightarrow> contents m b = u @ [LF] \<Longrightarrow>
    advances m b (length u) NEED_MORE_DATA (length u)"
  by (simp add: advances_def forward_end)

lemma on_request_line:
  assumes w: "walkable (m, b)" and ok: "request_line_ok me uri ver"
    and c: "contents m b = u @ enc_request_line me uri ver @ CR # LF # rest"
    and a: "advances m b (Suc (length u + length (enc_request_line me uri ver))) st j"
    and req: "rq_starting_point req = buf_pos (m, b) (length u)" "rq_matcher req = HitCRFL"
      "rq_on_hit req = OnHitRequestLine"
  shows "parse_once m b req = Inr (True, m, b, req\<lparr>rq_method := me, rq_uri := uri, rq_version := ver,
    rq_on_hit := OnHitHeaders, rq_pr := st, rq_starting_point := buf_pos (m, b) j\<rparr>)"
proof -
  let ?l = "enc_request_line me uri ver"
  have cr: "CR \<notin> set ?l" using ok by (auto simp: enc_request_line_def request_line_ok_def CR_def)
  have sp: "SplitString ?l (CHR '' '') [] = [me, uri, ver]"
    unfolding enc_request_line_def using SplitString_join_fields [of "[me, uri, ver]" "CHR '' ''" "[]"] ok
    by (simp add: request_line_ok_def)
  have sl: "AsString m b (buf_pos (m, b) (length u)) (buf_pos (m, b) (length u + length ?l)) = Inr ?l"
    by (rule slice_between [OF _ w]) (use c in simp)
  show ?thesis
    using parse_once_crlf [OF w c cr req(1,2)] a sl sp req
    by (simp add: run_on_hit_def do_OnHitRequestLine_def Let_def advances_def)
qed

section \<open>Header lines\<close>

lemma SplitString_loop_prefix:
  "SplitString_loop d (Suc i) cs (rs @ [f]) = rs @ SplitString_loop d (Suc i) cs [f]"
proof (induction cs arbitrary: i rs f)
  case (Cons c cs)
  then show ?case
    using Cons.IH [of "Suc i" "rs @ [f]" "[]"] Cons.IH [of "Suc i" "[f]" "[]"] Cons.IH [of "Suc i" rs "f @ [c]"]
    by simp
qed simp

lemma split_header:
  assumes "header_ok (k, v)"
  shows "\<exists>vs. SplitString (k @ CHR '':'' # v) (CHR '':'') [] = k # vs \<and> vs \<noteq> [] \<and> join CHR '':'' vs = v \<and>
    (\<forall>f \<in> set vs. CHR 0x00 \<notin> set f \<and> length f \<le> length v)"
proof -
  let ?d = "CHR '':''"
  let ?vs = "SplitString_loop ?d (Suc (length k)) v [[]]"
  have z: "CHR 0x00 \<notin> set (k @ ?d # v)" using assms by (simp add: header_ok_def)
  have k: "SplitString_loop ?d 0 (k @ ?d # v) [[]] = SplitString_loop ?d (length k) (?d # v) [k]"
    using SplitString_loop_field [of ?d k "[[]]" 0 "?d # v"] assms by (simp add: header_ok_def)
  also have "\<dots> = SplitString_loop ?d (Suc (length k)) v ([k] @ [[]])"
    using assms by (simp add: header_ok_def)
  also have "\<dots> = [k] @ ?vs" by (rule SplitString_loop_prefix)
  finally have s: "SplitString (k @ ?d # v) ?d [] = k # ?vs" using z by (simp add: SplitString_def)
  have j: "join ?d ?vs = v" using join_SplitString_loop [of "[[]]" ?d "Suc (length k)" v] by simp
  have ne: "?vs \<noteq> []" by (rule SplitString_loop_nonempty) simp
  have "set f \<subseteq> set (join ?d ?vs) \<and> length f \<le> length (join ?d ?vs)" if "f \<in> set ?vs" for f
    using that by (rule join_member)
  then have "CHR 0x00 \<notin> set f \<and> length f \<le> length v" if "f \<in> set ?vs" for f
    using that j z by auto
  with s j ne show ?thesis by blast
qed

lemma rejoin_tail:
  "\<forall>f \<in> set fs. CHR 0x00 \<notin> set f \<and> length f < 33000000 \<Longrightarrow>
    rejoin_value (Suc (Suc i)) fs tmp = Inr (tmp @ concat (map ((#) CHR '':'') fs))"
  by (induction fs arbitrary: i tmp) (simp_all add: StringAppendF_short)

lemma join_cons: "join d (f # fs) = f @ concat (map ((#) d) fs)"
  by (induction fs arbitrary: f) simp_all

lemma rejoin_join:
  assumes "\<forall>f \<in> set fs. CHR 0x00 \<notin> set f \<and> length f < 33000000" "fs \<noteq> []"
  shows "rejoin_value 1 fs [] = Inr (join CHR '':'' fs)"
  using assms by (cases fs) (simp_all add: StringAppendF_short rejoin_tail [of _ 0, simplified] join_cons)

lemma on_header:
  assumes w: "walkable (m, b)" and ok: "header_ok (k, v)"
    and c: "contents m b = u @ enc_header (k, v) @ rest"
    and a: "advances m b (length u + length k + length v + 2) st j"
    and req: "rq_starting_point req = buf_pos (m, b) (length u)" "rq_matcher req = HitCRFL"
      "rq_on_hit req = OnHitHeaders" "rq_pr req = CONTINUE"
  shows "parse_once m b req = Inr (True, m, b, req\<lparr>rq_headers := (rq_headers req)(k \<mapsto> v), rq_pr := st,
    rq_starting_point := buf_pos (m, b) j\<rparr>)"
proof -
  let ?l = "k @ CHR '':'' # v"
  have c1: "contents m b = u @ ?l @ CR # LF # rest" using c by (simp add: enc_header_def)
  have cr: "CR \<notin> set ?l" using ok by (auto simp: header_ok_def CR_def)
  have f: "ForwardStartingPoint_to m b r (buf_pos (m, b) (Suc (length u + length ?l))) =
      Inr (r\<lparr>rq_pr := st, rq_starting_point := buf_pos (m, b) j\<rparr>)" for r
    using a by (simp add: advances_def add.assoc)
  have sl: "AsString m b (buf_pos (m, b) (length u)) (buf_pos (m, b) (length u + length ?l)) = Inr ?l"
    by (rule slice_between [OF _ w]) (use c1 in simp)
  obtain vs where vs: "SplitString ?l (CHR '':'') [] = k # vs" "vs \<noteq> []" "join CHR '':'' vs = v"
    "\<forall>f \<in> set vs. CHR 0x00 \<notin> set f \<and> length f \<le> length v"
    using split_header [OF ok] by metis
  have "length v < 33000000" using ok by (simp add: header_ok_def)
  with vs(4) have short: "\<forall>f \<in> set vs. CHR 0x00 \<notin> set f \<and> length f < 33000000" by (meson le_less_trans)
  have val: "vs = [v] \<or> 2 \<le> length vs \<and> rejoin_value (Suc 0) vs [] = Inr v"
  proof (cases "length vs = 1")
    case True
    then obtain f where "vs = [f]" by (cases vs) auto
    then show ?thesis using vs(3) by simp
  next
    case False
    then have "2 \<le> length vs" using vs(2) by (cases vs; cases "tl vs") auto
    then show ?thesis using rejoin_join [OF short vs(2)] vs(3) by simp
  qed
  have ne: "buf_pos (m, b) (length u) \<noteq> buf_pos (m, b) (length u + length ?l)"
    using pos_eq_iff [OF w, of "length u" "length u + length ?l"] c1 by simp
  have "do_OnHitHeaders m b req (buf_pos (m, b) (length u + length ?l))
      (buf_pos (m, b) (Suc (length u + length ?l))) =
    Inr (m, b, req\<lparr>rq_headers := (rq_headers req)(k \<mapsto> v), rq_pr := st,
      rq_starting_point := buf_pos (m, b) j\<rparr>)"
    using val
  proof
    assume "vs = [v]"
    then show ?thesis using ne sl f req vs(1)
      by (simp add: do_OnHitHeaders_def ForwardStartingPoint_def Let_def enc_header_def)
  next
    assume "2 \<le> length vs \<and> rejoin_value (Suc 0) vs [] = Inr v"
    then show ?thesis using ne sl f req vs(1)
      by (simp add: do_OnHitHeaders_def ForwardStartingPoint_def Let_def enc_header_def)
  qed
  then show ?thesis
    using parse_once_crlf [OF w c1 cr req(1,2)] req by (simp add: run_on_hit_def)
qed

lemma headers_of_Cons: "h ++ headers_of ((k, v) # hs) = h(k \<mapsto> v) ++ headers_of hs"
  by (simp add: headers_of_def map_of_append map_add_assoc)

text \<open>A header line does not begin with a line feed, nor does what follows the headers.\<close>

lemma next_line:
  assumes "\<forall>e \<in> set hs. header_ok e" "y \<noteq> LF"
  shows "\<exists>x r. enc_headers hs @ y # rest = x # r \<and> x \<noteq> LF"
proof (cases hs)
  case (Cons e' hs')
  then have "header_ok e'" using assms by simp
  then obtain a l where "fst e' = a # l" "a \<noteq> LF"
    by (cases "fst e'") (auto simp: header_ok_def split: prod.splits)
  then show ?thesis using Cons by (simp add: enc_header_def)
qed (use assms in simp)

lemma headers_loop:
  assumes w: "walkable (m, b)" and y: "y \<noteq> LF"
  shows "\<forall>e \<in> set hs. header_ok e \<Longrightarrow> contents m b = u @ enc_headers hs @ y # rest \<Longrightarrow>
    rq_starting_point req = buf_pos (m, b) (length u) \<Longrightarrow> rq_matcher req = HitCRFL \<Longrightarrow>
    rq_on_hit req = OnHitHeaders \<Longrightarrow> rq_pr req = CONTINUE \<Longrightarrow>
    Http_Parse_loop (length hs + n) m b req = Http_Parse_loop n m b
      (req\<lparr>rq_headers := rq_headers req ++ headers_of hs,
         rq_starting_point := buf_pos (m, b) (length u + length (enc_headers hs))\<rparr>)"
proof (induction hs arbitrary: u req)
  case Nil
  then show ?case by (cases req) (simp add: headers_of_def)
next
  case (Cons e hs)
  obtain k v where e: "e = (k, v)" by fastforce
  have ok: "header_ok (k, v)" using Cons.prems(1) e by simp
  obtain x r where x: "enc_headers hs @ y # rest = x # r" "x \<noteq> LF"
    using next_line [of hs y rest] Cons.prems(1) y by auto
  let ?r = "req\<lparr>rq_headers := (rq_headers req)(k \<mapsto> v),
    rq_starting_point := buf_pos (m, b) (length u + length (enc_header (k, v)))\<rparr>"
  have c: "contents m b = u @ enc_header (k, v) @ x # r" using Cons.prems(2) e x(1) by simp
  have a: "advances m b (length u + length k + length v + 2) CONTINUE (length u + length (enc_header (k, v)))"
    using advances_next [OF w, of "u @ k @ CHR '':'' # v @ [CR]" x r] c x(2)
    by (simp add: enc_header_def add.assoc)
  from on_header [OF w ok c a Cons.prems(3-6)]
  have "parse_once m b req = Inr (True, m, b, ?r)" using Cons.prems(6) by (cases req) simp
  with Cons.prems(6) have "Http_Parse_loop (length (e # hs) + n) m b req = Http_Parse_loop (length hs + n) m b ?r" by simp
  also have "\<dots> = Http_Parse_loop n m b
      (?r\<lparr>rq_headers := rq_headers ?r ++ headers_of hs,
         rq_starting_point := buf_pos (m, b) (length (u @ enc_header (k, v)) + length (enc_headers hs))\<rparr>)"
    by (rule Cons.IH) (use Cons.prems e in simp_all)
  finally show ?case using Cons.prems(6) e by (simp add: headers_of_Cons add.assoc)
qed

section \<open>The blank line, the body and the end of a request\<close>

lemma on_blank:
  assumes w: "walkable (m, b)" and c: "contents m b = u @ CR # LF # rest"
    and req: "rq_starting_point req = buf_pos (m, b) (length u)" "rq_matcher req = HitCRFL"
      "rq_on_hit req = OnHitHeaders" "rq_pr req = CONTINUE"
  shows "ContentLength req = 0 \<Longrightarrow> parse_once m b req =
      bindR (Finish m b (req\<lparr>rq_content_length := 0\<rparr>) (buf_pos (m, b) (Suc (length u)))) (\<lambda>st. Inr (True, st))"
    and "ContentLength req \<noteq> 0 \<Longrightarrow> rest = x # rest' \<Longrightarrow> x \<noteq> LF \<Longrightarrow> parse_once m b req =
      Inr (True, m, b, req\<lparr>rq_content_length := ContentLength req, rq_matcher := HasCompleteContent,
        rq_on_hit := OnHitContent, rq_pr := CONTINUE, rq_starting_point := buf_pos (m, b) (length u + 2)\<rparr>)"
    and "ContentLength req \<noteq> 0 \<Longrightarrow> rest = [] \<Longrightarrow> parse_once m b req =
      Inr (True, m, b, req\<lparr>rq_content_length := ContentLength req, rq_matcher := HasCompleteContent,
        rq_on_hit := OnHitContent, rq_pr := NEED_MORE_DATA, rq_starting_point := buf_pos (m, b) (length u + 1)\<rparr>)"
proof -
  have p: "parse_once m b req = bindR (do_OnHitHeaders m b req (buf_pos (m, b) (length u))
      (buf_pos (m, b) (Suc (length u)))) (\<lambda>st. Inr (True, st))"
    using parse_once_crlf [OF w, of u "[]" rest req] c req by (simp add: run_on_hit_def)
  show "parse_once m b req = bindR (Finish m b (req\<lparr>rq_content_length := 0\<rparr>) (buf_pos (m, b) (Suc (length u))))
      (\<lambda>st. Inr (True, st))" if "ContentLength req = 0"
    using p req that by (simp add: do_OnHitHeaders_def ForwardStartingPoint_def Let_def)
  show "parse_once m b req =
      Inr (True, m, b, req\<lparr>rq_content_length := ContentLength req, rq_matcher := HasCompleteContent,
        rq_on_hit := OnHitContent, rq_pr := CONTINUE, rq_starting_point := buf_pos (m, b) (length u + 2)\<rparr>)"
    if "ContentLength req \<noteq> 0" "rest = x # rest'" "x \<noteq> LF"
    using p req that forward_next [OF w, of "u @ [CR]" x rest'] c
    by (simp add: do_OnHitHeaders_def ForwardStartingPoint_def Let_def)
  show "parse_once m b req =
      Inr (True, m, b, req\<lparr>rq_content_length := ContentLength req, rq_matcher := HasCompleteContent,
        rq_on_hit := OnHitContent, rq_pr := NEED_MORE_DATA, rq_starting_point := buf_pos (m, b) (length u + 1)\<rparr>)"
    if "ContentLength req \<noteq> 0" "rest = []"
    using p req that forward_end [OF w, of "u @ [CR]"] c
    by (simp add: do_OnHitHeaders_def ForwardStartingPoint_def Let_def)
qed

lemma parse_once_body:
  assumes w: "walkable (m, b)" and s: "s \<le> length (contents m b)"
    and req: "rq_starting_point req = buf_pos (m, b) s" "rq_matcher req = HasCompleteContent"
      "rq_on_hit req = OnHitContent"
  shows "2 \<le> L \<Longrightarrow> s + L \<le> length (contents m b) \<Longrightarrow> rq_content_length req = int L \<Longrightarrow>
      parse_once m b req = bindR (do_OnHitContent m b req (buf_pos (m, b) (s + L - 2)) (buf_pos (m, b) (s + L - 1)))
        (\<lambda>st. Inr (True, st))"
    and "rq_content_length req < 2 \<or> int (length (contents m b)) < int s + rq_content_length req \<Longrightarrow>
      parse_once m b req = Inr (False, m, b, req\<lparr>rq_pr := NEED_MORE_DATA\<rparr>)"
proof -
  let ?P = "\<lambda>k. rq_content_length req = int (Suc k - s) + 1"
  have M: "run_matcher m req (buf_pos (m, b) i) (buf_pos (m, b) (Suc i)) = Inr (?P i)"
    if "s \<le> i" "Suc i < length (contents m b)" for i
    using that w req(1,2) by (simp add: run_matcher_def HasCompleteContent_pos)
  note P = Parse_pos [where matcher = "run_matcher m req" and P = ?P and on_hit = "run_on_hit m b req"
      and on_miss = "OnMiss m b req", OF w s M]
  show "parse_once m b req = bindR (do_OnHitContent m b req (buf_pos (m, b) (s + L - 2)) (buf_pos (m, b) (s + L - 1)))
      (\<lambda>st. Inr (True, st))"
    if L: "2 \<le> L" "s + L \<le> length (contents m b)" "rq_content_length req = int L"
  proof -
    have "find_hit ?P s (length (contents m b) - Suc s) = Some (s + L - 2)"
      by (rule find_hit_intro) (use L in auto)
    moreover have "Suc (s + L - 2) = s + L - 1" using L by simp
    ultimately show ?thesis
      unfolding parse_once_def req(1) using P L req(3) by (simp add: run_on_hit_def)
  qed
  show "parse_once m b req = Inr (False, m, b, req\<lparr>rq_pr := NEED_MORE_DATA\<rparr>)"
    if L: "rq_content_length req < 2 \<or> int (length (contents m b)) < int s + rq_content_length req"
  proof -
    have "find_hit ?P s (length (contents m b) - Suc s) = None"
      unfolding find_hit_None using L by auto
    then show ?thesis
      unfolding parse_once_def req(1) using P by (simp add: OnMiss_def)
  qed
qed

definition done_status :: "http_request \<Rightarrow> ParseStatus" where
  "done_status req = (if IsGet req \<or> IsPost req then OK else UNIMPLEMENTED)"

text \<open>
  What is left of a walkable buffer after the first \<open>n\<close> bytes have been popped up to an iterator,
  when \<open>rest\<close> followed them.
\<close>

definition popped :: "mem \<Rightarrow> iobuffer \<Rightarrow> nat \<Rightarrow> char list \<Rightarrow> mem \<Rightarrow> iobuffer \<Rightarrow> bool" where
  "popped m b n rest m' b' \<longleftrightarrow> (let S = first_start m (blocks_of m b) in
     contents m' b' = drop (overcut S n) rest \<and>
     (overcut S n \<le> length rest \<longrightarrow>
       (if next_start S (n - 1) = kDefaultBlockBytes then IOBuffer_Empty m' b' = Inr True else walkable (m', b'))))"

lemma mod_succ_full:
  assumes "0 < (k::int)"
  shows "x mod k + 1 = k \<longleftrightarrow> (x + 1) mod k = 0"
proof (cases "x mod k + 1 = k")
  case True
  have "(x + 1) mod k = (x mod k + 1) mod k" by (rule mod_add_left_eq [symmetric])
  also have "\<dots> = 0" unfolding True by simp
  finally show ?thesis using True by blast
next
  case False
  have m: "0 \<le> x mod k" "x mod k < k" using assms by simp_all
  then have "x mod k + 1 < k" using False by linarith
  then have "(x mod k + 1) mod k = x mod k + 1" using m(1) by (intro mod_pos_pos_trivial) simp_all
  then have "(x + 1) mod k = x mod k + 1" by (simp only: mod_add_left_eq)
  moreover have "x mod k + 1 \<noteq> 0" using m(1) by linarith
  ultimately show ?thesis using False by simp
qed

lemma next_start_unread:
  assumes "0 < n"
  shows "next_start 0 (n - 1) = kDefaultBlockBytes \<longleftrightarrow> int n mod kDefaultBlockBytes = 0"
proof -
  define x where "x = int n - 1"
  have x: "0 \<le> x" "int (n - 1) = x" "int n = x + 1" using assms by (simp_all add: x_def)
  have "next_start 0 (n - 1) = x mod kDefaultBlockBytes + 1"
    unfolding next_start_def x(2) using mod_pos_pos_trivial [OF x(1), of kDefaultBlockBytes] by simp
  then show ?thesis unfolding x(3) by (simp only: mod_succ_full [OF K_pos(1)])
qed

lemma popped_unread:
  assumes "popped m b n rest m' b'" "0 < n" "first_start m (blocks_of m b) = 0"
  shows "if int n mod kDefaultBlockBytes = 0 then IOBuffer_Empty m' b' = Inr True else walkable (m', b')"
  using assms next_start_unread [OF assms(2)] by (auto simp: popped_def Let_def)

lemma Finish_total:
  assumes w: "walkable (m, b)" and c: "contents m b = u @ rest" "length u = Suc i"
  shows "\<exists>m' b'. Finish m b req (buf_pos (m, b) i) = Inr (m', b', req\<lparr>rq_pr := done_status req,
      rq_starting_point := buf_pos (m, b) i, rq_matcher := HitCRFL, rq_on_hit := OnHitRequestLine\<rparr>) \<and>
    popped m b (Suc i) rest m' b'"
proof -
  have i: "i < length (contents m b)" using c by simp
  have "0 \<le> first_start m (blocks_of m b)"
    using walkableE [OF w] first_start_range by (metis (no_types, lifting))
  note cut = cut_length_overcut [OF this, of i]
  show ?thesis
    using PopFront_pos_total [OF w i refl] c unfolding cut
    by (fastforce simp: Finish_def done_status_def popped_def Let_def)
qed

end
