(* ===== verification/Http_Props.thy ===== *)
theory Http_Props
  imports Http_Steps
begin

text \<open>
  The properties of the request parser and of the packing functions: complete requests with
  and without a body, incomplete ones, malformed ones, resumption after more data, and what
  a parser makes of a request that this code packed.
\<close>

section \<open>The head of a request\<close>

definition enc_head :: "char list \<Rightarrow> char list \<Rightarrow> char list \<Rightarrow> (char list \<times> char list) list \<Rightarrow> char list" where
  "enc_head me uri ver hs = enc_request_line me uri ver @ [CR, LF] @ enc_headers hs"

definition head_ok :: "char list \<Rightarrow> char list \<Rightarrow> char list \<Rightarrow> (char list \<times> char list) list \<Rightarrow> bool" where
  "head_ok me uri ver hs \<longleftrightarrow> request_line_ok me uri ver \<and> (\<forall>e \<in> set hs. header_ok e)"

definition fresh_request :: "mem \<Rightarrow> iobuffer \<Rightarrow> http_request" where
  "fresh_request m b = blank_HttpRequest\<lparr>rq_starting_point := buf_pos (m, b) 0\<rparr>"

lemma new_HttpRequest_fresh: "walkable (m, b) \<Longrightarrow> new_HttpRequest m b = Inr (fresh_request m b)"
  by (simp add: new_HttpRequest_def HttpRequest_Reset_def Begin_pos fresh_request_def blank_HttpRequest_def)

text \<open>The parser at the blank line, after the request line and the headers.\<close>

definition at_blank ::
  "mem \<Rightarrow> iobuffer \<Rightarrow> char list \<Rightarrow> char list \<Rightarrow> char list \<Rightarrow> (char list \<times> char list) list \<Rightarrow> http_request" where
  "at_blank m b me uri ver hs = (fresh_request m b)\<lparr>rq_method := me, rq_uri := uri, rq_version := ver,
     rq_headers := headers_of hs, rq_on_hit := OnHitHeaders, rq_pr := CONTINUE,
     rq_starting_point := buf_pos (m, b) (length (enc_head me uri ver hs))\<rparr>"

lemma parse_head:
  assumes w: "walkable (m, b)" and ok: "head_ok me uri ver hs"
    and c: "contents m b = enc_head me uri ver hs @ y # rest" "y \<noteq> LF"
  shows "Http_Parse_loop (Suc (length hs + n)) m b (fresh_request m b) =
    Http_Parse_loop n m b (at_blank m b me uri ver hs)"
proof -
  let ?l = "enc_request_line me uri ver"
  obtain x r where x: "enc_headers hs @ y # rest = x # r" "x \<noteq> LF"
    using next_line [of hs y rest] ok c(2) by (auto simp: head_ok_def)
  have c1: "contents m b = [] @ ?l @ CR # LF # x # r" using c x(1) by (simp add: enc_head_def)
  have a: "advances m b (Suc (length [] + length ?l)) CONTINUE (length ?l + 2)"
    using advances_next [OF w, of "?l @ [CR]" x r] c1 x(2) by simp
  let ?r = "(fresh_request m b)\<lparr>rq_method := me, rq_uri := uri, rq_version := ver,
    rq_on_hit := OnHitHeaders, rq_pr := CONTINUE, rq_starting_point := buf_pos (m, b) (length ?l + 2)\<rparr>"
  have "parse_once m b (fresh_request m b) = Inr (True, m, b, ?r)"
    using on_request_line [OF w _ c1 a, of "fresh_request m b"] ok
    by (simp add: head_ok_def fresh_request_def blank_HttpRequest_def)
  then have "Http_Parse_loop (Suc (length hs + n)) m b (fresh_request m b) =
      Http_Parse_loop (length hs + n) m b ?r" by simp
  also have "\<dots> = Http_Parse_loop n m b (?r\<lparr>rq_headers := rq_headers ?r ++ headers_of hs,
         rq_starting_point := buf_pos (m, b) (length (?l @ [CR, LF]) + length (enc_headers hs))\<rparr>)"
    by (rule headers_loop [OF w c(2), of hs "?l @ [CR, LF]" rest])
      (use ok c in \<open>auto simp: head_ok_def enc_head_def fresh_request_def blank_HttpRequest_def\<close>)
  finally show ?thesis
    by (simp add: at_blank_def fresh_request_def blank_HttpRequest_def enc_head_def)
qed

lemma enc_headers_length: "length hs \<le> length (enc_headers hs)"
  by (induction hs) (simp_all add: enc_header_def)

lemma parse_fuel:
  assumes "walkable (m, b)" "contents m b = enc_head me uri ver hs @ rest"
  obtains n where "steps m = Suc (length hs + Suc (Suc (Suc n)))"
proof -
  have "length hs + 4 \<le> steps m"
    using walk_steps [OF assms(1)] assms(2) enc_headers_length [of hs]
    by (simp add: enc_head_def)
  then have "steps m = Suc (length hs + Suc (Suc (Suc (steps m - length hs - 4))))" by simp
  then show thesis by (rule that)
qed

lemma at_blank_simps [simp]:
  "rq_starting_point (at_blank m b me uri ver hs) = buf_pos (m, b) (length (enc_head me uri ver hs))"
  "rq_matcher (at_blank m b me uri ver hs) = HitCRFL" "rq_on_hit (at_blank m b me uri ver hs) = OnHitHeaders"
  "rq_pr (at_blank m b me uri ver hs) = CONTINUE" "rq_method (at_blank m b me uri ver hs) = me"
  "rq_uri (at_blank m b me uri ver hs) = uri" "rq_version (at_blank m b me uri ver hs) = ver"
  "rq_headers (at_blank m b me uri ver hs) = headers_of hs"
  by (simp_all add: at_blank_def fresh_request_def blank_HttpRequest_def)

definition stated_length :: "(char list \<times> char list) list \<Rightarrow> int" where
  "stated_length hs =
     (case headers_of hs ''Content-Length'' of None \<Rightarrow> 0 | Some v \<Rightarrow> StringToInt_value v)"

lemma ContentLength_at_blank: "ContentLength (at_blank m b me uri ver hs) = stated_length hs"
  by (simp add: ContentLength_def stated_length_def at_blank_def fresh_request_def blank_HttpRequest_def)

section \<open>Complete requests\<close>

lemma parse_plain_request:
  assumes "walkable (m, b)" "head_ok me uri ver hs"
    "contents m b = enc_head me uri ver hs @ CR # LF # rest" "stated_length hs = 0"
  shows "\<exists>m' b' req. bindR (new_HttpRequest m b) (Http_Parse m b) = Inr (m', b', req) \<and>
    rq_method req = me \<and> rq_uri req = uri \<and> rq_version req = ver \<and> rq_headers req = headers_of hs \<and>
    rq_content_length req = 0 \<and>
    rq_pr req = (if me \<in> {''GET'', ''get'', ''POST'', ''post''} then OK else UNIMPLEMENTED) \<and>
    popped m b (length (enc_head me uri ver hs) + 2) rest m' b'"
proof -
  let ?h = "enc_head me uri ver hs" and ?q = "at_blank m b me uri ver hs"
  obtain n where n: "steps m = Suc (length hs + Suc (Suc (Suc n)))"
    using parse_fuel [OF assms(1,3)] .
  have c: "contents m b = (?h @ [CR, LF]) @ rest" using assms(3) by simp
  obtain m' b' where F: "Finish m b (?q\<lparr>rq_content_length := 0\<rparr>) (buf_pos (m, b) (Suc (length ?h))) =
      Inr (m', b', ?q\<lparr>rq_content_length := 0, rq_pr := done_status (?q\<lparr>rq_content_length := 0\<rparr>),
        rq_starting_point := buf_pos (m, b) (Suc (length ?h)), rq_matcher := HitCRFL,
        rq_on_hit := OnHitRequestLine\<rparr>)"
    "popped m b (length ?h + 2) rest m' b'"
    using Finish_total [OF assms(1) c, of "Suc (length ?h)" "?q\<lparr>rq_content_length := 0\<rparr>"] by auto
  have st: "done_status (?q\<lparr>rq_content_length := 0\<rparr>) =
      (if me \<in> {''GET'', ''get'', ''POST'', ''post''} then OK else UNIMPLEMENTED)"
    by (auto simp: done_status_def IsGet_def IsPost_def)
  have "Http_Parse m b (fresh_request m b) = Http_Parse_loop (Suc (Suc (Suc n))) m b ?q"
    unfolding Http_Parse_def n by (rule parse_head [OF assms(1-3)]) simp
  also have "\<dots> = Inr (m', b', ?q\<lparr>rq_content_length := 0, rq_pr := done_status (?q\<lparr>rq_content_length := 0\<rparr>),
        rq_starting_point := buf_pos (m, b) (Suc (length ?h)), rq_matcher := HitCRFL,
        rq_on_hit := OnHitRequestLine\<rparr>)"
    using on_blank(1) [OF assms(1,3), of ?q] assms(4) F st by (simp add: ContentLength_at_blank)
  finally show ?thesis
    using new_HttpRequest_fresh [OF assms(1)] F(2) st by simp
qed

text \<open>
  C6. A request without a body: from a fresh request on a buffer the iterators can walk (full blocks,
  and a free byte in the last) that starts with a well-formed request line, any number of well-formed
  header lines and the blank line, \<open>Http::Parse\<close> returns \<open>OK\<close> (\<open>UNIMPLEMENTED\<close> for a method other than
  GET and POST) with exactly the stated method, URI, version and headers (the last of equal names wins,
  colons in a value kept). What stays in the buffer are the bytes behind the request, all of them when
  the first block starts at \<open>S = 0\<close> or the request reaches into a later block; when the request ends in
  a first block read up to \<open>S\<close> before, the next \<open>S\<close> bytes go with it, up to the end of the array. With
  \<open>S = 0\<close> the rest can be walked again, except when the request ends with the last byte of an array:
  then \<open>Empty()\<close> holds, whatever follows.
\<close>

theorem Parse_request_without_body:
  assumes "walkable (m, b)" "head_ok me uri ver hs"
    "contents m b = enc_head me uri ver hs @ CR # LF # rest" "stated_length hs = 0"
    "S = first_start m (blocks_of m b)" "n = length (enc_head me uri ver hs) + 2"
  shows "\<exists>m' b' req. bindR (new_HttpRequest m b) (Http_Parse m b) = Inr (m', b', req) \<and>
    rq_method req = me \<and> rq_uri req = uri \<and> rq_version req = ver \<and> rq_headers req = headers_of hs \<and>
    rq_content_length req = 0 \<and>
    rq_pr req = (if me \<in> {''GET'', ''get'', ''POST'', ''post''} then OK else UNIMPLEMENTED) \<and>
    contents m' b' = drop (if S + int n \<le> kDefaultBlockBytes then nat (min S (kDefaultBlockBytes - S - int n)) else 0) rest \<and>
    (S = 0 \<longrightarrow> (if int n mod kDefaultBlockBytes = 0 then IOBuffer_Empty m' b' = Inr True else walkable (m', b')))"
proof -
  have "0 < n" using assms(6) by simp
  moreover have "contents m' b' = drop (if S + int n \<le> kDefaultBlockBytes then nat (min S (kDefaultBlockBytes - S - int n)) else 0) rest"
    if "popped m b n rest m' b'" for m' b'
    using that assms(5) by (simp add: popped_def Let_def overcut_def)
  ultimately show ?thesis
    using parse_plain_request [OF assms(1-4)] popped_unread [of m b n rest] unfolding assms(6) [symmetric] assms(5) by blast
qed

definition sample_get :: "char list" where
  "sample_get = ''GET / HTTP/1.1'' @ [CR, LF] @ ''CallId:42'' @ [CR, LF] @ [CR, LF] @ ''rest''"

lemma one_text:
  assumes "int (length xs) < kDefaultBlockBytes"
  shows "walkable (one_mem xs, one_buf)" "first_start (one_mem xs) (blocks_of (one_mem xs) one_buf) = 0"
    "contents (one_mem xs) one_buf = xs"
  using one_walkable [OF assms] one_contents [of xs] assms by simp_all

lemma sample_get_short: "int (length sample_get) < kDefaultBlockBytes"
  by (simp add: sample_get_def kDefaultBlockBytes_def)

lemmas sample_get_ok = one_text [OF sample_get_short]

theorem Parse_request_without_body_witness:
  "\<exists>m' b' req. bindR (new_HttpRequest (one_mem sample_get) one_buf) (Http_Parse (one_mem sample_get) one_buf) =
      Inr (m', b', req) \<and> rq_method req = ''GET'' \<and> rq_headers req ''CallId'' = Some ''42'' \<and> rq_pr req = OK \<and>
      contents m' b' = ''rest''"
proof -
  have h: "enc_head ''GET'' ''/'' ''HTTP/1.1'' [(''CallId'', ''42'')] =
      ''GET / HTTP/1.1'' @ [CR, LF] @ ''CallId:42'' @ [CR, LF]"
    by (simp add: enc_head_def enc_request_line_def enc_header_def)
  have "head_ok ''GET'' ''/'' ''HTTP/1.1'' [(''CallId'', ''42'')]"
    by (simp add: head_ok_def request_line_ok_def header_ok_def CR_def LF_def)
  moreover have "contents (one_mem sample_get) one_buf =
      enc_head ''GET'' ''/'' ''HTTP/1.1'' [(''CallId'', ''42'')] @ CR # LF # ''rest''"
    unfolding h sample_get_ok(3) by (simp add: sample_get_def)
  moreover have "stated_length [(''CallId'', ''42'')] = 0" by (simp add: stated_length_def headers_of_def)
  ultimately show ?thesis
    using Parse_request_without_body [OF sample_get_ok(1), of "''GET''" "''/''" "''HTTP/1.1''" "[(''CallId'', ''42'')]" "''rest''" 0]
      sample_get_ok(2) by (auto simp: headers_of_def)
qed

text \<open>
  C7. A request with a body of the announced length that does not start with a line feed. From two
  bytes on the parser returns with \<open>content_begin\<close> at the first and \<open>content_end\<close> at the last byte of
  the body, and removes the request up to that byte - and, when it ends in a first block read up to
  \<open>S\<close> before, the next \<open>S\<close> bytes, up to the end of the array; with \<open>S = 0\<close> the rest can be walked again or,
  behind a request that ends with the last byte of an array, is out of reach because \<open>Empty()\<close> holds.
  A body of one byte is never complete: the parser asks for more data and removes nothing.
\<close>

theorem Parse_request_with_body:
  assumes "walkable (m, b)" "head_ok me uri ver hs"
    "contents m b = enc_head me uri ver hs @ CR # LF # body @ rest"
    "stated_length hs = int (length body)" "body \<noteq> []" "hd body \<noteq> LF"
    "S = first_start m (blocks_of m b)" "n = length (enc_head me uri ver hs) + 2 + length body"
  shows "\<exists>m' b' req. bindR (new_HttpRequest m b) (Http_Parse m b) = Inr (m', b', req) \<and>
    rq_method req = me \<and> rq_uri req = uri \<and> rq_version req = ver \<and> rq_headers req = headers_of hs \<and>
    (if length body = 1 then rq_pr req = NEED_MORE_DATA \<and> m' = m \<and> b' = b
     else rq_content_begin req = buf_pos (m, b) (length (enc_head me uri ver hs) + 2) \<and>
       rq_content_end req = buf_pos (m, b) (n - 1) \<and>
       rq_pr req = (if me \<in> {''GET'', ''get'', ''POST'', ''post''} then OK else UNIMPLEMENTED) \<and>
       contents m' b' = drop (if S + int n \<le> kDefaultBlockBytes then nat (min S (kDefaultBlockBytes - S - int n)) else 0) rest \<and>
       (S = 0 \<longrightarrow> (if int n mod kDefaultBlockBytes = 0 then IOBuffer_Empty m' b' = Inr True else walkable (m', b'))))"
proof -
  let ?h = "enc_head me uri ver hs" and ?q = "at_blank m b me uri ver hs"
  let ?s = "length ?h + 2" and ?e = "length ?h + 1 + length body"
  obtain f where n: "steps m = Suc (length hs + Suc (Suc (Suc f)))"
    using parse_fuel [OF assms(1,3)] .
  obtain x xs where x: "body = x # xs" "x \<noteq> LF" using assms(5,6) by (cases body) auto
  let ?r = "?q\<lparr>rq_content_length := int (length body), rq_matcher := HasCompleteContent,
        rq_on_hit := OnHitContent, rq_pr := CONTINUE, rq_starting_point := buf_pos (m, b) ?s\<rparr>"
  let ?f = "?r\<lparr>rq_content_begin := buf_pos (m, b) ?s, rq_content_end := buf_pos (m, b) ?e\<rparr>"
  have o1: "parse_once m b ?q = Inr (True, m, b, ?r)"
    using on_blank(2) [OF assms(1,3), of ?q x "xs @ rest"] assms(4) x by (simp add: ContentLength_at_blank)
  have P: "Http_Parse m b (fresh_request m b) = Http_Parse_loop (Suc (Suc (Suc f))) m b ?q"
    unfolding Http_Parse_def n by (rule parse_head [OF assms(1-3)]) simp
  have le: "?s \<le> length (contents m b)" "?s + length body \<le> length (contents m b)" "?s + length body - 1 = ?e"
    using assms(3,5) by simp_all
  show ?thesis
  proof (cases "length body = 1")
    case True
    have "parse_once m b ?r = Inr (False, m, b, ?r\<lparr>rq_pr := NEED_MORE_DATA\<rparr>)"
      by (rule parse_once_body(2) [OF assms(1) le(1)]) (use True in simp_all)
    then show ?thesis using P o1 True new_HttpRequest_fresh [OF assms(1)] by simp
  next
    case False
    then have two: "2 \<le> length body" using assms(5) by (cases body; cases "tl body") auto
    have c: "contents m b = (?h @ CR # LF # body) @ rest" "length (?h @ CR # LF # body) = Suc ?e"
      using assms(3) by simp_all
    obtain m' b' where F: "Finish m b ?f (buf_pos (m, b) ?e) = Inr (m', b', ?f\<lparr>rq_pr := done_status ?f,
          rq_starting_point := buf_pos (m, b) ?e, rq_matcher := HitCRFL, rq_on_hit := OnHitRequestLine\<rparr>)"
      "popped m b (Suc ?e) rest m' b'"
      using Finish_total [OF assms(1) c, of ?f] by blast
    have st: "done_status ?f = (if me \<in> {''GET'', ''get'', ''POST'', ''post''} then OK else UNIMPLEMENTED)"
      by (auto simp: done_status_def IsGet_def IsPost_def)
    have o2: "parse_once m b ?r = Inr (True, m', b', ?f\<lparr>rq_pr := done_status ?f,
          rq_starting_point := buf_pos (m, b) ?e, rq_matcher := HitCRFL, rq_on_hit := OnHitRequestLine\<rparr>)"
      using parse_once_body(1) [OF assms(1) le(1), of ?r "length body"] le(2) two F(1)
      unfolding le(3) by (simp add: do_OnHitContent_def ForwardStartingPoint_def)
    have "Suc ?e = n" "?e = n - 1" using assms(8) by simp_all
    then have "contents m' b' = drop (if S + int n \<le> kDefaultBlockBytes then nat (min S (kDefaultBlockBytes - S - int n)) else 0) rest"
      "?e = n - 1"
      using F(2) assms(7) by (simp_all add: popped_def Let_def overcut_def)
    moreover have "S = 0 \<longrightarrow> (if int n mod kDefaultBlockBytes = 0 then IOBuffer_Empty m' b' = Inr True else walkable (m', b'))"
      using popped_unread [OF F(2)] assms(7) unfolding \<open>Suc ?e = n\<close> using assms(8) by simp
    moreover have "Http_Parse m b (fresh_request m b) = Inr (m', b', ?f\<lparr>rq_pr := done_status ?f,
          rq_starting_point := buf_pos (m, b) ?e, rq_matcher := HitCRFL, rq_on_hit := OnHitRequestLine\<rparr>)"
      using P o1 o2 st by simp
    ultimately show ?thesis
      using new_HttpRequest_fresh [OF assms(1)] st False by simp
  qed
qed

definition sample_post :: "char list" where
  "sample_post = ''POST /x HTTP/1.1'' @ [CR, LF] @ ''Content-Length:5'' @ [CR, LF] @ [CR, LF] @ ''helloGET''"

lemma sample_post_short: "int (length sample_post) < kDefaultBlockBytes"
  by (simp add: sample_post_def kDefaultBlockBytes_def)

lemmas sample_post_ok = one_text [OF sample_post_short]

lemma stated_length_5: "stated_length [(''Content-Length'', ''5'')] = 5"
proof -
  have "dec_int 5 = ''5''" by (simp add: dec_int_def dec_nat.simps char_of_def bit_0)
  then show ?thesis
    using StringToInt_dec [of 5] by (simp add: stated_length_def headers_of_def StringToInt_value_def)
qed

theorem Parse_request_with_body_witness:
  "\<exists>m' b' req. bindR (new_HttpRequest (one_mem sample_post) one_buf) (Http_Parse (one_mem sample_post) one_buf) =
      Inr (m', b', req) \<and> rq_method req = ''POST'' \<and> rq_pr req = OK \<and>
      rq_content_begin req = buf_pos (one_mem sample_post, one_buf) 38 \<and>
      rq_content_end req = buf_pos (one_mem sample_post, one_buf) 42 \<and> contents m' b' = ''GET''"
proof -
  have h: "enc_head ''POST'' ''/x'' ''HTTP/1.1'' [(''Content-Length'', ''5'')] =
      ''POST /x HTTP/1.1'' @ [CR, LF] @ ''Content-Length:5'' @ [CR, LF]"
    by (simp add: enc_head_def enc_request_line_def enc_header_def)
  have "head_ok ''POST'' ''/x'' ''HTTP/1.1'' [(''Content-Length'', ''5'')]"
    by (simp add: head_ok_def request_line_ok_def header_ok_def CR_def LF_def)
  moreover have "contents (one_mem sample_post) one_buf =
      enc_head ''POST'' ''/x'' ''HTTP/1.1'' [(''Content-Length'', ''5'')] @ CR # LF # ''hello'' @ ''GET''"
    unfolding h sample_post_ok(3) by (simp add: sample_post_def)
  moreover have "hd ''hello'' \<noteq> LF" by (simp add: LF_def)
  ultimately show ?thesis
    using Parse_request_with_body [OF sample_post_ok(1), of "''POST''" "''/x''" "''HTTP/1.1''"
        "[(''Content-Length'', ''5'')]" "''hello''" "''GET''" 0 43] stated_length_5 sample_post_ok(2)
    by (auto simp: h kDefaultBlockBytes_def eval_nat_numeral)
qed

section \<open>Incomplete requests\<close>

lemma Parse_loop_result:
  "Parse_loop n m matcher on_hit on_miss e pre cur = Inr (hit, st) \<Longrightarrow>
    (\<exists>p c. on_hit p c = Inr st) \<or> \<not> hit \<and> (\<exists>p. on_miss p = Inr st)"
proof (induction n arbitrary: pre cur)
  case (Suc n)
  show ?case
  proof (cases "cur = e")
    case True
    then show ?thesis using Suc.prems by (auto simp: bindR_eq_Inr)
  next
    case False
    then obtain h where h: "(if pre \<noteq> kNull then matcher pre cur else Inr False) = Inr h"
      using Suc.prems by (cases "if pre \<noteq> kNull then matcher pre cur else Inr False") auto
    then show ?thesis
      using Suc.prems False Suc.IH by (cases h) (auto simp: bindR_eq_Inr)
  qed
qed simp

lemma run_on_hit_keeps:
  assumes "run_on_hit m b req p c = Inr (m', b', req')" "rq_pr req' \<notin> {OK, UNIMPLEMENTED}"
  shows "m' = m \<and> b' = b"
proof -
  have F: "rq_pr q' \<in> {OK, UNIMPLEMENTED}" if "Finish m b q c = Inr (m', b', q')" for q q'
    using that by (auto simp: Finish_def bindR_eq_Inr split: if_splits)
  show ?thesis
    using assms F
    by (auto simp: run_on_hit_def do_OnHitRequestLine_def do_OnHitHeaders_def do_OnHitContent_def Let_def
        bindR_eq_Inr CHECK_eq_Inr split: hit_callback.splits if_splits)
qed

lemma parse_once_keeps:
  assumes "parse_once m b req = Inr (hit, m', b', req')" "rq_pr req' \<notin> {OK, UNIMPLEMENTED}"
  shows "m' = m \<and> b' = b"
  using assms run_on_hit_keeps
  by (auto simp: parse_once_def IOBuffer_Parse_def OnMiss_def bindR_eq_Inr dest!: Parse_loop_result)

definition no_crlf :: "char list \<Rightarrow> bool" where
  "no_crlf p \<longleftrightarrow> (\<forall>i. Suc i < length p \<longrightarrow> \<not> crlf_at p i)"

lemma parse_partial_line:
  assumes w: "walkable (m, b)" and c: "contents m b = u @ p" "no_crlf p"
    and req: "rq_starting_point req = buf_pos (m, b) (length u)" "rq_matcher req = HitCRFL"
  shows "parse_once m b req = Inr (False, m, b, req\<lparr>rq_pr := NEED_MORE_DATA\<rparr>)"
proof (rule parse_once_miss [OF w _ _ req])
  show "length u \<le> length (contents m b)" using c(1) by simp
  fix i assume i: "length u \<le> i" "Suc i < length (contents m b)"
  then have "Suc (i - length u) < length p" "contents m b ! i = p ! (i - length u)"
    "contents m b ! Suc i = p ! Suc (i - length u)"
    using c(1) by (auto simp: nth_append Suc_diff_le)
  then show "\<not> crlf_at (contents m b) i" using c(2) by (auto simp: no_crlf_def)
qed

lemma Parse_no_crlf:
  assumes "walkable (m, b)" "no_crlf (contents m b)"
  shows "Http_Parse m b (fresh_request m b) = Inr (m, b, (fresh_request m b)\<lparr>rq_pr := NEED_MORE_DATA\<rparr>)"
proof -
  obtain n where n: "steps m = Suc n" using walk_steps [OF assms(1)] by (cases "steps m") auto
  have "parse_once m b (fresh_request m b) = Inr (False, m, b, (fresh_request m b)\<lparr>rq_pr := NEED_MORE_DATA\<rparr>)"
    by (rule parse_partial_line [OF assms(1), of "[]"])
      (use assms(2) in \<open>simp_all add: fresh_request_def blank_HttpRequest_def\<close>)
  then show ?thesis using n by (simp add: Http_Parse_def)
qed

lemma sample_cut: "walkable (one_mem ''GET /'', one_buf)" "no_crlf (contents (one_mem ''GET /'') one_buf)"
proof -
  have l: "int (length ''GET /'') < kDefaultBlockBytes" by (simp add: kDefaultBlockBytes_def)
  show "walkable (one_mem ''GET /'', one_buf)" by (rule one_text(1) [OF l])
  show "no_crlf (contents (one_mem ''GET /'') one_buf)"
    unfolding one_text(3) [OF l] by (auto simp: no_crlf_def less_Suc_eq CR_def LF_def)
qed

text \<open>
  Parsing never consumes an incomplete request: whenever \<open>Http::Parse\<close> returns with a
  status other than \<open>OK\<close> and \<open>UNIMPLEMENTED\<close>, store and buffer are untouched, for every
  state of the request and of the buffer.
\<close>

theorem Parse_keeps_incomplete:
  assumes "Http_Parse m b req = Inr (m', b', req')" "rq_pr req' \<notin> {OK, UNIMPLEMENTED}"
  shows "m' = m \<and> b' = b"
proof -
  have "m' = m \<and> b' = b" if "Http_Parse_loop n m b req = Inr (m', b', req')" for n req
    using that assms(2)
  proof (induction n arbitrary: req)
    case (Suc n)
    then obtain hit m1 b1 req1 where o: "parse_once m b req = Inr (hit, m1, b1, req1)"
      by (auto simp: bindR_eq_Inr)
    then show ?case
      using Suc parse_once_keeps [OF o] by (auto split: if_splits)
  qed simp
  then show ?thesis using assms(1) by (simp add: Http_Parse_def)
qed

theorem Parse_keeps_incomplete_witness:
  "\<exists>m' b' req'. Http_Parse (one_mem ''GET /'') one_buf (fresh_request (one_mem ''GET /'') one_buf) =
      Inr (m', b', req') \<and> m' = one_mem ''GET /'' \<and> b' = one_buf"
  using Parse_keeps_incomplete [OF Parse_no_crlf [OF sample_cut]] Parse_no_crlf [OF sample_cut] by simp

text \<open>
  A request that stops inside its request line, or inside the line after any number of
  complete header lines, is reported as \<open>NEED_MORE_DATA\<close>; nothing is consumed, and the
  request is left at the beginning of the incomplete line.
\<close>

theorem Parse_incomplete_line:
  assumes "walkable (m, b)"
    "no_crlf (contents m b) \<or>
     head_ok me uri ver hs \<and> contents m b = enc_head me uri ver hs @ p \<and> no_crlf p \<and> p \<noteq> [] \<and> hd p \<noteq> LF"
  shows "\<exists>req. Http_Parse m b (fresh_request m b) = Inr (m, b, req) \<and> rq_pr req = NEED_MORE_DATA \<and>
    rq_matcher req = HitCRFL \<and>
    (\<not> no_crlf (contents m b) \<longrightarrow> rq_on_hit req = OnHitHeaders \<and>
       rq_starting_point req = buf_pos (m, b) (length (enc_head me uri ver hs)))"
proof (cases "no_crlf (contents m b)")
  case True
  then show ?thesis
    using Parse_no_crlf [OF assms(1)] by (simp add: fresh_request_def blank_HttpRequest_def)
next
  case False
  then obtain y rest where y: "p = y # rest" "y \<noteq> LF" using assms(2) by (cases p) auto
  then have c: "contents m b = enc_head me uri ver hs @ y # rest" "head_ok me uri ver hs" "no_crlf p"
    using assms(2) False by auto
  obtain n where n: "steps m = Suc (length hs + Suc (Suc (Suc n)))"
    using parse_fuel [OF assms(1) c(1)] .
  have "Http_Parse m b (fresh_request m b) = Http_Parse_loop (Suc (Suc (Suc n))) m b (at_blank m b me uri ver hs)"
    unfolding Http_Parse_def n by (rule parse_head [OF assms(1) c(2,1) y(2)])
  moreover have "parse_once m b (at_blank m b me uri ver hs) =
      Inr (False, m, b, (at_blank m b me uri ver hs)\<lparr>rq_pr := NEED_MORE_DATA\<rparr>)"
    by (rule parse_partial_line [OF assms(1) _ c(3)]) (use c(1) y(1) in simp_all)
  ultimately show ?thesis by simp
qed

theorem Parse_incomplete_line_witness:
  "\<exists>req. Http_Parse (one_mem ''GET /'') one_buf (fresh_request (one_mem ''GET /'') one_buf) =
      Inr (one_mem ''GET /'', one_buf, req) \<and> rq_pr req = NEED_MORE_DATA"
  using Parse_incomplete_line [OF sample_cut(1)] sample_cut(2) by blast

text \<open>
  A request whose announced body has not arrived in full, or whose length is 1 or negative,
  never completes: the parser reports \<open>NEED_MORE_DATA\<close> however many bytes follow the head
  (with a length of 1 even when the byte is there).
\<close>

theorem Parse_incomplete_body:
  assumes "walkable (m, b)" "head_ok me uri ver hs"
    "contents m b = enc_head me uri ver hs @ CR # LF # body" "body \<noteq> []" "hd body \<noteq> LF"
    "stated_length hs \<noteq> 0" "stated_length hs < 2 \<or> int (length body) < stated_length hs"
  shows "\<exists>req. Http_Parse m b (fresh_request m b) = Inr (m, b, req) \<and> rq_pr req = NEED_MORE_DATA \<and>
    rq_starting_point req = buf_pos (m, b) (length (enc_head me uri ver hs) + 2)"
proof -
  let ?h = "enc_head me uri ver hs" and ?q = "at_blank m b me uri ver hs"
  obtain n where n: "steps m = Suc (length hs + Suc (Suc (Suc n)))"
    using parse_fuel [OF assms(1,3)] .
  obtain x xs where x: "body = x # xs" "x \<noteq> LF" using assms(4,5) by (cases body) auto
  let ?r = "?q\<lparr>rq_content_length := stated_length hs, rq_matcher := HasCompleteContent,
        rq_on_hit := OnHitContent, rq_pr := CONTINUE, rq_starting_point := buf_pos (m, b) (length ?h + 2)\<rparr>"
  have o1: "parse_once m b ?q = Inr (True, m, b, ?r)"
    using on_blank(2) [OF assms(1,3), of ?q x xs] assms(6) x by (simp add: ContentLength_at_blank)
  have "length ?h + 2 \<le> length (contents m b)" using assms(3) by simp
  then have o2: "parse_once m b ?r = Inr (False, m, b, ?r\<lparr>rq_pr := NEED_MORE_DATA\<rparr>)"
    by (rule parse_once_body(2) [OF assms(1)]) (use assms(3,7) in auto)
  have "Http_Parse m b (fresh_request m b) = Http_Parse_loop (Suc (Suc (Suc n))) m b ?q"
    unfolding Http_Parse_def n by (rule parse_head [OF assms(1-3)]) simp
  then show ?thesis using o1 o2 by simp
qed

theorem Parse_incomplete_body_witness:
  "\<exists>req. Http_Parse (one_mem (''POST / x'' @ [CR, LF] @ ''Content-Length:5'' @ [CR, LF, CR, LF] @ ''hell'')) one_buf
      (fresh_request (one_mem (''POST / x'' @ [CR, LF] @ ''Content-Length:5'' @ [CR, LF, CR, LF] @ ''hell'')) one_buf) =
    Inr (one_mem (''POST / x'' @ [CR, LF] @ ''Content-Length:5'' @ [CR, LF, CR, LF] @ ''hell''), one_buf, req) \<and>
    rq_pr req = NEED_MORE_DATA"
proof -
  let ?w = "''POST / x'' @ [CR, LF] @ ''Content-Length:5'' @ [CR, LF, CR, LF] @ ''hell''"
  have l: "int (length ?w) < kDefaultBlockBytes" by (simp add: kDefaultBlockBytes_def)
  have "head_ok ''POST'' ''/'' ''x'' [(''Content-Length'', ''5'')]"
    by (simp add: head_ok_def request_line_ok_def header_ok_def CR_def LF_def)
  moreover have "contents (one_mem ?w) one_buf = enc_head ''POST'' ''/'' ''x'' [(''Content-Length'', ''5'')] @ CR # LF # ''hell''"
    unfolding one_text(3) [OF l] by (simp add: enc_head_def enc_request_line_def enc_header_def)
  moreover have "hd ''hell'' \<noteq> LF" by (simp add: LF_def)
  ultimately show ?thesis
    using Parse_incomplete_body [OF one_text(1) [OF l]] stated_length_5 by fastforce
qed

section \<open>Resuming a request\<close>

text \<open>
  C26. Resumption fails: parsing again with a request that was left inside a header line with
  \<open>NEED_MORE_DATA\<close> (as \<open>Parse_incomplete_line\<close> shows it is) dies in the \<open>CHECK_EQ\<close> of \<open>Skip\<close> as soon as the
  rest of the line has arrived, because the callback skips line feeds from the first
  character of the line.
\<close>

theorem Parse_resume_header_aborts:
  assumes "walkable (m, b)" "contents m b = u @ line @ CR # LF # rest" "CR \<notin> set line" "hd (line @ [CR]) \<noteq> LF"
    "rq_starting_point req = buf_pos (m, b) (length u)" "rq_matcher req = HitCRFL"
    "rq_on_hit req = OnHitHeaders" "rq_pr req = NEED_MORE_DATA"
  shows "Http_Parse m b req = Inl CheckFail"
proof -
  obtain n where n: "steps m = Suc n" using walk_steps [OF assms(1)] by (cases "steps m") auto
  have "contents m b ! length u = hd (line @ [CR])"
    using assms(2) by (cases line) simp_all
  then have "Skip m b (buf_pos (m, b) (length u)) LF = Inl CheckFail"
    using Skip_pos [OF assms(1), of "length u" LF] assms(2,4) by simp
  then have "parse_once m b req = Inl CheckFail"
    using parse_once_crlf [OF assms(1-3,5,6)] assms(5,7,8)
    by (simp add: run_on_hit_def do_OnHitHeaders_def ForwardStartingPoint_def)
  then show ?thesis using n by (simp add: Http_Parse_def)
qed

definition resumed_request :: "mem \<Rightarrow> iobuffer \<Rightarrow> nat \<Rightarrow> http_request" where
  "resumed_request m b k = (fresh_request m b)\<lparr>rq_on_hit := OnHitHeaders, rq_pr := NEED_MORE_DATA,
     rq_starting_point := buf_pos (m, b) k\<rparr>"

theorem Parse_resume_header_aborts_witness:
  "Http_Parse (one_mem (''a b c'' @ [CR, LF] @ ''k:v'' @ [CR, LF])) one_buf
     (resumed_request (one_mem (''a b c'' @ [CR, LF] @ ''k:v'' @ [CR, LF])) one_buf 7) = Inl CheckFail"
proof -
  let ?w = "''a b c'' @ [CR, LF] @ ''k:v'' @ [CR, LF]"
  have l: "int (length ?w) < kDefaultBlockBytes" by (simp add: kDefaultBlockBytes_def)
  have c: "contents (one_mem ?w) one_buf = (''a b c'' @ [CR, LF]) @ ''k:v'' @ CR # LF # []"
    unfolding one_text(3) [OF l] by simp
  show ?thesis
    by (rule Parse_resume_header_aborts [OF one_text(1) [OF l] c])
      (simp_all add: resumed_request_def fresh_request_def blank_HttpRequest_def CR_def LF_def eval_nat_numeral)
qed

text \<open>
  A caller that keeps the request object between two calls gets a body that arrives after its head
  cut short: when the blank line was the last thing in the buffer, the starting point stays on its
  line feed (\<open>parse_late_head\<close>), the matcher counts that byte as the first of the body, and the request
  ends one byte early. The server makes a new request object for every call and is not affected.
\<close>

theorem Parse_late_body_loses_byte:
  assumes "walkable (m, b)" "first_start m (blocks_of m b) = 0"
    "contents m b = u @ LF # body @ rest" "2 \<le> length body" "hd body \<noteq> LF"
    "rq_starting_point req = buf_pos (m, b) (length u)" "rq_content_length req = int (length body)"
    "rq_matcher req = HasCompleteContent" "rq_on_hit req = OnHitContent" "rq_pr req = NEED_MORE_DATA"
  shows "\<exists>m' b' req'. Http_Parse m b req = Inr (m', b', req') \<and>
    rq_pr req' = done_status req \<and>
    rq_content_begin req' = buf_pos (m, b) (length u + 1) \<and>
    rq_content_end req' = buf_pos (m, b) (length u + length body - 1) \<and>
    contents m' b' = last body # rest"
proof -
  let ?s = "length u" and ?L = "length body"
  obtain n where n: "steps m = Suc n" using walk_steps [OF assms(1)] by (cases "steps m") auto
  obtain x xs where x: "body = x # xs" "x \<noteq> LF" using assms(4,5) by (cases body) auto
  have nth: "contents m b ! ?s = LF" "contents m b ! Suc ?s = x" using assms(3) x by (simp_all add: nth_append)
  have rl: "run_len LF (drop ?s (contents m b)) = 1"
    using assms(3) x run_len_stop [of "x # xs @ rest" LF] by simp
  have fw: "ForwardStartingPoint m b req = Inr (req\<lparr>rq_starting_point := buf_pos (m, b) (Suc ?s)\<rparr>)"
    using Skip_pos [OF assms(1), of ?s LF] nth rl assms(3,6,10) x assms(1)
    by (simp add: ForwardStartingPoint_def it_deref_pos)
  let ?f = "req\<lparr>rq_starting_point := buf_pos (m, b) (Suc ?s), rq_content_begin := buf_pos (m, b) (Suc ?s),
      rq_content_end := buf_pos (m, b) (?s + ?L - 1)\<rparr>"
  have l: "?s + ?L - 1 < length (contents m b)" "Suc (?s + ?L - 1) = ?s + ?L" "?s \<le> length (contents m b)"
    "?s + ?L \<le> length (contents m b)"
    using assms(3,4) by auto
  have "body = butlast body @ [last body]" using x by simp
  then have c: "contents m b = (u @ LF # butlast body) @ last body # rest" "length (u @ LF # butlast body) = Suc (?s + ?L - 1)"
    using assms(3) x by auto
  obtain m' b' where F: "Finish m b ?f (buf_pos (m, b) (?s + ?L - 1)) = Inr (m', b', ?f\<lparr>rq_pr := done_status ?f,
        rq_starting_point := buf_pos (m, b) (?s + ?L - 1), rq_matcher := HitCRFL, rq_on_hit := OnHitRequestLine\<rparr>)"
    "popped m b (?s + ?L) (last body # rest) m' b'"
    using Finish_total [OF assms(1) c, of ?f] unfolding l(2) by blast
  have st: "done_status ?f = done_status req" by (simp add: done_status_def IsGet_def IsPost_def)
  have nst: "done_status req \<in> {OK, UNIMPLEMENTED}" by (simp add: done_status_def)
  have "parse_once m b req = Inr (True, m', b', ?f\<lparr>rq_pr := done_status ?f,
        rq_starting_point := buf_pos (m, b) (?s + ?L - 1), rq_matcher := HitCRFL, rq_on_hit := OnHitRequestLine\<rparr>)"
    using parse_once_body(1) [OF assms(1) l(3) assms(6,8,9,4) l(4) assms(7)] F(1) fw
    by (simp add: do_OnHitContent_def)
  then have "Http_Parse m b req = Inr (m', b', ?f\<lparr>rq_pr := done_status req,
        rq_starting_point := buf_pos (m, b) (?s + ?L - 1), rq_matcher := HitCRFL, rq_on_hit := OnHitRequestLine\<rparr>)"
    using n nst st by (auto simp: Http_Parse_def)
  moreover have "contents m' b' = last body # rest"
    using F(2) assms(2) by (simp add: popped_def Let_def)
  ultimately show ?thesis by simp
qed

definition late_request :: "mem \<Rightarrow> iobuffer \<Rightarrow> nat \<Rightarrow> http_request" where
  "late_request m b k = (fresh_request m b)\<lparr>rq_method := ''POST'', rq_content_length := 5,
     rq_matcher := HasCompleteContent, rq_on_hit := OnHitContent, rq_pr := NEED_MORE_DATA,
     rq_starting_point := buf_pos (m, b) k\<rparr>"

theorem Parse_late_body_loses_byte_witness:
  "\<exists>m' b' req'. Http_Parse (one_mem ([CR, LF] @ ''hello'')) one_buf
      (late_request (one_mem ([CR, LF] @ ''hello'')) one_buf 1) = Inr (m', b', req') \<and>
    rq_pr req' = OK \<and> contents m' b' = ''o''"
proof -
  let ?w = "[CR, LF] @ ''hello''"
  have l: "int (length ?w) < kDefaultBlockBytes" by (simp add: kDefaultBlockBytes_def)
  have c: "contents (one_mem ?w) one_buf = [CR] @ LF # ''hello'' @ []"
    unfolding one_text(3) [OF l] by simp
  show ?thesis
    using Parse_late_body_loses_byte [OF one_text(1,2) [OF l] c, of "late_request (one_mem ?w) one_buf 1"]
    by (auto simp: late_request_def fresh_request_def blank_HttpRequest_def LF_def done_status_def
        IsPost_def kDefaultBlockBytes_def)
qed

section \<open>Malformed requests\<close>

text \<open>
  A request line that is not three fields long brings the whole server down: the
  \<open>CHECK_EQ\<close> in \<open>OnHitRequestLine\<close> fails on data the peer chooses.
\<close>

theorem Parse_bad_request_line_aborts:
  assumes "walkable (m, b)" "contents m b = line @ CR # LF # rest" "CR \<notin> set line"
    "length (SplitString line (CHR '' '') []) \<noteq> 3"
  shows "Http_Parse m b (fresh_request m b) = Inl CheckFail"
proof -
  obtain n where n: "steps m = Suc n" using walk_steps [OF assms(1)] by (cases "steps m") auto
  have c: "contents m b = [] @ line @ CR # LF # rest" using assms(2) by simp
  have sl: "AsString m b (buf_pos (m, b) 0) (buf_pos (m, b) (length line)) = Inr line"
    using slice_between [OF c assms(1)] by simp
  have "parse_once m b (fresh_request m b) = Inl CheckFail"
    using parse_once_crlf [OF assms(1) c assms(3), of "fresh_request m b"] sl assms(4)
    by (simp add: run_on_hit_def do_OnHitRequestLine_def Let_def fresh_request_def blank_HttpRequest_def)
  then show ?thesis using n by (simp add: Http_Parse_def)
qed

theorem Parse_bad_request_line_aborts_witness:
  "Http_Parse (one_mem (''GET /'' @ [CR, LF])) one_buf (fresh_request (one_mem (''GET /'' @ [CR, LF])) one_buf) =
    Inl CheckFail"
proof -
  let ?w = "''GET /'' @ [CR, LF]"
  have l: "int (length ?w) < kDefaultBlockBytes" by (simp add: kDefaultBlockBytes_def)
  have c: "contents (one_mem ?w) one_buf = ''GET /'' @ CR # LF # []"
    unfolding one_text(3) [OF l] by simp
  show ?thesis
    by (rule Parse_bad_request_line_aborts [OF one_text(1) [OF l] c])
      (simp_all add: CR_def SplitString_def c_str_def)
qed

section \<open>Packed requests and responses\<close>

lemma append_headers_text:
  "\<forall>e \<in> set es. length (header_line e) \<le> 33000000 \<Longrightarrow>
    append_headers es buf = Inr (buf @ concat (map header_line es))"
  by (induction es arbitrary: buf) (simp_all add: StringAppendF_short)

lemma PackRequest_text:
  "\<forall>e \<in> set es. length (header_line e) \<le> 33000000 \<Longrightarrow>
    PackRequest es req [] = Inr (''GET / HTTP/1.1'' @ [CR, LF] @ concat (map header_line es))"
  by (simp add: PackRequest_def StringAppendF_short append_headers_text)

lemma parse_bare_head:
  assumes w: "walkable (m, b)" and ok: "head_ok me uri ver hs" and c: "contents m b = enc_head me uri ver hs"
  shows "\<exists>req. Http_Parse m b (fresh_request m b) = Inr (m, b, req) \<and> rq_pr req = NEED_MORE_DATA \<and>
    rq_headers req = headers_of hs"
proof (cases hs rule: rev_cases)
  case Nil
  let ?l = "enc_request_line me uri ver"
  obtain n where n: "steps m = Suc n" using walk_steps [OF w] by (cases "steps m") auto
  have c1: "contents m b = [] @ ?l @ CR # LF # []" using c Nil by (simp add: enc_head_def)
  have a: "advances m b (Suc (length [] + length ?l)) NEED_MORE_DATA (Suc (length ?l))"
    using advances_end [OF w, of "?l @ [CR]"] c1 by simp
  have "request_line_ok me uri ver" using ok by (simp add: head_ok_def)
  from on_request_line [OF w this c1 a, of "fresh_request m b"] show ?thesis
    using n Nil by (simp add: Http_Parse_def fresh_request_def blank_HttpRequest_def headers_of_def)
next
  case (snoc hs' e)
  obtain k v where e: "e = (k, v)" by fastforce
  have ok': "head_ok me uri ver hs'" "header_ok (k, v)" using ok snoc e by (auto simp: head_ok_def)
  let ?h = "enc_head me uri ver hs'"
  have c1: "contents m b = ?h @ enc_header (k, v) @ []"
    using c snoc e by (simp add: enc_head_def enc_headers_def)
  obtain y rest where y: "enc_header (k, v) = y # rest" "y \<noteq> LF"
    using next_line [of "[(k, v)]" CR "[]"] ok'(2) by (auto simp: enc_header_def append_eq_Cons_conv)
  have c2: "contents m b = ?h @ y # rest" using c1 y(1) by simp
  obtain n where n: "steps m = Suc (length hs' + Suc (Suc (Suc n)))" using parse_fuel [OF w c2] .
  have a: "advances m b (length ?h + length k + length v + 2) NEED_MORE_DATA (length ?h + length k + length v + 2)"
    using advances_end [OF w, of "?h @ k @ CHR '':'' # v @ [CR]"] c1 by (simp add: enc_header_def add.assoc)
  have "Http_Parse m b (fresh_request m b) = Http_Parse_loop (Suc (Suc (Suc n))) m b (at_blank m b me uri ver hs')"
    unfolding Http_Parse_def n by (rule parse_head [OF w ok'(1) c2 y(2)])
  then show ?thesis
    using on_header [OF w ok'(2) c1 a, of "at_blank m b me uri ver hs'"] snoc e
    by (simp add: headers_of_def map_of_append)
qed


definition sample_packed :: "char list" where
  "sample_packed = ''GET / HTTP/1.1'' @ [CR, LF] @ ''CallId: 42'' @ [CR, LF]"

lemma sample_packed_short: "int (length sample_packed) < kDefaultBlockBytes"
  by (simp add: sample_packed_def kDefaultBlockBytes_def)


text \<open>
  \<open>GetCallId\<close> reads the call id a peer writes without a blank, for every id up to
  \<open>2^63 - 1\<close>, and refuses every value that begins with a blank - the form that
  \<open>PackRequest\<close> itself produces; a refused or missing header is reported as \<open>false\<close>.
\<close>

theorem GetCallId_format:
  "(n < 2 ^ 63 \<longrightarrow> rq_headers req ''CallId'' = Some (dec_nat n) \<longrightarrow> GetCallId req c = (of_nat n, True)) \<and>
   (rq_headers req ''CallId'' = Some (CHR '' '' # v) \<longrightarrow> \<not> snd (GetCallId req c)) \<and>
   (rq_headers req ''CallId'' = None \<longrightarrow> GetCallId req c = (c, False))"
proof -
  have "GetCallId req c = (of_nat n, True)"
    if "n < 2 ^ 63" "rq_headers req ''CallId'' = Some (dec_nat n)"
  proof -
    have "dec_nat n = dec_int (int n)" by (simp add: dec_int_def)
    moreover have "int n \<le> 2 ^ 63 - 1"
      using that(1) of_nat_less_iff [of n "2 ^ 63", where ?'a = int] by simp
    ultimately show ?thesis
      using that(2) StringToInt64_dec [of "int n"] by (simp add: GetCallId_def)
  qed
  moreover have "\<not> snd (GetCallId req c)" if "rq_headers req ''CallId'' = Some (CHR '' '' # v)"
    using that by (simp add: GetCallId_def StringToInt64_defs StringToNumber_def valid_func_def isspace_def
        split: prod.splits)
  ultimately show ?thesis by (simp add: GetCallId_def)
qed

theorem GetCallId_format_witness:
  "GetCallId (blank_HttpRequest\<lparr>rq_headers := [''CallId'' \<mapsto> dec_nat 42]\<rparr>) 0 = (42, True)"
  using GetCallId_format [of 42 "blank_HttpRequest\<lparr>rq_headers := [''CallId'' \<mapsto> dec_nat 42]\<rparr>" 0] by simp

text \<open>
  C28. An error response is well-formed: for a message without terminators, \<open>BuildResponse\<close>
  sets \<open>Content-Length\<close> to the exact length of the content (message and line feed), whatever
  the order in which the hash map lists its headers the packed text is a status line with the
  code, the two header lines, a blank line and the content, and reading the stated length back
  gives the length of what follows the blank line.
\<close>

theorem Response_roundtrip:
  assumes "CHR 0x00 \<notin> set msg" "length msg < 30000000" "- (2 ^ 31) \<le> code" "code < 2 ^ 31"
  shows "\<exists>resp. BuildResponse msg code blank_HttpResponse = Inr resp \<and>
    rs_headers resp = [''Content-Length'' \<mapsto> dec_int (int (length msg) + 1), ''Content-Type'' \<mapsto> ''text/plain''] \<and>
    (\<forall>es. enumerates es (rs_headers resp) \<longrightarrow>
      PackResponse es resp [] = Inr (''HTTP/1.1 '' @ dec_int code @ '' Not Found'' @ [CR, LF] @
        concat (map header_line es) @ [CR, LF] @ msg @ [LF])) \<and>
    StringToInt (dec_int (int (length msg) + 1)) = (int (length (msg @ [LF])), True)"
proof -
  let ?n = "int (length msg) + 1"
  have n: "int32 ?n = ?n" "length (dec_int ?n) \<le> 11" "length (dec_int code) \<le> 11"
    using assms(2-4) by (simp_all add: int32_id dec_int_length)
  define resp where "resp = \<lparr>rs_version = ''HTTP/1.1'', rs_status_code = code, rs_status_text = ''Not Found'',
    rs_headers = [''Content-Length'' \<mapsto> dec_int ?n, ''Content-Type'' \<mapsto> ''text/plain''], rs_content = msg @ [LF]\<rparr>"
  have B: "BuildResponse msg code blank_HttpResponse = Inr resp"
    using n assms(1)
    by (simp add: BuildResponse_def Let_def StringPrintf_short blank_HttpResponse_def resp_def add.commute)
  have "PackResponse es resp [] = Inr (''HTTP/1.1 '' @ dec_int code @ '' Not Found'' @ [CR, LF] @
        concat (map header_line es) @ [CR, LF] @ msg @ [LF])"
    if "enumerates es (rs_headers resp)" for es
  proof -
    have d: "distinct (map fst es)" "map_of es = [''Content-Length'' \<mapsto> dec_int ?n, ''Content-Type'' \<mapsto> ''text/plain'']"
      using that by (simp_all add: enumerates_def resp_def)
    have "map_of es = map_of [(''Content-Type'', ''text/plain''), (''Content-Length'', dec_int ?n)]"
      using d(2) by (auto simp: fun_upd_twist)
    then have se: "set es = {(''Content-Length'', dec_int ?n), (''Content-Type'', ''text/plain'')}"
      using map_of_inject_set [OF d(1), of "[(''Content-Type'', ''text/plain''), (''Content-Length'', dec_int ?n)]"]
      by auto
    have cs: "c_str s = s" if "s \<in> {''Content-Length'', ''Content-Type'', ''text/plain'', dec_int ?n}" for s
      using that dec_int_valid(2) [of ?n] by auto
    have "\<forall>e \<in> set es. length (header_line e) \<le> 33000000"
      using se n(2) cs by (auto simp: header_line_def)
    then show ?thesis
      using n(3) assms(1,2)
      by (simp add: PackResponse_def resp_def StringAppendF_short append_headers_text LF_def)
  qed
  moreover have "StringToInt (dec_int ?n) = (int (length (msg @ [LF])), True)"
    using StringToInt_dec [of ?n] assms(2) by simp
  ultimately show ?thesis using B by (auto simp: resp_def)
qed

theorem Response_roundtrip_witness:
  "\<exists>resp. BuildResponse ''no'' 404 blank_HttpResponse = Inr resp \<and>
    PackResponse [(''Content-Type'', ''text/plain''), (''Content-Length'', dec_int 3)] resp [] =
      Inr (''HTTP/1.1 '' @ dec_int 404 @ '' Not Found'' @ [CR, LF] @ header_line (''Content-Type'', ''text/plain'') @
        header_line (''Content-Length'', dec_int 3) @ [CR, LF] @ ''no'' @ [LF])"
proof -
  let ?es = "[(''Content-Type'', ''text/plain''), (''Content-Length'', dec_int 3)]"
  have "enumerates ?es [''Content-Length'' \<mapsto> dec_int 3, ''Content-Type'' \<mapsto> ''text/plain'']"
    by (simp add: enumerates_def fun_upd_twist)
  then show ?thesis using Response_roundtrip [of "''no''" 404] by auto
qed

end
