(* ===== verification/Http_Prefix.thy ===== *)
theory Http_Prefix
  imports Http_Props
begin

text \<open>
  The parser on a request that has not arrived in full: whatever proper prefix of it the buffer
  holds, a fresh request asks for more data and nothing is consumed.
\<close>

lemma take_concat:
  "k < length (concat xs) \<Longrightarrow>
    \<exists>ys x zs j. xs = ys @ x # zs \<and> j < length x \<and> take k (concat xs) = concat ys @ take j x"
proof (induction xs arbitrary: k)
  case (Cons x xs)
  show ?case
  proof (cases "k < length x")
    case True
    then show ?thesis by (intro exI [of _ "[]"] exI [of _ x] exI [of _ xs] exI [of _ k]) simp
  next
    case False
    then have "k - length x < length (concat xs)" using Cons.prems by simp
    from Cons.IH [OF this] obtain ys y zs j where "xs = ys @ y # zs" "j < length y"
      "take (k - length x) (concat xs) = concat ys @ take j y" by blast
    then show ?thesis using False
      by (intro exI [of _ "x # ys"] exI [of _ y] exI [of _ zs] exI [of _ j]) simp
  qed
qed simp

lemma no_crlf_line:
  assumes "CR \<notin> set l" "j < length l + 2"
  shows "no_crlf (take j (l @ [CR, LF]))"
  unfolding no_crlf_def
proof (intro allI impI notI)
  fix i assume i: "Suc i < length (take j (l @ [CR, LF]))" and c: "crlf_at (take j (l @ [CR, LF])) i"
  then have "i < length l" using assms(2) by auto
  moreover have "i < j" using i by simp
  ultimately have "take j (l @ [CR, LF]) ! i = l ! i" by (simp add: nth_append)
  then show False using c assms(1) \<open>i < length l\<close> nth_mem by force
qed

lemma no_crlf_header:
  assumes "header_ok e" "j < length (enc_header e)" "0 < j"
  shows "no_crlf (take j (enc_header e)) \<and> take j (enc_header e) \<noteq> [] \<and> hd (take j (enc_header e)) \<noteq> LF"
proof -
  let ?l = "fst e @ CHR '':'' # snd e"
  have e: "enc_header e = ?l @ [CR, LF]" by (simp add: enc_header_def)
  have cr: "CR \<notin> set ?l" using assms(1) by (auto simp: header_ok_def CR_def split: prod.splits)
  have "no_crlf (take j (enc_header e))"
    unfolding e by (rule no_crlf_line [OF cr]) (use assms(2) e in simp)
  moreover have "hd (take j (enc_header e)) = hd (enc_header e)" using assms(3) by simp
  moreover have "hd (enc_header e) \<noteq> LF" "enc_header e \<noteq> []"
    using assms(1) by (auto simp: enc_header_def header_ok_def split: prod.splits)
  ultimately show ?thesis using assms(3) by simp
qed

text \<open>A head that ends with its blank line, while a body is announced.\<close>

lemma parse_late_head:
  assumes w: "walkable (m, b)" and ok: "head_ok me uri ver hs"
    and c: "contents m b = enc_head me uri ver hs @ [CR, LF]" and len: "stated_length hs \<noteq> 0"
  shows "Http_Parse m b (fresh_request m b) = Inr (m, b, (at_blank m b me uri ver hs)\<lparr>
    rq_content_length := stated_length hs, rq_matcher := HasCompleteContent, rq_on_hit := OnHitContent,
    rq_pr := NEED_MORE_DATA, rq_starting_point := buf_pos (m, b) (length (enc_head me uri ver hs) + 1)\<rparr>)"
proof -
  have c': "contents m b = enc_head me uri ver hs @ CR # LF # []" using c by simp
  obtain n where n: "steps m = Suc (length hs + Suc (Suc (Suc n)))" using parse_fuel [OF w c] .
  have "Http_Parse m b (fresh_request m b) = Http_Parse_loop (Suc (Suc (Suc n))) m b (at_blank m b me uri ver hs)"
    unfolding Http_Parse_def n by (rule parse_head [OF w ok c']) simp
  then show ?thesis
    using on_blank(3) [OF w c', of "at_blank m b me uri ver hs"] len by (simp add: ContentLength_at_blank)
qed

definition waits :: "mem \<Rightarrow> iobuffer \<Rightarrow> bool" where
  "waits m b \<longleftrightarrow> (\<exists>req. Http_Parse m b (fresh_request m b) = Inr (m, b, req) \<and> rq_pr req = NEED_MORE_DATA)"

lemma waits_line:
  assumes "walkable (m, b)"
    "no_crlf (contents m b) \<or>
     head_ok me uri ver hs \<and> contents m b = enc_head me uri ver hs @ p \<and> no_crlf p \<and> p \<noteq> [] \<and> hd p \<noteq> LF"
  shows "waits m b"
  using Parse_incomplete_line [OF assms] unfolding waits_def by blast

lemma waits_in_headers:
  assumes w: "walkable (m, b)" and ok: "head_ok me uri ver hs" and k: "k < length (enc_headers hs)"
    and c: "contents m b = enc_request_line me uri ver @ [CR, LF] @ take k (enc_headers hs)"
  shows "waits m b"
proof -
  obtain ys x zs j where t: "map enc_header hs = ys @ x # zs" "j < length x"
    "take k (enc_headers hs) = concat ys @ take j x"
    using take_concat [of k "map enc_header hs"] k by (auto simp: enc_headers_def)
  then obtain hs1 e hs2 where h: "hs = hs1 @ e # hs2" "ys = map enc_header hs1" "x = enc_header e"
    by (auto simp: map_eq_append_conv)
  have ok1: "head_ok me uri ver hs1" "header_ok e" using ok h(1) by (simp_all add: head_ok_def)
  have c1: "contents m b = enc_head me uri ver hs1 @ take j (enc_header e)"
    using c t(3) h by (simp add: enc_head_def enc_headers_def)
  show ?thesis
  proof (cases "j = 0")
    case True
    then show ?thesis using parse_bare_head [OF w ok1(1)] c1 unfolding waits_def by auto
  next
    case False
    then show ?thesis
      using waits_line [OF w disjI2, of me uri ver hs1] no_crlf_header [OF ok1(2)] t(2) h(3) c1 ok1(1) by blast
  qed
qed

lemma waits_after_headers:
  assumes w: "walkable (m, b)" and ok: "head_ok me uri ver hs" and k: "k < 2 + length body"
    and len: "stated_length hs = int (length body)" and lf: "body = [] \<or> hd body \<noteq> LF"
    and c: "contents m b = enc_head me uri ver hs @ take k (CR # LF # body)"
  shows "waits m b"
proof -
  consider "k = 0" | "k = 1" | "k = 2" "body \<noteq> []" | j where "k = Suc (Suc (Suc j))" "Suc j < length body"
    using k by (cases k; cases "k - 1"; cases "k - 2") auto
  then show ?thesis
  proof cases
    case 1
    then show ?thesis using parse_bare_head [OF w ok] c unfolding waits_def by auto
  next
    case 2
    have "no_crlf [CR]" "hd [CR] \<noteq> LF" by (simp_all add: no_crlf_def CR_def LF_def)
    then show ?thesis using waits_line [OF w disjI2, of me uri ver hs "[CR]"] c ok 2 by simp
  next
    case 3
    then show ?thesis using parse_late_head [OF w ok] c len unfolding waits_def by (simp add: numeral_2_eq_2)
  next
    case 4
    let ?p = "take (Suc j) body"
    have "contents m b = enc_head me uri ver hs @ CR # LF # ?p" "?p \<noteq> []" "hd ?p \<noteq> LF"
      "stated_length hs \<noteq> 0" "stated_length hs < 2 \<or> int (length ?p) < stated_length hs"
      using 4 c len lf by auto
    then show ?thesis using Parse_incomplete_body [OF w ok] unfolding waits_def by blast
  qed
qed

text \<open>
  C8. A request that has not arrived in full is never consumed: when a buffer the iterators can walk
  holds a proper prefix of a well-formed request - cut anywhere in the request line, in or between
  the header lines, in the blank line or in the body of the announced length, which does not start
  with a line feed - the parser, with a fresh request, returns \<open>NEED_MORE_DATA\<close> and leaves store and
  buffer as they are.
\<close>

theorem Parse_waits_for_request:
  assumes "walkable (m, b)" "head_ok me uri ver hs" "stated_length hs = int (length body)"
    "body = [] \<or> hd body \<noteq> LF"
    "contents m b = take k (enc_head me uri ver hs @ [CR, LF] @ body)"
    "k < length (enc_head me uri ver hs @ [CR, LF] @ body)"
  shows "\<exists>req. bindR (new_HttpRequest m b) (Http_Parse m b) = Inr (m, b, req) \<and> rq_pr req = NEED_MORE_DATA"
proof -
  let ?l = "enc_request_line me uri ver"
  have cr: "CR \<notin> set ?l" using assms(2) by (auto simp: enc_request_line_def head_ok_def request_line_ok_def CR_def)
  consider "k < length ?l + 2" | j where "k = length ?l + 2 + j" "j < length (enc_headers hs)"
    | j where "k = length (enc_head me uri ver hs) + j" "j < 2 + length body"
  proof -
    let ?n = "length ?l + 2"
    have n: "length (enc_head me uri ver hs) = ?n + length (enc_headers hs)" by (simp add: enc_head_def)
    show thesis
      using that(1) that(2) [of "k - ?n"] that(3) [of "k - length (enc_head me uri ver hs)"] assms(6) n by fastforce
  qed
  then have "waits m b"
  proof cases
    case 1
    have "contents m b = take k ((?l @ [CR, LF]) @ enc_headers hs @ [CR, LF] @ body)"
      using assms(5) by (simp add: enc_head_def)
    also have "\<dots> = take k (?l @ [CR, LF])" using 1 by (subst take_append) simp
    finally have "contents m b = take k (?l @ [CR, LF])" .
    then show ?thesis using waits_line [OF assms(1) disjI1] no_crlf_line [OF cr 1] by simp
  next
    case 2
    then show ?thesis
      using waits_in_headers [OF assms(1,2) 2(2)] assms(5) by (simp add: enc_head_def)
  next
    case 3
    then show ?thesis using waits_after_headers [OF assms(1,2) 3(2) assms(3,4)] assms(5) by simp
  qed
  then show ?thesis using new_HttpRequest_fresh [OF assms(1)] by (simp add: waits_def)
qed

theorem Parse_waits_for_request_witness:
  "\<exists>req. bindR (new_HttpRequest (one_mem (''POST / x'' @ [CR, LF] @ ''Content-Length:5'' @ [CR, LF, CR, LF] @ ''hell'')) one_buf)
      (Http_Parse (one_mem (''POST / x'' @ [CR, LF] @ ''Content-Length:5'' @ [CR, LF, CR, LF] @ ''hell'')) one_buf) =
    Inr (one_mem (''POST / x'' @ [CR, LF] @ ''Content-Length:5'' @ [CR, LF, CR, LF] @ ''hell''), one_buf, req) \<and>
    rq_pr req = NEED_MORE_DATA"
proof -
  let ?w = "''POST / x'' @ [CR, LF] @ ''Content-Length:5'' @ [CR, LF, CR, LF] @ ''hell''"
  let ?h = "enc_head ''POST'' ''/'' ''x'' [(''Content-Length'', ''5'')]"
  have l: "int (length ?w) < kDefaultBlockBytes" by (simp add: kDefaultBlockBytes_def)
  have h: "head_ok ''POST'' ''/'' ''x'' [(''Content-Length'', ''5'')]"
    by (simp add: head_ok_def request_line_ok_def header_ok_def CR_def LF_def)
  have e: "?h @ [CR, LF] @ ''hello'' = ?w @ ''o''"
    by (simp add: enc_head_def enc_request_line_def enc_header_def)
  have "contents (one_mem ?w) one_buf = take (length ?w) (?h @ [CR, LF] @ ''hello'')"
    "length ?w < length (?h @ [CR, LF] @ ''hello'')"
    unfolding e one_text(3) [OF l] by simp_all
  moreover have "stated_length [(''Content-Length'', ''5'')] = int (length ''hello'')" using stated_length_5 by simp
  moreover have "''hello'' = [] \<or> hd ''hello'' \<noteq> LF" by (simp add: LF_def)
  ultimately show ?thesis
    using Parse_waits_for_request [OF one_text(1) [OF l] h] by blast
qed

end
