(* ===== verification/IOBuffer_Streams.thy ===== *)
theory IOBuffer_Streams
  imports IOBuffer_Scan
begin

text \<open>
  The adapters that let protobuf read from and write to an \<open>IOBuffer\<close> (src/src/iobuffer.h,
  iobuffer.cc): \<open>IOBufferAsZeroCopyInputStream\<close> and \<open>IOBufferAsZeroCopyOutputStream\<close>. A range
  of memory handed out by \<open>Next\<close> is its block, the offset of its first byte and its size.
\<close>

section \<open>Operations\<close>

record in_stream =
  is_add_offset :: int
  is_byte_count :: int
  is_block :: "addr option"

type_synonym mem_range = "addr \<times> int \<times> int"

definition InputStream_new :: "mem \<Rightarrow> iobuffer \<Rightarrow> in_stream res" where
  "InputStream_new m b =
     bindR (IOBuffer_Empty m b) (\<lambda>e.
     Inr \<lparr>is_add_offset = 0, is_byte_count = 0, is_block = (if e then None else io_head b)\<rparr>)"

text \<open>\<open>None\<close> in the result stands for the return value \<open>false\<close>.\<close>

definition InputStream_Next :: "mem \<Rightarrow> in_stream \<Rightarrow> (mem_range option \<times> in_stream) res" where
  "InputStream_Next m s =
     (case is_block s of None \<Rightarrow> Inr (None, s)
      | Some a \<Rightarrow>
          bindR (deref m (Some a)) (\<lambda>blk.
          Inr (Some (a, b_start blk + is_add_offset s, Size blk - is_add_offset s),
               \<lparr>is_add_offset = 0, is_byte_count = is_byte_count s + (Size blk - is_add_offset s),
                is_block = b_next blk\<rparr>)))"

definition InputStream_BackUp :: "mem \<Rightarrow> in_stream \<Rightarrow> int \<Rightarrow> in_stream res" where
  "InputStream_BackUp m s count =
     (case is_block s of None \<Rightarrow> Inl CheckFail
      | Some a \<Rightarrow>
          bindR (deref m (Some a)) (\<lambda>blk.
            case b_pre blk of None \<Rightarrow> Inl CheckFail
            | Some p \<Rightarrow>
                bindR (deref m (Some p)) (\<lambda>pre.
                CHECK (is_add_offset s = 0 \<and> Size pre \<ge> count)
                  (Inr \<lparr>is_add_offset = Size pre - count, is_byte_count = is_byte_count s - count,
                        is_block = Some p\<rparr>))))"

fun InputStream_Skip_loop :: "nat \<Rightarrow> mem \<Rightarrow> in_stream \<Rightarrow> int \<Rightarrow> (bool \<times> in_stream) res" where
  "InputStream_Skip_loop 0 m s count = Inl FuelOut"
| "InputStream_Skip_loop (Suc n) m s count =
     (case is_block s of None \<Rightarrow> Inr (False, s)
      | Some a \<Rightarrow>
          bindR (deref m (Some a)) (\<lambda>blk.
            let left_bytes = Size blk - is_add_offset s in
            if count < left_bytes then
              Inr (True, s\<lparr>is_add_offset := is_add_offset s + count, is_byte_count := is_byte_count s + count\<rparr>)
            else
              InputStream_Skip_loop n m
                \<lparr>is_add_offset = 0, is_byte_count = is_byte_count s + left_bytes, is_block = b_next blk\<rparr>
                (count - left_bytes)))"

definition InputStream_Skip :: "mem \<Rightarrow> in_stream \<Rightarrow> int \<Rightarrow> (bool \<times> in_stream) res" where
  "InputStream_Skip m s count = InputStream_Skip_loop (steps m) m s count"

definition InputStream_ByteCount :: "in_stream \<Rightarrow> int" where
  "InputStream_ByteCount s = is_byte_count s"

record out_stream =
  os_cur_block :: "addr option"
  os_byte_count :: int

definition OutputStream_new :: out_stream where
  "OutputStream_new = \<lparr>os_cur_block = None, os_byte_count = 0\<rparr>"

definition OutputStream_Next ::
  "mem \<Rightarrow> iobuffer \<Rightarrow> out_stream \<Rightarrow> (mem_range \<times> mem \<times> iobuffer \<times> out_stream) res" where
  "OutputStream_Next m b s =
     bindR (IOBuffer_Empty m b) (\<lambda>e.
     bindR (if e then Inr True else bindR (deref m (io_tail b)) (\<lambda>t. Inr (Block_Full t))) (\<lambda>grow.
     bindR (if grow then
              bindR (AllocateBlock m b) (\<lambda>(a, m1, b1).
              bindR (Append_block m1 b1 (Some a)) (\<lambda>(m2, b2). Inr (m2, b2, Some a)))
            else Inr (m, b, os_cur_block s)) (\<lambda>(m', b', cur).
     bindR (deref m' cur) (\<lambda>blk.
     Inr ((the cur, b_end blk, FreeSpace blk), m', b',
          \<lparr>os_cur_block = cur, os_byte_count = os_byte_count s + FreeSpace blk\<rparr>)))))"

definition OutputStream_BackUp :: "mem \<Rightarrow> iobuffer \<Rightarrow> out_stream \<Rightarrow> int \<Rightarrow> (mem \<times> iobuffer \<times> out_stream) res" where
  "OutputStream_BackUp m b s count =
     bindR (if os_cur_block s = None then Inr True
            else bindR (IOBuffer_Empty m b) (\<lambda>e. Inr (e \<or> os_cur_block s = io_tail b))) (\<lambda>ok.
     CHECK ok (bindR (PopBack m b count) (\<lambda>(m', b'). Inr (m', b', s))))"

definition OutputStream_ByteCount :: "out_stream \<Rightarrow> int" where
  "OutputStream_ByteCount s = os_byte_count s"

section \<open>Reading\<close>

text \<open>The bytes of a range, and a reader that calls \<open>Next\<close> until it returns false.\<close>

definition range_bytes :: "mem \<Rightarrow> mem_range \<Rightarrow> char list res" where
  "range_bytes m r = (case r of (a, off, n) \<Rightarrow> bindR (deref m (Some a)) (\<lambda>blk. read_range blk off (off + n)))"

fun read_all :: "nat \<Rightarrow> mem \<Rightarrow> in_stream \<Rightarrow> (char list \<times> in_stream) res" where
  "read_all 0 m s = Inl FuelOut"
| "read_all (Suc n) m s =
     bindR (InputStream_Next m s) (\<lambda>(r, s').
       case r of None \<Rightarrow> Inr ([], s')
       | Some r \<Rightarrow>
           bindR (range_bytes m r) (\<lambda>cs.
           bindR (read_all n m s') (\<lambda>(rest, s''). Inr (cs @ rest, s''))))"

text \<open>
  \<open>stream_at m h as bs s\<close>: the stream has passed the blocks \<open>as\<close> of the list that begins at
  \<open>h\<close> and has the blocks \<open>bs\<close> before it, the first of them from \<open>add_offset_\<close> on.
\<close>

definition stream_at :: "mem \<Rightarrow> addr option \<Rightarrow> addr list \<Rightarrow> addr list \<Rightarrow> in_stream \<Rightarrow> bool" where
  "stream_at m h as bs s \<longleftrightarrow> dseg m None h (as @ bs) None \<and> (\<forall>a \<in> set (as @ bs). block_ok (the (lk m a))) \<and>
     0 \<le> is_add_offset s \<and>
     (case bs of [] \<Rightarrow> is_block s = None
      | a # bs' \<Rightarrow> is_block s = Some a \<and> is_add_offset s \<le> Size (the (lk m a)))"

definition unread :: "mem \<Rightarrow> addr list \<Rightarrow> in_stream \<Rightarrow> char list" where
  "unread m bs s = drop (nat (is_add_offset s)) (concat (held m bs))"

lemma stream_next:
  assumes "stream_at m h as (a # bs) s"
  obtains blk where "lk m a = Some blk" "block_ok blk" "is_block s = Some a"
    "b_next blk = (case bs of [] \<Rightarrow> None | c # _ \<Rightarrow> Some c)" "b_pre blk = last_ptr None as"
    "0 \<le> is_add_offset s" "is_add_offset s \<le> Size blk"
    "\<And>n. stream_at m h (as @ [a]) bs \<lparr>is_add_offset = 0, is_byte_count = n, is_block = b_next blk\<rparr>"
proof -
  have d: "dseg m None h (as @ a # bs) None" using assms by (simp add: stream_at_def)
  then obtain q where "dseg m (last_ptr None as) q (a # bs) None" by (auto simp: dseg_append)
  then obtain blk where blk: "lk m a = Some blk" "b_pre blk = last_ptr None as" "dseg m (Some a) (b_next blk) bs None"
    by (auto split: option.splits)
  have nx: "b_next blk = (case bs of [] \<Rightarrow> None | c # _ \<Rightarrow> Some c)"
    using blk(3) by (cases bs) simp_all
  have ok: "\<forall>c \<in> set (as @ a # bs). block_ok (the (lk m c))" using assms by (simp add: stream_at_def)
  have "0 \<le> Size (the (lk m c))" if "c \<in> set bs" for c
    using ok that block_ok_Size by auto
  then have "stream_at m h (as @ [a]) bs \<lparr>is_add_offset = 0, is_byte_count = n, is_block = b_next blk\<rparr>" for n
    using d ok nx by (cases bs) (simp_all add: stream_at_def)
  then show thesis
    using that [OF blk(1) _ _ nx blk(2)] assms ok blk(1) by (simp add: stream_at_def)
qed

lemma range_bytes_block:
  assumes "lk m a = Some blk" "block_ok blk" "0 \<le> n" "n \<le> Size blk"
  shows "range_bytes m (a, b_start blk + n, Size blk - n) = Inr (drop (nat n) (chunk blk))"
proof -
  have "range_bytes m (a, b_start blk + n, Size blk - n) =
      read_range (blk\<lparr>b_start := b_start blk + n\<rparr>) (b_start blk + n) (b_end blk)"
    using assms(1) by (auto simp: range_bytes_def Size_def read_range_def)
  then show ?thesis
    using read_range_chunk [OF block_ok_advance [OF assms(2-4)]] chunk_advance [OF assms(2-4)] by simp
qed

lemma unread_Cons:
  assumes "0 \<le> is_add_offset s" "is_add_offset s \<le> Size (the (lk m a))"
  shows "unread m (a # bs) s = drop (nat (is_add_offset s)) (chunk (the (lk m a))) @ concat (held m bs)"
  using assms by (simp add: unread_def length_chunk nat_le_eq_zle)

lemma read_all_unread:
  "stream_at m h as bs s \<Longrightarrow> length bs < n \<Longrightarrow>
    \<exists>s'. read_all n m s = Inr (unread m bs s, s') \<and> stream_at m h (as @ bs) [] s' \<and>
      is_byte_count s' = is_byte_count s + int (length (unread m bs s))"
proof (induction bs arbitrary: as s n)
  case Nil
  then obtain k where "n = Suc k" by (cases n) auto
  with Nil show ?case by (simp add: stream_at_def InputStream_Next_def unread_def)
next
  case (Cons a bs)
  obtain k where n: "n = Suc k" using Cons.prems(2) by (cases n) auto
  obtain blk where *: "lk m a = Some blk" "block_ok blk" "is_block s = Some a" "0 \<le> is_add_offset s"
    "is_add_offset s \<le> Size blk"
    "\<And>n. stream_at m h (as @ [a]) bs \<lparr>is_add_offset = 0, is_byte_count = n, is_block = b_next blk\<rparr>"
    using stream_next [OF Cons.prems(1)] by metis
  let ?s = "\<lparr>is_add_offset = 0, is_byte_count = is_byte_count s + (Size blk - is_add_offset s), is_block = b_next blk\<rparr>"
  obtain s' where IH: "read_all k m ?s = Inr (unread m bs ?s, s')" "stream_at m h ((as @ [a]) @ bs) [] s'"
    "is_byte_count s' = is_byte_count ?s + int (length (unread m bs ?s))"
    using Cons.IH [OF *(6)] Cons.prems(2) n by (metis Suc_less_eq length_Cons)
  have u: "unread m (a # bs) s = drop (nat (is_add_offset s)) (chunk blk) @ unread m bs ?s"
    using unread_Cons [of s m a bs] *(1,4,5) by (simp add: unread_def)
  have len: "int (length (drop (nat (is_add_offset s)) (chunk blk))) = Size blk - is_add_offset s"
    using *(4,5) by (simp add: length_chunk)
  show ?case
    using IH n *(1,3) range_bytes_block [OF *(1,2,4,5)] len
    by (simp add: InputStream_Next_def u)
qed

lemma new_stream:
  assumes "buf_inv m b as fs"
  shows "InputStream_new m b = Inr \<lparr>is_add_offset = 0, is_byte_count = 0,
      is_block = (if concat (held m as) = [] then None else io_head b)\<rparr>"
    "concat (held m as) \<noteq> [] \<Longrightarrow> stream_at m (io_head b) [] as
      \<lparr>is_add_offset = 0, is_byte_count = 0, is_block = io_head b\<rparr>"
proof -
  show "InputStream_new m b = Inr \<lparr>is_add_offset = 0, is_byte_count = 0,
      is_block = (if concat (held m as) = [] then None else io_head b)\<rparr>"
    using Empty_inv [OF assms] by (simp add: InputStream_new_def)
  have wf: "buf_wf m b as fs" using assms by (rule buf_inv_wf)
  assume "concat (held m as) \<noteq> []"
  then obtain a as' where a: "as = a # as'" by (cases as) auto
  then obtain blk where "io_head b = Some a" "lk m a = Some blk" "block_ok blk"
    using buf_wf_head wf by metis
  then show "stream_at m (io_head b) [] as \<lparr>is_add_offset = 0, is_byte_count = 0, is_block = io_head b\<rparr>"
    using wf a block_ok_Size by (auto simp: stream_at_def buf_wf_def)
qed

lemma skip_unread:
  "stream_at m h as bs s \<Longrightarrow> length bs < n \<Longrightarrow> 0 \<le> count \<Longrightarrow>
    \<exists>as' bs' s'. InputStream_Skip_loop n m s count = Inr (count < int (length (unread m bs s)), s') \<and>
      stream_at m h as' bs' s' \<and> unread m bs' s' = drop (nat count) (unread m bs s) \<and>
      is_byte_count s' = is_byte_count s + min count (int (length (unread m bs s)))"
proof (induction bs arbitrary: as s n count)
  case Nil
  then obtain k where "n = Suc k" by (cases n) auto
  with Nil show ?case
    by (intro exI [of _ as] exI [of _ "[]"] exI [of _ s]) (simp add: stream_at_def unread_def)
next
  case (Cons a bs)
  obtain k where n: "n = Suc k" using Cons.prems(2) by (cases n) auto
  obtain blk where *: "lk m a = Some blk" "block_ok blk" "is_block s = Some a" "0 \<le> is_add_offset s"
    "is_add_offset s \<le> Size blk"
    "\<And>n. stream_at m h (as @ [a]) bs \<lparr>is_add_offset = 0, is_byte_count = n, is_block = b_next blk\<rparr>"
    using stream_next [OF Cons.prems(1)] by metis
  let ?left = "Size blk - is_add_offset s"
  let ?s = "\<lparr>is_add_offset = 0, is_byte_count = is_byte_count s + ?left, is_block = b_next blk\<rparr>"
  have u: "unread m (a # bs) s = drop (nat (is_add_offset s)) (chunk blk) @ unread m bs ?s"
    using unread_Cons [of s m a bs] *(1,4,5) by (simp add: unread_def)
  have len: "int (length (drop (nat (is_add_offset s)) (chunk blk))) = ?left"
    using *(4,5) by (simp add: length_chunk)
  show ?case
  proof (cases "count < ?left")
    case True
    let ?t = "s\<lparr>is_add_offset := is_add_offset s + count, is_byte_count := is_byte_count s + count\<rparr>"
    have "stream_at m h as (a # bs) ?t"
      using Cons.prems(1,3) True *(1) by (simp add: stream_at_def)
    moreover have "unread m (a # bs) ?t = drop (nat count) (unread m (a # bs) s)"
      using Cons.prems(3) *(4)
      by (simp add: unread_def nat_add_distrib add.commute del: held_simps concat.simps drop_append)
    moreover have "InputStream_Skip_loop n m s count = Inr (True, ?t)"
      using n *(1,3) True by (simp add: Let_def)
    moreover have "count < int (length (unread m (a # bs) s))" using u len True by simp
    ultimately show ?thesis by (intro exI [of _ as] exI [of _ "a # bs"] exI [of _ ?t]) simp
  next
    case False
    have lb: "length bs < k" and c: "0 \<le> count - ?left" using Cons.prems(2) n False by simp_all
    obtain as' bs' s' where IH: "InputStream_Skip_loop k m ?s (count - ?left) =
        Inr (count - ?left < int (length (unread m bs ?s)), s')" "stream_at m h as' bs' s'"
      "unread m bs' s' = drop (nat (count - ?left)) (unread m bs ?s)"
      "is_byte_count s' = is_byte_count ?s + min (count - ?left) (int (length (unread m bs ?s)))"
      using Cons.IH [OF *(6) lb c] by metis
    have l: "int (length (unread m (a # bs) s)) = ?left + int (length (unread m bs ?s))"
      using u len by simp
    have "nat (count - ?left) = nat count - length (drop (nat (is_add_offset s)) (chunk blk))"
      using len False by linarith
    moreover have "length (drop (nat (is_add_offset s)) (chunk blk)) \<le> nat count"
      using len False by linarith
    ultimately have d: "drop (nat count) (unread m (a # bs) s) = drop (nat (count - ?left)) (unread m bs ?s)"
      unfolding u drop_append by (simp del: length_drop drop_drop)
    have sk: "InputStream_Skip_loop n m s count = InputStream_Skip_loop k m ?s (count - ?left)"
      using n *(1,3) False by (simp add: Let_def)
    have "(count - ?left < int (length (unread m bs ?s))) = (count < int (length (unread m (a # bs) s)))"
      using l by linarith
    moreover have "is_byte_count s' = is_byte_count s + min count (int (length (unread m (a # bs) s)))"
      using IH(4) l by simp
    ultimately show ?thesis using IH(1-3) sk d by (intro exI [of _ as'] exI [of _ bs'] exI [of _ s']) simp
  qed
qed

section \<open>Properties\<close>

text \<open>
  C29. The input stream over a valid buffer delivers the buffer: calling \<open>Next\<close> until it
  returns false yields exactly the contents, in order, and \<open>ByteCount\<close> is then their length;
  \<open>Skip(count)\<close> from the start skips exactly \<open>count\<close> bytes, and returns false exactly when
  fewer than \<open>count + 1\<close> bytes are left.
\<close>

theorem InputStream_delivers:
  assumes "valid_buffer m b" "contents m b \<noteq> []" "0 \<le> count"
  shows "\<exists>s s1 s2 rest. InputStream_new m b = Inr s \<and>
    read_all (steps m) m s = Inr (contents m b, s1) \<and>
    InputStream_ByteCount s1 = int (length (contents m b)) \<and>
    InputStream_Skip m s count = Inr (count < int (length (contents m b)), s2) \<and>
    unread m rest s2 = drop (nat count) (contents m b)"
proof -
  obtain as fs where inv: "buf_inv m b as fs" using assms(1) valid_buffer_iff by blast
  have c: "contents m b = concat (held m as)" using buf_inv_contents [OF inv] .
  let ?s = "\<lparr>is_add_offset = 0, is_byte_count = 0, is_block = io_head b\<rparr>"
  have st: "stream_at m (io_head b) [] as ?s" using new_stream(2) [OF inv] c assms(2) by simp
  have l: "length as < steps m" using buf_wf_length [OF buf_inv_wf [OF inv]] by (simp add: steps_def)
  have u: "unread m as ?s = contents m b" by (simp add: unread_def c)
  show ?thesis
    using read_all_unread [OF st l] skip_unread [OF st l assms(3)] new_stream(1) [OF inv] assms(2) u c
    by (auto simp: InputStream_ByteCount_def InputStream_Skip_def)
qed

theorem InputStream_delivers_witness:
  "\<exists>s s1 s2 rest. InputStream_new (one_mem ''hello'') one_buf = Inr s \<and>
    read_all (steps (one_mem ''hello'')) (one_mem ''hello'') s = Inr (''hello'', s1) \<and>
    InputStream_ByteCount s1 = 5 \<and> InputStream_Skip (one_mem ''hello'') s 2 = Inr (True, s2) \<and>
    unread (one_mem ''hello'') rest s2 = ''llo''"
proof -
  have l: "int (length ''hello'') \<le> kDefaultBlockBytes" by (simp add: kDefaultBlockBytes_def)
  show ?thesis
    using InputStream_delivers [OF one_valid [OF l], of 2] one_contents [OF l] by simp
qed

text \<open>
  \<open>BackUp(count)\<close> after a \<open>Next\<close> that left a further block gives the last \<open>count\<close> bytes
  back and corrects the count; after the \<open>Next\<close> that returned the last block it dies in
  \<open>LOG(FATAL)\<close>, although the stream contract allows it there.
\<close>

theorem InputStream_BackUp_behaviour:
  assumes "stream_at m h (as @ [a]) bs s" "is_add_offset s = 0" "0 \<le> count" "count \<le> Size (the (lk m a))"
  shows "(bs \<noteq> [] \<longrightarrow> (\<exists>s'. InputStream_BackUp m s count = Inr s' \<and> stream_at m h as (a # bs) s' \<and>
      unread m (a # bs) s' =
        drop (length (chunk (the (lk m a))) - nat count) (chunk (the (lk m a))) @ unread m bs s \<and>
      is_byte_count s' = is_byte_count s - count)) \<and>
    (bs = [] \<longrightarrow> InputStream_BackUp m s count = Inl CheckFail)"
proof (cases bs)
  case Nil
  then show ?thesis using assms(1) by (simp add: stream_at_def InputStream_BackUp_def)
next
  case (Cons c cs)
  obtain blk where blk: "lk m c = Some blk" "is_block s = Some c" "b_pre blk = last_ptr None (as @ [a])"
    using stream_next assms(1) unfolding Cons by metis
  have d: "dseg m None h ((as @ [a]) @ bs) None" using assms(1) by (simp add: stream_at_def)
  then obtain pre where pre: "lk m a = Some pre" using dseg_alive [OF d, of a] by auto
  have ok: "block_ok pre" using assms(1) pre by (auto simp: stream_at_def)
  let ?s = "\<lparr>is_add_offset = Size pre - count, is_byte_count = is_byte_count s - count, is_block = Some a\<rparr>"
  have b: "InputStream_BackUp m s count = Inr ?s"
    using blk pre assms(2,4) by (simp add: InputStream_BackUp_def)
  have st: "stream_at m h as (a # bs) ?s"
    using assms(1,3,4) pre block_ok_Size [OF ok] by (simp add: stream_at_def)
  have "nat (Size pre - count) = length (chunk pre) - nat count"
    using assms(3) by (simp add: length_chunk nat_diff_distrib)
  moreover have "unread m (a # bs) ?s = drop (nat (Size pre - count)) (chunk pre) @ concat (held m bs)"
    using unread_Cons [of ?s m a bs] assms(3,4) pre by simp
  moreover have "unread m bs s = concat (held m bs)" using assms(2) by (simp add: unread_def)
  ultimately show ?thesis using b st pre Cons by simp
qed

theorem InputStream_BackUp_behaviour_witness:
  "InputStream_BackUp (one_mem ''hello'')
     \<lparr>is_add_offset = 0, is_byte_count = 5, is_block = None\<rparr> 2 = Inl CheckFail"
proof -
  have l: "int (length ''hello'') \<le> kDefaultBlockBytes" by (simp add: kDefaultBlockBytes_def)
  have "buf_wf (one_mem ''hello'') one_buf [0] []" by (rule one_wf [OF l])
  then have "stream_at (one_mem ''hello'') (Some 0) ([] @ [0]) [] \<lparr>is_add_offset = 0, is_byte_count = 5, is_block = None\<rparr>"
    by (simp add: stream_at_def buf_wf_def one_buf_def)
  moreover have "Size (the (lk (one_mem ''hello'') 0)) = 5"
    by (simp add: one_mem_def lk_def Size_def extend_block_def new_Block_def)
  ultimately show ?thesis
    using InputStream_BackUp_behaviour [of "one_mem ''hello''" "Some 0" "[]" 0 "[]"
        "\<lparr>is_add_offset = 0, is_byte_count = 5, is_block = None\<rparr>" 2] by simp
qed

text \<open>
  The output stream: on a buffer with bytes whose last block has room, the first \<open>Next\<close>
  dereferences the null \<open>cur_block_\<close>; on an empty buffer it hands out a whole fresh block but
  leaves the contents empty, so what the caller writes there is never part of the buffer, and
  the next \<open>Next\<close> finds the buffer empty again.
\<close>

theorem OutputStream_Next_behaviour:
  assumes "valid_buffer m b"
  shows "(contents m b \<noteq> [] \<and> \<not> Block_Full (the (lk m (last (blocks_of m b)))) \<longrightarrow>
      OutputStream_Next m b OutputStream_new = Inl NullDeref) \<and>
    (contents m b = [] \<longrightarrow> (\<exists>a m' b' s'. OutputStream_Next m b s = Inr ((a, 0, kDefaultBlockBytes), m', b', s') \<and>
      valid_buffer m' b' \<and> contents m' b' = [] \<and> os_byte_count s' = os_byte_count s + kDefaultBlockBytes))"
proof -
  obtain as fs where inv: "buf_inv m b as fs" using assms valid_buffer_iff by blast
  have wf: "buf_wf m b as fs" using inv by (rule buf_inv_wf)
  have c: "contents m b = concat (held m as)" "blocks_of m b = as"
    using buf_inv_contents [OF inv] buf_wf_blocks [OF wf] by simp_all
  have first: "OutputStream_Next m b OutputStream_new = Inl NullDeref"
    if ne: "contents m b \<noteq> []" "\<not> Block_Full (the (lk m (last (blocks_of m b))))"
  proof -
    from ne(1) c obtain as0 t where t: "as = as0 @ [t]" by (metis concat.simps(1) held_simps(1) rev_exhaust)
    obtain tb where "io_tail b = Some t" "lk m t = Some tb" using buf_wf_tail wf t by metis
    moreover have "IOBuffer_Empty m b = Inr False" using Empty_inv [OF inv] ne(1) c(1) by metis
    ultimately show ?thesis
      using ne(2) c(2) t by (simp add: OutputStream_Next_def OutputStream_new_def)
  qed
  have second: "\<exists>a m' b' s'. OutputStream_Next m b s = Inr ((a, 0, kDefaultBlockBytes), m', b', s') \<and>
      valid_buffer m' b' \<and> contents m' b' = [] \<and> os_byte_count s' = os_byte_count s + kDefaultBlockBytes"
    if e: "contents m b = []"
  proof -
    obtain a m1 b1 fs1 where al: "AllocateBlock m b = Inr (a, m1, b1)" "buf_wf m1 b1 as fs1"
      "spare m1 as fs1 a" "held m1 as = held m as"
      using AllocateBlock_wf [OF wf] by metis
    obtain blk where blk: "a \<notin> set as \<union> set fs1" "lk m1 a = Some blk" "b_start blk = 0" "b_end blk = 0"
      using al(3) by (auto simp: spare_def)
    have ok: "block_ok blk" "chunk blk = []" using spare_ok [OF al(3)] blk by auto
    have e1: "as = [] \<or> hd (held m1 as) = []"
      using Empty_wf [OF wf] Empty_inv [OF inv] e c al(4) by simp
    obtain m2 b2 where ap: "Append_block m1 b1 (Some a) = Inr (m2, b2)" "buf_wf m2 b2 [a] fs1"
      "held m2 [a] = [chunk blk]" "lk m2 a = Some (blk\<lparr>b_pre := None, b_next := None\<rparr>)"
      using Append_block_empty [OF al(2) e1 blk(1,2) ok(1)] by metis
    have i2: "buf_inv m2 b2 [a] fs1" using ap(2) by (simp add: buf_inv_def)
    have "contents m2 b2 = []" using buf_wf_contents [OF ap(2)] ap(3) ok(2) by simp
    then show ?thesis
      using al(1) ap(1,4) blk(4) Empty_inv [OF inv] e c buf_inv_valid [OF i2]
      by (simp add: OutputStream_Next_def FreeSpace_def)
  qed
  show ?thesis using first second by blast
qed

theorem OutputStream_Next_behaviour_witness:
  "OutputStream_Next (one_mem ''hello'') one_buf OutputStream_new = Inl NullDeref"
proof -
  have l: "int (length ''hello'') \<le> kDefaultBlockBytes" by (simp add: kDefaultBlockBytes_def)
  have "\<not> Block_Full (the (lk (one_mem ''hello'') 0))"
    by (simp add: one_mem_def lk_def Block_Full_def extend_block_def new_Block_def kDefaultBlockBytes_def)
  then show ?thesis
    using OutputStream_Next_behaviour [OF one_valid [OF l]] one_contents [OF l] one_blocks [OF l] by simp
qed

end
