(* ===== verification/Epoll.thy ===== *)
theory Epoll
  imports IOBuffer_Props
begin

unbundle bit_operations_syntax

text \<open>
  src/src/event.h, src/src/epoll.h, epoll.cc and src/src/common/fd_guard.h: the table of
  registered events beside the kernel's interest list, and the owner of a descriptor. The
  system call \<open>epoll_ctl\<close> is a parameter; \<open>epoll_ctl_may\<close> states its documented behaviour with every
  refusal, \<open>epoll_ctl_ok\<close> that of a kernel that grants what it may.
\<close>

section \<open>Events\<close>

type_synonym IOMask = "32 word"

definition IOMaskNone :: IOMask where "IOMaskNone = 0"
definition IOMaskRead :: IOMask where "IOMaskRead = 1"
definition IOMaskWrite :: IOMask where "IOMaskWrite = 2"
definition IOMaskRW :: IOMask where "IOMaskRW = IOMaskRead OR IOMaskWrite"

text \<open>\<open>client_data\<close> is a pointer to a socket object; \<open>None\<close> is the null pointer.\<close>

record event =
  ev_fd :: int
  ev_io_mask :: IOMask
  ev_client_data :: "nat option"

definition Event_default :: event where
  "Event_default = \<lparr>ev_fd = - 1, ev_io_mask = IOMaskNone, ev_client_data = None\<rparr>"

definition Event_new :: "int \<Rightarrow> IOMask \<Rightarrow> nat option \<Rightarrow> event" where
  "Event_new fd msk data = \<lparr>ev_fd = fd, ev_io_mask = msk, ev_client_data = data\<rparr>"

definition Event_Reset :: "event \<Rightarrow> event" where
  "Event_Reset e = e\<lparr>ev_fd := - 1, ev_io_mask := IOMaskNone, ev_client_data := None\<rparr>"

definition Event_AddReadEvent :: "event \<Rightarrow> event" where
  "Event_AddReadEvent e = e\<lparr>ev_io_mask := ev_io_mask e OR IOMaskRead\<rparr>"

definition Event_AddWriteEvent :: "event \<Rightarrow> event" where
  "Event_AddWriteEvent e = e\<lparr>ev_io_mask := ev_io_mask e OR IOMaskWrite\<rparr>"

definition Event_DelReadEvent :: "event \<Rightarrow> event" where
  "Event_DelReadEvent e = e\<lparr>ev_io_mask := ev_io_mask e AND NOT IOMaskRead\<rparr>"

definition Event_DelWriteEvent :: "event \<Rightarrow> event" where
  "Event_DelWriteEvent e = e\<lparr>ev_io_mask := ev_io_mask e AND NOT IOMaskWrite\<rparr>"

definition WaitingRead :: "event \<Rightarrow> bool" where
  "WaitingRead e \<longleftrightarrow> ev_io_mask e AND IOMaskRead \<noteq> 0"

definition WaitingWrite :: "event \<Rightarrow> bool" where
  "WaitingWrite e \<longleftrightarrow> ev_io_mask e AND IOMaskWrite \<noteq> 0"

section \<open>Descriptor guards\<close>

text \<open>A guard is the descriptor it holds; its destructor returns the descriptors it closes.\<close>

type_synonym fd_guard = int

definition FDGuard_default :: fd_guard where
  "FDGuard_default = - 1"

definition FDGuard_destroy :: "fd_guard \<Rightarrow> int list" where
  "FDGuard_destroy g = (if g > 0 then [g] else [])"

definition FDGuard_Release :: "fd_guard \<Rightarrow> int \<times> fd_guard" where
  "FDGuard_Release g = (g, 0)"

definition FDGuard_Reset :: "fd_guard \<Rightarrow> int \<Rightarrow> fd_guard" where
  "FDGuard_Reset g fd = fd"

definition FDGuard_get :: "fd_guard \<Rightarrow> int res" where
  "FDGuard_get g = CHECK (g > 0) (Inr g)"

definition FDGuard_less :: "fd_guard \<Rightarrow> int \<Rightarrow> bool" where
  "FDGuard_less g v \<longleftrightarrow> g < v"

section \<open>The event table\<close>

definition EPOLLIN :: "32 word" where "EPOLLIN = 1"
definition EPOLLOUT :: "32 word" where "EPOLLOUT = 4"
definition EPOLLERR :: "32 word" where "EPOLLERR = 8"
definition EPOLLHUP :: "32 word" where "EPOLLHUP = 16"
definition EPOLLET :: "32 word" where "EPOLLET = push_bit 31 1"

datatype ctl_op = EPOLL_CTL_ADD | EPOLL_CTL_MOD | EPOLL_CTL_DEL

text \<open>
  \<open>epoll_ctl\<close>: kernel state, operation, descriptor and events to return value and new kernel
  state. The control block of the process: the guard of the epoll descriptor, the flag and the
  table.
\<close>

type_synonym 'k epoll_ctl = "'k \<Rightarrow> ctl_op \<Rightarrow> int \<Rightarrow> 32 word \<Rightarrow> int \<times> 'k"

record epoll =
  ep_stop :: bool
  ep_fd :: fd_guard
  ep_events :: "event list"

text \<open>The constructor; \<open>fd\<close> is what \<open>epoll_create\<close> returns.\<close>

definition Epoll_new :: "int \<Rightarrow> epoll res" where
  "Epoll_new fd =
     bindR (FDGuard_get (FDGuard_Reset FDGuard_default fd)) (\<lambda>g.
       if g < 0 then Inl Throws
       else Inr \<lparr>ep_stop = False, ep_fd = g, ep_events = [Event_default]\<rparr>)"

definition resize_events :: "event list \<Rightarrow> nat \<Rightarrow> event list" where
  "resize_events es n = take n es @ replicate (n - length es) Event_default"

text \<open>
  \<open>epoll_fd_()\<close>, through which both methods read the descriptor of the event queue, checks that it is
  positive; the constructor has established that, and nothing changes it afterwards.
\<close>

definition AddEvent :: "'k epoll_ctl \<Rightarrow> 'k \<Rightarrow> epoll \<Rightarrow> event \<Rightarrow> (int \<times> 'k \<times> epoll) res" where
  "AddEvent ctl k ep e =
     (let fd = ev_fd e in
      if fd \<ge> int (length (ep_events ep)) then
        let ep' = ep\<lparr>ep_events := resize_events (ep_events ep) (nat (fd * 2))\<rparr>;
            evs = (if ev_io_mask e AND IOMaskRead \<noteq> 0 then EPOLLIN OR EPOLLET else 0)
               OR (if ev_io_mask e AND IOMaskWrite \<noteq> 0 then EPOLLOUT OR EPOLLET else 0);
            (ret, k') = ctl k EPOLL_CTL_ADD fd evs in
        Inr (ret, k', if ret = 0 then ep'\<lparr>ep_events := (ep_events ep')[nat fd := e]\<rparr> else ep')
      else if fd < 0 then Inl OutOfBounds
      else
        let old = ep_events ep ! nat fd;
            evs0 = (if WaitingRead old then EPOLLIN else 0) OR (if WaitingWrite old then EPOLLOUT else 0);
            op = (if evs0 \<noteq> 0 then EPOLL_CTL_MOD else EPOLL_CTL_ADD);
            evs = evs0 OR (if ev_io_mask e AND IOMaskRead \<noteq> 0 then EPOLLIN OR EPOLLET else 0)
               OR (if ev_io_mask e AND IOMaskWrite \<noteq> 0 then EPOLLOUT OR EPOLLET else 0);
            (ret, k') = ctl k op fd evs in
        Inr (ret, k', if ret = 0 then ep\<lparr>ep_events := (ep_events ep)[nat fd := e]\<rparr> else ep))"

definition AddReadEvent :: "'k epoll_ctl \<Rightarrow> 'k \<Rightarrow> epoll \<Rightarrow> int \<Rightarrow> nat option \<Rightarrow> (int \<times> 'k \<times> epoll) res" where
  "AddReadEvent ctl k ep fd client_data = AddEvent ctl k ep (Event_new fd IOMaskRead client_data)"

definition AddWriteEvent :: "'k epoll_ctl \<Rightarrow> 'k \<Rightarrow> epoll \<Rightarrow> int \<Rightarrow> nat option \<Rightarrow> (int \<times> 'k \<times> epoll) res" where
  "AddWriteEvent ctl k ep fd client_data = AddEvent ctl k ep (Event_new fd IOMaskWrite client_data)"

definition DelEvent :: "'k epoll_ctl \<Rightarrow> 'k \<Rightarrow> epoll \<Rightarrow> int \<Rightarrow> IOMask \<Rightarrow> (int \<times> 'k \<times> epoll) res" where
  "DelEvent ctl k ep fd msk =
     (if fd \<ge> int (length (ep_events ep)) then Inr (- 1, k, ep)
      else if fd < 0 then Inl OutOfBounds
      else
        let old = ep_events ep ! nat fd;
            evs = ev_io_mask old AND NOT msk;
            op = (if evs \<noteq> 0 then EPOLL_CTL_MOD else EPOLL_CTL_DEL);
            ep' = (if op = EPOLL_CTL_DEL
                   then ep\<lparr>ep_events := (ep_events ep)[nat fd := Event_Reset old]\<rparr> else ep);
            (ret, k') = ctl k op fd evs in
        Inr (ret, k', ep'))"

definition Epoll_Stop :: "epoll \<Rightarrow> epoll" where
  "Epoll_Stop ep = ep\<lparr>ep_stop := True\<rparr>"

text \<open>
  \<open>ProcessEvents\<close>: the handlers are arguments that change a world \<open>'w\<close>, of which \<open>table\<close> is
  the event table; the kernel's answer is an error number or the list of ready descriptors.
\<close>

datatype wait_reply = WaitErr errno | Ready "(int \<times> 32 word) list"

definition events_at :: "event list \<Rightarrow> int \<Rightarrow> event res" where
  "events_at es fd = (if 0 \<le> fd \<and> fd < int (length es) then Inr (es ! nat fd) else Inl OutOfBounds)"

fun ProcessEvents_loop ::
  "('w \<Rightarrow> event list) \<Rightarrow> (int \<Rightarrow> nat option \<Rightarrow> 'w \<Rightarrow> 'w res) \<Rightarrow> (int \<Rightarrow> nat option \<Rightarrow> 'w \<Rightarrow> 'w res) \<Rightarrow>
   (int \<times> 32 word) list \<Rightarrow> 'w \<Rightarrow> 'w res" where
  "ProcessEvents_loop table input output [] w = Inr w"
| "ProcessEvents_loop table input output ((fd, evs) # ees) w =
     bindR (if evs AND (EPOLLIN OR EPOLLERR OR EPOLLHUP) \<noteq> 0
            then bindR (events_at (table w) fd) (\<lambda>e. input fd (ev_client_data e) w) else Inr w) (\<lambda>w1.
     bindR (if evs AND (EPOLLOUT OR EPOLLERR OR EPOLLHUP) \<noteq> 0
            then bindR (events_at (table w1) fd) (\<lambda>e. output fd (ev_client_data e) w1) else Inr w1) (\<lambda>w2.
     ProcessEvents_loop table input output ees w2))"

definition ProcessEvents ::
  "('w \<Rightarrow> event list) \<Rightarrow> (int \<Rightarrow> nat option \<Rightarrow> 'w \<Rightarrow> 'w res) \<Rightarrow> (int \<Rightarrow> nat option \<Rightarrow> 'w \<Rightarrow> 'w res) \<Rightarrow>
   wait_reply \<Rightarrow> 'w \<Rightarrow> (int \<times> 'w) res" where
  "ProcessEvents table input output reply w =
     (case reply of
        WaitErr e \<Rightarrow> Inr (if e = EINTR then 0 else - 1, w)
      | Ready ees \<Rightarrow> bindR (ProcessEvents_loop table input output ees w) (\<lambda>w'. Inr (int (length ees), w')))"

text \<open>The main loop, over the answers the kernel gives one after another.\<close>

fun RunUtilAskedToStop ::
  "('w \<Rightarrow> bool) \<Rightarrow> ('w \<Rightarrow> event list) \<Rightarrow> (int \<Rightarrow> nat option \<Rightarrow> 'w \<Rightarrow> 'w res) \<Rightarrow>
   (int \<Rightarrow> nat option \<Rightarrow> 'w \<Rightarrow> 'w res) \<Rightarrow> wait_reply list \<Rightarrow> 'w \<Rightarrow> 'w res" where
  "RunUtilAskedToStop stop table input output [] w = (if stop w then Inr w else Inl FuelOut)"
| "RunUtilAskedToStop stop table input output (r # rs) w =
     (if stop w then Inr w
      else bindR (ProcessEvents table input output r w) (\<lambda>(num, w').
        if num = - 1 then Inr w' else RunUtilAskedToStop stop table input output rs w'))"

section \<open>The kernel's contract and the table's invariant\<close>

definition epoll_ctl_ok :: "'k epoll_ctl \<Rightarrow> ('k \<Rightarrow> int \<rightharpoonup> 32 word) \<Rightarrow> bool" where
  "epoll_ctl_ok ctl reg \<longleftrightarrow> (\<forall>k fd evs.
     (case ctl k EPOLL_CTL_ADD fd evs of (r, k') \<Rightarrow>
        if reg k fd = None then r = 0 \<and> reg k' = (reg k)(fd \<mapsto> evs) else r = - 1 \<and> reg k' = reg k) \<and>
     (case ctl k EPOLL_CTL_MOD fd evs of (r, k') \<Rightarrow>
        if reg k fd \<noteq> None then r = 0 \<and> reg k' = (reg k)(fd \<mapsto> evs) else r = - 1 \<and> reg k' = reg k) \<and>
     (case ctl k EPOLL_CTL_DEL fd evs of (r, k') \<Rightarrow>
        if reg k fd \<noteq> None then r = 0 \<and> reg k' = (reg k)(fd := None) else r = - 1 \<and> reg k' = reg k))"

lemma ctl_add: "epoll_ctl_ok ctl reg \<Longrightarrow> ctl k EPOLL_CTL_ADD fd evs = (r, k') \<Longrightarrow>
    if reg k fd = None then r = 0 \<and> reg k' = (reg k)(fd \<mapsto> evs) else r = - 1 \<and> reg k' = reg k"
  unfolding epoll_ctl_ok_def by (drule spec [of _ k], drule spec [of _ fd], drule spec [of _ evs]) simp

lemma ctl_mod: "epoll_ctl_ok ctl reg \<Longrightarrow> ctl k EPOLL_CTL_MOD fd evs = (r, k') \<Longrightarrow>
    if reg k fd \<noteq> None then r = 0 \<and> reg k' = (reg k)(fd \<mapsto> evs) else r = - 1 \<and> reg k' = reg k"
  unfolding epoll_ctl_ok_def by (drule spec [of _ k], drule spec [of _ fd], drule spec [of _ evs]) simp

lemma ctl_del: "epoll_ctl_ok ctl reg \<Longrightarrow> ctl k EPOLL_CTL_DEL fd evs = (r, k') \<Longrightarrow>
    if reg k fd \<noteq> None then r = 0 \<and> reg k' = (reg k)(fd := None) else r = - 1 \<and> reg k' = reg k"
  unfolding epoll_ctl_ok_def by (drule spec [of _ k], drule spec [of _ fd], drule spec [of _ evs]) simp

text \<open>A kernel that keeps its interest list as a map.\<close>

definition map_ctl :: "(int \<rightharpoonup> 32 word) epoll_ctl" where
  "map_ctl k op fd evs =
     (case op of
        EPOLL_CTL_ADD \<Rightarrow> if k fd = None then (0, k(fd \<mapsto> evs)) else (- 1, k)
      | EPOLL_CTL_MOD \<Rightarrow> if k fd \<noteq> None then (0, k(fd \<mapsto> evs)) else (- 1, k)
      | EPOLL_CTL_DEL \<Rightarrow> if k fd \<noteq> None then (0, k(fd := None)) else (- 1, k))"

lemma map_ctl_ok: "epoll_ctl_ok map_ctl (\<lambda>k. k)"
  by (simp add: epoll_ctl_ok_def map_ctl_def)

text \<open>
  The table agrees with the kernel on which descriptors are registered, and every recorded
  interest is reading or writing.
\<close>

definition waiting :: "epoll \<Rightarrow> int \<Rightarrow> bool" where
  "waiting ep fd \<longleftrightarrow> 0 \<le> fd \<and> fd < int (length (ep_events ep)) \<and>
     (WaitingRead (ep_events ep ! nat fd) \<or> WaitingWrite (ep_events ep ! nat fd))"

definition epoll_inv :: "('k \<Rightarrow> int \<rightharpoonup> 32 word) \<Rightarrow> 'k \<Rightarrow> epoll \<Rightarrow> bool" where
  "epoll_inv reg k ep \<longleftrightarrow> ep_events ep \<noteq> [] \<and> (\<forall>fd. (reg k fd \<noteq> None) = waiting ep fd) \<and>
     (\<forall>e \<in> set (ep_events ep). ev_io_mask e \<in> {IOMaskNone, IOMaskRead, IOMaskWrite, IOMaskRW})"

lemma mask_cases:
  "IOMaskRead AND IOMaskRead \<noteq> 0" "IOMaskWrite AND IOMaskRead = 0" "IOMaskRW AND IOMaskRead \<noteq> 0"
  "IOMaskRead AND IOMaskWrite = 0" "IOMaskWrite AND IOMaskWrite \<noteq> 0" "IOMaskRW AND IOMaskWrite \<noteq> 0"
  "IOMaskNone AND x = 0"
  by (simp_all add: IOMaskRead_def IOMaskWrite_def IOMaskRW_def IOMaskNone_def)

lemma length_resize [simp]: "length (resize_events es n) = n"
  by (simp add: resize_events_def)

lemma nth_resize: "i < n \<Longrightarrow> length es \<le> n \<Longrightarrow>
    resize_events es n ! i = (if i < length es then es ! i else Event_default)"
  by (simp add: resize_events_def nth_append)

lemma set_resize: "set (resize_events es n) \<subseteq> insert Event_default (set es)"
  by (auto simp: resize_events_def dest: in_set_takeD split: if_splits)

lemma waiting_default [simp]: "\<not> WaitingRead Event_default" "\<not> WaitingWrite Event_default"
  by (simp_all add: WaitingRead_def WaitingWrite_def Event_default_def IOMaskNone_def)

lemma events_nonzero: "EPOLLIN OR x \<noteq> 0" "EPOLLOUT OR x \<noteq> 0"
  by (simp_all add: EPOLLIN_def EPOLLOUT_def or_eq_0_iff)

text \<open>The table after a successful registration: grown when needed, the entry replaced.\<close>

definition table_with :: "epoll \<Rightarrow> event \<Rightarrow> event list" where
  "table_with ep e =
     (if ev_fd e \<ge> int (length (ep_events ep)) then resize_events (ep_events ep) (nat (ev_fd e * 2))
      else ep_events ep)[nat (ev_fd e) := e]"

definition interest :: "epoll \<Rightarrow> event \<Rightarrow> 32 word" where
  "interest ep e =
     (if waiting ep (ev_fd e) \<and> WaitingRead (ep_events ep ! nat (ev_fd e)) then EPOLLIN else 0) OR
     (if waiting ep (ev_fd e) \<and> WaitingWrite (ep_events ep ! nat (ev_fd e)) then EPOLLOUT else 0) OR
     (if WaitingRead e then EPOLLIN OR EPOLLET else 0) OR (if WaitingWrite e then EPOLLOUT OR EPOLLET else 0)"

definition grown :: "epoll \<Rightarrow> event \<Rightarrow> event list" where
  "grown ep e =
     (if ev_fd e \<ge> int (length (ep_events ep)) then resize_events (ep_events ep) (nat (ev_fd e * 2))
      else ep_events ep)"

text \<open>What the method asks the kernel, and what it makes of the answer.\<close>

lemma AddEvent_call:
  assumes fd: "0 \<le> ev_fd e"
  shows "AddEvent ctl k ep e =
    (case ctl k (if waiting ep (ev_fd e) then EPOLL_CTL_MOD else EPOLL_CTL_ADD) (ev_fd e) (interest ep e) of
       (ret, k') \<Rightarrow> Inr (ret, k', ep\<lparr>ep_events := if ret = 0 then table_with ep e else grown ep e\<rparr>))"
proof (cases "ev_fd e \<ge> int (length (ep_events ep))")
  case True
  then have nw: "\<not> waiting ep (ev_fd e)" by (simp add: waiting_def)
  have i: "interest ep e = (if WaitingRead e then EPOLLIN OR EPOLLET else 0) OR
      (if WaitingWrite e then EPOLLOUT OR EPOLLET else 0)"
    using nw by (simp add: interest_def)
  let ?ep = "ep\<lparr>ep_events := resize_events (ep_events ep) (nat (ev_fd e * 2))\<rparr>"
  have "AddEvent ctl k ep e = (case ctl k EPOLL_CTL_ADD (ev_fd e) (interest ep e) of (ret, k') \<Rightarrow>
      Inr (ret, k', if ret = 0 then ?ep\<lparr>ep_events := (ep_events ?ep)[nat (ev_fd e) := e]\<rparr> else ?ep))"
    unfolding AddEvent_def Let_def i if_P [OF True] WaitingRead_def WaitingWrite_def by (rule refl)
  then show ?thesis using True nw by (simp add: table_with_def grown_def split: prod.splits)
next
  case False
  let ?old = "ep_events ep ! nat (ev_fd e)"
  have w: "waiting ep (ev_fd e) = (WaitingRead ?old \<or> WaitingWrite ?old)"
    using False fd by (simp add: waiting_def)
  have z: "((if WaitingRead ?old then EPOLLIN else 0) OR (if WaitingWrite ?old then EPOLLOUT else 0) \<noteq> 0) =
      waiting ep (ev_fd e)"
    unfolding w using events_nonzero(1) [of 0] events_nonzero(1) [of EPOLLOUT] events_nonzero(2) [of 0] by simp
  have i: "interest ep e = ((if WaitingRead ?old then EPOLLIN else 0) OR (if WaitingWrite ?old then EPOLLOUT else 0)) OR
      (if WaitingRead e then EPOLLIN OR EPOLLET else 0) OR (if WaitingWrite e then EPOLLOUT OR EPOLLET else 0)"
    unfolding interest_def w by (auto simp: or.assoc)
  define op where "op = (if waiting ep (ev_fd e) then EPOLL_CTL_MOD else EPOLL_CTL_ADD)"
  have "AddEvent ctl k ep e = (case ctl k op (ev_fd e) (interest ep e) of (ret, k') \<Rightarrow>
      Inr (ret, k', if ret = 0 then ep\<lparr>ep_events := (ep_events ep)[nat (ev_fd e) := e]\<rparr> else ep))"
    unfolding AddEvent_def Let_def if_not_P [OF False] if_not_P [OF fd [folded not_less]]
      WaitingRead_def [of e, symmetric] WaitingWrite_def [of e, symmetric] z op_def i by (rule refl)
  then show ?thesis
    unfolding op_def [symmetric] using False by (simp add: table_with_def grown_def split: prod.splits)
qed

section \<open>What the two tables answer\<close>

lemma grown_length:
  assumes "ep_events ep \<noteq> []" "0 \<le> ev_fd e"
  shows "ev_fd e < int (length (grown ep e))" "length (ep_events ep) \<le> length (grown ep e)"
  using assms by (cases "ep_events ep"; auto simp: grown_def)+

lemma grown_at:
  assumes "x < length (grown ep e)" "ep_events ep \<noteq> []" "0 \<le> ev_fd e"
  shows "grown ep e ! x = (if x < length (ep_events ep) then ep_events ep ! x else Event_default)"
proof (cases "ev_fd e \<ge> int (length (ep_events ep))")
  case True
  then have "length (ep_events ep) \<le> nat (ev_fd e * 2)" using assms by linarith
  with True assms(1) show ?thesis by (simp add: grown_def nth_resize)
qed (use assms in \<open>simp add: grown_def\<close>)

lemma waiting_grown:
  assumes "ep_events ep \<noteq> []" "0 \<le> ev_fd e"
  shows "waiting (ep\<lparr>ep_events := grown ep e\<rparr>) x = waiting ep x"
  using grown_at [of "nat x" ep e, OF _ assms] grown_length(2) [OF assms]
  by (cases "nat x < length (ep_events ep)") (auto simp: waiting_def nat_less_iff)

lemma waiting_table_with:
  assumes "ep_events ep \<noteq> []" "0 \<le> ev_fd e" "WaitingRead e \<or> WaitingWrite e"
  shows "waiting (ep\<lparr>ep_events := table_with ep e\<rparr>) x = (x = ev_fd e \<or> waiting ep x)"
proof -
  have t: "table_with ep e = (grown ep e)[nat (ev_fd e) := e]" by (simp add: table_with_def grown_def)
  have "waiting (ep\<lparr>ep_events := table_with ep e\<rparr>) x =
      (if x = ev_fd e then True else waiting (ep\<lparr>ep_events := grown ep e\<rparr>) x)"
    using grown_length(1) [OF assms(1,2)] assms(2,3)
    by (auto simp: waiting_def t nth_list_update eq_nat_nat_iff nat_less_iff)
  then show ?thesis using waiting_grown [OF assms(1,2)] by simp
qed

definition mask_ok :: "event \<Rightarrow> bool" where
  "mask_ok e \<longleftrightarrow> ev_io_mask e \<in> {IOMaskNone, IOMaskRead, IOMaskWrite, IOMaskRW}"

lemma grown_masks: "\<forall>x \<in> set (ep_events ep). mask_ok x \<Longrightarrow> \<forall>x \<in> set (grown ep e). mask_ok x"
  using set_resize [of "ep_events ep" "nat (ev_fd e * 2)"]
  by (auto simp: grown_def mask_ok_def Event_default_def split: if_splits)

lemma table_with_masks:
  "\<forall>x \<in> set (ep_events ep). mask_ok x \<Longrightarrow> mask_ok e \<Longrightarrow> \<forall>x \<in> set (table_with ep e). mask_ok x"
  using grown_masks [of ep e] set_update_subset_insert [of "grown ep e" "nat (ev_fd e)" e]
  by (auto simp: table_with_def grown_def split: if_splits)

lemma epoll_inv_masks:
  "epoll_inv reg k ep \<longleftrightarrow> ep_events ep \<noteq> [] \<and> (\<forall>fd. (reg k fd \<noteq> None) = waiting ep fd) \<and>
     (\<forall>e \<in> set (ep_events ep). mask_ok e)"
  by (simp add: epoll_inv_def mask_ok_def)

lemma epoll_inv_grown:
  assumes "epoll_inv reg k ep" "0 \<le> ev_fd e" "reg k' = reg k"
  shows "epoll_inv reg k' (ep\<lparr>ep_events := grown ep e\<rparr>)"
proof -
  have i: "ep_events ep \<noteq> []" "\<forall>fd. (reg k fd \<noteq> None) = waiting ep fd" "\<forall>e \<in> set (ep_events ep). mask_ok e"
    using assms(1) by (simp_all add: epoll_inv_masks)
  have "grown ep e \<noteq> []" using grown_length(1) [OF i(1) assms(2)] assms(2) by auto
  then show ?thesis
    using i grown_masks [OF i(3)] assms(3) unfolding epoll_inv_masks by (simp add: waiting_grown [OF i(1) assms(2)])
qed

lemma epoll_inv_table_with:
  assumes "epoll_inv reg k ep" "0 \<le> ev_fd e" "mask_ok e" "WaitingRead e \<or> WaitingWrite e"
    "reg k' = (reg k)(ev_fd e \<mapsto> evs)"
  shows "epoll_inv reg k' (ep\<lparr>ep_events := table_with ep e\<rparr>)"
proof -
  have i: "ep_events ep \<noteq> []" "\<forall>fd. (reg k fd \<noteq> None) = waiting ep fd" "\<forall>e \<in> set (ep_events ep). mask_ok e"
    using assms(1) by (simp_all add: epoll_inv_masks)
  have "grown ep e \<noteq> []" using grown_length(1) [OF i(1) assms(2)] assms(2) by auto
  then have "table_with ep e \<noteq> []" by (simp add: table_with_def grown_def split: if_splits)
  then show ?thesis
    using i table_with_masks [OF i(3) assms(3)] assms(5) unfolding epoll_inv_masks
    by (auto simp: waiting_table_with [OF i(1) assms(2,4)])
qed

lemma AddEvent_ok:
  assumes ctl: "epoll_ctl_ok ctl reg" and inv: "epoll_inv reg k ep" and fd: "0 \<le> ev_fd e"
    and e: "ev_io_mask e \<in> {IOMaskRead, IOMaskWrite, IOMaskRW}"
  shows "\<exists>k'. AddEvent ctl k ep e = Inr (0, k', ep\<lparr>ep_events := table_with ep e\<rparr>) \<and>
    reg k' = (reg k)(ev_fd e \<mapsto> interest ep e) \<and> epoll_inv reg k' (ep\<lparr>ep_events := table_with ep e\<rparr>)"
proof -
  let ?op = "if waiting ep (ev_fd e) then EPOLL_CTL_MOD else EPOLL_CTL_ADD"
  have we: "WaitingRead e \<or> WaitingWrite e" "mask_ok e"
    using e mask_cases by (auto simp: WaitingRead_def WaitingWrite_def mask_ok_def)
  obtain r k' where c: "ctl k ?op (ev_fd e) (interest ep e) = (r, k')" by fastforce
  have reg: "(reg k (ev_fd e) \<noteq> None) = waiting ep (ev_fd e)" using inv by (simp add: epoll_inv_def)
  have rk: "r = 0" "reg k' = (reg k)(ev_fd e \<mapsto> interest ep e)"
    using c reg ctl_add [OF ctl, of k "ev_fd e" "interest ep e" r k'] ctl_mod [OF ctl, of k "ev_fd e" "interest ep e" r k']
    by (auto split: if_splits)
  show ?thesis
    using AddEvent_call [OF fd, of ctl k ep] c rk epoll_inv_table_with [OF inv fd we(2,1) rk(2)] by simp
qed

section \<open>A kernel that may refuse\<close>

text \<open>
  The documented behaviour of \<open>epoll_ctl\<close>, with every refusal: adding fails for a registered
  descriptor (\<open>EEXIST\<close>) and may fail for any other (\<open>EBADF\<close>, \<open>ENOMEM\<close>, \<open>ENOSPC\<close>, \<open>EPERM\<close>), changing fails
  for an unregistered one (\<open>ENOENT\<close>) and may fail for lack of memory, and a refused call returns -1 and
  leaves the interest list alone. Removing, which needs no resources, succeeds exactly for registered
  descriptors.
\<close>

definition epoll_ctl_may :: "'k epoll_ctl \<Rightarrow> ('k \<Rightarrow> int \<rightharpoonup> 32 word) \<Rightarrow> bool" where
  "epoll_ctl_may ctl reg \<longleftrightarrow> (\<forall>k fd evs.
     (case ctl k EPOLL_CTL_ADD fd evs of (r, k') \<Rightarrow>
        r = 0 \<and> reg k fd = None \<and> reg k' = (reg k)(fd \<mapsto> evs) \<or> r = - 1 \<and> reg k' = reg k) \<and>
     (case ctl k EPOLL_CTL_MOD fd evs of (r, k') \<Rightarrow>
        r = 0 \<and> reg k fd \<noteq> None \<and> reg k' = (reg k)(fd \<mapsto> evs) \<or> r = - 1 \<and> reg k' = reg k) \<and>
     (case ctl k EPOLL_CTL_DEL fd evs of (r, k') \<Rightarrow>
        if reg k fd \<noteq> None then r = 0 \<and> reg k' = (reg k)(fd := None) else r = - 1 \<and> reg k' = reg k))"

lemma may_set: "epoll_ctl_may ctl reg \<Longrightarrow> ctl k (if c then EPOLL_CTL_MOD else EPOLL_CTL_ADD) fd evs = (r, k') \<Longrightarrow>
    r = 0 \<and> reg k' = (reg k)(fd \<mapsto> evs) \<or> r = - 1 \<and> reg k' = reg k"
  unfolding epoll_ctl_may_def
  by (drule spec [of _ k], drule spec [of _ fd], drule spec [of _ evs]) (auto split: if_splits)

lemma may_del: "epoll_ctl_may ctl reg \<Longrightarrow> ctl k EPOLL_CTL_DEL fd evs = (r, k') \<Longrightarrow>
    if reg k fd \<noteq> None then r = 0 \<and> reg k' = (reg k)(fd := None) else r = - 1 \<and> reg k' = reg k"
  unfolding epoll_ctl_may_def by (drule spec [of _ k], drule spec [of _ fd], drule spec [of _ evs]) simp

text \<open>A kernel whose interest list holds at most two descriptors.\<close>

definition full_ctl :: "(int \<rightharpoonup> 32 word) epoll_ctl" where
  "full_ctl k op fd evs =
     (case op of
        EPOLL_CTL_ADD \<Rightarrow> if k fd = None \<and> card (dom k) < 2 then (0, k(fd \<mapsto> evs)) else (- 1, k)
      | EPOLL_CTL_MOD \<Rightarrow> if k fd \<noteq> None then (0, k(fd \<mapsto> evs)) else (- 1, k)
      | EPOLL_CTL_DEL \<Rightarrow> if k fd \<noteq> None then (0, k(fd := None)) else (- 1, k))"

lemma full_ctl_may: "epoll_ctl_may full_ctl (\<lambda>k. k)"
  by (simp add: epoll_ctl_may_def full_ctl_def)

lemma AddEvent_may:
  assumes ctl: "epoll_ctl_may ctl reg" and inv: "epoll_inv reg k ep" and fd: "0 \<le> ev_fd e"
    and e: "ev_io_mask e \<in> {IOMaskRead, IOMaskWrite}"
  shows "\<exists>r k' ep'. AddEvent ctl k ep e = Inr (r, k', ep') \<and> epoll_inv reg k' ep' \<and>
    (r = 0 \<and> reg k' = (reg k)(ev_fd e \<mapsto> interest ep e) \<and> events_at (ep_events ep') (ev_fd e) = Inr e \<or>
     r = - 1 \<and> reg k' = reg k \<and> (\<forall>x. x < length (ep_events ep) \<longrightarrow> ep_events ep' ! x = ep_events ep ! x))"
proof -
  let ?op = "if waiting ep (ev_fd e) then EPOLL_CTL_MOD else EPOLL_CTL_ADD"
  have we: "WaitingRead e \<or> WaitingWrite e" "mask_ok e" and ne: "ep_events ep \<noteq> []"
    using e inv mask_cases by (auto simp: WaitingRead_def WaitingWrite_def mask_ok_def epoll_inv_def)
  obtain r k' where c: "ctl k ?op (ev_fd e) (interest ep e) = (r, k')" by fastforce
  have A: "AddEvent ctl k ep e = Inr (r, k', ep\<lparr>ep_events := if r = 0 then table_with ep e else grown ep e\<rparr>)"
    using AddEvent_call [OF fd, of ctl k ep] c by simp
  from may_set [OF ctl c] show ?thesis
  proof
    assume rk: "r = 0 \<and> reg k' = (reg k)(ev_fd e \<mapsto> interest ep e)"
    have "events_at (table_with ep e) (ev_fd e) = Inr e"
      using grown_length(1) [OF ne fd] fd by (auto simp: events_at_def table_with_def grown_def split: if_splits)
    then show ?thesis using A rk epoll_inv_table_with [OF inv fd we(2,1)] by auto
  next
    assume rk: "r = - 1 \<and> reg k' = reg k"
    have "\<forall>x. x < length (ep_events ep) \<longrightarrow> grown ep e ! x = ep_events ep ! x"
      using grown_at [OF _ ne fd] grown_length(2) [OF ne fd] by auto
    then show ?thesis using A rk epoll_inv_grown [OF inv fd] by auto
  qed
qed

lemma DelEvent_may:
  assumes ctl: "epoll_ctl_may ctl reg" and inv: "epoll_inv reg k ep" and fd: "0 \<le> fd"
  shows "\<exists>r k' ep'. DelEvent ctl k ep fd msk = Inr (r, k', ep') \<and> epoll_inv reg k' ep' \<and>
    (r = 0 \<or> r = - 1) \<and> (\<not> waiting ep fd \<longrightarrow> r = - 1 \<and> reg k' = reg k) \<and>
    (waiting ep fd \<and> ev_io_mask (ep_events ep ! nat fd) AND NOT msk = 0 \<longrightarrow> r = 0 \<and> reg k' = (reg k)(fd := None))"
proof (cases "fd < int (length (ep_events ep))")
  case False
  then show ?thesis using inv by (simp add: DelEvent_def waiting_def)
next
  case lt: True
  let ?old = "ep_events ep ! nat fd"
  let ?evs = "ev_io_mask ?old AND NOT msk"
  have i: "ep_events ep \<noteq> []" "\<forall>fd. (reg k fd \<noteq> None) = waiting ep fd" "\<forall>e \<in> set (ep_events ep). mask_ok e"
    using inv by (simp_all add: epoll_inv_masks)
  have "?old \<in> set (ep_events ep)" using fd lt by (simp add: nat_less_iff)
  then have old: "mask_ok ?old" using i(3) by blast
  have w: "waiting ep fd = (ev_io_mask ?old \<noteq> 0)"
    using old fd lt mask_cases by (auto simp: waiting_def WaitingRead_def WaitingWrite_def IOMaskNone_def mask_ok_def)
  show ?thesis
  proof (cases "?evs = 0")
    case True
    let ?ep = "ep\<lparr>ep_events := (ep_events ep)[nat fd := Event_Reset ?old]\<rparr>"
    obtain r k' where c: "ctl k EPOLL_CTL_DEL fd 0 = (r, k')" by fastforce
    note rk = may_del [OF ctl c]
    have D: "DelEvent ctl k ep fd msk = Inr (r, k', ?ep)" using fd lt True c by (simp add: DelEvent_def Let_def)
    have r': "reg k' = (reg k)(fd := None)" using rk by (auto split: if_splits)
    have nr: "\<not> WaitingRead (Event_Reset ?old)" "\<not> WaitingWrite (Event_Reset ?old)" "mask_ok (Event_Reset ?old)"
      by (simp_all add: WaitingRead_def WaitingWrite_def Event_Reset_def IOMaskNone_def mask_ok_def)
    have "waiting ?ep x = (x \<noteq> fd \<and> waiting ep x)" for x
      using fd lt nr by (cases "x = fd") (auto simp: waiting_def nth_list_update nat_less_iff)
    moreover have "\<forall>e \<in> set ((ep_events ep)[nat fd := Event_Reset ?old]). mask_ok e"
      using i(3) nr(3) set_update_subset_insert [of "ep_events ep" "nat fd" "Event_Reset ?old"] by blast
    ultimately have "epoll_inv reg k' ?ep" using i r' by (simp add: epoll_inv_masks)
    then show ?thesis using D rk i(2) r' by (auto split: if_splits)
  next
    case False
    obtain r k' where c: "ctl k (if True then EPOLL_CTL_MOD else EPOLL_CTL_ADD) fd ?evs = (r, k')" by fastforce
    have wt: "waiting ep fd" using w False by auto
    have D: "DelEvent ctl k ep fd msk = Inr (r, k', ep)" using fd lt False c by (simp add: DelEvent_def Let_def)
    have "epoll_inv reg k' ep" "r = 0 \<or> r = - 1"
      using may_set [OF ctl c] i wt by (auto simp: epoll_inv_masks split: if_splits)
    then show ?thesis using D wt False by auto
  qed
qed

section \<open>A kernel that refuses nothing\<close>

lemma DelEvent_ok:
  assumes ctl: "epoll_ctl_ok ctl reg" and inv: "epoll_inv reg k ep"
    and fd: "0 \<le> fd" "fd < int (length (ep_events ep))"
  shows "\<exists>r k' ep'. DelEvent ctl k ep fd msk = Inr (r, k', ep') \<and> epoll_inv reg k' ep' \<and>
    r = (if waiting ep fd then 0 else - 1) \<and>
    (if ev_io_mask (ep_events ep ! nat fd) AND NOT msk = 0
     then reg k' = (reg k)(fd := None) \<and> ep' = ep\<lparr>ep_events := (ep_events ep)[nat fd := Event_Reset (ep_events ep ! nat fd)]\<rparr>
     else reg k' = (reg k)(fd \<mapsto> ev_io_mask (ep_events ep ! nat fd) AND NOT msk) \<and> ep' = ep)"
proof -
  let ?old = "ep_events ep ! nat fd"
  let ?evs = "ev_io_mask ?old AND NOT msk"
  have reg: "\<And>x. (reg k x \<noteq> None) = waiting ep x" and ne: "ep_events ep \<noteq> []"
    using inv by (simp_all add: epoll_inv_def)
  have old: "ev_io_mask ?old \<in> {IOMaskNone, IOMaskRead, IOMaskWrite, IOMaskRW}"
    using inv fd by (auto simp: epoll_inv_def nat_less_iff)
  have w: "waiting ep fd = (ev_io_mask ?old \<noteq> 0)"
    using old fd mask_cases by (auto simp: waiting_def WaitingRead_def WaitingWrite_def IOMaskNone_def)
  show ?thesis
  proof (cases "?evs = 0")
    case True
    let ?ep = "ep\<lparr>ep_events := (ep_events ep)[nat fd := Event_Reset ?old]\<rparr>"
    obtain r k' where c: "ctl k EPOLL_CTL_DEL fd 0 = (r, k')" by fastforce
    have rk: "if reg k fd \<noteq> None then r = 0 \<and> reg k' = (reg k)(fd := None) else r = - 1 \<and> reg k' = reg k"
      by (rule ctl_del [OF ctl c])
    have D: "DelEvent ctl k ep fd msk = Inr (r, k', ?ep)"
      using fd True c by (simp add: DelEvent_def Let_def)
    have r': "reg k' = (reg k)(fd := None)" using rk by (auto split: if_splits)
    have nr: "\<not> WaitingRead (Event_Reset ?old)" "\<not> WaitingWrite (Event_Reset ?old)"
      by (simp_all add: WaitingRead_def WaitingWrite_def Event_Reset_def IOMaskNone_def)
    have "waiting ?ep x = (x \<noteq> fd \<and> waiting ep x)" for x
      using fd nr by (cases "x = fd") (auto simp: waiting_def nth_list_update nat_less_iff)
    then have "(reg k' x \<noteq> None) = waiting ?ep x" for x using reg [of x] r' by simp
    moreover have "\<forall>e \<in> set ((ep_events ep)[nat fd := Event_Reset ?old]).
        ev_io_mask e \<in> {IOMaskNone, IOMaskRead, IOMaskWrite, IOMaskRW}"
      using inv set_update_subset_insert [of "ep_events ep" "nat fd" "Event_Reset ?old"]
      by (auto simp: epoll_inv_def Event_Reset_def)
    ultimately have "epoll_inv reg k' ?ep" using ne by (simp add: epoll_inv_def)
    moreover have "r = (if waiting ep fd then 0 else - 1)" using rk reg [of fd] by (auto split: if_splits)
    ultimately show ?thesis using D r' True by auto
  next
    case False
    then have wt: "waiting ep fd" using w by auto
    obtain r k' where c: "ctl k EPOLL_CTL_MOD fd ?evs = (r, k')" by fastforce
    have rk: "r = 0" "reg k' = (reg k)(fd \<mapsto> ?evs)"
      using ctl_mod [OF ctl c] wt reg [of fd] by simp_all
    have D: "DelEvent ctl k ep fd msk = Inr (r, k', ep)"
      using fd False c by (simp add: DelEvent_def Let_def)
    have "epoll_inv reg k' ep" using inv rk(2) reg wt by (auto simp: epoll_inv_def)
    then show ?thesis using D rk wt False by auto
  qed
qed


lemma AddEvent_replaces:
  assumes ctl: "epoll_ctl_ok ctl reg" and inv: "epoll_inv reg k ep" and fd: "0 \<le> ev_fd e"
    and e: "ev_io_mask e \<in> {IOMaskRead, IOMaskWrite, IOMaskRW}"
  obtains k' ep' where "AddEvent ctl k ep e = Inr (0, k', ep')" "epoll_inv reg k' ep'"
    "reg k' (ev_fd e) = Some (interest ep e)"
    "ev_fd e < int (length (ep_events ep'))" "ep_events ep' ! nat (ev_fd e) = e"
proof -
  have ne: "ep_events ep \<noteq> []" using inv by (simp add: epoll_inv_def)
  have l: "nat (ev_fd e) < length (table_with ep e)"
    using fd ne by (cases "ep_events ep") (auto simp: table_with_def nat_less_iff)
  moreover have "table_with ep e ! nat (ev_fd e) = e"
    using l by (auto simp: table_with_def split: if_splits)
  ultimately show ?thesis
    using AddEvent_ok [OF ctl inv fd e] fd that by (auto simp: nat_less_iff)
qed

lemma Event_new_fields [simp]:
  "ev_fd (Event_new fd msk d) = fd" "ev_io_mask (Event_new fd msk d) = msk"
  "ev_client_data (Event_new fd msk d) = d"
  by (simp_all add: Event_new_def)

lemma Add_one_event:
  assumes ctl: "epoll_ctl_ok ctl reg" and inv: "epoll_inv reg k ep" and fd: "0 \<le> fd"
    and m: "msk \<in> {IOMaskRead, IOMaskWrite}"
  shows "\<exists>k' ep'. AddEvent ctl k ep (Event_new fd msk d) = Inr (0, k', ep') \<and> epoll_inv reg k' ep' \<and>
    reg k' fd = Some (interest ep (Event_new fd msk d)) \<and> waiting ep' fd \<and>
    fd < int (length (ep_events ep')) \<and> ep_events ep' ! nat fd = Event_new fd msk d"
proof -
  let ?e = "Event_new fd msk d"
  have m': "ev_io_mask ?e \<in> {IOMaskRead, IOMaskWrite, IOMaskRW}" and fd': "0 \<le> ev_fd ?e"
    using m fd by auto
  have w: "WaitingRead ?e \<or> WaitingWrite ?e"
    using m mask_cases by (auto simp: WaitingRead_def WaitingWrite_def)
  obtain k' ep' where A: "AddEvent ctl k ep ?e = Inr (0, k', ep')" "epoll_inv reg k' ep'"
    "reg k' (ev_fd ?e) = Some (interest ep ?e)"
    "ev_fd ?e < int (length (ep_events ep'))" "ep_events ep' ! nat (ev_fd ?e) = ?e"
    by (rule AddEvent_replaces [OF ctl inv fd' m'])
  have "waiting ep' fd" using A(4,5) fd w by (simp add: waiting_def)
  then show ?thesis using A by auto
qed

lemmas Add_read = Add_one_event [where msk = IOMaskRead, folded AddReadEvent_def, simplified]
lemmas Add_write = Add_one_event [where msk = IOMaskWrite, folded AddWriteEvent_def, simplified]

section \<open>Runs of the table\<close>

inductive epoll_reach :: "'k epoll_ctl \<Rightarrow> ('k \<Rightarrow> int \<rightharpoonup> 32 word) \<Rightarrow> 'k \<Rightarrow> 'k \<Rightarrow> epoll \<Rightarrow> bool" for ctl reg k0 where
  made: "Epoll_new efd = Inr ep \<Longrightarrow> epoll_reach ctl reg k0 k0 ep"
| other: "epoll_reach ctl reg k0 k ep \<Longrightarrow> reg k' = reg k \<Longrightarrow> epoll_reach ctl reg k0 k' ep"
| read: "epoll_reach ctl reg k0 k ep \<Longrightarrow> 0 \<le> fd \<Longrightarrow> AddReadEvent ctl k ep fd d = Inr (r, k', ep') \<Longrightarrow>
    epoll_reach ctl reg k0 k' ep'"
| writes: "epoll_reach ctl reg k0 k ep \<Longrightarrow> 0 \<le> fd \<Longrightarrow> AddWriteEvent ctl k ep fd d = Inr (r, k', ep') \<Longrightarrow>
    epoll_reach ctl reg k0 k' ep'"
| del: "epoll_reach ctl reg k0 k ep \<Longrightarrow> 0 \<le> fd \<Longrightarrow> DelEvent ctl k ep fd msk = Inr (r, k', ep') \<Longrightarrow>
    epoll_reach ctl reg k0 k' ep'"

lemma Epoll_new_table: "Epoll_new efd = Inr ep \<Longrightarrow> ep_events ep = [Event_default]"
  by (auto simp: Epoll_new_def FDGuard_get_def FDGuard_Reset_def CHECK_def split: if_splits)

lemma fresh_table: "ep_events ep = [Event_default] \<Longrightarrow> \<not> waiting ep fd"
  by (cases "fd = 0") (simp_all add: waiting_def)

lemma Epoll_new_inv: "Epoll_new efd = Inr ep \<Longrightarrow> reg k = Map.empty \<Longrightarrow> epoll_inv reg k ep"
  by (drule Epoll_new_table) (simp add: epoll_inv_def fresh_table, simp add: Event_default_def)

lemma Add_may:
  assumes "epoll_ctl_may ctl reg" "epoll_inv reg k ep" "0 \<le> fd" "msk \<in> {IOMaskRead, IOMaskWrite}"
  shows "\<exists>r k' ep'. AddEvent ctl k ep (Event_new fd msk d) = Inr (r, k', ep') \<and> epoll_inv reg k' ep' \<and>
    (r = 0 \<and> reg k' = (reg k)(fd \<mapsto> interest ep (Event_new fd msk d)) \<and>
       events_at (ep_events ep') fd = Inr (Event_new fd msk d) \<or>
     r = - 1 \<and> reg k' = reg k \<and> (\<forall>x. x < length (ep_events ep) \<longrightarrow> ep_events ep' ! x = ep_events ep ! x))"
  using AddEvent_may [OF assms(1,2), of "Event_new fd msk d"] assms(3,4) by simp

lemmas Add_read_may = Add_may [where msk = IOMaskRead, folded AddReadEvent_def, simplified]
lemmas Add_write_may = Add_may [where msk = IOMaskWrite, folded AddWriteEvent_def, simplified]

lemma epoll_reach_inv:
  assumes ctl: "epoll_ctl_may ctl reg" and k0: "reg k0 = Map.empty" and run: "epoll_reach ctl reg k0 k ep"
  shows "epoll_inv reg k ep"
  using run
proof induction
  case (made efd ep)
  show ?case by (rule Epoll_new_inv [OF made.hyps, where reg = reg, OF k0])
next
  case (other k ep k')
  then show ?case by (simp add: epoll_inv_def)
next
  case (read k ep fd d r k' ep')
  show ?case using Add_read_may [OF ctl read.IH read.hyps(2), of d] read.hyps(3) by auto
next
  case (writes k ep fd d r k' ep')
  show ?case using Add_write_may [OF ctl writes.IH writes.hyps(2), of d] writes.hyps(3) by auto
next
  case (del k ep fd msk r k' ep')
  show ?case using DelEvent_may [OF ctl del.IH del.hyps(2), of msk] del.hyps(3) by auto
qed

text \<open>
  C9. In every state that calls of the table's operations on non-negative descriptors reach, whichever
  of them the kernel refused, a descriptor is on the kernel's interest list exactly when the table
  records an interest for it. Registering reading or writing either returns 0, and then the kernel
  watches the descriptor and the table holds the new event, or returns -1 and changes neither the
  interest list nor any entry of the table. Deregistering all of a registered descriptor returns 0 and
  takes it off the list, deregistering another one returns -1. (A descriptor is not closed while it is
  registered, and the kernel refuses no removal of a registered one.)
\<close>

theorem epoll_table_agrees:
  assumes "epoll_ctl_may ctl reg" and "reg k0 = Map.empty" and "epoll_reach ctl reg k0 k ep" and "0 \<le> fd"
  shows "(reg k fd \<noteq> None) = waiting ep fd \<and>
    (\<exists>r k' ep'. AddReadEvent ctl k ep fd d = Inr (r, k', ep') \<and>
      (r = 0 \<and> reg k' fd \<noteq> None \<and> events_at (ep_events ep') fd = Inr (Event_new fd IOMaskRead d) \<or>
       r = - 1 \<and> reg k' = reg k \<and> (\<forall>x. x < length (ep_events ep) \<longrightarrow> ep_events ep' ! x = ep_events ep ! x))) \<and>
    (\<exists>r k' ep'. AddWriteEvent ctl k ep fd d = Inr (r, k', ep') \<and>
      (r = 0 \<and> reg k' fd \<noteq> None \<and> events_at (ep_events ep') fd = Inr (Event_new fd IOMaskWrite d) \<or>
       r = - 1 \<and> reg k' = reg k \<and> (\<forall>x. x < length (ep_events ep) \<longrightarrow> ep_events ep' ! x = ep_events ep ! x))) \<and>
    (\<exists>k' ep'. DelEvent ctl k ep fd IOMaskRW = Inr (if waiting ep fd then 0 else - 1, k', ep') \<and> reg k' fd = None)"
proof (intro conjI)
  have inv: "epoll_inv reg k ep" by (rule epoll_reach_inv [OF assms(1-3)])
  then show eq: "(reg k fd \<noteq> None) = waiting ep fd" by (simp add: epoll_inv_def)
  show "\<exists>r k' ep'. AddReadEvent ctl k ep fd d = Inr (r, k', ep') \<and>
      (r = 0 \<and> reg k' fd \<noteq> None \<and> events_at (ep_events ep') fd = Inr (Event_new fd IOMaskRead d) \<or>
       r = - 1 \<and> reg k' = reg k \<and> (\<forall>x. x < length (ep_events ep) \<longrightarrow> ep_events ep' ! x = ep_events ep ! x))"
    using Add_read_may [OF assms(1) inv assms(4), of d] by fastforce
  show "\<exists>r k' ep'. AddWriteEvent ctl k ep fd d = Inr (r, k', ep') \<and>
      (r = 0 \<and> reg k' fd \<noteq> None \<and> events_at (ep_events ep') fd = Inr (Event_new fd IOMaskWrite d) \<or>
       r = - 1 \<and> reg k' = reg k \<and> (\<forall>x. x < length (ep_events ep) \<longrightarrow> ep_events ep' ! x = ep_events ep ! x))"
    using Add_write_may [OF assms(1) inv assms(4), of d] by fastforce
  have z: "ev_io_mask (ep_events ep ! nat fd) AND NOT IOMaskRW = 0" if "waiting ep fd"
  proof -
    have "ep_events ep ! nat fd \<in> set (ep_events ep)" using that by (simp add: waiting_def nat_less_iff)
    then have "mask_ok (ep_events ep ! nat fd)" using inv by (simp add: epoll_inv_masks)
    then show ?thesis
      by (auto simp: mask_ok_def IOMaskNone_def IOMaskRead_def IOMaskWrite_def IOMaskRW_def)
  qed
  show "\<exists>k' ep'. DelEvent ctl k ep fd IOMaskRW = Inr (if waiting ep fd then 0 else - 1, k', ep') \<and> reg k' fd = None"
    using DelEvent_may [OF assms(1) inv assms(4), of IOMaskRW] z eq by (cases "waiting ep fd") auto
qed

lemma fresh_epoll: "Epoll_new 3 = Inr \<lparr>ep_stop = False, ep_fd = 3, ep_events = [Event_default]\<rparr>"
  by (simp add: Epoll_new_def FDGuard_get_def FDGuard_Reset_def CHECK_def)

lemma epoll_table_agrees_witness:
  "(\<exists>k' ep'. AddReadEvent full_ctl Map.empty \<lparr>ep_stop = False, ep_fd = 3, ep_events = [Event_default]\<rparr> 5 None
      = Inr (0, k', ep') \<and> k' 5 \<noteq> None) \<and>
    (\<exists>k' ep'. DelEvent full_ctl Map.empty \<lparr>ep_stop = False, ep_fd = 3, ep_events = [Event_default]\<rparr> 5 IOMaskRW
      = Inr (- 1, k', ep') \<and> k' 5 = None)"
proof -
  let ?ep = "\<lparr>ep_stop = False, ep_fd = 3, ep_events = [Event_default]\<rparr>"
  have r: "epoll_reach full_ctl (\<lambda>k. k) Map.empty Map.empty ?ep" by (rule epoll_reach.made [OF fresh_epoll])
  have "fst (projr (AddReadEvent full_ctl Map.empty ?ep 5 None)) = 0" "\<not> waiting ?ep 5"
    by (simp_all add: AddReadEvent_def AddEvent_def Event_new_def full_ctl_def Let_def waiting_def)
  then show ?thesis
    using epoll_table_agrees [OF full_ctl_may _ r, of 5 None] by force
qed

text \<open>
  C30. A descriptor registered for reading and then for writing is watched by the kernel for both,
  but the table keeps only the writing; taking the writing back then removes the descriptor from
  the interest list and clears the entry, so that the connection is never read again.
\<close>

theorem write_interest_replaces_read:
  assumes ctl: "epoll_ctl_ok ctl reg" and inv: "epoll_inv reg k ep" and fd: "0 \<le> fd"
  shows "\<exists>k1 ep1 k2 ep2 k3 ep3.
    AddReadEvent ctl k ep fd d = Inr (0, k1, ep1) \<and>
    AddWriteEvent ctl k1 ep1 fd d = Inr (0, k2, ep2) \<and>
    reg k2 fd = Some (EPOLLIN OR EPOLLOUT OR EPOLLET) \<and>
    events_at (ep_events ep2) fd = Inr (Event_new fd IOMaskWrite d) \<and>
    DelEvent ctl k2 ep2 fd IOMaskWrite = Inr (0, k3, ep3) \<and>
    reg k3 fd = None \<and> events_at (ep_events ep3) fd = Inr Event_default"
proof -
  let ?r = "Event_new fd IOMaskRead d" and ?w = "Event_new fd IOMaskWrite d"
  obtain k1 ep1 where 1: "AddReadEvent ctl k ep fd d = Inr (0, k1, ep1)" "epoll_inv reg k1 ep1"
      "fd < int (length (ep_events ep1))" "ep_events ep1 ! nat fd = ?r"
    using Add_read [OF ctl inv fd, of d] by blast
  obtain k2 ep2 where 2: "AddWriteEvent ctl k1 ep1 fd d = Inr (0, k2, ep2)" "epoll_inv reg k2 ep2"
      "reg k2 fd = Some (interest ep1 ?w)"
      "fd < int (length (ep_events ep2))" "ep_events ep2 ! nat fd = ?w"
    using Add_write [OF ctl 1(2) fd, of d] by blast
  have i: "interest ep1 ?w = EPOLLIN OR EPOLLOUT OR EPOLLET"
    using 1(3,4) fd mask_cases by (simp add: interest_def waiting_def WaitingRead_def WaitingWrite_def)
  have z: "ev_io_mask (ep_events ep2 ! nat fd) AND NOT IOMaskWrite = 0"
    using 2(5) by simp
  have w: "waiting ep2 fd"
    using 2(4,5) fd mask_cases by (simp add: waiting_def WaitingWrite_def)
  obtain k3 ep3 where 3: "DelEvent ctl k2 ep2 fd IOMaskWrite = Inr (0, k3, ep3)"
      "reg k3 = (reg k2)(fd := None)"
      "ep3 = ep2\<lparr>ep_events := (ep_events ep2)[nat fd := Event_Reset (ep_events ep2 ! nat fd)]\<rparr>"
    using DelEvent_ok [OF ctl 2(2) fd 2(4), of IOMaskWrite] z w by auto
  have "Event_Reset ?w = Event_default"
    by (simp add: Event_Reset_def Event_new_def Event_default_def)
  then have e: "events_at (ep_events ep3) fd = Inr Event_default" "reg k3 fd = None"
    using 2(4,5) 3(2,3) fd by (simp_all add: events_at_def nat_less_iff)
  have e2: "events_at (ep_events ep2) fd = Inr ?w" using 2(4,5) fd by (simp add: events_at_def)
  have r2: "reg k2 fd = Some (EPOLLIN OR EPOLLOUT OR EPOLLET)" using 2(3) i by simp
  show ?thesis using 1(1) 2(1) r2 e2 3(1) e by blast
qed

lemma write_interest_replaces_read_witness:
  "\<exists>k1 ep1 k2 ep2 k3 ep3.
    AddReadEvent map_ctl Map.empty \<lparr>ep_stop = False, ep_fd = 3, ep_events = [Event_default]\<rparr> 5 (Some 9) = Inr (0, k1, ep1) \<and>
    AddWriteEvent map_ctl k1 ep1 5 (Some 9) = Inr (0, k2, ep2) \<and>
    k2 5 = Some (EPOLLIN OR EPOLLOUT OR EPOLLET) \<and>
    events_at (ep_events ep2) 5 = Inr (Event_new 5 IOMaskWrite (Some 9)) \<and>
    DelEvent map_ctl k2 ep2 5 IOMaskWrite = Inr (0, k3, ep3) \<and>
    k3 5 = None \<and> events_at (ep_events ep3) 5 = Inr Event_default"
  by (rule write_interest_replaces_read [OF map_ctl_ok])
    (auto simp: epoll_inv_def waiting_def Event_default_def WaitingRead_def WaitingWrite_def IOMaskNone_def)

end
