(* ===== verification/Net.thy ===== *)
theory Net
  imports Epoll String_Util
begin

text \<open>
  src/src/net.cc and net.h over an explicit kernel. The kernel is a parameter: a record of
  functions that answer each system call from the history of all calls made before. A history
  lists the calls of the process with their arguments and answers, so what the program did to its
  descriptors can be read off it.
\<close>

section \<open>Kernel\<close>

datatype sockopt = SO_REUSEADDR | TCP_NODELAY

record sockaddr_in =
  sin_port :: "16 word"
  sin_addr :: "32 word"

datatype syscall =
    S_socket int
  | S_getfl int int
  | S_setfl int "32 word" int
  | S_setfd int int
  | S_setsockopt int sockopt int
  | S_bind int sockaddr_in int
  | S_listen int int int
  | S_connect int sockaddr_in "errno option"
  | S_getsockerr int int int
  | S_accept4 int "errno + int \<times> sockaddr_in"
  | S_readv int read_reply
  | S_writev int "char list list" write_reply
  | S_write int "char list" write_reply
  | S_close int
  | S_epoll_ctl ctl_op int "32 word" int
  | S_time int

type_synonym trace = "syscall list"

record kernel =
  k_socket :: "trace \<Rightarrow> int"
  k_getfl :: "trace \<Rightarrow> int \<Rightarrow> int"
  k_setfl :: "trace \<Rightarrow> int \<Rightarrow> 32 word \<Rightarrow> int"
  k_setfd :: "trace \<Rightarrow> int \<Rightarrow> int"
  k_setsockopt :: "trace \<Rightarrow> int \<Rightarrow> sockopt \<Rightarrow> int"
  k_bind :: "trace \<Rightarrow> int \<Rightarrow> sockaddr_in \<Rightarrow> int"
  k_listen :: "trace \<Rightarrow> int \<Rightarrow> int \<Rightarrow> int"
  k_connect :: "trace \<Rightarrow> int \<Rightarrow> sockaddr_in \<Rightarrow> errno option"
  k_getsockerr :: "trace \<Rightarrow> int \<Rightarrow> int \<times> int"
  k_accept4 :: "trace \<Rightarrow> int \<Rightarrow> errno + int \<times> sockaddr_in"
  k_readv :: "trace \<Rightarrow> int \<Rightarrow> int \<Rightarrow> int \<Rightarrow> read_reply"
  k_writev :: "trace \<Rightarrow> int \<Rightarrow> char list list \<Rightarrow> write_reply"
  k_write :: "trace \<Rightarrow> int \<Rightarrow> char list \<Rightarrow> write_reply"
  k_epoll_ctl :: "trace \<Rightarrow> ctl_op \<Rightarrow> int \<Rightarrow> 32 word \<Rightarrow> int"
  k_time :: "trace \<Rightarrow> int"
  k_aton :: "char list \<Rightarrow> 32 word option"
  k_ntop :: "32 word \<Rightarrow> char list option"

definition sys_socket :: "kernel \<Rightarrow> trace \<Rightarrow> int \<times> trace" where
  "sys_socket k tr = (let r = k_socket k tr in (r, tr @ [S_socket r]))"

definition sys_getfl :: "kernel \<Rightarrow> trace \<Rightarrow> int \<Rightarrow> int \<times> trace" where
  "sys_getfl k tr fd = (let r = k_getfl k tr fd in (r, tr @ [S_getfl fd r]))"

definition sys_setfl :: "kernel \<Rightarrow> trace \<Rightarrow> int \<Rightarrow> 32 word \<Rightarrow> int \<times> trace" where
  "sys_setfl k tr fd flg = (let r = k_setfl k tr fd flg in (r, tr @ [S_setfl fd flg r]))"

definition sys_setfd :: "kernel \<Rightarrow> trace \<Rightarrow> int \<Rightarrow> int \<times> trace" where
  "sys_setfd k tr fd = (let r = k_setfd k tr fd in (r, tr @ [S_setfd fd r]))"

definition sys_setsockopt :: "kernel \<Rightarrow> trace \<Rightarrow> int \<Rightarrow> sockopt \<Rightarrow> int \<times> trace" where
  "sys_setsockopt k tr fd opt = (let r = k_setsockopt k tr fd opt in (r, tr @ [S_setsockopt fd opt r]))"

definition sys_bind :: "kernel \<Rightarrow> trace \<Rightarrow> int \<Rightarrow> sockaddr_in \<Rightarrow> int \<times> trace" where
  "sys_bind k tr fd sa = (let r = k_bind k tr fd sa in (r, tr @ [S_bind fd sa r]))"

definition sys_listen :: "kernel \<Rightarrow> trace \<Rightarrow> int \<Rightarrow> int \<Rightarrow> int \<times> trace" where
  "sys_listen k tr fd n = (let r = k_listen k tr fd n in (r, tr @ [S_listen fd n r]))"

definition sys_connect :: "kernel \<Rightarrow> trace \<Rightarrow> int \<Rightarrow> sockaddr_in \<Rightarrow> errno option \<times> trace" where
  "sys_connect k tr fd sa = (let r = k_connect k tr fd sa in (r, tr @ [S_connect fd sa r]))"

definition sys_getsockerr :: "kernel \<Rightarrow> trace \<Rightarrow> int \<Rightarrow> int \<times> int \<times> trace" where
  "sys_getsockerr k tr fd = (let (r, e) = k_getsockerr k tr fd in (r, e, tr @ [S_getsockerr fd r e]))"

definition sys_accept4 :: "kernel \<Rightarrow> trace \<Rightarrow> int \<Rightarrow> (errno + int \<times> sockaddr_in) \<times> trace" where
  "sys_accept4 k tr fd = (let r = k_accept4 k tr fd in (r, tr @ [S_accept4 fd r]))"

definition sys_write :: "kernel \<Rightarrow> trace \<Rightarrow> int \<Rightarrow> char list \<Rightarrow> write_reply \<times> trace" where
  "sys_write k tr fd bs = (let r = k_write k tr fd bs in (r, tr @ [S_write fd bs r]))"

definition sys_close :: "trace \<Rightarrow> int \<Rightarrow> trace" where
  "sys_close tr fd = tr @ [S_close fd]"

definition sys_epoll_ctl :: "kernel \<Rightarrow> trace epoll_ctl" where
  "sys_epoll_ctl k tr op fd evs = (let r = k_epoll_ctl k tr op fd evs in (r, tr @ [S_epoll_ctl op fd evs r]))"

definition sys_time :: "kernel \<Rightarrow> trace \<Rightarrow> int \<times> trace" where
  "sys_time k tr = (let r = k_time k tr in (r, tr @ [S_time r]))"

text \<open>Destroying a guard closes its descriptor.\<close>

definition run_guard :: "fd_guard \<Rightarrow> trace \<Rightarrow> trace" where
  "run_guard g tr = tr @ map S_close (FDGuard_destroy g)"

section \<open>net.cc\<close>

text \<open>Byte order of ports on a little-endian machine.\<close>

definition htons :: "16 word \<Rightarrow> 16 word" where
  "htons x = push_bit 8 x OR drop_bit 8 x"

definition ntohs :: "16 word \<Rightarrow> 16 word" where
  "ntohs x = push_bit 8 x OR drop_bit 8 x"

definition O_NONBLOCK :: "32 word" where
  "O_NONBLOCK = 2048"

definition INADDR_ANY :: "32 word" where
  "INADDR_ANY = 0"

definition SetNonBlocking :: "kernel \<Rightarrow> trace \<Rightarrow> int \<Rightarrow> int \<times> trace" where
  "SetNonBlocking k tr fd =
     (let (flg, t1) = sys_getfl k tr fd; (r, t2) = sys_setfl k t1 fd (word_of_int flg OR O_NONBLOCK) in
      if r < 0 then (- 1, t2) else (0, t2))"

definition SetCloseOnExec :: "kernel \<Rightarrow> trace \<Rightarrow> int \<Rightarrow> int \<times> trace" where
  "SetCloseOnExec k tr fd = sys_setfd k tr fd"

definition SetReuse :: "kernel \<Rightarrow> trace \<Rightarrow> int \<Rightarrow> int \<times> trace" where
  "SetReuse k tr fd = sys_setsockopt k tr fd SO_REUSEADDR"

definition SetNoDelay :: "kernel \<Rightarrow> trace \<Rightarrow> int \<Rightarrow> int \<times> trace" where
  "SetNoDelay k tr fd =
     (let (r, t1) = sys_setsockopt k tr fd TCP_NODELAY in if r = - 1 then (- 1, t1) else (0, t1))"

definition Bind :: "kernel \<Rightarrow> trace \<Rightarrow> int \<Rightarrow> int \<Rightarrow> int \<times> trace" where
  "Bind k tr fd port =
     (let (r, t1) = sys_bind k tr fd \<lparr>sin_port = htons (word_of_int port), sin_addr = INADDR_ANY\<rparr> in
      if r < 0 then (- 1, t1) else (0, t1))"

definition Listen :: "kernel \<Rightarrow> trace \<Rightarrow> int \<Rightarrow> int \<times> trace" where
  "Listen k tr fd = (let (r, t1) = sys_listen k tr fd 5 in if r < 0 then (- 1, t1) else (0, t1))"

definition CreateTcpServer :: "kernel \<Rightarrow> trace \<Rightarrow> int \<Rightarrow> int \<times> trace" where
  "CreateTcpServer k tr port =
     (let (sock, t0) = sys_socket k tr in
      if sock < 0 then (- 1, t0) else
      let (r1, t1) = SetNonBlocking k t0 sock in if r1 \<noteq> 0 then (- 1, t1) else
      let (r2, t2) = SetCloseOnExec k t1 sock in if r2 \<noteq> 0 then (- 1, t2) else
      let (r3, t3) = SetReuse k t2 sock in if r3 \<noteq> 0 then (- 1, t3) else
      let (r4, t4) = SetNoDelay k t3 sock in if r4 \<noteq> 0 then (- 1, t4) else
      let (r5, t5) = Bind k t4 sock port in if r5 \<noteq> 0 then (- 1, t5) else
      let (r6, t6) = Listen k t5 sock in if r6 \<noteq> 0 then (- 1, t6) else
      (sock, t6))"

definition GetIpPortFromSockAddr :: "kernel \<Rightarrow> sockaddr_in \<Rightarrow> (char list \<times> int) option" where
  "GetIpPortFromSockAddr k sa =
     (case k_ntop k (sin_addr sa) of
        Some ip \<Rightarrow> Some (c_str (take 15 ip), uint (ntohs (sin_port sa)))
      | None \<Rightarrow> None)"

end
