(* ===== verification/Socket.thy ===== *)
theory Socket
  imports Net Http
begin

text \<open>
  src/src/socket.h and socket.cc with the controllers of src/src/controller.h: the sockets and the
  pool that owns them, over the state of the whole process. A socket object has an address in a
  list of cells, as a block has; callbacks and closures are named by numbers and what they do is
  an argument of the operations that call them.
\<close>

section \<open>State\<close>

record Peer =
  pe_ip :: "char list"
  pe_port :: int

definition Peer_default :: Peer where
  "Peer_default = \<lparr>pe_ip = [], pe_port = - 1\<rparr>"

definition print_Peer :: "Peer \<Rightarrow> char list" where
  "print_Peer p = pe_ip p @ '':'' @ dec_int (pe_port p)"

text \<open>The callbacks the program installs are the two of the server; others belong to clients.\<close>

datatype callback = Server_Accept | Server_OnNewMsgReceived | OtherCallback nat

record SocketOptions =
  so_fd :: int
  so_peer :: Peer
  so_arg :: nat
  so_on_edge_triggered_event :: callback

record WriteConfig =
  wc_call_id :: "64 word"
  wc_on_replied :: "nat option"

datatype Status = ST_IDLE | ST_KEEP_WRITE | ST_ERROR | ST_FAIL_CONNECT | ST_CONNECTING | ST_CONNECTED

record sock =
  sk_fd :: int
  sk_status :: Status
  sk_last_active :: int
  sk_options :: SocketOptions
  sk_in :: iobuffer
  sk_out :: iobuffer
  sk_req_done :: "(64 word \<times> nat) list"

record controller =
  ct_request :: http_request
  ct_response :: http_response
  ct_sock :: "nat option"
  ct_call_id :: "64 word"
  ct_failed :: bool
  ct_err_txt :: "char list"

text \<open>
  The process: the calls made so far, the blocks, the socket objects, the global pools and event
  table, and the closures that have not been deleted.
\<close>

record world =
  w_trace :: trace
  w_mem :: mem
  w_socks :: "sock option list"
  w_pool :: "int \<rightharpoonup> nat"
  w_epoll :: epoll
  w_cntls :: "64 word \<rightharpoonup> controller"
  w_closures :: "nat set"

text \<open>The environment: the kernel, what running a closure does, and which delete themselves.\<close>

record env =
  e_kernel :: kernel
  e_run :: "nat \<Rightarrow> world \<Rightarrow> world res"
  e_self_deleting :: "nat \<Rightarrow> bool"
  e_callback :: "nat \<Rightarrow> nat \<Rightarrow> int \<Rightarrow> world \<Rightarrow> world res"

definition sock_at :: "world \<Rightarrow> nat option \<Rightarrow> sock res" where
  "sock_at w p =
     (case p of None \<Rightarrow> Inl NullDeref
      | Some a \<Rightarrow> if a < length (w_socks w)
                  then (case w_socks w ! a of None \<Rightarrow> Inl Dangling | Some s \<Rightarrow> Inr s) else Inl Dangling)"

definition put_sock :: "nat \<Rightarrow> sock \<Rightarrow> world \<Rightarrow> world" where
  "put_sock a s w = w\<lparr>w_socks := (w_socks w)[a := Some s]\<rparr>"

text \<open>Assign through a pointer to a socket.\<close>

definition upd_sock :: "nat \<Rightarrow> (sock \<Rightarrow> sock) \<Rightarrow> world \<Rightarrow> world res" where
  "upd_sock a f w = bindR (sock_at w (Some a)) (\<lambda>s. Inr (put_sock a (f s) w))"

definition delete_closure :: "nat \<Rightarrow> world \<Rightarrow> world res" where
  "delete_closure c w =
     (if c \<in> w_closures w then Inr (w\<lparr>w_closures := w_closures w - {c}\<rparr>) else Inl Dangling)"

definition run_closure :: "env \<Rightarrow> nat \<Rightarrow> world \<Rightarrow> world res" where
  "run_closure e c w =
     (if c \<in> w_closures w
      then bindR (e_run e c w) (\<lambda>w'. if e_self_deleting e c then delete_closure c w' else Inr w')
      else Inl Dangling)"

definition now :: "env \<Rightarrow> world \<Rightarrow> int \<times> world" where
  "now e w = (let (t, tr) = sys_time (e_kernel e) (w_trace w) in (int32 t, w\<lparr>w_trace := tr\<rparr>))"

definition epoll_add_read :: "env \<Rightarrow> int \<Rightarrow> nat option \<Rightarrow> world \<Rightarrow> (int \<times> world) res" where
  "epoll_add_read e fd data w =
     bindR (AddReadEvent (sys_epoll_ctl (e_kernel e)) (w_trace w) (w_epoll w) fd data)
       (\<lambda>(r, tr, ep). Inr (r, w\<lparr>w_trace := tr, w_epoll := ep\<rparr>))"

definition epoll_add_write :: "env \<Rightarrow> int \<Rightarrow> nat option \<Rightarrow> world \<Rightarrow> (int \<times> world) res" where
  "epoll_add_write e fd data w =
     bindR (AddWriteEvent (sys_epoll_ctl (e_kernel e)) (w_trace w) (w_epoll w) fd data)
       (\<lambda>(r, tr, ep). Inr (r, w\<lparr>w_trace := tr, w_epoll := ep\<rparr>))"

definition epoll_del :: "env \<Rightarrow> int \<Rightarrow> IOMask \<Rightarrow> world \<Rightarrow> (int \<times> world) res" where
  "epoll_del e fd msk w =
     bindR (DelEvent (sys_epoll_ctl (e_kernel e)) (w_trace w) (w_epoll w) fd msk)
       (\<lambda>(r, tr, ep). Inr (r, w\<lparr>w_trace := tr, w_epoll := ep\<rparr>))"

section \<open>Sockets\<close>

definition Socket_new :: "env \<Rightarrow> SocketOptions \<Rightarrow> world \<Rightarrow> nat \<times> world" where
  "Socket_new e options w =
     (let (t, w1) = now e w in
      (length (w_socks w1),
       w1\<lparr>w_socks := w_socks w1 @ [Some \<lparr>sk_fd = so_fd options, sk_status = ST_IDLE, sk_last_active = t,
          sk_options = options, sk_in = IOBuffer_init, sk_out = IOBuffer_init, sk_req_done = []\<rparr>]\<rparr>))"

text \<open>
  \<open>delete\<close> of a socket: the destructor's body, then its members in reverse order.
\<close>

fun delete_closures :: "nat list \<Rightarrow> world \<Rightarrow> world res" where
  "delete_closures [] w = Inr w"
| "delete_closures (c # cs) w = bindR (delete_closure c w) (delete_closures cs)"

definition Socket_delete :: "nat \<Rightarrow> world \<Rightarrow> world res" where
  "Socket_delete a w =
     bindR (sock_at w (Some a)) (\<lambda>s.
       let w0 = (if sk_fd s > 0 then w\<lparr>w_trace := sys_close (w_trace w) (sk_fd s)\<rparr> else w) in
       bindR (delete_closures (map snd (sk_req_done s)) w0) (\<lambda>w1.
       bindR (IOBuffer_destroy (w_mem w1) (sk_out s)) (\<lambda>(m1, _).
       bindR (IOBuffer_destroy m1 (sk_in s)) (\<lambda>(m2, _).
       Inr (w1\<lparr>w_mem := m2, w_socks := (w_socks w1)[a := None]\<rparr>)))))"

definition ProcessEpollInput ::
  "env \<Rightarrow> (callback \<Rightarrow> nat \<Rightarrow> int \<Rightarrow> world \<Rightarrow> world res) \<Rightarrow> int \<Rightarrow> nat option \<Rightarrow> world \<Rightarrow> world res" where
  "ProcessEpollInput e call sock_fd client_data w =
     (case client_data of None \<Rightarrow> Inr w
      | Some a \<Rightarrow>
          let (t, w1) = now e w in
          bindR (upd_sock a (\<lambda>s. s\<lparr>sk_last_active := t\<rparr>) w1) (\<lambda>w2.
          bindR (sock_at w2 (Some a)) (\<lambda>s.
          CHECK (sock_fd = sk_fd s)
            (call (so_on_edge_triggered_event (sk_options s)) (so_arg (sk_options s)) sock_fd w2))))"

definition InitSock :: "env \<Rightarrow> nat \<Rightarrow> world \<Rightarrow> (int \<times> sockaddr_in \<times> world) res" where
  "InitSock e a w =
     bindR (sock_at w (Some a)) (\<lambda>s.
       let peer = so_peer (sk_options s); k = e_kernel e;
           sa = \<lparr>sin_port = htons (word_of_int (pe_port peer)), sin_addr = 0\<rparr> in
       case k_aton k (c_str (pe_ip peer)) of
         None \<Rightarrow> Inr (- 1, sa, w)
       | Some ip \<Rightarrow>
           let sa' = sa\<lparr>sin_addr := ip\<rparr>; (fd, t1) = sys_socket k (w_trace w);
               w1 = put_sock a (s\<lparr>sk_fd := fd\<rparr>) (w\<lparr>w_trace := t1\<rparr>) in
           if fd < 0 then Inr (- 1, sa', w1) else
           let (r2, t2) = SetNonBlocking k t1 fd in
           if r2 \<noteq> 0 then Inr (- 1, sa', w1\<lparr>w_trace := t2\<rparr>) else
           let (r3, t3) = SetCloseOnExec k t2 fd in
           if r3 = - 1 then Inr (- 1, sa', w1\<lparr>w_trace := t3\<rparr>) else
           Inr (0, sa', w1\<lparr>w_trace := t3\<rparr>))"

text \<open>The loop around \<open>connect\<close> returns in its first round on every branch.\<close>

definition ConnectIfNot :: "env \<Rightarrow> nat \<Rightarrow> world \<Rightarrow> (int \<times> world) res" where
  "ConnectIfNot e a w =
     bindR (sock_at w (Some a)) (\<lambda>s0.
       if sk_fd s0 > 0 then Inr (0, put_sock a (s0\<lparr>sk_status := ST_CONNECTED\<rparr>) w)
       else
         bindR (InitSock e a w) (\<lambda>(rc, peer_addr, w1).
           if rc \<noteq> 0 then Inr (- 1, w1)
           else
             bindR (sock_at w1 (Some a)) (\<lambda>s.
               let (reply, tr) = sys_connect (e_kernel e) (w_trace w1) (sk_fd s) peer_addr;
                   w2 = w1\<lparr>w_trace := tr\<rparr> in
               case reply of
                 None \<Rightarrow> Inr (0, put_sock a (s\<lparr>sk_status := ST_CONNECTED\<rparr>) w2)
               | Some err \<Rightarrow>
                   if err = EINTR then Inr (- 1, w2)
                   else if err = EINPROGRESS then
                     bindR (epoll_add_write e (sk_fd s) (Some a) w2) (\<lambda>(r, w3).
                       if r < 0 then Inr (- 1, w3)
                       else Inr (0, put_sock a (s\<lparr>sk_status := ST_CONNECTING\<rparr>) w3))
                   else Inr (- 1, w2))))"

text \<open>\<open>WriteBuff().WriteToSock(fd)\<close> through a pointer to a socket.\<close>

definition sock_write :: "env \<Rightarrow> nat \<Rightarrow> int \<Rightarrow> world \<Rightarrow> (write_reply \<times> world) res" where
  "sock_write e a fd w =
     bindR (sock_at w (Some a)) (\<lambda>s.
     bindR (WriteToSock (k_writev (e_kernel e) (w_trace w) fd) (w_mem w) (sk_out s)) (\<lambda>(vecs, reply).
     Inr (reply, if vecs = [] then w else w\<lparr>w_trace := w_trace w @ [S_writev fd vecs reply]\<rparr>)))"

definition out_PopFront :: "nat \<Rightarrow> int \<Rightarrow> world \<Rightarrow> world res" where
  "out_PopFront a n w =
     bindR (sock_at w (Some a)) (\<lambda>s.
     bindR (PopFront (w_mem w) (sk_out s) n) (\<lambda>(m, b).
     Inr (put_sock a (s\<lparr>sk_out := b\<rparr>) (w\<lparr>w_mem := m\<rparr>))))"

definition StartWrite :: "env \<Rightarrow> nat \<Rightarrow> WriteConfig \<Rightarrow> world \<Rightarrow> (int \<times> world) res" where
  "StartWrite e a config w0 =
     (let (t, w) = now e w0 in
      bindR (upd_sock a (\<lambda>s. s\<lparr>sk_last_active := t\<rparr>) w) (\<lambda>w1.
      bindR (sock_at w1 (Some a)) (\<lambda>s1.
        if sk_status s1 = ST_ERROR then Inr (- 1, w1)
        else
          bindR (ConnectIfNot e a w1) (\<lambda>(rc, w2).
            if rc < 0 then
              bindR (upd_sock a (\<lambda>s. s\<lparr>sk_status := ST_FAIL_CONNECT\<rparr>) w2) (\<lambda>w3. Inr (- 1, w3))
            else
              bindR (sock_at w2 (Some a)) (\<lambda>s2.
                if sk_status s2 = ST_CONNECTING then Inr (0, w2)
                else CHECK (sk_status s2 = ST_CONNECTED)
                  (bindR (sock_write e a (sk_fd s2) w2) (\<lambda>(reply, w3).
                     let written = write_rc reply in
                     if written < 0 then
                       bindR (upd_sock a (\<lambda>s. s\<lparr>sk_status := ST_ERROR\<rparr>) w3) (\<lambda>w4. Inr (- 1, w4))
                     else
                       bindR (out_PopFront a written w3) (\<lambda>w4.
                       bindR (sock_at w4 (Some a)) (\<lambda>s4.
                       bindR (IOBuffer_Empty (w_mem w4) (sk_out s4)) (\<lambda>emp.
                         if emp then
                           let w5 = put_sock a (s4\<lparr>sk_status := ST_IDLE\<rparr>) w4 in
                           bindR (case wc_on_replied config of None \<Rightarrow> Inr w5 | Some c \<Rightarrow> run_closure e c w5)
                             (\<lambda>w6. Inr (written, w6))
                         else
                           let w5 = put_sock a (s4\<lparr>sk_status := ST_KEEP_WRITE\<rparr>) w4 in
                           bindR (epoll_add_write e (sk_fd s4) (Some a) w5) (\<lambda>(_, w6).
                           bindR (case wc_on_replied config of None \<Rightarrow> Inr w6
                                  | Some c \<Rightarrow>
                                      bindR (sock_at w6 (Some a)) (\<lambda>s6.
                                      CHECK (map_of (sk_req_done s6) (wc_call_id config) = None)
                                        (Inr (put_sock a (s6\<lparr>sk_req_done :=
                                           (wc_call_id config, c) # sk_req_done s6\<rparr>) w6))))
                             (\<lambda>w7. Inr (written, w7)))))))))))))"

definition CheckConnected :: "env \<Rightarrow> int \<Rightarrow> world \<Rightarrow> (bool \<times> world) res" where
  "CheckConnected e fd w =
     (let (r, err, tr) = sys_getsockerr (e_kernel e) (w_trace w) fd; w1 = w\<lparr>w_trace := tr\<rparr> in
      if r < 0 \<or> err \<noteq> 0 then bindR (epoll_del e fd IOMaskRW w1) (\<lambda>(_, w2). Inr (False, w2))
      else Inr (True, w1))"

text \<open>
  The loop of \<open>ProcessEpollOut\<close>; it ends when the buffer is empty or the kernel refuses. The
  result tells whether the code after the loop is reached.
\<close>

fun drain_out :: "env \<Rightarrow> nat \<Rightarrow> nat \<Rightarrow> int \<Rightarrow> world \<Rightarrow> (bool \<times> world) res" where
  "drain_out e 0 a fd w = Inl FuelOut"
| "drain_out e (Suc n) a fd w =
     bindR (sock_write e a fd w) (\<lambda>(reply, w1).
       case reply of
         WriteErr err \<Rightarrow>
           if err \<noteq> EINTR \<and> err \<noteq> EAGAIN \<and> err \<noteq> EWOULDBLOCK then
             bindR (upd_sock a (\<lambda>s. s\<lparr>sk_status := ST_ERROR\<rparr>) w1) (\<lambda>w2. Inr (True, w2))
           else Inr (False, w1)
       | Wrote n' \<Rightarrow>
           if n' = 0 then Inr (True, w1)
           else bindR (out_PopFront a (int n') w1) (drain_out e n a fd))"

definition ProcessEpollOut :: "env \<Rightarrow> nat \<Rightarrow> int \<Rightarrow> nat option \<Rightarrow> world \<Rightarrow> world res" where
  "ProcessEpollOut e fuel sock_fd client_data w =
     (case client_data of None \<Rightarrow> Inr w
      | Some a \<Rightarrow>
          let (t, w1) = now e w in
          bindR (upd_sock a (\<lambda>s. s\<lparr>sk_last_active := t\<rparr>) w1) (\<lambda>w2.
          bindR (sock_at w2 (Some a)) (\<lambda>s.
          CHECK (sk_fd s = sock_fd)
            (if sk_status s = ST_ERROR then Inr w2
             else
               bindR (if sk_status s = ST_CONNECTING then CheckConnected e (sk_fd s) w2 else Inr (True, w2))
                 (\<lambda>(conn, w3).
                   if \<not> conn then Inr w3
                   else
                     bindR (drain_out e fuel a sock_fd w3) (\<lambda>(after, w4).
                       if \<not> after then Inr w4
                       else bindR (sock_at w4 (Some a)) (\<lambda>s4.
                            bindR (epoll_del e (sk_fd s4) IOMaskWrite w4) (\<lambda>(_, w5). Inr w5))))))))"

text \<open>
  The loop reads until end of file or an error other than an interruption. The number of rounds
  is the kernel's choice, so it is bounded by fuel.
\<close>

fun ReadUntilFail :: "env \<Rightarrow> nat \<Rightarrow> nat \<Rightarrow> world \<Rightarrow> (read_reply \<times> world) res" where
  "ReadUntilFail e 0 a w = Inl FuelOut"
| "ReadUntilFail e (Suc n) a w =
     bindR (sock_at w (Some a)) (\<lambda>s.
     bindR (ReadFromSock (k_readv (e_kernel e) (w_trace w) (sk_fd s)) (w_mem w) (sk_in s)) (\<lambda>(reply, m, b).
       let w1 = put_sock a (s\<lparr>sk_in := b\<rparr>) (w\<lparr>w_trace := w_trace w @ [S_readv (sk_fd s) reply], w_mem := m\<rparr>) in
       case reply of
         ReadErr err \<Rightarrow> if err \<noteq> EINTR then Inr (reply, w1) else ReadUntilFail e n a w1
       | ReadBytes bs \<Rightarrow> if bs = [] then Inr (reply, w1) else ReadUntilFail e n a w1))"

definition WriteNoBuff :: "env \<Rightarrow> nat \<Rightarrow> char list \<Rightarrow> world \<Rightarrow> (int \<times> world) res" where
  "WriteNoBuff e a data w =
     bindR (sock_at w (Some a)) (\<lambda>s.
       let (reply, tr) = sys_write (e_kernel e) (w_trace w) (sk_fd s) data;
           (len, st) = (case reply of
              WriteErr err \<Rightarrow> if err = EINTR \<or> err = EAGAIN \<or> err = EWOULDBLOCK
                              then (0, ST_KEEP_WRITE) else (- 1, ST_ERROR)
            | Wrote n \<Rightarrow> (int n, if n = length data then ST_IDLE else ST_KEEP_WRITE)) in
       Inr (len, put_sock a (s\<lparr>sk_status := st\<rparr>) (w\<lparr>w_trace := tr\<rparr>)))"

definition StatusToString :: "Status \<Rightarrow> char list" where
  "StatusToString st =
     (case st of ST_IDLE \<Rightarrow> ''IDLE'' | ST_KEEP_WRITE \<Rightarrow> ''KEEP_WRITE'' | ST_ERROR \<Rightarrow> ''ERROR''
      | ST_FAIL_CONNECT \<Rightarrow> ''FAIL_CONNECT'' | ST_CONNECTING \<Rightarrow> ''CONNECTING'' | ST_CONNECTED \<Rightarrow> ''CONNECTED'')"

section \<open>The pool of sockets\<close>

definition SocketPool_Insert :: "nat \<Rightarrow> world \<Rightarrow> world res" where
  "SocketPool_Insert a w =
     bindR (sock_at w (Some a)) (\<lambda>s.
     CHECK (w_pool w (sk_fd s) = None) (Inr (w\<lparr>w_pool := (w_pool w)(sk_fd s \<mapsto> a)\<rparr>)))"

definition SocketPool_Get :: "int \<Rightarrow> world \<Rightarrow> nat option" where
  "SocketPool_Get fd w = w_pool w fd"

definition SocketPool_Remove :: "env \<Rightarrow> int \<Rightarrow> world \<Rightarrow> world res" where
  "SocketPool_Remove e fd w =
     (case w_pool w fd of
        None \<Rightarrow> Inl CheckFail
      | Some a \<Rightarrow>
          bindR (epoll_del e fd IOMaskRW w) (\<lambda>(r, w1).
          CHECK (r = 0)
            (bindR (Socket_delete a w1) (\<lambda>w2. Inr (w2\<lparr>w_pool := (w_pool w2)(fd := None)\<rparr>)))))"

end
