(* ===== verification/Server.thy ===== *)
theory Server
  imports Socket
begin

text \<open>
  src/src/controller.h, server.h, server.cc, channel.h and channel.cc: controllers and their pool,
  the server's callbacks and its event loop, and the client's channel. A service is code of the
  user: what its \<open>CallMethod\<close> does with the process is an argument, which is given the closure
  it may run.
\<close>

section \<open>Controllers\<close>

definition Controller_new :: controller where
  "Controller_new = \<lparr>ct_request = blank_HttpRequest, ct_response = blank_HttpResponse, ct_sock = None,
     ct_call_id = 0, ct_failed = False, ct_err_txt = []\<rparr>"

definition Controller_Reset :: "controller \<Rightarrow> controller" where
  "Controller_Reset c = c\<lparr>ct_failed := False, ct_err_txt := []\<rparr>"

definition SetFailed :: "char list \<Rightarrow> controller \<Rightarrow> controller" where
  "SetFailed msg c = c\<lparr>ct_failed := True, ct_err_txt := msg\<rparr>"

definition Failed :: "controller \<Rightarrow> bool" where
  "Failed c = ct_failed c"

definition ErrorText :: "controller \<Rightarrow> char list" where
  "ErrorText c = ct_err_txt c"

definition StartCancel :: "controller \<Rightarrow> controller" where
  "StartCancel c = c"

definition IsCanceled :: "controller \<Rightarrow> bool" where
  "IsCanceled c = False"

definition NotifyOnCancel :: "nat option \<Rightarrow> controller \<Rightarrow> controller" where
  "NotifyOnCancel done' c = c"

text \<open>The pool; \<open>Exist\<close> and \<open>Remove\<close> take the call id as a 32-bit integer.\<close>

definition as_uint32 :: "64 word \<Rightarrow> 64 word" where
  "as_uint32 c = ucast (ucast c :: 32 word)"

definition ControllerPool_Allocate :: "64 word \<Rightarrow> world \<Rightarrow> world" where
  "ControllerPool_Allocate c w = w\<lparr>w_cntls := (w_cntls w)(c \<mapsto> Controller_new)\<rparr>"

definition ControllerPool_Exist :: "64 word \<Rightarrow> world \<Rightarrow> bool" where
  "ControllerPool_Exist c w \<longleftrightarrow> w_cntls w (as_uint32 c) \<noteq> None"

definition ControllerPool_Remove :: "64 word \<Rightarrow> world \<Rightarrow> world res" where
  "ControllerPool_Remove c w =
     CHECK (ControllerPool_Exist c w) (Inr (w\<lparr>w_cntls := (w_cntls w)(as_uint32 c := None)\<rparr>))"

definition cntl_at :: "world \<Rightarrow> 64 word \<Rightarrow> controller res" where
  "cntl_at w c = (case w_cntls w c of None \<Rightarrow> Inl Dangling | Some x \<Rightarrow> Inr x)"

section \<open>Services\<close>

record service =
  sv_name :: "char list"
  sv_methods :: "nat list"

record MethodProperty =
  mp_service :: service
  mp_method :: nat

record server =
  sr_port :: "32 word"
  sr_protocol :: "char list"
  sr_services :: "char list \<rightharpoonup> MethodProperty"

definition Server_new :: "32 word \<Rightarrow> char list \<Rightarrow> server" where
  "Server_new port protocol = \<lparr>sr_port = port, sr_protocol = protocol, sr_services = Map.empty\<rparr>"

fun AddService_loop :: "service \<Rightarrow> nat list \<Rightarrow> server \<Rightarrow> server" where
  "AddService_loop sv [] srv = srv"
| "AddService_loop sv (md # mds) srv =
     AddService_loop sv mds (srv\<lparr>sr_services :=
       (sr_services srv)(sv_name sv \<mapsto> \<lparr>mp_service = sv, mp_method = md\<rparr>)\<rparr>)"

definition AddService :: "service option \<Rightarrow> server \<Rightarrow> bool \<times> server" where
  "AddService p srv =
     (case p of None \<Rightarrow> (False, srv)
      | Some sv \<Rightarrow>
          if length (sv_methods sv) = 0 then (False, srv)
          else if sr_services srv (sv_name sv) \<noteq> None then (False, srv)
          else (True, AddService_loop sv (sv_methods sv) srv))"

definition GetMethodProperty :: "char list \<Rightarrow> server \<Rightarrow> MethodProperty option" where
  "GetMethodProperty full_name srv = sr_services srv full_name"

definition GetProtocolName :: "server \<Rightarrow> char list" where
  "GetProtocolName srv = sr_protocol srv"

section \<open>The server's callbacks\<close>

text \<open>
  The user's code: the services, and the order in which a hash map of headers is iterated.
\<close>

record user =
  u_service :: "MethodProperty \<Rightarrow> 64 word \<Rightarrow> (world \<Rightarrow> world res) \<Rightarrow> world \<Rightarrow> world res"
  u_order :: "headers \<Rightarrow> (char list \<times> char list) list"

definition ReplyErr :: "env \<Rightarrow> user \<Rightarrow> nat option \<Rightarrow> char list \<Rightarrow> int \<Rightarrow> world \<Rightarrow> world res" where
  "ReplyErr e u p err_msg code w =
     bindR (BuildResponse err_msg code blank_HttpResponse) (\<lambda>resp.
     bindR (PackResponse (u_order u (rs_headers resp)) resp []) (\<lambda>buf.
     case p of None \<Rightarrow> Inl NullDeref
     | Some a \<Rightarrow> bindR (WriteNoBuff e a buf w) (\<lambda>(_, w'). Inr w')))"

definition no_reply :: WriteConfig where
  "no_reply = \<lparr>wc_call_id = 0, wc_on_replied = None\<rparr>"

definition IssueRPC :: "env \<Rightarrow> user \<Rightarrow> 64 word \<Rightarrow> world \<Rightarrow> world res" where
  "IssueRPC e u c w =
     bindR (cntl_at w c) (\<lambda>cntl.
     case ct_sock cntl of None \<Rightarrow> Inl NullDeref
     | Some a \<Rightarrow>
         bindR (sock_at w (Some a)) (\<lambda>s.
         bindR (PackResponse_out (u_order u (rs_headers (ct_response cntl))) (ct_response cntl) (w_mem w) (sk_out s))
           (\<lambda>(m, b).
         bindR (StartWrite e a no_reply (put_sock a (s\<lparr>sk_out := b\<rparr>) (w\<lparr>w_mem := m\<rparr>))) (\<lambda>(_, w').
         Inr w'))))"

definition CallServiceMethod :: "env \<Rightarrow> user \<Rightarrow> server \<Rightarrow> 64 word \<Rightarrow> world \<Rightarrow> world res" where
  "CallServiceMethod e u srv c w =
     bindR (cntl_at w c) (\<lambda>cntl.
     case rq_headers (ct_request cntl) ''ServiceFullName'' of
       None \<Rightarrow> ReplyErr e u (ct_sock cntl) (''No header named '' @ [CHR 0x27] @ ''ServiceFullName'' @ [CHR 0x27]) 404 w
     | Some name \<Rightarrow>
         (case GetMethodProperty name srv of
            None \<Rightarrow> ReplyErr e u (ct_sock cntl) (c_str (''No service named '' @ name)) 404 w
          | Some mp \<Rightarrow> u_service u mp c (IssueRPC e u c) w))"

text \<open>
  One parsed request of \<open>OnNewMsgReceived\<close>: the controller is made and the service called. The
  loop runs until the parser needs more data; \<open>call_id\<close> is the variable declared before it.
\<close>

definition dispatch :: "env \<Rightarrow> user \<Rightarrow> server \<Rightarrow> nat \<Rightarrow> http_request \<Rightarrow> 64 word \<Rightarrow> world \<Rightarrow> world res" where
  "dispatch e u srv a req call_id w =
     CHECK (\<not> ControllerPool_Exist call_id w)
       (let w1 = ControllerPool_Allocate call_id w in
        bindR (cntl_at w1 call_id) (\<lambda>cntl.
          CallServiceMethod e u srv call_id
            (w1\<lparr>w_cntls := (w_cntls w1)(call_id \<mapsto>
               cntl\<lparr>ct_request := fst (HttpRequest_Swap (ct_request cntl) req), ct_sock := Some a,
                    ct_call_id := call_id\<rparr>)\<rparr>)))"

fun serve_loop :: "env \<Rightarrow> user \<Rightarrow> server \<Rightarrow> nat \<Rightarrow> nat \<Rightarrow> 64 word \<Rightarrow> world \<Rightarrow> world res" where
  "serve_loop e u srv 0 a call_id w = Inl FuelOut"
| "serve_loop e u srv (Suc n) a call_id w =
     bindR (sock_at w (Some a)) (\<lambda>s.
     bindR (new_HttpRequest (w_mem w) (sk_in s)) (\<lambda>req0.
     bindR (Http_Parse (w_mem w) (sk_in s) req0) (\<lambda>(m, b, req).
       let w1 = put_sock a (s\<lparr>sk_in := b\<rparr>) (w\<lparr>w_mem := m\<rparr>) in
       if rq_pr req = OK then
         let (call_id', ret) = GetCallId req call_id in
         if \<not> ret then serve_loop e u srv n a call_id' w1
         else bindR (dispatch e u srv a req call_id' w1) (serve_loop e u srv n a call_id')
       else if rq_pr req = UNIMPLEMENTED then
         bindR (ReplyErr e u (Some a) ''method not implemented.'' 404 w1) (serve_loop e u srv n a call_id)
       else if rq_pr req = ERROR then
         bindR (ReplyErr e u (Some a) ''Fail to parse request.'' 404 w1) (serve_loop e u srv n a call_id)
       else if rq_pr req = NEED_MORE_DATA then Inr w1
       else Inl CheckFail)))"

definition OnNewMsgReceived :: "env \<Rightarrow> user \<Rightarrow> server \<Rightarrow> nat \<Rightarrow> int \<Rightarrow> world \<Rightarrow> world res" where
  "OnNewMsgReceived e u srv fuel sock_fd w =
     (case SocketPool_Get sock_fd w of
        None \<Rightarrow> Inl CheckFail
      | Some a \<Rightarrow>
          bindR (ReadUntilFail e fuel a w) (\<lambda>(reply, w1).
            if read_rc reply = 0 then SocketPool_Remove e sock_fd w1
            else CHECK (read_rc reply < 0 \<and> reply \<noteq> ReadErr EINTR)
              (serve_loop e u srv fuel a 0 w1)))"

text \<open>
  The loop of \<open>Accept\<close>. Leaving a round destroys the socket object, if the round still owns it,
  and then the descriptor guard.
\<close>

fun Accept :: "env \<Rightarrow> nat \<Rightarrow> nat \<Rightarrow> int \<Rightarrow> world \<Rightarrow> world res" where
  "Accept e 0 this sock_fd w = Inl FuelOut"
| "Accept e (Suc n) this sock_fd w =
     (let k = e_kernel e; (reply, t0) = sys_accept4 k (w_trace w) sock_fd in
      case reply of
        Inl err \<Rightarrow> if err = EINTR then Accept e n this sock_fd (w\<lparr>w_trace := t0\<rparr>)
                   else Inr (w\<lparr>w_trace := t0\<rparr>)
      | Inr (fd, in_addr) \<Rightarrow>
          bindR (FDGuard_get fd) (\<lambda>g.
            let (r1, t1) = SetCloseOnExec k t0 g;
                (r2, t2) = (if r1 = - 1 then (- 1, t1) else SetNonBlocking k t1 g) in
            if r2 = - 1 then Accept e n this sock_fd (w\<lparr>w_trace := run_guard g t2\<rparr>)
            else
              (case GetIpPortFromSockAddr k in_addr of
                 None \<Rightarrow> Accept e n this sock_fd (w\<lparr>w_trace := run_guard g t2\<rparr>)
               | Some (ip, port) \<Rightarrow>
                   let (a, w1) = Socket_new e \<lparr>so_fd = g, so_peer = \<lparr>pe_ip = ip, pe_port = port\<rparr>,
                          so_arg = this, so_on_edge_triggered_event = Server_OnNewMsgReceived\<rparr>
                          (w\<lparr>w_trace := t2\<rparr>) in
                   bindR (epoll_add_read e g (Some a) w1) (\<lambda>(rc, w2).
                     if rc \<noteq> 0 then
                       bindR (Socket_delete a w2) (\<lambda>w3.
                       Accept e n this sock_fd (w3\<lparr>w_trace := run_guard g (w_trace w3)\<rparr>))
                     else
                       let (_, g') = FDGuard_Release g in
                       bindR (SocketPool_Insert a w2) (\<lambda>w3.
                       Accept e n this sock_fd (w3\<lparr>w_trace := run_guard g' (w_trace w3)\<rparr>))))))"

definition Server_Start :: "env \<Rightarrow> server \<Rightarrow> nat \<Rightarrow> world \<Rightarrow> world res" where
  "Server_Start e srv this w =
     (let (server_fd, t1) = CreateTcpServer (e_kernel e) (w_trace w) (sint (sr_port srv)) in
      CHECK (\<not> FDGuard_less server_fd 0)
        (bindR (FDGuard_get server_fd) (\<lambda>fd.
           let (a, w1) = Socket_new e \<lparr>so_fd = fd, so_peer = Peer_default, so_arg = this,
                  so_on_edge_triggered_event = Server_Accept\<rparr> (w\<lparr>w_trace := t1\<rparr>);
               (fd', g) = FDGuard_Release server_fd in
           bindR (epoll_add_read e fd' (Some a) w1) (\<lambda>(rc, w2).
           CHECK (rc = 0)
             (bindR (SocketPool_Insert a w2) (\<lambda>w3. Inr (w3\<lparr>w_trace := run_guard g (w_trace w3)\<rparr>)))))))"

definition Server_Stop :: "world \<Rightarrow> world" where
  "Server_Stop w = w\<lparr>w_epoll := Epoll_Stop (w_epoll w)\<rparr>"

definition run_callback :: "env \<Rightarrow> user \<Rightarrow> server \<Rightarrow> nat \<Rightarrow> callback \<Rightarrow> nat \<Rightarrow> int \<Rightarrow> world \<Rightarrow> world res" where
  "run_callback e u srv fuel cb arg fd w =
     (case cb of
        Server_Accept \<Rightarrow> Accept e fuel arg fd w
      | Server_OnNewMsgReceived \<Rightarrow> OnNewMsgReceived e u srv fuel fd w
      | OtherCallback n \<Rightarrow> e_callback e n arg fd w)"

definition Server_Run :: "env \<Rightarrow> user \<Rightarrow> server \<Rightarrow> nat \<Rightarrow> wait_reply list \<Rightarrow> world \<Rightarrow> world res" where
  "Server_Run e u srv fuel =
     RunUtilAskedToStop (\<lambda>w. ep_stop (w_epoll w)) (\<lambda>w. ep_events (w_epoll w))
       (ProcessEpollInput e (run_callback e u srv fuel)) (ProcessEpollOut e fuel)"

section \<open>The channel\<close>

record ChannelOptions =
  co_protocol :: "char list"
  co_connection_type :: "char list"
  co_timeout_ms :: int
  co_max_retry :: int

record channel =
  ch_ip :: "char list"
  ch_port :: int
  ch_opts :: ChannelOptions

definition Channel_Init :: "char list \<Rightarrow> int \<Rightarrow> ChannelOptions \<Rightarrow> channel \<Rightarrow> bool \<times> channel" where
  "Channel_Init ip port opts ch = (True, ch\<lparr>ch_ip := ip, ch_port := port, ch_opts := opts\<rparr>)"

text \<open>The static counter of call ids: the new value is also the id.\<close>

definition GetUniqueCallId :: "64 word \<Rightarrow> 64 word" where
  "GetUniqueCallId i = i + 1"

definition CallMethod ::
  "env \<Rightarrow> user \<Rightarrow> char list \<Rightarrow> controller \<Rightarrow> nat option \<Rightarrow> 64 word \<Rightarrow> world \<Rightarrow> (controller \<times> 64 word \<times> world) res" where
  "CallMethod e u md_full_name cntl done' ids w =
     (let cntl1 = cntl\<lparr>ct_request := BuildRequest md_full_name (ct_request cntl)\<rparr> in
      case ct_sock cntl1 of None \<Rightarrow> Inl NullDeref
      | Some a \<Rightarrow>
          bindR (sock_at w (Some a)) (\<lambda>s.
          bindR (PackRequest_out (u_order u (rq_headers (ct_request cntl1))) (ct_request cntl1) (w_mem w) (sk_out s))
            (\<lambda>(m, b).
              let ids' = GetUniqueCallId ids; cntl2 = cntl1\<lparr>ct_call_id := ids'\<rparr> in
              bindR (StartWrite e a \<lparr>wc_call_id = ct_call_id cntl2, wc_on_replied = done'\<rparr>
                  (put_sock a (s\<lparr>sk_out := b\<rparr>) (w\<lparr>w_mem := m\<rparr>))) (\<lambda>(rc, w1).
              bindR (case done' of Some c \<Rightarrow> if rc \<noteq> 0 then delete_closure c w1 else Inr w1 | None \<Rightarrow> Inr w1)
                (\<lambda>w2. Inr (cntl2, ids', w2))))))"

end
