(* ===== verification/Socket_Frame.thy ===== *)
theory Socket_Frame
  imports Server
begin

text \<open>
  What the operations of src/src/socket.cc leave alone: an operation on one socket changes neither the
  pools nor any other socket, keeps the options of its socket, and keeps its descriptor once it has
  one. The facts are collected in \<open>frames\<close>.
\<close>

named_theorems frames \<open>operations that touch one socket only\<close>

definition frame :: "nat \<Rightarrow> world \<Rightarrow> world \<Rightarrow> bool" where
  "frame a w w' \<longleftrightarrow> w_pool w' = w_pool w \<and> w_cntls w' = w_cntls w \<and> length (w_socks w') = length (w_socks w) \<and>
     (\<forall>b. b \<noteq> a \<longrightarrow> b < length (w_socks w) \<longrightarrow> w_socks w' ! b = w_socks w ! b) \<and>
     (\<forall>s. a < length (w_socks w) \<longrightarrow> w_socks w ! a = Some s \<longrightarrow>
        (\<exists>s'. w_socks w' ! a = Some s' \<and> sk_options s' = sk_options s \<and> (sk_fd s > 0 \<longrightarrow> sk_fd s' = sk_fd s)))"

lemma frame_refl [simp, intro]: "frame a w w"
  by (simp add: frame_def)

lemma frame_trans [trans]: "frame a w1 w2 \<Longrightarrow> frame a w2 w3 \<Longrightarrow> frame a w1 w3"
  by (fastforce simp: frame_def)

text \<open>Changes outside the sockets and the pools.\<close>

lemma frame_other [simp]:
  "frame a w (w\<lparr>w_trace := tr\<rparr>) " "frame a w (w\<lparr>w_mem := m\<rparr>)" "frame a w (w\<lparr>w_trace := tr, w_epoll := ep\<rparr>)"
  "frame a w (w\<lparr>w_trace := tr, w_mem := m\<rparr>)" "frame a w (w\<lparr>w_closures := cs\<rparr>)"
  by (simp_all add: frame_def)

lemma sock_at_Inr [simp]: "sock_at w (Some a) = Inr s \<longleftrightarrow> a < length (w_socks w) \<and> w_socks w ! a = Some s"
  by (auto simp: sock_at_def split: option.splits)

lemma frame_put:
  "w_socks w ! a = Some s \<Longrightarrow> sk_options s' = sk_options s \<Longrightarrow> (sk_fd s > 0 \<longrightarrow> sk_fd s' = sk_fd s) \<Longrightarrow>
    frame a w (put_sock a s' w)"
  by (auto simp: frame_def put_sock_def)

text \<open>Storing a changed socket in a world that differs outside the sockets only.\<close>

lemma frame_put_other [intro]:
  assumes "w_socks w ! a = Some s" "sk_options s' = sk_options s" "sk_fd s > 0 \<longrightarrow> sk_fd s' = sk_fd s"
    and "w_socks w1 = w_socks w" "w_pool w1 = w_pool w" "w_cntls w1 = w_cntls w"
  shows "frame a w (put_sock a s' w1)"
  using assms by (auto simp: frame_def put_sock_def)

lemma frame_now [frames]: "now e w = (t, w') \<Longrightarrow> frame a w w'"
  by (auto simp: now_def Let_def split: prod.splits)

lemma epoll_only:
  "epoll_add_read e fd d w = Inr (r, w') \<Longrightarrow> \<exists>tr ep. w' = w\<lparr>w_trace := tr, w_epoll := ep\<rparr>"
  "epoll_add_write e fd d w = Inr (r, w') \<Longrightarrow> \<exists>tr ep. w' = w\<lparr>w_trace := tr, w_epoll := ep\<rparr>"
  "epoll_del e fd msk w = Inr (r, w') \<Longrightarrow> \<exists>tr ep. w' = w\<lparr>w_trace := tr, w_epoll := ep\<rparr>"
  by (auto simp: epoll_add_read_def epoll_add_write_def epoll_del_def bindR_eq_Inr)

lemma frame_epoll [frames]:
  "epoll_add_read e fd d w = Inr (r, w') \<Longrightarrow> frame a w w'"
  "epoll_add_write e fd d w = Inr (r, w') \<Longrightarrow> frame a w w'"
  "epoll_del e fd msk w = Inr (r, w') \<Longrightarrow> frame a w w'"
  by (auto dest!: epoll_only)

lemma frame_upd [frames]:
  "upd_sock a f w = Inr w' \<Longrightarrow> (\<And>s. sk_options (f s) = sk_options s \<and> sk_fd (f s) = sk_fd s) \<Longrightarrow> frame a w w'"
  by (auto simp: upd_sock_def bindR_eq_Inr intro!: frame_put)

lemma frame_sock_write [frames]: "sock_write e a fd w = Inr (r, w') \<Longrightarrow> frame a w w'"
  by (auto simp: sock_write_def bindR_eq_Inr split: if_splits)

lemma frame_out_PopFront [frames]: "out_PopFront a n w = Inr w' \<Longrightarrow> frame a w w'"
  by (auto simp: out_PopFront_def bindR_eq_Inr)

lemma frame_WriteNoBuff [frames]: "WriteNoBuff e a d w = Inr (r, w') \<Longrightarrow> frame a w w'"
  by (cases "sys_write (e_kernel e) (w_trace w) (sk_fd (the (w_socks w ! a))) d")
    (auto simp: WriteNoBuff_def bindR_eq_Inr Let_def frame_def put_sock_def split: write_reply.splits if_splits)

text \<open>Connecting gives a socket without a descriptor one.\<close>

lemma frame_InitSock [frames]: "InitSock e a w = Inr (r, sa, w') \<Longrightarrow> w_socks w ! a = Some s \<Longrightarrow> sk_fd s \<le> 0 \<Longrightarrow> frame a w w'"
  by (auto simp: InitSock_def bindR_eq_Inr Let_def put_sock_def frame_def split: prod.splits option.splits if_splits)

lemma frame_ConnectIfNot [frames]:
  assumes "ConnectIfNot e a w = Inr (r, w')"
  shows "frame a w w'"
proof -
  obtain s0 where s0: "a < length (w_socks w)" "w_socks w ! a = Some s0"
    using assms by (auto simp: ConnectIfNot_def bindR_eq_Inr)
  show ?thesis
  proof (cases "sk_fd s0 > 0")
    case True
    then show ?thesis using assms s0 by (auto simp: ConnectIfNot_def bindR_eq_Inr)
  next
    case False
    then obtain rc pa w1 where i: "InitSock e a w = Inr (rc, pa, w1)"
      using assms s0 by (auto simp: ConnectIfNot_def bindR_eq_Inr)
    have f1: "frame a w w1" using frame_InitSock [OF i] s0 False by simp
    have "frame a w1 w'"
    proof (cases "rc = 0")
      case True
      obtain s1 where s1: "a < length (w_socks w1)" "w_socks w1 ! a = Some s1"
        using f1 s0 by (auto simp: frame_def)
      obtain reply tr where c: "sys_connect (e_kernel e) (w_trace w1) (sk_fd s1) pa = (reply, tr)" by fastforce
      then show ?thesis
        using assms s0 False i True s1
        by (auto simp: ConnectIfNot_def bindR_eq_Inr Let_def frame_def put_sock_def
            split: option.splits if_splits dest!: epoll_only)
    qed (use assms s0 False i in \<open>auto simp: ConnectIfNot_def bindR_eq_Inr\<close>)
    with f1 show ?thesis by (rule frame_trans)
  qed
qed

section \<open>Sequences of steps\<close>

text \<open>\<open>holds r P\<close>: if \<open>r\<close> is not a fault, its value satisfies \<open>P\<close>.\<close>

definition holds :: "'a res \<Rightarrow> ('a \<Rightarrow> bool) \<Rightarrow> bool" where
  "holds r P \<longleftrightarrow> (\<forall>x. r = Inr x \<longrightarrow> P x)"

lemma holds_D: "holds r P \<Longrightarrow> r = Inr x \<Longrightarrow> P x"
  by (simp add: holds_def)

lemma holds_I: "(\<And>x. r = Inr x \<Longrightarrow> P x) \<Longrightarrow> holds r P"
  by (simp add: holds_def)

lemma holds_Inr [simp]: "holds (Inr x) P \<longleftrightarrow> P x"
  by (simp add: holds_def)

lemma holds_Inl [simp]: "holds (Inl e) P"
  by (simp add: holds_def)

lemma holds_CHECK: "(c \<Longrightarrow> holds r P) \<Longrightarrow> holds (CHECK c r) P"
  by (auto simp: holds_def CHECK_def split: if_splits)

lemma holds_True: "holds r (\<lambda>_. True)"
  by (simp add: holds_def)

lemma holds_bind: "holds r Q \<Longrightarrow> (\<And>x. Q x \<Longrightarrow> holds (f x) P) \<Longrightarrow> holds (bindR r f) P"
  by (auto simp: holds_def bindR_eq_Inr)

lemma holds_bind_Inr: "holds (f x) P \<Longrightarrow> holds (bindR (Inr x) f) P"
  by simp

lemma holds_bind2:
  "holds r (\<lambda>(x, y). Q x y) \<Longrightarrow> (\<And>x y. Q x y \<Longrightarrow> holds (f x y) P) \<Longrightarrow> holds (bindR r (\<lambda>(x, y). f x y)) P"
  by (auto simp: holds_def bindR_eq_Inr)

lemma holds_bind3:
  "holds r (\<lambda>(x, y, z). Q x y z) \<Longrightarrow> (\<And>x y z. Q x y z \<Longrightarrow> holds (f x y z) P) \<Longrightarrow>
    holds (bindR r (\<lambda>(x, y, z). f x y z)) P"
  by (auto simp: holds_def bindR_eq_Inr)

lemma holds_if: "(c \<Longrightarrow> holds r P) \<Longrightarrow> (\<not> c \<Longrightarrow> holds r' P) \<Longrightarrow> holds (if c then r else r') P"
  by simp

lemma holds_option:
  "(x = None \<Longrightarrow> holds r P) \<Longrightarrow> (\<And>y. x = Some y \<Longrightarrow> holds (f y) P) \<Longrightarrow>
    holds (case x of None \<Rightarrow> r | Some y \<Rightarrow> f y) P"
  by (cases x) simp_all

lemma holds_prod: "(\<And>y z. x = (y, z) \<Longrightarrow> holds (f y z) P) \<Longrightarrow> holds (case x of (y, z) \<Rightarrow> f y z) P"
  by (cases x) simp

lemma holds_sum:
  "(\<And>y. x = Inl y \<Longrightarrow> holds (f y) P) \<Longrightarrow> (\<And>z. x = Inr z \<Longrightarrow> holds (g z) P) \<Longrightarrow>
    holds (case x of Inl y \<Rightarrow> f y | Inr z \<Rightarrow> g z) P"
  by (cases x) simp_all

lemma step_FDGuard_get: "holds (FDGuard_get g) (\<lambda>x. x > 0)"
  by (simp add: FDGuard_get_def CHECK_def)

lemmas holds_steps = holds_CHECK holds_bind3 holds_bind2 holds_bind holds_if holds_option holds_prod

text \<open>A socket operation as a step: what held of the world before it as a frame holds after it.\<close>

lemma step_sock_at: "holds (sock_at w (Some a)) (\<lambda>s. a < length (w_socks w) \<and> w_socks w ! a = Some s)"
  by (rule holds_I) simp

lemma step_upd:
  "frame a w0 w \<Longrightarrow> holds (upd_sock a (\<lambda>s. s\<lparr>sk_last_active := t\<rparr>) w) (frame a w0)"
  "frame a w0 w \<Longrightarrow> holds (upd_sock a (\<lambda>s. s\<lparr>sk_status := st\<rparr>) w) (frame a w0)"
  by (auto intro!: holds_I elim!: frame_trans elim: frame_upd)

lemma step_pair:
  assumes "\<And>r w'. op w = Inr (r, w') \<Longrightarrow> frame a w w'" "frame a w0 w"
  shows "holds (op w) (\<lambda>(r, w'). frame a w0 w')"
  using assms by (auto intro!: holds_I elim!: frame_trans)

lemma step_socket:
  assumes "frame a w0 w"
  shows "holds (epoll_add_write e fd d w) (\<lambda>(r, w'). frame a w0 w')" "holds (epoll_add_read e fd d w) (\<lambda>(r, w'). frame a w0 w')"
    "holds (epoll_del e fd msk w) (\<lambda>(r, w'). frame a w0 w')" "holds (ConnectIfNot e a w) (\<lambda>(r, w'). frame a w0 w')"
    "holds (sock_write e a fd w) (\<lambda>(r, w'). frame a w0 w')" "holds (WriteNoBuff e a bs w) (\<lambda>(r, w'). frame a w0 w')"
  by (rule step_pair [OF _ assms], erule frames)+

lemma step_PopFront: "frame a w0 w \<Longrightarrow> holds (out_PopFront a n w) (frame a w0)"
  by (auto intro!: holds_I elim!: frame_trans dest!: frame_out_PopFront)

lemma frame_status:
  "frame a w0 w \<Longrightarrow> a < length (w_socks w) \<and> w_socks w ! a = Some s \<Longrightarrow>
    frame a w0 (put_sock a (s\<lparr>sk_status := st\<rparr>) w)"
  by (erule frame_trans, erule conjE, erule frame_put) simp_all

text \<open>The rules in the order in which a goal tries them.\<close>

lemmas frame_vcg =
  holds_bind_Inr holds_bind [OF step_sock_at] holds_bind [OF step_upd(1)] holds_bind [OF step_upd(2)] holds_bind [OF step_PopFront]
  holds_bind2 [OF step_socket(1)] holds_bind2 [OF step_socket(2)] holds_bind2 [OF step_socket(3)]
  holds_bind2 [OF step_socket(4)] holds_bind2 [OF step_socket(5)] holds_bind2 [OF step_socket(6)]
  holds_if holds_CHECK holds_option holds_prod holds_bind [OF holds_True]

lemma step_StartWrite [frames]:
  assumes "frame a w0 w" and c: "wc_on_replied config = None"
  shows "holds (StartWrite e a config w) (\<lambda>(r, w'). frame a w0 w')"
proof -
  obtain t w1 where n: "now e w = (t, w1)" by fastforce
  have f: "frame a w0 w1" using assms(1) frame_now [OF n] by (rule frame_trans)
  show ?thesis
    unfolding StartWrite_def Let_def n prod.case c option.case
    by (rule f frame_vcg frame_status | assumption | simp)+
qed

lemma step_ReadUntilFail:
  "frame a w0 w \<Longrightarrow> holds (ReadUntilFail e n a w) (\<lambda>(r, w'). frame a w0 w')"
proof (induction n arbitrary: w)
  case (Suc n)
  have f: "frame a w0 (put_sock a (s\<lparr>sk_in := b\<rparr>) (w\<lparr>w_trace := tr, w_mem := m\<rparr>))"
    if "w_socks w ! a = Some s" for s b tr m
    by (rule frame_trans [OF Suc.prems frame_put_other [OF that]]) simp_all
  show ?case unfolding ReadUntilFail.simps Let_def
    by (rule frame_vcg | simp add: f Suc.IH holds_prod split: read_reply.split)+
qed simp

lemma step_CheckConnected:
  "frame a w0 w \<Longrightarrow> holds (CheckConnected e fd w) (\<lambda>(r, w'). frame a w0 w')"
  unfolding CheckConnected_def Let_def sys_getsockerr_def
  by (rule frame_vcg frame_trans [OF _ frame_other(1)] | assumption | simp)+

lemma step_drain_out:
  "frame a w0 w \<Longrightarrow> holds (drain_out e n a fd w) (\<lambda>(r, w'). frame a w0 w')"
proof (induction n arbitrary: w)
  case (Suc n)
  show ?case unfolding drain_out.simps
    by (rule frame_vcg Suc | assumption | simp split: write_reply.split | intro allI impI conjI)+
qed simp

section \<open>A concrete process\<close>

text \<open>
  A kernel that grants every request and has no input, and a process that has made no call: what
  the properties are tried on.
\<close>

definition sample_kernel :: kernel where
  "sample_kernel = \<lparr>k_socket = (\<lambda>_. 3), k_getfl = (\<lambda>_ _. 0), k_setfl = (\<lambda>_ _ _. 0), k_setfd = (\<lambda>_ _. 0),
     k_setsockopt = (\<lambda>_ _ _. 0), k_bind = (\<lambda>_ _ _. 0), k_listen = (\<lambda>_ _ _. 0), k_connect = (\<lambda>_ _ _. None),
     k_getsockerr = (\<lambda>_ _. (0, 0)), k_accept4 = (\<lambda>_ _. Inl EAGAIN), k_readv = (\<lambda>_ _ _ _. ReadErr EAGAIN),
     k_writev = (\<lambda>_ _ bs. Wrote (length (concat bs))), k_write = (\<lambda>_ _ bs. Wrote (length bs)),
     k_epoll_ctl = (\<lambda>_ _ _ _. 0), k_time = (\<lambda>_. 0), k_aton = (\<lambda>_. Some 0), k_ntop = (\<lambda>_. Some ''0.0.0.0'')\<rparr>"

definition sample_env :: env where
  "sample_env = \<lparr>e_kernel = sample_kernel, e_run = (\<lambda>_ w. Inr w), e_self_deleting = (\<lambda>_. True),
     e_callback = (\<lambda>_ _ _ w. Inr w)\<rparr>"

definition sample_world :: world where
  "sample_world = \<lparr>w_trace = [], w_mem = [], w_socks = [], w_pool = Map.empty,
     w_epoll = \<lparr>ep_stop = False, ep_fd = 4, ep_events = [Event_default]\<rparr>, w_cntls = Map.empty, w_closures = {}\<rparr>"

end
