(* ===== verification/Server_Inv.thy ===== *)
theory Server_Inv
  imports Socket_Frame
begin

text \<open>
  What the callbacks of the server keep. The locale \<open>server_invariant\<close> is the interface between the
  sockets and their pools and the server's loops: what is kept by an operation on one socket and by
  the operations of the pools is kept by \<open>Accept\<close>, \<open>OnNewMsgReceived\<close> and the event loop. It is
  interpreted twice: for the ownership of sockets by the pool, and for the controllers allocated.
\<close>

section \<open>Answers as steps\<close>

lemma step_ProcessEpollOut:
  "frame a w0 w \<Longrightarrow> holds (ProcessEpollOut e n fd (Some a) w) (frame a w0)"
proof -
  assume f0: "frame a w0 w"
  obtain t w1 where n: "now e w = (t, w1)" by fastforce
  have f: "frame a w0 w1" using f0 frame_now [OF n] by (rule frame_trans)
  have drain: "holds (bindR (drain_out e n a fd w) (\<lambda>(after, w4). if \<not> after then Inr w4
      else bindR (sock_at w4 (Some a)) (\<lambda>s4. bindR (epoll_del e (sk_fd s4) IOMaskWrite w4) (\<lambda>(_, w5). Inr w5))))
      (frame a w0)" if "frame a w0 w" for w
    by (rule that frame_vcg holds_bind2 [OF step_drain_out] | assumption | simp)+
  have conn: "holds (if b then CheckConnected e g w else Inr (True, w)) (\<lambda>(r, w'). frame a w0 w')"
    if "frame a w0 w" for b g w
    using step_CheckConnected [OF that] that by simp
  show ?thesis
    unfolding ProcessEpollOut_def Let_def n prod.case option.case
    by (rule f holds_bind2 [OF conn] drain frame_vcg | assumption | simp)+
qed

lemma step_ReplyErr:
  assumes "frame a w0 w"
  shows "holds (ReplyErr e u (Some a) msg code w) (frame a w0)"
  unfolding ReplyErr_def option.case
  by (rule assms frame_vcg | assumption | simp)+

lemma step_IssueRPC:
  "holds (IssueRPC e u c w) (\<lambda>w'. \<exists>a. frame a w w')"
proof (rule holds_I)
  fix w' assume r: "IssueRPC e u c w = Inr w'"
  then obtain cntl a s m b rc where a: "w_socks w ! a = Some s" and
    st: "StartWrite e a no_reply (put_sock a (s\<lparr>sk_out := b\<rparr>) (w\<lparr>w_mem := m\<rparr>)) = Inr (rc, w')"
    by (auto simp: IssueRPC_def bindR_eq_Inr split: option.splits)
  have "frame a w (put_sock a (s\<lparr>sk_out := b\<rparr>) (w\<lparr>w_mem := m\<rparr>))"
    by (rule frame_put_other [OF a]) simp_all
  from step_StartWrite [OF this, of no_reply, THEN holds_D, OF _ st]
  show "\<exists>a. frame a w w'" by (auto simp: no_reply_def)
qed

section \<open>The interface\<close>

text \<open>What a service of the user owes: it keeps what the closure it is given keeps.\<close>

definition service_keeps :: "(world \<Rightarrow> bool) \<Rightarrow> user \<Rightarrow> bool" where
  "service_keeps ok u \<longleftrightarrow> (\<forall>mp c reply. (\<forall>w. ok w \<longrightarrow> holds (reply w) ok) \<longrightarrow>
     (\<forall>w. ok w \<longrightarrow> holds (u_service u mp c reply w) ok))"

definition callbacks_keep :: "(world \<Rightarrow> bool) \<Rightarrow> env \<Rightarrow> bool" where
  "callbacks_keep ok e \<longleftrightarrow> (\<forall>n arg fd w. ok w \<longrightarrow> holds (e_callback e n arg fd w) ok)"

locale server_invariant =
  fixes ok :: "world \<Rightarrow> bool"
  assumes ok_frame: "ok w \<Longrightarrow> frame a w w' \<Longrightarrow> ok w'"
    and ok_alloc: "ok w \<Longrightarrow> ok (w\<lparr>w_cntls := (w_cntls w)(c \<mapsto> x)\<rparr>)"
    and ok_new: "ok w \<Longrightarrow> so_fd opts > 0 \<Longrightarrow> Socket_new e opts w = (a, w') \<Longrightarrow> ok w'"
    and ok_fresh: "ok w \<Longrightarrow> w_pool w fd = Some a \<Longrightarrow> a < length (w_socks w)"
    and ok_delete: "ok w \<Longrightarrow> \<forall>fd. w_pool w fd \<noteq> Some a \<Longrightarrow> Socket_delete a w = Inr w' \<Longrightarrow> ok w'"
    and ok_insert: "ok w \<Longrightarrow> w_socks w ! a = Some s \<Longrightarrow> sk_fd s > 0 \<Longrightarrow> SocketPool_Insert a w = Inr w' \<Longrightarrow> ok w'"
    and ok_remove: "ok w \<Longrightarrow> SocketPool_Remove e fd w = Inr w' \<Longrightarrow> ok w'"
begin

lemma ok_trace: "ok w \<Longrightarrow> ok (w\<lparr>w_trace := tr\<rparr>)"
  by (erule ok_frame [where a = 0]) (rule frame_other)

lemma keeps_now: "ok w \<Longrightarrow> now e w = (t, w') \<Longrightarrow> ok w'"
  by (rule ok_frame [where a = 0]) (auto intro: frame_now)

lemma keeps_epoll_add: "ok w \<Longrightarrow> epoll_add_read e fd d w = Inr (r, w') \<Longrightarrow> ok w'"
  by (rule ok_frame [where a = 0]) (auto intro: frame_epoll)

lemma keeps_ReplyErr: "ok w \<Longrightarrow> holds (ReplyErr e u p msg code w) ok"
proof (cases p)
  case (Some a)
  assume "ok w"
  then show ?thesis
    unfolding Some by (intro holds_I) (rule ok_frame, assumption, erule holds_D [OF step_ReplyErr, rotated], rule frame_refl)
qed (auto simp: ReplyErr_def holds_def bindR_eq_Inr)

lemma keeps_IssueRPC: "ok w \<Longrightarrow> holds (IssueRPC e u c w) ok"
  by (rule holds_I, drule holds_D [OF step_IssueRPC]) (auto intro: ok_frame)

lemma keeps_CallServiceMethod:
  "service_keeps ok u \<Longrightarrow> ok w \<Longrightarrow> holds (CallServiceMethod e u srv c w) ok"
  unfolding CallServiceMethod_def
  by (rule holds_bind [OF holds_True] holds_option keeps_ReplyErr | assumption)+
    (auto simp: service_keeps_def keeps_IssueRPC)

lemma keeps_dispatch: "service_keeps ok u \<Longrightarrow> ok w \<Longrightarrow> holds (dispatch e u srv a req c w) ok"
  unfolding dispatch_def Let_def ControllerPool_Allocate_def
  by (rule holds_CHECK holds_bind [OF holds_True] keeps_CallServiceMethod ok_alloc | assumption)+

lemma keeps_serve_loop: "service_keeps ok u \<Longrightarrow> ok w \<Longrightarrow> holds (serve_loop e u srv n a c w) ok"
proof (induction n arbitrary: c w)
  case (Suc n)
  have put: "ok (put_sock a (s\<lparr>sk_in := b\<rparr>) (w\<lparr>w_mem := m\<rparr>))" if "w_socks w ! a = Some s" for s b m
    by (rule ok_frame [OF Suc.prems(2) frame_put_other [OF that]]) simp_all
  note IH = Suc.IH [OF Suc.prems(1)]
  show ?case unfolding serve_loop.simps Let_def
    by (rule holds_bind [OF step_sock_at] holds_bind [OF keeps_dispatch [OF Suc.prems(1)]] holds_bind [OF keeps_ReplyErr]
          holds_bind [OF holds_True] holds_prod holds_if IH put
        | (erule conjE, assumption) | simp)+
qed simp

lemma keeps_ReadUntilFail: "ok w \<Longrightarrow> holds (ReadUntilFail e n a w) (\<lambda>(r, w'). ok w')"
  by (rule holds_I, drule holds_D [OF step_ReadUntilFail [OF frame_refl]]) (auto intro: ok_frame)

lemma keeps_OnNewMsgReceived:
  "service_keeps ok u \<Longrightarrow> ok w \<Longrightarrow> holds (OnNewMsgReceived e u srv n fd w) ok"
  unfolding OnNewMsgReceived_def
  by (rule holds_option holds_bind2 [OF keeps_ReadUntilFail] holds_if holds_CHECK keeps_serve_loop holds_I
      | erule ok_remove [rotated] | simp)+

text \<open>A new socket registered with the event table: destroyed again, or handed to the pool.\<close>

lemma new_registered:
  assumes ok: "ok w" and fd: "so_fd opts > 0" and n: "Socket_new e opts w = (a, w1)"
    and r: "epoll_add_read e fd d w1 = Inr (rc, w2)"
  shows "ok w2" "\<forall>fd. w_pool w2 fd \<noteq> Some a" "\<exists>s. w_socks w2 ! a = Some s \<and> sk_fd s > 0"
proof -
  obtain t w0 where t: "now e w = (t, w0)" by fastforce
  have f: "frame 0 w w0" using frame_now [OF t] .
  have w2: "w_pool w2 = w_pool w1" "w_socks w2 = w_socks w1" using epoll_only(1) [OF r] by auto
  have a: "a = length (w_socks w0)" "w_pool w1 = w_pool w0" using n t by (auto simp: Socket_new_def)
  show "ok w2" using keeps_epoll_add [OF ok_new [OF ok fd n] r] .
  show "\<forall>fd. w_pool w2 fd \<noteq> Some a" using ok_fresh [OF ok_frame [OF ok f]] a w2 by force
  show "\<exists>s. w_socks w2 ! a = Some s \<and> sk_fd s > 0" using n t fd w2 by (auto simp: Socket_new_def)
qed

lemma keeps_Accept: "ok w \<Longrightarrow> holds (Accept e n this fd w) ok"
proof (induction n arbitrary: w)
  case (Suc n)
  have again: "holds (Accept e n this fd (w\<lparr>w_trace := tr\<rparr>)) ok" if "ok w" for w tr
    using that by (intro Suc.IH ok_trace)
  have round: "holds (bindR (epoll_add_read e g (Some a) w1) (\<lambda>(rc, w2).
      if rc \<noteq> 0 then bindR (Socket_delete a w2) (\<lambda>w3. Accept e n this fd (w3\<lparr>w_trace := run_guard g (w_trace w3)\<rparr>))
      else bindR (SocketPool_Insert a w2) (\<lambda>w3. Accept e n this fd (w3\<lparr>w_trace := run_guard g' (w_trace w3)\<rparr>)))) ok"
    if g: "g > 0" and n: "Socket_new e opts (w\<lparr>w_trace := t\<rparr>) = (a, w1)" "so_fd opts = g" for g g' opts t a w1
  proof (rule holds_bind2 [OF holds_I [where P = "\<lambda>(rc, w2). epoll_add_read e g (Some a) w1 = Inr (rc, w2)"]])
    fix rc w2 assume r: "epoll_add_read e g (Some a) w1 = Inr (rc, w2)"
    have fd: "so_fd opts > 0" using g n(2) by simp
    note reg = new_registered [OF ok_trace [OF Suc.prems] fd n(1) r]
    have "holds (Socket_delete a w2) ok" using reg by (auto intro!: holds_I elim: ok_delete)
    moreover have "holds (SocketPool_Insert a w2) ok" using reg by (auto intro!: holds_I elim: ok_insert)
    ultimately show "holds (if rc \<noteq> 0 then bindR (Socket_delete a w2) (\<lambda>w3. Accept e n this fd (w3\<lparr>w_trace := run_guard g (w_trace w3)\<rparr>))
      else bindR (SocketPool_Insert a w2) (\<lambda>w3. Accept e n this fd (w3\<lparr>w_trace := run_guard g' (w_trace w3)\<rparr>))) ok"
      using again by (auto intro!: holds_bind)
  qed (auto simp: split_beta)
  show ?case unfolding Accept.simps Let_def FDGuard_Release_def prod.case
    by (rule holds_sum holds_prod holds_if holds_option again [OF Suc.prems] holds_bind [OF step_FDGuard_get]
        | erule round | simp add: ok_trace Suc.prems)+
qed simp

lemma keeps_run_callback:
  "service_keeps ok u \<Longrightarrow> callbacks_keep ok e \<Longrightarrow> ok w \<Longrightarrow> holds (run_callback e u srv n cb arg fd w) ok"
  by (cases cb) (auto simp: run_callback_def keeps_Accept keeps_OnNewMsgReceived callbacks_keep_def)

lemma keeps_ProcessEpollInput:
  assumes "service_keeps ok u" "callbacks_keep ok e" "ok w"
  shows "holds (ProcessEpollInput e (run_callback e u srv n) fd d w) ok"
proof (cases d)
  case (Some a)
  obtain t w1 where t: "now e w = (t, w1)" by fastforce
  have "holds (upd_sock a (\<lambda>s. s\<lparr>sk_last_active := t\<rparr>) w1) ok"
    using keeps_now [OF assms(3) t] by (auto intro!: holds_I elim!: ok_frame intro: frame_upd)
  then show ?thesis
    unfolding ProcessEpollInput_def Some option.case Let_def t prod.case
    by (rule holds_bind) (rule holds_bind [OF holds_True] holds_CHECK keeps_run_callback assms | assumption)+
qed (simp add: ProcessEpollInput_def assms)

lemma keeps_ProcessEpollOut: "ok w \<Longrightarrow> holds (ProcessEpollOut e n fd d w) ok"
proof (cases d)
  case (Some a)
  assume "ok w"
  then show ?thesis
    unfolding Some by (intro holds_I) (rule ok_frame, assumption, erule holds_D [OF step_ProcessEpollOut, rotated], rule frame_refl)
qed (simp add: ProcessEpollOut_def)

lemma keeps_Start: "ok w \<Longrightarrow> holds (Server_Start e srv this w) ok"
proof -
  assume w: "ok w"
  obtain g tr where c: "CreateTcpServer (e_kernel e) (w_trace w) (sint (sr_port srv)) = (g, tr)" by fastforce
  let ?o = "\<lambda>fd. \<lparr>so_fd = fd, so_peer = Peer_default, so_arg = this, so_on_edge_triggered_event = Server_Accept\<rparr>"
  have new: "holds (bindR (epoll_add_read e f' (Some a) w1) (\<lambda>(rc, w2). CHECK (rc = 0)
      (bindR (SocketPool_Insert a w2) (\<lambda>w3. Inr (w3\<lparr>w_trace := run_guard g' (w_trace w3)\<rparr>))))) ok"
    if fd: "fd > 0" and n: "Socket_new e (?o fd) (w\<lparr>w_trace := tr\<rparr>) = (a, w1)" for fd f' g' a w1
  proof (rule holds_bind2 [OF holds_I [where P = "\<lambda>(rc, w2). epoll_add_read e f' (Some a) w1 = Inr (rc, w2)"]])
    fix rc w2 assume r: "epoll_add_read e f' (Some a) w1 = Inr (rc, w2)"
    have o: "so_fd (?o fd) > 0" using fd by simp
    note reg = new_registered [OF ok_trace [OF w] o n r]
    have "holds (SocketPool_Insert a w2) ok" using reg by (auto intro!: holds_I elim: ok_insert)
    then show "holds (CHECK (rc = 0) (bindR (SocketPool_Insert a w2)
        (\<lambda>w3. Inr (w3\<lparr>w_trace := run_guard g' (w_trace w3)\<rparr>)))) ok"
      by (intro holds_CHECK) (erule holds_bind, simp add: ok_trace)
  qed (auto simp: split_beta)
  show ?thesis unfolding Server_Start_def Let_def c prod.case FDGuard_Release_def
    by (rule holds_CHECK holds_bind [OF step_FDGuard_get] holds_prod | erule new)+
qed

end

section \<open>The process as a transition system\<close>

text \<open>
  What happens to the state between two calls of \<open>epoll_wait\<close> is a sequence of these steps: a
  handler runs for an entry of the event table. The descriptor and the order are the kernel's
  choice.
\<close>

inductive server_step :: "env \<Rightarrow> user \<Rightarrow> server \<Rightarrow> world \<Rightarrow> world \<Rightarrow> bool" for e u srv where
  start: "Server_Start e srv this w = Inr w' \<Longrightarrow> server_step e u srv w w'"
| readable: "events_at (ep_events (w_epoll w)) fd = Inr ev \<Longrightarrow>
    ProcessEpollInput e (run_callback e u srv n) fd (ev_client_data ev) w = Inr w' \<Longrightarrow> server_step e u srv w w'"
| writable: "events_at (ep_events (w_epoll w)) fd = Inr ev \<Longrightarrow>
    ProcessEpollOut e n fd (ev_client_data ev) w = Inr w' \<Longrightarrow> server_step e u srv w w'"

inductive_cases server_stepE: "server_step e u srv w w'"

abbreviation server_reaches :: "env \<Rightarrow> user \<Rightarrow> server \<Rightarrow> world \<Rightarrow> world \<Rightarrow> bool" where
  "server_reaches e u srv \<equiv> (server_step e u srv)\<^sup>*\<^sup>*"

text \<open>The program's event loop is such a sequence, whatever the kernel answers.\<close>

lemma loop_reaches:
  "ProcessEvents_loop (\<lambda>w. ep_events (w_epoll w)) (ProcessEpollInput e (run_callback e u srv n)) (ProcessEpollOut e n) ees w =
     Inr w' \<Longrightarrow> server_reaches e u srv w w'"
proof (induction ees arbitrary: w)
  case (Cons x ees)
  obtain fd evs where x: "x = (fd, evs)" by fastforce
  have i: "server_reaches e u srv v v'"
    if "(if c then bindR (events_at (ep_events (w_epoll v)) fd)
      (\<lambda>ev. ProcessEpollInput e (run_callback e u srv n) fd (ev_client_data ev) v) else Inr v) = Inr v'" for c v v'
    using that by (auto simp: bindR_eq_Inr split: if_splits intro: readable)
  have o: "server_reaches e u srv v v'"
    if "(if c then bindR (events_at (ep_events (w_epoll v)) fd)
      (\<lambda>ev. ProcessEpollOut e n fd (ev_client_data ev) v) else Inr v) = Inr v'" for c v v'
    using that by (auto simp: bindR_eq_Inr split: if_splits intro: writable)
  from Cons.prems obtain w1 w2 where "server_reaches e u srv w w1" "server_reaches e u srv w1 w2"
    "ProcessEvents_loop (\<lambda>w. ep_events (w_epoll w)) (ProcessEpollInput e (run_callback e u srv n)) (ProcessEpollOut e n)
       ees w2 = Inr w'"
    unfolding x ProcessEvents_loop.simps bindR_eq_Inr by (elim exE conjE) (rule that, erule i, erule o)
  with Cons.IH show ?case by (blast intro: rtranclp_trans)
qed simp

lemma Run_reaches: "Server_Run e u srv n rs w = Inr w' \<Longrightarrow> server_reaches e u srv w w'"
proof (induction rs arbitrary: w)
  case (Cons r rs)
  then show ?case
    by (cases r) (auto simp: Server_Run_def ProcessEvents_def bindR_eq_Inr split: if_splits
      dest!: loop_reaches intro: rtranclp_trans)
qed (auto simp: Server_Run_def split: if_splits)

context server_invariant
begin

lemma keeps_step:
  "service_keeps ok u \<Longrightarrow> callbacks_keep ok e \<Longrightarrow> server_step e u srv w w' \<Longrightarrow> ok w \<Longrightarrow> ok w'"
  by (auto elim!: server_stepE dest: keeps_Start [THEN holds_D] keeps_ProcessEpollInput [THEN holds_D]
      keeps_ProcessEpollOut [THEN holds_D])

theorem keeps_reachable:
  assumes "service_keeps ok u" "callbacks_keep ok e" "server_reaches e u srv w w'" "ok w"
  shows "ok w'"
  using assms(3,4) by (induction rule: rtranclp_induct) (auto intro: keeps_step [OF assms(1,2)])

end

end
