(* ===== verification/Socket_Props.thy ===== *)
theory Socket_Props
  imports Socket_Frame
begin

text \<open>
  Properties of sockets: flushing returns against every kernel, reading returns when the peer's data
  ends, and what a short write and a refused connection leave behind.
\<close>

section \<open>Evaluating accesses to a socket\<close>

lemma sock_at_eval [simp]: "w_socks w ! a = Some s \<Longrightarrow> a < length (w_socks w) \<Longrightarrow> sock_at w (Some a) = Inr s"
  by simp

lemma upd_sock_eval [simp]:
  "w_socks w ! a = Some s \<Longrightarrow> a < length (w_socks w) \<Longrightarrow> upd_sock a f w = Inr (put_sock a (f s) w)"
  by (simp add: upd_sock_def)

lemma put_sock_simps [simp]:
  "w_socks (put_sock a s w) = (w_socks w)[a := Some s]" "w_mem (put_sock a s w) = w_mem w"
  "w_trace (put_sock a s w) = w_trace w" "w_closures (put_sock a s w) = w_closures w" "w_cntls (put_sock a s w) = w_cntls w"
  by (simp_all add: put_sock_def)

section \<open>Flushing a socket\<close>

text \<open>Popping a positive count from a buffer that is not empty makes it shorter.\<close>

lemma drain_less:
  assumes "0 < n" "c \<noteq> []"
  shows "length (concat (drain n (c # cs))) < length (concat (c # cs))"
proof (cases "length c \<le> n")
  case True
  have "length (concat (drain (n - length c) cs)) \<le> length (concat cs)"
    using drain_suffix suffix_length_le by blast
  moreover have "0 < length c" using assms(2) by simp
  ultimately have "length (concat (drain (n - length c) cs)) < length c + length (concat cs)" by linarith
  with True assms show ?thesis by (simp add: drain.simps(2) [of n c])
next
  case False
  have "length (concat (drain n (drop n c # cs))) \<le> length (concat (drop n c # cs))"
    using drain_suffix suffix_length_le by blast
  also have "\<dots> < length (concat (c # cs))" using False assms by simp
  finally show ?thesis using False assms by (simp add: drain.simps(2) [of n c])
qed

lemma PopFront_less:
  assumes "buf_wf m b as fs" "IOBuffer_Empty m b = Inr False" "0 < n"
  shows "\<exists>m' b' as' fs'. PopFront m b (int n) = Inr (m', b') \<and> buf_wf m' b' as' fs' \<and>
    suffix (contents m' b') (contents m b) \<and> length (contents m' b') < length (contents m b)"
proof -
  obtain c cs where c: "held m as = c # cs" "c \<noteq> []"
    using assms(1,2) by (cases as) (auto simp: Empty_wf [OF assms(1)])
  obtain m' b' as' fs' where p: "PopFront m b (int n) = Inr (m', b')" "buf_wf m' b' as' fs'" "held m' as' = drain n (held m as)"
    using PopFront_drain [OF assms(1), of "int n"] by auto
  have "contents m' b' = concat (drain n (c # cs))" "contents m b = concat (c # cs)"
    using buf_wf_contents [OF p(2)] buf_wf_contents [OF assms(1)] p(3) c by simp_all
  with p(1,2) drain_suffix [of n "c # cs"] drain_less [OF assms(3) c(2), of cs] show ?thesis by metis
qed

lemma WriteToSock_wf:
  assumes "buf_wf m b as fs"
  shows "\<exists>vecs r. WriteToSock writev m b = Inr (vecs, r) \<and> (IOBuffer_Empty m b = Inr True \<longrightarrow> r = Wrote 0)"
proof -
  have "gather kMaxVCnt m (io_head b) = Inr (take kMaxVCnt (held m as))"
    using assms by (auto simp: buf_wf_def intro!: gather_dseg)
  with Empty_wf [OF assms] show ?thesis by (auto simp: WriteToSock_def)
qed

text \<open>The socket at an address with a buffer of \<open>k\<close> bytes to write, a suffix of \<open>bs\<close>.\<close>

definition writing :: "nat \<Rightarrow> int \<Rightarrow> char list \<Rightarrow> nat \<Rightarrow> world \<Rightarrow> bool" where
  "writing a fd bs k w \<longleftrightarrow> (\<exists>s as fs. sock_at w (Some a) = Inr s \<and> sk_fd s = fd \<and> buf_wf (w_mem w) (sk_out s) as fs \<and>
     suffix (contents (w_mem w) (sk_out s)) bs \<and> length (contents (w_mem w) (sk_out s)) \<le> k)"

lemma writing_put:
  "writing a fd bs k w \<Longrightarrow> w_socks w ! a = Some s \<Longrightarrow> w_mem w' = w_mem w \<Longrightarrow> w_socks w' = w_socks w \<Longrightarrow>
     writing a fd bs k (put_sock a (s\<lparr>sk_status := st\<rparr>) w')"
  by (auto simp: writing_def put_sock_def)

lemma writing_trace: "writing a fd bs k w \<Longrightarrow> w_mem w' = w_mem w \<Longrightarrow> w_socks w' = w_socks w \<Longrightarrow> writing a fd bs k w'"
  by (simp add: writing_def)

lemma sock_write_writing:
  assumes "writing a fd bs k w"
  shows "\<exists>r w'. sock_write e a g w = Inr (r, w') \<and> w_mem w' = w_mem w \<and> w_socks w' = w_socks w \<and>
    (\<forall>n. r = Wrote n \<longrightarrow> n > 0 \<longrightarrow> (\<exists>w'' j. out_PopFront a (int n) w' = Inr w'' \<and> writing a fd bs j w'' \<and> j < k))"
proof -
  from assms obtain s as fs where s: "w_socks w ! a = Some s" "a < length (w_socks w)" "sk_fd s = fd"
    "buf_wf (w_mem w) (sk_out s) as fs" "suffix (contents (w_mem w) (sk_out s)) bs"
    "length (contents (w_mem w) (sk_out s)) \<le> k" by (auto simp: writing_def)
  obtain vecs r where v: "WriteToSock (k_writev (e_kernel e) (w_trace w) g) (w_mem w) (sk_out s) = Inr (vecs, r)"
    "IOBuffer_Empty (w_mem w) (sk_out s) = Inr True \<longrightarrow> r = Wrote 0"
    using WriteToSock_wf [OF s(4)] by blast
  define w' where "w' = (if vecs = [] then w else w\<lparr>w_trace := w_trace w @ [S_writev g vecs r]\<rparr>)"
  have w': "w_mem w' = w_mem w" "w_socks w' = w_socks w" by (simp_all add: w'_def)
  have "\<exists>w'' j. out_PopFront a (int n) w' = Inr w'' \<and> writing a fd bs j w'' \<and> j < k" if n: "r = Wrote n" "n > 0" for n
  proof -
    have "IOBuffer_Empty (w_mem w) (sk_out s) = Inr False" using n v(2) Empty_wf [OF s(4)] by auto
    from PopFront_less [OF s(4) this n(2)] obtain m' b' as' fs' where
      p: "PopFront (w_mem w) (sk_out s) (int n) = Inr (m', b')" "buf_wf m' b' as' fs'"
      "suffix (contents m' b') (contents (w_mem w) (sk_out s))"
      "length (contents m' b') < length (contents (w_mem w) (sk_out s))" by blast
    have "out_PopFront a (int n) w' = Inr (put_sock a (s\<lparr>sk_out := b'\<rparr>) (w'\<lparr>w_mem := m'\<rparr>))"
      using s(1,2) w' p(1) by (simp add: out_PopFront_def sock_at_def)
    moreover have "writing a fd bs (length (contents m' b')) (put_sock a (s\<lparr>sk_out := b'\<rparr>) (w'\<lparr>w_mem := m'\<rparr>))"
      using s w' p suffix_order.trans [OF p(3) s(5)] by (auto simp: writing_def put_sock_def)
    moreover have "length (contents m' b') < k" using p(4) s(6) by linarith
    ultimately show ?thesis by blast
  qed
  moreover have "sock_write e a g w = Inr (r, w')"
    using s(1,2) v(1) by (simp add: sock_write_def sock_at_def w'_def)
  ultimately show ?thesis using w' by blast
qed

lemma drain_out_returns:
  "writing a fd bs k w \<Longrightarrow> k < n \<Longrightarrow> \<exists>c w' j. drain_out e n a g w = Inr (c, w') \<and> writing a fd bs j w'"
proof (induction n arbitrary: k w)
  case (Suc n)
  from sock_write_writing [OF Suc.prems(1), of e g] obtain r w1 where
    r: "sock_write e a g w = Inr (r, w1)" "w_mem w1 = w_mem w" "w_socks w1 = w_socks w" and
    pop: "\<And>n. r = Wrote n \<Longrightarrow> n > 0 \<Longrightarrow> \<exists>w'' j. out_PopFront a (int n) w1 = Inr w'' \<and> writing a fd bs j w'' \<and> j < k"
    by blast
  have w1: "writing a fd bs k w1" using writing_trace [OF Suc.prems(1)] r by simp
  obtain s where s: "w_socks w1 ! a = Some s" "a < length (w_socks w1)" using w1 by (auto simp: writing_def)
  show ?case
  proof (cases r)
    case (WriteErr err)
    have "writing a fd bs k (put_sock a (s\<lparr>sk_status := ST_ERROR\<rparr>) w1)" by (rule writing_put [OF w1 s(1)]) simp_all
    then show ?thesis using r(1) WriteErr w1 s by (auto simp: upd_sock_def sock_at_def)
  next
    case (Wrote i)
    show ?thesis
    proof (cases "i = 0")
      case True
      then show ?thesis using r(1) Wrote w1 by auto
    next
      case False
      then obtain w2 j where w2: "out_PopFront a (int i) w1 = Inr w2" "writing a fd bs j w2" "j < k"
        using pop [OF Wrote] by auto
      have "j < n" using w2(3) Suc.prems(2) by simp
      from Suc.IH [OF w2(2) this] show ?thesis using r(1) Wrote False w2(1) by simp
    qed
  qed
qed simp

lemma epoll_del_returns:
  "fd \<ge> 0 \<Longrightarrow> \<exists>r w'. epoll_del e fd msk w = Inr (r, w') \<and> w_mem w' = w_mem w \<and> w_socks w' = w_socks w"
  by (auto simp: epoll_del_def DelEvent_def Let_def sys_epoll_ctl_def)

text \<open>
  C18. \<open>ProcessEpollOut\<close> returns, whatever the kernel answers to its writes: every round of its loop
  either ends it or removes at least one byte of the buffer, so one round per byte and one more are
  enough. It never faults, and what is left to write is a suffix of what was there.
\<close>

theorem ProcessEpollOut_returns:
  assumes "sock_at w (Some a) = Inr s" "sk_fd s \<ge> 0" "valid_buffer (w_mem w) (sk_out s)"
    and "length (contents (w_mem w) (sk_out s)) < n"
  shows "\<exists>w' s'. ProcessEpollOut e n (sk_fd s) (Some a) w = Inr w' \<and> sock_at w' (Some a) = Inr s' \<and>
    sk_fd s' = sk_fd s \<and> suffix (contents (w_mem w') (sk_out s')) (contents (w_mem w) (sk_out s))"
proof -
  let ?bs = "contents (w_mem w) (sk_out s)" and ?fd = "sk_fd s"
  have fin: "\<exists>s'. sock_at w' (Some a) = Inr s' \<and> sk_fd s' = ?fd \<and> suffix (contents (w_mem w') (sk_out s')) ?bs"
    if "writing a ?fd ?bs j w'" for w' j
    using that by (auto simp: writing_def)
  obtain as fs where wf: "buf_wf (w_mem w) (sk_out s) as fs"
    using assms(3) by (auto simp: valid_buffer_iff buf_inv_def)
  obtain t tr where t: "now e w = (t, w\<lparr>w_trace := tr\<rparr>)" by (auto simp: now_def sys_time_def Let_def)
  define w2 where "w2 = put_sock a (s\<lparr>sk_last_active := t\<rparr>) (w\<lparr>w_trace := tr\<rparr>)"
  have w2: "upd_sock a (\<lambda>s. s\<lparr>sk_last_active := t\<rparr>) (w\<lparr>w_trace := tr\<rparr>) = Inr w2" "writing a ?fd ?bs (length ?bs) w2"
    "sock_at w2 (Some a) = Inr (s\<lparr>sk_last_active := t\<rparr>)"
    using assms(1) wf by (auto simp: w2_def writing_def)
  have flush: "\<exists>w' j. bindR (drain_out e n a ?fd v) (\<lambda>(after, w4). if \<not> after then Inr w4
      else bindR (sock_at w4 (Some a)) (\<lambda>s4. bindR (epoll_del e (sk_fd s4) IOMaskWrite w4) (\<lambda>(_, w5). Inr w5))) = Inr w' \<and>
      writing a ?fd ?bs j w'" if v: "writing a ?fd ?bs (length ?bs) v" for v
  proof -
    obtain c w4 j where d: "drain_out e n a ?fd v = Inr (c, w4)" "writing a ?fd ?bs j w4"
      using drain_out_returns [OF v assms(4)] by blast
    obtain s4 where s4: "sock_at w4 (Some a) = Inr s4" "sk_fd s4 = ?fd" using d(2) by (auto simp: writing_def)
    obtain r w5 where "epoll_del e ?fd IOMaskWrite w4 = Inr (r, w5)" "w_mem w5 = w_mem w4" "w_socks w5 = w_socks w4"
      using epoll_del_returns [OF assms(2)] by blast
    with d s4 writing_trace [OF d(2)] show ?thesis by (cases c) auto
  qed
  have conn: "\<exists>c w3. CheckConnected e ?fd w2 = Inr (c, w3) \<and> writing a ?fd ?bs (length ?bs) w3"
  proof -
    obtain r err tr' where g: "sys_getsockerr (e_kernel e) (w_trace w2) ?fd = (r, err, tr')" by (metis prod_cases3)
    obtain r' w3 where "epoll_del e ?fd IOMaskRW (w2\<lparr>w_trace := tr'\<rparr>) = Inr (r', w3)"
      "w_mem w3 = w_mem w2" "w_socks w3 = w_socks w2"
      using epoll_del_returns [OF assms(2), of e IOMaskRW "w2\<lparr>w_trace := tr'\<rparr>"] by auto
    with g writing_trace [OF w2(2)] show ?thesis by (auto simp: CheckConnected_def Let_def)
  qed
  then obtain c w3 where c: "CheckConnected e ?fd w2 = Inr (c, w3)" "writing a ?fd ?bs (length ?bs) w3" by blast
  have "\<exists>w' j. ProcessEpollOut e n ?fd (Some a) w = Inr w' \<and> writing a ?fd ?bs j w'"
    using flush [OF c(2)] flush [OF w2(2)] c w2(2)
    by (cases c) (auto simp: ProcessEpollOut_def t w2(1,3) Let_def)
  then show ?thesis using fin by blast
qed

text \<open>A process with one connected socket.\<close>

definition sample_sock :: "iobuffer \<Rightarrow> iobuffer \<Rightarrow> sock" where
  "sample_sock i out = \<lparr>sk_fd = 5, sk_status = ST_IDLE, sk_last_active = 0,
     sk_options = \<lparr>so_fd = 5, so_peer = Peer_default, so_arg = 0, so_on_edge_triggered_event = Server_OnNewMsgReceived\<rparr>,
     sk_in = i, sk_out = out, sk_req_done = []\<rparr>"

definition one_socket :: "mem \<Rightarrow> iobuffer \<Rightarrow> iobuffer \<Rightarrow> world" where
  "one_socket m i out = sample_world\<lparr>w_mem := m, w_socks := [Some (sample_sock i out)]\<rparr>"

lemma one_socket_at: "sock_at (one_socket m i out) (Some 0) = Inr (sample_sock i out)" "w_mem (one_socket m i out) = m"
  by (simp_all add: one_socket_def sample_world_def)

lemma sample_sock_simps [simp]:
  "sk_fd (sample_sock i out) = 5" "sk_status (sample_sock i out) = ST_IDLE" "sk_in (sample_sock i out) = i"
  "sk_out (sample_sock i out) = out"
  by (simp_all add: sample_sock_def)

lemma hello_fits: "int (length ''hello'') \<le> kDefaultBlockBytes"
  by (simp add: kDefaultBlockBytes_def)

theorem ProcessEpollOut_returns_witness:
  "\<exists>w' s'. ProcessEpollOut sample_env 6 5 (Some 0) (one_socket (one_mem ''hello'') IOBuffer_init one_buf) = Inr w' \<and>
    sock_at w' (Some 0) = Inr s' \<and> sk_fd s' = 5 \<and> suffix (contents (w_mem w') (sk_out s')) ''hello''"
  using ProcessEpollOut_returns [OF one_socket_at(1) [of "one_mem ''hello''" IOBuffer_init one_buf], of 6 sample_env]
    one_valid [OF hello_fits] one_contents [OF hello_fits] by (simp add: one_socket_at(2))

section \<open>Reading a socket\<close>

fun is_readv :: "syscall \<Rightarrow> bool" where
  "is_readv (S_readv fd r) = True"
| "is_readv _ = False"

text \<open>The reads a process has made; an answer that ends the loop of \<open>ReadUntilFail\<close>.\<close>

definition reads :: "trace \<Rightarrow> nat" where
  "reads tr = length (filter is_readv tr)"

definition ends_read :: "read_reply \<Rightarrow> bool" where
  "ends_read r \<longleftrightarrow> r = ReadBytes [] \<or> (\<exists>err. r = ReadErr err \<and> err \<noteq> EINTR)"

lemma reads_snoc [simp]: "reads (tr @ [S_readv fd r]) = Suc (reads tr)"
  by (simp add: reads_def)

lemma ReadUntilFail_rounds:
  assumes k: "\<forall>tr. kernel_read_ok (k_readv (e_kernel e) tr fd)"
    and fin: "\<forall>tr n0 n1. k \<le> reads tr \<longrightarrow> ends_read (k_readv (e_kernel e) tr fd n0 n1)"
  shows "sock_at w (Some a) = Inr s \<Longrightarrow> sk_fd s = fd \<Longrightarrow> valid_buffer (w_mem w) (sk_in s) \<Longrightarrow> k - reads (w_trace w) < n \<Longrightarrow>
    \<exists>r w' s'. ReadUntilFail e n a w = Inr (r, w') \<and> ends_read r \<and> last (w_trace w') = S_readv fd r \<and>
      sock_at w' (Some a) = Inr s' \<and> sk_fd s' = fd \<and> valid_buffer (w_mem w') (sk_in s') \<and>
      prefix (contents (w_mem w) (sk_in s)) (contents (w_mem w') (sk_in s'))"
proof (induction n arbitrary: w s)
  case 0
  then show ?case by simp
next
  case (Suc n)
  have s: "w_socks w ! a = Some s" "a < length (w_socks w)" using Suc.prems(1) by simp_all
  obtain as fs where inv: "buf_inv (w_mem w) (sk_in s) as fs" using Suc.prems(3) by (auto simp: valid_buffer_iff)
  let ?rd = "k_readv (e_kernel e) (w_trace w) (sk_fd s)"
  obtain r m b where r: "ReadFromSock ?rd (w_mem w) (sk_in s) = Inr (r, m, b)" "valid_buffer m b"
    "prefix (contents (w_mem w) (sk_in s)) (contents m b)" and last: "\<exists>n0 n1. r = ?rd n0 n1"
  proof -
    have "kernel_read_ok ?rd" using k Suc.prems(2) by auto
    from ReadFromSock_inv [OF inv this] show ?thesis
      using inv by (auto intro!: that simp: buf_inv_contents intro: buf_inv_valid)
  qed
  define w1 where "w1 = put_sock a (s\<lparr>sk_in := b\<rparr>) (w\<lparr>w_trace := w_trace w @ [S_readv (sk_fd s) r], w_mem := m\<rparr>)"
  have w1: "sock_at w1 (Some a) = Inr (s\<lparr>sk_in := b\<rparr>)" "w_mem w1 = m" "reads (w_trace w1) = Suc (reads (w_trace w))"
    "last (w_trace w1) = S_readv (sk_fd s) r"
    using s by (simp_all add: w1_def)
  have step: "ReadUntilFail e (Suc n) a w = (if ends_read r then Inr (r, w1) else ReadUntilFail e n a w1)"
    using s r(1) by (cases r) (simp_all add: w1_def ends_read_def Let_def)
  show ?case
  proof (cases "ends_read r")
    case True
    with step w1 r Suc.prems(2) show ?thesis by auto
  next
    case False
    then have "reads (w_trace w) < k" using last fin Suc.prems(2) by (metis not_le)
    then have "k - reads (w_trace w1) < n" using Suc.prems(4) w1(3) by linarith
    moreover have "sk_fd (s\<lparr>sk_in := b\<rparr>) = fd" "valid_buffer (w_mem w1) (sk_in (s\<lparr>sk_in := b\<rparr>))"
      using Suc.prems(2) w1(2) r(2) by simp_all
    ultimately obtain r' w' s' where "ReadUntilFail e n a w1 = Inr (r', w')" "ends_read r'"
      "last (w_trace w') = S_readv fd r'" "sock_at w' (Some a) = Inr s'" "sk_fd s' = fd" "valid_buffer (w_mem w') (sk_in s')"
      "prefix (contents m b) (contents (w_mem w') (sk_in s'))"
      using Suc.IH [OF w1(1)] w1(2) by auto
    with step False prefix_order.trans [OF r(3)] show ?thesis by auto
  qed
qed

text \<open>
  C20. \<open>ReadUntilFail\<close> returns whenever the kernel's data ends: if every read after the first \<open>k\<close> of
  the process is answered by end of file or by an error other than an interruption, the loop
  stops within that many rounds. It never faults, the reply it stops on is the last read of the
  trace, and the bytes in the buffer before are still in front.
\<close>

theorem ReadUntilFail_returns:
  assumes "sock_at w (Some a) = Inr s" "valid_buffer (w_mem w) (sk_in s)"
    and "\<forall>tr. kernel_read_ok (k_readv (e_kernel e) tr (sk_fd s))"
    and "\<forall>tr n0 n1. k \<le> reads tr \<longrightarrow> ends_read (k_readv (e_kernel e) tr (sk_fd s) n0 n1)"
    and "k - reads (w_trace w) < n"
  shows "\<exists>r w' s'. ReadUntilFail e n a w = Inr (r, w') \<and> ends_read r \<and> last (w_trace w') = S_readv (sk_fd s) r \<and>
    sock_at w' (Some a) = Inr s' \<and> sk_fd s' = sk_fd s \<and> valid_buffer (w_mem w') (sk_in s') \<and>
    prefix (contents (w_mem w) (sk_in s)) (contents (w_mem w') (sk_in s'))"
  using ReadUntilFail_rounds [OF assms(3,4,1) refl assms(2,5)] .

definition chatty_env :: env where
  "chatty_env = sample_env\<lparr>e_kernel := sample_kernel\<lparr>k_readv := (\<lambda>tr fd n0 n1.
     if reads tr = 0 then ReadErr EINTR else if reads tr = 1 \<and> 3 \<le> n0 + n1 then ReadBytes ''abc'' else ReadErr EAGAIN)\<rparr>\<rparr>"

theorem ReadUntilFail_returns_witness:
  "\<exists>r w' s'. ReadUntilFail chatty_env 3 0 (one_socket (one_mem ''hello'') one_buf IOBuffer_init) = Inr (r, w') \<and>
    ends_read r \<and> last (w_trace w') = S_readv 5 r \<and> sock_at w' (Some 0) = Inr s' \<and> sk_fd s' = 5 \<and>
    valid_buffer (w_mem w') (sk_in s') \<and> prefix ''hello'' (contents (w_mem w') (sk_in s'))"
  using ReadUntilFail_returns [OF one_socket_at(1) [of "one_mem ''hello''" one_buf IOBuffer_init], of chatty_env 2 3]
    one_valid [OF hello_fits] one_contents [OF hello_fits]
  by (simp add: one_socket_at(2) chatty_env_def kernel_read_ok_def ends_read_def)

section \<open>Connecting and writing\<close>

text \<open>
  C32. A connection that is refused leaves its descriptor behind: the attempt fails, but the next one
  takes the positive descriptor for a connection and reports success without a single call of the
  kernel.
\<close>

theorem refused_connect_succeeds_next:
  assumes "sock_at w (Some a) = Inr s" "sk_fd s \<le> 0"
    and "k_aton (e_kernel e) (c_str (pe_ip (so_peer (sk_options s)))) = Some ip"
    and "k_socket (e_kernel e) (w_trace w) = g" "g > 0"
    and "\<forall>tr n. k_setfl (e_kernel e) tr g n = 0" "\<forall>tr. k_setfd (e_kernel e) tr g = 0"
    and "\<forall>tr sa. k_connect (e_kernel e) tr g sa = Some err" "err \<noteq> EINPROGRESS"
  shows "\<exists>w' w''. ConnectIfNot e a w = Inr (- 1, w') \<and> ConnectIfNot e a w' = Inr (0, w'') \<and> w_trace w'' = w_trace w' \<and>
    (\<exists>s''. sock_at w'' (Some a) = Inr s'' \<and> sk_fd s'' = g \<and> sk_status s'' = ST_CONNECTED)"
proof -
  let ?k = "e_kernel e"
  have s: "w_socks w ! a = Some s" "a < length (w_socks w)" using assms(1) by simp_all
  have nb: "fst (SetNonBlocking ?k tr g) = 0" "fst (SetCloseOnExec ?k tr g) = 0" for tr
    using assms(6,7) by (simp_all add: SetNonBlocking_def SetCloseOnExec_def sys_getfl_def sys_setfl_def sys_setfd_def Let_def)
  obtain t1 where t1: "sys_socket ?k (w_trace w) = (g, t1)" using assms(4) by (simp add: sys_socket_def Let_def)
  obtain t2 where t2: "SetNonBlocking ?k t1 g = (0, t2)" using nb(1) [of t1] by (metis eq_fst_iff)
  obtain t3 where t3: "SetCloseOnExec ?k t2 g = (0, t3)" using nb(2) [of t2] by (metis eq_fst_iff)
  obtain sa where i: "InitSock e a w = Inr (0, sa, put_sock a (s\<lparr>sk_fd := g\<rparr>) (w\<lparr>w_trace := t3\<rparr>))"
    using s assms(3,5) t1 t2 t3 by (simp add: InitSock_def Let_def put_sock_def)
  define w' where "w' = put_sock a (s\<lparr>sk_fd := g\<rparr>) (w\<lparr>w_trace := snd (sys_connect ?k t3 g sa)\<rparr>)"
  have "ConnectIfNot e a w = Inr (- 1, w')"
    using s assms(2,8,9) i by (simp add: ConnectIfNot_def sys_connect_def Let_def w'_def put_sock_def)
  moreover have "ConnectIfNot e a w' = Inr (0, put_sock a (s\<lparr>sk_fd := g, sk_status := ST_CONNECTED\<rparr>) w')"
    using s assms(5) by (simp add: ConnectIfNot_def w'_def)
  ultimately show ?thesis using s by (auto simp: w'_def)
qed

definition refusing_env :: env where
  "refusing_env = sample_env\<lparr>e_kernel := sample_kernel\<lparr>k_connect := (\<lambda>_ _ _. Some (EOTHER 111))\<rparr>\<rparr>"

definition closed_socket :: world where
  "closed_socket = sample_world\<lparr>w_socks := [Some (sample_sock IOBuffer_init IOBuffer_init\<lparr>sk_fd := - 1\<rparr>)]\<rparr>"

theorem refused_connect_succeeds_next_witness:
  "\<exists>w' w''. ConnectIfNot refusing_env 0 closed_socket = Inr (- 1, w') \<and> ConnectIfNot refusing_env 0 w' = Inr (0, w'') \<and>
    w_trace w'' = w_trace w' \<and>
    (\<exists>s''. sock_at w'' (Some 0) = Inr s'' \<and> sk_fd s'' = 3 \<and> sk_status s'' = ST_CONNECTED)"
proof -
  have "sock_at closed_socket (Some 0) = Inr (sample_sock IOBuffer_init IOBuffer_init\<lparr>sk_fd := - 1\<rparr>)"
    by (simp add: closed_socket_def)
  from refused_connect_succeeds_next [OF this, of refusing_env 0 3 "EOTHER 111"] show ?thesis
    by (simp add: refusing_env_def sample_env_def sample_kernel_def)
qed

text \<open>The outcome of a write on a connected socket when the first call empties the buffer.\<close>

lemma StartWrite_drained:
  assumes "sock_at w (Some a) = Inr s" "sk_status s \<noteq> ST_ERROR" "sk_fd s > 0"
    and "\<And>tr vecs. k_writev (e_kernel e) tr (sk_fd s) vecs = Wrote n" "0 < n"
    and "valid_buffer (w_mem w) (sk_out s)" "length (blocks_of (w_mem w) (sk_out s)) = 1" "contents (w_mem w) (sk_out s) \<noteq> []"
  shows "\<exists>w' s'. StartWrite e a config w = bindR (case wc_on_replied config of None \<Rightarrow> Inr w' | Some c \<Rightarrow> run_closure e c w')
      (\<lambda>w''. Inr (int n, w'')) \<and> w_closures w' = w_closures w \<and> sock_at w' (Some a) = Inr s' \<and> sk_status s' = ST_IDLE \<and>
      sk_fd s' = sk_fd s \<and> contents (w_mem w') (sk_out s') = []"
proof -
  have s: "w_socks w ! a = Some s" "a < length (w_socks w)" using assms(1) by simp_all
  let ?m = "w_mem w" and ?b = "sk_out s"
  obtain t tr where t: "now e w = (t, w\<lparr>w_trace := tr\<rparr>)" by (auto simp: now_def sys_time_def Let_def)
  obtain as fs where inv: "buf_inv ?m ?b as fs" using assms(6) by (auto simp: valid_buffer_iff)
  have h: "concat (held ?m as) \<noteq> []" using assms(8) inv by (simp add: buf_inv_contents)
  have v: "WriteToSock (k_writev (e_kernel e) tr' (sk_fd s)) ?m ?b = Inr (take 4 (held ?m as), Wrote n)" for tr'
    unfolding WriteToSock_inv [OF inv] if_not_P [OF h] assms(4) by (rule refl)
  obtain c where c: "chunks_of ?m ?b = [c]"
    using assms(7) by (auto simp: chunks_of_def held_def length_Suc_conv)
  then have "c \<noteq> []" using assms(8) by (auto simp: contents_chunks)
  then have "drain n [c] = []" by (rule drain_last [OF assms(5)])
  with PopFront_chunks [OF assms(6), of "int n"] c obtain m' b' where
    p: "PopFront ?m ?b (int n) = Inr (m', b')" "chunks_of m' b' = []" "valid_buffer m' b'" by auto
  then have e: "contents m' b' = []" "IOBuffer_Empty m' b' = Inr True"
    using Empty_contents [OF p(3)] by (simp_all add: contents_chunks)
  have ne: "held ?m as \<noteq> []" using h by auto
  show ?thesis
    using s t assms(2,3,5) v p(1) e ne
    by (simp add: StartWrite_def Let_def ConnectIfNot_def sock_write_def out_PopFront_def write_rc_def CHECK_def)
      (rule exI, rule conjI, rule refl, simp)
qed

text \<open>
  C21. A short write loses data and is reported as complete: when the kernel takes any positive number
  of the bytes of a buffer of one block, all of them are dropped, the socket becomes \<open>IDLE\<close>, no write
  event is registered, and the number the kernel took is returned.
\<close>

theorem StartWrite_short_write_drops:
  assumes "sock_at w (Some a) = Inr s" "sk_status s \<noteq> ST_ERROR" "sk_fd s > 0" "wc_on_replied config = None"
    and "\<And>tr vecs. k_writev (e_kernel e) tr (sk_fd s) vecs = Wrote n" "0 < n"
    and "valid_buffer (w_mem w) (sk_out s)" "length (blocks_of (w_mem w) (sk_out s)) = 1"
    and "n < length (contents (w_mem w) (sk_out s))"
  shows "\<exists>w' s'. StartWrite e a config w = Inr (int n, w') \<and> sock_at w' (Some a) = Inr s' \<and> sk_status s' = ST_IDLE \<and>
    contents (w_mem w') (sk_out s') = []"
proof -
  have "contents (w_mem w) (sk_out s) \<noteq> []" using assms(9) by auto
  from StartWrite_drained [OF assms(1-3,5,6,7,8) this, of config] assms(4) show ?thesis by auto
qed

definition slow_env :: env where
  "slow_env = sample_env\<lparr>e_kernel := sample_kernel\<lparr>k_writev := (\<lambda>_ _ _. Wrote 2)\<rparr>\<rparr>"

theorem StartWrite_short_write_drops_witness:
  "contents (one_mem ''hello'') one_buf = ''hello'' \<and>
   (\<exists>w' s'. StartWrite slow_env 0 \<lparr>wc_call_id = 0, wc_on_replied = None\<rparr> (one_socket (one_mem ''hello'') IOBuffer_init one_buf) =
      Inr (2, w') \<and> sock_at w' (Some 0) = Inr s' \<and> sk_status s' = ST_IDLE \<and> contents (w_mem w') (sk_out s') = [])"
  using StartWrite_short_write_drops [OF one_socket_at(1) [of "one_mem ''hello''" IOBuffer_init one_buf],
      of "\<lparr>wc_call_id = 0, wc_on_replied = None\<rparr>" slow_env 2]
    one_valid [OF hello_fits] one_contents [OF hello_fits] one_blocks [OF hello_fits]
  by (simp add: one_socket_at(2) slow_env_def)

end
