(* ===== verification/Server_Props.thy ===== *)
theory Server_Props
  imports Server_Inv Socket_Props
begin

text \<open>
  Properties of the server: who owns a socket, which call ids can be used again, what happens when
  a peer closes its connection, and what \<open>Accept\<close> and the registry of services do.
\<close>

section \<open>Destroying a socket\<close>

lemma delete_closures_only: "delete_closures cs w = Inr w' \<Longrightarrow> \<exists>s. w' = w\<lparr>w_closures := s\<rparr>"
proof (induction cs arbitrary: w)
  case (Cons c cs)
  then obtain w1 where "delete_closure c w = Inr w1" "delete_closures cs w1 = Inr w'" by (auto simp: bindR_eq_Inr)
  with Cons.IH [of w1] show ?case by (auto simp: delete_closure_def split: if_splits)
qed (auto intro!: exI [of _ "w_closures w'"])

lemma Socket_delete_effect:
  "Socket_delete a w = Inr w' \<Longrightarrow> w_pool w' = w_pool w \<and> w_cntls w' = w_cntls w \<and> w_socks w' = (w_socks w)[a := None]"
  by (auto simp: Socket_delete_def bindR_eq_Inr Let_def split: if_splits dest!: delete_closures_only)

lemma SocketPool_Remove_effect:
  assumes "SocketPool_Remove e fd w = Inr w'"
  shows "\<exists>a. w_pool w fd = Some a \<and> w_pool w' = (w_pool w)(fd := None) \<and> w_cntls w' = w_cntls w \<and>
    w_socks w' = (w_socks w)[a := None]"
proof -
  from assms obtain a r w1 w2 where "w_pool w fd = Some a" "epoll_del e fd IOMaskRW w = Inr (r, w1)"
    "Socket_delete a w1 = Inr w2" "w' = w2\<lparr>w_pool := (w_pool w2)(fd := None)\<rparr>"
    by (auto simp: SocketPool_Remove_def bindR_eq_Inr CHECK_eq_Inr split: option.splits)
  then show ?thesis by (auto dest!: epoll_only Socket_delete_effect)
qed

section \<open>Ownership of sockets\<close>

definition pool_ok :: "world \<Rightarrow> bool" where
  "pool_ok w \<longleftrightarrow> (\<forall>fd a. w_pool w fd = Some a \<longrightarrow>
     fd > 0 \<and> a < length (w_socks w) \<and> (\<exists>s. w_socks w ! a = Some s \<and> sk_fd s = fd))"

text \<open>The controllers of the call ids \<open>C\<close> are allocated.\<close>

definition holds_ids :: "64 word set \<Rightarrow> world \<Rightarrow> bool" where
  "holds_ids C w \<longleftrightarrow> pool_ok w \<and> C \<subseteq> dom (w_cntls w)"

lemma pool_ok_frame: "pool_ok w \<Longrightarrow> frame a w w' \<Longrightarrow> pool_ok w'"
  unfolding pool_ok_def frame_def by (metis (no_types, lifting))

lemma pool_ok_new: "pool_ok w \<Longrightarrow> Socket_new e opts w = (a, w') \<Longrightarrow> pool_ok w'"
proof -
  assume ok: "pool_ok w" and n: "Socket_new e opts w = (a, w')"
  obtain t w1 where t: "now e w = (t, w1)" by fastforce
  have "pool_ok w1" using pool_ok_frame [OF ok frame_now [OF t]] .
  then show ?thesis using n t by (fastforce simp: Socket_new_def pool_ok_def nth_append)
qed

lemma pool_okD:
  "pool_ok w \<Longrightarrow> w_pool w fd = Some a \<Longrightarrow> fd > 0 \<and> a < length (w_socks w) \<and> (\<exists>s. w_socks w ! a = Some s \<and> sk_fd s = fd)"
  by (simp add: pool_ok_def)

text \<open>An address is in the pool under the descriptor of its socket only.\<close>

lemma pool_ok_inj: "pool_ok w \<Longrightarrow> w_pool w fd = Some a \<Longrightarrow> w_pool w g = Some a \<Longrightarrow> g = fd"
  by (metis option.inject pool_okD)

lemma pool_ok_drop:
  assumes "pool_ok w" "w_socks w' = (w_socks w)[a := None]"
    and "\<And>fd b. w_pool w' fd = Some b \<Longrightarrow> w_pool w fd = Some b \<and> b \<noteq> a"
  shows "pool_ok w'"
  using assms unfolding pool_ok_def by (metis length_list_update nth_list_update_neq)

interpretation pool: server_invariant pool_ok
proof unfold_locales
  show "pool_ok w'" if "pool_ok w" "frame a w w'" for w w' a using pool_ok_frame that .
  show "pool_ok w'" if "pool_ok w" "Socket_new e opts w = (a, w')" for w w' e opts a using pool_ok_new that .
  show "pool_ok w'" if "pool_ok w" "\<forall>fd. w_pool w fd \<noteq> Some a" "Socket_delete a w = Inr w'" for w w' a
    by (rule pool_ok_drop [OF that(1)]) (use that(2) Socket_delete_effect [OF that(3)] in auto)
  show "pool_ok w'" if "pool_ok w" "w_socks w ! a = Some s" "sk_fd s > 0" "SocketPool_Insert a w = Inr w'" for w w' a s
    using that by (auto simp: pool_ok_def SocketPool_Insert_def bindR_eq_Inr CHECK_eq_Inr split: if_splits)
  show "pool_ok w'" if "pool_ok w" "SocketPool_Remove e fd w = Inr w'" for w w' e fd
  proof -
    from SocketPool_Remove_effect [OF that(2)] obtain a where a: "w_pool w fd = Some a"
      "w_pool w' = (w_pool w)(fd := None)" "w_socks w' = (w_socks w)[a := None]" by blast
    show ?thesis
    proof (rule pool_ok_drop [OF that(1) a(3)])
      fix g b assume "w_pool w' g = Some b"
      then have "g \<noteq> fd" "w_pool w g = Some b" using a(2) by (auto split: if_splits)
      then show "w_pool w g = Some b \<and> b \<noteq> a" using pool_ok_inj [OF that(1) a(1)] by auto
    qed
  qed
qed (auto simp: pool_ok_def)

lemma cntls_new: "Socket_new e opts w = (a, w') \<Longrightarrow> w_cntls w' = w_cntls w"
  by (auto simp: Socket_new_def now_def Let_def split: prod.splits)

interpretation ids: server_invariant "holds_ids C" for C
proof unfold_locales
  show "holds_ids C w'" if "holds_ids C w" "frame a w w'" for w w' a
    using that pool.ok_frame by (auto simp: holds_ids_def frame_def)
  show "holds_ids C w'" if "holds_ids C w" "so_fd opts > 0" "Socket_new e opts w = (a, w')" for w w' e opts a
    using that pool.ok_new [of w opts e a w'] cntls_new [of e opts w a w'] by (simp add: holds_ids_def)
  show "holds_ids C w'" if "holds_ids C w" "\<forall>fd. w_pool w fd \<noteq> Some a" "Socket_delete a w = Inr w'" for w w' a
    using that pool.ok_delete [of w a w'] Socket_delete_effect [of a w w'] by (simp add: holds_ids_def)
  show "holds_ids C w'" if "holds_ids C w" "w_socks w ! a = Some s" "sk_fd s > 0" "SocketPool_Insert a w = Inr w'" for w w' a s
  proof -
    have "w_cntls w' = w_cntls w" using that by (auto simp: SocketPool_Insert_def bindR_eq_Inr CHECK_eq_Inr)
    then show ?thesis using that pool.ok_insert by (auto simp: holds_ids_def)
  qed
  show "holds_ids C w'" if "holds_ids C w" "SocketPool_Remove e fd w = Inr w'" for w w' e fd
    using that pool.ok_remove [of w e fd w'] SocketPool_Remove_effect [of e fd w w'] by (auto simp: holds_ids_def)
qed (auto simp: holds_ids_def pool_ok_def)

text \<open>
  C3. In every state the server can reach from an empty pool, an entry of the pool is a live socket
  whose descriptor is the key of the entry and positive, and no socket is in the pool twice: the
  pool is the only owner of a descriptor, so that removing an entry closes it once.
\<close>

theorem pool_owns_open_sockets:
  assumes "service_keeps pool_ok u" "callbacks_keep pool_ok e" "w_pool w = Map.empty"
    and "server_reaches e u srv w w'" "SocketPool_Get fd w' = Some a"
  shows "fd > 0 \<and> (\<exists>s. sock_at w' (Some a) = Inr s \<and> sk_fd s = fd) \<and> (\<forall>g. SocketPool_Get g w' = Some a \<longrightarrow> g = fd)"
proof -
  have "pool_ok w" using assms(3) by (simp add: pool_ok_def)
  then have ok: "pool_ok w'" using pool.keeps_reachable [OF assms(1,2,4)] by simp
  have p: "w_pool w' fd = Some a" using assms(5) by (simp add: SocketPool_Get_def)
  show ?thesis
    using pool_okD [OF ok p] pool_ok_inj [OF ok p] unfolding SocketPool_Get_def sock_at_Inr by blast
qed

definition idle_user :: user where
  "idle_user = \<lparr>u_service = (\<lambda>mp c reply w. Inr w), u_order = (\<lambda>h. [])\<rparr>"

lemma idle_keeps [simp]: "service_keeps P idle_user" "callbacks_keep P sample_env"
  by (simp_all add: service_keeps_def callbacks_keep_def idle_user_def sample_env_def)

definition echo_server :: server where
  "echo_server = snd (AddService (Some \<lparr>sv_name = ''Echo'', sv_methods = [0, 1]\<rparr>) (Server_new 80 ''http''))"

lemma sample_grants [simp]:
  "fst (sys_socket sample_kernel tr) = 3" "fst (SetNonBlocking sample_kernel tr fd) = 0"
  "fst (SetCloseOnExec sample_kernel tr fd) = 0" "fst (SetReuse sample_kernel tr fd) = 0"
  "fst (SetNoDelay sample_kernel tr fd) = 0" "fst (Bind sample_kernel tr fd port) = 0" "fst (Listen sample_kernel tr fd) = 0"
  by (simp_all add: SetNonBlocking_def SetCloseOnExec_def SetReuse_def SetNoDelay_def Bind_def Listen_def
      sys_socket_def sys_getfl_def sys_setfl_def sys_setfd_def sys_setsockopt_def sys_bind_def sys_listen_def
      sample_kernel_def Let_def)

lemma echo_listens: "fst (CreateTcpServer sample_kernel tr port) = 3"
  unfolding CreateTcpServer_def Let_def split_beta by simp

lemma echo_registers:
  assumes "w_epoll w = w_epoll sample_world"
  shows "\<exists>tr ep. epoll_add_read sample_env 3 (Some 0) w = Inr (0, w\<lparr>w_trace := tr, w_epoll := ep\<rparr>)"
proof -
  have "\<exists>w'. epoll_add_read sample_env 3 (Some 0) w = Inr (0, w')"
    by (simp add: assms epoll_add_read_def AddReadEvent_def AddEvent_def Event_new_def sys_epoll_ctl_def sample_env_def
        sample_kernel_def sample_world_def Let_def)
  then show ?thesis using epoll_only(1) by blast
qed

lemma echo_start:
  "\<exists>w. Server_Start sample_env echo_server 0 sample_world = Inr w \<and> w_pool w = [3 \<mapsto> 0]"
proof -
  obtain tr where c: "CreateTcpServer sample_kernel [] 80 = (3, tr)" using echo_listens [of "[]" 80] by (metis eq_fst_iff)
  let ?o = "\<lparr>so_fd = 3, so_peer = Peer_default, so_arg = 0, so_on_edge_triggered_event = Server_Accept\<rparr>"
  obtain s w1 where n: "Socket_new sample_env ?o (sample_world\<lparr>w_trace := tr\<rparr>) = (0, w1)"
    "w_socks w1 = [Some s]" "sk_fd s = 3" "w_pool w1 = Map.empty" "w_epoll w1 = w_epoll sample_world"
    by (fastforce simp: Socket_new_def now_def sys_time_def Let_def sample_world_def)
  obtain tr' ep where r: "epoll_add_read sample_env 3 (Some 0) w1 = Inr (0, w1\<lparr>w_trace := tr', w_epoll := ep\<rparr>)"
    using echo_registers [OF n(5)] by blast
  have p: "e_kernel sample_env = sample_kernel" "w_trace sample_world = []" "sr_port echo_server = 80"
    by (simp_all add: sample_env_def sample_world_def echo_server_def AddService_def Server_new_def)
  show ?thesis
    using n(2-4) by (simp add: Server_Start_def p c n(1) r FDGuard_less_def FDGuard_get_def FDGuard_Release_def
      SocketPool_Insert_def sock_at_def)
qed

theorem pool_owns_open_sockets_witness:
  "\<exists>w. Server_Start sample_env echo_server 0 sample_world = Inr w \<and> SocketPool_Get 3 w = Some 0 \<and>
    (\<exists>s. sock_at w (Some 0) = Inr s \<and> sk_fd s = 3)"
proof -
  obtain w where w: "Server_Start sample_env echo_server 0 sample_world = Inr w" "w_pool w = [3 \<mapsto> 0]"
    using echo_start by blast
  have p: "SocketPool_Get 3 w = Some 0" "w_pool sample_world = Map.empty"
    using w(2) by (simp_all add: SocketPool_Get_def sample_world_def)
  have "server_reaches sample_env idle_user echo_server sample_world w"
    using server_step.start [OF w(1)] by (rule r_into_rtranclp)
  from pool_owns_open_sockets [OF idle_keeps p(2) this p(1)] w(1) p(1) show ?thesis by blast
qed

section \<open>Call ids\<close>

lemma as_uint32_id: "c < 2 ^ 32 \<longleftrightarrow> as_uint32 c = c"
proof -
  have "unat (as_uint32 c) = unat c mod 2 ^ 32"
    by (simp add: as_uint32_def unsigned_ucast_eq take_bit_eq_mod unat_mod_distrib)
  moreover have "c < 2 ^ 32 \<longleftrightarrow> unat c < 2 ^ 32" by (simp add: word_less_nat_alt)
  moreover have "unat c mod 2 ^ 32 = unat c \<longleftrightarrow> unat c < 2 ^ 32"
    using mod_less_divisor [of "2 ^ 32" "unat c"] by (metis mod_less zero_less_numeral zero_less_power)
  ultimately show ?thesis by (metis word_unat_eq_iff)
qed

text \<open>The controller a request is dispatched with.\<close>

definition new_controller :: "nat \<Rightarrow> http_request \<Rightarrow> 64 word \<Rightarrow> controller" where
  "new_controller a req c = Controller_new\<lparr>ct_request := fst (HttpRequest_Swap (ct_request Controller_new) req),
     ct_sock := Some a, ct_call_id := c\<rparr>"

lemma dispatch_exact:
  "dispatch e u srv a req c w =
     (if w_cntls w (as_uint32 c) \<noteq> None then Inl CheckFail
      else CallServiceMethod e u srv c (w\<lparr>w_cntls := (w_cntls w)(c \<mapsto> new_controller a req c)\<rparr>))"
  by (simp add: dispatch_def ControllerPool_Exist_def ControllerPool_Allocate_def cntl_at_def Let_def
      new_controller_def CHECK_def)

text \<open>
  C16. Which call ids are served once: after a request with the id \<open>c\<close> was dispatched, no state the
  server reaches from there has lost the id's controller, since no operation of the program takes one
  out of the pool. Every later request whose id has \<open>c\<close> as its low 32 bits aborts the process, so an id
  below \<open>2^32\<close> is served once. An id from \<open>2^32\<close> on is looked up by its low 32 bits but stored in full:
  while those are no id of their own in the pool, the same id is served again and again, each time
  replacing the controller of the request before.
\<close>

theorem call_id_served_once:
  assumes "service_keeps (holds_ids {c}) u" "callbacks_keep (holds_ids {c}) e" "pool_ok w"
    and "dispatch e u srv a req c w = Inr w1" "server_reaches e u srv w1 w2"
  shows "w_cntls w2 c \<noteq> None \<and>
    (as_uint32 c' = c \<longrightarrow> dispatch e u srv b req' c' w2 = Inl CheckFail) \<and>
    (c < 2 ^ 32 \<longleftrightarrow> as_uint32 c = c) \<and>
    (c \<ge> 2 ^ 32 \<longrightarrow> w_cntls w2 (as_uint32 c) = None \<longrightarrow> dispatch e u srv b req' c w2 =
       CallServiceMethod e u srv c (w2\<lparr>w_cntls := (w_cntls w2)(c \<mapsto> new_controller b req' c)\<rparr>))"
proof -
  have "CallServiceMethod e u srv c (w\<lparr>w_cntls := (w_cntls w)(c \<mapsto> new_controller a req c)\<rparr>) = Inr w1"
    using assms(4) by (simp add: dispatch_exact split: if_splits)
  moreover have "holds_ids {c} (w\<lparr>w_cntls := (w_cntls w)(c \<mapsto> new_controller a req c)\<rparr>)"
    using assms(3) pool.ok_alloc by (simp add: holds_ids_def)
  ultimately have "holds_ids {c} w1"
    using ids.keeps_CallServiceMethod [OF assms(1), THEN holds_D] by blast
  then have h: "w_cntls w2 c \<noteq> None" using ids.keeps_reachable [OF assms(1,2,5)] by (auto simp: holds_ids_def)
  have low: "c < 2 ^ 32 \<longleftrightarrow> as_uint32 c = c" by (rule as_uint32_id)
  show ?thesis using h low by (simp add: dispatch_exact)
qed

definition echo_request :: http_request where
  "echo_request = blank_HttpRequest\<lparr>rq_headers := [''ServiceFullName'' \<mapsto> ''Echo'']\<rparr>"

lemma echo_dispatch:
  "\<exists>w. dispatch sample_env idle_user echo_server 0 echo_request c sample_world = Inr w \<and> (d \<noteq> c \<longrightarrow> w_cntls w d = None)"
  by (simp add: dispatch_exact sample_world_def new_controller_def cntl_at_def
      CallServiceMethod_def HttpRequest_Swap_def echo_request_def GetMethodProperty_def echo_server_def
      AddService_def Server_new_def idle_user_def)

theorem call_id_served_once_witness:
  "(\<exists>w. dispatch sample_env idle_user echo_server 0 echo_request 7 sample_world = Inr w \<and>
     dispatch sample_env idle_user echo_server 0 echo_request (7 + 2 ^ 32) w = Inl CheckFail) \<and>
   (\<exists>w. dispatch sample_env idle_user echo_server 0 echo_request (7 + 2 ^ 32) sample_world = Inr w \<and>
     dispatch sample_env idle_user echo_server 0 echo_request (7 + 2 ^ 32) w =
       CallServiceMethod sample_env idle_user echo_server (7 + 2 ^ 32)
         (w\<lparr>w_cntls := (w_cntls w)(7 + 2 ^ 32 \<mapsto> new_controller 0 echo_request (7 + 2 ^ 32))\<rparr>))"
proof
  have p: "pool_ok sample_world" "as_uint32 (7 + 2 ^ 32) = 7" "as_uint32 7 = 7"
    by (simp_all add: pool_ok_def sample_world_def as_uint32_def)
  obtain w where w: "dispatch sample_env idle_user echo_server 0 echo_request 7 sample_world = Inr w"
    using echo_dispatch [of 7 0] by blast
  from call_id_served_once [OF idle_keeps(1,2) p(1) w rtranclp.rtrancl_refl] p(2) w
  show "\<exists>w. dispatch sample_env idle_user echo_server 0 echo_request 7 sample_world = Inr w \<and>
     dispatch sample_env idle_user echo_server 0 echo_request (7 + 2 ^ 32) w = Inl CheckFail" by blast
  let ?c = "7 + 2 ^ 32 :: 64 word"
  obtain v where v: "dispatch sample_env idle_user echo_server 0 echo_request ?c sample_world = Inr v"
    "w_cntls v 7 = None"
    using echo_dispatch [of ?c 7] by auto
  have ge: "2 ^ 32 \<le> ?c" by simp
  show "\<exists>w. dispatch sample_env idle_user echo_server 0 echo_request ?c sample_world = Inr w \<and>
     dispatch sample_env idle_user echo_server 0 echo_request ?c w =
       CallServiceMethod sample_env idle_user echo_server ?c
         (w\<lparr>w_cntls := (w_cntls w)(?c \<mapsto> new_controller 0 echo_request ?c)\<rparr>)"
    using call_id_served_once [OF idle_keeps(1,2) p(1) v(1) rtranclp.rtrancl_refl] p(2) v ge by metis
qed

section \<open>A peer that closes\<close>

lemma IssueRPC_dangling:
  "w_cntls w c = Some cntl \<Longrightarrow> ct_sock cntl = Some a \<Longrightarrow> sock_at w (Some a) = Inl Dangling \<Longrightarrow> IssueRPC e u c w = Inl Dangling"
  by (simp add: IssueRPC_def cntl_at_def)

text \<open>
  C33. End of file discards what was received and leaves the controllers of the connection dangling:
  when a read round of \<open>OnNewMsgReceived\<close> ends with end of file, no request is dispatched, however
  many complete ones the buffer holds; the socket leaves the pool and is destroyed, and every
  service that still has to answer a request of this connection faults when it does.
\<close>

theorem peer_close_discards:
  assumes "SocketPool_Get fd w = Some a" "ReadUntilFail e n a w = Inr (ReadBytes [], w1)"
    and "OnNewMsgReceived e u srv n fd w = Inr w'"
  shows "SocketPool_Get fd w' = None \<and> w_cntls w' = w_cntls w \<and> sock_at w' (Some a) = Inl Dangling \<and>
    (\<forall>c cntl. w_cntls w c = Some cntl \<longrightarrow> ct_sock cntl = Some a \<longrightarrow> IssueRPC e u c w' = Inl Dangling)"
proof -
  have f: "frame a w w1"
    using step_ReadUntilFail [OF frame_refl, THEN holds_D, OF assms(2)] by simp
  have r: "SocketPool_Remove e fd w1 = Inr w'"
    using assms by (simp add: OnNewMsgReceived_def read_rc_def)
  have p: "w_pool w1 fd = Some a" "w_cntls w1 = w_cntls w"
    using f assms(1) by (simp_all add: frame_def SocketPool_Get_def)
  then have w': "w_pool w' = (w_pool w1)(fd := None)" "w_cntls w' = w_cntls w" "w_socks w' = (w_socks w1)[a := None]"
    using SocketPool_Remove_effect [OF r] by auto
  then have d: "sock_at w' (Some a) = Inl Dangling" by (simp add: sock_at_def)
  show ?thesis using w' d IssueRPC_dangling [of w' _ _ a e u] by (simp add: SocketPool_Get_def)
qed

definition eof_env :: env where
  "eof_env = sample_env\<lparr>e_kernel := sample_kernel\<lparr>k_readv := (\<lambda>_ _ n0 n1. if n0 + n1 < 0 then ReadErr EAGAIN else ReadBytes [])\<rparr>\<rparr>"

definition waiting_world :: world where
  "waiting_world = sample_world\<lparr>w_socks := [Some (sample_sock IOBuffer_init IOBuffer_init)], w_pool := [5 \<mapsto> 0],
     w_epoll := \<lparr>ep_stop = False, ep_fd = 4, ep_events = replicate 6 Event_default\<rparr>,
     w_cntls := [7 \<mapsto> Controller_new\<lparr>ct_sock := Some 0\<rparr>]\<rparr>"

lemma destroy_returns:
  assumes "valid_buffer m b"
  shows "\<exists>m' b'. IOBuffer_destroy m b = Inr (m', b')"
proof -
  obtain as fs where wf: "buf_wf m b as fs" using assms by (auto simp: valid_buffer_iff buf_inv_def)
  then have "fseg m (io_recycled b) fs" "distinct fs" "length fs < steps m"
    using buf_wf_length [OF wf] by (auto simp: buf_wf_def steps_def)
  then show ?thesis using destroy_loop_frees Empty_wf [OF wf] by (fastforce simp: IOBuffer_destroy_def)
qed

lemma waiting_eof:
  "\<exists>w1 w'. ReadUntilFail eof_env 1 0 waiting_world = Inr (ReadBytes [], w1) \<and>
    OnNewMsgReceived eof_env idle_user echo_server 1 5 waiting_world = Inr w'"
proof -
  let ?s = "sample_sock IOBuffer_init IOBuffer_init"
  have s: "sock_at waiting_world (Some 0) = Inr ?s" "w_mem waiting_world = []" "SocketPool_Get 5 waiting_world = Some 0"
    by (simp_all add: waiting_world_def sample_world_def SocketPool_Get_def)
  have k: "kernel_read_ok (k_readv (e_kernel eof_env) [] 5)"
    by (simp add: eof_env_def kernel_read_ok_def)
  obtain m b where r: "ReadFromSock (k_readv (e_kernel eof_env) [] 5) [] IOBuffer_init = Inr (ReadBytes [], m, b)"
    "valid_buffer m b"
  proof -
    have "k_readv (e_kernel eof_env) [] 5 (int n) kDefaultBlockBytes = ReadBytes []" for n
      by (simp add: eof_env_def kDefaultBlockBytes_def)
    with ReadFromSock_inv [OF buf_inv_init k, of "[]"] show ?thesis by (metis that buf_inv_valid)
  qed
  define w1 where "w1 = put_sock 0 (?s\<lparr>sk_in := b\<rparr>) (waiting_world\<lparr>w_trace := [S_readv 5 (ReadBytes [])], w_mem := m\<rparr>)"
  have "ReadUntilFail eof_env 1 0 waiting_world = Inr (ReadBytes [], w1)"
    using s(1,2) r(1) by (simp add: w1_def Let_def waiting_world_def sample_world_def)
  moreover obtain w2 where e: "epoll_del eof_env 5 IOMaskRW w1 = Inr (0, w2)"
    by (simp add: epoll_del_def DelEvent_def Let_def sys_epoll_ctl_def w1_def put_sock_def waiting_world_def eof_env_def
        sample_env_def sample_kernel_def)
  moreover have w2: "w_mem w2 = m" "w_socks w2 = [Some (?s\<lparr>sk_in := b\<rparr>)]"
    using epoll_only(3) [OF e] by (auto simp: w1_def waiting_world_def)
  moreover have "IOBuffer_destroy m IOBuffer_init = Inr (m, IOBuffer_init)"
    by (simp add: IOBuffer_destroy_def IOBuffer_Empty_def IOBuffer_init_def steps_def)
  moreover obtain m' b' where "IOBuffer_destroy m b = Inr (m', b')" using destroy_returns [OF r(2)] by blast
  ultimately show ?thesis
    using s(3) by (simp add: OnNewMsgReceived_def read_rc_def SocketPool_Remove_def Socket_delete_def Let_def w1_def
        SocketPool_Get_def put_sock_def sample_sock_def waiting_world_def)
qed

theorem peer_close_discards_witness:
  "\<exists>w'. OnNewMsgReceived eof_env idle_user echo_server 1 5 waiting_world = Inr w' \<and> SocketPool_Get 5 w' = None \<and>
    IssueRPC eof_env idle_user 7 w' = Inl Dangling"
proof -
  obtain w1 w' where w: "ReadUntilFail eof_env 1 0 waiting_world = Inr (ReadBytes [], w1)"
    "OnNewMsgReceived eof_env idle_user echo_server 1 5 waiting_world = Inr w'"
    using waiting_eof by blast
  have "SocketPool_Get 5 waiting_world = Some 0" "w_cntls waiting_world 7 = Some (Controller_new\<lparr>ct_sock := Some 0\<rparr>)"
    by (simp_all add: SocketPool_Get_def waiting_world_def)
  with peer_close_discards [OF this(1) w] w(2) show ?thesis by simp
qed

section \<open>Accepting connections\<close>

text \<open>
  C34. A connection whose registration fails is closed twice: the socket object that is destroyed on
  leaving the round closes its descriptor, and then the guard, which has not been released, closes
  the same number again. The loop goes on with the next connection.
\<close>

theorem Accept_closes_twice:
  assumes "k_accept4 (e_kernel e) (w_trace w) fd = Inr (g, addr)" "g > 0"
    and "\<forall>tr n. k_setfl (e_kernel e) tr g n = 0" "\<forall>tr. k_setfd (e_kernel e) tr g = 0"
    and "k_ntop (e_kernel e) (sin_addr addr) = Some ip" "\<forall>tr op evs. k_epoll_ctl (e_kernel e) tr op g evs = - 1"
  shows "\<exists>w' tr. Accept e (Suc n) this fd w = Accept e n this fd w' \<and> w_trace w' = tr @ [S_close g, S_close g] \<and>
    w_pool w' = w_pool w"
proof -
  let ?k = "e_kernel e"
  obtain t0 where t0: "sys_accept4 ?k (w_trace w) fd = (Inr (g, addr), t0)"
    using assms(1) by (simp add: sys_accept4_def Let_def)
  have "fst (SetNonBlocking ?k tr g) = 0" "fst (SetCloseOnExec ?k tr g) = 0" for tr
    using assms(3,4) by (simp_all add: SetNonBlocking_def SetCloseOnExec_def sys_getfl_def sys_setfl_def sys_setfd_def Let_def)
  then obtain t1 t2 where t: "SetCloseOnExec ?k t0 g = (0, t1)" "SetNonBlocking ?k t1 g = (0, t2)" by (metis eq_fst_iff)
  obtain ip' port where ip: "GetIpPortFromSockAddr ?k addr = Some (ip', port)"
    using assms(5) by (simp add: GetIpPortFromSockAddr_def)
  let ?o = "\<lparr>so_fd = g, so_peer = \<lparr>pe_ip = ip', pe_port = port\<rparr>, so_arg = this, so_on_edge_triggered_event = Server_OnNewMsgReceived\<rparr>"
  obtain a w1 where n: "Socket_new e ?o (w\<lparr>w_trace := t2\<rparr>) = (a, w1)" by fastforce
  then obtain s where s: "w_socks w1 ! a = Some s" "a < length (w_socks w1)" "sk_fd s = g" "sk_in s = IOBuffer_init"
    "sk_out s = IOBuffer_init" "sk_req_done s = []" "w_pool w1 = w_pool w"
    by (fastforce simp: Socket_new_def now_def sys_time_def Let_def)
  have "\<exists>w2. epoll_add_read e g (Some a) w1 = Inr (- 1, w2)"
    using assms(2,6) by (auto simp: epoll_add_read_def AddReadEvent_def AddEvent_def Event_new_def sys_epoll_ctl_def Let_def)
  then obtain w2 where r: "epoll_add_read e g (Some a) w1 = Inr (- 1, w2)" by blast
  then have w2: "w_socks w2 = w_socks w1" "w_pool w2 = w_pool w1" by (auto dest!: epoll_only)
  have init: "IOBuffer_destroy m IOBuffer_init = Inr (m, IOBuffer_init)" for m
    by (simp add: IOBuffer_destroy_def IOBuffer_Empty_def IOBuffer_init_def steps_def)
  obtain w3 where d: "Socket_delete a w2 = Inr w3" "w_trace w3 = w_trace w2 @ [S_close g]" "w_pool w3 = w_pool w2"
    using s w2 assms(2) by (auto simp: Socket_delete_def Let_def init sys_close_def)
  have "Accept e (Suc n) this fd w = Accept e n this fd (w3\<lparr>w_trace := run_guard g (w_trace w3)\<rparr>)"
    using t0 t ip n r d(1) assms(2) by (simp add: FDGuard_get_def)
  moreover have "run_guard g (w_trace w3) = w_trace w2 @ [S_close g, S_close g]"
    using d(2) assms(2) by (simp add: run_guard_def FDGuard_destroy_def)
  ultimately show ?thesis using d(3) w2(2) s(7) by (intro exI [of _ "w3\<lparr>w_trace := run_guard g (w_trace w3)\<rparr>"]) auto
qed

definition full_env :: env where
  "full_env = sample_env\<lparr>e_kernel := sample_kernel\<lparr>k_accept4 := (\<lambda>tr fd. if tr = [] then Inr (6, \<lparr>sin_port = 80, sin_addr = 0\<rparr>)
     else Inl EAGAIN), k_epoll_ctl := (\<lambda>_ _ _ _. - 1)\<rparr>\<rparr>"

theorem Accept_closes_twice_witness:
  "\<exists>w' tr. Accept full_env 2 0 3 sample_world = Accept full_env 1 0 3 w' \<and> w_trace w' = tr @ [S_close 6, S_close 6] \<and>
    w_pool w' = w_pool sample_world"
  using Accept_closes_twice [of full_env sample_world 3 6 "\<lparr>sin_port = 80, sin_addr = 0\<rparr>" "''0.0.0.0''" 1 0]
  by (simp add: full_env_def sample_env_def sample_kernel_def sample_world_def numeral_2_eq_2)

section \<open>Listening\<close>

text \<open>A stretch of the trace in which nothing is closed.\<close>

definition closes_nothing :: "trace \<Rightarrow> trace \<Rightarrow> bool" where
  "closes_nothing tr tr' \<longleftrightarrow> (\<exists>t. tr' = tr @ t \<and> (\<forall>g. S_close g \<notin> set t))"

lemma closes_nothing_refl [intro]: "closes_nothing tr tr"
  by (simp add: closes_nothing_def)

lemma closes_nothing_snoc: "closes_nothing tr t \<Longrightarrow> \<forall>g. c \<noteq> S_close g \<Longrightarrow> closes_nothing tr (t @ [c])"
  by (fastforce simp: closes_nothing_def)

lemma closes_nothing_calls:
  assumes "closes_nothing tr t"
  shows "closes_nothing tr (snd (SetNonBlocking k t fd))" "closes_nothing tr (snd (SetCloseOnExec k t fd))"
    "closes_nothing tr (snd (SetReuse k t fd))" "closes_nothing tr (snd (SetNoDelay k t fd))"
    "closes_nothing tr (snd (Bind k t fd port))" "closes_nothing tr (snd (Listen k t fd))"
  using closes_nothing_snoc [OF assms] closes_nothing_snoc [OF closes_nothing_snoc [OF assms]]
  by (simp_all add: SetNonBlocking_def SetCloseOnExec_def SetReuse_def SetNoDelay_def Bind_def Listen_def
      sys_getfl_def sys_setfl_def sys_setfd_def sys_setsockopt_def sys_bind_def sys_listen_def Let_def)

lemma closes_nothing_if:
  "closes_nothing tr (snd x) \<Longrightarrow> closes_nothing tr (snd y) \<Longrightarrow> closes_nothing tr (snd (if c then x else y))"
  by simp


section \<open>The registry of services\<close>

lemma AddService_loop_last:
  "mds \<noteq> [] \<Longrightarrow> sr_services (AddService_loop sv mds srv) =
     (sr_services srv)(sv_name sv \<mapsto> \<lparr>mp_service = sv, mp_method = last mds\<rparr>)"
proof (induction mds arbitrary: srv)
  case (Cons md mds)
  then show ?case by (cases "mds = []") (auto simp: fun_eq_iff)
qed simp

text \<open>
  C40. \<open>AddService\<close> accepts a service exactly when it has a method and no service of its full name is
  registered. Then a lookup of the name finds the service with the last of its methods only, the
  other methods being overwritten one after another; every other name is looked up as before, and a
  refused service changes nothing.
\<close>

theorem AddService_registers_last_method:
  "fst (AddService (Some sv) srv) = (sv_methods sv \<noteq> [] \<and> GetMethodProperty (sv_name sv) srv = None) \<and>
   GetMethodProperty name (snd (AddService (Some sv) srv)) =
     (if name = sv_name sv \<and> sv_methods sv \<noteq> [] \<and> GetMethodProperty (sv_name sv) srv = None
      then Some \<lparr>mp_service = sv, mp_method = last (sv_methods sv)\<rparr> else GetMethodProperty name srv) \<and>
   AddService None srv = (False, srv)"
  by (auto simp: AddService_def GetMethodProperty_def AddService_loop_last)

end
