(* ===== verification/Rpc_Props.thy ===== *)
theory Rpc_Props
  imports Server_Props Http_Prefix
begin

text \<open>
  Properties of the whole path of a call: a request in a connection's buffer reaches the service it
  names, and what a channel does with the closure of a call.
\<close>

section \<open>The server's side\<close>

text \<open>
  C17. A complete request reaches the service it names: when the input buffer of a connection (its
  blocks full, with a free byte in the last) starts with a well-formed GET or POST request without a
  body, whose headers name a registered service and a call id below \<open>2^63\<close> of which the low 32 bits are
  unused, one round of the loop registers a controller with the request's method, URI and headers under
  the whole id and calls the service's method with it. From the buffer the request is removed, and when
  it ends in a first block read up to \<open>S\<close> before, the next \<open>S\<close> bytes too, up to the end of the array.
\<close>

theorem request_reaches_service:
  assumes s: "sock_at w (Some a) = Inr s"
    and buf: "walkable (w_mem w, sk_in s)" "S = first_start (w_mem w) (blocks_of (w_mem w) (sk_in s))"
      "head_ok me uri ver hs" "me \<in> {''GET'', ''get'', ''POST'', ''post''}"
      "contents (w_mem w) (sk_in s) = enc_head me uri ver hs @ CR # LF # rest" "stated_length hs = 0"
      "l = length (enc_head me uri ver hs) + 2"
    and headers: "headers_of hs ''CallId'' = Some (dec_nat i)" "i < 2 ^ 63" "headers_of hs ''ServiceFullName'' = Some name"
    and registered: "sr_services srv name = Some mp" and unused: "w_cntls w (as_uint32 (of_nat i)) = None"
  shows "\<exists>w1 cntl s1. serve_loop e u srv (Suc n) a c w =
      bindR (u_service u mp (of_nat i) (IssueRPC e u (of_nat i)) w1) (serve_loop e u srv n a (of_nat i)) \<and>
    w_cntls w1 = (w_cntls w)(of_nat i \<mapsto> cntl) \<and> ct_sock cntl = Some a \<and> ct_call_id cntl = of_nat i \<and>
    rq_method (ct_request cntl) = me \<and> rq_uri (ct_request cntl) = uri \<and> rq_headers (ct_request cntl) = headers_of hs \<and>
    sock_at w1 (Some a) = Inr s1 \<and> sk_fd s1 = sk_fd s \<and>
    contents (w_mem w1) (sk_in s1) =
      drop (if S + int l \<le> kDefaultBlockBytes then nat (min S (kDefaultBlockBytes - S - int l)) else 0) rest"
proof -
  have sk: "w_socks w ! a = Some s" "a < length (w_socks w)" using s by simp_all
  let ?left = "drop (if S + int l \<le> kDefaultBlockBytes then nat (min S (kDefaultBlockBytes - S - int l)) else 0) rest"
  obtain m b req where p: "bindR (new_HttpRequest (w_mem w) (sk_in s)) (Http_Parse (w_mem w) (sk_in s)) = Inr (m, b, req)"
    "rq_method req = me" "rq_uri req = uri" "rq_headers req = headers_of hs" "rq_pr req = OK"
    "popped (w_mem w) (sk_in s) l rest m b"
    using parse_plain_request [OF buf(1,3,5,6)] buf(4) unfolding buf(7) by auto
  have left: "contents m b = ?left"
    using p(6) unfolding popped_def Let_def overcut_def buf(2) [symmetric] by blast
  obtain req0 where q: "new_HttpRequest (w_mem w) (sk_in s) = Inr req0" "Http_Parse (w_mem w) (sk_in s) req0 = Inr (m, b, req)"
    using p(1) by (auto simp: bindR_eq_Inr)
  have id: "GetCallId req c = (of_nat i, True)"
    using GetCallId_format [of i req c] headers(1,2) p(4) by simp
  let ?w = "put_sock a (s\<lparr>sk_in := b\<rparr>) (w\<lparr>w_mem := m\<rparr>)"
  let ?c = "new_controller a req (of_nat i)"
  let ?w1 = "?w\<lparr>w_cntls := (w_cntls w)(of_nat i \<mapsto> ?c)\<rparr>"
  have d: "dispatch e u srv a req (of_nat i) ?w = u_service u mp (of_nat i) (IssueRPC e u (of_nat i)) ?w1"
    using unused headers(3) p(4) registered
    by (simp add: dispatch_exact new_controller_def cntl_at_def CallServiceMethod_def HttpRequest_Swap_def GetMethodProperty_def)
  have "serve_loop e u srv (Suc n) a c w = bindR (dispatch e u srv a req (of_nat i) ?w) (serve_loop e u srv n a (of_nat i))"
    using sk q id p(5) by (simp add: Let_def)
  then show ?thesis
    unfolding d using sk p(2-4) left
    by (intro exI [of _ ?w1] exI [of _ ?c] exI [of _ "s\<lparr>sk_in := b\<rparr>"]) (simp add: new_controller_def HttpRequest_Swap_def)
qed

definition call_headers :: "(char list \<times> char list) list" where
  "call_headers = [(''CallId'', ''42''), (''ServiceFullName'', ''Echo'')]"

definition sample_call :: "char list" where
  "sample_call = enc_head ''GET'' ''/'' ''HTTP/1.1'' call_headers @ [CR, LF] @ ''rest''"

lemma dec_nat_42: "dec_nat 42 = ''42''"
  by code_simp

lemma call_head_length: "length (enc_head ''GET'' ''/'' ''HTTP/1.1'' call_headers) = 49"
  by (simp add: call_headers_def enc_head_def enc_request_line_def enc_header_def)

lemma sample_call_short: "int (length sample_call) < kDefaultBlockBytes"
  by (simp add: sample_call_def call_head_length kDefaultBlockBytes_def)

theorem request_reaches_service_witness:
  "\<exists>w1 cntl s1. serve_loop sample_env idle_user echo_server 5 0 0 (one_socket (one_mem sample_call) one_buf IOBuffer_init) =
      serve_loop sample_env idle_user echo_server 4 0 42 w1 \<and> w_cntls w1 42 = Some cntl \<and>
    rq_method (ct_request cntl) = ''GET'' \<and> sock_at w1 (Some 0) = Inr s1 \<and> contents (w_mem w1) (sk_in s1) = ''rest''"
proof -
  let ?w = "one_socket (one_mem sample_call) one_buf IOBuffer_init"
  have h: "head_ok ''GET'' ''/'' ''HTTP/1.1'' call_headers"
    by (simp add: call_headers_def head_ok_def request_line_ok_def header_ok_def CR_def LF_def)
  have hs: "headers_of call_headers ''CallId'' = Some (dec_nat 42)" "headers_of call_headers ''ServiceFullName'' = Some ''Echo''"
    "stated_length call_headers = 0"
    by (simp_all add: call_headers_def headers_of_def stated_length_def dec_nat_42)
  have srv: "sr_services echo_server ''Echo'' = Some \<lparr>mp_service = \<lparr>sv_name = ''Echo'', sv_methods = [0, 1]\<rparr>, mp_method = 1\<rparr>"
    by (simp add: echo_server_def AddService_def Server_new_def)
  have c: "contents (w_mem ?w) (sk_in (sample_sock one_buf IOBuffer_init)) =
      enc_head ''GET'' ''/'' ''HTTP/1.1'' call_headers @ CR # LF # ''rest''"
    unfolding one_socket_at(2) sample_sock_simps one_text(3) [OF sample_call_short] by (simp add: sample_call_def)
  have n: "w_cntls ?w (as_uint32 (of_nat 42)) = None" by (simp add: one_socket_def sample_world_def)
  have t: "walkable (w_mem ?w, sk_in (sample_sock one_buf IOBuffer_init))"
    "first_start (w_mem ?w) (blocks_of (w_mem ?w) (sk_in (sample_sock one_buf IOBuffer_init))) = 0"
    unfolding one_socket_at(2) sample_sock_simps using one_text(1,2) [OF sample_call_short] .
  show ?thesis
    using request_reaches_service [OF one_socket_at(1) t(1) t(2) [symmetric] h _ c hs(3) refl hs(1) _ hs(2) srv n, of sample_env idle_user 4 0]
    by (auto simp: idle_user_def)
qed

section \<open>The client's side\<close>

lemma Append_fresh:
  assumes "xs \<noteq> []" "int (length xs) < kDefaultBlockBytes"
  shows "Append_bytes [] IOBuffer_init xs = Inr (one_mem xs, one_buf)"
proof -
  obtain n where n: "2 * length xs + 1 = Suc (Suc n)" using assms(1) by (cases xs) auto
  have lk: "lk [Some blk] 0 = Some blk" for blk :: block by (simp add: lk_def)
  show ?thesis
    using assms unfolding Append_bytes_def n
    by (simp add: FreeSpaceWrapper_def IOBuffer_init_def AllocateBlock_def Append_block_def IOBuffer_Empty_def lk
        FreeSpace_def new_Block_def copy_to_block_def one_mem_def one_buf_def extend_block_def kDefaultBlockBytes_def)
qed

text \<open>
  C31. \<open>CallMethod\<close> deletes a closure that has run: \<open>StartWrite\<close> returns the number of bytes written,
  which \<open>CallMethod\<close> takes for a failure. When the request goes out at once, the closure runs; if it
  deletes itself afterwards, as the closures of protobuf do, the second deletion is a fault, and if
  it does not, \<open>CallMethod\<close> deletes it and returns.
\<close>

theorem CallMethod_deletes_closure:
  assumes "ct_sock cntl = Some a" "sock_at w (Some a) = Inr s" "sk_status s \<noteq> ST_ERROR" "sk_fd s > 0"
    and "r = BuildRequest name (ct_request cntl)"
    and "PackRequest_out (u_order u (rq_headers r)) r (w_mem w) (sk_out s) = Inr (m, b)"
    and "valid_buffer m b" "length (blocks_of m b) = 1" "contents m b \<noteq> []"
    and "\<And>tr vecs. k_writev (e_kernel e) tr (sk_fd s) vecs = Wrote n" "0 < n"
    and "c \<in> w_closures w" "\<And>v. \<exists>v'. e_run e c v = Inr v' \<and> w_closures v' = w_closures v"
  shows "if e_self_deleting e c then CallMethod e u name cntl (Some c) ids w = Inl Dangling
    else \<exists>cntl' w'. CallMethod e u name cntl (Some c) ids w = Inr (cntl', ids + 1, w') \<and>
      w_closures w' = w_closures w - {c} \<and> ct_call_id cntl' = ids + 1"
proof -
  let ?s = "s\<lparr>sk_out := b\<rparr>" and ?w = "put_sock a (s\<lparr>sk_out := b\<rparr>) (w\<lparr>w_mem := m\<rparr>)"
  let ?config = "\<lparr>wc_call_id = ids + 1, wc_on_replied = Some c\<rparr>"
  have sk: "w_socks w ! a = Some s" "a < length (w_socks w)" using assms(2) by simp_all
  have at: "sock_at ?w (Some a) = Inr ?s" using sk by simp
  obtain w' where st: "StartWrite e a ?config ?w = bindR (run_closure e c w') (\<lambda>w''. Inr (int n, w''))"
    "w_closures w' = w_closures w"
    using StartWrite_drained [OF at, of e n ?config] assms(3,4,7-11) by auto
  obtain v where v: "e_run e c w' = Inr v" "w_closures v = w_closures w" using assms(13) [of w'] st(2) by auto
  have run: "run_closure e c w' = (if e_self_deleting e c then Inr (v\<lparr>w_closures := w_closures w - {c}\<rparr>) else Inr v)"
    using v st(2) assms(12) by (simp add: run_closure_def delete_closure_def)
  show ?thesis
    using assms(1,5,6,11,12) sk st(1) run v
    by (simp add: CallMethod_def Let_def GetUniqueCallId_def delete_closure_def)
qed

definition client_user :: user where
  "client_user = \<lparr>u_service = (\<lambda>mp c reply w. Inr w), u_order = (\<lambda>h. [(''Content-Length'', []), (''ServiceFullName'', [])])\<rparr>"

definition client_world :: world where
  "client_world = (one_socket [] IOBuffer_init IOBuffer_init)\<lparr>w_closures := {9}\<rparr>"

definition packed_call :: "char list" where
  "packed_call = ''GET / HTTP/1.1'' @ [CR, LF] @ ''Content-Length: '' @ [CR, LF] @ ''ServiceFullName: '' @ [CR, LF]"

theorem CallMethod_deletes_closure_witness:
  "CallMethod slow_env client_user ''Echo'' (Controller_new\<lparr>ct_sock := Some 0\<rparr>) (Some 9) 0 client_world = Inl Dangling"
proof -
  let ?r = "BuildRequest ''Echo'' (ct_request Controller_new)" and ?s = "sample_sock IOBuffer_init IOBuffer_init"
  have l: "int (length packed_call) < kDefaultBlockBytes" by (simp add: packed_call_def kDefaultBlockBytes_def)
  have "PackRequest (u_order client_user (rq_headers ?r)) ?r [] = Inr packed_call"
    by (subst PackRequest_text) (simp_all add: client_user_def header_line_def packed_call_def)
  then have p: "PackRequest_out (u_order client_user (rq_headers ?r)) ?r (w_mem client_world) (sk_out ?s) =
      Inr (one_mem packed_call, one_buf)"
    using Append_fresh [OF _ l] by (simp add: PackRequest_out_def client_world_def one_socket_at(2) packed_call_def)
  have s: "sock_at client_world (Some 0) = Inr ?s" by (simp add: client_world_def one_socket_def)
  have b: "valid_buffer (one_mem packed_call) one_buf" "length (blocks_of (one_mem packed_call) one_buf) = 1"
    "contents (one_mem packed_call) one_buf \<noteq> []"
    using one_valid [of packed_call] one_blocks [of packed_call] one_contents [of packed_call] l by (simp_all add: packed_call_def)
  have "if e_self_deleting slow_env 9
    then CallMethod slow_env client_user ''Echo'' (Controller_new\<lparr>ct_sock := Some 0\<rparr>) (Some 9) 0 client_world = Inl Dangling
    else \<exists>cntl' w'. CallMethod slow_env client_user ''Echo'' (Controller_new\<lparr>ct_sock := Some 0\<rparr>) (Some 9) 0 client_world =
        Inr (cntl', 0 + 1, w') \<and> w_closures w' = w_closures client_world - {9} \<and> ct_call_id cntl' = 0 + 1"
    by (rule CallMethod_deletes_closure [OF _ s _ _ refl _ b, where n = 2])
      (use p in \<open>simp_all add: slow_env_def sample_env_def client_world_def\<close>)
  then show ?thesis by (simp add: slow_env_def sample_env_def)
qed

end
