(* ===== verification/Bigint.thy ===== *)
theory Bigint
  imports Toy_Prelude
begin

unbundle bit_operations_syntax

text \<open>
  The multiple-precision integers of src/src/common/dtoa.cc, in the configuration the file selects
  (\<open>IEEE_8087\<close>, \<open>Pack_32\<close>, \<open>ULLong\<close>, \<open>Avoid_Underflow\<close>, private memory, one thread). A number is a
  little-endian array of 32-bit digits, of which \<open>wds\<close> are in use; inner loops are functions of
  lists of digits, with the carries and borrows of the code in 64-bit words. Storage is handed out
  by \<open>Balloc\<close> in sizes \<open>2 ^ k\<close>; writing more digits than that is a fault, and so is reading a
  digit that was never written. The arithmetic of \<open>double\<close> is not used here.
\<close>

section \<open>State\<close>

record bigint =
  bg_addr :: nat
  bg_k :: nat
  bg_sign :: int
  bg_wds :: nat
  bg_x :: "32 word list"

definition bg_maxwds :: "bigint \<Rightarrow> nat" where
  "bg_maxwds b = 2 ^ bg_k b"

definition Kmax :: nat where
  "Kmax = 7"

text \<open>
  The free lists, the next unused address, the part of the private pool in use (in doubles) and
  the chain of powers of five. \<open>PRIVATE_mem\<close> is the size of the pool.
\<close>

record alloc =
  al_free :: "nat \<Rightarrow> nat list"
  al_next :: nat
  al_pmem :: nat
  al_p5s :: "bigint list"

definition alloc_init :: alloc where
  "alloc_init = \<lparr>al_free = (\<lambda>_. []), al_next = 0, al_pmem = 0, al_p5s = []\<rparr>"

definition PRIVATE_mem :: nat where
  "PRIVATE_mem = (2304 + 8 - 1) div 8"

definition sizeof_Bigint :: nat where
  "sizeof_Bigint = 32"

definition Balloc :: "nat \<Rightarrow> alloc \<Rightarrow> bigint \<times> alloc" where
  "Balloc k al =
     (case (if k \<le> Kmax then al_free al k else []) of
        a # rest \<Rightarrow>
          (\<lparr>bg_addr = a, bg_k = k, bg_sign = 0, bg_wds = 0, bg_x = []\<rparr>, al\<lparr>al_free := (al_free al)(k := rest)\<rparr>)
      | [] \<Rightarrow>
          let x = 2 ^ k; len = (sizeof_Bigint + (x - 1) * 4 + 8 - 1) div 8 in
          (\<lparr>bg_addr = al_next al, bg_k = k, bg_sign = 0, bg_wds = 0, bg_x = []\<rparr>,
           if k \<le> Kmax \<and> al_pmem al + len \<le> PRIVATE_mem
           then al\<lparr>al_pmem := al_pmem al + len, al_next := al_next al + 1\<rparr>
           else al\<lparr>al_next := al_next al + 1\<rparr>))"

definition Bfree :: "bigint option \<Rightarrow> alloc \<Rightarrow> alloc" where
  "Bfree p al =
     (case p of None \<Rightarrow> al
      | Some v \<Rightarrow>
          if bg_k v > Kmax then al
          else al\<lparr>al_free := (al_free al)(bg_k v := bg_addr v # al_free al (bg_k v))\<rparr>)"

text \<open>
  The digits in use; \<open>bg_x\<close> lists the digits of the array that have been written. Storing digits
  at the front, storing one digit, and \<open>Bcopy\<close>.
\<close>

definition digits :: "bigint \<Rightarrow> 32 word list" where
  "digits b = take (bg_wds b) (bg_x b)"

definition put_digits :: "bigint \<Rightarrow> 32 word list \<Rightarrow> bigint res" where
  "put_digits b xs =
     (if length xs \<le> bg_maxwds b then Inr (b\<lparr>bg_x := xs @ drop (length xs) (bg_x b)\<rparr>) else Inl OutOfBounds)"

definition put_digit :: "bigint \<Rightarrow> nat \<Rightarrow> 32 word \<Rightarrow> bigint res" where
  "put_digit b i v =
     (if i < bg_maxwds b \<and> i \<le> length (bg_x b)
      then Inr (b\<lparr>bg_x := take i (bg_x b) @ v # drop (i + 1) (bg_x b)\<rparr>) else Inl OutOfBounds)"

definition Bcopy :: "bigint \<Rightarrow> bigint \<Rightarrow> bigint res" where
  "Bcopy x y = put_digits (x\<lparr>bg_sign := bg_sign y, bg_wds := bg_wds y\<rparr>) (digits y)"

text \<open>The digits a \<open>do\<close> loop over a number visits: at least one.\<close>

definition do_digits :: "bigint \<Rightarrow> 32 word list res" where
  "do_digits b = (if max 1 (bg_wds b) \<le> length (bg_x b) then Inr (take (max 1 (bg_wds b)) (bg_x b)) else Inl Uninit)"

section \<open>Multiplication by a small number\<close>

fun multadd_loop :: "64 word \<Rightarrow> 64 word \<Rightarrow> 32 word list \<Rightarrow> 32 word list \<times> 64 word" where
  "multadd_loop m carry [] = ([], carry)"
| "multadd_loop m carry (x # xs) =
     (let y = ucast x * m + carry; (ys, c) = multadd_loop m (drop_bit 32 y) xs in
      (ucast (y AND 0xffffffff) # ys, c))"

definition multadd :: "bigint \<Rightarrow> int \<Rightarrow> int \<Rightarrow> alloc \<Rightarrow> (bigint \<times> alloc) res" where
  "multadd b m a al =
     bindR (do_digits b) (\<lambda>xs.
       let (ys, carry) = multadd_loop (word_of_int m) (word_of_int a) xs; wds = bg_wds b in
       bindR (put_digits b ys) (\<lambda>b1.
         if carry \<noteq> 0 then
           bindR (if wds \<ge> bg_maxwds b then
                    let (b2, al2) = Balloc (bg_k b + 1) al in
                    bindR (Bcopy b2 b1) (\<lambda>b2'. Inr (b2', Bfree (Some b1) al2))
                  else Inr (b1, al)) (\<lambda>(b3, al3).
           bindR (put_digit b3 wds (ucast carry)) (\<lambda>b4. Inr (b4\<lparr>bg_wds := wds + 1\<rparr>, al3)))
         else Inr (b1, al)))"

text \<open>
  \<open>s2b\<close>: the first nine digits come as the number \<open>y9\<close>; \<open>dplen\<close> characters between the digits
  before and after the point are skipped.
\<close>

function s2b_size :: "int \<Rightarrow> int \<Rightarrow> nat \<Rightarrow> nat" where
  "s2b_size x y k = (if x > y \<and> y > 0 then s2b_size x (y * 2) (k + 1) else k)"
  by pat_completeness auto
termination by (relation "measure (\<lambda>(x, y, k). nat (x - y))") auto

definition digit_int :: "char \<Rightarrow> int" where
  "digit_int c = int (of_char c) - 48"

fun s2b_digits :: "char list \<Rightarrow> nat \<Rightarrow> nat \<Rightarrow> bigint \<Rightarrow> alloc \<Rightarrow> (bigint \<times> alloc) res" where
  "s2b_digits s i 0 b al = Inr (b, al)"
| "s2b_digits s i (Suc n) b al =
     (if i < length s then
        bindR (multadd b 10 (digit_int (s ! i)) al) (\<lambda>(b', al'). s2b_digits s (i + 1) n b' al')
      else Inl OutOfBounds)"

definition s2b :: "char list \<Rightarrow> nat \<Rightarrow> nat \<Rightarrow> 32 word \<Rightarrow> nat \<Rightarrow> alloc \<Rightarrow> (bigint \<times> alloc) res" where
  "s2b s nd0 nd y9 dplen al =
     (let x = (int nd + 8) div 9; k = s2b_size x 1 0; (b0, al0) = Balloc k al in
      bindR (put_digit b0 0 y9) (\<lambda>b1.
        let b = b1\<lparr>bg_wds := 1\<rparr> in
        if 9 < nd0 then
          bindR (s2b_digits s 9 (nd0 - 9) b al0) (\<lambda>(b2, al2).
          s2b_digits s (nd0 + dplen) (nd - nd0) b2 al2)
        else s2b_digits s (dplen + 9) (nd - 9) b al0))"

section \<open>Counting zero bits\<close>

definition hi0bits :: "32 word \<Rightarrow> nat" where
  "hi0bits x0 =
     (let (k, x) = (if x0 AND 0xffff0000 = 0 then (16, push_bit 16 x0) else (0, x0));
          (k, x) = (if x AND 0xff000000 = 0 then (k + 8, push_bit 8 x) else (k, x));
          (k, x) = (if x AND 0xf0000000 = 0 then (k + 4, push_bit 4 x) else (k, x));
          (k, x) = (if x AND 0xc0000000 = 0 then (k + 2, push_bit 2 x) else (k, x)) in
      if x AND 0x80000000 = 0 then (if x AND 0x40000000 = 0 then 32 else k + 1) else k)"

text \<open>The result of \<open>lo0bits\<close> and the new value of its argument.\<close>

definition lo0bits :: "32 word \<Rightarrow> nat \<times> 32 word" where
  "lo0bits y =
     (if y AND 7 \<noteq> 0 then
        if y AND 1 \<noteq> 0 then (0, y)
        else if y AND 2 \<noteq> 0 then (1, drop_bit 1 y)
        else (2, drop_bit 2 y)
      else
        let (k, x) = (if y AND 0xffff = 0 then (16, drop_bit 16 y) else (0, y));
            (k, x) = (if x AND 0xff = 0 then (k + 8, drop_bit 8 x) else (k, x));
            (k, x) = (if x AND 0xf = 0 then (k + 4, drop_bit 4 x) else (k, x));
            (k, x) = (if x AND 0x3 = 0 then (k + 2, drop_bit 2 x) else (k, x)) in
        if x AND 1 = 0 then
          let x' = drop_bit 1 x in if x' = 0 then (32, y) else (k + 1, x')
        else (k, x))"

definition i2b :: "int \<Rightarrow> alloc \<Rightarrow> (bigint \<times> alloc) res" where
  "i2b i al = (let (b, al') = Balloc 1 al in
      bindR (put_digit b 0 (word_of_int i)) (\<lambda>b'. Inr (b'\<lparr>bg_wds := 1\<rparr>, al')))"

section \<open>Multiplication\<close>

text \<open>One round of the outer loop: the digits of \<open>a\<close> times \<open>y\<close> are added to the result's digits.\<close>

fun mult_row :: "64 word \<Rightarrow> 64 word \<Rightarrow> 32 word list \<Rightarrow> 32 word list \<Rightarrow> 32 word list" where
  "mult_row y carry [] cs = (case cs of [] \<Rightarrow> [] | c # cs' \<Rightarrow> ucast carry # cs')"
| "mult_row y carry (x # xs) [] = []"
| "mult_row y carry (x # xs) (c # cs) =
     (let z = ucast x * y + ucast c + carry in
      ucast (z AND 0xffffffff) # mult_row y (drop_bit 32 z) xs cs)"

fun mult_loop :: "32 word list \<Rightarrow> 32 word list \<Rightarrow> 32 word list \<Rightarrow> 32 word list" where
  "mult_loop xa [] cs = cs"
| "mult_loop xa (y # ys) cs =
     (let cs' = (if y \<noteq> 0 then mult_row (ucast y) 0 xa cs else cs) in
      case cs' of [] \<Rightarrow> [] | c # cs'' \<Rightarrow> c # mult_loop xa ys cs'')"

definition strip_top :: "32 word list \<Rightarrow> 32 word list" where
  "strip_top xs = rev (dropWhile (\<lambda>x. x = 0) (rev xs))"

definition mult :: "bigint \<Rightarrow> bigint \<Rightarrow> alloc \<Rightarrow> (bigint \<times> alloc) res" where
  "mult a0 b0 al =
     (let (a, b) = (if bg_wds a0 < bg_wds b0 then (b0, a0) else (a0, b0));
          wc = bg_wds a + bg_wds b;
          k = (if wc > bg_maxwds a then bg_k a + 1 else bg_k a);
          (c, al') = Balloc k al in
      if bg_wds a = 0 \<and> bg_wds b \<noteq> 0 then Inl OutOfBounds
      else
        bindR (put_digits c (replicate wc 0)) (\<lambda>c0.
          let zs = mult_loop (digits a) (digits b) (replicate wc 0) in
          bindR (put_digits c0 zs) (\<lambda>c1. Inr (c1\<lparr>bg_wds := length (strip_top zs)\<rparr>, al'))))"

section \<open>Powers of five\<close>

text \<open>
  The chain \<open>p5s\<close> holds \<open>5 ^ 4\<close>, \<open>5 ^ 8\<close>, \<open>5 ^ 16\<close> and so on, as far as they were needed;
  \<open>i\<close> is the place of \<open>p5\<close> in it.
\<close>

definition p05 :: "nat \<Rightarrow> int" where
  "p05 i = (if i = 0 then 5 else if i = 1 then 25 else 125)"

function pow5_loop :: "nat \<Rightarrow> nat \<Rightarrow> bigint \<Rightarrow> alloc \<Rightarrow> (bigint \<times> alloc) res" where
  "pow5_loop k i b al =
     bindR (if k AND 1 \<noteq> 0 then
              bindR (mult b (al_p5s al ! i) al) (\<lambda>(b1, al1). Inr (b1, Bfree (Some b) al1))
            else Inr (b, al)) (\<lambda>(b', al').
       if k div 2 = 0 then Inr (b', al')
       else if i + 1 < length (al_p5s al') then pow5_loop (k div 2) (i + 1) b' al'
       else bindR (mult (al_p5s al' ! i) (al_p5s al' ! i) al') (\<lambda>(p51, al'').
            pow5_loop (k div 2) (i + 1) b' (al''\<lparr>al_p5s := al_p5s al'' @ [p51]\<rparr>)))"
  by pat_completeness auto
termination by (relation "measure (\<lambda>(k, i, b, al). k)") auto

definition pow5mult :: "bigint \<Rightarrow> nat \<Rightarrow> alloc \<Rightarrow> (bigint \<times> alloc) res" where
  "pow5mult b k al =
     bindR (if k AND 3 \<noteq> 0 then multadd b (p05 ((k AND 3) - 1)) 0 al else Inr (b, al)) (\<lambda>(b', al').
       if k div 4 = 0 then Inr (b', al')
       else
         bindR (if al_p5s al' = [] then
                  bindR (i2b 625 al') (\<lambda>(p5, al1). Inr (al1\<lparr>al_p5s := [p5]\<rparr>))
                else Inr al') (\<lambda>al''.
         pow5_loop (k div 4) 0 b' al''))"

section \<open>Shifting, comparing and subtracting\<close>

fun shl_row :: "nat \<Rightarrow> 32 word \<Rightarrow> 32 word list \<Rightarrow> 32 word list \<times> 32 word" where
  "shl_row k z [] = ([], z)"
| "shl_row k z (x # xs) =
     (let (ys, z') = shl_row k (drop_bit (32 - k) x) xs in ((push_bit k x OR z) # ys, z'))"

function lshift_size :: "nat \<Rightarrow> nat \<Rightarrow> nat \<Rightarrow> nat" where
  "lshift_size n1 i k1 = (if n1 > i \<and> i > 0 then lshift_size n1 (i * 2) (k1 + 1) else k1)"
  by pat_completeness auto
termination by (relation "measure (\<lambda>(n1, i, k1). n1 - i)") auto

definition lshift :: "bigint \<Rightarrow> nat \<Rightarrow> alloc \<Rightarrow> (bigint \<times> alloc) res" where
  "lshift b k al =
     bindR (do_digits b) (\<lambda>xs.
       let n = k div 32; k' = k mod 32; n1 = n + bg_wds b + 1;
           k1 = lshift_size n1 (bg_maxwds b) (bg_k b);
           (b1, al') = Balloc k1 al;
           (ys, n1') = (if k' \<noteq> 0
                        then let (ys, z) = shl_row k' 0 xs in (ys @ [z], if z \<noteq> 0 then n1 + 1 else n1)
                        else (xs, n1)) in
       bindR (put_digits b1 (replicate n 0 @ ys)) (\<lambda>b1'.
       Inr (b1'\<lparr>bg_wds := n1' - 1\<rparr>, Bfree (Some b) al')))"

fun cmp_top :: "32 word list \<Rightarrow> 32 word list \<Rightarrow> int" where
  "cmp_top (x # xs) (y # ys) = (if x \<noteq> y then (if x < y then - 1 else 1) else cmp_top xs ys)"
| "cmp_top _ _ = 0"

definition cmp :: "bigint \<Rightarrow> bigint \<Rightarrow> int res" where
  "cmp a b =
     (let i = int (bg_wds a) - int (bg_wds b) in
      if i \<noteq> 0 then Inr i
      else if bg_wds a = 0 then Inl OutOfBounds
      else Inr (cmp_top (rev (digits a)) (rev (digits b))))"

fun sub_loop :: "64 word \<Rightarrow> 32 word list \<Rightarrow> 32 word list \<Rightarrow> 32 word list" where
  "sub_loop borrow [] ys = []"
| "sub_loop borrow (x # xs) [] =
     (let y = ucast x - borrow in ucast (y AND 0xffffffff) # sub_loop (drop_bit 32 y AND 1) xs [])"
| "sub_loop borrow (x # xs) (x' # ys) =
     (let y = ucast x - ucast x' - borrow in
      ucast (y AND 0xffffffff) # sub_loop (drop_bit 32 y AND 1) xs ys)"

definition diff :: "bigint \<Rightarrow> bigint \<Rightarrow> alloc \<Rightarrow> (bigint \<times> alloc) res" where
  "diff a0 b0 al =
     bindR (cmp a0 b0) (\<lambda>i.
       if i = 0 then
         let (c, al') = Balloc 0 al in
         bindR (put_digit (c\<lparr>bg_wds := 1\<rparr>) 0 0) (\<lambda>c'. Inr (c', al'))
       else
         let (a, b, sgn) = (if i < 0 then (b0, a0, 1) else (a0, b0, 0)); (c, al') = Balloc (bg_k a) al in
         bindR (do_digits b) (\<lambda>bs.
           let zs = sub_loop 0 (digits a) bs in
           bindR (put_digits (c\<lparr>bg_sign := sgn\<rparr>) zs) (\<lambda>c'.
             if strip_top zs = [] then Inl OutOfBounds
             else Inr (c'\<lparr>bg_wds := length (strip_top zs)\<rparr>, al'))))"

section \<open>Quotient and remainder\<close>

text \<open>Both subtractions of \<open>quorem\<close>: \<open>q\<close> times the divisor, and the divisor itself.\<close>

fun submul_loop :: "64 word \<Rightarrow> 64 word \<Rightarrow> 64 word \<Rightarrow> 32 word list \<Rightarrow> 32 word list \<Rightarrow> 32 word list" where
  "submul_loop q carry borrow (s # ss) (b # bs) =
     (let ys = ucast s * q + carry; y = ucast b - (ys AND 0xffffffff) - borrow in
      ucast (y AND 0xffffffff) # submul_loop q (drop_bit 32 ys) (drop_bit 32 y AND 1) ss bs)"
| "submul_loop q carry borrow _ bs = bs"

fun sub_once_loop :: "64 word \<Rightarrow> 64 word \<Rightarrow> 32 word list \<Rightarrow> 32 word list \<Rightarrow> 32 word list" where
  "sub_once_loop carry borrow (s # ss) (b # bs) =
     (let ys = ucast s + carry; y = ucast b - (ys AND 0xffffffff) - borrow in
      ucast (y AND 0xffffffff) # sub_once_loop (drop_bit 32 ys) (drop_bit 32 y AND 1) ss bs)"
| "sub_once_loop carry borrow _ bs = bs"

text \<open>Zero digits below index \<open>n\<close> go, but the digit at index 0 stays.\<close>

fun trim_wds :: "32 word list \<Rightarrow> nat \<Rightarrow> nat" where
  "trim_wds xs 0 = 0"
| "trim_wds xs (Suc m) = (if m > 0 \<and> xs ! m = 0 then trim_wds xs m else Suc m)"

definition trim :: "bigint \<Rightarrow> 32 word list \<Rightarrow> nat \<Rightarrow> bigint \<times> nat" where
  "trim b xs n =
     (if xs ! n = 0 then (b\<lparr>bg_x := xs, bg_wds := trim_wds xs n\<rparr>, trim_wds xs n) else (b\<lparr>bg_x := xs\<rparr>, n))"

definition quorem :: "bigint \<Rightarrow> bigint \<Rightarrow> (32 word \<times> bigint) res" where
  "quorem b S =
     (if bg_wds b < bg_wds S then Inr (0, b)
      else if bg_wds S = 0 then Inl OutOfBounds
      else
        let n = bg_wds S - 1; sx = digits S in
        if sx ! n + 1 = 0 then Inl Throws
        else
          let q = (bg_x b ! n) div (sx ! n + 1);
              (b1, n1) = (if q \<noteq> 0 then trim b (submul_loop (ucast q) 0 0 sx (bg_x b)) n else (b, n)) in
          bindR (cmp b1 S) (\<lambda>c.
            if c \<ge> 0 then Inr (q + 1, fst (trim b1 (sub_once_loop 0 0 sx (bg_x b1)) n1))
            else Inr (q, b1)))"

definition dshift :: "bigint \<Rightarrow> int \<Rightarrow> int res" where
  "dshift b p2 =
     (if digits b = [] then Inl OutOfBounds
      else let rv = int (hi0bits (last (digits b))) - 4 in
           Inr ((if p2 > 0 then rv - p2 else rv) AND 31))"

end
