(* ===== verification/Dtoa.thy ===== *)
theory Dtoa
  imports Bigint String_Num
begin

text \<open>
  The parts of src/src/common/dtoa.cc that work on the words of a \<open>double\<close> or on characters: \<open>ulp\<close>,
  \<open>b2d\<close>, \<open>d2b\<close>, the scanning of \<open>strtod\<close> up to the point where it starts to compute, the
  recognition of names and hexadecimal NaNs, and the allocation of result strings. What
  \<open>strtod\<close> computes with doubles is in \<open>Strtod\<close>.
\<close>

section \<open>Words of a double\<close>

record dbl =
  word0 :: "32 word"
  word1 :: "32 word"

definition Exp_mask :: "32 word" where "Exp_mask = 0x7ff00000"
definition Exp_msk1 :: "32 word" where "Exp_msk1 = 0x100000"
definition Exp_1 :: "32 word" where "Exp_1 = 0x3ff00000"
definition Frac_mask :: "32 word" where "Frac_mask = 0xfffff"
definition Exp_shift :: nat where "Exp_shift = 20"
definition Ebits :: nat where "Ebits = 11"
definition P_bits :: int where "P_bits = 53"
definition Bias :: int where "Bias = 1023"

definition ulp :: "dbl \<Rightarrow> dbl" where
  "ulp x = \<lparr>word0 = (word0 x AND Exp_mask) - 52 * Exp_msk1, word1 = 0\<rparr>"

text \<open>The digits of a number from the top, zeros after the last one.\<close>

definition top_digit :: "bigint \<Rightarrow> nat \<Rightarrow> 32 word" where
  "top_digit a i = (if i < bg_wds a then digits a ! (bg_wds a - 1 - i) else 0)"

definition b2d :: "bigint \<Rightarrow> (dbl \<times> int) res" where
  "b2d a =
     (if digits a = [] then Inl OutOfBounds
      else
        let y = top_digit a 0; k = hi0bits y; e = 32 - int k in
        if k < Ebits then
          let w = top_digit a 1 in
          Inr (\<lparr>word0 = Exp_1 OR drop_bit (Ebits - k) y,
                word1 = push_bit (32 - Ebits + k) y OR drop_bit (Ebits - k) w\<rparr>, e)
        else
          let z = top_digit a 1; k' = k - Ebits in
          if k' \<noteq> 0 then
            let y' = top_digit a 2 in
            Inr (\<lparr>word0 = Exp_1 OR push_bit k' y OR drop_bit (32 - k') z,
                  word1 = push_bit k' z OR drop_bit (32 - k') y'\<rparr>, e)
          else Inr (\<lparr>word0 = Exp_1 OR y, word1 = z\<rparr>, e))"

text \<open>The result is the number, the exponent, the number of bits and the argument without its sign.\<close>

definition d2b :: "dbl \<Rightarrow> alloc \<Rightarrow> (bigint \<times> int \<times> int \<times> dbl \<times> alloc) res" where
  "d2b d al =
     (let (b, al') = Balloc 1 al;
          z0 = word0 d AND Frac_mask;
          d0 = word0 d AND 0x7fffffff;
          de = drop_bit Exp_shift d0;
          z = (if de \<noteq> 0 then z0 OR Exp_msk1 else z0);
          (xs, wds, k) =
            (if word1 d \<noteq> 0 then
               let (k, y) = lo0bits (word1 d);
                   (x0, z') = (if k \<noteq> 0 then (y OR push_bit (32 - k) z, drop_bit k z) else (y, z)) in
               ([x0, z'], if z' \<noteq> 0 then 2 else 1, k)
             else let (k, z') = lo0bits z in ([z'], 1, k + 32));
          e = (if de \<noteq> 0 then uint de - Bias - (P_bits - 1) + int k else uint de - Bias - (P_bits - 1) + 1 + int k);
          bits = (if de \<noteq> 0 then P_bits - int k else 32 * int wds - int (hi0bits (xs ! (wds - 1)))) in
      bindR (put_digits b xs) (\<lambda>b'.
      Inr (b'\<lparr>bg_wds := wds\<rparr>, e, bits, d\<lparr>word0 := d0\<rparr>, al')))"

section \<open>Characters\<close>

text \<open>The character at an index of a C string; the terminating zero byte is beyond the list.\<close>

definition char_at :: "char list \<Rightarrow> nat \<Rightarrow> char" where
  "char_at s i = (if i < length s then s ! i else CHR 0x00)"

definition code :: "char \<Rightarrow> nat" where
  "code c = of_char c"

definition is_dec :: "char \<Rightarrow> bool" where
  "is_dec c \<longleftrightarrow> 48 \<le> code c \<and> code c \<le> 57"

text \<open>\<open>match\<close>: the new value of \<open>*sp\<close> when the name matches.\<close>

fun match_loop :: "char list \<Rightarrow> nat \<Rightarrow> char list \<Rightarrow> nat option" where
  "match_loop s i [] = Some (i + 1)"
| "match_loop s i (d # t) =
     (let c = code (char_at s (i + 1)); c' = (if 65 \<le> c \<and> c \<le> 90 then c + 32 else c) in
      if c' \<noteq> code d then None else match_loop s (i + 1) t)"

definition match :: "char list \<Rightarrow> nat \<Rightarrow> char list \<Rightarrow> nat option" where
  "match s i t = match_loop s i t"

fun htinit :: "(nat \<Rightarrow> 32 word) \<Rightarrow> char list \<Rightarrow> nat \<Rightarrow> 32 word \<Rightarrow> (nat \<Rightarrow> 32 word)" where
  "htinit h [] i inc = h"
| "htinit h (c # s) i inc = htinit (h(code c := ucast (ucast (of_nat i + inc :: 32 word) :: 8 word))) s (i + 1) inc"

definition hexdig_init :: "nat \<Rightarrow> 32 word" where
  "hexdig_init =
     htinit (htinit (htinit (\<lambda>_. 0) ''0123456789'' 0 0x10) ''abcdef'' 0 (0x10 + 10)) ''ABCDEF'' 0 (0x10 + 10)"

text \<open>
  The loop of \<open>hexnan\<close> over the characters from index \<open>i + 1\<close> on; the state is \<open>x[0]\<close>, \<open>x[1]\<close>, \<open>havedig\<close>,
  \<open>udx0\<close> and \<open>xshift\<close>. \<open>skip_paren\<close> is the inner loop at a character that is no digit.
\<close>

fun skip_paren :: "char list \<Rightarrow> nat \<Rightarrow> nat option" where
  "skip_paren [] i = None"
| "skip_paren (c # cs) i = (if c = CHR '')'' then Some (i + 1) else skip_paren cs (i + 1))"

fun hexnan_loop ::
  "char list \<Rightarrow> nat \<Rightarrow> 32 word \<Rightarrow> 32 word \<Rightarrow> bool \<Rightarrow> bool \<Rightarrow> bool \<Rightarrow> (32 word \<times> 32 word) \<times> nat option" where
  "hexnan_loop [] i x0 x1 havedig udx0 xshift = ((x0, x1), None)"
| "hexnan_loop (ch # cs) i x0 x1 havedig udx0 xshift =
     (let c1 = hexdig_init (code ch) in
      if c1 \<noteq> 0 then
        let c = c1 AND 0xf;
            (y0, y1) = (if xshift then (x1, 0) else (x0, x1));
            z0 = (if udx0 then push_bit 4 y0 OR drop_bit 28 y1 else y0) in
        hexnan_loop cs (i + 1) z0 (push_bit 4 y1 OR c) True udx0 False
      else if code ch \<le> 32 then
        if udx0 \<and> havedig then hexnan_loop cs (i + 1) x0 x1 havedig False True
        else hexnan_loop cs (i + 1) x0 x1 havedig udx0 xshift
      else ((x0, x1), skip_paren (ch # cs) i))"

definition hexnan :: "dbl \<Rightarrow> char list \<Rightarrow> nat \<Rightarrow> dbl \<times> nat" where
  "hexnan rv s sp =
     (let i0 = sp + length (takeWhile (\<lambda>c. code c \<noteq> 0 \<and> code c \<le> 32) (drop (sp + 1) s));
          i1 = (if char_at s (i0 + 1) = CHR ''0'' \<and> (char_at s (i0 + 2) = CHR ''x'' \<or> char_at s (i0 + 2) = CHR ''X'')
                then i0 + 2 else i0);
          ((x0, x1), q) = hexnan_loop (drop (i1 + 1) s) (i1 + 1) 0 0 False True False;
          y0 = x0 AND 0xfffff in
      (if y0 \<noteq> 0 \<or> x1 \<noteq> 0 then rv\<lparr>word0 := Exp_mask OR y0, word1 := x1\<rparr> else rv,
       case q of None \<Rightarrow> sp | Some j \<Rightarrow> j))"

section \<open>Scanning a number\<close>

text \<open>
  What \<open>strtod\<close> knows when it has read the characters: no number, zero, a special value, or digits
  with the accumulated words \<open>y\<close> and \<open>z\<close>. \<open>DBL_DIG\<close> is 15.
\<close>

record scan =
  sc_y :: "32 word"
  sc_z :: "32 word"
  sc_nd :: int
  sc_nd0 :: int
  sc_nf :: int
  sc_nz :: int
  sc_s0 :: nat
  sc_dp1 :: nat
  sc_dplen :: nat
  sc_pos :: nat

datatype scan_result =
    NoNumber
  | Zero bool nat
  | Special bool dbl nat
  | Digits bool scan int

fun skip_sign :: "char list \<Rightarrow> nat \<Rightarrow> (bool \<times> nat) option" where
  "skip_sign [] i = None"
| "skip_sign (c # cs) i =
     (if c = CHR ''-'' \<or> c = CHR ''+'' then (if cs \<noteq> [] then Some (c = CHR ''-'', i + 1) else None)
      else if c \<in> {CHR 0x09, CHR 0x0A, CHR 0x0B, CHR 0x0C, CHR 0x0D, CHR '' ''} then skip_sign cs (i + 1)
      else Some (False, i))"

definition dval :: "char \<Rightarrow> 32 word" where
  "dval c = of_nat (code c) - 48"

fun scan_int :: "char list \<Rightarrow> 32 word \<Rightarrow> 32 word \<Rightarrow> int \<Rightarrow> 32 word \<times> 32 word \<times> int" where
  "scan_int [] y z nd = (y, z, nd)"
| "scan_int (c # cs) y z nd =
     (if nd < 9 then scan_int cs (10 * y + dval c) z (nd + 1)
      else if nd < 16 then scan_int cs y (10 * z + dval c) (nd + 1)
      else scan_int cs y z (nd + 1))"

text \<open>The inner loop that accounts for \<open>n\<close> zeros between nonzero digits of the fraction.\<close>

fun scan_zeros :: "nat \<Rightarrow> 32 word \<Rightarrow> 32 word \<Rightarrow> int \<Rightarrow> 32 word \<times> 32 word \<times> int" where
  "scan_zeros 0 y z nd = (y, z, nd)"
| "scan_zeros (Suc n) y z nd =
     (if nd < 9 then scan_zeros n (y * 10) z (nd + 1)
      else if nd + 1 \<le> 16 then scan_zeros n y (z * 10) (nd + 1)
      else scan_zeros n y z (nd + 1))"

fun scan_frac :: "char list \<Rightarrow> 32 word \<Rightarrow> 32 word \<Rightarrow> int \<Rightarrow> int \<Rightarrow> int \<Rightarrow> 32 word \<times> 32 word \<times> int \<times> int \<times> int" where
  "scan_frac [] y z nd nf nz = (y, z, nd, nf, nz)"
| "scan_frac (c # cs) y z nd nf nz =
     (if dval c \<noteq> 0 then
        let (y1, z1, nd1) = scan_zeros (nat nz) y z nd;
            (y2, z2) = (if nd1 < 9 then (10 * y1 + dval c, z1)
                        else if nd1 + 1 \<le> 16 then (y1, 10 * z1 + dval c) else (y1, z1)) in
        scan_frac cs y2 z2 (nd1 + 1) (nf + (nz + 1)) 0
      else scan_frac cs y z nd nf (nz + 1))"

definition decs :: "char list \<Rightarrow> nat \<Rightarrow> char list" where
  "decs s i = takeWhile is_dec (drop i s)"

text \<open>The digits before and after the point, from index \<open>i\<close> on.\<close>

definition scan_digits :: "char list \<Rightarrow> nat \<Rightarrow> scan" where
  "scan_digits s i =
     (let ds = decs s i; (y, z, nd) = scan_int ds 0 0 0; j = i + length ds;
          sc = \<lparr>sc_y = y, sc_z = z, sc_nd = nd, sc_nd0 = nd, sc_nf = 0, sc_nz = 0, sc_s0 = i,
                sc_dp1 = length ds, sc_dplen = 0, sc_pos = j\<rparr> in
      if char_at s j \<noteq> CHR ''.'' then sc
      else
        let sc1 = sc\<lparr>sc_dp1 := length ds + 1, sc_dplen := 1, sc_pos := j + 1\<rparr> in
        if nd = 0 then
          let zs = takeWhile (\<lambda>c. c = CHR ''0'') (drop (j + 1) s); l = j + 1 + length zs in
          if is_dec (char_at s l) then
            let (y', z', nd', nf', nz') = scan_frac (decs s l) y z nd (int (length zs)) 0 in
            sc1\<lparr>sc_y := y', sc_z := z', sc_nd := nd', sc_nf := nf', sc_nz := nz', sc_s0 := l,
                sc_pos := l + length (decs s l)\<rparr>
          else sc1\<lparr>sc_nz := int (length zs), sc_pos := l\<rparr>
        else
          let (y', z', nd', nf', nz') = scan_frac (decs s (j + 1)) y z nd 0 0 in
          sc1\<lparr>sc_y := y', sc_z := z', sc_nd := nd', sc_nf := nf', sc_nz := nz',
              sc_pos := j + 1 + length (decs s (j + 1))\<rparr>)"

text \<open>
  The exponent part: its value and the position behind it. A value of more than eight digits is not
  used, so the wrap-around of \<open>int32\<close>, where C++ leaves the overflow undefined, does not matter.
\<close>

definition scan_exp :: "char list \<Rightarrow> nat \<Rightarrow> int \<times> nat" where
  "scan_exp s i =
     (let c1 = char_at s (i + 1); esign = (c1 = CHR ''-'');
          j = (if c1 = CHR ''-'' \<or> c1 = CHR ''+'' then i + 2 else i + 1) in
      if is_dec (char_at s j) then
        let j0 = j + length (takeWhile (\<lambda>c. c = CHR ''0'') (drop j s)); ds = decs s j0 in
        if ds \<noteq> [] then
          let L = foldl (\<lambda>l c. int32 (10 * l + int (code c) - 48)) 0 ds;
              e = (if length ds > 8 \<or> L > 19999 then 19999 else L) in
          (if esign then - e else e, j0 + length ds)
        else (0, j0)
      else (0, i))"

definition strtod_scan :: "char list \<Rightarrow> scan_result" where
  "strtod_scan s =
     (case skip_sign s 0 of
        None \<Rightarrow> NoNumber
      | Some (sign, i0) \<Rightarrow>
          let nz0 = (char_at s i0 = CHR ''0'');
              i = i0 + length (takeWhile (\<lambda>c. c = CHR ''0'') (drop i0 s)) in
          if nz0 \<and> i \<ge> length s then Zero sign i
          else
            let sc = scan_digits s i; c = char_at s (sc_pos sc); nothing = (sc_nd sc = 0 \<and> sc_nz sc = 0 \<and> \<not> nz0) in
            if (c = CHR ''e'' \<or> c = CHR ''E'') \<and> nothing then NoNumber
            else
              let (e, pos) = (if c = CHR ''e'' \<or> c = CHR ''E'' then scan_exp s (sc_pos sc) else (0, sc_pos sc)) in
              if sc_nd sc \<noteq> 0 then Digits sign (sc\<lparr>sc_pos := pos\<rparr>) (e - sc_nf sc)
              else if \<not> nothing then Zero sign pos
              else if sc_dplen sc \<noteq> 0 then NoNumber
              else if c = CHR ''i'' \<or> c = CHR ''I'' then
                (case match s pos ''nf'' of
                   None \<Rightarrow> NoNumber
                 | Some j \<Rightarrow>
                     Special sign \<lparr>word0 = 0x7ff00000, word1 = 0\<rparr>
                       (case match s (j - 1) ''inity'' of None \<Rightarrow> j | Some j' \<Rightarrow> j'))
              else if c = CHR ''n'' \<or> c = CHR ''N'' then
                (case match s pos ''an'' of
                   None \<Rightarrow> NoNumber
                 | Some j \<Rightarrow>
                     let rv = \<lparr>word0 = 0x7ff80000, word1 = 0\<rparr> in
                     if char_at s j = CHR ''('' then let (rv', j') = hexnan rv s j in Special sign rv' j'
                     else Special sign rv j)
              else NoNumber)"

section \<open>Result strings\<close>

text \<open>
  The size class of a string of \<open>i\<close> characters. The block's first word keeps the class; \<open>dtoa_result\<close>
  is the last string handed out.
\<close>

function rv_class :: "nat \<Rightarrow> nat \<Rightarrow> nat \<Rightarrow> nat" where
  "rv_class i j k = (if sizeof_Bigint - 4 - 4 + j \<le> i \<and> j > 0 then rv_class i (j * 2) (k + 1) else k)"
  by pat_completeness auto
termination by (relation "measure (\<lambda>(i, j, k). i + 1 - j)") (auto simp: sizeof_Bigint_def)

record rstring =
  rv_addr :: nat
  rv_k :: nat
  rv_chars :: "char list"

definition rv_alloc :: "nat \<Rightarrow> alloc \<Rightarrow> rstring \<times> nat option \<times> alloc" where
  "rv_alloc i al =
     (let k = rv_class i 4 0; (b, al') = Balloc k al in
      (\<lparr>rv_addr = bg_addr b, rv_k = k, rv_chars = []\<rparr>, Some (bg_addr b), al'))"

text \<open>The bytes of a block behind the word that keeps its class.\<close>

definition rv_room :: "nat \<Rightarrow> nat" where
  "rv_room k = sizeof_Bigint + (2 ^ k - 1) * 4 - 4"

definition nrv_alloc :: "char list \<Rightarrow> nat \<Rightarrow> alloc \<Rightarrow> (rstring \<times> nat \<times> nat option \<times> alloc) res" where
  "nrv_alloc s n al =
     (let (rv, res, al') = rv_alloc n al in
      if length s + 1 \<le> rv_room (rv_k rv) then Inr (rv\<lparr>rv_chars := s\<rparr>, length s, res, al') else Inl OutOfBounds)"

definition freedtoa :: "rstring \<Rightarrow> nat option \<Rightarrow> alloc \<Rightarrow> nat option \<times> alloc" where
  "freedtoa s res al =
     (if res = Some (rv_addr s) then None else res,
      Bfree (Some \<lparr>bg_addr = rv_addr s, bg_k = rv_k s, bg_sign = 0, bg_wds = 0, bg_x = []\<rparr>) al)"

end
