(* ===== verification/Doubles.thy ===== *)
theory Doubles
  imports Dtoa
begin

text \<open>
  The arithmetic of the C++ type \<open>double\<close> that src/src/common/dtoa.cc computes with: IEEE binary64,
  rounding to nearest with halves to even (the file selects \<open>IEEE_8087\<close> and relies on
  \<open>Flt_Rounds == 1\<close>), every operation rounded once to a double. A double is the pair of words of the
  union \<open>U\<close> of the file; the operations compute with natural numbers, so they can be evaluated.
  What sign and payload an invalid operation gives its NaN is not fixed by C++; the model takes the
  quiet NaN, and \<open>strtod\<close> and \<open>dtoa\<close> never look at one.
\<close>

section \<open>The parts of a double\<close>

text \<open>
  The biased exponent and the mantissa with its hidden bit; the absolute value of the double is the
  mantissa times two to the power of \<open>max 1 (dbl_exp d) - 1075\<close>.
\<close>

definition dbl_exp :: "dbl \<Rightarrow> nat" where
  "dbl_exp d = unat (drop_bit Exp_shift (word0 d AND 0x7fffffff))"

definition dbl_high :: "dbl \<Rightarrow> nat" where
  "dbl_high d = unat (word0 d AND Frac_mask) + (if dbl_exp d = 0 then 0 else 2 ^ 20)"

definition mantissa :: "dbl \<Rightarrow> nat" where
  "mantissa d = unat (word1 d) + 2 ^ 32 * dbl_high d"

definition dbl_scale :: "dbl \<Rightarrow> int" where
  "dbl_scale d = int (max 1 (dbl_exp d)) - 1075"

definition dbl_neg :: "dbl \<Rightarrow> bool" where
  "dbl_neg d \<longleftrightarrow> bit (word0 d) 31"

text \<open>The 63 bits behind the sign as a number, and the double with a sign and such a number.\<close>

definition dbl_bits :: "dbl \<Rightarrow> nat" where
  "dbl_bits d = unat (word1 d) + 2 ^ 32 * unat (word0 d AND 0x7fffffff)"

definition mk_dbl :: "bool \<Rightarrow> nat \<Rightarrow> dbl" where
  "mk_dbl neg n =
     \<lparr>word0 = (if neg then 0x80000000 else 0) OR (of_nat (n div 2 ^ 32) AND 0x7fffffff), word1 = of_nat n\<rparr>"

definition inf_bits :: nat where
  "inf_bits = 2047 * 2 ^ 52"

definition is_nan :: "dbl \<Rightarrow> bool" where
  "is_nan d \<longleftrightarrow> inf_bits < dbl_bits d"

definition is_inf :: "dbl \<Rightarrow> bool" where
  "is_inf d \<longleftrightarrow> dbl_bits d = inf_bits"

definition finite_dbl :: "dbl \<Rightarrow> bool" where
  "finite_dbl d \<longleftrightarrow> dbl_bits d < inf_bits"

definition quiet_nan :: dbl where
  "quiet_nan = mk_dbl False (inf_bits + 2 ^ 51)"

section \<open>Rounding\<close>

definition round_half_even :: "nat \<Rightarrow> nat \<Rightarrow> nat" where
  "round_half_even a d =
     (if 2 * (a mod d) > d \<or> (2 * (a mod d) = d \<and> odd (a div d)) then a div d + 1 else a div d)"

fun bit_length :: "nat \<Rightarrow> nat" where
  "bit_length n = (if n = 0 then 0 else Suc (bit_length (n div 2)))"

declare bit_length.simps [simp del]

text \<open>
  \<open>lead a d\<close> is the exponent \<open>t\<close> with \<open>2 ^ 52 * 2 ^ t \<le> a / d < 2 ^ 53 * 2 ^ t\<close>. \<open>round_bits a d e\<close> is
  the double nearest to \<open>a / d * 2 ^ e\<close>, as the bits behind the sign: the mantissa counts units of the
  exponent chosen, which is at least that of the denormal numbers; a mantissa that rounds up to the
  next power of two carries into the exponent, and what is too large is infinite.
\<close>

definition lead :: "nat \<Rightarrow> nat \<Rightarrow> int" where
  "lead a d =
     (let t = int (bit_length a) - int (bit_length d) - 53 in
      if a * 2 ^ nat (- t) < d * 2 ^ nat t * 2 ^ 53 then t else t + 1)"

definition round_bits :: "nat \<Rightarrow> nat \<Rightarrow> int \<Rightarrow> nat" where
  "round_bits a d e =
     (if a = 0 then 0
      else
        let t = max (lead a d) (- 1074 - e) in
        min inf_bits (nat (t + e + 1074) * 2 ^ 52 + round_half_even (a * 2 ^ nat (- t)) (d * 2 ^ nat t)))"

section \<open>Operations\<close>

definition dbl_of_nat :: "nat \<Rightarrow> dbl" where
  "dbl_of_nat n = mk_dbl False (round_bits n 1 0)"

text \<open>A literal \<open>a / d\<close> of the source, as the compiler rounds it.\<close>

definition dbl_lit :: "nat \<Rightarrow> nat \<Rightarrow> dbl" where
  "dbl_lit a d = mk_dbl False (round_bits a d 0)"

definition dneg :: "dbl \<Rightarrow> dbl" where
  "dneg x = x\<lparr>word0 := word0 x XOR 0x80000000\<rparr>"

definition dmul :: "dbl \<Rightarrow> dbl \<Rightarrow> dbl" where
  "dmul x y =
     (let neg = (dbl_neg x \<noteq> dbl_neg y) in
      if is_nan x \<or> is_nan y then quiet_nan
      else if is_inf x \<or> is_inf y then
        (if mantissa x = 0 \<or> mantissa y = 0 then quiet_nan else mk_dbl neg inf_bits)
      else mk_dbl neg (round_bits (mantissa x * mantissa y) 1 (dbl_scale x + dbl_scale y)))"

definition ddiv :: "dbl \<Rightarrow> dbl \<Rightarrow> dbl" where
  "ddiv x y =
     (let neg = (dbl_neg x \<noteq> dbl_neg y) in
      if is_nan x \<or> is_nan y \<or> (is_inf x \<and> is_inf y) then quiet_nan
      else if is_inf x then mk_dbl neg inf_bits
      else if is_inf y then mk_dbl neg 0
      else if mantissa y = 0 then (if mantissa x = 0 then quiet_nan else mk_dbl neg inf_bits)
      else mk_dbl neg (round_bits (mantissa x) (mantissa y) (dbl_scale x - dbl_scale y)))"

definition signed_mantissa :: "dbl \<Rightarrow> int" where
  "signed_mantissa x = (if dbl_neg x then - int (mantissa x) else int (mantissa x))"

text \<open>An exact sum that is zero is negative only when both numbers are.\<close>

definition dadd :: "dbl \<Rightarrow> dbl \<Rightarrow> dbl" where
  "dadd x y =
     (if is_nan x \<or> is_nan y then quiet_nan
      else if is_inf x then (if is_inf y \<and> dbl_neg x \<noteq> dbl_neg y then quiet_nan else x)
      else if is_inf y then y
      else
        let e = min (dbl_scale x) (dbl_scale y);
            v = signed_mantissa x * 2 ^ nat (dbl_scale x - e) + signed_mantissa y * 2 ^ nat (dbl_scale y - e) in
        if v = 0 then mk_dbl (dbl_neg x \<and> dbl_neg y) 0
        else mk_dbl (v < 0) (round_bits (nat \<bar>v\<bar>) 1 e))"

definition dsub :: "dbl \<Rightarrow> dbl \<Rightarrow> dbl" where
  "dsub x y = dadd x (dneg y)"

definition dkey :: "dbl \<Rightarrow> int" where
  "dkey x = (if dbl_neg x then - int (dbl_bits x) else int (dbl_bits x))"

definition dless :: "dbl \<Rightarrow> dbl \<Rightarrow> bool" where
  "dless x y \<longleftrightarrow> \<not> is_nan x \<and> \<not> is_nan y \<and> dkey x < dkey y"

definition dle :: "dbl \<Rightarrow> dbl \<Rightarrow> bool" where
  "dle x y \<longleftrightarrow> \<not> is_nan x \<and> \<not> is_nan y \<and> dkey x \<le> dkey y"

definition deq :: "dbl \<Rightarrow> dbl \<Rightarrow> bool" where
  "deq x y \<longleftrightarrow> \<not> is_nan x \<and> \<not> is_nan y \<and> dkey x = dkey y"

definition dzero :: dbl where
  "dzero = \<lparr>word0 = 0, word1 = 0\<rparr>"

text \<open>
  The conversion to an integer type: towards zero; without a result when the type (here the interval
  from \<open>lo\<close> to \<open>hi\<close>) cannot hold it.
\<close>

definition dtrunc :: "dbl \<Rightarrow> int" where
  "dtrunc x =
     (let m = int (mantissa x) * 2 ^ nat (dbl_scale x) div 2 ^ nat (- dbl_scale x) in
      if dbl_neg x then - m else m)"

definition dbl_to_int :: "int \<Rightarrow> int \<Rightarrow> dbl \<Rightarrow> int res" where
  "dbl_to_int lo hi x =
     (if finite_dbl x \<and> lo \<le> dtrunc x \<and> dtrunc x \<le> hi then Inr (dtrunc x) else Inl Overflow)"

definition dbl_of_int :: "int \<Rightarrow> dbl" where
  "dbl_of_int i = (if i < 0 then dneg (dbl_of_nat (nat (- i))) else dbl_of_nat (nat i))"

end
