(* ===== verification/Dtoa_Print.thy ===== *)
theory Dtoa_Print
  imports Dtoa
begin

text \<open>
  The part of \<open>dtoa\<close> (src/src/common/dtoa.cc) that prints with multiple-precision integers: the
  special values, the choice of the number of digits, the scaling of the number and its divisor, the
  loops that generate digits, and rounding. The estimate \<open>k\<close> of the decimal exponent and
  \<open>k_check\<close> are arguments here; \<open>Dtoa_Quick\<close> computes them, and has the two short cuts before this part.
\<close>

section \<open>Special values\<close>

definition Sign_bit :: "32 word" where "Sign_bit = 0x80000000"
definition Bndry_mask :: "32 word" where "Bndry_mask = 0xfffff"
definition Log2P :: nat where "Log2P = 1"

text \<open>The sign, the argument without it, and the text and exponent of an infinity, NaN or zero.\<close>

definition dtoa_special :: "dbl \<Rightarrow> bool \<times> dbl \<times> (char list \<times> nat \<times> int) option" where
  "dtoa_special dd =
     (let sign = (word0 dd AND Sign_bit \<noteq> 0);
          u = (if sign then dd\<lparr>word0 := word0 dd AND NOT Sign_bit\<rparr> else dd) in
      (sign, u,
       if word0 u AND Exp_mask = Exp_mask then
         (if word1 u = 0 \<and> word0 u AND 0xfffff = 0 then Some (''Infinity'', 8, 9999) else Some (''NaN'', 3, 9999))
       else if word0 u AND NOT Sign_bit = 0 \<and> word1 u = 0 then Some (''0'', 1, 1)
       else None))"

section \<open>Modes\<close>

record dtoa_mode =
  dm_mode :: int
  dm_try_quick :: bool
  dm_leftright :: bool
  dm_ndigits :: int
  dm_ilim :: int
  dm_ilim1 :: int
  dm_i :: int

text \<open>
  Where the sum overflows an \<open>int\<close>, which C++ leaves undefined, \<open>int32\<close> wraps around.
\<close>

definition choose_mode :: "int \<Rightarrow> int \<Rightarrow> int \<Rightarrow> dtoa_mode" where
  "choose_mode mode0 ndigits k =
     (let mode1 = (if mode0 < 0 \<or> mode0 > 9 then 0 else mode0);
          (mode, tq) = (if mode1 > 5 then (mode1 - 4, False) else (mode1, True)) in
      if mode = 0 \<or> mode = 1 then
        \<lparr>dm_mode = mode, dm_try_quick = tq, dm_leftright = True, dm_ndigits = 0, dm_ilim = - 1, dm_ilim1 = - 1, dm_i = 18\<rparr>
      else if mode = 2 \<or> mode = 4 then
        let nd = (if ndigits \<le> 0 then 1 else ndigits) in
        \<lparr>dm_mode = mode, dm_try_quick = tq, dm_leftright = (mode = 4), dm_ndigits = nd, dm_ilim = nd, dm_ilim1 = nd, dm_i = nd\<rparr>
      else
        let i = int32 (ndigits + k + 1) in
        \<lparr>dm_mode = mode, dm_try_quick = tq, dm_leftright = (mode = 5), dm_ndigits = ndigits, dm_ilim = i,
         dm_ilim1 = int32 (i - 1), dm_i = (if i \<le> 0 then 1 else i)\<rparr>)"

text \<open>
  The powers of two and five: the number is \<open>b * 2 ^ b2 * 5 ^ b5\<close> over \<open>2 ^ s2 * 5 ^ s5\<close>. The
  exponent \<open>i\<close> of the source is a binary one.
\<close>

definition start_exponents :: "int \<Rightarrow> int \<Rightarrow> int \<Rightarrow> int \<times> int \<times> int \<times> int" where
  "start_exponents bbits i k =
     (let j = bbits - i - 1; (b2, s2) = (if j \<ge> 0 then (0, j) else (- j, 0)) in
      if k \<ge> 0 then (b2, 0, s2 + k, k) else (b2 - k, - k, s2, 0))"

section \<open>Scaling\<close>

text \<open>
  The state when digits are generated; \<open>ds_mlo\<close> is None while \<open>mlo\<close> and \<open>mhi\<close> are one number, and
  \<open>ds_mhi\<close> is None when the source has no such number.
\<close>

record scaled =
  ds_b :: bigint
  ds_S :: bigint
  ds_mhi :: "bigint option"
  ds_m2 :: int
  ds_spec :: bool

definition pow5_if :: "bool \<Rightarrow> bigint \<Rightarrow> int \<Rightarrow> alloc \<Rightarrow> (bigint \<times> alloc) res" where
  "pow5_if c b k al = (if c then pow5mult b (nat k) al else Inr (b, al))"

definition lshift_if :: "bool \<Rightarrow> bigint \<Rightarrow> int \<Rightarrow> alloc \<Rightarrow> (bigint \<times> alloc) res" where
  "lshift_if c b k al = (if c then lshift b (nat k) al else Inr (b, al))"

definition scale_five :: "bool \<Rightarrow> int \<Rightarrow> bigint \<Rightarrow> bigint option \<Rightarrow> alloc \<Rightarrow> (bigint \<times> bigint option \<times> alloc) res" where
  "scale_five leftright b5 b mhi al =
     (if b5 > 0 then
        (case mhi of
           Some mh \<Rightarrow>
             bindR (pow5mult mh (nat b5) al) (\<lambda>(mh', al1).
             bindR (mult mh' b al1) (\<lambda>(b1, al2). Inr (b1, Some mh', Bfree (Some b) al2)))
         | None \<Rightarrow> bindR (pow5mult b (nat b5) al) (\<lambda>(b', al1). Inr (b', None, al1)))
      else Inr (b, mhi, al))"

definition scale ::
  "bool \<Rightarrow> int \<Rightarrow> bool \<Rightarrow> int \<Rightarrow> int \<Rightarrow> dbl \<Rightarrow> bigint \<Rightarrow> int \<times> int \<times> int \<times> int \<Rightarrow> alloc \<Rightarrow> (scaled \<times> alloc) res" where
  "scale leftright mode denorm be bbits u b start al =
     (let (b2, b5, s2, s5) = start; m2 = b2;
          inc = (if denorm then be + (Bias + (P_bits - 1) - 1 + 1) else 1 + P_bits - bbits);
          (b2, s2) = (if leftright then (b2 + inc, s2 + inc) else (b2, s2)) in
      bindR (if leftright then bindR (i2b 1 al) (\<lambda>(mh, al1). Inr (Some mh, al1)) else Inr (None, al)) (\<lambda>(mhi, al1).
      let i = (if m2 > 0 \<and> s2 > 0 then min m2 s2 else 0); (b2, m2, s2) = (b2 - i, m2 - i, s2 - i) in
      bindR (scale_five leftright b5 b mhi al1) (\<lambda>(b, mhi, al2).
      bindR (i2b 1 al2) (\<lambda>(S, al3).
      bindR (pow5_if (s5 > 0) S s5 al3) (\<lambda>(S, al4).
      let spec = ((mode < 2 \<or> leftright) \<and> word1 u = 0 \<and> word0 u AND Bndry_mask = 0 \<and>
                  word0 u AND (Exp_mask AND NOT Exp_msk1) \<noteq> 0);
          (b2, s2) = (if spec then (b2 + int Log2P, s2 + int Log2P) else (b2, s2)) in
      bindR (dshift S s2) (\<lambda>i.
      let (b2, m2, s2) = (b2 + i, m2 + i, s2 + i) in
      bindR (lshift_if (b2 > 0) b b2 al4) (\<lambda>(b, al5).
      bindR (lshift_if (s2 > 0) S s2 al5) (\<lambda>(S, al6).
      Inr (\<lparr>ds_b = b, ds_S = S, ds_mhi = mhi, ds_m2 = m2, ds_spec = spec\<rparr>, al6)))))))))"

section \<open>Digits\<close>

text \<open>Rounding up: nines become the end of the string, a string of nines becomes a one.\<close>

fun roundoff_rev :: "char list \<Rightarrow> char list \<times> bool" where
  "roundoff_rev [] = ([], False)"
| "roundoff_rev (c # cs) =
     (if c = CHR ''9'' then (if cs = [] then (''1'', True) else roundoff_rev cs)
      else (char_of (code c + 1) # cs, False))"

definition roundoff :: "char list \<Rightarrow> int \<Rightarrow> char list \<times> int" where
  "roundoff s k = (let (r, carry) = roundoff_rev (rev s) in (rev r, if carry then k + 1 else k))"

definition trimzeros :: "char list \<Rightarrow> char list res" where
  "trimzeros s =
     (let r = dropWhile (\<lambda>c. c = CHR ''0'') (rev s) in if r = [] then Inl OutOfBounds else Inr (rev r))"

definition is_exact :: "bigint \<Rightarrow> bool res" where
  "is_exact b = (case bg_x b of [] \<Rightarrow> Inl Uninit | x # _ \<Rightarrow> Inr (x = 0 \<and> bg_wds b \<le> 1))"

definition digit_char :: "32 word \<Rightarrow> char" where
  "digit_char q = char_of (unat q + 48)"

text \<open>Rounding the last digit to the nearest, halves to the even digit.\<close>

definition round_last :: "bigint \<Rightarrow> bigint \<Rightarrow> 32 word \<Rightarrow> char list \<Rightarrow> int \<Rightarrow> alloc \<Rightarrow> (char list \<times> int \<times> bigint \<times> alloc) res" where
  "round_last b S dig s k al =
     bindR (lshift b 1 al) (\<lambda>(b', al').
     bindR (cmp b' S) (\<lambda>j.
       if j > 0 \<or> (j = 0 \<and> dig AND 1 \<noteq> 0) then let (s', k') = roundoff s k in Inr (s', k', b', al')
       else bindR (trimzeros s) (\<lambda>s'. Inr (s', k, b', al'))))"

text \<open>The loop for a given number of digits; \<open>n\<close> rounds are left after this one.\<close>

fun fixed_digits ::
  "nat \<Rightarrow> bigint \<Rightarrow> bigint \<Rightarrow> char list \<Rightarrow> int \<Rightarrow> alloc \<Rightarrow> (char list \<times> int \<times> bigint \<times> alloc) res" where
  "fixed_digits n b S s k al =
     bindR (quorem b S) (\<lambda>(dig, b).
     bindR (is_exact b) (\<lambda>exact.
       if exact then Inr (s @ [digit_char dig], k, b, al)
       else (case n of
               0 \<Rightarrow> round_last b S dig (s @ [digit_char dig]) k al
             | Suc n' \<Rightarrow> bindR (multadd b 10 0 al) (\<lambda>(b, al). fixed_digits n' b S (s @ [digit_char dig]) k al))))"

text \<open>
  The loop that stops at the shortest string; the bound on the rounds is an argument. \<open>mlo\<close> is None
  while it is the same number as \<open>mhi\<close>. Where the source increments a digit, \<open>9\<close> goes to \<open>round_9_up\<close>.
\<close>

fun short_digits ::
  "nat \<Rightarrow> int \<Rightarrow> dbl \<Rightarrow> int \<Rightarrow> int \<Rightarrow> bigint \<Rightarrow> bigint \<Rightarrow> bigint option \<Rightarrow> bigint \<Rightarrow> char list \<Rightarrow> int \<Rightarrow> alloc \<Rightarrow>
    (char list \<times> int \<times> bigint \<times> bigint option \<times> bigint \<times> alloc) res" where
  "short_digits 0 mode u ilim i b S mlo mhi s k al = Inl FuelOut"
| "short_digits (Suc n) mode u ilim i b S mlo mhi s k al =
     bindR (quorem b S) (\<lambda>(dig, b).
     bindR (cmp b (case mlo of None \<Rightarrow> mhi | Some m \<Rightarrow> m)) (\<lambda>j.
     bindR (diff S mhi al) (\<lambda>(delta, al).
     bindR (if bg_sign delta \<noteq> 0 then Inr 1 else cmp b delta) (\<lambda>j1.
       let al = Bfree (Some delta) al; even_u = (word1 u AND 1 = 0);
           up9 = (\<lambda>b al. let (s', k') = roundoff (s @ ''9'') k in Inr (s', k', b, mlo, mhi, al));
           ret = (\<lambda>dg b al. Inr (s @ [digit_char dg], k, b, mlo, mhi, al)) in
       if j1 = 0 \<and> mode \<noteq> 1 \<and> even_u then
         (if dig = 9 then up9 b al else ret (if j > 0 then dig + 1 else dig) b al)
       else if j < 0 \<or> (j = 0 \<and> mode \<noteq> 1 \<and> even_u) then
         bindR (is_exact b) (\<lambda>exact.
           if exact then ret dig b al
           else if j1 > 0 then
             bindR (lshift b 1 al) (\<lambda>(b, al).
             bindR (cmp b S) (\<lambda>j1.
               if j1 > 0 \<or> (j1 = 0 \<and> dig AND 1 \<noteq> 0) then (if dig = 9 then up9 b al else ret (dig + 1) b al)
               else ret dig b al))
           else ret dig b al)
       else if j1 > 0 then (if dig = 9 then up9 b al else ret (dig + 1) b al)
       else if i = ilim then
         bindR (round_last b S dig (s @ [digit_char dig]) k al) (\<lambda>(s', k', b', al'). Inr (s', k', b', mlo, mhi, al'))
       else
         bindR (multadd b 10 0 al) (\<lambda>(b, al).
         bindR (case mlo of
                  None \<Rightarrow> bindR (multadd mhi 10 0 al) (\<lambda>(mh, al). Inr (None, mh, al))
                | Some m \<Rightarrow>
                    bindR (multadd m 10 0 al) (\<lambda>(m', al).
                    bindR (multadd mhi 10 0 al) (\<lambda>(mh, al). Inr (Some m', mh, al)))) (\<lambda>(mlo, mhi, al).
         short_digits n mode u ilim (i + 1) b S mlo mhi (s @ [digit_char dig]) k al))))))"

section \<open>The multiple-precision part of dtoa\<close>

text \<open>The correction of an estimate that was one too large.\<close>

definition correct_estimate ::
  "bool \<Rightarrow> dtoa_mode \<Rightarrow> scaled \<Rightarrow> int \<Rightarrow> alloc \<Rightarrow> (scaled \<times> int \<times> int \<times> alloc) res" where
  "correct_estimate k_check dm ds k al =
     bindR (if k_check then bindR (cmp (ds_b ds) (ds_S ds)) (\<lambda>c. Inr (c < 0)) else Inr False) (\<lambda>botched.
       if botched then
         bindR (multadd (ds_b ds) 10 0 al) (\<lambda>(b, al).
         bindR (case ds_mhi ds of None \<Rightarrow> Inr (None, al)
                | Some mh \<Rightarrow> bindR (multadd mh 10 0 al) (\<lambda>(mh', al). Inr (Some mh', al))) (\<lambda>(mhi, al).
         Inr (ds\<lparr>ds_b := b, ds_mhi := mhi\<rparr>, k - 1, dm_ilim1 dm, al)))
       else Inr (ds, k, dm_ilim dm, al))"

text \<open>
  From the scaled numbers to the string, which must fit in its block with the zero byte. The result is
  the string and the decimal exponent; every number is freed.
\<close>

definition free_all :: "bigint option list \<Rightarrow> alloc \<Rightarrow> alloc" where
  "free_all bs al = foldl (\<lambda>al b. Bfree b al) al bs"

definition generate ::
  "nat \<Rightarrow> dtoa_mode \<Rightarrow> dbl \<Rightarrow> scaled \<Rightarrow> int \<Rightarrow> int \<Rightarrow> alloc \<Rightarrow> (char list \<times> int \<times> alloc) res" where
  "generate fuel dm u ds k ilim al =
     (let mode = dm_mode dm; b = ds_b ds; S = ds_S ds in
      if ilim \<le> 0 \<and> (mode = 3 \<or> mode = 5) then
        bindR (if ilim < 0 then Inr (True, S, al)
               else bindR (multadd S 5 0 al) (\<lambda>(S', al). bindR (cmp b S') (\<lambda>c. Inr (c \<le> 0, S', al)))) (\<lambda>(none, S', al).
          let al' = free_all [Some S', ds_mhi ds, Some b] al in
          if none then Inr ([], - 1 - dm_ndigits dm, al') else Inr (''1'', k + 1, al'))
      else
        (case ds_mhi ds of
           Some mhi \<Rightarrow>
             bindR (lshift_if (ds_m2 ds > 0) mhi (ds_m2 ds) al) (\<lambda>(mhi, al).
             bindR (if ds_spec ds then
                      let (c, al1) = Balloc (bg_k mhi) al in
                      bindR (Bcopy c mhi) (\<lambda>c'. bindR (lshift c' Log2P al1) (\<lambda>(mh, al2). Inr (Some mhi, mh, al2)))
                    else Inr (None, mhi, al)) (\<lambda>(mlo, mhi, al).
             bindR (short_digits fuel mode u ilim 1 b S mlo mhi [] k al) (\<lambda>(s, k', b, mlo, mhi, al).
             Inr (s, k', free_all [Some S, mlo, Some mhi, Some b] al))))
         | None \<Rightarrow>
             bindR (fixed_digits (nat (ilim - 1)) b S [] k al) (\<lambda>(s, k', b, al).
             Inr (s, k', free_all [Some S, Some b] al))))"

definition dtoa_long ::
  "nat \<Rightarrow> dtoa_mode \<Rightarrow> bool \<Rightarrow> int \<Rightarrow> int \<Rightarrow> dbl \<Rightarrow> bigint \<Rightarrow> int \<Rightarrow> int \<Rightarrow> bool \<Rightarrow> alloc \<Rightarrow> (char list \<times> int \<times> alloc) res" where
  "dtoa_long fuel dm denorm be bbits u b i k k_check al =
     bindR (scale (dm_leftright dm) (dm_mode dm) denorm be bbits u b (start_exponents bbits i k) al) (\<lambda>(ds, al).
     bindR (correct_estimate k_check dm ds k al) (\<lambda>(ds, k, ilim, al).
     generate fuel dm u ds k ilim al))"

end
