(* ===== verification/Bigint_Value.thy ===== *)
theory Bigint_Value
  imports Bigint
begin

text \<open>
  The number a list of digits stands for, and what the inner loops of Bigint do to it: each loop
  lemma is an equation between natural numbers in which carries and borrows are explicit.
\<close>

fun bval :: "32 word list \<Rightarrow> nat" where
  "bval [] = 0"
| "bval (x # xs) = unat x + 2 ^ 32 * bval xs"

lemma bval_append: "bval (xs @ ys) = bval xs + 2 ^ (32 * length xs) * bval ys"
  by (induction xs) (simp_all add: power_add algebra_simps)

lemma bval_replicate [simp]: "bval (replicate n 0) = 0"
  by (induction n) simp_all

lemma unat32: "unat (x :: 32 word) < 2 ^ 32"
  using unsigned_less [of x] by simp

lemma unat32_le: "unat (x :: 32 word) \<le> 2 ^ 32 - 1"
  using unat32 [of x] by linarith

lemma bval_less: "bval xs < 2 ^ (32 * length xs)"
proof (induction xs)
  case (Cons x xs)
  have "bval xs + 1 \<le> 2 ^ (32 * length xs)" using Cons by simp
  then have "2 ^ 32 * (bval xs + 1) \<le> (2 ^ 32 * 2 ^ (32 * length xs) :: nat)" by simp
  moreover have "unat x < 2 ^ 32" by (rule unat32)
  ultimately show ?case by (simp add: power_add)
qed simp

lemma bval_zero_iff: "bval xs = 0 \<longleftrightarrow> (\<forall>x \<in> set xs. x = 0)"
  by (induction xs) (auto simp: unat_eq_0)

lemma bval_strip_top [simp]: "bval (strip_top xs) = bval xs"
proof (induction xs rule: rev_induct)
  case (snoc x xs)
  then show ?case by (cases "x = 0") (simp_all add: strip_top_def bval_append)
qed (simp add: strip_top_def)

lemma strip_top_snoc: "strip_top (xs @ [x]) = (if x = 0 then strip_top xs else xs @ [x])"
  by (simp add: strip_top_def)

lemma length_strip_top: "length (strip_top xs) \<le> length xs"
  by (induction xs rule: rev_induct) (simp_all add: strip_top_snoc, simp add: strip_top_def)

lemma strip_top_take: "strip_top xs = take (length (strip_top xs)) xs"
  using length_strip_top by (induction xs rule: rev_induct) (simp_all add: strip_top_snoc, simp add: strip_top_def)

lemma strip_top_last: "strip_top xs \<noteq> [] \<Longrightarrow> last (strip_top xs) \<noteq> 0"
  by (induction xs rule: rev_induct) (simp_all add: strip_top_snoc split: if_splits, simp add: strip_top_def)

lemma strip_top_Nil: "strip_top xs = [] \<longleftrightarrow> bval xs = 0"
  by (induction xs rule: rev_induct) (simp_all add: strip_top_snoc bval_append unat_eq_0, simp add: strip_top_def)

section \<open>64-bit steps\<close>

lemma unat_ucast_32_64 [simp]: "unat (ucast (x :: 32 word) :: 64 word) = unat x"
  using unat32 [of x] by (simp add: unsigned_ucast_eq take_bit_nat_eq_self)

lemma unat64_exact:
  fixes a b :: "64 word"
  shows "unat a + unat b < 2 ^ 64 \<Longrightarrow> unat (a + b) = unat a + unat b"
    "unat a * unat b < 2 ^ 64 \<Longrightarrow> unat (a * b) = unat a * unat b"
  using unat_add_lem [of a b] unat_mult_lem [of a b] by simp_all

lemma low_digit: "unat (ucast (y AND 0xffffffff :: 64 word) :: 32 word) = unat y mod 2 ^ 32"
proof -
  have m: "y AND 0xffffffff = take_bit 32 y" by (simp add: take_bit_eq_mask mask_eq_exp_minus_1)
  have "unat (ucast (y AND 0xffffffff) :: 32 word) = take_bit 32 (take_bit 32 (unat y))"
    unfolding m by (simp only: unsigned_ucast_eq unsigned_take_bit_eq) simp
  then show ?thesis by (simp only: take_bit_take_bit min.idem) (simp only: take_bit_eq_mod)
qed

lemma high_digit: "unat (drop_bit 32 (y :: 64 word)) = unat y div 2 ^ 32"
  by (simp only: unat_drop_bit_eq drop_bit_eq_div [of 32 "unat y"])

lemma digit_of_carry: "unat (c :: 64 word) < 2 ^ 32 \<Longrightarrow> unat (ucast c :: 32 word) = unat c"
  by (simp add: unsigned_ucast_eq take_bit_nat_eq_self)

lemma mac_bound: "a \<le> 2 ^ 32 - 1 \<Longrightarrow> b \<le> 2 ^ 32 - 1 \<Longrightarrow> a * b \<le> (2 ^ 32 - 1) * (2 ^ 32 - 1 :: nat)"
  by (intro mult_le_mono)

lemma unat_mac:
  fixes m c :: "64 word" and x d :: "32 word"
  assumes "unat m < 2 ^ 32" "unat c < 2 ^ 32"
  shows "unat (ucast x * m + ucast d + c) = unat x * unat m + unat d + unat c"
    "unat (ucast x * m + c) = unat x * unat m + unat c"
proof -
  have b: "unat x * unat m \<le> (2 ^ 32 - 1) * (2 ^ 32 - 1)"
    using assms(1) unat32_le [of x] by (intro mac_bound) simp_all
  have p: "unat (ucast x * m :: 64 word) = unat x * unat m"
    using b unat64_exact(2) [of "ucast x" m] by simp
  have q: "unat (ucast x * m + ucast d :: 64 word) = unat x * unat m + unat d"
    using b p unat32_le [of d] unat64_exact(1) [of "ucast x * m" "ucast d"] by simp
  show "unat (ucast x * m + ucast d + c) = unat x * unat m + unat d + unat c"
    using b q assms(2) unat32_le [of d] unat64_exact(1) [of "ucast x * m + ucast d" c] by simp
  show "unat (ucast x * m + c) = unat x * unat m + unat c"
    using b p assms(2) unat64_exact(1) [of "ucast x * m" c] by simp
qed

section \<open>The loops\<close>

lemma div_carry:
  assumes "x \<le> 2 ^ 32 - 1" "m < 2 ^ 32" "d < 2 ^ 32" "c < 2 ^ 32"
  shows "(x * m + d + c) div 2 ^ 32 < (2 ^ 32 :: nat)"
proof -
  have "x * m \<le> (2 ^ 32 - 1) * (2 ^ 32 - 1)" using assms by (intro mac_bound) simp_all
  then have "x * m + d + c < 2 ^ 32 * 2 ^ 32" using assms by simp
  then show ?thesis by (simp add: less_mult_imp_div_less)
qed

lemma multadd_loop_length [simp]: "length (fst (multadd_loop m c xs)) = length xs"
  by (induction xs arbitrary: c) (simp_all add: Let_def split: prod.splits, metis fst_conv)

lemma multadd_loop_value:
  assumes "unat m < 2 ^ 32" "unat c < 2 ^ 32"
  shows "bval (fst (multadd_loop m c xs)) + 2 ^ (32 * length xs) * unat (snd (multadd_loop m c xs)) =
      bval xs * unat m + unat c \<and> unat (snd (multadd_loop m c xs)) < 2 ^ 32"
  using assms(2)
proof (induction xs arbitrary: c)
  case Nil
  then show ?case by simp
next
  case (Cons x xs)
  let ?y = "ucast x * m + c" and ?n = "unat x * unat m + unat c"
  have y: "unat ?y = ?n" using unat_mac(2) [OF assms(1) Cons.prems] .
  have h: "unat (drop_bit 32 ?y) < 2 ^ 32"
    using div_carry [OF unat32_le [of x] assms(1), of 0 "unat c"] Cons.prems by (simp add: high_digit y)
  obtain ys k where l: "multadd_loop m (drop_bit 32 ?y) xs = (ys, k)" by fastforce
  have IH: "bval ys + 2 ^ (32 * length xs) * unat k = bval xs * unat m + ?n div 2 ^ 32" "unat k < 2 ^ 32"
    using Cons.IH [OF h] l by (simp_all add: high_digit y)
  have "?n mod 2 ^ 32 + 2 ^ 32 * bval ys + 2 ^ 32 * (2 ^ (32 * length xs) * unat k) =
      ?n mod 2 ^ 32 + 2 ^ 32 * (bval ys + 2 ^ (32 * length xs) * unat k)"
    by (simp add: algebra_simps)
  also have "\<dots> = 2 ^ 32 * (bval xs * unat m) + ?n"
    using mult_div_mod_eq [of "2 ^ 32" ?n] by (simp only: IH(1) distrib_left)
  finally show ?case
    using IH(2) l y by (simp add: Let_def low_digit power_add algebra_simps)
qed

lemma mult_row_length [simp]: "length xs < length cs \<Longrightarrow> length (mult_row y c xs cs) = length cs"
  by (induction y c xs cs rule: mult_row.induct) (auto simp: Let_def split: list.splits)

text \<open>A row overwrites the digit after its last one, which is still zero.\<close>

lemma mult_row_value:
  assumes "unat y < 2 ^ 32" "unat c < 2 ^ 32" "length xs < length cs" "cs ! length xs = 0"
  shows "bval (mult_row y c xs cs) = bval xs * unat y + bval cs + unat c"
  using assms
proof (induction y c xs cs rule: mult_row.induct)
  case (1 y carry cs)
  then obtain c cs' where "cs = c # cs'" "c = 0" by (cases cs) auto
  with 1 show ?case by (simp add: digit_of_carry)
next
  case (2 y carry x xs)
  then show ?case by simp
next
  case (3 y carry x xs d cs)
  let ?z = "ucast x * y + ucast d + carry" and ?n = "unat x * unat y + unat d + unat carry"
  have z: "unat ?z = ?n" using unat_mac(1) [OF 3(2,3)] .
  have h: "unat (drop_bit 32 ?z) < 2 ^ 32"
    using div_carry [OF unat32_le [of x] 3(2) unat32 [of d] 3(3)] by (simp add: high_digit z)
  have IH: "bval (mult_row y (drop_bit 32 ?z) xs cs) = bval xs * unat y + bval cs + ?n div 2 ^ 32"
    using 3(1) [OF refl 3(2) h] 3(4,5) by (simp add: high_digit z)
  have "bval (mult_row y carry (x # xs) (d # cs)) =
      ?n mod 2 ^ 32 + 2 ^ 32 * bval (mult_row y (drop_bit 32 ?z) xs cs)"
    by (simp only: mult_row.simps Let_def bval.simps low_digit z)
  also have "\<dots> = 2 ^ 32 * (bval xs * unat y + bval cs) + ?n"
    using mult_div_mod_eq [of "2 ^ 32" ?n] by (simp only: IH distrib_left)
  finally show ?case by (simp add: algebra_simps)
qed

lemma mult_row_rest:
  "length xs < length cs \<Longrightarrow> drop (Suc (length xs)) (mult_row y c xs cs) = drop (Suc (length xs)) cs"
  by (induction y c xs cs rule: mult_row.induct) (auto simp: Let_def split: list.splits)

lemma mult_loop_value:
  assumes "length cs = length xa + length ys" "xa \<noteq> []" "\<forall>c \<in> set (drop (length xa) cs). c = 0"
  shows "bval (mult_loop xa ys cs) = bval xa * bval ys + bval cs \<and> length (mult_loop xa ys cs) = length cs"
  using assms
proof (induction ys arbitrary: cs)
  case Nil
  then show ?case by simp
next
  case (Cons y ys)
  define cs' where "cs' = (if y \<noteq> 0 then mult_row (ucast y) 0 xa cs else cs)"
  have l: "length xa < length cs" using Cons.prems(1) by simp
  have z: "cs ! length xa = 0" using Cons.prems(3) l by (simp add: Cons_nth_drop_Suc [symmetric])
  have v: "bval cs' = bval xa * unat y + bval cs"
    using mult_row_value [of "ucast y" 0 xa cs] unat32 [of y] l z by (cases "y = 0") (simp_all add: cs'_def)
  have len: "length cs' = length cs" using l by (simp add: cs'_def)
  have r: "drop (Suc (length xa)) cs' = drop (Suc (length xa)) cs"
    using mult_row_rest [OF l] by (simp add: cs'_def)
  obtain c cs'' where c: "cs' = c # cs''" using len l by (cases cs') auto
  have "\<forall>c \<in> set (drop (length xa) cs''). c = 0"
    using r Cons.prems(3) set_drop_subset_set_drop [of "length xa" "Suc (length xa)" cs] by (auto simp: c)
  then have IH: "bval (mult_loop xa ys cs'') = bval xa * bval ys + bval cs''" "length (mult_loop xa ys cs'') = length cs''"
    using Cons.IH [of cs''] Cons.prems(1,2) len c by simp_all
  have "mult_loop xa (y # ys) cs = c # mult_loop xa ys cs''"
    using c by (simp add: cs'_def [symmetric] Let_def)
  then show ?case
    using IH v len c by (simp add: algebra_simps)
qed

section \<open>Shifting\<close>

lemma or_low_bits:
  fixes m z :: nat
  assumes "z < 2 ^ k"
  shows "push_bit k m OR z = m * 2 ^ k + z"
proof -
  have z: "take_bit k z = z" using assms by (simp add: take_bit_nat_eq_self)
  have "\<not> (bit (push_bit k m) n \<and> bit z n)" for n
    using arg_cong [OF z, of "\<lambda>v. bit v n"] by (auto simp: bit_simps)
  then have "push_bit k m AND z = 0" by (intro bit_eqI) (auto simp: bit_and_iff)
  then show ?thesis
    by (metis disjunctive_add_eq_or push_bit_eq_mult)
qed

lemma shl_digit:
  fixes x z :: "32 word"
  assumes "0 < k" "k < 32" "unat z < 2 ^ k"
  shows "unat (push_bit k x OR z) + 2 ^ 32 * unat (drop_bit (32 - k) x) = unat x * 2 ^ k + unat z"
    "unat (drop_bit (32 - k) x) < 2 ^ k"
proof -
  let ?x = "unat x"
  have e: "(2::nat) ^ 32 = 2 ^ (32 - k) * 2 ^ k" using assms by (simp flip: power_add)
  have "unat (push_bit k x OR z) = push_bit k (take_bit (32 - k) ?x) OR unat z"
    using assms by (simp add: unsigned_or_eq unsigned_push_bit_eq take_bit_push_bit)
  then have "unat (push_bit k x OR z) = push_bit k (?x mod 2 ^ (32 - k)) OR unat z"
    by (simp only: take_bit_eq_mod)
  then have "unat (push_bit k x OR z) = (?x mod 2 ^ (32 - k)) * 2 ^ k + unat z"
    using or_low_bits [OF assms(3)] by simp
  moreover have d: "unat (drop_bit (32 - k) x) = ?x div 2 ^ (32 - k)"
    by (simp only: unat_drop_bit_eq drop_bit_eq_div [of _ ?x])
  moreover have "r * b + c + d * b * q = (q * d + r) * b + c" for q r b c d :: nat
    by (simp add: algebra_simps)
  ultimately show "unat (push_bit k x OR z) + 2 ^ 32 * unat (drop_bit (32 - k) x) = ?x * 2 ^ k + unat z"
    by (simp only: e div_mult_mod_eq)
  have "?x < 2 ^ (32 - k) * 2 ^ k" using unat32 [of x] e by simp
  then show "unat (drop_bit (32 - k) x) < 2 ^ k"
    unfolding d by (simp add: less_mult_imp_div_less mult.commute)
qed

lemma shl_row_value:
  assumes "0 < k" "k < 32" "unat z < 2 ^ k"
  shows "bval (fst (shl_row k z xs)) + 2 ^ (32 * length xs) * unat (snd (shl_row k z xs)) =
      bval xs * 2 ^ k + unat z \<and> length (fst (shl_row k z xs)) = length xs"
  using assms(3)
proof (induction xs arbitrary: z)
  case Nil
  then show ?case by simp
next
  case (Cons x xs)
  obtain ys z' where r: "shl_row k (drop_bit (32 - k) x) xs = (ys, z')" by fastforce
  note d = shl_digit [OF assms(1,2) Cons.prems, of x]
  have IH: "bval ys + 2 ^ (32 * length xs) * unat z' = bval xs * 2 ^ k + unat (drop_bit (32 - k) x)" "length ys = length xs"
    using Cons.IH [OF d(2)] r by simp_all
  have "2 ^ 32 * (bval ys + 2 ^ (32 * length xs) * unat z') + unat (push_bit k x OR z) =
      2 ^ 32 * (bval xs * 2 ^ k) + (unat (push_bit k x OR z) + 2 ^ 32 * unat (drop_bit (32 - k) x))"
    by (subst IH(1)) (simp only: distrib_left add.commute add.left_commute)
  also have "\<dots> = 2 ^ 32 * (bval xs * 2 ^ k) + (unat x * 2 ^ k + unat z)" by (simp only: d(1))
  finally show ?case using r IH(2) by (simp add: Let_def power_add algebra_simps)
qed

section \<open>Comparing\<close>

lemma cmp_top_value:
  "length as = length bs \<Longrightarrow> cmp_top as bs =
     (if bval (rev as) < bval (rev bs) then - 1 else if bval (rev as) = bval (rev bs) then 0 else 1)"
proof (induction as bs rule: list_induct2)
  case Nil
  then show ?case by simp
next
  case (Cons x as y bs)
  let ?B = "2 ^ (32 * length as) :: nat"
  have b: "bval (rev as) < ?B" "bval (rev bs) < ?B"
    using bval_less [of "rev as"] bval_less [of "rev bs"] Cons.hyps by simp_all
  have less: "bval (rev (u # us)) < bval (rev (v # vs))"
    if "u < v" "length us = length as" "length vs = length as" "bval (rev us) < ?B" for u v :: "32 word" and us vs
  proof -
    have "unat u + 1 \<le> unat v" using that(1) by (simp add: word_less_nat_alt)
    then have "?B * (unat u + 1) \<le> ?B * unat v" by (rule mult_le_mono2)
    then show ?thesis using that by (simp add: bval_append)
  qed
  show ?case
  proof (cases "x = y")
    case True
    then show ?thesis using Cons by (simp add: bval_append)
  next
    case False
    note F = this
    show ?thesis
    proof (cases "x < y")
      case True
      have "bval (rev (x # as)) < bval (rev (y # bs))"
        by (rule less) (use True Cons.hyps b in simp_all)
      then show ?thesis using True F by simp
    next
      case nless: False
      then have "y < x" using F by simp
      then have "bval (rev (y # bs)) < bval (rev (x # as))"
        by (rule less) (use Cons.hyps b in simp_all)
      then show ?thesis using nless F by simp
    qed
  qed
qed

lemma bval_top: "xs \<noteq> [] \<Longrightarrow> last xs \<noteq> 0 \<Longrightarrow> 2 ^ (32 * (length xs - 1)) \<le> bval xs"
  by (cases xs rule: rev_cases) (simp_all add: bval_append unat_eq_0 Suc_le_eq trans_le_add2 flip: unat_gt_0)

section \<open>Subtracting\<close>

lemma borrow_int:
  fixes d :: int and n :: nat
  assumes "- 4294967296 \<le> d" "d < 4294967296" "int n = d mod 18446744073709551616"
  shows "int (n mod 4294967296) = d + 4294967296 * int (n div 4294967296 mod 2)"
proof (cases "0 \<le> d")
  case True
  then have "int n = d" using assms by simp
  then have "n < 4294967296" "int n = d" using assms(2) by simp_all
  then show ?thesis by simp
next
  case False
  then have n: "int n = d + 18446744073709551616"
    using assms mod_add_self2 [of d "18446744073709551616"]
      mod_pos_pos_trivial [of "d + 18446744073709551616" "18446744073709551616"] by simp
  define k where "k = nat (d + 4294967296)"
  have k: "k < 4294967296" "int k = d + 4294967296" using False assms(1) by (simp_all add: k_def)
  have nk: "n = k + 4294967296 * 4294967295" using n k(2) by linarith
  have "n mod 4294967296 = k" using k(1) unfolding nk by (simp only: mod_mult_self2 mod_less)
  moreover have "n div 4294967296 = 4294967295" using k(1) unfolding nk by (subst div_mult_self2) simp_all
  ultimately show ?thesis using k(2) by simp
qed

lemma borrow_step:
  fixes x :: "32 word" and s b :: "64 word"
  assumes "unat s < 2 ^ 32" "unat b \<le> 1"
  shows "int (unat (ucast ((ucast x - s - b) AND 0xffffffff) :: 32 word)) =
      int (unat x) - int (unat s) - int (unat b) + 2 ^ 32 * int (unat (drop_bit 32 (ucast x - s - b :: 64 word) AND 1))"
    "unat (drop_bit 32 (ucast x - s - b :: 64 word) AND 1) \<le> 1"
proof -
  let ?y = "ucast x - s - b :: 64 word" and ?d = "int (unat x) - int (unat s) - int (unat b)"
  have p: "(2 :: nat) ^ 32 = 4294967296" "(2 :: int) ^ 32 = 4294967296" by simp_all
  have "unat s < 4294967296" "unat x < 4294967296" using assms(1) unat32 [of x] by simp_all
  then have d: "- 4294967296 \<le> ?d" "?d < 4294967296" using assms(2) by linarith+
  have u: "uint (ucast x :: 64 word) = uint x" by (simp only: uint_nat unat_ucast_32_64)
  have "uint ?y = (uint x - uint s - uint b) mod 18446744073709551616"
    using uint_word_ariths(2) [of "ucast x - s" b] uint_word_ariths(2) [of "ucast x" s]
    by (simp add: mod_diff_left_eq u)
  then have y: "int (unat ?y) = ?d mod 18446744073709551616" by (simp only: uint_nat)
  have one: "w AND 1 = take_bit 1 w" for w :: "64 word"
    by (simp add: take_bit_eq_mask mask_eq_exp_minus_1)
  have h: "unat (drop_bit 32 ?y AND 1) = unat ?y div 4294967296 mod 2"
    unfolding one by (simp only: unsigned_take_bit_eq high_digit p) (simp add: take_bit_eq_mod)
  show "unat (drop_bit 32 ?y AND 1) \<le> 1" unfolding h by simp
  show "int (unat (ucast (?y AND 0xffffffff) :: 32 word)) = ?d + 2 ^ 32 * int (unat (drop_bit 32 ?y AND 1))"
    by (simp only: h low_digit p borrow_int [OF d y])
qed

text \<open>The last borrow of a subtraction is explicit; the equations are between integers.\<close>

lemma sub_loop_value:
  assumes "unat b \<le> 1" "length ys \<le> length xs"
  shows "\<exists>c \<le> 1. int (bval (sub_loop b xs ys)) =
      int (bval xs) - int (bval ys) - int (unat b) + 2 ^ (32 * length xs) * c \<and> 0 \<le> c"
  using assms
proof (induction b xs ys rule: sub_loop.induct)
  case (1 b ys)
  then have "int (unat b) \<le> 1" by linarith
  with 1 show ?case by (intro exI [of _ "int (unat b)"]) simp
next
  case (2 b x xs)
  let ?y = "ucast x - b" and ?z = "ucast x - 0 - b :: 64 word"
  note st = borrow_step [of 0 b x, OF _ 2(2)]
  obtain c where c: "c \<le> 1" "0 \<le> c" "int (bval (sub_loop (drop_bit 32 ?y AND 1) xs [])) =
      int (bval xs) - int (unat (drop_bit 32 ?y AND 1)) + 2 ^ (32 * length xs) * c"
    using 2(1) [OF refl] st by auto
  have "int (bval (sub_loop b (x # xs) [])) = int (unat (ucast (?y AND 0xffffffff) :: 32 word)) +
      2 ^ 32 * int (bval (sub_loop (drop_bit 32 ?y AND 1) xs []))"
    by (simp only: sub_loop.simps Let_def bval.simps of_nat_add of_nat_mult of_nat_power of_nat_numeral)
  also have "\<dots> = int (unat x) - int (unat b) + 2 ^ 32 * (int (bval xs) + 2 ^ (32 * length xs) * c)"
    using st(1) unfolding c(3) by (simp only: diff_zero unsigned_0 of_nat_0 right_diff_distrib distrib_left) simp
  finally show ?case
    using c by (intro exI [of _ c]) (simp add: power_add algebra_simps)
next
  case (3 b x xs x' ys)
  let ?y = "ucast x - ucast x' - b :: 64 word"
  have "unat (ucast x' :: 64 word) < 2 ^ 32" using unat32 [of x'] by (simp only: unat_ucast_32_64)
  note st = borrow_step [OF this 3(2), of x, unfolded unat_ucast_32_64]
  obtain c where c: "c \<le> 1" "0 \<le> c" "int (bval (sub_loop (drop_bit 32 ?y AND 1) xs ys)) =
      int (bval xs) - int (bval ys) - int (unat (drop_bit 32 ?y AND 1)) + 2 ^ (32 * length xs) * c"
    using 3(1) [OF refl] 3(3) st(2) by auto
  have "int (bval (sub_loop b (x # xs) (x' # ys))) = int (unat (ucast (?y AND 0xffffffff) :: 32 word)) +
      2 ^ 32 * int (bval (sub_loop (drop_bit 32 ?y AND 1) xs ys))"
    by (simp only: sub_loop.simps Let_def bval.simps of_nat_add of_nat_mult of_nat_power of_nat_numeral)
  also have "\<dots> = int (unat x) - int (unat x') - int (unat b) +
      2 ^ 32 * (int (bval xs) - int (bval ys) + 2 ^ (32 * length xs) * c)"
    unfolding st(1) c(3) by (simp only: right_diff_distrib distrib_left)
  finally show ?case
    using c by (intro exI [of _ c]) (simp add: power_add algebra_simps)
qed

lemma sub_loop_length [simp]: "length (sub_loop b xs ys) = length xs"
  by (induction b xs ys rule: sub_loop.induct) (simp_all add: Let_def)

lemma sub_loop_exact:
  assumes "length ys \<le> length xs" "bval ys \<le> bval xs"
  shows "bval (sub_loop 0 xs ys) = bval xs - bval ys"
proof -
  let ?B = "2 ^ (32 * length xs) :: int"
  obtain c where c: "c \<le> 1" "0 \<le> c" "int (bval (sub_loop 0 xs ys)) = int (bval xs) - int (bval ys) + ?B * c"
    using sub_loop_value [of 0 ys xs] assms(1) by auto
  have "int (bval (sub_loop 0 xs ys)) < ?B"
    using bval_less [of "sub_loop 0 xs ys"] by (simp only: sub_loop_length) (simp flip: of_nat_less_iff)
  moreover have "int (bval ys) \<le> int (bval xs)" using assms(2) by simp
  ultimately have "?B * c < ?B" using c(3) by linarith
  then have "c = 0" using c(1,2) by (cases "c = 1") auto
  then show ?thesis using c(3) by simp
qed

lemma int_digits: "int n = 2 ^ 32 * int (n div 2 ^ 32) + int (n mod 2 ^ 32)"
  by (simp only: zdiv_int zmod_int of_nat_power of_nat_numeral mult_div_mod_eq)

lemma sub_once_submul: "sub_once_loop c b ss bs = submul_loop 1 c b ss bs"
  by (induction "1 :: 64 word" c b ss bs rule: submul_loop.induct) (simp_all add: Let_def)

lemma submul_length [simp]: "length (submul_loop q c b ss bs) = length bs"
  by (induction q c b ss bs rule: submul_loop.induct) (simp_all add: Let_def)

lemma submul_rest: "drop (length ss) (submul_loop q c b ss bs) = drop (length ss) bs"
  by (induction q c b ss bs rule: submul_loop.induct) (simp_all add: Let_def)

text \<open>The borrow and the carry that leave the top digit are dropped by the code.\<close>

lemma submul_value:
  assumes "unat q < 2 ^ 32" "unat c < 2 ^ 32" "unat b \<le> 1" "length ss = length bs"
  shows "\<exists>t. int (bval (submul_loop q c b ss bs)) =
      int (bval bs) - int (unat q) * int (bval ss) - int (unat c) - int (unat b) + 2 ^ (32 * length bs) * t"
  using assms
proof (induction q c b ss bs rule: submul_loop.induct)
  case (1 q c b s ss x xs)
  let ?ys = "ucast s * q + c" and ?n = "unat s * unat q + unat c"
  let ?lo = "?ys AND 0xffffffff" and ?y = "ucast x - (?ys AND 0xffffffff) - b :: 64 word"
  have y: "unat ?ys = ?n" by (rule unat_mac(2) [OF 1(2,3)])
  have h: "unat (drop_bit 32 ?ys) = ?n div 2 ^ 32" "?n div 2 ^ 32 < 2 ^ 32"
    using div_carry [OF unat32_le [of s] 1(2), of 0 "unat c"] 1(3) by (simp_all add: high_digit y)
  have lo: "unat ?lo = ?n mod 2 ^ 32"
  proof -
    have "?lo = take_bit 32 ?ys" by (simp add: take_bit_eq_mask mask_eq_exp_minus_1)
    then have "unat ?lo = take_bit 32 ?n" by (simp only: unsigned_take_bit_eq y)
    then show ?thesis by (simp only: take_bit_eq_mod)
  qed
  have "unat ?lo < 2 ^ 32" by (simp only: lo) simp
  note st = borrow_step [OF this 1(4), of x]
  obtain t where t: "int (bval (submul_loop q (drop_bit 32 ?ys) (drop_bit 32 ?y AND 1) ss xs)) =
      int (bval xs) - int (unat q) * int (bval ss) - int (?n div 2 ^ 32) - int (unat (drop_bit 32 ?y AND 1)) +
      2 ^ (32 * length xs) * t"
    using 1(1) [OF refl refl 1(2) _ st(2)] h 1(5) by auto
  note n = int_digits [of ?n]
  have "int (bval (submul_loop q c b (s # ss) (x # xs))) = int (unat (ucast (?y AND 0xffffffff) :: 32 word)) +
      2 ^ 32 * int (bval (submul_loop q (drop_bit 32 ?ys) (drop_bit 32 ?y AND 1) ss xs))"
    by (simp only: submul_loop.simps Let_def bval.simps of_nat_add of_nat_mult of_nat_power of_nat_numeral)
  also have "\<dots> = int (unat x) - int ?n - int (unat b) +
      2 ^ 32 * (int (bval xs) - int (unat q) * int (bval ss) + 2 ^ (32 * length xs) * t)"
    unfolding st(1) t lo right_diff_distrib distrib_left using n by linarith
  finally show ?case
    by (intro exI [of _ t]) (simp add: power_add algebra_simps)
qed (simp_all, presburger+)

text \<open>When the subtrahend is not larger, nothing is lost.\<close>

lemma submul_exact:
  assumes "unat q < 2 ^ 32" "length ss = length bs" "unat q * bval ss \<le> bval bs"
  shows "bval (submul_loop q 0 0 ss bs) = bval bs - unat q * bval ss"
proof -
  let ?B = "2 ^ (32 * length bs) :: int" and ?r = "submul_loop q 0 0 ss bs"
  obtain t where t: "int (bval ?r) = int (bval bs) - int (unat q) * int (bval ss) + ?B * t"
    using submul_value [OF assms(1), of 0 0 ss bs] assms(2) by auto
  have b: "int (bval ?r) < ?B" "int (bval bs) < ?B"
    using bval_less [of ?r] bval_less [of bs] by (simp_all flip: of_nat_less_iff)
  have d: "int (bval bs) - int (unat q) * int (bval ss) = int (bval bs - unat q * bval ss)"
    using assms(3) by (simp only: of_nat_diff of_nat_mult)
  have "?B * t < ?B * 1" using t b(1) unfolding d by linarith
  moreover have "?B * (- 1) < ?B * t" using t b(2) unfolding d by linarith
  ultimately have "t < 1" "- 1 < t" by (simp_all only: mult_less_cancel_left_pos zero_less_power zero_less_numeral)
  then have "t = 0" by linarith
  then show ?thesis using t unfolding d by simp
qed

end
