(* ===== verification/Bigint_Ops.thy ===== *)
theory Bigint_Ops
  imports Bigint_Value
begin

text \<open>
  The operations of Bigint as functions on numbers: each lemma states that the call returns on
  well-formed arguments, that the result is well-formed, and which number it stands for.
\<close>

declare s2b_size.simps [simp del] lshift_size.simps [simp del] pow5_loop.simps [simp del]

definition value_of :: "bigint \<Rightarrow> nat" where
  "value_of b = bval (digits b)"

definition bg_ok :: "bigint \<Rightarrow> bool" where
  "bg_ok b \<longleftrightarrow> bg_wds b \<le> length (bg_x b) \<and> length (bg_x b) \<le> bg_maxwds b"

text \<open>No leading zero digit, except the only digit of zero.\<close>

definition normal :: "bigint \<Rightarrow> bool" where
  "normal b \<longleftrightarrow> bg_ok b \<and> 1 \<le> bg_wds b \<and> (bg_wds b = 1 \<or> last (digits b) \<noteq> 0)"

lemma length_digits [simp]: "bg_ok b \<Longrightarrow> length (digits b) = bg_wds b"
  by (simp add: digits_def bg_ok_def)

lemma normal_ok: "normal b \<Longrightarrow> bg_ok b"
  by (simp add: normal_def)

lemma value_less: "bg_ok b \<Longrightarrow> value_of b < 2 ^ (32 * bg_wds b)"
  using bval_less [of "digits b"] by (simp add: value_of_def)

lemma normal_top: "normal b \<Longrightarrow> 1 < bg_wds b \<Longrightarrow> 2 ^ (32 * (bg_wds b - 1)) \<le> value_of b"
  using bval_top [of "digits b"] length_digits [OF normal_ok, of b]
  by (cases "digits b = []") (simp_all add: normal_def value_of_def)

lemma do_digits_ok: "bg_ok b \<Longrightarrow> 1 \<le> bg_wds b \<Longrightarrow> do_digits b = Inr (digits b)"
  by (simp add: do_digits_def digits_def bg_ok_def max_def)

lemma put_digits_fresh:
  assumes "bg_x b = []" "length xs \<le> bg_maxwds b"
  shows "put_digits b xs = Inr (b\<lparr>bg_x := xs\<rparr>)"
  using assms by (simp add: put_digits_def)

lemma put_digits_inplace:
  assumes "bg_ok b" "length ys = bg_wds b"
  shows "put_digits b ys = Inr (b\<lparr>bg_x := ys @ drop (bg_wds b) (bg_x b)\<rparr>)"
    "bg_ok (b\<lparr>bg_x := ys @ drop (bg_wds b) (bg_x b)\<rparr>)"
    "digits (b\<lparr>bg_x := ys @ drop (bg_wds b) (bg_x b)\<rparr>) = ys"
  using assms by (auto simp: put_digits_def bg_ok_def digits_def bg_maxwds_def)

lemma Balloc_fields:
  "bg_k (fst (Balloc k al)) = k" "bg_wds (fst (Balloc k al)) = 0" "bg_sign (fst (Balloc k al)) = 0"
  "bg_x (fst (Balloc k al)) = []" "bg_maxwds (fst (Balloc k al)) = 2 ^ k"
  by (simp_all add: Balloc_def bg_maxwds_def Let_def split: list.splits)

lemma Balloc_obtain:
  obtains b al' where "Balloc k al = (b, al')" "bg_k b = k" "bg_wds b = 0" "bg_sign b = 0" "bg_x b = []"
    "bg_maxwds b = 2 ^ k"
  using Balloc_fields [of k al] by (cases "Balloc k al") simp

text \<open>Adding a top digit.\<close>

lemma put_digit_top:
  assumes "bg_ok b" "bg_wds b < bg_maxwds b"
  obtains b' where "put_digit b (bg_wds b) v = Inr b'" "bg_ok (b'\<lparr>bg_wds := bg_wds b + 1\<rparr>)"
    "digits (b'\<lparr>bg_wds := bg_wds b + 1\<rparr>) = digits b @ [v]"
proof -
  let ?b = "b\<lparr>bg_x := take (bg_wds b) (bg_x b) @ v # drop (bg_wds b + 1) (bg_x b)\<rparr>"
  have l: "length (take (bg_wds b) (bg_x b)) = bg_wds b" using assms(1) by (simp add: bg_ok_def)
  have "put_digit b (bg_wds b) v = Inr ?b" using assms by (simp add: put_digit_def bg_ok_def)
  moreover have "bg_ok (?b\<lparr>bg_wds := bg_wds b + 1\<rparr>)"
    using assms l by (auto simp: bg_ok_def bg_maxwds_def)
  moreover have "digits (?b\<lparr>bg_wds := bg_wds b + 1\<rparr>) = digits b @ [v]"
    using l by (simp add: digits_def)
  ultimately show ?thesis by (rule that)
qed

lemma Bcopy_ok:
  assumes "bg_ok b" "bg_x c = []" "bg_wds b \<le> bg_maxwds c"
  obtains c' where "Bcopy c b = Inr c'" "bg_ok c'" "digits c' = digits b" "bg_wds c' = bg_wds b"
    "bg_maxwds c' = bg_maxwds c"
  using assms by (auto simp: Bcopy_def put_digits_def bg_ok_def digits_def bg_maxwds_def)

section \<open>multadd and s2b\<close>

lemma multadd_value:
  assumes b: "bg_ok b" "1 \<le> bg_wds b" and m: "0 \<le> m" "m < 2 ^ 31" and a: "0 \<le> a" "a < 2 ^ 31"
  shows "\<exists>b' al'. multadd b m a al = Inr (b', al') \<and> bg_ok b' \<and> bg_wds b \<le> bg_wds b' \<and>
    value_of b' = value_of b * nat m + nat a \<and> (normal b \<longrightarrow> 0 < m \<longrightarrow> normal b')"
proof -
  let ?m = "word_of_int m :: 64 word" and ?a = "word_of_int a :: 64 word"
  have u: "unat ?m = nat m" "unat ?a = nat a"
    using m a by (simp_all add: unsigned_of_int take_bit_int_eq_self)
  have lt: "unat ?m < 2 ^ 32" "unat ?a < 2 ^ 32" using m a by (simp_all add: u)
  obtain ys c where l: "multadd_loop ?m ?a (digits b) = (ys, c)" by fastforce
  have ys: "length ys = bg_wds b" using multadd_loop_length [of ?m ?a "digits b"] l b(1) by simp
  have v: "bval ys + 2 ^ (32 * bg_wds b) * unat c = value_of b * nat m + nat a" "unat c < 2 ^ 32"
    using multadd_loop_value [OF lt, of "digits b"] l b(1) by (simp_all add: value_of_def u)
  let ?b1 = "b\<lparr>bg_x := ys @ drop (bg_wds b) (bg_x b)\<rparr>"
  note p = put_digits_inplace [OF b(1) ys]
  have start: "multadd b m a al =
      (if c \<noteq> 0 then
         bindR (if bg_wds b \<ge> bg_maxwds b then
                  let (b2, al2) = Balloc (bg_k b + 1) al in
                  bindR (Bcopy b2 ?b1) (\<lambda>b2'. Inr (b2', Bfree (Some ?b1) al2))
                else Inr (?b1, al)) (\<lambda>(b3, al3).
         bindR (put_digit b3 (bg_wds b) (ucast c)) (\<lambda>b4. Inr (b4\<lparr>bg_wds := bg_wds b + 1\<rparr>, al3)))
       else Inr (?b1, al))"
    by (simp only: multadd_def do_digits_ok [OF b] bindR_Inr l prod.case Let_def p(1))
  show ?thesis
  proof (cases "c = 0")
    case True
    have "value_of ?b1 = value_of b * nat m + nat a" using v True p(3) by (simp add: value_of_def)
    moreover have "normal ?b1" if n: "normal b" "0 < m"
    proof (cases "bg_wds b = 1")
      case False
      then have w: "1 < bg_wds b" using b(2) by simp
      have "2 ^ (32 * (bg_wds b - 1)) \<le> value_of b * nat m + nat a"
        using normal_top [OF n(1) w] n(2) by (metis le_add1 le_trans mult_le_mono2 nat_0_less_mult_iff nat_mult_1_right One_nat_def Suc_leI zero_less_nat_eq)
      then have big: "2 ^ (32 * (bg_wds b - 1)) \<le> bval ys" using v True by simp
      have "last ys \<noteq> 0"
      proof
        assume z: "last ys = 0"
        have "ys \<noteq> []" using w ys by auto
        then have "bval ys = bval (butlast ys)"
          using z by (metis append_butlast_last_id bval_append bval.simps mult_0_right add_0_right unsigned_0)
        then show False using bval_less [of "butlast ys"] big ys by simp
      qed
      then show ?thesis using p b by (simp add: normal_def)
    qed (use p b in \<open>simp add: normal_def\<close>)
    ultimately show ?thesis using start True p by auto
  next
    case False
    have "\<exists>b3 al3. (if bg_wds b \<ge> bg_maxwds b then
                  let (b2, al2) = Balloc (bg_k b + 1) al in
                  bindR (Bcopy b2 ?b1) (\<lambda>b2'. Inr (b2', Bfree (Some ?b1) al2))
                else Inr (?b1, al)) = Inr (b3, al3) \<and>
        bg_ok b3 \<and> bg_wds b3 = bg_wds b \<and> digits b3 = ys \<and> bg_wds b < bg_maxwds b3"
    proof (cases "bg_wds b \<ge> bg_maxwds b")
      case True
      obtain b2 al2 where B: "Balloc (bg_k b + 1) al = (b2, al2)" "bg_x b2 = []" "bg_maxwds b2 = 2 ^ (bg_k b + 1)"
        by (rule Balloc_obtain [of "bg_k b + 1" al]) simp
      have eq: "bg_wds b = 2 ^ bg_k b" using True b(1) by (simp add: bg_ok_def bg_maxwds_def)
      then have cap: "bg_wds ?b1 \<le> bg_maxwds b2" "bg_wds b < bg_maxwds b2" using B(3) by simp_all
      obtain c' where "Bcopy b2 ?b1 = Inr c'" "bg_ok c'" "digits c' = digits ?b1" "bg_wds c' = bg_wds ?b1"
        "bg_maxwds c' = bg_maxwds b2"
        by (rule Bcopy_ok [OF p(2) B(2) cap(1)])
      then show ?thesis using True B(1) cap(2) p(3) by simp
    next
      case False
      then show ?thesis using p by (simp add: bg_maxwds_def)
    qed
    then obtain b3 al3 where g: "(if bg_wds b \<ge> bg_maxwds b then
                  let (b2, al2) = Balloc (bg_k b + 1) al in
                  bindR (Bcopy b2 ?b1) (\<lambda>b2'. Inr (b2', Bfree (Some ?b1) al2))
                else Inr (?b1, al)) = Inr (b3, al3)"
        "bg_ok b3" "bg_wds b3 = bg_wds b" "digits b3 = ys" "bg_wds b3 < bg_maxwds b3" by auto
    obtain b4 where t: "put_digit b3 (bg_wds b3) (ucast c) = Inr b4" "bg_ok (b4\<lparr>bg_wds := bg_wds b3 + 1\<rparr>)"
      "digits (b4\<lparr>bg_wds := bg_wds b3 + 1\<rparr>) = digits b3 @ [ucast c]"
      by (rule put_digit_top [OF g(2,5)])
    let ?r = "b4\<lparr>bg_wds := bg_wds b + 1\<rparr>"
    have "multadd b m a al = Inr (?r, al3)"
      unfolding start g(1) using False t(1) g(3) by simp
    moreover have "value_of ?r = value_of b * nat m + nat a"
      using t(3) g(3,4) v digit_of_carry [OF v(2)] ys by (simp add: value_of_def bval_append)
    moreover have "last (digits ?r) \<noteq> 0"
    proof -
      have "unat (ucast c :: 32 word) \<noteq> 0" using digit_of_carry [OF v(2)] False by (simp add: unat_eq_0)
      then show ?thesis using t(3) g(3) by auto
    qed
    moreover have "bg_ok ?r" using t(2) g(3) by simp
    ultimately show ?thesis by (auto simp: normal_def)
  qed
qed

text \<open>The number a string of digits appends to a number.\<close>

definition append_decimal :: "nat \<Rightarrow> char list \<Rightarrow> nat" where
  "append_decimal = foldl (\<lambda>v c. v * 10 + nat (digit_int c))"

definition dec_digit :: "char \<Rightarrow> bool" where
  "dec_digit c \<longleftrightarrow> 0 \<le> digit_int c \<and> digit_int c \<le> 9"

lemma s2b_digits_value:
  assumes "bg_ok b" "1 \<le> bg_wds b" "length (take n (drop i s)) = n" "list_all dec_digit (take n (drop i s))"
  shows "\<exists>b' al'. s2b_digits s i n b al = Inr (b', al') \<and> bg_ok b' \<and> 1 \<le> bg_wds b' \<and>
    value_of b' = append_decimal (value_of b) (take n (drop i s)) \<and> (normal b \<longrightarrow> normal b')"
  using assms
proof (induction n arbitrary: i b al)
  case 0
  then show ?case by (simp add: append_decimal_def)
next
  case (Suc n)
  have i: "i < length s" "n \<le> length s - (i + 1)" using Suc.prems(3) by (auto simp: min_def split: if_splits)
  then have t: "take (Suc n) (drop i s) = s ! i # take n (drop (i + 1) s)"
    by (simp add: Cons_nth_drop_Suc [symmetric])
  have d: "0 \<le> digit_int (s ! i)" "digit_int (s ! i) < 2 ^ 31"
    using Suc.prems(4) by (simp_all add: t dec_digit_def)
  obtain b1 al1 where m: "multadd b 10 (digit_int (s ! i)) al = Inr (b1, al1)" "bg_ok b1" "bg_wds b \<le> bg_wds b1"
    "value_of b1 = value_of b * 10 + nat (digit_int (s ! i))" "normal b \<longrightarrow> normal b1"
    using multadd_value [OF Suc.prems(1,2), of 10 "digit_int (s ! i)" al] d by auto
  have "\<exists>b' al'. s2b_digits s (i + 1) n b1 al1 = Inr (b', al') \<and> bg_ok b' \<and> 1 \<le> bg_wds b' \<and>
      value_of b' = append_decimal (value_of b1) (take n (drop (i + 1) s)) \<and> (normal b1 \<longrightarrow> normal b')"
    by (rule Suc.IH) (use m Suc.prems i in \<open>simp_all add: t\<close>)
  then show ?case
    using m i t by (auto simp: append_decimal_def)
qed

definition s2b_rest :: "char list \<Rightarrow> nat \<Rightarrow> nat \<Rightarrow> nat \<Rightarrow> char list" where
  "s2b_rest s nd0 nd dplen =
     (if 9 < nd0 then take (nd0 - 9) (drop 9 s) @ take (nd - nd0) (drop (nd0 + dplen) s)
      else take (nd - 9) (drop (dplen + 9) s))"

lemma s2b_value_lemma:
  assumes nd: "nd0 \<le> nd" and len: "nd + dplen \<le> length s" and ds: "list_all dec_digit (s2b_rest s nd0 nd dplen)"
  shows "\<exists>b al'. s2b s nd0 nd y9 dplen al = Inr (b, al') \<and> normal b \<and>
    value_of b = append_decimal (unat y9) (s2b_rest s nd0 nd dplen)"
proof -
  let ?k = "s2b_size ((int nd + 8) div 9) 1 0"
  obtain b0 al0 where B: "Balloc ?k al = (b0, al0)" "bg_wds b0 = 0" "bg_x b0 = []" "bg_maxwds b0 = 2 ^ ?k"
    by (rule Balloc_obtain [of ?k al]) simp
  define b where "b = b0\<lparr>bg_x := [y9], bg_wds := 1\<rparr>"
  have p: "put_digit b0 0 y9 = Inr (b0\<lparr>bg_x := [y9]\<rparr>)" using B by (simp add: put_digit_def)
  have "digits b = [y9]" "bg_ok b"
    using B by (simp_all add: b_def digits_def bg_ok_def bg_maxwds_def)
  then have b: "bg_ok b" "1 \<le> bg_wds b" "value_of b = unat y9" "normal b"
    by (simp_all add: b_def value_of_def normal_def)
  have start: "s2b s nd0 nd y9 dplen al =
      (if 9 < nd0 then bindR (s2b_digits s 9 (nd0 - 9) b al0) (\<lambda>(b2, al2).
          s2b_digits s (nd0 + dplen) (nd - nd0) b2 al2)
       else s2b_digits s (dplen + 9) (nd - 9) b al0)"
    by (simp only: s2b_def Let_def B(1) prod.case p bindR_Inr b_def)
  show ?thesis
  proof (cases "9 < nd0")
    case True
    obtain b2 al2 where 2: "s2b_digits s 9 (nd0 - 9) b al0 = Inr (b2, al2)" "bg_ok b2" "1 \<le> bg_wds b2"
      "value_of b2 = append_decimal (value_of b) (take (nd0 - 9) (drop 9 s))" "normal b2"
      using s2b_digits_value [OF b(1,2), of "nd0 - 9" 9 s al0] ds len nd True b(4) by (auto simp: s2b_rest_def)
    have "\<exists>b' al'. s2b_digits s (nd0 + dplen) (nd - nd0) b2 al2 = Inr (b', al') \<and> bg_ok b' \<and> 1 \<le> bg_wds b' \<and>
        value_of b' = append_decimal (value_of b2) (take (nd - nd0) (drop (nd0 + dplen) s)) \<and> (normal b2 \<longrightarrow> normal b')"
      by (rule s2b_digits_value) (use 2 ds len nd True in \<open>simp_all add: s2b_rest_def\<close>)
    then show ?thesis
      using True 2 b(3) by (auto simp: start s2b_rest_def append_decimal_def)
  next
    case False
    have "\<exists>b' al'. s2b_digits s (dplen + 9) (nd - 9) b al0 = Inr (b', al') \<and> bg_ok b' \<and> 1 \<le> bg_wds b' \<and>
        value_of b' = append_decimal (value_of b) (take (nd - 9) (drop (dplen + 9) s)) \<and> (normal b \<longrightarrow> normal b')"
      by (rule s2b_digits_value) (use b ds len nd False in \<open>simp_all add: s2b_rest_def\<close>)
    then show ?thesis using False b by (auto simp: start s2b_rest_def)
  qed
qed

section \<open>Multiplication\<close>

lemma mult_value:
  assumes a: "bg_ok a" "1 \<le> bg_wds a" and b: "bg_ok b" "1 \<le> bg_wds b"
  shows "\<exists>c al'. mult a b al = Inr (c, al') \<and> bg_ok c \<and> value_of c = value_of a * value_of b \<and>
    al_p5s al' = al_p5s al \<and> (0 < value_of c \<longrightarrow> normal c)"
proof -
  obtain u v where uv: "(if bg_wds a < bg_wds b then (b, a) else (a, b)) = (u, v)"
    "bg_ok u" "1 \<le> bg_wds u" "bg_ok v" "1 \<le> bg_wds v" "bg_wds v \<le> bg_wds u" "value_of u * value_of v = value_of a * value_of b"
    using a b by (cases "bg_wds a < bg_wds b") (auto simp: mult.commute)
  define wc where "wc = bg_wds u + bg_wds v"
  define k where "k = (if wc > bg_maxwds u then bg_k u + 1 else bg_k u)"
  obtain c al' where B: "Balloc k al = (c, al')" "bg_wds c = 0" "bg_x c = []" "bg_maxwds c = 2 ^ k"
    by (rule Balloc_obtain [of k al]) simp
  have "wc \<le> 2 * bg_maxwds u" using uv(2,6) by (simp add: wc_def bg_ok_def)
  then have cap: "wc \<le> bg_maxwds c" unfolding B(4) k_def by (simp add: bg_maxwds_def)
  define zs where "zs = mult_loop (digits u) (digits v) (replicate wc 0)"
  have nz: "digits u \<noteq> []" using uv(2,3) length_digits by fastforce
  have z: "bval zs = value_of u * value_of v" "length zs = wc"
    using mult_loop_value [of "replicate wc 0" "digits u" "digits v"] nz uv(2,4)
    by (simp_all add: zs_def value_of_def wc_def)
  let ?r = "c\<lparr>bg_x := zs, bg_wds := length (strip_top zs)\<rparr>"
  have "mult a b al = Inr (?r, al')"
    using uv(3) B(2-4) cap z(2)
    by (simp only: mult_def uv(1) prod.case Let_def wc_def [symmetric] k_def [symmetric] zs_def [symmetric] B(1))
      (simp add: put_digits_def bg_maxwds_def)
  moreover have ok: "bg_ok ?r"
    using length_strip_top [of zs] z(2) cap by (simp add: bg_ok_def bg_maxwds_def)
  moreover have d: "digits ?r = strip_top zs"
    using strip_top_take [of zs] by (simp add: digits_def)
  moreover have "al_p5s al' = al_p5s al"
    using B(1) by (auto simp: Balloc_def Let_def split: list.splits if_splits)
  moreover have "value_of ?r = value_of a * value_of b"
    unfolding value_of_def d using z(1) uv(7) by (simp add: value_of_def)
  moreover have "0 < value_of ?r \<longrightarrow> normal ?r"
    using strip_top_last [of zs] strip_top_Nil [of zs] d ok
    by (auto simp: normal_def value_of_def Suc_le_eq)
  ultimately have "mult a b al = Inr (?r, al') \<and> bg_ok ?r \<and> value_of ?r = value_of a * value_of b \<and>
      al_p5s al' = al_p5s al \<and> (0 < value_of ?r \<longrightarrow> normal ?r)" by (intro conjI)
  then show ?thesis by (intro exI)
qed

section \<open>Powers of five\<close>

definition p5s_ok :: "alloc \<Rightarrow> bool" where
  "p5s_ok al \<longleftrightarrow> (\<forall>i < length (al_p5s al). normal (al_p5s al ! i) \<and> value_of (al_p5s al ! i) = 5 ^ (4 * 2 ^ i))"

lemma Bfree_p5s [simp]: "al_p5s (Bfree p al) = al_p5s al"
  by (simp add: Bfree_def split: option.split)

lemma Balloc_p5s: "Balloc k al = (b, al') \<Longrightarrow> al_p5s al' = al_p5s al"
  by (auto simp: Balloc_def Let_def split: list.splits if_splits)

lemma Balloc_p5s_snd [simp]: "al_p5s (snd (Balloc k al)) = al_p5s al"
  by (simp add: Balloc_def Let_def split: list.splits)

lemma multadd_p5s: "multadd b m a al = Inr (b', al') \<Longrightarrow> al_p5s al' = al_p5s al"
  by (auto simp: multadd_def Let_def bindR_eq_Inr case_prod_beta split: if_splits)

lemma normal_pos: "normal b \<Longrightarrow> 1 \<le> bg_wds b"
  by (simp add: normal_def)

lemma pow5_loop_value:
  assumes "0 < k" "i < length (al_p5s al)" "p5s_ok al" "normal b" "0 < value_of b"
  shows "\<exists>b' al'. pow5_loop k i b al = Inr (b', al') \<and> normal b' \<and> p5s_ok al' \<and>
    value_of b' = value_of b * 5 ^ (4 * 2 ^ i * k)"
  using assms
proof (induction k i b al rule: pow5_loop.induct)
  case (1 k i b al)
  let ?p = "al_p5s al ! i"
  have p: "normal ?p" "value_of ?p = 5 ^ (4 * 2 ^ i)" using 1(4,5) by (simp_all add: p5s_ok_def)
  have odd: "(k AND 1 \<noteq> 0) = odd k" by (simp add: and_one_eq odd_iff_mod_2_eq_one)
  let ?step = "if k AND 1 \<noteq> 0 then bindR (mult b ?p al) (\<lambda>(b1, al1). Inr (b1, Bfree (Some b) al1)) else Inr (b, al)"
  obtain b1 al1 where s: "?step = Inr (b1, al1)" "normal b1" "al_p5s al1 = al_p5s al"
    "value_of b1 = value_of b * (if odd k then 5 ^ (4 * 2 ^ i) else 1)"
  proof (cases "odd k")
    case True
    have "\<exists>c al'. mult b ?p al = Inr (c, al') \<and> bg_ok c \<and> value_of c = value_of b * value_of ?p \<and>
      al_p5s al' = al_p5s al \<and> (0 < value_of c \<longrightarrow> normal c)"
      by (rule mult_value) (use 1(6) p normal_ok normal_pos in auto)
    then show ?thesis using that True p(2) 1(7) odd by auto
  next
    case False
    then show ?thesis using that [of b al] 1(6) odd by auto
  qed
  have pos1: "0 < value_of b1" using s(4) 1(7) by simp
  have ok1: "p5s_ok al1" using 1(5) s(3) by (simp add: p5s_ok_def)
  have kk: "k = 2 * (k div 2) + (if odd k then 1 else 0)" by simp
  have val: "value_of b1 * 5 ^ (4 * 2 ^ (i + 1) * (k div 2)) = value_of b * 5 ^ (4 * 2 ^ i * k)"
  proof -
    have "4 * 2 ^ i * k = (if odd k then 4 * 2 ^ i else 0) + 4 * 2 ^ (i + 1) * (k div 2)"
      by (subst (1) kk) (simp add: algebra_simps)
    then have "(5::nat) ^ (4 * 2 ^ i * k) = (if odd k then 5 ^ (4 * 2 ^ i) else 1) * 5 ^ (4 * 2 ^ (i + 1) * (k div 2))"
      by (simp only: power_add) simp
    then show ?thesis by (simp only: s(4) mult.assoc)
  qed
  have unf: "pow5_loop k i b al =
      (if k div 2 = 0 then Inr (b1, al1)
       else if i + 1 < length (al_p5s al1) then pow5_loop (k div 2) (i + 1) b1 al1
       else bindR (mult (al_p5s al1 ! i) (al_p5s al1 ! i) al1) (\<lambda>(p51, al'').
            pow5_loop (k div 2) (i + 1) b1 (al''\<lparr>al_p5s := al_p5s al'' @ [p51]\<rparr>)))"
    by (subst pow5_loop.simps) (simp only: s(1) bindR_Inr prod.case)
  show ?case
  proof (cases "k div 2 = 0")
    case True
    then show ?thesis using unf s(2) ok1 val by auto
  next
    case k2: False
    show ?thesis
    proof (cases "i + 1 < length (al_p5s al1)")
      case True
      then show ?thesis
        using 1(1) [OF s(1) refl k2 True] k2 ok1 s(2) pos1 unf val by auto
    next
      case False
      obtain p51 al2 where m: "mult (al_p5s al1 ! i) (al_p5s al1 ! i) al1 = Inr (p51, al2)"
        "value_of p51 = 5 ^ (4 * 2 ^ i) * 5 ^ (4 * 2 ^ i)" "al_p5s al2 = al_p5s al1" "normal p51"
        using mult_value [of ?p ?p al1] p normal_ok [OF p(1)] normal_pos [OF p(1)] s(3) by auto
      let ?al = "al2\<lparr>al_p5s := al_p5s al2 @ [p51]\<rparr>"
      have l: "length (al_p5s al2) = i + 1" using False 1(4) m(3) s(3) by simp
      have "value_of p51 = 5 ^ (4 * 2 ^ (i + 1))" unfolding m(2) by (simp flip: power_add)
      then have "p5s_ok ?al"
        using ok1 m(3,4) l by (auto simp: p5s_ok_def nth_append less_Suc_eq)
      then show ?thesis
        using 1(2) [OF s(1) refl k2 False m(1) refl] k2 s(2) pos1 unf val m(1) l False by auto
    qed
  qed
qed

lemma nat_and_mask: "(k :: nat) AND 3 = k mod 4"
proof -
  have "k AND 3 = take_bit 2 k" by (simp add: take_bit_eq_mask mask_eq_exp_minus_1)
  then show ?thesis by (simp add: take_bit_eq_mod)
qed

lemma i2b_value:
  assumes "0 \<le> i" "i < 2 ^ 31"
  shows "\<exists>b al'. i2b i al = Inr (b, al') \<and> normal b \<and> value_of b = nat i \<and> al_p5s al' = al_p5s al"
proof -
  obtain b al' where B: "Balloc 1 al = (b, al')" "bg_wds b = 0" "bg_x b = []" "bg_maxwds b = 2 ^ 1"
    by (rule Balloc_obtain [of 1 al]) simp
  let ?r = "b\<lparr>bg_x := [word_of_int i], bg_wds := 1\<rparr>"
  have "i2b i al = Inr (?r, al')"
    using B by (simp add: i2b_def put_digit_def)
  moreover have "digits ?r = [word_of_int i]" by (simp add: digits_def)
  moreover have "bg_ok ?r" using B(4) by (simp add: bg_ok_def bg_maxwds_def)
  moreover have "unat (word_of_int i :: 32 word) = nat i"
    using assms by (simp add: unsigned_of_int take_bit_int_eq_self)
  ultimately show ?thesis using Balloc_p5s [OF B(1)] by (auto simp: normal_def value_of_def)
qed

lemma pow5mult_lemma:
  assumes "normal b" "0 < value_of b" "p5s_ok al"
  shows "\<exists>b' al'. pow5mult b k al = Inr (b', al') \<and> normal b' \<and> value_of b' = value_of b * 5 ^ k \<and> p5s_ok al'"
proof -
  let ?i = "k mod 4"
  have "?i = 0 \<or> ?i = 1 \<or> ?i = 2 \<or> ?i = 3" by linarith
  then have p05: "0 < ?i \<Longrightarrow> nat (p05 (?i - 1)) = 5 ^ ?i \<and> 0 < p05 (?i - 1) \<and> p05 (?i - 1) < 2 ^ 31"
    by (elim disjE) (simp_all add: p05_def)
  obtain b1 al1 where 1: "(if k AND 3 \<noteq> 0 then multadd b (p05 ((k AND 3) - 1)) 0 al else Inr (b, al)) = Inr (b1, al1)"
    "normal b1" "value_of b1 = value_of b * 5 ^ ?i" "al_p5s al1 = al_p5s al"
  proof (cases "?i = 0")
    case True
    then show ?thesis using that [of b al] assms(1) by (simp add: nat_and_mask)
  next
    case False
    obtain b1 al1 where "multadd b (p05 (?i - 1)) 0 al = Inr (b1, al1)" "value_of b1 = value_of b * nat (p05 (?i - 1)) + nat 0"
      "normal b1"
      using multadd_value [OF normal_ok normal_pos, OF assms(1) assms(1), of "p05 (?i - 1)" 0 al] p05 False assms(1)
      by auto
    then show ?thesis using that [of b1 al1] False p05 multadd_p5s by (simp add: nat_and_mask)
  qed
  have ok1: "p5s_ok al1" using assms(3) 1(4) by (simp add: p5s_ok_def)
  have k: "k = ?i + 4 * (k div 4)" by simp
  show ?thesis
  proof (cases "k div 4 = 0")
    case True
    then show ?thesis using 1 ok1 k by (auto simp: pow5mult_def)
  next
    case False
    have "\<exists>al2. (if al_p5s al1 = [] then bindR (i2b 625 al1) (\<lambda>(p5, al1'). Inr (al1'\<lparr>al_p5s := [p5]\<rparr>)) else Inr al1) = Inr al2 \<and>
        p5s_ok al2 \<and> 0 < length (al_p5s al2)"
    proof (cases "al_p5s al1 = []")
      case True
      obtain p5 al' where "i2b 625 al1 = Inr (p5, al')" "normal p5" "value_of p5 = 625"
        using i2b_value [of 625 al1] by auto
      then show ?thesis using True by (simp add: p5s_ok_def)
    qed (use ok1 in simp)
    then obtain al2 where 2: "(if al_p5s al1 = [] then bindR (i2b 625 al1) (\<lambda>(p5, al1'). Inr (al1'\<lparr>al_p5s := [p5]\<rparr>))
        else Inr al1) = Inr al2" "p5s_ok al2" "0 < length (al_p5s al2)" by blast
    have pos: "0 < value_of b1" using 1(3) assms(2) by simp
    obtain b' al' where 3: "pow5_loop (k div 4) 0 b1 al2 = Inr (b', al')" "normal b'" "p5s_ok al'"
      "value_of b' = value_of b1 * 5 ^ (4 * 2 ^ 0 * (k div 4))"
      using pow5_loop_value [OF _ 2(3,2) 1(2) pos, of "k div 4"] False by auto
    have "value_of b' = value_of b * 5 ^ k"
      unfolding 3(4) 1(3) by (subst (3) k) (simp only: power_add mult.assoc, simp)
    moreover have "pow5mult b k al = Inr (b', al')"
      unfolding pow5mult_def 1(1) bindR_Inr prod.case if_not_P [OF False] 2(1) by (rule 3(1))
    ultimately show ?thesis using 3(2,3) by blast
  qed
qed

section \<open>Shifting\<close>

lemma lshift_size_cap:
  "0 < i \<Longrightarrow> i = 2 ^ k \<Longrightarrow> n1 \<le> 2 ^ lshift_size n1 i k"
proof (induction n1 i k rule: lshift_size.induct)
  case (1 n1 i k)
  then show ?case by (subst lshift_size.simps) auto
qed

lemma lshift_lemma:
  assumes b: "normal b"
  shows "\<exists>b' al'. lshift b k al = Inr (b', al') \<and> bg_ok b' \<and> value_of b' = value_of b * 2 ^ k \<and>
    (0 < value_of b \<longrightarrow> normal b') \<and> al_p5s al' = al_p5s al"
proof -
  let ?n = "k div 32" and ?k = "k mod 32" and ?w = "bg_wds b"
  let ?k1 = "lshift_size (?n + ?w + 1) (bg_maxwds b) (bg_k b)"
  have ok: "bg_ok b" "1 \<le> ?w" using b normal_ok normal_pos by auto
  obtain b1 al1 where B: "Balloc ?k1 al = (b1, al1)" "bg_wds b1 = 0" "bg_x b1 = []" "bg_maxwds b1 = 2 ^ ?k1"
    by (rule Balloc_obtain [of ?k1 al]) simp
  have cap: "?n + ?w + 1 \<le> bg_maxwds b1"
    unfolding B(4) by (rule lshift_size_cap) (simp_all add: bg_maxwds_def)
  obtain ys n1 where y: "(if ?k \<noteq> 0 then let (ys, z) = shl_row ?k 0 (digits b) in
        (ys @ [z], if z \<noteq> 0 then ?n + ?w + 1 + 1 else ?n + ?w + 1) else (digits b, ?n + ?w + 1)) = (ys, n1)"
      "length ys \<le> ?w + 1" "n1 - 1 \<le> ?n + length ys" "?n + ?w \<le> n1 - 1"
      "bval (take (n1 - 1 - ?n) ys) = value_of b * 2 ^ ?k"
      "0 < value_of b \<longrightarrow> n1 - 1 = 1 \<or> last (take (n1 - 1 - ?n) ys) \<noteq> 0"
  proof (cases "?k = 0")
    case True
    have "?w = 1 \<or> last (digits b) \<noteq> 0" using b by (simp add: normal_def)
    moreover have "0 < value_of b \<longrightarrow> ?w = 1 \<longrightarrow> last (digits b) \<noteq> 0"
      using length_digits [OF ok(1)] by (cases "digits b") (auto simp: value_of_def)
    ultimately show ?thesis
      using True ok by (intro that [of "digits b" "?n + ?w + 1"]) (auto simp: value_of_def)
  next
    case False
    obtain zs z where r: "shl_row ?k 0 (digits b) = (zs, z)" by fastforce
    have v: "bval zs + 2 ^ (32 * ?w) * unat z = value_of b * 2 ^ ?k" "length zs = ?w"
      using shl_row_value [of ?k 0 "digits b"] False ok r by (simp_all add: value_of_def)
    show ?thesis
    proof (cases "z = 0")
      case True
      have "last zs \<noteq> 0" if pos: "0 < value_of b"
      proof
        assume l: "last zs = 0"
        have ne: "zs \<noteq> []" using v(2) ok(2) by auto
        then have bz: "bval zs = bval (butlast zs)"
          using l by (metis append_butlast_last_id bval_append bval.simps mult_0_right add_0_right unsigned_0)
        have "2 ^ (32 * (?w - 1)) \<le> value_of b"
        proof (cases "?w = 1")
          case False
          then show ?thesis using normal_top [OF b] ok(2) by simp
        qed (use pos in simp)
        then have "2 ^ (32 * (?w - 1)) * 1 \<le> value_of b * 2 ^ ?k" by (intro mult_le_mono) simp_all
        then have "2 ^ (32 * (?w - 1)) \<le> bval (butlast zs)" using v(1) True bz by simp
        then show False using bval_less [of "butlast zs"] v(2) by simp
      qed
      then show ?thesis
        using False True r v by (intro that [of "zs @ [z]" "?n + ?w + 1"]) auto
    next
      case z: False
      then show ?thesis
        using False r v by (intro that [of "zs @ [z]" "?n + ?w + 1 + 1"]) (auto simp: bval_append)
    qed
  qed
  let ?xs = "replicate ?n 0 @ ys"
  let ?r = "b1\<lparr>bg_x := ?xs, bg_wds := n1 - 1\<rparr>"
  have "length ?xs \<le> bg_maxwds b1" using y(2) cap by simp
  then have p: "put_digits b1 ?xs = Inr (b1\<lparr>bg_x := ?xs\<rparr>)" by (rule put_digits_fresh [OF B(3)])
  have L: "lshift b k al = Inr (?r, Bfree (Some b) al1)"
    by (simp only: lshift_def do_digits_ok [OF ok] bindR_Inr Let_def B(1) prod.case y(1) [unfolded Let_def] p)
  have okr: "bg_ok ?r" using y(2,3) cap by (simp add: bg_ok_def bg_maxwds_def)
  have d: "digits ?r = replicate ?n 0 @ take (n1 - 1 - ?n) ys"
    using y(4) by (simp add: digits_def)
  have ne: "ys \<noteq> []" "\<not> n1 - 1 \<le> ?n" using y(3,4) ok(2) by auto
  have "2 ^ (32 * ?n) * (2 ^ ?k) = (2 ^ k :: nat)"
    by (simp flip: power_add)
  then have "value_of ?r = value_of b * 2 ^ k"
    unfolding value_of_def d using y(5) by (simp add: bval_append value_of_def ac_simps)
  moreover have "0 < value_of b \<longrightarrow> normal ?r"
    using y(4,6) okr d ok(2) ne by (auto simp: normal_def last_append)
  ultimately show ?thesis using L okr Balloc_p5s [OF B(1)] by auto
qed

section \<open>Comparing and subtracting\<close>

lemma cmp_value:
  assumes "normal a" "normal b"
  shows "\<exists>c. cmp a b = Inr c \<and> (c < 0 \<longleftrightarrow> value_of a < value_of b) \<and> (c = 0 \<longleftrightarrow> value_of a = value_of b)"
proof -
  have smaller: "value_of u < value_of v" if "normal u" "normal v" "bg_wds u < bg_wds v" for u v
  proof -
    have "value_of u < 2 ^ (32 * bg_wds u)" by (rule value_less [OF normal_ok [OF that(1)]])
    also have "\<dots> \<le> 2 ^ (32 * (bg_wds v - 1))" using that(3) by (intro power_increasing) simp_all
    also have "\<dots> \<le> value_of v" using that normal_pos [OF that(1)] by (intro normal_top) simp_all
    finally show ?thesis .
  qed
  show ?thesis
  proof (cases "bg_wds a = bg_wds b")
    case True
    have "length (rev (digits a)) = length (rev (digits b))" using True assms normal_ok by simp
    note cmp_top_value [OF this]
    moreover have "bg_wds b \<noteq> 0" using normal_pos [OF assms(2)] by simp
    ultimately show ?thesis using True by (simp add: cmp_def value_of_def)
  next
    case False
    then show ?thesis
      using smaller [OF assms] smaller [OF assms(2,1)] by (cases "bg_wds a < bg_wds b") (auto simp: cmp_def)
  qed
qed

lemma diff_lemma:
  assumes a: "normal a" and b: "normal b"
  shows "\<exists>c al'. diff a b al = Inr (c, al') \<and> normal c \<and>
    int (value_of c) = \<bar>int (value_of a) - int (value_of b)\<bar> \<and>
    bg_sign c = (if value_of a < value_of b then 1 else 0) \<and> al_p5s al' = al_p5s al"
proof -
  obtain i where i: "cmp a b = Inr i" "i < 0 \<longleftrightarrow> value_of a < value_of b" "i = 0 \<longleftrightarrow> value_of a = value_of b"
    using cmp_value [OF a b] by blast
  show ?thesis
  proof (cases "i = 0")
    case True
    obtain c al' where B: "Balloc 0 al = (c, al')" "bg_wds c = 0" "bg_sign c = 0" "bg_x c = []" "bg_maxwds c = 2 ^ 0"
      by (rule Balloc_obtain [of 0 al]) simp
    let ?r = "c\<lparr>bg_wds := 1, bg_x := [0]\<rparr>"
    have "diff a b al = Inr (?r, al')"
      using B True by (simp add: diff_def i(1) put_digit_def bg_maxwds_def)
    moreover have "digits ?r = [0]" "bg_ok ?r" using B(5) by (simp_all add: digits_def bg_ok_def bg_maxwds_def)
    ultimately show ?thesis
      using i(3) True B(3) Balloc_p5s [OF B(1)] by (auto simp: normal_def value_of_def)
  next
    case False
    obtain u v sgn where uv: "(if i < 0 then (b, a, 1) else (a, b, 0 :: int)) = (u, v, sgn)"
      "normal u" "normal v" "value_of v < value_of u" "sgn = (if value_of a < value_of b then 1 else 0)"
      "int (value_of u) - int (value_of v) = \<bar>int (value_of a) - int (value_of b)\<bar>"
      using a b i False by (cases "i < 0") auto
    obtain d where d: "cmp v u = Inr d" "d < 0" using cmp_value [OF uv(3,2)] uv(4) by auto
    have w: "bg_wds v \<le> bg_wds u" using d by (auto simp: cmp_def Let_def split: if_splits)
    note ok = normal_ok [OF uv(2)] normal_ok [OF uv(3)]
    obtain c al' where B: "Balloc (bg_k u) al = (c, al')" "bg_wds c = 0" "bg_x c = []" "bg_maxwds c = 2 ^ bg_k u"
      by (rule Balloc_obtain [of "bg_k u" al]) simp
    define zs where "zs = sub_loop 0 (digits u) (digits v)"
    have z: "bval zs = value_of u - value_of v" "length zs = bg_wds u"
      using sub_loop_exact [of "digits v" "digits u"] w ok uv(4) by (simp_all add: zs_def value_of_def)
    have ne: "strip_top zs \<noteq> []" using z(1) uv(4) by (simp add: strip_top_Nil)
    let ?r = "c\<lparr>bg_sign := sgn, bg_x := zs, bg_wds := length (strip_top zs)\<rparr>"
    have "length zs \<le> bg_maxwds (c\<lparr>bg_sign := sgn\<rparr>)"
      using z(2) ok(1) B(4) by (simp add: bg_ok_def bg_maxwds_def)
    then have p: "put_digits (c\<lparr>bg_sign := sgn\<rparr>) zs = Inr (c\<lparr>bg_sign := sgn, bg_x := zs\<rparr>)"
      using B(3) by (subst put_digits_fresh) simp_all
    have "diff a b al = Inr (?r, al')"
      by (simp only: diff_def i(1) bindR_Inr False if_False uv(1) prod.case Let_def B(1)
          do_digits_ok [OF ok(2) normal_pos [OF uv(3)]] zs_def [symmetric] p ne)
    moreover have dr: "digits ?r = strip_top zs" using strip_top_take [of zs] by (simp add: digits_def)
    moreover have "bg_ok ?r"
      using length_strip_top [of zs] z(2) ok(1) B(4) by (simp add: bg_ok_def bg_maxwds_def)
    moreover have "int (value_of ?r) = \<bar>int (value_of a) - int (value_of b)\<bar>"
      using z(1) uv(4,6) dr by (simp add: value_of_def)
    ultimately show ?thesis
      using uv(5) ne strip_top_last [OF ne] Balloc_p5s [OF B(1)] by (auto simp: normal_def Suc_le_eq)
  qed
qed

end
