(* ===== verification/Bigint_Quorem.thy ===== *)
theory Bigint_Quorem
  imports Bigint_Ops
begin

text \<open>
  \<open>quorem\<close> (src/src/common/dtoa.cc): one decimal digit of a quotient by an estimate from the top
  digits, one subtraction of the estimated multiple and at most one correction.
\<close>

section \<open>Trimming\<close>

lemma trim_wds_le: "trim_wds xs n \<le> n"
  by (induction xs n rule: trim_wds.induct) auto

lemma trim_wds_pos: "0 < n \<Longrightarrow> 0 < trim_wds xs n"
  by (induction xs n rule: trim_wds.induct) auto

lemma trim_wds_value: "n \<le> length xs \<Longrightarrow> bval (take (trim_wds xs n) xs) = bval (take n xs)"
  by (induction xs n rule: trim_wds.induct) (auto simp: take_Suc_conv_app_nth bval_append)

lemma trim_wds_top: "1 < trim_wds xs n \<Longrightarrow> xs ! (trim_wds xs n - 1) \<noteq> 0"
  by (induction xs n rule: trim_wds.induct) (auto split: if_splits)

lemma last_take: "0 < n \<Longrightarrow> n \<le> length xs \<Longrightarrow> last (take n xs) = xs ! (n - 1)"
  by (cases n) (simp_all add: take_Suc_conv_app_nth)

text \<open>A remainder: normal, or zero with no digit left.\<close>

definition remainder_ok :: "bigint \<Rightarrow> bool" where
  "remainder_ok b \<longleftrightarrow> bg_ok b \<and> (normal b \<or> bg_wds b = 0)"

lemma trim_value:
  assumes "Suc n \<le> length xs" "length xs \<le> bg_maxwds b" "bg_wds b = Suc n" "trim b xs n = (b', n')"
  shows "value_of b' = bval (take (Suc n) xs)" "remainder_ok b'" "bg_maxwds b' = bg_maxwds b"
    "if xs ! n = 0 then bg_wds b' < Suc n else n' = n \<and> bg_wds b' = Suc n \<and> bg_x b' = xs"
proof -
  show "bg_maxwds b' = bg_maxwds b" using assms(4) by (auto simp: trim_def bg_maxwds_def split: if_splits)
  show "if xs ! n = 0 then bg_wds b' < Suc n else n' = n \<and> bg_wds b' = Suc n \<and> bg_x b' = xs"
    using assms(3,4) trim_wds_le [of xs n] by (auto simp: trim_def)
  have "value_of b' = bval (take (Suc n) xs) \<and> remainder_ok b'"
  proof (cases "xs ! n = 0")
    case True
    let ?t = "trim_wds xs n"
    have b': "b' = b\<lparr>bg_x := xs, bg_wds := ?t\<rparr>" using assms(4) True by (auto simp: trim_def)
    have d: "digits b' = take ?t xs" by (simp add: b' digits_def)
    have le: "?t \<le> length xs" using trim_wds_le [of xs n] assms(1) by simp
    have "bval (take (Suc n) xs) = bval (take n xs)"
      using True assms(1) by (simp add: take_Suc_conv_app_nth bval_append)
    then have v: "value_of b' = bval (take (Suc n) xs)"
      using trim_wds_value [of n xs] assms(1) by (simp add: value_of_def d)
    have ok: "bg_ok b'" using le assms(2) by (simp add: b' bg_ok_def bg_maxwds_def)
    have "normal b' \<or> bg_wds b' = 0"
    proof (cases "?t \<le> 1")
      case True
      then show ?thesis using ok by (auto simp: normal_def b')
    next
      case False
      then have "last (digits b') \<noteq> 0"
        using trim_wds_top [of xs n] le by (simp add: d last_take)
      then show ?thesis using ok False by (simp add: normal_def b')
    qed
    then show ?thesis using v ok by (simp add: remainder_ok_def)
  next
    case False
    then have b': "b' = b\<lparr>bg_x := xs\<rparr>" using assms(4) by (auto simp: trim_def)
    have d: "digits b' = take (Suc n) xs" using assms(3) by (simp add: b' digits_def)
    have "bg_ok b'" using assms(1-3) by (simp add: b' bg_ok_def bg_maxwds_def)
    moreover have "last (digits b') \<noteq> 0" using False assms(1) last_take [of "Suc n" xs] by (simp add: d)
    ultimately show ?thesis using assms(3) d by (simp add: remainder_ok_def normal_def value_of_def b')
  qed
  then show "value_of b' = bval (take (Suc n) xs)" "remainder_ok b'" by simp_all
qed

lemma submul_prefix:
  "length ss \<le> length bs \<Longrightarrow>
    take (length ss) (submul_loop q c b ss bs) = submul_loop q c b ss (take (length ss) bs)"
  by (induction q c b ss bs rule: submul_loop.induct) (simp_all add: Let_def)

text \<open>Subtracting a multiple of \<open>S\<close> that is not larger than \<open>b\<close>, and trimming.\<close>

lemma submul_trim:
  assumes b: "bg_ok b" "bg_wds b = Suc n" and S: "bg_ok S" "bg_wds S = Suc n"
    and q: "unat q < 2 ^ 32" "unat q * value_of S \<le> value_of b"
    and t: "trim b (submul_loop q 0 0 (digits S) (bg_x b)) n = (b', n')"
  shows "value_of b' = value_of b - unat q * value_of S" "remainder_ok b'"
    "bg_wds b' < Suc n \<or> n' = n \<and> bg_wds b' = Suc n"
proof -
  let ?xs = "submul_loop q 0 0 (digits S) (bg_x b)"
  have l: "length (digits S) = Suc n" "Suc n \<le> length (bg_x b)" "length (bg_x b) \<le> bg_maxwds b"
    using b S by (simp_all add: bg_ok_def digits_def)
  have "take (Suc n) ?xs = submul_loop q 0 0 (digits S) (digits b)"
    using submul_prefix [of "digits S" "bg_x b" q 0 0] l b(2) by (simp add: digits_def)
  moreover have "bval (submul_loop q 0 0 (digits S) (digits b)) = value_of b - unat q * value_of S"
    using submul_exact [OF q(1), of "digits S" "digits b"] b S q(2) by (simp add: value_of_def)
  moreover have "Suc n \<le> length ?xs" "length ?xs \<le> bg_maxwds b" using l by simp_all
  note tr = trim_value [OF this b(2) t]
  ultimately show "value_of b' = value_of b - unat q * value_of S" using tr(1) by simp
  show "remainder_ok b'" by (rule tr(2))
  show "bg_wds b' < Suc n \<or> n' = n \<and> bg_wds b' = Suc n" using tr(4) by (auto split: if_splits)
qed

section \<open>The estimate\<close>

lemma estimate:
  fixes bt bl st sl B :: nat
  assumes "bl < B" "sl < B" "10 \<le> st" "bt * B + bl < 10 * (st * B + sl)"
  defines "q \<equiv> bt div (st + 1)"
  shows "q * (st * B + sl) \<le> bt * B + bl" "bt * B + bl < (q + 2) * (st * B + sl)" "q \<le> 9"
proof -
  let ?S = "st * B + sl" and ?b = "bt * B + bl"
  have "?S \<le> (st + 1) * B" using assms(2) by simp
  then have "q * ?S \<le> q * ((st + 1) * B)" by (rule mult_le_mono2)
  also have "\<dots> \<le> bt * B"
    using div_times_less_eq_dividend [of bt "st + 1"] by (simp only: q_def mult.assoc [symmetric] mult_le_mono1)
  finally show 1: "q * ?S \<le> ?b" by simp
  have "q * ?S < 10 * ?S" by (rule le_less_trans [OF 1 assms(4)])
  then have "q < 10" by (simp only: mult_less_cancel2)
  then show 9: "q \<le> 9" by simp
  have "bt < (q + 1) * (st + 1)" using dividend_less_times_div [of "st + 1" bt] by (simp add: q_def algebra_simps)
  then have "bt + 1 \<le> (q + 1) * st + q + 1" by simp
  also have "\<dots> \<le> (q + 2) * st" using assms(3) 9 by simp
  finally have "(bt + 1) * B \<le> (q + 2) * st * B" by (rule mult_le_mono1)
  then show "?b < (q + 2) * ?S" using assms(1) by (simp add: algebra_simps)
qed

lemma top_split:
  assumes "bg_ok b" "bg_wds b = Suc n"
  shows "value_of b = unat (digits b ! n) * 2 ^ (32 * n) + bval (take n (digits b))"
    "bval (take n (digits b)) < 2 ^ (32 * n)"
proof -
  have l: "length (digits b) = Suc n" using assms by simp
  then have "digits b = take n (digits b) @ [digits b ! n]"
    using take_Suc_conv_app_nth [of n "digits b"] by simp
  then have "value_of b = bval (take n (digits b) @ [digits b ! n])" unfolding value_of_def by (rule arg_cong)
  then show "value_of b = unat (digits b ! n) * 2 ^ (32 * n) + bval (take n (digits b))"
    using l by (simp add: bval_append)
  show "bval (take n (digits b)) < 2 ^ (32 * n)"
    using bval_less [of "take n (digits b)"] l by simp
qed

text \<open>Comparing a remainder with the divisor.\<close>

lemma cmp_remainder:
  assumes "remainder_ok b" "normal S" "0 < value_of S"
  obtains c where "cmp b S = Inr c" "c < 0 \<longleftrightarrow> value_of b < value_of S"
proof (cases "normal b")
  case True
  then show ?thesis using cmp_value [OF True assms(2)] that by blast
next
  case False
  then have "bg_wds b = 0" using assms(1) by (simp add: remainder_ok_def)
  then show ?thesis
    using that [of "- int (bg_wds S)"] normal_pos [OF assms(2)] assms(3)
    by (simp add: cmp_def value_of_def digits_def)
qed

lemma quorem_lemma:
  assumes b: "remainder_ok b" "bg_wds b \<le> bg_wds S" and S: "normal S"
    and top: "10 \<le> unat (last (digits S))" "last (digits S) \<noteq> - 1"
    and small: "value_of b < 10 * value_of S"
  shows "\<exists>q b'. quorem b S = Inr (q, b') \<and> unat q = value_of b div value_of S \<and>
    value_of b' = value_of b mod value_of S \<and> remainder_ok b'"
proof -
  have okb: "bg_ok b" and okS: "bg_ok S" using b(1) normal_ok [OF S] by (simp_all add: remainder_ok_def)
  have posS: "0 < value_of S" using small by (cases "value_of S") simp_all
  obtain n where n: "bg_wds S = Suc n" using normal_pos [OF S] by (cases "bg_wds S") auto
  have lS: "length (digits S) = Suc n" using okS n by simp
  then have neS: "digits S \<noteq> []" by auto
  have last: "last (digits S) = digits S ! n" using lS by (simp add: last_conv_nth [OF neS])
  show ?thesis
  proof (cases "bg_wds b < bg_wds S")
    case True
    obtain c where "cmp b S = Inr c" "c < 0 \<longleftrightarrow> value_of b < value_of S" by (rule cmp_remainder [OF b(1) S posS])
    then have "value_of b < value_of S" using True by (auto simp: cmp_def)
    then show ?thesis using True b(1) by (simp add: quorem_def)
  next
    case False
    then have nb: "bg_wds b = Suc n" using b(2) n by simp
    let ?bt = "digits b ! n" and ?st = "digits S ! n" and ?B = "2 ^ (32 * n) :: nat"
    have x: "bg_x b ! n = ?bt" using nb by (simp add: digits_def)
    have st1: "?st + 1 \<noteq> 0" using top(2) last by (metis eq_neg_iff_add_eq_0)
    have st: "unat (?st + 1) = unat ?st + 1" using unatSuc [of ?st] st1 by (simp add: add.commute)
    define q where "q = ?bt div (?st + 1)"
    have uq: "unat q = unat ?bt div (unat ?st + 1)" by (simp only: q_def unat_div_distrib st)
    note sb = top_split [OF okb nb] and sS = top_split [OF okS n]
    have t10: "10 \<le> unat ?st" using top(1) by (simp only: last)
    note e = estimate [OF sb(2) sS(2) t10 small [unfolded sb(1) sS(1)]]
    have est: "unat q * value_of S \<le> value_of b" "value_of b < (unat q + 2) * value_of S" "unat q \<le> 9"
      unfolding uq sb(1) sS(1) by (rule e(1), rule e(2), rule e(3))
    have q64: "unat (ucast q :: 64 word) = unat q" by simp
    define r where "r = (if q \<noteq> 0 then trim b (submul_loop (ucast q) 0 0 (digits S) (bg_x b)) n else (b, n))"
    obtain b1 n1 where r: "r = (b1, n1)" by (cases r)
    have b1: "value_of b1 = value_of b - unat q * value_of S" "remainder_ok b1" "bg_wds b1 < Suc n \<or> n1 = n \<and> bg_wds b1 = Suc n"
    proof -
      have "value_of b1 = value_of b - unat q * value_of S \<and> remainder_ok b1 \<and> (bg_wds b1 < Suc n \<or> n1 = n \<and> bg_wds b1 = Suc n)"
      proof (cases "q = 0")
        case True
        then show ?thesis using r b(1) nb by (simp add: r_def)
      next
        case False
        have lt: "unat (ucast q :: 64 word) < 2 ^ 32" using unat32 [of q] by simp
        have t: "trim b (submul_loop (ucast q) 0 0 (digits S) (bg_x b)) n = (b1, n1)" using r False by (simp add: r_def)
        show ?thesis
          using submul_trim [OF okb nb okS n lt _ t] est(1) by (simp add: q64)
      qed
      then show "value_of b1 = value_of b - unat q * value_of S" "remainder_ok b1"
        "bg_wds b1 < Suc n \<or> n1 = n \<and> bg_wds b1 = Suc n" by simp_all
    qed
    obtain c where c: "cmp b1 S = Inr c" "c < 0 \<longleftrightarrow> value_of b1 < value_of S" by (rule cmp_remainder [OF b1(2) S posS])
    have unf: "quorem b S = (if c \<ge> 0 then Inr (q + 1, fst (trim b1 (sub_once_loop 0 0 (digits S) (bg_x b1)) n1)) else Inr (q, b1))"
      using nb n st1 c(1) r by (simp add: quorem_def x q_def [symmetric] r_def [symmetric])
    have dm: "value_of b div value_of S = unat q + t \<and> value_of b mod value_of S = value_of b - (unat q + t) * value_of S"
      if "(unat q + t) * value_of S \<le> value_of b" "value_of b < (unat q + t + 1) * value_of S" for t
    proof -
      have d: "value_of b div value_of S = unat q + t" using that by (intro div_nat_eqI) (simp_all add: mult.commute)
      then show ?thesis using minus_div_mult_eq_mod [of "value_of b" "value_of S"] by simp
    qed
    show ?thesis
    proof (cases "c < 0")
      case True
      then have "value_of b < (unat q + 0 + 1) * value_of S" using b1(1) c(2) est(1) by simp
      then show ?thesis using True unf dm [of 0] est(1) b1(1,2) by simp
    next
      case False
      then have ge: "value_of S \<le> value_of b1" using c(2) by simp
      have n1: "n1 = n" "bg_wds b1 = Suc n"
        using b1(3) False c(1) n by (auto simp: cmp_def Let_def split: if_splits)
      obtain b2 n2 where t: "trim b1 (sub_once_loop 0 0 (digits S) (bg_x b1)) n1 = (b2, n2)" by fastforce
      have okb1: "bg_ok b1" using b1(2) by (simp add: remainder_ok_def)
      have b2: "value_of b2 = value_of b1 - value_of S" "remainder_ok b2"
        using submul_trim [OF okb1 n1(2) okS n, of 1 b2 n2] t ge n1(1) by (simp_all add: sub_once_submul)
      have "q + 1 \<noteq> 0"
      proof
        assume "q + 1 = 0"
        then have "q = - 1" by (metis eq_neg_iff_add_eq_0)
        then show False using est(3) by (simp add: unsigned_minus_1_eq_mask mask_eq_exp_minus_1)
      qed
      then have "unat (q + 1) = unat q + 1" using unatSuc [of q] by (simp add: add.commute)
      moreover have "(unat q + 1) * value_of S \<le> value_of b" using ge b1(1) est(1) posS by simp
      moreover have "value_of b < (unat q + 1 + 1) * value_of S" using est(2) by simp
      ultimately show ?thesis
        using False unf t b2 dm [of 1] b1(1) by simp
    qed
  qed
qed

end
