(* ===== verification/Dtoa_Bits.thy ===== *)
theory Dtoa_Bits
  imports Bigint_Quorem
begin

text \<open>
  The bit-level routines of src/src/common/dtoa.cc: counting zero bits, taking a \<open>double\<close> apart
  into a number and an exponent and putting one together, the parts of \<open>strtod\<close> that recognise
  names and hexadecimal NaNs, and the allocation of result strings. A \<open>double\<close> is the pair of
  its high and low words.
\<close>

section \<open>Counting zero bits\<close>

lemma and_mask_zero:
  fixes x :: "32 word"
  shows "(x AND mask n = 0) = (2 ^ n dvd unat x)"
proof -
  have "(x AND mask n = 0) = (unat (take_bit n x) = 0)" by (simp add: take_bit_eq_mask unat_eq_0)
  also have "\<dots> = (unat x mod 2 ^ n = 0)" by (simp only: unsigned_take_bit_eq take_bit_eq_mod [of n "unat x"])
  finally show ?thesis by (simp add: dvd_eq_mod_eq_0)
qed

lemma mask_literals:
  "(0xffff :: 32 word) = mask 16" "(0xff :: 32 word) = mask 8" "(0xf :: 32 word) = mask 4"
  "(0x3 :: 32 word) = mask 2" "(1 :: 32 word) = mask 1" "(7 :: 32 word) = mask 3"
  by (simp_all add: mask_eq_exp_minus_1)

lemma unat_drop: "unat (drop_bit n (x :: 32 word)) = unat x div 2 ^ n"
  by (simp only: unat_drop_bit_eq drop_bit_eq_div [of n "unat x"])

lemma lo_stage:
  fixes x y :: "32 word"
  assumes "\<not> 2 ^ (2 * n) dvd unat x" "unat y = unat x * 2 ^ k"
    and "(if x AND mask n = 0 then (k + n, drop_bit n x) else (k, x)) = (k', x')"
  shows "unat y = unat x' * 2 ^ k' \<and> \<not> 2 ^ n dvd unat x'"
proof (cases "2 ^ n dvd unat x")
  case True
  then obtain v where v: "unat x = 2 ^ n * v" by auto
  then have x': "k' = k + n" "unat x' = v" using True assms(3) by (auto simp: and_mask_zero unat_drop)
  have "\<not> 2 ^ n dvd v"
  proof
    assume "2 ^ n dvd v"
    then have "2 ^ n * 2 ^ n dvd unat x" unfolding v by (intro mult_dvd_mono) simp_all
    then show False using assms(1) by (simp add: mult_2 power_add)
  qed
  then show ?thesis using x' assms(2) v by (simp add: power_add ac_simps)
qed (use assms(2,3) in \<open>auto simp: and_mask_zero\<close>)

lemma lo0bits_value:
  assumes "y \<noteq> 0" "lo0bits y = (k, x)"
  shows "unat y = unat x * 2 ^ k \<and> odd (unat x)"
proof -
  have odd1: "(w AND 1 \<noteq> 0) = odd (unat w)" for w :: "32 word"
    using and_mask_zero [of w 1] by (simp add: mask_literals(5) [symmetric])
  show ?thesis
  proof (cases "y AND 7 = 0")
    case False
    have n8: "\<not> 2 ^ 3 dvd unat y" using False and_mask_zero [of y 3] by (simp add: mask_literals(6))
    have b2: "(y AND 2 = 0) = even (unat y div 2)"
    proof -
      have "(y AND 2 = 0) = (\<not> bit y 1)"
        using and_exp_eq_0_iff_not_bit [of y 1] by simp
      moreover have "bit y 1 = bit (unat y) 1" by (simp add: bit_unsigned_iff)
      moreover have "bit (unat y) 1 = odd (unat y div 2)" by (simp only: bit_iff_odd) simp
      ultimately show ?thesis by simp
    qed
    consider "odd (unat y)" | "even (unat y)" "odd (unat y div 2)" | "even (unat y)" "even (unat y div 2)" by blast
    then show ?thesis
    proof cases
      case 1
      then show ?thesis using assms(2) False by (simp add: lo0bits_def odd1)
    next
      case 2
      then show ?thesis using assms(2) False odd1 [of y] b2 by (auto simp: lo0bits_def unat_drop)
    next
      case 3
      then obtain a where a: "unat y = 2 * a" "even a" by (auto elim!: evenE)
      then obtain v where v: "unat y = 4 * v" by (auto elim!: evenE)
      have "odd v"
      proof
        assume "even v"
        then show False using n8 v by auto
      qed
      then show ?thesis using assms(2) False 3 odd1 [of y] b2 v by (auto simp: lo0bits_def unat_drop)
    qed
  next
    case True
    obtain k1 x1 where 1: "(if y AND mask 16 = 0 then (16, drop_bit 16 y) else (0 :: nat, y)) = (k1, x1)" by fastforce
    obtain k2 x2 where 2: "(if x1 AND mask 8 = 0 then (k1 + 8, drop_bit 8 x1) else (k1, x1)) = (k2, x2)" by fastforce
    obtain k3 x3 where 3: "(if x2 AND mask 4 = 0 then (k2 + 4, drop_bit 4 x2) else (k2, x2)) = (k3, x3)" by fastforce
    obtain k4 x4 where 4: "(if x3 AND mask 2 = 0 then (k3 + 2, drop_bit 2 x3) else (k3, x3)) = (k4, x4)" by fastforce
    have "\<not> 2 ^ (2 * 16) dvd unat y" using assms(1) unat32 [of y] by (auto simp: unat_eq_0 dest: dvd_imp_le)
    moreover have "(if y AND mask 16 = 0 then (0 + 16, drop_bit 16 y) else (0, y)) = (k1, x1)" using 1 by (auto split: if_splits)
    ultimately have s1': "unat y = unat x1 * 2 ^ k1" "\<not> 2 ^ (2 * 8) dvd unat x1"
      using lo_stage [of 16 y y 0 k1 x1] by simp_all
    have s2: "unat y = unat x2 * 2 ^ k2" "\<not> 2 ^ (2 * 4) dvd unat x2" using lo_stage [OF s1'(2,1) 2] by simp_all
    have s3: "unat y = unat x3 * 2 ^ k3" "\<not> 2 ^ (2 * 2) dvd unat x3" using lo_stage [OF s2(2,1) 3] by simp_all
    have s4: "unat y = unat x4 * 2 ^ k4" "\<not> 2 ^ (2 * 1) dvd unat x4" using lo_stage [OF s3(2,1) 4] by simp_all
    obtain k5 x5 where 5: "(if x4 AND mask 1 = 0 then (k4 + 1, drop_bit 1 x4) else (k4, x4)) = (k5, x5)" by fastforce
    have s5: "unat y = unat x5 * 2 ^ k5" "odd (unat x5)" using lo_stage [OF s4(2,1) 5] by simp_all
    have nz: "x5 \<noteq> 0" using s5(2) by auto
    have "lo0bits y = (k5, x5)"
    proof -
      have "lo0bits y = (if x4 AND mask 1 = 0 then if drop_bit 1 x4 = 0 then (32, y) else (k4 + 1, drop_bit 1 x4)
          else (k4, x4))"
        using True by (simp only: lo0bits_def Let_def mask_literals 1 2 3 4 prod.case not_not if_False simp_thms)
      also have "\<dots> = (k5, x5)" using 5 nz by (auto split: if_splits)
      finally show ?thesis .
    qed
    then show ?thesis using s5 assms(2) by simp
  qed
qed

lemma and_high_zero:
  fixes x :: "32 word"
  shows "(x AND NOT (mask n) = 0) = (unat x < 2 ^ n)"
proof -
  have "(x AND NOT (mask n) = 0) = (take_bit n x = x)"
    by (auto simp: bit_eq_iff bit_simps)
  also have "\<dots> = (unat (take_bit n x) = unat x)" by (simp only: word_unat_eq_iff)
  also have "\<dots> = (unat x mod 2 ^ n = unat x)" by (simp only: unsigned_take_bit_eq take_bit_eq_mod [of n "unat x"])
  finally show ?thesis by (metis mod_less mod_less_divisor zero_less_numeral zero_less_power)
qed

lemma high_literals:
  "(0xffff0000 :: 32 word) = NOT (mask 16)" "(0xff000000 :: 32 word) = NOT (mask 24)"
  "(0xf0000000 :: 32 word) = NOT (mask 28)" "(0xc0000000 :: 32 word) = NOT (mask 30)"
  "(0x80000000 :: 32 word) = NOT (mask 31)"
  by (simp_all add: mask_eq_exp_minus_1)

lemma hi_stage:
  fixes x y :: "32 word"
  assumes "2 ^ (32 - 2 * n) \<le> unat x" "unat x = unat y * 2 ^ k" "n \<le> 16"
    and "(if x AND NOT (mask (32 - n)) = 0 then (k + n, push_bit n x) else (k, x)) = (k', x')"
  shows "2 ^ (32 - n) \<le> unat x' \<and> unat x' = unat y * 2 ^ k'"
proof (cases "unat x < 2 ^ (32 - n)")
  case True
  have "unat x * 2 ^ n < 2 ^ (32 - n) * 2 ^ n" using True by simp
  also have "\<dots> = 2 ^ 32" using assms(3) by (simp flip: power_add)
  finally have "unat (push_bit n x) = unat x * 2 ^ n"
    by (simp only: unsigned_push_bit_eq push_bit_eq_mult [of n "unat x"]) (simp add: take_bit_nat_eq_self)
  moreover have "2 ^ (32 - 2 * n) * 2 ^ n \<le> unat x * 2 ^ n" using assms(1) by simp
  moreover have "(2 ^ (32 - 2 * n) * 2 ^ n :: nat) = 2 ^ (32 - n)" using assms(3) by (simp flip: power_add)
  ultimately have "2 ^ (32 - n) \<le> unat (push_bit n x)" "unat (push_bit n x) = unat y * 2 ^ (k + n)"
    using assms(2) by (simp_all add: power_add)
  then show ?thesis using assms(4) True by (auto simp: and_high_zero)
next
  case False
  then show ?thesis using assms(2,4) by (auto simp: and_high_zero)
qed

lemma hi0bits_value:
  assumes "y \<noteq> 0"
  shows "2 ^ 31 \<le> unat y * 2 ^ hi0bits y \<and> unat y * 2 ^ hi0bits y < 2 ^ 32"
proof -
  obtain k1 x1 where 1: "(if y AND NOT (mask (32 - 16)) = 0 then (16, push_bit 16 y) else (0 :: nat, y)) = (k1, x1)" by fastforce
  obtain k2 x2 where 2: "(if x1 AND NOT (mask (32 - 8)) = 0 then (k1 + 8, push_bit 8 x1) else (k1, x1)) = (k2, x2)" by fastforce
  obtain k3 x3 where 3: "(if x2 AND NOT (mask (32 - 4)) = 0 then (k2 + 4, push_bit 4 x2) else (k2, x2)) = (k3, x3)" by fastforce
  obtain k4 x4 where 4: "(if x3 AND NOT (mask (32 - 2)) = 0 then (k3 + 2, push_bit 2 x3) else (k3, x3)) = (k4, x4)" by fastforce
  have "2 ^ (32 - 2 * 16) \<le> unat y" using assms by (simp add: Suc_le_eq unat_gt_0)
  moreover have "(if y AND NOT (mask (32 - 16)) = 0 then (0 + 16, push_bit 16 y) else (0, y)) = (k1, x1)" using 1 by (auto split: if_splits)
  ultimately have s1: "2 ^ (32 - 2 * 8) \<le> unat x1" "unat x1 = unat y * 2 ^ k1"
    using hi_stage [of 16 y y 0 k1 x1] by simp_all
  have s2: "2 ^ (32 - 2 * 4) \<le> unat x2" "unat x2 = unat y * 2 ^ k2" using hi_stage [OF s1 _ 2] by simp_all
  have s3: "2 ^ (32 - 2 * 2) \<le> unat x3" "unat x3 = unat y * 2 ^ k3" using hi_stage [OF s2 _ 3] by simp_all
  have s4: "2 ^ 30 \<le> unat x4" "unat x4 = unat y * 2 ^ k4" using hi_stage [OF s3 _ 4] by simp_all
  have bit30: "x4 AND 0x40000000 \<noteq> 0" if "unat x4 < 2 ^ 31"
  proof -
    have "unat x4 div 2 ^ 30 = 1" using s4(1) that by (intro div_nat_eqI) simp_all
    then have "bit (unat x4) 30" by (simp only: bit_iff_odd) simp
    then have "bit x4 30" by (simp add: bit_unsigned_iff)
    then show ?thesis using and_exp_eq_0_iff_not_bit [of x4 30] by simp
  qed
  have h: "hi0bits y = (if x4 AND NOT (mask 31) = 0 then (if x4 AND 0x40000000 = 0 then 32 else k4 + 1) else k4)"
  proof -
    have e: "32 - 16 = (16 :: nat)" "32 - 8 = (24 :: nat)" "32 - 4 = (28 :: nat)" "32 - 2 = (30 :: nat)" by simp_all
    show ?thesis
      by (simp only: hi0bits_def Let_def high_literals 1 [unfolded e] 2 [unfolded e] 3 [unfolded e] 4 [unfolded e] prod.case)
  qed
  show ?thesis
  proof (cases "unat x4 < 2 ^ 31")
    case True
    then have "hi0bits y = k4 + 1" using h bit30 by (simp add: and_high_zero)
    then show ?thesis using s4 True by simp
  next
    case False
    then have "hi0bits y = k4" using h by (simp add: and_high_zero)
    then show ?thesis using s4 False unat32 [of x4] by simp
  qed
qed

end
