(* ===== verification/Dtoa_Digits.thy ===== *)
theory Dtoa_Digits
  imports Doubles Dtoa_Print Bigint_Quorem Dtoa_Bits
begin

text \<open>
  The digits that \<open>dtoa\<close> (src/src/common/dtoa.cc) prints for a given length are the decimal rounding
  of the quotient they come from, halves to even, without trailing zeros.
\<close>

section \<open>Digit strings\<close>

definition decimal :: "char list \<Rightarrow> nat" where
  "decimal = append_decimal 0"

fun rev_decimal :: "char list \<Rightarrow> nat" where
  "rev_decimal [] = 0"
| "rev_decimal (c # cs) = nat (digit_int c) + 10 * rev_decimal cs"

lemma decimal_snoc [simp]: "decimal (s @ [c]) = decimal s * 10 + nat (digit_int c)"
  by (simp add: decimal_def append_decimal_def)

lemma decimal_Nil [simp]: "decimal [] = 0"
  by (simp add: decimal_def append_decimal_def)

lemma decimal_rev: "decimal (rev r) = rev_decimal r"
  by (induction r) simp_all

lemma digit_of: "n \<le> 9 \<Longrightarrow> digit_int (char_of (n + 48 :: nat)) = int n"
  by (simp add: digit_int_def)

lemma digit_char_props:
  assumes "unat q \<le> 9"
  shows "digit_int (digit_char q) = int (unat q)" "dec_digit (digit_char q)" "digit_char q = CHR ''0'' \<longleftrightarrow> unat q = 0"
proof -
  show v: "digit_int (digit_char q) = int (unat q)" unfolding digit_char_def using assms by (rule digit_of)
  moreover have "int (unat q) \<le> 9" using assms by linarith
  ultimately show "dec_digit (digit_char q)" by (simp add: dec_digit_def)
  have z: "digit_int (CHR ''0'') = 0" "(char_of (0 + 48 :: nat) :: char) = CHR ''0''"
    by (simp_all add: digit_int_def char_of_def bit_0)
  show "digit_char q = CHR ''0'' \<longleftrightarrow> unat q = 0"
  proof
    assume "digit_char q = CHR ''0''"
    with v z(1) show "unat q = 0" by (simp only: of_nat_eq_0_iff)
  qed (simp only: digit_char_def z(2))
qed

lemma digit_code: "dec_digit c \<Longrightarrow> code c = nat (digit_int c) + 48"
  unfolding dec_digit_def digit_int_def code_def by linarith

lemma nine_val: "digit_int (CHR ''9'') = 9"
  by (simp add: digit_int_def)

lemma digit_below_nine:
  assumes "dec_digit c" "c \<noteq> CHR ''9''"
  shows "nat (digit_int c) < 9" "nat (digit_int (char_of (code c + 1))) = nat (digit_int c) + 1"
    "dec_digit (char_of (code c + 1))"
proof -
  have "code c \<noteq> code (CHR ''9'')" using assms(2) unfolding code_def by (metis char_of_char)
  moreover have "code (CHR ''9'') = 57" by (simp add: code_def)
  ultimately show l: "nat (digit_int c) < 9"
    using assms(1) digit_code [OF assms(1)] unfolding dec_digit_def by linarith
  have "code c + 1 = nat (digit_int c) + 1 + 48" using digit_code [OF assms(1)] by linarith
  then have "digit_int (char_of (code c + 1)) = int (nat (digit_int c) + 1)"
    using l by (simp only: digit_of)
  then show "nat (digit_int (char_of (code c + 1))) = nat (digit_int c) + 1" "dec_digit (char_of (code c + 1))"
    using l by (simp_all only: dec_digit_def nat_int) linarith
qed

section \<open>Rounding\<close>

lemma roundoff_rev_value:
  assumes "roundoff_rev r = (r', c)" "r \<noteq> []" "list_all dec_digit r"
  shows "(\<exists>e. length r' + e = length r + (if c then 1 else 0) \<and> rev_decimal r' * 10 ^ e = rev_decimal r + 1) \<and>
    r' \<noteq> [] \<and> list_all dec_digit r' \<and> hd r' \<noteq> CHR ''0'' \<and> length r' \<le> length r \<and>
    (last r \<noteq> CHR ''0'' \<longrightarrow> last r' \<noteq> CHR ''0'')"
  using assms
proof (induction r arbitrary: r' c rule: roundoff_rev.induct)
  case (2 d ds)
  consider "d \<noteq> CHR ''9''" | "d = CHR ''9''" "ds = []" | "d = CHR ''9''" "ds \<noteq> []" by blast
  then show ?case
  proof cases
    case 1
    note b = digit_below_nine [of d, OF _ 1]
    have "nat (digit_int (CHR ''0'')) = 0" by (simp add: digit_int_def)
    with 2 1 b show ?thesis by (auto split: if_splits)
  next
    case _: 2
    with 2 show ?thesis by (auto simp: nine_val dec_digit_def digit_int_def)
  next
    case 3
    with 2 obtain e where "length r' + e = length ds + (if c then 1 else 0)" "rev_decimal r' * 10 ^ e = rev_decimal ds + 1"
      and "r' \<noteq> [] \<and> list_all dec_digit r' \<and> hd r' \<noteq> CHR ''0'' \<and> length r' \<le> length ds \<and>
        (last ds \<noteq> CHR ''0'' \<longrightarrow> last r' \<noteq> CHR ''0'')" by auto
    with 3 show ?thesis by (intro conjI exI [of _ "Suc e"]) (auto simp: nine_val)
  qed
qed simp

lemma trim_rev_value:
  assumes "list_all dec_digit r" "0 < rev_decimal r" "r' = dropWhile (\<lambda>c. c = CHR ''0'') r"
  shows "\<exists>e. length r' + e = length r \<and> rev_decimal r' * 10 ^ e = rev_decimal r \<and> r' \<noteq> []"
  using assms
proof (induction r)
  case (Cons c cs)
  show ?case
  proof (cases "c = CHR ''0''")
    case True
    then have "rev_decimal (c # cs) = 10 * rev_decimal cs" by (simp add: digit_int_def)
    with Cons True obtain e where "length r' + e = length cs" "rev_decimal r' * 10 ^ e = rev_decimal cs" "r' \<noteq> []"
      by auto
    with \<open>rev_decimal (c # cs) = 10 * rev_decimal cs\<close> show ?thesis by (intro exI [of _ "Suc e"]) simp
  qed (use Cons in simp)
qed simp

text \<open>What a printed string must be: digits without zeros at the ends, for a value scaled by \<open>10 ^ m\<close>.\<close>

definition prints :: "char list \<Rightarrow> nat \<Rightarrow> nat \<Rightarrow> bool" where
  "prints s m v \<longleftrightarrow> s \<noteq> [] \<and> list_all dec_digit s \<and> hd s \<noteq> CHR ''0'' \<and> last s \<noteq> CHR ''0'' \<and> decimal s * 10 ^ m = v"

lemma roundoff_prints:
  assumes "s \<noteq> []" "list_all dec_digit s" "hd s \<noteq> CHR ''0''"
  shows "\<exists>s' k' m. roundoff s k = (s', k') \<and> length s' \<le> length s \<and> (k' = k \<or> k' = k + 1) \<and>
    int (length s' + m) = int (length s) + (k' - k) \<and> prints s' m (decimal s + 1)"
proof -
  obtain r c where r: "roundoff_rev (rev s) = (r, c)" by fastforce
  have ro: "roundoff s k = (rev r, if c then k + 1 else k)" by (simp add: roundoff_def r)
  obtain e where "length r + e = length s + (if c then 1 else 0)" "rev_decimal r * 10 ^ e = decimal s + 1"
    and "r \<noteq> []" "list_all dec_digit r" "hd r \<noteq> CHR ''0''" "length r \<le> length s" "last r \<noteq> CHR ''0''"
    using roundoff_rev_value [OF r] assms decimal_rev [of "rev s"] by (auto simp: last_rev)
  then show ?thesis
    unfolding ro by (intro exI [of _ "rev r"] exI [of _ "if c then k + 1 else k"] exI [of _ e])
      (auto simp: prints_def hd_rev last_rev decimal_rev)
qed

lemma trimzeros_prints:
  assumes "s \<noteq> []" "list_all dec_digit s" "hd s \<noteq> CHR ''0''" "0 < decimal s"
  shows "\<exists>s' m. trimzeros s = Inr s' \<and> length s' + m = length s \<and> prints s' m (decimal s)"
proof -
  define r where r: "r = dropWhile (\<lambda>c. c = CHR ''0'') (rev s)"
  have d: "decimal (rev (rev s)) = rev_decimal (rev s)" by (rule decimal_rev)
  obtain e where e: "length r + e = length s" "rev_decimal r * 10 ^ e = decimal s" "r \<noteq> []"
    using trim_rev_value [OF _ _ r] assms d by auto
  obtain p where p: "rev s = p @ r" unfolding r by (metis takeWhile_dropWhile_id)
  then have "last (rev s) = last r" using e(3) by simp
  then have "hd (rev r) \<noteq> CHR ''0''" using assms(1,3) e(3) by (simp add: hd_rev last_rev)
  moreover have "list_all dec_digit r" using assms(2) p by (metis list_all_append list_all_rev)
  moreover have "hd r \<noteq> CHR ''0''" using e(3) hd_dropWhile unfolding r by fast
  ultimately have "prints (rev r) e (decimal s)" using e by (simp add: prints_def last_rev decimal_rev)
  with e show ?thesis unfolding trimzeros_def r [symmetric] by (auto simp: Let_def)
qed

section \<open>The loop\<close>

text \<open>
  \<open>quorem\<close> may leave a remainder of zero without digits in use; its lowest digit is zero then, so the
  test of the loop is right.
\<close>

lemma trim_low:
  assumes "Suc n \<le> length xs" "trim b xs n = (b', n')" "bg_wds b \<noteq> 0"
  shows "bg_x b' = xs \<and> (bg_wds b' = 0 \<longrightarrow> xs ! 0 = 0)"
  using assms trim_wds_pos [of n xs] by (cases "n = 0") (auto simp: trim_def split: if_splits)

lemma quorem_low:
  assumes q: "quorem b S = Inr (q, b')" and b: "bg_ok b" "bg_wds b = bg_wds S" "1 \<le> bg_wds S"
  shows "bg_x b' \<noteq> [] \<and> (bg_wds b' = 0 \<longrightarrow> bg_x b' ! 0 = 0)"
proof -
  let ?n = "bg_wds S - 1" and ?sx = "digits S"
  define q0 where "q0 = bg_x b ! ?n div (?sx ! ?n + 1)"
  obtain b1 n1 where t: "(if q0 \<noteq> 0 then trim b (submul_loop (ucast q0) 0 0 ?sx (bg_x b)) ?n else (b, ?n)) = (b1, n1)"
    by fastforce
  have l: "Suc ?n \<le> length (bg_x b)" "bg_wds b \<noteq> 0" using b by (auto simp: bg_ok_def)
  have b1: "length (bg_x b1) = length (bg_x b)" "bg_wds b1 = 0 \<longrightarrow> bg_x b1 ! 0 = 0"
    using t trim_low [of ?n "submul_loop (ucast q0) 0 0 ?sx (bg_x b)" b b1 n1] l by (auto split: if_splits)
  obtain c where c: "cmp b1 S = Inr c"
    "b' = (if c \<ge> 0 then fst (trim b1 (sub_once_loop 0 0 ?sx (bg_x b1)) n1) else b1)"
    using q b unfolding quorem_def Let_def q0_def [symmetric] t prod.case
    by (auto simp: bindR_eq_Inr split: if_splits)
  show ?thesis
  proof (cases "c \<ge> 0")
    case False
    then show ?thesis using c(2) b1 l by auto
  next
    case True
    then have w1: "bg_wds b1 \<noteq> 0" using c(1) b(3) by (auto simp: cmp_def split: if_splits)
    have "n1 \<le> ?n" using t trim_wds_le [of _ ?n] by (auto simp: trim_def split: if_splits)
    then have "Suc n1 \<le> length (sub_once_loop 0 0 ?sx (bg_x b1))" using l b1 by (simp add: sub_once_submul)
    moreover obtain b2 n2 where "trim b1 (sub_once_loop 0 0 ?sx (bg_x b1)) n1 = (b2, n2)" by fastforce
    ultimately show ?thesis using trim_low [of n1 _ b1 b2 n2] w1 c(2) True by fastforce
  qed
qed

lemma is_exact_value:
  assumes "remainder_ok b" "bg_x b \<noteq> []" "bg_wds b = 0 \<longrightarrow> bg_x b ! 0 = 0"
  shows "is_exact b = Inr (value_of b = 0)" "value_of b \<noteq> 0 \<Longrightarrow> normal b"
proof -
  obtain x xs where x: "bg_x b = x # xs" using assms(2) by (cases "bg_x b") auto
  consider "bg_wds b = 0" | "bg_wds b = 1" | "1 < bg_wds b" by linarith
  then have "is_exact b = Inr (value_of b = 0) \<and> (value_of b \<noteq> 0 \<longrightarrow> normal b)"
  proof cases
    case 3
    then have "normal b" using assms(1) by (auto simp: remainder_ok_def)
    then have "2 ^ (32 * (bg_wds b - 1)) \<le> value_of b" using 3 by (rule normal_top)
    moreover have "0 < (2::nat) ^ (32 * (bg_wds b - 1))" by simp
    ultimately have "value_of b \<noteq> 0" by linarith
    with 3 x \<open>normal b\<close> show ?thesis by (simp add: is_exact_def)
  qed (use assms x in \<open>auto simp: is_exact_def value_of_def digits_def remainder_ok_def unat_eq_0\<close>)
  then show "is_exact b = Inr (value_of b = 0)" "value_of b \<noteq> 0 \<Longrightarrow> normal b" by simp_all
qed

text \<open>A divisor with four leading zero bits, as \<open>dshift\<close> arranges.\<close>

definition divisor_ok :: "bigint \<Rightarrow> bool" where
  "divisor_ok S \<longleftrightarrow> normal S \<and> 10 \<le> unat (last (digits S)) \<and> unat (last (digits S)) < 2 ^ 28"

lemma divisor_bound:
  assumes "divisor_ok S" "normal b" "value_of b < 10 * value_of S"
  shows "bg_wds b \<le> bg_wds S"
proof (rule ccontr)
  assume "\<not> bg_wds b \<le> bg_wds S"
  then have w: "bg_wds S \<le> bg_wds b - 1" "1 < bg_wds b" using assms(1) by (auto simp: divisor_ok_def normal_def)
  have nS: "normal S" "digits S \<noteq> []"
    using assms(1) by (auto simp: divisor_ok_def normal_def digits_def bg_ok_def)
  let ?n = "32 * (bg_wds S - 1)" and ?t = "last (digits S)"
  obtain ys where ys: "digits S = ys @ [?t]" using nS(2) by (metis append_butlast_last_id)
  have l: "length (digits S) = bg_wds S" using nS(1) normal_ok by simp
  then have n: "?n = 32 * length ys" using ys by (metis length_append_singleton diff_Suc_1)
  have "value_of S = bval ys + 2 ^ ?n * unat ?t"
    unfolding value_of_def n by (subst ys) (simp add: bval_append)
  moreover have "bval ys < 2 ^ ?n" unfolding n by (rule bval_less)
  moreover have "2 ^ ?n * (unat ?t + 1) \<le> 2 ^ ?n * 2 ^ 28" using assms(1) by (intro mult_left_mono) (simp_all add: divisor_ok_def)
  ultimately have "value_of S < 2 ^ ?n * 2 ^ 28" unfolding distrib_left by linarith
  moreover have "2 ^ ?n * 2 ^ 28 * 16 = (2::nat) ^ (32 * bg_wds S)"
  proof -
    have "?n + 28 + 4 = 32 * bg_wds S" using nS(1) by (auto simp: normal_def)
    then have "(2::nat) ^ (?n + 28 + 4) = 2 ^ (32 * bg_wds S)" by simp
    then show ?thesis by (simp add: power_add)
  qed
  ultimately have "value_of b < 2 ^ (32 * bg_wds S)" using assms(3) by linarith
  moreover have "(2::nat) ^ (32 * bg_wds S) \<le> 2 ^ (32 * (bg_wds b - 1))" using w by (intro power_increasing) simp_all
  ultimately show False using normal_top [OF assms(2) w(2)] by linarith
qed

text \<open>One round: the next digit and the remainder.\<close>

lemma digit_step:
  assumes S: "divisor_ok S" and b: "normal b" "value_of b < 10 * value_of S"
  obtains q b' where "quorem b S = Inr (q, b')" "unat q = value_of b div value_of S" "unat q \<le> 9"
    "value_of b' = value_of b mod value_of S" "is_exact b' = Inr (value_of b' = 0)"
    "value_of b' \<noteq> 0 \<longrightarrow> normal b'"
proof -
  have nS: "normal S" "10 \<le> unat (last (digits S))" "unat (last (digits S)) < 2 ^ 28"
    using S by (simp_all add: divisor_ok_def)
  then have "last (digits S) \<noteq> - 1" by (auto simp: unsigned_minus_1_eq_mask mask_eq_exp_minus_1)
  moreover note w = divisor_bound [OF S b]
  moreover have rb: "remainder_ok b" using b(1) by (simp add: remainder_ok_def normal_ok)
  ultimately obtain q b' where q: "quorem b S = Inr (q, b')" "unat q = value_of b div value_of S"
    "value_of b' = value_of b mod value_of S" "remainder_ok b'"
    using quorem_lemma [OF rb w nS(1,2) _ b(2)] by metis
  have "bg_x b' \<noteq> [] \<and> (bg_wds b' = 0 \<longrightarrow> bg_x b' ! 0 = 0)"
  proof (cases "bg_wds b = bg_wds S")
    case True
    then show ?thesis using quorem_low [OF q(1)] b(1) nS(1) by (simp add: normal_def)
  next
    case False
    then have "b' = b" using q(1) w by (auto simp: quorem_def)
    then show ?thesis using b(1) by (auto simp: normal_def bg_ok_def)
  qed
  moreover have "unat q \<le> 9" using less_mult_imp_div_less [OF b(2)] q(2) by linarith
  ultimately show thesis using is_exact_value [OF q(4)] by (intro that [OF q(1,2) _ q(3)]) auto
qed

text \<open>
  \<open>k\<close> grows by one exactly when the string of digits grows at the front. After \<open>length s\<close> digits the
  remaining number stands for the fraction \<open>value_of b / (10 * value_of S)\<close> of the last place.
\<close>

definition printed :: "char list \<Rightarrow> int \<Rightarrow> char list \<Rightarrow> int \<Rightarrow> nat \<Rightarrow> nat \<Rightarrow> bool" where
  "printed s k s' k' n v \<longleftrightarrow> length s' \<le> length s + n + 1 \<and> (k' = k \<or> k' = k + 1) \<and>
     (\<exists>m. int (length s' + m) = int (length s + n + 1) + (k' - k) \<and> prints s' m v)"

lemma printed_snoc: "printed (s @ [c]) k s' k' m v = printed s k s' k' (Suc m) v"
  by (simp add: printed_def add.commute)

lemma round_last_prints:
  assumes S: "divisor_ok S" and b: "normal b" "0 < value_of b" "value_of b < value_of S"
    and s: "s \<noteq> []" "list_all dec_digit s" "hd s \<noteq> CHR ''0''" "0 < decimal s" "odd (unat dig) = odd (decimal s)"
  shows "\<exists>s' k' b' al' m. round_last b S dig s k al = Inr (s', k', b', al') \<and>
    length s' \<le> length s \<and> (k' = k \<or> k' = k + 1) \<and> int (length s' + m) = int (length s) + (k' - k) \<and>
    prints s' m (round_half_even (decimal s * value_of S + value_of b) (value_of S))"
proof -
  have nS: "normal S" using S by (simp add: divisor_ok_def)
  obtain b2 al2 where l: "lshift b 1 al = Inr (b2, al2)" "value_of b2 = value_of b * 2" "normal b2"
    using lshift_lemma [OF b(1), of 1 al] b(2) by auto
  obtain c where c: "cmp b2 S = Inr c" "c < 0 \<longleftrightarrow> value_of b2 < value_of S" "c = 0 \<longleftrightarrow> value_of b2 = value_of S"
    using cmp_value [OF l(3) nS] by blast
  have dig: "(dig AND 1 \<noteq> 0) = odd (decimal s)"
    using s(5) and_mask_zero [of dig 1] by (simp add: mask_literals(5) [symmetric])
  let ?A = "decimal s * value_of S + value_of b"
  have q: "?A div value_of S = decimal s" "?A mod value_of S = value_of b" using b(3) by simp_all
  let ?up = "c > 0 \<or> (c = 0 \<and> odd (decimal s))"
  have r: "round_half_even ?A (value_of S) = (if ?up then decimal s + 1 else decimal s)"
  proof -
    have "(2 * value_of b > value_of S) = (c > 0)" "(2 * value_of b = value_of S) = (c = 0)"
      using c(2,3) l(2) by auto
    then show ?thesis unfolding round_half_even_def q by simp
  qed
  show ?thesis
  proof (cases ?up)
    case True
    then show ?thesis
      using roundoff_prints [OF s(1-3), of k] r l(1) c(1) dig by (auto simp: round_last_def)
  next
    case False
    obtain s' m where t: "trimzeros s = Inr s'" "length s' + m = length s" "prints s' m (decimal s)"
      using trimzeros_prints [OF s(1-4)] by blast
    moreover have "round_last b S dig s k al = Inr (s', k, b2, al2)"
      using False l(1) c(1) dig t(1) by (auto simp: round_last_def)
    ultimately show ?thesis using r False by (intro exI [of _ s'] exI [of _ k] exI [of _ b2] exI [of _ al2] exI [of _ m]) simp
  qed
qed

declare fixed_digits.simps [simp del]

text \<open>What a round of the loop does to the string and the remaining number.\<close>

lemma next_digit:
  assumes S: "divisor_ok S" and b: "normal b" "0 < value_of b" "value_of b < 10 * value_of S"
    and s: "list_all dec_digit s" "if s = [] then value_of S \<le> value_of b else hd s \<noteq> CHR ''0'' \<and> 0 < decimal s"
  obtains q b' s1 where "s1 = s @ [digit_char q]" "quorem b S = Inr (q, b')" "is_exact b' = Inr (value_of b' = 0)"
    "value_of b' \<noteq> 0 \<longrightarrow> normal b'" "value_of b' < value_of S" "odd (unat q) = odd (decimal s1)"
    "value_of b' = 0 \<longrightarrow> last s1 \<noteq> CHR ''0''" "s1 \<noteq> []" "list_all dec_digit s1" "hd s1 \<noteq> CHR ''0''" "0 < decimal s1"
    "decimal s * 10 * value_of S + value_of b = decimal s1 * value_of S + value_of b'"
proof -
  obtain q b' where q: "quorem b S = Inr (q, b')" "unat q = value_of b div value_of S" "unat q \<le> 9"
    "value_of b' = value_of b mod value_of S" "is_exact b' = Inr (value_of b' = 0)" "value_of b' \<noteq> 0 \<longrightarrow> normal b'"
    by (rule digit_step [OF S b(1,3)])
  let ?s = "s @ [digit_char q]"
  note dc = digit_char_props [OF q(3)]
  have posS: "0 < value_of S" using b(3) by (cases "value_of S") simp_all
  have first: "0 < unat q" if "s = []"
    using s(2) that posS unfolding q(2) by (simp add: div_greater_zero_iff)
  have dq: "decimal ?s = decimal s * 10 + unat q" by (simp only: decimal_snoc dc(1) nat_int)
  have s1: "list_all dec_digit ?s" "hd ?s \<noteq> CHR ''0''" "0 < decimal ?s"
    using s first dc(2,3) unfolding dq by (cases "s = []"; simp)+
  have A: "decimal s * 10 * value_of S + value_of b = decimal ?s * value_of S + value_of b'"
    unfolding dq q(2,4) by (simp add: distrib_right)
  have "last ?s \<noteq> CHR ''0''" if "value_of b' = 0"
  proof -
    have "value_of b = unat q * value_of S"
      using div_mult_mod_eq [of "value_of b" "value_of S"] q(4) that unfolding q(2) by linarith
    then have "unat q \<noteq> 0" using b(2) by (metis mult_0 not_less_iff_gr_or_eq)
    then show ?thesis using dc(3) by simp
  qed
  then show thesis
    using q(4) posS dq s1 A by (intro that [OF refl q(1,5,6)]) simp_all
qed

lemma fixed_digits_prints:
  assumes S: "divisor_ok S" and b: "normal b" "0 < value_of b" "value_of b < 10 * value_of S"
    and s: "list_all dec_digit s" "if s = [] then value_of S \<le> value_of b else hd s \<noteq> CHR ''0'' \<and> 0 < decimal s"
  shows "\<exists>s' k' b' al'. fixed_digits n b S s k al = Inr (s', k', b', al') \<and>
    printed s k s' k' n (round_half_even ((decimal s * 10 * value_of S + value_of b) * 10 ^ n) (value_of S))"
  using b s
proof (induction n arbitrary: b s al rule: less_induct)
  case (less n)
  obtain q b' s1 where q: "s1 = s @ [digit_char q]" "quorem b S = Inr (q, b')" "is_exact b' = Inr (value_of b' = 0)"
    "value_of b' \<noteq> 0 \<longrightarrow> normal b'" "value_of b' < value_of S" "odd (unat q) = odd (decimal s1)"
    "value_of b' = 0 \<longrightarrow> last s1 \<noteq> CHR ''0''" and s1: "s1 \<noteq> []" "list_all dec_digit s1" "hd s1 \<noteq> CHR ''0''" "0 < decimal s1"
    and A: "decimal s * 10 * value_of S + value_of b = decimal s1 * value_of S + value_of b'"
    by (rule next_digit [OF S less.prems])
  have posS: "0 < value_of S" using q(5) by simp
  show ?case
  proof (cases "value_of b' = 0")
    case True
    then have "round_half_even ((decimal s1 * value_of S + value_of b') * 10 ^ n) (value_of S) = decimal s1 * 10 ^ n"
      using True posS by (simp add: round_half_even_def mult.assoc mult.commute [of "value_of S"])
    moreover have "fixed_digits n b S s k al = Inr (s1, k, b', al)"
      using True q(1-3) by (simp add: fixed_digits.simps [of n])
    ultimately show ?thesis
      using s1 q(1,7) True unfolding A by (intro exI [of _ s1] exI [of _ k] exI [of _ b'] exI [of _ al])
        (auto simp: printed_def prints_def)
  next
    case False
    then have nb: "normal b'" "0 < value_of b'" "value_of b' < value_of S" using q(4,5) by simp_all
    show ?thesis
    proof (cases n)
      case 0
      from round_last_prints [OF S nb s1 q(6), of k al] obtain s' k' b2 al2 m where
        "round_last b' S q s1 k al = Inr (s', k', b2, al2)" "length s' \<le> length s1" "k' = k \<or> k' = k + 1"
        "int (length s' + m) = int (length s1) + (k' - k)"
        "prints s' m (round_half_even (decimal s1 * value_of S + value_of b') (value_of S))" by auto
      with 0 False q(1-3) show ?thesis
        unfolding A by (intro exI [of _ s'] exI [of _ k'] exI [of _ b2] exI [of _ al2])
          (auto simp: printed_def fixed_digits.simps [of 0])
    next
      case (Suc n')
      obtain b2 al2 where m: "multadd b' 10 0 al = Inr (b2, al2)" "value_of b2 = value_of b' * 10" "normal b2"
        using multadd_value [of b' 10 0 al] nb(1) by (auto simp: normal_def)
      obtain s' k' b3 al3 where r: "fixed_digits n' b2 S s1 k al2 = Inr (s', k', b3, al3)"
        "printed s1 k s' k' n' (round_half_even ((decimal s1 * 10 * value_of S + value_of b2) * 10 ^ n') (value_of S))"
        using less.IH [of n' b2 s1 al2] Suc m(2,3) nb s1 q(1) by auto
      have "(decimal s1 * 10 * value_of S + value_of b2) * 10 ^ n' = (decimal s1 * value_of S + value_of b') * 10 ^ n"
        unfolding m(2) Suc by (simp add: algebra_simps)
      with r(2) have "printed s k s' k' n (round_half_even ((decimal s1 * value_of S + value_of b') * 10 ^ n) (value_of S))"
        by (simp only: printed_snoc q(1) Suc)
      moreover have "fixed_digits n b S s k al = Inr (s', k', b3, al3)"
        using r(1) Suc False q(1-3) m(1) by (simp add: fixed_digits.simps [of "Suc n'"])
      ultimately show ?thesis unfolding A by blast
    qed
  qed
qed

end
