(* ===== verification/Dtoa_Props.thy ===== *)
theory Dtoa_Props
  imports Doubles Dtoa_Bits
begin

text \<open>
  What the multiple-precision routines of src/src/common/dtoa.cc compute, as statements on the
  natural numbers their digits stand for, and the decomposition of a \<open>double\<close> by \<open>d2b\<close>.
\<close>

text \<open>A number with given digits in a block of the smallest size that holds them, for examples.\<close>

definition sample_big :: "nat \<Rightarrow> 32 word list \<Rightarrow> bigint" where
  "sample_big k xs = \<lparr>bg_addr = 0, bg_k = k, bg_sign = 0, bg_wds = length xs, bg_x = xs\<rparr>"

lemma sample_big_normal:
  "length xs \<le> 2 ^ k \<Longrightarrow> xs \<noteq> [] \<Longrightarrow> length xs = 1 \<or> last xs \<noteq> 0 \<Longrightarrow> normal (sample_big k xs)"
  by (cases xs) (simp_all add: normal_def bg_ok_def sample_big_def bg_maxwds_def digits_def)

lemma sample_big_wds: "bg_wds (sample_big k xs) = length xs"
  by (simp add: sample_big_def)

lemma sample_big_value: "value_of (sample_big k xs) = bval xs"
  by (simp add: sample_big_def value_of_def digits_def)

section \<open>Arithmetic\<close>

text \<open>
  C15. The product of two numbers with at least one digit each is computed exactly, in a block
  large enough to hold it, and no leading zero digit is left.
\<close>

theorem mult_multiplies:
  assumes "bg_ok a" "1 \<le> bg_wds a" "bg_ok b" "1 \<le> bg_wds b"
  shows "\<exists>c al'. mult a b al = Inr (c, al') \<and> bg_ok c \<and> value_of c = value_of a * value_of b \<and>
    (0 < value_of c \<longrightarrow> normal c)"
  using mult_value [OF assms, of al] by metis

theorem mult_multiplies_witness:
  "\<exists>c al'. mult (sample_big 0 [0xffffffff]) (sample_big 1 [7, 1]) alloc_init = Inr (c, al') \<and>
    value_of c = 0xffffffff * (7 + 2 ^ 32)"
  using mult_multiplies [of "sample_big 0 [0xffffffff]" "sample_big 1 [7, 1]" alloc_init]
    sample_big_normal [of "[0xffffffff]" 0] sample_big_normal [of "[7, 1]" 1]
  by (auto simp: normal_ok sample_big_value sample_big_wds)

text \<open>
  \<open>pow5mult\<close> multiplies by a power of five, for every exponent: the chain of squares it keeps
  between calls, \<open>5 ^ 4\<close>, \<open>5 ^ 8\<close>, \<open>5 ^ 16\<close> and so on, stays a chain of these powers.
\<close>

theorem pow5mult_multiplies:
  assumes "normal b" "0 < value_of b" "p5s_ok al"
  shows "\<exists>b' al'. pow5mult b k al = Inr (b', al') \<and> normal b' \<and> value_of b' = value_of b * 5 ^ k \<and> p5s_ok al'"
  using assms by (rule pow5mult_lemma)

theorem pow5mult_multiplies_witness:
  "\<exists>b' al'. pow5mult (sample_big 0 [3]) 27 alloc_init = Inr (b', al') \<and> value_of b' = 3 * 5 ^ 27 \<and> p5s_ok al'"
  using pow5mult_multiplies [of "sample_big 0 [3]" alloc_init 27] sample_big_normal [of "[3]" 0]
  by (auto simp: sample_big_value p5s_ok_def alloc_init_def)

text \<open>
  \<open>lshift\<close> multiplies by a power of two. A number that is not zero keeps no leading zero digit.
\<close>

theorem lshift_multiplies:
  assumes "normal b"
  shows "\<exists>b' al'. lshift b k al = Inr (b', al') \<and> bg_ok b' \<and> value_of b' = value_of b * 2 ^ k \<and>
    (0 < value_of b \<longrightarrow> normal b')"
  using lshift_lemma [OF assms, of k al] by metis

theorem lshift_multiplies_witness:
  "\<exists>b' al'. lshift (sample_big 1 [0x80000001, 5]) 37 alloc_init = Inr (b', al') \<and>
    value_of b' = (0x80000001 + 5 * 2 ^ 32) * 2 ^ 37"
  using lshift_multiplies [of "sample_big 1 [0x80000001, 5]" 37 alloc_init] sample_big_normal [of "[0x80000001, 5]" 1]
  by (auto simp: sample_big_value)

text \<open>
  \<open>diff\<close> computes the distance of two numbers and records in the sign field which one is
  larger; it leaves no leading zero digit. \<open>cmp\<close> orders numbers by their values.
\<close>

theorem diff_subtracts:
  assumes "normal a" "normal b"
  shows "(\<exists>c al'. diff a b al = Inr (c, al') \<and> normal c \<and>
      int (value_of c) = \<bar>int (value_of a) - int (value_of b)\<bar> \<and>
      bg_sign c = (if value_of a < value_of b then 1 else 0)) \<and>
    (\<exists>c. cmp a b = Inr c \<and> (c < 0 \<longleftrightarrow> value_of a < value_of b) \<and> (c = 0 \<longleftrightarrow> value_of a = value_of b))"
  using diff_lemma [OF assms, of al] cmp_value [OF assms] by metis

theorem diff_subtracts_witness:
  "\<exists>c al'. diff (sample_big 0 [2]) (sample_big 1 [1, 1]) alloc_init = Inr (c, al') \<and>
    int (value_of c) = 2 ^ 32 - 1 \<and> bg_sign c = 1"
  using diff_subtracts [of "sample_big 0 [2]" "sample_big 1 [1, 1]" alloc_init]
    sample_big_normal [of "[2]" 0] sample_big_normal [of "[1, 1]" 1]
  by (auto simp: sample_big_value)

text \<open>
  C14. One digit of a quotient: when the divisor has been shifted so that its top digit is at least
  ten and is not the largest digit, and the dividend is below ten times the divisor, \<open>quorem\<close> returns
  the quotient and leaves the remainder. A remainder of zero may be left with no digit at all.
\<close>

theorem quorem_divides:
  assumes "remainder_ok b" "bg_wds b \<le> bg_wds S" "normal S"
    and "10 \<le> unat (last (digits S))" "last (digits S) \<noteq> - 1" "value_of b < 10 * value_of S"
  shows "\<exists>q b'. quorem b S = Inr (q, b') \<and> unat q = value_of b div value_of S \<and>
    value_of b' = value_of b mod value_of S \<and> remainder_ok b'"
  using assms by (rule quorem_lemma)

theorem quorem_divides_witness:
  "\<exists>q b'. quorem (sample_big 0 [7000]) (sample_big 0 [1000]) = Inr (q, b') \<and> unat q = 7 \<and> value_of b' = 0"
  using quorem_divides [of "sample_big 0 [7000]" "sample_big 0 [1000]"]
    sample_big_normal [of "[7000]" 0] sample_big_normal [of "[1000]" 0]
  by (auto simp: sample_big_value remainder_ok_def normal_ok) (auto simp: sample_big_def digits_def)

section \<open>The parts of a double\<close>

lemma frac_bound: "unat (word0 d AND Frac_mask) < 2 ^ 20"
proof -
  have "word0 d AND Frac_mask = take_bit 20 (word0 d)"
    by (simp add: Frac_mask_def take_bit_eq_mask mask_eq_exp_minus_1)
  then have "unat (word0 d AND Frac_mask) = take_bit 20 (unat (word0 d))" by (simp only: unsigned_take_bit_eq)
  then show ?thesis by (simp only: take_bit_nat_less_exp)
qed

lemma hidden_bit: "unat ((word0 d AND Frac_mask) OR Exp_msk1) = unat (word0 d AND Frac_mask) + 2 ^ 20"
proof -
  have "unat Exp_msk1 = push_bit 20 1" by (simp add: Exp_msk1_def)
  then have "unat ((word0 d AND Frac_mask) OR Exp_msk1) = push_bit 20 1 OR unat (word0 d AND Frac_mask)"
    by (simp only: unsigned_or_eq or.commute)
  then show ?thesis using or_low_bits [OF frac_bound, of 1 d] by simp
qed

text \<open>Splitting the low word by its trailing zeros moves bits of the high word down.\<close>

lemma lo0bits_small:
  assumes "y \<noteq> 0" "lo0bits y = (k, x)"
  shows "k < 32" "unat x < 2 ^ (32 - k)" "0 < unat x"
proof -
  have v: "unat y = unat x * 2 ^ k" "odd (unat x)" using lo0bits_value [OF assms] by simp_all
  then show p: "0 < unat x" by (cases "unat x") simp_all
  have "1 * 2 ^ k \<le> unat x * 2 ^ k" using p by (intro mult_right_mono) simp_all
  then have "(2::nat) ^ k < 2 ^ 32" using v(1) unat32 [of y] by linarith
  then show k: "k < 32" using power_less_imp_less_exp [of "2 :: nat" k 32] by simp
  have "unat x * 2 ^ k < 2 ^ (32 - k) * 2 ^ k"
    using v(1) unat32 [of y] k by (simp flip: power_add)
  then show "unat x < 2 ^ (32 - k)" by simp
qed

lemma split_low_word:
  assumes "y \<noteq> 0" "lo0bits y = (k, x)"
  shows "bval [x OR push_bit (32 - k) z, drop_bit k z] * 2 ^ k = unat y + 2 ^ 32 * unat z"
    "odd (bval [x OR push_bit (32 - k) z, drop_bit k z])"
proof -
  note v = lo0bits_value [OF assms] and b = lo0bits_small [OF assms]
  have "bval [x OR push_bit (32 - k) z, drop_bit k z] = unat z * 2 ^ (32 - k) + unat x"
  proof (cases "k = 0")
    case True
    then have "push_bit 32 z = 0" by (intro bit_word_eqI) (simp add: bit_simps)
    then show ?thesis using True by simp
  next
    case False
    then show ?thesis using shl_digit(1) [of "32 - k" x z] b by (simp add: or.commute)
  qed
  moreover have "unat z * 2 ^ (32 - k) * 2 ^ k = 2 ^ 32 * unat z"
    using b(1) by (simp flip: power_add add: mult.assoc)
  ultimately show "bval [x OR push_bit (32 - k) z, drop_bit k z] * 2 ^ k = unat y + 2 ^ 32 * unat z"
    "odd (bval [x OR push_bit (32 - k) z, drop_bit k z])"
    using v b(1) by (simp_all add: distrib_right)
qed

lemma top_bits:
  assumes "xs \<noteq> []" "last xs \<noteq> 0"
  shows "hi0bits (last xs) < 32" "2 ^ (32 * length xs - 1 - hi0bits (last xs)) \<le> bval xs"
    "bval xs < 2 ^ (32 * length xs - hi0bits (last xs))"
proof -
  let ?t = "last xs" and ?h = "hi0bits (last xs)" and ?n = "32 * (length xs - 1)"
  note h = hi0bits_value [OF assms(2)]
  have "1 \<le> unat ?t" using assms(2) by (simp add: Suc_le_eq unat_gt_0)
  then have "1 * 2 ^ ?h \<le> unat ?t * 2 ^ ?h" by (rule mult_right_mono) simp
  then have "(2::nat) ^ ?h < 2 ^ 32" using h by linarith
  then show k: "?h < 32" using power_less_imp_less_exp [of "2 :: nat" ?h 32] by simp
  have "(2::nat) ^ 31 = 2 ^ (31 - ?h) * 2 ^ ?h" "(2::nat) ^ 32 = 2 ^ (32 - ?h) * 2 ^ ?h"
    using k by (simp_all flip: power_add)
  with h have "2 ^ (31 - ?h) * 2 ^ ?h \<le> unat ?t * 2 ^ ?h" "unat ?t * 2 ^ ?h < 2 ^ (32 - ?h) * 2 ^ ?h"
    by linarith+
  then have t: "2 ^ (31 - ?h) \<le> unat ?t" "unat ?t < 2 ^ (32 - ?h)" by simp_all
  obtain ys where ys: "xs = ys @ [?t]" using assms(1) by (metis append_butlast_last_id)
  then have l: "?n = 32 * length ys" by (metis length_append_singleton diff_Suc_1)
  have v: "bval xs = bval ys + 2 ^ ?n * unat ?t" using arg_cong [OF ys, of bval] unfolding l by (simp only: bval_append bval.simps mult_0_right add_0_right)
  have e: "32 * length xs - 1 - ?h = ?n + (31 - ?h)" "32 * length xs - ?h = ?n + (32 - ?h)"
    using k assms(1) by (cases xs; simp)+
  have "2 ^ ?n * 2 ^ (31 - ?h) \<le> 2 ^ ?n * unat ?t" using t(1) by simp
  then show "2 ^ (32 * length xs - 1 - ?h) \<le> bval xs" unfolding v e power_add by linarith
  have "2 ^ ?n * (unat ?t + 1) \<le> 2 ^ ?n * 2 ^ (32 - ?h)" using t(2) by (intro mult_left_mono) simp_all
  moreover have "bval ys < 2 ^ ?n" using bval_less [of ys] unfolding l .
  ultimately show "bval xs < 2 ^ (32 * length xs - ?h)" unfolding v e power_add distrib_left by linarith
qed

lemma d2b_digits:
  assumes "word1 d \<noteq> 0 \<or> z \<noteq> 0" and "mant = unat (word1 d) + 2 ^ 32 * unat (z :: 32 word)"
  obtains xs wds k where
    "(if word1 d \<noteq> 0 then
        let (k, y) = lo0bits (word1 d);
            (x0, z') = (if k \<noteq> 0 then (y OR push_bit (32 - k) z, drop_bit k z) else (y, z)) in
        ([x0, z'], if z' \<noteq> 0 then 2 else 1, k)
      else let (k, z') = lo0bits z in ([z'], 1, k + 32)) = (xs, wds, k)"
    "1 \<le> wds" "wds \<le> length xs" "length xs \<le> 2" "bval (take wds xs) * 2 ^ k = mant" "odd (bval (take wds xs))"
    "last (take wds xs) \<noteq> 0"
proof (cases "word1 d = 0")
  case True
  obtain k z' where lo: "lo0bits z = (k, z')" by fastforce
  have z: "unat z = unat z' * 2 ^ k" "odd (unat z')" using lo0bits_value [OF _ lo] assms(1) True by simp_all
  show ?thesis
    by (rule that [of "[z']" 1 "k + 32"]) (use True lo z assms(2) in \<open>auto simp: power_add\<close>)
next
  case False
  obtain k y where lo: "lo0bits (word1 d) = (k, y)" by fastforce
  let ?x0 = "y OR push_bit (32 - k) z" and ?z = "drop_bit k z"
  note v = split_low_word [OF False lo, of z]
  have x0: "(if k \<noteq> 0 then (?x0, ?z) else (y, z)) = (?x0, ?z)"
  proof (cases "k = 0")
    case True
    then have "push_bit 32 z = 0" by (intro bit_word_eqI) (simp add: bit_simps)
    then show ?thesis using True by simp
  qed simp
  have nz: "?x0 \<noteq> 0"
  proof
    assume "?x0 = 0"
    then have "even (bval [?x0, ?z])" by simp
    then show False using v(2) by simp
  qed
  show ?thesis
  proof (rule that [of "[?x0, ?z]" "if ?z \<noteq> 0 then 2 else 1" k])
    show "bval (take (if ?z \<noteq> 0 then 2 else 1) [?x0, ?z]) * 2 ^ k = mant"
      using v(1) assms(2) by (cases "?z = 0") simp_all
    show "odd (bval (take (if ?z \<noteq> 0 then 2 else 1) [?x0, ?z]))" using v(2) by (cases "?z = 0") simp_all
  qed (use False lo x0 nz in auto)
qed

lemma d2b_lemma:
  assumes "mantissa d \<noteq> 0"
  shows "\<exists>b e bits d' al'. d2b d al = Inr (b, e, bits, d', al') \<and> normal b \<and> odd (value_of b) \<and>
    (\<exists>k. mantissa d = value_of b * 2 ^ k \<and> e = int (max 1 (dbl_exp d)) - 1075 + int k) \<and>
    (\<exists>n. bits = int n \<and> 0 < n \<and> 2 ^ (n - 1) \<le> value_of b \<and> value_of b < 2 ^ n) \<and>
    d' = d\<lparr>word0 := word0 d AND 0x7fffffff\<rparr>"
proof -
  let ?f = "word0 d AND Frac_mask" and ?de = "drop_bit Exp_shift (word0 d AND 0x7fffffff)"
  define z where "z = (if ?de \<noteq> 0 then ?f OR Exp_msk1 else ?f)"
  have z: "unat z = dbl_high d" by (auto simp: z_def dbl_high_def dbl_exp_def hidden_bit unat_eq_0)
  then have m: "mantissa d = unat (word1 d) + 2 ^ 32 * unat z" by (simp add: mantissa_def)
  obtain b0 al0 where ba: "Balloc 1 al = (b0, al0)" by fastforce
  note bf = Balloc_fields [of 1 al, unfolded ba, simplified]
  obtain xs wds k where x: "(if word1 d \<noteq> 0 then
        let (k, y) = lo0bits (word1 d);
            (x0, z') = (if k \<noteq> 0 then (y OR push_bit (32 - k) z, drop_bit k z) else (y, z)) in
        ([x0, z'], if z' \<noteq> 0 then 2 else 1, k)
      else let (k, z') = lo0bits z in ([z'], 1, k + 32)) = (xs, wds, k)"
    "1 \<le> wds" "wds \<le> length xs" "length xs \<le> 2" "bval (take wds xs) * 2 ^ k = mantissa d"
    "odd (bval (take wds xs))" "last (take wds xs) \<noteq> 0"
    by (rule d2b_digits [OF _ m]) (use assms m in auto)
  define b where "b = b0\<lparr>bg_x := xs, bg_wds := wds\<rparr>"
  have dg: "digits b = take wds xs" by (simp add: b_def digits_def)
  have nb: "normal b" using x bf by (auto simp: normal_def bg_ok_def bg_maxwds_def b_def digits_def)
  have put: "put_digits b0 xs = Inr (b0\<lparr>bg_x := xs\<rparr>)" using put_digits_fresh [of b0 xs] bf x(4) by simp
  let ?bits = "if ?de \<noteq> 0 then P_bits - int k else 32 * int wds - int (hi0bits (xs ! (wds - 1)))"
  let ?e = "if ?de \<noteq> 0 then uint ?de - Bias - (P_bits - 1) + int k else uint ?de - Bias - (P_bits - 1) + 1 + int k"
  have run: "d2b d al = Inr (b, ?e, ?bits, d\<lparr>word0 := word0 d AND 0x7fffffff\<rparr>, al0)"
    unfolding d2b_def Let_def ba prod.case z_def [symmetric]
    by (simp only: x(1) [unfolded Let_def] prod.case put bindR_Inr) (simp add: b_def)
  have e: "?e = int (max 1 (dbl_exp d)) - 1075 + int k"
    by (auto simp: dbl_exp_def Bias_def P_bits_def max_def unat_eq_0 Suc_le_eq unat_gt_0)
  have "\<exists>n. ?bits = int n \<and> 0 < n \<and> 2 ^ (n - 1) \<le> value_of b \<and> value_of b < 2 ^ n"
  proof (cases "?de = 0")
    case True
    have ne: "take wds xs \<noteq> []" using x(2,3) by auto
    have l: "last (take wds xs) = xs ! (wds - 1)" using x(2,3) by (simp add: last_take)
    note t = top_bits [OF ne x(7), unfolded l] and w = x(2,3)
    let ?n = "32 * wds - hi0bits (xs ! (wds - 1))"
    have "length (take wds xs) = wds" using x(3) by simp
    with t w True show ?thesis by (intro exI [of _ ?n]) (auto simp: value_of_def dg of_nat_diff)
  next
    case False
    then have hd: "dbl_exp d \<noteq> 0" by (simp add: dbl_exp_def unat_eq_0)
    have hi: "2 ^ 20 \<le> dbl_high d" "dbl_high d < 2 ^ 21" using hd frac_bound [of d] by (simp_all add: dbl_high_def)
    have lo: "unat (word1 d) < 2 ^ 32" by (rule unat32)
    have mb: "2 ^ 52 \<le> mantissa d" "mantissa d < 2 ^ 53" using hi lo by (simp_all add: mantissa_def)
    let ?v = "bval (take wds xs)"
    have v0: "0 < ?v" using x(6) by (cases "?v") simp_all
    then have "1 * 2 ^ k \<le> ?v * 2 ^ k" by (intro mult_right_mono) simp_all
    then have "(2::nat) ^ k < 2 ^ 53" using x(5) mb by linarith
    then have k: "k < 53" using power_less_imp_less_exp [of "2 :: nat" k 53] by simp
    then have p: "(2::nat) ^ 52 = 2 ^ (52 - k) * 2 ^ k" "(2::nat) ^ 53 = 2 ^ (53 - k) * 2 ^ k"
      by (simp_all flip: power_add)
    have "2 ^ (52 - k) * 2 ^ k \<le> ?v * 2 ^ k" "?v * 2 ^ k < 2 ^ (53 - k) * 2 ^ k"
      using mb unfolding x(5) [symmetric] p .
    then have "2 ^ (52 - k) \<le> ?v" "?v < 2 ^ (53 - k)" by simp_all
    with k False show ?thesis
      by (intro exI [of _ "53 - k"]) (simp add: value_of_def dg P_bits_def of_nat_diff)
  qed
  moreover have "odd (value_of b)" "mantissa d = value_of b * 2 ^ k" using x by (simp_all add: value_of_def dg)
  ultimately show ?thesis using run nb e by blast
qed

text \<open>
  \<open>d2b\<close> on a double that is not zero: it returns an odd number, its exact number of bits, and the
  exponent with which it gives back the double's absolute value, normal or not; the sign bit of the
  argument is cleared.
\<close>

theorem d2b_decomposes:
  assumes "mantissa d \<noteq> 0"
  shows "\<exists>b e bits d' al'. d2b d al = Inr (b, e, bits, d', al') \<and> normal b \<and> odd (value_of b) \<and>
    (\<exists>k. mantissa d = value_of b * 2 ^ k \<and> e = int (max 1 (dbl_exp d)) - 1075 + int k) \<and>
    (\<exists>n. bits = int n \<and> 0 < n \<and> 2 ^ (n - 1) \<le> value_of b \<and> value_of b < 2 ^ n) \<and>
    d' = d\<lparr>word0 := word0 d AND 0x7fffffff\<rparr>"
  using assms by (rule d2b_lemma)

theorem d2b_decomposes_witness:
  "\<exists>b e bits d' al'. d2b \<lparr>word0 = 0xc0080000, word1 = 0\<rparr> alloc_init = Inr (b, e, bits, d', al') \<and>
    normal b \<and> odd (value_of b) \<and> mantissa \<lparr>word0 = 0xc0080000, word1 = 0\<rparr> = 3 * 2 ^ 51"
proof -
  have m: "mantissa \<lparr>word0 = 0xc0080000, word1 = 0\<rparr> = 3 * 2 ^ 51"
    by (simp add: mantissa_def dbl_high_def dbl_exp_def Frac_mask_def Exp_shift_def)
  then have "mantissa \<lparr>word0 = 0xc0080000, word1 = 0\<rparr> \<noteq> 0" by simp
  from d2b_decomposes [OF this, of alloc_init] m show ?thesis by blast
qed

end
