(* ===== verification/Dtoa_Scale.thy ===== *)
theory Dtoa_Scale
  imports Dtoa_Digits Dtoa_Props
begin

text \<open>
  \<open>dtoa\<close> (src/src/common/dtoa.cc) for a given number of digits, from the \<open>double\<close> to the string: the
  scaled numbers are in the right ratio and fit the conditions of the loop, so that the string is the
  decimal rounding of the \<open>double\<close>.
\<close>

section \<open>Alignment of the divisor\<close>

lemma normal_digits: "normal b \<Longrightarrow> digits b \<noteq> [] \<and> length (digits b) = bg_wds b \<and> 1 \<le> bg_wds b"
  by (auto simp: normal_def digits_def bg_ok_def)

lemma value_pos_top:
  assumes "normal b" "0 < value_of b"
  shows "last (digits b) \<noteq> 0"
proof (cases "bg_wds b = 1")
  case True
  then obtain x where "digits b = [x]" using normal_digits [OF assms(1)] by (cases "digits b") auto
  then show ?thesis using assms(2) by (auto simp: value_of_def)
qed (use assms(1) in \<open>auto simp: normal_def\<close>)

lemma bit_length_unique:
  assumes "2 ^ a \<le> (v :: nat)" "v < 2 ^ (a + 1)" "2 ^ b \<le> v" "v < 2 ^ (b + 1)"
  shows "a = b"
proof -
  have "(2::nat) ^ a < 2 ^ (b + 1)" "(2::nat) ^ b < 2 ^ (a + 1)" using assms by linarith+
  then have "a < b + 1" "b < a + 1"
    using power_less_imp_less_exp [of "2 :: nat" a "b + 1"] power_less_imp_less_exp [of "2 :: nat" b "a + 1"] by simp_all
  then show ?thesis by simp
qed

lemma aligned_divisor:
  assumes S: "normal S" and v: "2 ^ (32 * m + 27) \<le> value_of S" "value_of S < 2 ^ (32 * m + 28)"
  shows "divisor_ok S"
proof -
  let ?t = "last (digits S)" and ?h = "hi0bits (last (digits S))" and ?w = "bg_wds S"
  have "0 < (2::nat) ^ (32 * m + 27)" by simp
  then have pos: "0 < value_of S" using v(1) by linarith
  note nd = normal_digits [OF S] and t0 = value_pos_top [OF S pos]
  note tb = top_bits [OF _ t0]
  have h: "?h < 32" "2 ^ (32 * ?w - 1 - ?h) \<le> value_of S" "value_of S < 2 ^ (32 * ?w - ?h)"
    using tb nd by (simp_all add: value_of_def)
  have "32 * ?w - 1 - ?h + 1 = 32 * ?w - ?h" using h(1) nd by linarith
  then have "value_of S < 2 ^ (32 * ?w - 1 - ?h + 1)" using h(3) by simp
  moreover have e: "32 * m + 27 + 1 = 32 * m + 28" by simp
  ultimately have "32 * ?w - 1 - ?h = 32 * m + 27"
    using bit_length_unique [OF h(2) _ v(1)] v(2) unfolding e by blast
  then have e: "32 * ?w = 32 * m + 28 + ?h" using h(1) nd by linarith
  then have "m + 1 \<le> ?w" by linarith
  then obtain j where "?w = m + 1 + j" using le_Suc_ex by blast
  with e have j: "?h = 32 * j + 4" by linarith
  with h(1) have "j = 0" by (cases j) simp_all
  with j have "?h = 4" by simp
  then have "2 ^ 31 \<le> unat ?t * 2 ^ 4" "unat ?t * 2 ^ 4 < 2 ^ 32" using hi0bits_value [OF t0] by simp_all
  then have "10 \<le> unat ?t" "unat ?t < 2 ^ 28" by simp_all
  then show ?thesis using S by (simp add: divisor_ok_def)
qed

lemma int_and_31: "(x :: int) AND 31 = x mod 32"
proof -
  have "x AND 31 = take_bit 5 x" by (simp add: take_bit_eq_mask mask_eq_exp_minus_1)
  then show ?thesis by (simp only: take_bit_eq_mod) simp
qed

text \<open>\<open>dshift\<close> completes a shift of \<open>s2\<close> bits so that the top digit has four zero bits in front.\<close>

lemma dshift_aligns:
  assumes S: "normal S" "0 < value_of S" and s2: "0 \<le> s2"
  shows "\<exists>i. dshift S s2 = Inr i \<and> 0 \<le> i \<and>
    (\<forall>S'. normal S' \<longrightarrow> value_of S' = value_of S * 2 ^ nat (s2 + i) \<longrightarrow> divisor_ok S')"
proof -
  let ?h = "hi0bits (last (digits S))" and ?w = "bg_wds S"
  define i where "i = (int ?h - 4 - s2) mod 32"
  note nd = normal_digits [OF S(1)] and t0 = value_pos_top [OF S]
  have ds: "dshift S s2 = Inr i"
    using nd s2 by (auto simp: dshift_def i_def int_and_31 Let_def)
  have i0: "0 \<le> i" by (simp add: i_def)
  have h: "?h < 32" "2 ^ (32 * ?w - 1 - ?h) \<le> value_of S" "value_of S < 2 ^ (32 * ?w - ?h)"
    using top_bits [OF _ t0] nd by (simp_all add: value_of_def)
  have "(int (32 * ?w) - int ?h + (s2 + i)) mod 32 = (int (32 * ?w) - int ?h + s2 + (int ?h - 4 - s2)) mod 32"
    unfolding i_def by (simp only: mod_add_right_eq add.assoc [symmetric])
  also have "\<dots> = (- 4 + 32 * int ?w) mod 32" by (simp add: algebra_simps)
  also have "\<dots> = 28" by (simp only: mod_mult_self2) simp
  finally have "(int (32 * ?w) - int ?h + (s2 + i)) mod 32 = 28" .
  moreover have n: "int (32 * ?w - ?h + nat (s2 + i)) = int (32 * ?w) - int ?h + (s2 + i)"
    using h(1) nd s2 i0 by simp
  ultimately have "int ((32 * ?w - ?h + nat (s2 + i)) mod 32) = int 28"
    by (simp only: zmod_int n of_nat_numeral)
  then have "(32 * ?w - ?h + nat (s2 + i)) mod 32 = 28" by (simp only: of_nat_eq_iff)
  then obtain m where m: "32 * ?w - ?h + nat (s2 + i) = 32 * m + 28" by (metis mult_div_mod_eq)
  have b: "2 ^ (32 * m + 27) \<le> value_of S * 2 ^ nat (s2 + i)" "value_of S * 2 ^ nat (s2 + i) < 2 ^ (32 * m + 28)"
  proof -
    have "32 * ?w - 1 - ?h + nat (s2 + i) = 32 * m + 27" using m h(1) nd by linarith
    then have "2 ^ (32 * m + 27) = (2::nat) ^ (32 * ?w - 1 - ?h) * 2 ^ nat (s2 + i)" by (simp flip: power_add)
    then show "2 ^ (32 * m + 27) \<le> value_of S * 2 ^ nat (s2 + i)" using h(2) by simp
    have "2 ^ (32 * m + 28) = (2::nat) ^ (32 * ?w - ?h) * 2 ^ nat (s2 + i)" by (simp flip: power_add m)
    then show "value_of S * 2 ^ nat (s2 + i) < 2 ^ (32 * m + 28)" using h(3) by simp
  qed
  show ?thesis using ds i0 b aligned_divisor by (intro exI [of _ i]) auto
qed

section \<open>Scaling\<close>

lemma p5s_ok_cong: "al_p5s al' = al_p5s al \<Longrightarrow> p5s_ok al' = p5s_ok al"
  by (simp add: p5s_ok_def)

lemma pow5_if_value:
  assumes "normal b" "0 < value_of b" "p5s_ok al" "0 \<le> k"
  obtains b' al' where "pow5_if (k > 0) b k al = Inr (b', al')" "normal b'" "value_of b' = value_of b * 5 ^ nat k" "p5s_ok al'"
  using assms pow5mult_lemma [OF assms(1-3), of "nat k"] by (cases "k > 0") (auto simp: pow5_if_def)

lemma scale_five_fixed:
  assumes "normal b" "0 < value_of b" "p5s_ok al" "0 \<le> k"
  obtains b' al' where "scale_five False k b None al = Inr (b', None, al')" "normal b'"
    "value_of b' = value_of b * 5 ^ nat k" "p5s_ok al'"
  using assms pow5mult_lemma [OF assms(1-3), of "nat k"] by (cases "k > 0") (auto simp: scale_five_def)

lemma lshift_if_value:
  assumes "normal b" "0 < value_of b" "p5s_ok al" "0 \<le> k"
  obtains b' al' where "lshift_if (k > 0) b k al = Inr (b', al')" "normal b'" "value_of b' = value_of b * 2 ^ nat k" "p5s_ok al'"
proof -
  obtain b1 al1 where l: "lshift b (nat k) al = Inr (b1, al1)" "value_of b1 = value_of b * 2 ^ nat k" "normal b1"
    "al_p5s al1 = al_p5s al" using lshift_lemma [OF assms(1), of "nat k" al] assms(2) by auto
  have "p5s_ok al1" using p5s_ok_cong [OF l(4)] assms(3) by simp
  with l assms that show thesis by (cases "k > 0") (auto simp: lshift_if_def)
qed

lemma scale_fixed:
  assumes b: "normal b" "0 < value_of b" "p5s_ok al" and e: "0 \<le> b2" "0 \<le> b5" "0 \<le> s2" "0 \<le> s5" and m: "2 \<le> mode"
  shows "\<exists>ds al'. scale False mode denorm be bbits u b (b2, b5, s2, s5) al = Inr (ds, al') \<and> ds_mhi ds = None \<and>
    normal (ds_b ds) \<and> 0 < value_of (ds_b ds) \<and> divisor_ok (ds_S ds) \<and> p5s_ok al' \<and>
    value_of (ds_b ds) * (2 ^ nat s2 * 5 ^ nat s5) = value_of b * 2 ^ nat b2 * 5 ^ nat b5 * value_of (ds_S ds)"
proof -
  define i where "i = (if b2 > 0 \<and> s2 > 0 then min b2 s2 else 0)"
  have i: "0 \<le> b2 - i" "0 \<le> s2 - i" "0 \<le> i" using e by (auto simp: i_def)
  obtain b1 al1 where b1: "scale_five False b5 b None al = Inr (b1, None, al1)" "normal b1"
    "value_of b1 = value_of b * 5 ^ nat b5" "p5s_ok al1" by (rule scale_five_fixed [OF b e(2)])
  obtain S0 al2 where S0: "i2b 1 al1 = Inr (S0, al2)" "normal S0" "value_of S0 = 1" "p5s_ok al2"
  proof -
    obtain S al' where "i2b 1 al1 = Inr (S, al')" "normal S" "value_of S = 1" "al_p5s al' = al_p5s al1"
      using i2b_value [of 1 al1] by auto
    then show thesis using that [of S al'] p5s_ok_cong [of al' al1] b1(4) by blast
  qed
  obtain S1 al3 where S1: "pow5_if (s5 > 0) S0 s5 al2 = Inr (S1, al3)" "normal S1" "value_of S1 = 5 ^ nat s5" "p5s_ok al3"
    by (rule pow5_if_value [OF S0(2) _ S0(4) e(4)]) (simp_all add: S0(3))
  have pos: "0 < value_of b1" "0 < value_of S1" using b1(3) S1(3) b(2) by simp_all
  obtain j where j: "dshift S1 (s2 - i) = Inr j" "0 \<le> j"
    "\<forall>S'. normal S' \<longrightarrow> value_of S' = value_of S1 * 2 ^ nat (s2 - i + j) \<longrightarrow> divisor_ok S'"
    using dshift_aligns [OF S1(2) pos(2) i(2)] by blast
  have ij: "0 \<le> b2 - i + j" "0 \<le> s2 - i + j" using i j(2) by simp_all
  obtain b' al4 where b': "lshift_if (b2 - i + j > 0) b1 (b2 - i + j) al3 = Inr (b', al4)" "normal b'"
    "value_of b' = value_of b1 * 2 ^ nat (b2 - i + j)" "p5s_ok al4"
    by (rule lshift_if_value [OF b1(2) pos(1) S1(4) ij(1)])
  obtain S' al5 where S': "lshift_if (s2 - i + j > 0) S1 (s2 - i + j) al4 = Inr (S', al5)" "normal S'"
    "value_of S' = value_of S1 * 2 ^ nat (s2 - i + j)" "p5s_ok al5"
    by (rule lshift_if_value [OF S1(2) pos(2) b'(4) ij(2)])
  have run: "scale False mode denorm be bbits u b (b2, b5, s2, s5) al =
      Inr (\<lparr>ds_b = b', ds_S = S', ds_mhi = None, ds_m2 = b2 - i + j, ds_spec = False\<rparr>, al5)"
    using m by (simp add: scale_def Let_def i_def [symmetric] b1(1) S0(1) S1(1) j(1) b'(1) S'(1))
  have "nat (b2 - i + j) + nat s2 = nat b2 + nat (s2 - i + j)" using i j(2) e by linarith
  then have "(2::nat) ^ nat (b2 - i + j) * 2 ^ nat s2 = 2 ^ nat b2 * 2 ^ nat (s2 - i + j)" by (simp flip: power_add)
  then have "value_of b' * (2 ^ nat s2 * 5 ^ nat s5) = value_of b * 2 ^ nat b2 * 5 ^ nat b5 * value_of S'"
    unfolding b'(3) S'(3) b1(3) S1(3) by (simp add: ac_simps)
  moreover have "0 < value_of b'" using b'(3) pos(1) by simp
  ultimately show ?thesis using run b' S' j(3) by auto
qed

section \<open>The estimate of the exponent\<close>

text \<open>
  The absolute value of a \<open>double\<close>, multiplied by a power of ten, is the quotient of two natural numbers.
\<close>

definition dnum :: "dbl \<Rightarrow> int \<Rightarrow> nat" where
  "dnum u k = mantissa u * 2 ^ max 1 (dbl_exp u) * 10 ^ nat (- k)"

definition dden :: "int \<Rightarrow> nat" where
  "dden k = 2 ^ 1075 * 10 ^ nat k"

definition reaches :: "dbl \<Rightarrow> int \<Rightarrow> bool" where
  "reaches u k \<longleftrightarrow> dden k \<le> dnum u k"

lemma dden_pos [simp]: "0 < dden k"
  by (simp add: dden_def)

lemma ten_times: "10 * dnum u k * dden (k - 1) = dnum u (k - 1) * dden k"
proof (cases "k \<ge> 1")
  case True
  then have "nat k = Suc (nat (k - 1))" "nat (- k) = 0" "nat (- (k - 1)) = 0" by simp_all
  then show ?thesis by (simp only: dnum_def dden_def power_Suc power_0 ac_simps mult_1_right)
next
  case False
  then have "nat (- (k - 1)) = Suc (nat (- k))" "nat k = 0" "nat (k - 1) = 0" by simp_all
  then show ?thesis by (simp only: dnum_def dden_def power_Suc power_0 ac_simps mult_1_right)
qed

lemma reaches_pred: "reaches u (k - 1) \<longleftrightarrow> dden k \<le> 10 * dnum u k"
proof -
  have "dden k \<le> 10 * dnum u k \<longleftrightarrow> dden k * dden (k - 1) \<le> 10 * dnum u k * dden (k - 1)" by simp
  also have "\<dots> \<longleftrightarrow> dden (k - 1) * dden k \<le> dnum u (k - 1) * dden k" unfolding ten_times by (simp add: mult.commute)
  finally show ?thesis by (simp add: reaches_def)
qed

lemma reaches_succ: "reaches u (k + 1) \<longleftrightarrow> 10 * dden k \<le> dnum u k"
proof -
  have t: "10 * dnum u (k + 1) * dden k = dnum u k * dden (k + 1)" using ten_times [of u "k + 1"] by simp
  have "10 * dden k \<le> dnum u k \<longleftrightarrow> 10 * dden k * dden (k + 1) \<le> dnum u k * dden (k + 1)" by simp
  also have "\<dots> \<longleftrightarrow> 10 * dden k * dden (k + 1) \<le> 10 * dden k * dnum u (k + 1)"
    unfolding t [symmetric] by (simp only: ac_simps)
  finally show ?thesis by (simp add: reaches_def)
qed

lemma round_scale: "0 < c \<Longrightarrow> round_half_even (a * c) (d * c) = round_half_even a d"
  by (simp add: round_half_even_def flip: mult_mod_left mult.assoc)

lemma round_ratio:
  assumes "0 < d" "0 < d'" "a * d' = a' * d"
  shows "round_half_even a d = round_half_even a' d'"
proof -
  have "round_half_even (a * d') (d * d') = round_half_even (a' * d) (d' * d)"
    using assms(3) by (simp add: mult.commute [of d d'])
  then show ?thesis using assms(1,2) by (simp only: round_scale)
qed

section \<open>Sizes and exponents\<close>

lemma rv_class_room: "j = 4 * 2 ^ k \<Longrightarrow> i + 1 \<le> rv_room (rv_class i j k)"
proof (induction i j k rule: rv_class.induct)
  case (1 i j k)
  show ?case
  proof (cases "sizeof_Bigint - 4 - 4 + j \<le> i \<and> j > 0")
    case True
    then have "rv_class i j k = rv_class i (j * 2) (k + 1)" by (subst rv_class.simps) simp
    then show ?thesis using 1 True by simp
  next
    case False
    then have "rv_class i j k = k" "i < 24 + j" using 1(2) by (subst rv_class.simps, auto simp: sizeof_Bigint_def)
    moreover have "(1::nat) \<le> 2 ^ k" by simp
    ultimately show ?thesis using 1(2) by (simp add: rv_room_def sizeof_Bigint_def diff_mult_distrib)
  qed
qed

declare rv_class.simps [simp del]

lemma rv_alloc_fields: "rv_alloc i al = (rv, res, al') \<Longrightarrow> rv_k rv = rv_class i 4 0 \<and> al_p5s al' = al_p5s al"
  by (auto simp: rv_alloc_def Let_def case_prod_beta)

lemma d2b_p5s: "d2b d al = Inr (b, e, bits, d', al') \<Longrightarrow> al_p5s al' = al_p5s al"
  using Balloc_p5s [of 1 al] by (auto simp: d2b_def Let_def bindR_eq_Inr split: prod.splits)

lemma exponent_bits: "(x AND Exp_mask = 0) = (drop_bit Exp_shift (x AND 0x7fffffff) = 0)"
proof -
  have m: "Exp_mask = push_bit 20 (mask 11)" "(0x7fffffff :: 32 word) = mask 31"
    by (simp_all add: Exp_mask_def mask_eq_exp_minus_1)
  show ?thesis unfolding m Exp_shift_def
  proof
    assume a: "x AND push_bit 20 (mask 11) = 0"
    show "drop_bit 20 (x AND mask 31) = 0"
    proof (rule bit_word_eqI)
      fix n
      have "bit (x AND push_bit 20 (mask 11)) (20 + n) = bit (0 :: 32 word) (20 + n)" by (simp only: a)
      then show "bit (drop_bit 20 (x AND mask 31)) n = bit (0 :: 32 word) n" by (auto simp: bit_simps)
    qed
  next
    assume a: "drop_bit 20 (x AND mask 31) = 0"
    show "x AND push_bit 20 (mask 11) = 0"
    proof (rule bit_word_eqI)
      fix n
      have "bit (drop_bit 20 (x AND mask 31)) (n - 20) = bit (0 :: 32 word) (n - 20)" by (simp only: a)
      then show "bit (x AND push_bit 20 (mask 11)) n = bit (0 :: 32 word) n" by (auto simp: bit_simps)
    qed
  qed
qed

lemma start_exponents_nat:
  assumes "bbits - i - 1 = - be"
  obtains b2 b5 s2 s5 where "start_exponents bbits i k = (b2, b5, s2, s5)" "0 \<le> b2" "0 \<le> b5" "0 \<le> s2" "0 \<le> s5"
    "nat b2 = nat be + nat (- k)" "nat b5 = nat (- k)" "nat s2 = nat (- be) + nat k" "nat s5 = nat k"
proof -
  have "start_exponents bbits i k = (max be 0 + max (- k) 0, max (- k) 0, max (- be) 0 + max k 0, max k 0)"
    using assms by (simp add: start_exponents_def Let_def)
  then show thesis by (rule that) linarith+
qed

text \<open>The exponent the source computes for \<open>i\<close>, for normal and denormalised numbers.\<close>

lemma d2b_exponent:
  assumes m: "mantissa u \<noteq> 0" and r: "d2b u al = Inr (b, be, bbits, u', al1)"
    and i: "i = (if word0 u' AND Exp_mask = 0 then bbits + be - 1 else uint (drop_bit Exp_shift (word0 u')) - Bias)"
  shows "bbits - i - 1 = - be"
proof -
  obtain k n where k: "mantissa u = value_of b * 2 ^ k" "be = int (max 1 (dbl_exp u)) - 1075 + int k"
    and n: "bbits = int n" "0 < n" "2 ^ (n - 1) \<le> value_of b" "value_of b < 2 ^ n"
    and u': "u' = u\<lparr>word0 := word0 u AND 0x7fffffff\<rparr>"
    using d2b_lemma [OF m, of al] r by auto
  have e: "unat (drop_bit Exp_shift (word0 u')) = dbl_exp u" by (simp add: u' dbl_exp_def)
  have z: "(word0 u' AND Exp_mask = 0) = (dbl_exp u = 0)"
  proof -
    have w: "word0 u' = word0 u AND 0x7fffffff" by (simp add: u')
    have "word0 u' AND 0x7fffffff = word0 u'" unfolding w by (simp only: and.assoc and.idem)
    then show ?thesis using exponent_bits [of "word0 u'"] e by (metis unat_eq_0)
  qed
  show ?thesis
  proof (cases "dbl_exp u = 0")
    case True
    then show ?thesis using i z by simp
  next
    case False
    have "2 ^ 20 \<le> dbl_high u" "dbl_high u < 2 ^ 21" using False frac_bound [of u] by (simp_all add: dbl_high_def)
    then have mb: "2 ^ 52 \<le> mantissa u" "mantissa u < 2 ^ (52 + 1)"
      using unat32 [of "word1 u"] by (simp_all add: mantissa_def)
    have "2 ^ (n - 1) * 2 ^ k \<le> value_of b * 2 ^ k" "value_of b * 2 ^ k < 2 ^ n * 2 ^ k" using n by simp_all
    moreover have s: "n + k = n - 1 + k + 1" using n(2) by simp
    ultimately have "2 ^ (n - 1 + k) \<le> mantissa u" "mantissa u < 2 ^ (n - 1 + k + 1)"
      by (simp_all only: k(1) power_add [symmetric] s)
    from bit_length_unique [OF this mb] have nk: "n - 1 + k = 52" .
    have v: "uint (drop_bit Exp_shift (word0 u')) = int (dbl_exp u)" unfolding e [symmetric] by (rule uint_nat)
    have ne: "\<not> (word0 u' AND Exp_mask = 0)" using z False by blast
    have "i = int (dbl_exp u) - 1023" by (subst i, subst if_not_P [OF ne]) (simp only: v Bias_def)
    moreover have "be = int (dbl_exp u) - 1075 + int k" using k(2) False by (simp add: max_def)
    ultimately show ?thesis using nk n(1,2) by linarith
  qed
qed

lemma scaled_ratio:
  assumes k: "mantissa u = v * 2 ^ k'" "be = int (max 1 (dbl_exp u)) - 1075 + int k'"
    and e: "nat b2 = nat be + nat (- k)" "nat b5 = nat (- k)" "nat s2 = nat (- be) + nat k" "nat s5 = nat k"
    and r: "vb * (2 ^ nat s2 * 5 ^ nat s5) = v * 2 ^ nat b2 * 5 ^ nat b5 * vS"
  shows "vb * dden k = dnum u k * vS"
proof -
  have t: "1075 = nat (- be) + (1075 - nat (- be))" "k' + max 1 (dbl_exp u) = nat be + (1075 - nat (- be))"
    using k(2) by linarith+
  have ten: "(10::nat) ^ n = 2 ^ n * 5 ^ n" for n by (simp flip: power_mult_distrib)
  define t where "t = 1075 - nat (- be)"
  have p: "(2::nat) ^ 1075 = 2 ^ nat (- be) * 2 ^ t" by (simp only: t_def t(1) [symmetric] power_add [symmetric])
  have d: "dden k = 2 ^ t * (2 ^ nat s2 * 5 ^ nat s5)"
    unfolding dden_def e ten p power_add by (simp only: ac_simps)
  have "mantissa u * 2 ^ max 1 (dbl_exp u) = v * 2 ^ (k' + max 1 (dbl_exp u))"
    unfolding k(1) power_add by (simp only: ac_simps)
  also have "\<dots> = v * (2 ^ nat be * 2 ^ t)" by (simp only: t(2) t_def power_add)
  finally have n: "dnum u k = 2 ^ t * (v * 2 ^ nat b2 * 5 ^ nat b5)"
    unfolding dnum_def e ten power_add by (simp only: ac_simps)
  have "vb * dden k = 2 ^ t * (vb * (2 ^ nat s2 * 5 ^ nat s5))" unfolding d by (simp only: ac_simps)
  then show ?thesis unfolding r n by (simp only: ac_simps)
qed

section \<open>From the double to the string\<close>

lemma int32_range: "- (2 ^ 31) \<le> int32 x" "int32 x < 2 ^ 31"
  using sint_greater_eq [of "word_of_int x :: 32 word"] sint_less [of "word_of_int x :: 32 word"]
  by (simp_all add: int32_def)

lemma fixed_mode:
  assumes "dm = choose_mode mode ndigits k" "\<not> dm_leftright dm" "0 < dm_ilim dm"
  shows "2 \<le> dm_mode dm" "dm_ilim dm \<le> dm_i dm" "dm_ilim1 dm \<le> dm_i dm" "0 < dm_i dm"
  using assms int32_id [of "int32 (ndigits + k + 1) - 1"] int32_range [of "ndigits + k + 1"]
  by (auto simp: choose_mode_def Let_def split: if_splits)

lemma correct_estimate_fixed:
  assumes ds: "ds_mhi ds = None" "normal (ds_b ds)" "0 < value_of (ds_b ds)" "divisor_ok (ds_S ds)"
    and v: "c \<or> value_of (ds_S ds) \<le> value_of (ds_b ds)" "low = (value_of (ds_b ds) < value_of (ds_S ds))"
  obtains ds' al' where
    "correct_estimate c dm ds k al = Inr (ds', if low then k - 1 else k, if low then dm_ilim1 dm else dm_ilim dm, al')"
    "ds_mhi ds' = None" "ds_S ds' = ds_S ds" "normal (ds_b ds')"
    "value_of (ds_b ds') = (if low then 10 * value_of (ds_b ds) else value_of (ds_b ds))"
proof -
  have nS: "normal (ds_S ds)" using ds(4) by (simp add: divisor_ok_def)
  obtain x where x: "cmp (ds_b ds) (ds_S ds) = Inr x" "x < 0 \<longleftrightarrow> value_of (ds_b ds) < value_of (ds_S ds)"
    using cmp_value [OF ds(2) nS] by blast
  show thesis
  proof (cases low)
    case False
    with v x ds show thesis by (intro that [of ds al]) (auto simp: correct_estimate_def)
  next
    case True
    obtain b' al' where m: "multadd (ds_b ds) 10 0 al = Inr (b', al')" "value_of b' = value_of (ds_b ds) * 10" "normal b'"
      using multadd_value [of "ds_b ds" 10 0 al] ds(2) by (auto simp: normal_def)
    from True v x ds m show thesis
      by (intro that [of "ds\<lparr>ds_b := b', ds_mhi := None\<rparr>" al']) (auto simp: correct_estimate_def)
  qed
qed

lemma ratio_order:
  assumes r: "vb * dden k = dnum u k * vS" and p: "0 < vb"
  shows "0 < vS" "vS \<le> vb \<longleftrightarrow> reaches u k" "vb < 10 * vS \<longleftrightarrow> \<not> reaches u (k + 1)" "vS \<le> 10 * vb \<longleftrightarrow> reaches u (k - 1)"
proof -
  show s: "0 < vS" using r p dden_pos [of k] by (metis mult_0_right mult_is_0 neq0_conv)
  have "vS \<le> vb \<longleftrightarrow> vS * dden k \<le> vb * dden k" by simp
  also have "\<dots> \<longleftrightarrow> dden k \<le> dnum u k" unfolding r using s by (simp add: mult.commute)
  finally show "vS \<le> vb \<longleftrightarrow> reaches u k" by (simp add: reaches_def)
  have "10 * vS \<le> vb \<longleftrightarrow> vS * (10 * dden k) \<le> vb * dden k" by (simp add: mult.commute flip: mult.assoc)
  also have "\<dots> \<longleftrightarrow> 10 * dden k \<le> dnum u k" unfolding r using s by (simp add: mult.commute)
  finally show "vb < 10 * vS \<longleftrightarrow> \<not> reaches u (k + 1)" unfolding reaches_succ by linarith
  have "vS \<le> 10 * vb \<longleftrightarrow> vS * dden k \<le> 10 * (vb * dden k)" by (simp flip: mult.assoc)
  also have "\<dots> \<longleftrightarrow> dden k \<le> 10 * dnum u k" unfolding r using s by (simp add: ac_simps)
  finally show "vS \<le> 10 * vb \<longleftrightarrow> reaches u (k - 1)" by (simp add: reaches_pred)
qed

lemma corrected_ratio:
  assumes r: "vb * dden k = dnum u k * vS"
  shows "(if low then 10 * vb else vb) * dden (if low then k - 1 else k) = dnum u (if low then k - 1 else k) * vS"
proof (cases low)
  case True
  have "10 * vb * dden (k - 1) * dden k = 10 * dden (k - 1) * (vb * dden k)" by (simp only: ac_simps)
  also have "\<dots> = 10 * dnum u k * dden (k - 1) * vS" unfolding r by (simp only: ac_simps)
  also have "\<dots> = dnum u (k - 1) * vS * dden k" unfolding ten_times by (simp only: ac_simps)
  finally have "10 * vb * dden (k - 1) = dnum u (k - 1) * vS"
    using dden_pos [of k] by (simp only: mult_cancel2) simp
  then show ?thesis using True by simp
qed (simp add: r)

text \<open>
  The multiple-precision part in the modes for a given number of digits, halves to even, without zeros
  at the ends: with \<open>Suc n\<close> digits requested and \<open>k1\<close> the decimal exponent of the number, the digits
  times a power of ten are the rounding of \<open>\<bar>u\<bar> / 10 ^ k1\<close> times \<open>10 ^ n\<close>. The exponent grows by one
  when rounding carries out of the first digit. It is enough that the estimate \<open>k\<close> is the decimal
  exponent, or, when the code is told to check, one more.
\<close>

lemma dtoa_long_fixed:
  assumes b: "normal b" "0 < value_of b" "mantissa u = value_of b * 2 ^ k'" "be = int (max 1 (dbl_exp u)) - 1075 + int k'"
    and i: "bbits - i - 1 = - be" and al: "p5s_ok al"
    and dm: "dm = choose_mode mode ndigits k" "\<not> dm_leftright dm"
    and est: "\<not> reaches u (k + 1)" "if k_check then reaches u (k - 1) else reaches u k"
    and k1: "k1 = (if reaches u k then k else k - 1)"
    and n: "Suc n = nat (if reaches u k then dm_ilim dm else dm_ilim1 dm)" "0 < dm_ilim dm"
  shows "\<exists>s k2 al'. dtoa_long fuel dm denorm be bbits u b i k k_check al = Inr (s, k2, al') \<and>
    length s \<le> nat (dm_i dm) \<and> printed [] k1 s k2 n (round_half_even (dnum u k1 * 10 ^ n) (dden k1))"
proof -
  obtain b2 b5 s2 s5 where st: "start_exponents bbits i k = (b2, b5, s2, s5)" "0 \<le> b2" "0 \<le> b5" "0 \<le> s2" "0 \<le> s5"
    "nat b2 = nat be + nat (- k)" "nat b5 = nat (- k)" "nat s2 = nat (- be) + nat k" "nat s5 = nat k"
    by (rule start_exponents_nat [OF i])
  note md = fixed_mode [OF dm n(2)]
  obtain ds al3 where ds: "scale False (dm_mode dm) denorm be bbits u b (b2, b5, s2, s5) al = Inr (ds, al3)"
    "ds_mhi ds = None" "normal (ds_b ds)" "0 < value_of (ds_b ds)" "divisor_ok (ds_S ds)"
    "value_of (ds_b ds) * (2 ^ nat s2 * 5 ^ nat s5) = value_of b * 2 ^ nat b2 * 5 ^ nat b5 * value_of (ds_S ds)"
    using scale_fixed [OF b(1,2) al st(2-5) md(1)] by blast
  have ratio: "value_of (ds_b ds) * dden k = dnum u k * value_of (ds_S ds)"
    by (rule scaled_ratio [OF b(3,4) st(6-9) ds(6)])
  note ord = ratio_order [OF ratio ds(4)]
  define low where "low = (value_of (ds_b ds) < value_of (ds_S ds))"
  have low: "reaches u k = (\<not> low)" using ord(2) by (auto simp: low_def)
  have kc: "k_check \<or> value_of (ds_S ds) \<le> value_of (ds_b ds)" using est(2) ord(2) by (cases k_check) simp_all
  obtain ds' al4 where ce:
    "correct_estimate k_check dm ds k al3 = Inr (ds', if low then k - 1 else k, if low then dm_ilim1 dm else dm_ilim dm, al4)"
    "ds_mhi ds' = None" "ds_S ds' = ds_S ds" "normal (ds_b ds')"
    "value_of (ds_b ds') = (if low then 10 * value_of (ds_b ds) else value_of (ds_b ds))"
    by (rule correct_estimate_fixed [OF ds(2-5) kc low_def])
  have k1': "(if low then k - 1 else k) = k1" using k1 low by simp
  have n': "(if low then dm_ilim1 dm else dm_ilim dm) = int (Suc n)" using n low by (auto split: if_splits)
  have ratio': "value_of (ds_b ds') * dden k1 = dnum u k1 * value_of (ds_S ds)"
    using corrected_ratio [OF ratio, of low] k1' ce(5) by simp
  have range: "value_of (ds_S ds) \<le> value_of (ds_b ds')" "value_of (ds_b ds') < 10 * value_of (ds_S ds)"
    using ce(5) ord(3,4) est low kc by (auto simp: low_def split: if_splits)
  obtain s k2 b3 al5 where fx: "fixed_digits n (ds_b ds') (ds_S ds) [] k1 al4 = Inr (s, k2, b3, al5)"
    "printed [] k1 s k2 n (round_half_even (value_of (ds_b ds') * 10 ^ n) (value_of (ds_S ds)))"
    using fixed_digits_prints [OF ds(5) ce(4) _ range(2), of "[]" n k1 al4] range(1) ord(1) by auto
  have e: "value_of (ds_b ds') * 10 ^ n * dden k1 = dnum u k1 * 10 ^ n * value_of (ds_S ds)"
    unfolding mult.assoc mult.left_commute [of "value_of (ds_b ds')"] ratio' by (simp only: ac_simps)
  have pr: "printed [] k1 s k2 n (round_half_even (dnum u k1 * 10 ^ n) (dden k1))"
    using fx(2) unfolding round_ratio [OF ord(1) dden_pos e] .
  have gen: "generate fuel dm u ds' k1 (int (Suc n)) al4 = Inr (s, k2, free_all [Some (ds_S ds), Some b3] al5)"
    using ce(2,3) fx(1) by (simp add: generate_def Let_def)
  have "int (Suc n) \<le> dm_i dm" using n' md by (auto split: if_splits)
  moreover have "length s \<le> n + 1" using pr by (simp add: printed_def)
  ultimately have "length s \<le> nat (dm_i dm)" by linarith
  moreover have "dtoa_long fuel dm denorm be bbits u b i k k_check al = Inr (s, k2, free_all [Some (ds_S ds), Some b3] al5)"
    using dm(2) by (simp add: dtoa_long_def st(1) ds(1) ce(1) k1' n' gen [unfolded of_nat_Suc])
  ultimately show ?thesis using pr by blast
qed

text \<open>One third.\<close>

definition third :: dbl where
  "third = \<lparr>word0 = 0x3fd55555, word1 = 0x55555555\<rparr>"

lemma third_value: "mantissa third = 6004799503160661" "dbl_exp third = 1021"
  by (simp_all add: third_def mantissa_def dbl_high_def dbl_exp_def Frac_mask_def Exp_shift_def)

end
