(* ===== verification/Dtoa_Shortest.thy ===== *)
theory Dtoa_Shortest
  imports Dtoa_Scale
begin

text \<open>
  The loop of \<open>dtoa\<close> (src/src/common/dtoa.cc) that stops at the shortest string: every round either ends
  with a string inside the margins around the number, or no string of that length is inside them. The
  margins are tenfold in every round, so the loop ends.
\<close>

section \<open>Margins\<close>

text \<open>
  The number \<open>A / S\<close> with the margins \<open>m / S\<close> below and \<open>M / S\<close> above, and \<open>w\<close> in units of \<open>10 ^ - j\<close>; the ends
  count when \<open>incl\<close>.
\<close>

definition before :: "bool \<Rightarrow> nat \<Rightarrow> nat \<Rightarrow> bool" where
  "before incl x y \<longleftrightarrow> (if incl then x \<le> y else x < y)"

definition in_margins :: "bool \<Rightarrow> nat \<Rightarrow> nat \<Rightarrow> nat \<Rightarrow> nat \<Rightarrow> nat \<Rightarrow> nat \<Rightarrow> bool" where
  "in_margins incl A S m M j w \<longleftrightarrow> before incl (A * 10 ^ j) (w * S + m * 10 ^ j) \<and> before incl (w * S) ((A + M) * 10 ^ j)"

lemma in_margins_shift: "in_margins incl (10 * A) S (10 * m) (10 * M) j w = in_margins incl A S m M (Suc j) w"
  by (simp add: in_margins_def algebra_simps)

lemma in_margins_tens: "in_margins incl (10 * A) S (10 * m) (10 * M) 0 (10 * w) = in_margins incl A S m M 0 w"
  by (auto simp: in_margins_def before_def)

text \<open>When neither the digits so far nor the next number of that length is inside, no number of that length is.\<close>

lemma outside_both:
  assumes A: "A = D * S + r" "r < S" and lo: "\<not> before incl r m" and hi: "\<not> before incl S (r + M)"
  shows "\<not> in_margins incl A S m M 0 w"
proof (cases "w \<le> D")
  case True
  then have "w * S \<le> D * S" by simp
  then show ?thesis using lo unfolding A(1) in_margins_def before_def power_0 mult_1_right
    by (cases incl; simp only: if_True if_False; linarith)
next
  case False
  then have "(D + 1) * S \<le> w * S" by (intro mult_right_mono) simp_all
  then have "D * S + S \<le> w * S" by simp
  then show ?thesis using hi unfolding A(1) in_margins_def before_def power_0 mult_1_right
    by (cases incl; simp only: if_True if_False; linarith)
qed

section \<open>Remainders\<close>

lemma quorem_remainder:
  assumes S: "divisor_ok S" and b: "normal b" "value_of b < 10 * value_of S" and q: "quorem b S = Inr (q, b')"
  shows "remainder_ok b'"
proof -
  have nS: "normal S" "10 \<le> unat (last (digits S))" "unat (last (digits S)) < 2 ^ 28"
    using S by (simp_all add: divisor_ok_def)
  then have "last (digits S) \<noteq> - 1" by (auto simp: unsigned_minus_1_eq_mask mask_eq_exp_minus_1)
  moreover have rb: "remainder_ok b" using b(1) by (simp add: remainder_ok_def normal_ok)
  ultimately show ?thesis
    using quorem_lemma [OF rb divisor_bound [OF S b] nS(1,2) _ b(2)] q by force
qed

lemma remainder_zero:
  assumes "remainder_ok r" "value_of r = 0" "normal m"
  shows "bg_wds r = 0 \<or> normal r"
  using assms by (auto simp: remainder_ok_def)

text \<open>The comparison of a remainder, which may have no digits when it is zero.\<close>

lemma cmp_remainder_below:
  assumes r: "remainder_ok r" and m: "normal m"
  obtains c where "cmp r m = Inr c" "value_of r \<noteq> 0 \<Longrightarrow> (c < 0 \<longleftrightarrow> value_of r < value_of m) \<and> (c = 0 \<longleftrightarrow> value_of r = value_of m)"
    "value_of r = 0 \<Longrightarrow> 0 < value_of m \<Longrightarrow> c < 0" "value_of r = 0 \<Longrightarrow> c \<le> 0"
proof (cases "bg_wds r = 0")
  case True
  then have "value_of r = 0" "cmp r m = Inr (- int (bg_wds m))" "0 < bg_wds m"
    using m by (auto simp: value_of_def digits_def cmp_def normal_def)
  then show thesis by (intro that [of "- int (bg_wds m)"]) simp_all
next
  case False
  then have "normal r" using r by (auto simp: remainder_ok_def)
  from cmp_value [OF this m] obtain c where c: "cmp r m = Inr c" "c < 0 \<longleftrightarrow> value_of r < value_of m" "c = 0 \<longleftrightarrow> value_of r = value_of m"
    by blast
  then show thesis by (intro that [of c]) linarith+
qed


section \<open>One round\<close>

definition low_margin :: "bigint option \<Rightarrow> bigint \<Rightarrow> bigint" where
  "low_margin mlo mhi = (case mlo of None \<Rightarrow> mhi | Some m \<Rightarrow> m)"

declare short_digits.simps [simp del]

lemma and_one_even: "(w :: 32 word) AND 1 = 0 \<longleftrightarrow> even (unat w)"
  using and_mask_zero [of w 1] by (simp add: mask_literals(5) [symmetric])

lemma printed_down:
  assumes "s1 = s @ [digit_char q]" "s1 \<noteq> []" "list_all dec_digit s1" "hd s1 \<noteq> CHR ''0''" "last s1 \<noteq> CHR ''0''"
  shows "printed s k s1 k 0 (decimal s1)"
  using assms by (auto simp: printed_def prints_def)

lemma printed_up:
  assumes "s1 = s @ [digit_char q]" "list_all dec_digit s1" "hd s1 \<noteq> CHR ''0''" "unat q < 9"
  shows "printed s k (s @ [digit_char (q + 1)]) k 0 (decimal s1 + 1)"
proof -
  have u: "unat (q + 1) = unat q + 1" using assms(4) by (simp add: unat_word_ariths)
  have q: "unat q \<le> 9" "unat (q + 1) \<le> 9" using assms(4) u by simp_all
  note d = digit_char_props [OF q(1)] and d1 = digit_char_props [OF q(2)]
  have nz: "digit_char (q + 1) \<noteq> CHR ''0''" using d1(3) u by simp
  have "decimal (s @ [digit_char (q + 1)]) = decimal s1 + 1"
    unfolding assms(1) decimal_snoc d(1) d1(1) nat_int u by simp
  moreover have "hd (s @ [digit_char (q + 1)]) \<noteq> CHR ''0''" using assms(1,3) nz by (cases s) simp_all
  ultimately show ?thesis using assms(1,2) d1(2) nz
    by (auto simp: printed_def prints_def intro!: exI [of _ 0])
qed

lemma printed_nine:
  assumes "s1 = s @ [digit_char q]" "list_all dec_digit s1" "hd s1 \<noteq> CHR ''0''" "q = 9"
  obtains s' k' where "roundoff (s @ ''9'') k = (s', k')" "printed s k s' k' 0 (decimal s1 + 1)"
proof -
  have "s @ ''9'' = s1" using assms(1,4) by (simp add: digit_char_def char_of_def bit_iff_odd)
  moreover obtain s' k' m where "roundoff s1 k = (s', k')" "length s' \<le> length s1" "k' = k \<or> k' = k + 1"
    "int (length s' + m) = int (length s1) + (k' - k)" "prints s' m (decimal s1 + 1)"
    using roundoff_prints [of s1 k] assms(1-3) by auto
  ultimately show thesis using assms(1) by (intro that) (auto simp: printed_def)
qed


text \<open>The comparisons of a round: with the lower margin, and with what the upper margin leaves of the divisor.\<close>

lemma round_signs:
  assumes S: "normal S" and rem: "remainder_ok b'" and m: "normal m" "0 < value_of m" and M: "normal mhi"
  obtains j delta al1 j1 where "cmp b' m = Inr j"
    "value_of b' \<noteq> 0 \<longrightarrow> (j < 0 \<longleftrightarrow> value_of b' < value_of m) \<and> (j = 0 \<longleftrightarrow> value_of b' = value_of m)" "value_of b' = 0 \<longrightarrow> j < 0"
    "diff S mhi al = Inr (delta, al1)"
    "(if bg_sign delta \<noteq> 0 then Inr 1 else cmp b' delta) = Inr j1"
    "j1 > 0 \<longrightarrow> value_of S < value_of b' + value_of mhi" "j1 = 0 \<longrightarrow> value_of S = value_of b' + value_of mhi"
    "value_of b' \<noteq> 0 \<longrightarrow> j1 < 0 \<longrightarrow> value_of b' + value_of mhi < value_of S"
proof -
  let ?S = "value_of S" and ?M = "value_of mhi"
  obtain j where j: "cmp b' m = Inr j"
    "value_of b' \<noteq> 0 \<longrightarrow> (j < 0 \<longleftrightarrow> value_of b' < value_of m) \<and> (j = 0 \<longleftrightarrow> value_of b' = value_of m)" "value_of b' = 0 \<longrightarrow> j < 0"
    using cmp_remainder_below [OF rem m(1)] m(2) by metis
  obtain delta al1 where d: "diff S mhi al = Inr (delta, al1)" "normal delta"
    "int (value_of delta) = \<bar>int ?S - int ?M\<bar>" "bg_sign delta = (if ?S < ?M then 1 else 0)"
    using diff_lemma [OF S M, of al] by blast
  show thesis
  proof (cases "?S < ?M")
    case True
    then show thesis using d(4) by (intro that [OF j d(1), of 1]) simp_all
  next
    case False
    then have e: "value_of delta + ?M = ?S" using d(3) by linarith
    obtain c where c: "cmp b' delta = Inr c" "value_of b' \<noteq> 0 \<Longrightarrow> (c < 0 \<longleftrightarrow> value_of b' < value_of delta) \<and> (c = 0 \<longleftrightarrow> value_of b' = value_of delta)"
      "value_of b' = 0 \<Longrightarrow> 0 < value_of delta \<Longrightarrow> c < 0" "value_of b' = 0 \<Longrightarrow> c \<le> 0"
      using cmp_remainder_below [OF rem d(2)] by blast
    have "?S < value_of b' + ?M" if "c > 0" using c e that by (cases "value_of b' = 0") auto
    moreover have "?S = value_of b' + ?M" if "c = 0"
    proof (cases "value_of b' = 0")
      case True
      then have "\<not> 0 < value_of delta" using c(3) that by force
      then show ?thesis using e True by simp
    qed (use c e that in auto)
    moreover have "value_of b' + ?M < ?S" if "value_of b' \<noteq> 0" "c < 0" using c e that by auto
    ultimately show thesis using False d(4) c(1) by (intro that [OF j d(1), of c]) auto
  qed
qed

lemma short_round:
  assumes S: "divisor_ok S" and b: "normal b" "0 < value_of b" "value_of b < 10 * value_of S"
    and s: "list_all dec_digit s" "if s = [] then value_of S \<le> value_of b else hd s \<noteq> CHR ''0'' \<and> 0 < decimal s"
    and m: "normal (low_margin mlo mhi)" "0 < value_of (low_margin mlo mhi)" and M: "normal mhi" "0 < value_of mhi"
    and A: "A = decimal s * 10 * value_of S + value_of b"
    and prev: "s = [] \<or> (\<forall>w. \<not> in_margins incl A (value_of S) (value_of (low_margin mlo mhi)) (value_of mhi) 0 (10 * w))"
    and incl: "incl \<longleftrightarrow> mode \<noteq> 1 \<and> even (unat (word1 u))" and i: "i \<noteq> ilim"
  shows "(\<exists>s' k' b' al' v. short_digits (Suc n) mode u ilim i b S mlo mhi s k al = Inr (s', k', b', mlo, mhi, al') \<and>
      printed s k s' k' 0 v \<and> in_margins incl A (value_of S) (value_of (low_margin mlo mhi)) (value_of mhi) 0 v) \<or>
    (\<exists>q b' al' s1. s1 = s @ [digit_char q] \<and> normal b' \<and> 0 < value_of b' \<and> value_of b' < value_of S \<and>
      list_all dec_digit s1 \<and> hd s1 \<noteq> CHR ''0'' \<and> 0 < decimal s1 \<and> A = decimal s1 * value_of S + value_of b' \<and>
      (\<forall>w. \<not> in_margins incl A (value_of S) (value_of (low_margin mlo mhi)) (value_of mhi) 0 w) \<and>
      value_of (low_margin mlo mhi) + value_of mhi \<le> value_of S \<and>
      short_digits (Suc n) mode u ilim i b S mlo mhi s k al =
        bindR (multadd b' 10 0 al') (\<lambda>(b, al).
        bindR (case mlo of
                 None \<Rightarrow> bindR (multadd mhi 10 0 al) (\<lambda>(mh, al). Inr (None, mh, al))
               | Some m \<Rightarrow>
                   bindR (multadd m 10 0 al) (\<lambda>(m', al).
                   bindR (multadd mhi 10 0 al) (\<lambda>(mh, al). Inr (Some m', mh, al)))) (\<lambda>(mlo, mhi, al).
        short_digits n mode u ilim (i + 1) b S mlo mhi s1 k al)))"
proof -
  let ?m = "value_of (low_margin mlo mhi)" and ?M = "value_of mhi" and ?S = "value_of S"
  let ?in = "in_margins incl A ?S ?m ?M 0"
  have nS: "normal S" using S by (simp add: divisor_ok_def)
  obtain q b' s1 where q: "s1 = s @ [digit_char q]" "quorem b S = Inr (q, b')" "is_exact b' = Inr (value_of b' = 0)"
    "value_of b' \<noteq> 0 \<longrightarrow> normal b'" "value_of b' < ?S" "odd (unat q) = odd (decimal s1)"
    "value_of b' = 0 \<longrightarrow> last s1 \<noteq> CHR ''0''" and s1: "s1 \<noteq> []" "list_all dec_digit s1" "hd s1 \<noteq> CHR ''0''" "0 < decimal s1"
    and A1: "decimal s * 10 * ?S + value_of b = decimal s1 * ?S + value_of b'"
    by (rule next_digit [OF S b s])
  have A1: "A = decimal s1 * ?S + value_of b'" unfolding A A1 ..
  have rem: "remainder_ok b'" by (rule quorem_remainder [OF S b(1,3) q(2)])
  have q9: "unat q \<le> 9"
  proof -
    obtain q' b1 where "quorem b S = Inr (q', b1)" "unat q' \<le> 9" by (rule digit_step [OF S b(1,3)])
    then show ?thesis using q(2) by simp
  qed
  obtain j delta al1 j1 where j: "cmp b' (low_margin mlo mhi) = Inr j"
    "value_of b' \<noteq> 0 \<longrightarrow> (j < 0 \<longleftrightarrow> value_of b' < ?m) \<and> (j = 0 \<longleftrightarrow> value_of b' = ?m)" "value_of b' = 0 \<longrightarrow> j < 0"
    and d: "diff S mhi al = Inr (delta, al1)"
    and j1: "(if bg_sign delta \<noteq> 0 then Inr 1 else cmp b' delta) = Inr j1"
    "j1 > 0 \<longrightarrow> ?S < value_of b' + ?M" "j1 = 0 \<longrightarrow> ?S = value_of b' + ?M"
    "value_of b' \<noteq> 0 \<longrightarrow> j1 < 0 \<longrightarrow> value_of b' + ?M < ?S"
    by (rule round_signs [OF nS rem m M(1), where al = al])
  note j = j(1) j(2,3) [rule_format] and j1 = j1(1) j1(2-) [rule_format]
  have even: "(word1 u AND 1 = 0) = even (unat (word1 u))" by (rule and_one_even)
  define al2 where "al2 = Bfree (Some delta) al1"
  have eq: "short_digits (Suc n) mode u ilim i b S mlo mhi s k al =
      (if j1 = 0 \<and> incl then
         (if q = 9 then (let (s', k') = roundoff (s @ ''9'') k in Inr (s', k', b', mlo, mhi, al2))
          else Inr (s @ [digit_char (if j > 0 then q + 1 else q)], k, b', mlo, mhi, al2))
       else if j < 0 \<or> (j = 0 \<and> incl) then
         (if value_of b' = 0 then Inr (s1, k, b', mlo, mhi, al2)
          else if j1 > 0 then
             bindR (lshift b' 1 al2) (\<lambda>(b, al).
             bindR (cmp b S) (\<lambda>j1.
               if j1 > 0 \<or> (j1 = 0 \<and> q AND 1 \<noteq> 0) then
                 (if q = 9 then (let (s', k') = roundoff (s @ ''9'') k in Inr (s', k', b, mlo, mhi, al))
                  else Inr (s @ [digit_char (q + 1)], k, b, mlo, mhi, al))
               else Inr (s1, k, b, mlo, mhi, al)))
           else Inr (s1, k, b', mlo, mhi, al2))
       else if j1 > 0 then
         (if q = 9 then (let (s', k') = roundoff (s @ ''9'') k in Inr (s', k', b', mlo, mhi, al2))
          else Inr (s @ [digit_char (q + 1)], k, b', mlo, mhi, al2))
       else
         bindR (multadd b' 10 0 al2) (\<lambda>(b, al).
         bindR (case mlo of
                  None \<Rightarrow> bindR (multadd mhi 10 0 al) (\<lambda>(mh, al). Inr (None, mh, al))
                | Some m \<Rightarrow>
                    bindR (multadd m 10 0 al) (\<lambda>(m', al).
                    bindR (multadd mhi 10 0 al) (\<lambda>(mh, al). Inr (Some m', mh, al)))) (\<lambda>(mlo, mhi, al).
         short_digits n mode u ilim (i + 1) b S mlo mhi s1 k al)))"
    using i by (simp add: short_digits.simps(2) q(2,3) j(1) [unfolded low_margin_def] d j1(1) Let_def even incl al2_def q(1) cong: if_cong)
  let ?run = "short_digits (Suc n) mode u ilim i b S mlo mhi s k al"
  let ?done = "\<exists>s' k' b' al' v. ?run = Inr (s', k', b', mlo, mhi, al') \<and> printed s k s' k' 0 v \<and> ?in v"
  have down: ?done if "before incl (value_of b') ?m" "?run = Inr (s1, k, b2, mlo, mhi, al3)" for b2 al3
  proof -
    have im: "?in (decimal s1)" using that(1) M(2) unfolding A1 by (auto simp: in_margins_def before_def)
    have "last s1 \<noteq> CHR ''0''"
    proof
      assume z: "last s1 = CHR ''0''"
      then have z: "unat q = 0" using digit_char_props(3) [OF q9] q(1) by simp
      have "decimal s1 = 10 * decimal s" using digit_char_props(1) [OF q9] z by (simp add: q(1))
      moreover have "s \<noteq> []" using s1(4) z digit_char_props(1) [OF q9] by (auto simp: q(1))
      ultimately show False using prev im by simp
    qed
    then have "printed s k s1 k 0 (decimal s1)" by (rule printed_down [OF q(1) s1(1-3)])
    with im that(2) show ?thesis by blast
  qed
  have inup: "?in (decimal s1 + 1)" if "before incl ?S (value_of b' + ?M)"
    using that q(5) unfolding A1 by (auto simp: in_margins_def before_def)
  have up: ?done if "before incl ?S (value_of b' + ?M)"
    "?run = (if q = 9 then (let (s', k') = roundoff (s @ ''9'') k in Inr (s', k', b2, mlo, mhi, al3))
      else Inr (s @ [digit_char (q + 1)], k, b2, mlo, mhi, al3))" for b2 al3
  proof (cases "q = 9")
    case True
    obtain s' k' where "roundoff (s @ ''9'') k = (s', k')" "printed s k s' k' 0 (decimal s1 + 1)"
      by (rule printed_nine [OF q(1) s1(2,3) True])
    then show ?thesis using that(2) True inup [OF that(1)] by auto
  next
    case False
    then have "unat q \<noteq> 9" by (simp add: word_unat_eq_iff)
    then have "printed s k (s @ [digit_char (q + 1)]) k 0 (decimal s1 + 1)" using q9 by (intro printed_up [OF q(1) s1(2,3)]) simp
    then show ?thesis using that(2) False inup [OF that(1)] by auto
  qed
  consider (ends) "j1 = 0" incl | (low) "\<not> (j1 = 0 \<and> incl)" "j < 0 \<or> (j = 0 \<and> incl)"
    | (high) "\<not> (j1 = 0 \<and> incl)" "\<not> (j < 0 \<or> (j = 0 \<and> incl))" "j1 > 0"
    | (on) "\<not> (j1 = 0 \<and> incl)" "\<not> (j < 0 \<or> (j = 0 \<and> incl))" "\<not> j1 > 0" by blast
  then show ?thesis
  proof cases
    case ends
    have h: "before incl ?S (value_of b' + ?M)" using j1(3) ends by (simp add: before_def)
    show ?thesis
    proof (cases "q = 9 \<or> j > 0")
      case True
      then show ?thesis using ends by (intro disjI1 up [OF h]) (auto simp: eq)
    next
      case False
      have "before incl (value_of b') ?m" using False j(2) ends m(2) by (cases "value_of b' = 0") (auto simp: before_def)
      then show ?thesis using False ends by (intro disjI1 down) (auto simp: eq q(1))
    qed
  next
    case low
    have l: "before incl (value_of b') ?m" using low(2) j(2) m(2) by (cases "value_of b' = 0") (auto simp: before_def)
    show ?thesis
    proof (cases "value_of b' \<noteq> 0 \<and> j1 > 0")
      case False
      then show ?thesis using low by (intro disjI1 down [OF l]) (auto simp: eq)
    next
      case True
      have h: "before incl ?S (value_of b' + ?M)" using j1(2) True by (simp add: before_def)
      obtain b2 al3 where l2: "lshift b' 1 al2 = Inr (b2, al3)" "normal b2"
        using lshift_lemma [of b' 1 al2] q(4) True by auto
      obtain c where c: "cmp b2 S = Inr c" using cmp_value [OF l2(2) nS] by blast
      show ?thesis
      proof (cases "c > 0 \<or> (c = 0 \<and> q AND 1 \<noteq> 0)")
        case up2: True
        have "?run = (if q = 9 then (let (s', k') = roundoff (s @ ''9'') k in Inr (s', k', b2, mlo, mhi, al3))
            else Inr (s @ [digit_char (q + 1)], k, b2, mlo, mhi, al3))"
          using low True l2(1) c up2 by (simp add: eq)
        then show ?thesis by (intro disjI1 up [OF h])
      next
        case down2: False
        have "?run = Inr (s1, k, b2, mlo, mhi, al3)" using low True l2(1) c down2 by (auto simp: eq)
        then show ?thesis by (intro disjI1 down [OF l])
      qed
    qed
  next
    case high
    have h: "before incl ?S (value_of b' + ?M)" using j1(2) high by (simp add: before_def)
    have "?run = (if q = 9 then (let (s', k') = roundoff (s @ ''9'') k in Inr (s', k', b', mlo, mhi, al2))
        else Inr (s @ [digit_char (q + 1)], k, b', mlo, mhi, al2))"
      using high unfolding eq by auto
    then show ?thesis by (intro disjI1 up [OF h])
  next
    case on
    have nz: "value_of b' \<noteq> 0" using on(2) j(3) by auto
    then have b': "normal b'" "0 < value_of b'" using q(4) by simp_all
    have lo: "\<not> before incl (value_of b') ?m" using on(2) j(2) [OF nz] by (auto simp: before_def)
    have hi: "\<not> before incl ?S (value_of b' + ?M)" using on(1,3) j1(2-4) nz by (cases "j1 = 0") (auto simp: before_def)
    have "?m + ?M \<le> ?S" using lo hi by (auto simp: before_def split: if_splits)
    moreover have "\<forall>w. \<not> ?in w" using outside_both [OF A1 q(5) lo hi] by blast
    moreover note run = eq [unfolded if_not_P [OF on(1)] if_not_P [OF on(2)] if_not_P [OF on(3)]]
    ultimately show ?thesis using b' q(1,5) s1(2-4) A1
      by (intro disjI2 exI [of _ q] exI [of _ b'] exI [of _ al2] exI [of _ s1]) (intro conjI; assumption)
  qed
qed


section \<open>The loop\<close>

lemma multadd_ten:
  assumes "normal b" "0 < value_of b"
  obtains b' al' where "multadd b 10 0 al = Inr (b', al')" "normal b'" "value_of b' = 10 * value_of b" "0 < value_of b'"
  using multadd_value [of b 10 0 al] assms by (auto simp: normal_def)

lemma margins_ten:
  assumes "normal (low_margin mlo mhi)" "0 < value_of (low_margin mlo mhi)" "normal mhi" "0 < value_of mhi"
  obtains mlo' mhi' al' where
    "(case mlo of
        None \<Rightarrow> bindR (multadd mhi 10 0 al) (\<lambda>(mh, al). Inr (None, mh, al))
      | Some m \<Rightarrow>
          bindR (multadd m 10 0 al) (\<lambda>(m', al).
          bindR (multadd mhi 10 0 al) (\<lambda>(mh, al). Inr (Some m', mh, al)))) = Inr (mlo', mhi', al')"
    "normal (low_margin mlo' mhi')" "value_of (low_margin mlo' mhi') = 10 * value_of (low_margin mlo mhi)"
    "normal mhi'" "value_of mhi' = 10 * value_of mhi"
proof (cases mlo)
  case None
  obtain b' al' where "multadd mhi 10 0 al = Inr (b', al')" "normal b'" "value_of b' = 10 * value_of mhi"
    by (rule multadd_ten [OF assms(3,4)])
  then show thesis using None by (intro that [of None b' al']) (simp_all add: low_margin_def)
next
  case (Some m)
  obtain m' al1 where "multadd m 10 0 al = Inr (m', al1)" "normal m'" "value_of m' = 10 * value_of m"
    using multadd_ten [of m al] assms(1,2) Some by (auto simp: low_margin_def)
  moreover obtain b' al' where "multadd mhi 10 0 al1 = Inr (b', al')" "normal b'" "value_of b' = 10 * value_of mhi"
    by (rule multadd_ten [OF assms(3,4)])
  ultimately show thesis using Some by (intro that [of "Some m'" b' al']) (simp_all add: low_margin_def)
qed

text \<open>
  The loop ends when the margins, ten times as wide in every round, fill a unit. What it gives is inside
  the margins, and no shorter number is.
\<close>

lemma short_digits_shortest:
  assumes S: "divisor_ok S" and b: "normal b" "0 < value_of b" "value_of b < 10 * value_of S"
    and s: "list_all dec_digit s" "if s = [] then value_of S \<le> value_of b else hd s \<noteq> CHR ''0'' \<and> 0 < decimal s"
    and m: "normal (low_margin mlo mhi)" "0 < value_of (low_margin mlo mhi)" and M: "normal mhi" "0 < value_of mhi"
    and A: "A = decimal s * 10 * value_of S + value_of b"
    and prev: "s = [] \<or> (\<forall>w. \<not> in_margins incl A (value_of S) (value_of (low_margin mlo mhi)) (value_of mhi) 0 (10 * w))"
    and incl: "incl \<longleftrightarrow> mode \<noteq> 1 \<and> even (unat (word1 u))" and i: "ilim < i"
    and fuel: "value_of S < (value_of (low_margin mlo mhi) + value_of mhi) * 10 ^ N" "N < F"
  shows "\<exists>n\<le>N. \<exists>s' k' b' mlo' mhi' al' v.
    short_digits F mode u ilim i b S mlo mhi s k al = Inr (s', k', b', mlo', mhi', al') \<and> printed s k s' k' n v \<and>
    in_margins incl A (value_of S) (value_of (low_margin mlo mhi)) (value_of mhi) n v \<and>
    (\<forall>j<n. \<forall>w. \<not> in_margins incl A (value_of S) (value_of (low_margin mlo mhi)) (value_of mhi) j w)"
  using b s m M A prev i fuel
proof (induction N arbitrary: b s mlo mhi A i al F)
  case 0
  obtain f where F: "F = Suc f" using "0.prems"(14) by (cases F) simp_all
  have "i \<noteq> ilim" using "0.prems"(12) by simp
  from short_round [OF S "0.prems"(1-11) incl this, of f k al] show ?case
  proof (elim disjE exE conjE)
    fix s' k' b' al' v
    assume "short_digits (Suc f) mode u ilim i b S mlo mhi s k al = Inr (s', k', b', mlo, mhi, al')"
      "printed s k s' k' 0 v" "in_margins incl A (value_of S) (value_of (low_margin mlo mhi)) (value_of mhi) 0 v"
    then show ?thesis
      by (intro exI [of _ 0] conjI exI [of _ s'] exI [of _ k'] exI [of _ b'] exI [of _ mlo] exI [of _ mhi] exI [of _ al'] exI [of _ v])
        (simp_all add: F)
  qed (use "0.prems"(13) in simp)
next
  case (Suc N)
  obtain f where F: "F = Suc f" "N < f" using Suc.prems(14) by (cases F) simp_all
  let ?in = "in_margins incl A (value_of S) (value_of (low_margin mlo mhi)) (value_of mhi)"
  have "i \<noteq> ilim" using Suc.prems(12) by simp
  from short_round [OF S Suc.prems(1-11) incl this, of f k al] show ?case
  proof (elim disjE exE conjE)
    fix q b' al1 s1
    assume s1: "s1 = s @ [digit_char q]" "list_all dec_digit s1" "hd s1 \<noteq> CHR ''0''" "0 < decimal s1"
      and b': "normal b'" "0 < value_of b'" "value_of b' < value_of S" "A = decimal s1 * value_of S + value_of b'"
      and none: "\<forall>w. \<not> ?in 0 w"
      and run: "short_digits (Suc f) mode u ilim i b S mlo mhi s k al =
        bindR (multadd b' 10 0 al1) (\<lambda>(b, al).
        bindR (case mlo of
                 None \<Rightarrow> bindR (multadd mhi 10 0 al) (\<lambda>(mh, al). Inr (None, mh, al))
               | Some m \<Rightarrow>
                   bindR (multadd m 10 0 al) (\<lambda>(m', al).
                   bindR (multadd mhi 10 0 al) (\<lambda>(mh, al). Inr (Some m', mh, al)))) (\<lambda>(mlo, mhi, al).
        short_digits f mode u ilim (i + 1) b S mlo mhi s1 k al))"
    obtain b2 al2 where b2: "multadd b' 10 0 al1 = Inr (b2, al2)" "normal b2" "value_of b2 = 10 * value_of b'" "0 < value_of b2"
      by (rule multadd_ten [OF b'(1,2)])
    obtain mlo' mhi' al3 where mm: "(case mlo of
        None \<Rightarrow> bindR (multadd mhi 10 0 al2) (\<lambda>(mh, al). Inr (None, mh, al))
      | Some m \<Rightarrow>
          bindR (multadd m 10 0 al2) (\<lambda>(m', al).
          bindR (multadd mhi 10 0 al) (\<lambda>(mh, al). Inr (Some m', mh, al)))) = Inr (mlo', mhi', al3)"
      "normal (low_margin mlo' mhi')" "value_of (low_margin mlo' mhi') = 10 * value_of (low_margin mlo mhi)"
      "normal mhi'" "value_of mhi' = 10 * value_of mhi"
      by (rule margins_ten [OF Suc.prems(6-9)])
    let ?in' = "in_margins incl (10 * A) (value_of S) (value_of (low_margin mlo' mhi')) (value_of mhi')"
    have sh: "?in' j w = ?in (Suc j) w" "?in' 0 (10 * w) = ?in 0 w" for j w
      unfolding mm(3,5) by (rule in_margins_shift in_margins_tens)+
    obtain n s' k' b3 mlo3 mhi3 al4 v where r: "n \<le> N"
      "short_digits f mode u ilim (i + 1) b2 S mlo' mhi' s1 k al3 = Inr (s', k', b3, mlo3, mhi3, al4)"
      "printed s1 k s' k' n v" "?in' n v" "\<forall>j<n. \<forall>w. \<not> ?in' j w"
      using Suc.IH [of b2 s1 mlo' mhi' "10 * A" "i + 1" f al3] b2 b' s1 mm(2-5) Suc.prems(7,9,12,13) F(2) none sh(2)
      by (auto simp: algebra_simps)
    have "\<forall>j<Suc n. \<forall>w. \<not> ?in j w" using r(5) none unfolding sh(1) by (metis less_Suc_eq_0_disj)
    moreover have "short_digits (Suc f) mode u ilim i b S mlo mhi s k al = Inr (s', k', b3, mlo3, mhi3, al4)"
      by (simp add: run b2(1) mm(1) r(2))
    moreover have "printed s k s' k' (Suc n) v" using r(3) unfolding s1(1) printed_snoc .
    ultimately show ?thesis using r(1,4) unfolding sh(1) F(1) by (intro exI [of _ "Suc n"]) auto
  next
    fix s' k' b' al' v
    assume "short_digits (Suc f) mode u ilim i b S mlo mhi s k al = Inr (s', k', b', mlo, mhi, al')"
      "printed s k s' k' 0 v" "?in 0 v"
    then show ?thesis
      by (intro exI [of _ 0] conjI exI [of _ s'] exI [of _ k'] exI [of _ b'] exI [of _ mlo] exI [of _ mhi] exI [of _ al'] exI [of _ v])
        (simp_all add: F)
  qed
qed

end
