(* ===== verification/Dtoa_Margins.thy ===== *)
theory Dtoa_Margins
  imports Dtoa_Shortest
begin

text \<open>
  \<open>dtoa\<close> (src/src/common/dtoa.cc) scales the number, its divisor and the margins by the same factor: the
  margins are half the distance to the next and to the previous \<open>double\<close>, and the shortest string inside
  them is printed.
\<close>

section \<open>Scaling with margins\<close>

definition boundary :: "dbl \<Rightarrow> bool" where
  "boundary u \<longleftrightarrow> word1 u = 0 \<and> word0 u AND Bndry_mask = 0 \<and> word0 u AND (Exp_mask AND NOT Exp_msk1) \<noteq> 0"

definition margin_shift :: "dbl \<Rightarrow> nat" where
  "margin_shift u = (if boundary u then 1 else 0)"

lemma scale_five_free:
  assumes "normal b" "0 < value_of b" "p5s_ok al" "0 \<le> k" "normal mh" "value_of mh = 1"
  obtains b' mh' al' where "scale_five True k b (Some mh) al = Inr (b', Some mh', al')" "normal b'"
    "value_of b' = value_of b * 5 ^ nat k" "normal mh'" "value_of mh' = 5 ^ nat k" "p5s_ok al'"
proof (cases "k > 0")
  case False
  then show thesis using assms by (intro that [of b mh al]) (simp_all add: scale_five_def)
next
  case True
  have p: "0 < value_of mh" using assms(6) by simp
  obtain mh' al1 where m: "pow5mult mh (nat k) al = Inr (mh', al1)" "normal mh'" "value_of mh' = value_of mh * 5 ^ nat k" "p5s_ok al1"
    using pow5mult_lemma [OF assms(5) p assms(3)] by blast
  obtain b' al2 where b': "mult mh' b al1 = Inr (b', al2)" "value_of b' = value_of mh' * value_of b" "al_p5s al2 = al_p5s al1"
    "0 < value_of b' \<longrightarrow> normal b'"
    using mult_value [of mh' b al1] m(2) assms(1) normal_ok normal_pos by metis
  have "0 < value_of b'" using b'(2) m(3) p assms(2) by simp
  moreover have "p5s_ok (Bfree (Some b) al2)" using m(4) b'(3) Bfree_p5s [of "Some b" al2] by (simp add: p5s_ok_def)
  ultimately show thesis using True m b' assms(6)
    by (intro that [of b' mh' "Bfree (Some b) al2"]) (simp_all add: scale_five_def mult.commute)
qed

lemma scale_free:
  assumes b: "normal b" "0 < value_of b" "p5s_ok al" and e: "0 \<le> b2" "0 \<le> b5" "0 \<le> s2" "0 \<le> s5"
    and inc: "inc = (if denorm then be + (Bias + (P_bits - 1) - 1 + 1) else 1 + P_bits - bbits)" "0 \<le> inc"
  shows "\<exists>ds al' mhi. scale True mode denorm be bbits u b (b2, b5, s2, s5) al = Inr (ds, al') \<and> ds_mhi ds = Some mhi \<and>
    normal mhi \<and> 0 < value_of mhi \<and> 0 \<le> ds_m2 ds \<and> ds_spec ds = boundary u \<and>
    normal (ds_b ds) \<and> 0 < value_of (ds_b ds) \<and> divisor_ok (ds_S ds) \<and> p5s_ok al' \<and>
    value_of (ds_b ds) * (2 ^ nat s2 * 5 ^ nat s5) = value_of b * 2 ^ nat b2 * 5 ^ nat b5 * value_of (ds_S ds) \<and>
    value_of mhi * 2 ^ nat (ds_m2 ds) * 2 ^ (nat inc + margin_shift u) * (2 ^ nat s2 * 5 ^ nat s5) =
      2 ^ nat b2 * 5 ^ nat b5 * value_of (ds_S ds)"
proof -
  define p where "p = int (margin_shift u)"
  define i where "i = (if b2 > 0 \<and> s2 + inc > 0 then min b2 (s2 + inc) else 0)"
  have p0: "0 \<le> p" by (simp add: p_def)
  have i: "0 \<le> b2 - i" "0 \<le> s2 + inc - i" "0 \<le> i" "0 \<le> b2 + inc - i" using e inc(2) by (auto simp: i_def)
  obtain m0 al0 where m0: "i2b 1 al = Inr (m0, al0)" "normal m0" "value_of m0 = 1" "p5s_ok al0"
  proof -
    obtain S al' where "i2b 1 al = Inr (S, al')" "normal S" "value_of S = 1" "al_p5s al' = al_p5s al"
      using i2b_value [of 1 al] by auto
    then show thesis using that [of S al'] p5s_ok_cong [of al' al] b(3) by blast
  qed
  obtain b1 mhi al1 where b1: "scale_five True b5 b (Some m0) al0 = Inr (b1, Some mhi, al1)" "normal b1"
    "value_of b1 = value_of b * 5 ^ nat b5" "normal mhi" "value_of mhi = 5 ^ nat b5" "p5s_ok al1"
    by (rule scale_five_free [OF b(1,2) m0(4) e(2) m0(2,3)])
  obtain S0 al2 where S0: "i2b 1 al1 = Inr (S0, al2)" "normal S0" "value_of S0 = 1" "p5s_ok al2"
  proof -
    obtain S al' where "i2b 1 al1 = Inr (S, al')" "normal S" "value_of S = 1" "al_p5s al' = al_p5s al1"
      using i2b_value [of 1 al1] by auto
    then show thesis using that [of S al'] p5s_ok_cong [of al' al1] b1(6) by blast
  qed
  obtain S1 al3 where S1: "pow5_if (s5 > 0) S0 s5 al2 = Inr (S1, al3)" "normal S1" "value_of S1 = 5 ^ nat s5" "p5s_ok al3"
    by (rule pow5_if_value [OF S0(2) _ S0(4) e(4)]) (simp_all add: S0(3))
  have pos: "0 < value_of b1" "0 < value_of S1" using b1(3) S1(3) b(2) by simp_all
  have s2p: "0 \<le> s2 + inc - i + p" using i p0 by simp
  obtain j where j: "dshift S1 (s2 + inc - i + p) = Inr j" "0 \<le> j"
    "\<forall>S'. normal S' \<longrightarrow> value_of S' = value_of S1 * 2 ^ nat (s2 + inc - i + p + j) \<longrightarrow> divisor_ok S'"
    using dshift_aligns [OF S1(2) pos(2) s2p] by blast
  have ij: "0 \<le> b2 + inc - i + p + j" "0 \<le> s2 + inc - i + p + j" using i j(2) p0 by simp_all
  obtain b' al4 where b': "lshift_if (b2 + inc - i + p + j > 0) b1 (b2 + inc - i + p + j) al3 = Inr (b', al4)" "normal b'"
    "value_of b' = value_of b1 * 2 ^ nat (b2 + inc - i + p + j)" "p5s_ok al4"
    by (rule lshift_if_value [OF b1(2) pos(1) S1(4) ij(1)])
  obtain S' al5 where S': "lshift_if (s2 + inc - i + p + j > 0) S1 (s2 + inc - i + p + j) al4 = Inr (S', al5)" "normal S'"
    "value_of S' = value_of S1 * 2 ^ nat (s2 + inc - i + p + j)" "p5s_ok al5"
    by (rule lshift_if_value [OF S1(2) pos(2) b'(4) ij(2)])
  define ds where "ds = \<lparr>ds_b = b', ds_S = S', ds_mhi = Some mhi, ds_m2 = b2 - i + j, ds_spec = boundary u\<rparr>"
  have run: "scale True mode denorm be bbits u b (b2, b5, s2, s5) al = Inr (ds, al5)"
  proof (cases "boundary u")
    case True
    then have "p = 1" by (simp add: p_def margin_shift_def)
    with True b1(1) S0(1) S1(1) j(1) b'(1) S'(1) m0(1) show ?thesis
      by (simp add: scale_def Let_def i_def [symmetric] inc(1) [symmetric] boundary_def [symmetric] ds_def Log2P_def)
  next
    case False
    then have "p = 0" by (simp add: p_def margin_shift_def)
    with False b1(1) S0(1) S1(1) j(1) b'(1) S'(1) m0(1) show ?thesis
      by (simp add: scale_def Let_def i_def [symmetric] inc(1) [symmetric] boundary_def [symmetric] ds_def)
  qed
  have "nat (b2 + inc - i + p + j) + nat s2 = nat b2 + nat (s2 + inc - i + p + j)" using ij e by linarith
  then have "(2::nat) ^ nat (b2 + inc - i + p + j) * 2 ^ nat s2 = 2 ^ nat b2 * 2 ^ nat (s2 + inc - i + p + j)" by (simp flip: power_add)
  then have v: "value_of b' * (2 ^ nat s2 * 5 ^ nat s5) = value_of b * 2 ^ nat b2 * 5 ^ nat b5 * value_of S'"
    unfolding b'(3) S'(3) b1(3) S1(3) by (simp add: ac_simps)
  have "nat (b2 - i + j) + (nat inc + margin_shift u) + nat s2 = nat b2 + nat (s2 + inc - i + p + j)"
    using i j(2) e inc(2) ij(2) unfolding p_def by linarith
  then have "(2::nat) ^ nat (b2 - i + j) * 2 ^ (nat inc + margin_shift u) * 2 ^ nat s2 = 2 ^ nat b2 * 2 ^ nat (s2 + inc - i + p + j)"
    by (simp flip: power_add)
  then have "value_of mhi * 2 ^ nat (b2 - i + j) * 2 ^ (nat inc + margin_shift u) * (2 ^ nat s2 * 5 ^ nat s5) =
      2 ^ nat b2 * 5 ^ nat b5 * value_of S'"
    unfolding S'(3) S1(3) b1(5) by (simp add: ac_simps)
  moreover have "0 < value_of b'" "0 < value_of mhi" using b'(3) pos(1) b1(5) by simp_all
  ultimately show ?thesis using run b' S' j(3) b1(4) v i(1) j(2)
    by (intro exI [of _ ds] exI [of _ al5] exI [of _ mhi]) (simp add: ds_def)
qed

section \<open>From the scaled numbers to the string\<close>

lemma correct_estimate_free:
  assumes ds: "ds_mhi ds = Some mhi" "normal mhi" "0 < value_of mhi" "normal (ds_b ds)" "0 < value_of (ds_b ds)" "normal (ds_S ds)"
    and v: "c \<or> value_of (ds_S ds) \<le> value_of (ds_b ds)" "low = (value_of (ds_b ds) < value_of (ds_S ds))"
  obtains ds' mhi' al' where
    "correct_estimate c dm ds k al = Inr (ds', if low then k - 1 else k, if low then dm_ilim1 dm else dm_ilim dm, al')"
    "ds_mhi ds' = Some mhi'" "normal mhi'" "value_of mhi' = (if low then 10 * value_of mhi else value_of mhi)"
    "ds_S ds' = ds_S ds" "ds_m2 ds' = ds_m2 ds" "ds_spec ds' = ds_spec ds" "normal (ds_b ds')"
    "value_of (ds_b ds') = (if low then 10 * value_of (ds_b ds) else value_of (ds_b ds))"
proof -
  obtain x where x: "cmp (ds_b ds) (ds_S ds) = Inr x" "x < 0 \<longleftrightarrow> value_of (ds_b ds) < value_of (ds_S ds)"
    using cmp_value [OF ds(4,6)] by blast
  show thesis
  proof (cases low)
    case False
    with v x ds show thesis by (intro that [of ds al mhi]) (auto simp: correct_estimate_def)
  next
    case True
    obtain b' al1 where m: "multadd (ds_b ds) 10 0 al = Inr (b', al1)" "normal b'" "value_of b' = 10 * value_of (ds_b ds)"
      by (rule multadd_ten [OF ds(4,5)])
    obtain mh' al2 where n: "multadd mhi 10 0 al1 = Inr (mh', al2)" "normal mh'" "value_of mh' = 10 * value_of mhi"
      by (rule multadd_ten [OF ds(2,3)])
    from True v x ds m n show thesis
      by (intro that [of "ds\<lparr>ds_b := b', ds_mhi := Some mh'\<rparr>" al2 mh']) (auto simp: correct_estimate_def)
  qed
qed

text \<open>The margins the loop starts with: the upper one is twice the lower one at a power of two.\<close>

lemma start_margins:
  assumes mhi: "normal mhi" "0 < value_of mhi" and m2: "0 \<le> m2"
  obtains mhi1 mlo mhi2 al1 al2 where "lshift_if (m2 > 0) mhi m2 al = Inr (mhi1, al1)"
    "(if spec then
        let (c, al1) = Balloc (bg_k mhi1) al1 in
        bindR (Bcopy c mhi1) (\<lambda>c'. bindR (lshift c' Log2P al1) (\<lambda>(mh, al2). Inr (Some mhi1, mh, al2)))
      else Inr (None, mhi1, al1)) = Inr (mlo, mhi2, al2)"
    "normal (low_margin mlo mhi2)" "value_of (low_margin mlo mhi2) = value_of mhi * 2 ^ nat m2"
    "normal mhi2" "value_of mhi2 = value_of mhi * 2 ^ nat m2 * (if spec then 2 else 1)"
proof -
  obtain mhi1 al1 where l: "lshift_if (m2 > 0) mhi m2 al = Inr (mhi1, al1)" "normal mhi1" "value_of mhi1 = value_of mhi * 2 ^ nat m2"
  proof (cases "m2 > 0")
    case True
    then show thesis using lshift_lemma [OF mhi(1), of "nat m2" al] mhi(2) that by (auto simp: lshift_if_def)
  qed (use mhi m2 that in \<open>simp add: lshift_if_def\<close>)
  show thesis
  proof (cases spec)
    case False
    then show thesis using l by (intro that [OF l(1), of None mhi1 al1]) (simp_all add: low_margin_def)
  next
    case True
    obtain c al2 where B: "Balloc (bg_k mhi1) al1 = (c, al2)" "bg_x c = []" "bg_maxwds c = 2 ^ bg_k mhi1"
      by (rule Balloc_obtain [of "bg_k mhi1" al1])
    have ok: "bg_ok mhi1" "bg_wds mhi1 \<le> bg_maxwds c" using normal_ok [OF l(2)] B(3) by (auto simp: bg_ok_def bg_maxwds_def)
    obtain c' where c: "Bcopy c mhi1 = Inr c'" "bg_ok c'" "digits c' = digits mhi1" "bg_wds c' = bg_wds mhi1"
      by (rule Bcopy_ok [OF ok(1) B(2) ok(2)])
    have c': "normal c'" "value_of c' = value_of mhi1" using c l(2) by (auto simp: normal_def value_of_def)
    obtain mh al3 where m: "lshift c' 1 al2 = Inr (mh, al3)" "normal mh" "value_of mh = value_of c' * 2"
      using lshift_lemma [OF c'(1), of 1 al2] c' l(3) mhi(2) by auto
    show thesis using True l m c' by (intro that [OF l(1), of "Some mhi1" mh al3]) (simp_all add: low_margin_def B(1) c(1) Log2P_def)
  qed
qed

text \<open>The last part of \<open>dtoa\<close> when it may choose the length.\<close>

lemma generate_shortest:
  assumes ds: "ds_mhi ds = Some mhi" "normal mhi" "0 < value_of mhi" "0 \<le> ds_m2 ds" "divisor_ok (ds_S ds)"
    and b: "normal (ds_b ds)" "value_of (ds_S ds) \<le> value_of (ds_b ds)" "value_of (ds_b ds) < 10 * value_of (ds_S ds)"
    and mode: "dm_mode dm < 2" "ilim \<le> 0" and incl: "incl \<longleftrightarrow> dm_mode dm \<noteq> 1 \<and> even (unat (word1 u))"
    and m: "m = value_of mhi * 2 ^ nat (ds_m2 ds)" "M = m * (if ds_spec ds then 2 else 1)"
    and bound: "value_of (ds_S ds) < (m + M) * 10 ^ N" "N < fuel"
  shows "\<exists>n\<le>N. \<exists>s k' al' v. generate fuel dm u ds k ilim al = Inr (s, k', al') \<and> printed [] k s k' n v \<and>
    in_margins incl (value_of (ds_b ds)) (value_of (ds_S ds)) m M n v \<and>
    (\<forall>j<n. \<forall>w. \<not> in_margins incl (value_of (ds_b ds)) (value_of (ds_S ds)) m M j w)"
proof -
  let ?S = "ds_S ds" and ?b = "ds_b ds"
  obtain mhi1 mlo mhi2 al1 al2 where st: "lshift_if (ds_m2 ds > 0) mhi (ds_m2 ds) al = Inr (mhi1, al1)"
    "(if ds_spec ds then
        let (c, al1) = Balloc (bg_k mhi1) al1 in
        bindR (Bcopy c mhi1) (\<lambda>c'. bindR (lshift c' Log2P al1) (\<lambda>(mh, al2). Inr (Some mhi1, mh, al2)))
      else Inr (None, mhi1, al1)) = Inr (mlo, mhi2, al2)"
    "normal (low_margin mlo mhi2)" "value_of (low_margin mlo mhi2) = m" "normal mhi2" "value_of mhi2 = M"
    using start_margins [OF ds(2-4), of al "ds_spec ds" thesis] unfolding m by blast
  have pos: "0 < m" "0 < M" "0 < value_of ?b" using ds(3) m b(2,3) by auto
  have first: "list_all dec_digit []" "if [] = [] then value_of ?S \<le> value_of ?b else hd [] \<noteq> CHR ''0'' \<and> 0 < decimal []"
    "value_of ?b = decimal [] * 10 * value_of ?S + value_of ?b" using b(2) by simp_all
  have i: "ilim < 1" "[] = [] \<or> (\<forall>w. \<not> in_margins incl (value_of ?b) (value_of ?S) m M 0 (10 * w))" using mode(2) by simp_all
  note mm = st(3) pos(1) [folded st(4)] st(5) pos(2) [folded st(6)]
  from short_digits_shortest [OF ds(5) b(1) pos(3) b(3) first(1,2) mm first(3) i(2) [folded st(4,6)] incl i(1) bound [folded st(4,6)],
      of k al2, unfolded st(4,6)]
  obtain n s k' b3 mlo3 mhi3 al3 v where r: "n \<le> N"
    "short_digits fuel (dm_mode dm) u ilim 1 ?b ?S mlo mhi2 [] k al2 = Inr (s, k', b3, mlo3, mhi3, al3)"
    "printed [] k s k' n v" "in_margins incl (value_of ?b) (value_of ?S) m M n v"
    "\<forall>j<n. \<forall>w. \<not> in_margins incl (value_of ?b) (value_of ?S) m M j w" by (elim exE conjE) (rule that)
  have "generate fuel dm u ds k ilim al = Inr (s, k', free_all [Some ?S, mlo3, Some mhi3, Some b3] al3)"
    using mode ds(1) st(1,2) r(2) by (simp add: generate_def Let_def)
  with r show ?thesis by blast
qed

end
