(* ===== verification/Doubles_Real.thy ===== *)
theory Doubles_Real
  imports Complex_Main Doubles Dtoa_Bits
begin

text \<open>
  The real value of a double and the facts on rounding that \<open>strtod\<close> and \<open>dtoa\<close>
  (src/src/common/dtoa.cc) rest on: the fields of a double, the criterion by which a multiple of a
  unit is the double nearest to a number, and that \<open>round_bits\<close> finds it.
\<close>

section \<open>Fields\<close>

definition dbl_frac :: "dbl \<Rightarrow> nat" where
  "dbl_frac d = unat (word1 d) + 2 ^ 32 * unat (word0 d AND Frac_mask)"

lemma low31: "unat (w AND 0x7fffffff :: 32 word) = unat w mod 2 ^ 31"
proof -
  have "w AND 0x7fffffff = take_bit 31 w" by (simp add: take_bit_eq_mask mask_eq_exp_minus_1)
  then have "unat (w AND 0x7fffffff) = take_bit 31 (unat w)" by (simp only: unsigned_take_bit_eq)
  then show ?thesis by (simp only: take_bit_eq_mod)
qed

lemma low20: "unat (w AND Frac_mask :: 32 word) = unat w mod 2 ^ 20"
proof -
  have "w AND Frac_mask = take_bit 20 w" by (simp add: Frac_mask_def take_bit_eq_mask mask_eq_exp_minus_1)
  then have "unat (w AND Frac_mask) = take_bit 20 (unat w)" by (simp only: unsigned_take_bit_eq)
  then show ?thesis by (simp only: take_bit_eq_mod)
qed

lemma dbl_exp_field: "dbl_exp d = unat (word0 d) mod 2 ^ 31 div 2 ^ 20"
  by (simp only: dbl_exp_def Exp_shift_def unat_drop low31)

lemma split_high: "l + 2 ^ 32 * (q * 2 ^ 20 + r) = q * 2 ^ 52 + (l + 2 ^ 32 * r)" for l q r :: nat
  by simp

lemma dbl_bits_split: "dbl_bits d = dbl_exp d * 2 ^ 52 + dbl_frac d"
proof -
  let ?h = "unat (word0 d) mod 2 ^ 31"
  have m: "unat (word0 d) mod 2 ^ 20 = ?h mod 2 ^ 20"
    using mod_mod_cancel [of "2 ^ 20" "2 ^ 31 :: nat" "unat (word0 d)"] by (simp add: le_imp_power_dvd)
  have "?h = ?h div 2 ^ 20 * 2 ^ 20 + ?h mod 2 ^ 20" by (simp only: div_mult_mod_eq)
  then show ?thesis
    unfolding dbl_bits_def dbl_exp_field dbl_frac_def low31 low20 m split_high [symmetric] by (rule arg_cong)
qed

lemma dbl_frac_less: "dbl_frac d < 2 ^ 52"
proof -
  have "unat (word1 d) < 2 ^ 32" "unat (word0 d) mod 2 ^ 20 < 2 ^ 20" using unat32 [of "word1 d"] by simp_all
  then show ?thesis unfolding dbl_frac_def low20 by simp
qed

lemma dbl_exp_less: "dbl_exp d < 2048"
proof -
  have "unat (word0 d) mod 2 ^ 31 < 2048 * 2 ^ 20" by simp
  then show ?thesis unfolding dbl_exp_field by (rule less_mult_imp_div_less)
qed

lemma mantissa_split: "mantissa d = dbl_frac d + (if dbl_exp d = 0 then 0 else 2 ^ 52)"
  by (simp add: mantissa_def dbl_high_def dbl_frac_def)

lemma bits_fields:
  "dbl_exp d = dbl_bits d div 2 ^ 52" "dbl_frac d = dbl_bits d mod 2 ^ 52"
  using dbl_frac_less [of d] by (simp_all add: dbl_bits_split)

lemma mantissa_less: "mantissa d < 2 ^ 53"
  using dbl_frac_less [of d] by (simp add: mantissa_split)

lemma mantissa_normal: "dbl_exp d \<noteq> 0 \<Longrightarrow> 2 ^ 52 \<le> mantissa d"
  by (simp add: mantissa_split)

lemma finite_exp: "finite_dbl d \<longleftrightarrow> dbl_exp d < 2047"
  using dbl_frac_less [of d] by (auto simp: finite_dbl_def inf_bits_def dbl_bits_split)

lemma dbl_scale_ge: "- 1074 \<le> dbl_scale d"
  by (simp add: dbl_scale_def)

lemma unat_halves: "unat (w :: 32 word) = unat w mod 2 ^ 31 + (if bit w 31 then 2 ^ 31 else 0)"
proof -
  have "bit w 31 = odd (unat w div 2 ^ 31)" by (simp only: bit_unsigned_iff bit_iff_odd [of "unat w", symmetric]) simp
  moreover have "unat w div 2 ^ 31 < 2" using unat32 [of w] by (intro less_mult_imp_div_less) simp
  ultimately have "unat w div 2 ^ 31 = (if bit w 31 then 1 else 0)"
    by (cases "unat w div 2 ^ 31") (auto simp: less_Suc_eq)
  then show ?thesis using div_mult_mod_eq [of "unat w" "2 ^ 31"] by (auto split: if_splits)
qed

lemma dbl_eqI:
  assumes "dbl_bits x = dbl_bits y" "dbl_neg x = dbl_neg y"
  shows "x = y"
proof -
  have b: "dbl_bits z mod 2 ^ 32 = unat (word1 z)" "dbl_bits z div 2 ^ 32 = unat (word0 z) mod 2 ^ 31" for z
    using unat32 [of "word1 z"] by (simp_all add: dbl_bits_def low31)
  have "unat (word0 x) = unat (word0 y)"
    using b(2) [of x] b(2) [of y] assms unat_halves [of "word0 x"] unat_halves [of "word0 y"] by (simp add: dbl_neg_def)
  moreover have "unat (word1 x) = unat (word1 y)" using b(1) [of x] b(1) [of y] assms(1) by metis
  ultimately show ?thesis by (cases x; cases y) (simp add: word_unat_eq_iff)
qed

lemma mk_dbl_fields [simp]:
  assumes "n < 2 ^ 63"
  shows "dbl_bits (mk_dbl s n) = n" "dbl_neg (mk_dbl s n) = s"
proof -
  let ?h = "of_nat (n div 2 ^ 32) :: 32 word"
  have h: "n div 2 ^ 32 < 2 ^ 31" using assms by (intro less_mult_imp_div_less) simp
  then have uh: "unat ?h = n div 2 ^ 32" by (simp add: unat_of_nat take_bit_nat_eq_self)
  have "unat (?h AND 0x7fffffff) = unat ?h" unfolding low31 uh by (rule mod_less) (rule h)
  then have m: "?h AND 0x7fffffff = ?h" by (rule unsigned_word_eqI)
  have b31: "\<not> bit ?h 31" using h unat_halves [of ?h] uh by (auto split: if_splits)
  have "((if s then 0x80000000 else 0) OR ?h) AND 0x7fffffff = ?h" unfolding bit.conj_disj_distrib2 m by simp
  then show "dbl_bits (mk_dbl s n) = n"
    unfolding dbl_bits_def mk_dbl_def dbl.simps m by (simp only: uh) (simp add: unat_of_nat take_bit_eq_mod)
  have "bit (0x80000000 :: 32 word) 31" by simp
  then show "dbl_neg (mk_dbl s n) = s"
    unfolding dbl_neg_def mk_dbl_def dbl.simps m bit_or_iff using b31 by simp
qed

section \<open>Values\<close>

definition dbl_real :: "dbl \<Rightarrow> real" where
  "dbl_real d = (if dbl_neg d then - 1 else 1) * real (mantissa d) * 2 powi dbl_scale d"

lemma powi_pos [simp]: "0 < (2::real) powi s"
  by simp

lemma powi_split: "s \<le> t \<Longrightarrow> (2::real) powi t = 2 ^ nat (t - s) * 2 powi s"
  by (simp add: power_int_add [symmetric] flip: power_int_of_nat)

lemma powi_shift: "(2::real) ^ n * 2 powi t = 2 powi (int n + t)"
  by (simp add: power_int_add)

lemma powi_div: "(2::real) powi a / 2 powi b = 2 powi (a - b)"
  by (rule power_int_diff [symmetric]) simp

lemma powi_less: "(2::real) powi a < 2 powi b \<longleftrightarrow> a < b"
  using power_int_strict_increasing [of a b "2::real"] power_int_increasing [of b a "2::real"] by (cases "a < b") auto

lemma powi_Suc: "(2::real) powi (s + 1) = 2 * 2 powi s"
  by (simp add: power_int_add)

text \<open>Relative to a unit \<open>2 powi s\<close> a double is a whole number, or it is below \<open>2 ^ 52\<close> units.\<close>

lemma grid:
  assumes "- 1074 \<le> s"
  shows "(\<exists>k :: int. dbl_real y = of_int k * 2 powi s) \<or> \<bar>dbl_real y\<bar> < 2 ^ 52 * 2 powi s"
proof (cases "s \<le> dbl_scale y")
  case True
  have "dbl_real y = of_int ((if dbl_neg y then - 1 else 1) * int (mantissa y) * 2 ^ nat (dbl_scale y - s)) * 2 powi s"
    unfolding dbl_real_def powi_split [OF True] by simp
  then show ?thesis by blast
next
  case False
  then have p: "(2::real) powi s = 2 ^ nat (s - dbl_scale y) * 2 powi dbl_scale y" by (intro powi_split) simp
  have "Suc 0 \<le> nat (s - dbl_scale y)" using False by simp
  then have "(2::real) ^ 1 \<le> 2 ^ nat (s - dbl_scale y)" by (intro power_increasing) simp_all
  then have "2 ^ 53 * 2 powi dbl_scale y \<le> (2::real) ^ 52 * 2 powi s" unfolding p by simp
  moreover have "real (mantissa y) < 2 ^ 53" using mantissa_less [of y] by (metis of_nat_less_iff of_nat_numeral of_nat_power)
  then have "real (mantissa y) * 2 powi dbl_scale y < 2 ^ 53 * 2 powi dbl_scale y"
    by (intro mult_strict_right_mono) simp_all
  ultimately have "real (mantissa y) * 2 powi dbl_scale y < 2 ^ 52 * 2 powi s" by linarith
  then have "\<bar>dbl_real y\<bar> < 2 ^ 52 * 2 powi s" by (simp add: dbl_real_def abs_mult)
  then show ?thesis ..
qed

lemma far_multiple:
  fixes k m :: int
  assumes "\<bar>of_int m * u - X\<bar> \<le> u / 2" "k \<noteq> m" "0 < (u :: real)"
  shows "u / 2 \<le> \<bar>of_int k * u - X\<bar>"
proof -
  have "1 \<le> \<bar>of_int k - of_int m :: real\<bar>" using assms(2) by linarith
  then have "1 * u \<le> \<bar>of_int k - of_int m :: real\<bar> * u" using assms(3) by (intro mult_right_mono) simp_all
  then have "u \<le> \<bar>of_int k * u - of_int m * u\<bar>" using assms(3) by (simp add: abs_mult left_diff_distrib [symmetric])
  with assms(1) show ?thesis by linarith
qed

text \<open>
  The criterion: a whole number of units at most half a unit away is the nearest double, when the
  unit is that of the denormal numbers or the number is at least \<open>2 ^ 52\<close> units; and another double
  is as near only if the distance is half a unit.
\<close>

lemma nearest_by_grid:
  assumes "- 1074 \<le> s" "\<bar>real m * 2 powi s - X\<bar> \<le> 2 powi s / 2" "s = - 1074 \<or> 2 ^ 52 * 2 powi s \<le> X"
  shows "\<bar>real m * 2 powi s - X\<bar> \<le> \<bar>dbl_real y - X\<bar>"
    "\<bar>real m * 2 powi s - X\<bar> = \<bar>dbl_real y - X\<bar> \<Longrightarrow> dbl_real y \<noteq> real m * 2 powi s \<Longrightarrow>
      \<bar>real m * 2 powi s - X\<bar> = 2 powi s / 2"
proof -
  let ?u = "(2::real) powi s"
  have h: "\<bar>of_int (int m) * ?u - X\<bar> \<le> ?u / 2" using assms(2) by simp
  have "(\<exists>k :: int. dbl_real y = of_int k * ?u) \<or> \<bar>real m * ?u - X\<bar> < \<bar>dbl_real y - X\<bar>"
  proof (cases "\<exists>k :: int. dbl_real y = of_int k * ?u")
    case False
    then have y: "\<bar>dbl_real y\<bar> < 2 ^ 52 * ?u" using grid [OF assms(1)] by blast
    have "2 ^ 52 * ?u \<le> X"
    proof (cases "s = - 1074")
      case True
      then have "s \<le> dbl_scale y" by (simp add: dbl_scale_ge)
      from powi_split [OF this] have
        "dbl_real y = of_int ((if dbl_neg y then - 1 else 1) * int (mantissa y) * 2 ^ nat (dbl_scale y - s)) * ?u"
        by (simp add: dbl_real_def)
      then show ?thesis using False by blast
    qed (use assms(3) in simp)
    moreover have "\<bar>real m * ?u - X\<bar> \<le> X - 2 ^ 52 * ?u \<or> int m = 2 ^ 52"
      using far_multiple [OF h, of "2 ^ 52"] h calculation by force
    ultimately have "\<bar>real m * ?u - X\<bar> < \<bar>dbl_real y - X\<bar>"
    proof (elim disjE)
      assume "int m = 2 ^ 52"
      then have "real m = 2 ^ 52" by (metis of_int_of_nat_eq of_int_numeral of_int_power)
      then show ?thesis using y \<open>2 ^ 52 * ?u \<le> X\<close> by simp
    qed (use y in linarith)
    then show ?thesis ..
  qed simp
  then show "\<bar>real m * ?u - X\<bar> \<le> \<bar>dbl_real y - X\<bar>"
    "\<bar>real m * ?u - X\<bar> = \<bar>dbl_real y - X\<bar> \<Longrightarrow> dbl_real y \<noteq> real m * ?u \<Longrightarrow> \<bar>real m * ?u - X\<bar> = ?u / 2"
  proof (safe, goal_cases)
    case (1 k)
    then show ?case using far_multiple [OF h, of k] h by (cases "k = int m") auto
  next
    case (3 k)
    then have "k \<noteq> int m" by auto
    from far_multiple [OF h this] show ?case using 3 h by simp
  qed linarith+
qed

text \<open>
  \<open>rounds_to v X\<close>: \<open>v\<close> is a double nearest to \<open>X\<close>, and has an even mantissa when another is as near.
\<close>

definition rounds_to :: "dbl \<Rightarrow> real \<Rightarrow> bool" where
  "rounds_to v X \<longleftrightarrow> finite_dbl v \<and>
     (\<forall>y. finite_dbl y \<longrightarrow> \<bar>dbl_real v - X\<bar> \<le> \<bar>dbl_real y - X\<bar> \<and>
        (\<bar>dbl_real v - X\<bar> = \<bar>dbl_real y - X\<bar> \<and> dbl_real y \<noteq> dbl_real v \<longrightarrow> even (mantissa v)))"

lemma rounds_toI:
  assumes "finite_dbl v" "dbl_real v = real m * 2 powi s"
    and "- 1074 \<le> s" "\<bar>real m * 2 powi s - X\<bar> \<le> 2 powi s / 2" "s = - 1074 \<or> 2 ^ 52 * 2 powi s \<le> X"
    and "\<bar>real m * 2 powi s - X\<bar> = 2 powi s / 2 \<Longrightarrow> even (mantissa v)"
  shows "rounds_to v X"
  using nearest_by_grid [OF assms(3-5)] assms(1,2,6) unfolding rounds_to_def by metis

section \<open>Rounding\<close>

lemma round_half_even_near:
  assumes "0 < d"
  shows "\<bar>real (round_half_even a d) - real a / real d\<bar> \<le> 1 / 2"
    "\<bar>real (round_half_even a d) - real a / real d\<bar> = 1 / 2 \<Longrightarrow> even (round_half_even a d)"
proof -
  let ?q = "a div d" and ?r = "a mod d"
  have "a = ?q * d + ?r" by simp
  then have "real a = real ?q * real d + real ?r" by (metis of_nat_add of_nat_mult)
  then have x: "real a / real d = real ?q + real ?r / real d" using assms by (simp add: field_simps)
  define f where "f = real ?r / real d"
  have f: "0 \<le> f" "f < 1" using assms by (simp_all add: f_def)
  have c: "2 * ?r > d \<longleftrightarrow> f > 1 / 2" "2 * ?r = d \<longleftrightarrow> f = 1 / 2"
    using assms by (auto simp: f_def field_simps simp flip: of_nat_less_iff of_nat_eq_iff)
  show "\<bar>real (round_half_even a d) - real a / real d\<bar> \<le> 1 / 2"
    "\<bar>real (round_half_even a d) - real a / real d\<bar> = 1 / 2 \<Longrightarrow> even (round_half_even a d)"
    unfolding x f_def [symmetric] round_half_even_def c using f by (auto split: if_splits)
qed

lemma bit_length_bounds: "0 < n \<Longrightarrow> 2 ^ (bit_length n - 1) \<le> n \<and> n < 2 ^ bit_length n \<and> 0 < bit_length n"
proof (induction n rule: bit_length.induct)
  case (1 n)
  show ?case
  proof (cases "n div 2 = 0")
    case True
    then have "n = 1" using 1(2) by auto
    then show ?thesis by (simp add: bit_length.simps)
  next
    case False
    with 1 have "2 ^ (bit_length (n div 2) - 1) \<le> n div 2" "n div 2 < 2 ^ bit_length (n div 2)" "0 < bit_length (n div 2)"
      by simp_all
    moreover have "bit_length n = Suc (bit_length (n div 2))" using 1(2) by (simp add: bit_length.simps [of n])
    ultimately show ?thesis by (cases "bit_length (n div 2)") auto
  qed
qed

lemma real_powers:
  assumes "0 < n"
  shows "2 powi (int (bit_length n) - 1) \<le> real n" "real n < 2 powi int (bit_length n)"
proof -
  note b = bit_length_bounds [OF assms]
  have "real (2 ^ (bit_length n - 1)) \<le> real n" "real n < real (2 ^ bit_length n)"
    using b by (simp_all only: of_nat_le_iff of_nat_less_iff)
  then have r: "2 ^ (bit_length n - 1) \<le> real n" "real n < 2 ^ bit_length n" by (simp_all only: of_nat_power of_nat_numeral)
  have e: "int (bit_length n) - 1 = int (bit_length n - 1)" using b by linarith
  show "2 powi (int (bit_length n) - 1) \<le> real n" "real n < 2 powi int (bit_length n)"
    unfolding e power_int_of_nat by (rule r)+
qed

lemma shifted_ratio:
  assumes "0 < d"
  shows "real (a * 2 ^ nat (- t)) / real (d * 2 ^ nat t) = real a / real d / 2 powi t"
proof (cases "0 \<le> t")
  case True
  then obtain n where "t = int n" by (rule nonneg_int_cases)
  then show ?thesis by simp
next
  case False
  then obtain n where "t = - int n" by (intro that [of "nat (- t)"]) simp
  then show ?thesis by (simp add: power_int_minus divide_inverse)
qed

lemma lead_choice:
  assumes "2 ^ 52 * 2 powi t < (x :: real)" "x < 2 ^ 54 * 2 powi t" "t' = (if x < 2 ^ 53 * 2 powi t then t else t + 1)"
  shows "2 ^ 52 * 2 powi t' \<le> x \<and> x < 2 ^ 53 * 2 powi t'"
  using assms by (auto simp: powi_Suc)

lemma lead_bounds:
  assumes "0 < a" "0 < d"
  shows "2 ^ 52 * 2 powi lead a d \<le> real a / real d" "real a / real d < 2 ^ 53 * 2 powi lead a d"
proof -
  let ?t = "int (bit_length a) - int (bit_length d) - 53"
  note ra = real_powers [OF assms(1)] and rd = real_powers [OF assms(2)]
  have lo: "2 powi (int (bit_length a) - 1) / 2 powi int (bit_length d) < real a / real d"
    using ra(1) rd(2) assms by (intro frac_less2) simp_all
  have "2 ^ 52 * (2::real) powi ?t = 2 powi (int (bit_length a) - 1) / 2 powi int (bit_length d)"
    unfolding powi_shift powi_div by (rule arg_cong [where f = "(powi) 2"]) simp
  then have lo': "2 ^ 52 * 2 powi ?t < real a / real d" using lo by simp
  have hi: "real a / real d < 2 powi int (bit_length a) / 2 powi (int (bit_length d) - 1)"
    using ra(2) rd(1) assms by (intro frac_less) simp_all
  have "2 ^ 54 * (2::real) powi ?t = 2 powi int (bit_length a) / 2 powi (int (bit_length d) - 1)"
    unfolding powi_shift powi_div by (rule arg_cong [where f = "(powi) 2"]) simp
  then have hi': "real a / real d < 2 ^ 54 * 2 powi ?t" using hi by simp
  have "a * 2 ^ nat (- ?t) < d * 2 ^ nat ?t * 2 ^ 53 \<longleftrightarrow> real (a * 2 ^ nat (- ?t)) < real (d * 2 ^ nat ?t) * 2 ^ 53"
    by (subst of_nat_less_iff [where 'a = real, symmetric]) (simp only: of_nat_mult of_nat_power of_nat_numeral)
  also have "\<dots> \<longleftrightarrow> real (a * 2 ^ nat (- ?t)) / real (d * 2 ^ nat ?t) < 2 ^ 53"
    using assms(2) by (subst pos_divide_less_eq) (simp_all add: mult.commute)
  also have "\<dots> \<longleftrightarrow> real a / real d / 2 powi ?t < 2 ^ 53" unfolding shifted_ratio [OF assms(2)] ..
  also have "\<dots> \<longleftrightarrow> real a / real d < 2 ^ 53 * 2 powi ?t" by (subst pos_divide_less_eq) simp_all
  finally have c: "a * 2 ^ nat (- ?t) < d * 2 ^ nat ?t * 2 ^ 53 \<longleftrightarrow> real a / real d < 2 ^ 53 * 2 powi ?t" .
  have "lead a d = (if real a / real d < 2 ^ 53 * 2 powi ?t then ?t else ?t + 1)" unfolding lead_def Let_def c ..
  from lead_choice [OF lo' hi' this]
  show "2 ^ 52 * 2 powi lead a d \<le> real a / real d" "real a / real d < 2 ^ 53 * 2 powi lead a d" by blast+
qed

text \<open>A mantissa of at most \<open>2 ^ 53\<close> units above the exponent \<open>T\<close>, as bits and as a value.\<close>

lemma bits_value:
  assumes m: "m \<le> 2 ^ 53" "T = 0 \<or> 2 ^ 52 \<le> m" and n: "n = T * 2 ^ 52 + m" "n < inf_bits"
  shows "finite_dbl (mk_dbl sg n)" "mantissa (mk_dbl sg n) = (if m = 2 ^ 53 then 2 ^ 52 else m)"
    "dbl_real (mk_dbl sg n) = (if sg then - 1 else 1) * (real m * 2 powi (int T - 1074))"
proof -
  have "n < 2 ^ 63" using n(2) by (simp add: inf_bits_def)
  note f = mk_dbl_fields [OF this, of sg]
  show "finite_dbl (mk_dbl sg n)" by (simp add: finite_dbl_def f n(2))
  consider "m < 2 ^ 52" "T = 0" | "2 ^ 52 \<le> m" "m < 2 ^ 53" | "m = 2 ^ 53" using m by linarith
  then have "mantissa (mk_dbl sg n) = (if m = 2 ^ 53 then 2 ^ 52 else m) \<and>
    dbl_real (mk_dbl sg n) = (if sg then - 1 else 1) * (real m * 2 powi (int T - 1074))"
  proof (cases)
    case 1
    then have "dbl_exp (mk_dbl sg n) = 0" "dbl_frac (mk_dbl sg n) = m" using n(1) by (simp_all add: bits_fields f)
    then show ?thesis
      using 1 by (simp_all add: mantissa_split dbl_real_def dbl_scale_def f)
  next
    case 2
    then have e: "n = (m - 2 ^ 52) + (T + 1) * 2 ^ 52" using n(1) by simp
    have "(m - 2 ^ 52) div 2 ^ 52 = 0" "(m - 2 ^ 52) mod 2 ^ 52 = m - 2 ^ 52" using 2 by simp_all
    then have "n div 2 ^ 52 = T + 1" "n mod 2 ^ 52 = m - 2 ^ 52" unfolding e by (simp_all only: div_mult_self1 mod_mult_self1) simp
    then have "dbl_exp (mk_dbl sg n) = T + 1" "dbl_frac (mk_dbl sg n) = m - 2 ^ 52"
      unfolding bits_fields f .
    then show ?thesis
      using 2 by (simp_all add: mantissa_split dbl_real_def dbl_scale_def f)
  next
    case 3
    have e: "n = (T + 2) * 2 ^ 52" using n(1) 3 by simp
    have "n div 2 ^ 52 = T + 2" "n mod 2 ^ 52 = 0" unfolding e by simp_all
    then have "dbl_exp (mk_dbl sg n) = T + 2" "dbl_frac (mk_dbl sg n) = 0" unfolding bits_fields f .
    moreover have "(2::real) powi (int (T + 2) - 1075) = 2 * 2 powi (int T - 1074)"
      using powi_Suc [of "int T - 1074"] by (simp add: algebra_simps)
    ultimately show ?thesis
      using 3 by (simp_all add: mantissa_split dbl_real_def dbl_scale_def f)
  qed  then show "mantissa (mk_dbl sg n) = (if m = 2 ^ 53 then 2 ^ 52 else m)"
    "dbl_real (mk_dbl sg n) = (if sg then - 1 else 1) * (real m * 2 powi (int T - 1074))" by blast+
qed

lemma round_bits_unit:
  assumes "0 < a" "0 < d" and X: "X = real a / real d * 2 powi e"
  obtains T m where "round_bits a d e = min inf_bits (T * 2 ^ 52 + m)" "m \<le> 2 ^ 53" "T = 0 \<or> 2 ^ 52 \<le> m"
    "\<bar>real m * 2 powi (int T - 1074) - X\<bar> \<le> 2 powi (int T - 1074) / 2"
    "\<bar>real m * 2 powi (int T - 1074) - X\<bar> = 2 powi (int T - 1074) / 2 \<Longrightarrow> even m"
    "T = 0 \<or> 2 ^ 52 * 2 powi (int T - 1074) \<le> X" "X < 2 ^ 53 * 2 powi (int T - 1074)"
proof -
  define t where "t = max (lead a d) (- 1074 - e)"
  define m where "m = round_half_even (a * 2 ^ nat (- t)) (d * 2 ^ nat t)"
  define T where "T = nat (t + e + 1074)"
  define x where "x = real a / real d / 2 powi t"
  have n: "round_bits a d e = min inf_bits (T * 2 ^ 52 + m)"
    using assms(1) by (simp add: round_bits_def Let_def t_def [symmetric] m_def [symmetric] T_def [symmetric])
  have "0 \<le> t + e + 1074" unfolding t_def by linarith
  then have T: "int T = t + e + 1074" unfolding T_def by simp
  have d': "0 < d * 2 ^ nat t" using assms(2) by simp
  note near = round_half_even_near [OF d', of "a * 2 ^ nat (- t)", folded m_def, unfolded shifted_ratio [OF assms(2)], folded x_def]
  note lead = lead_bounds [OF assms(1,2)]
  have "(2::real) powi lead a d \<le> 2 powi t" unfolding t_def by (intro power_int_increasing) simp_all
  then have "real a / real d < 2 ^ 53 * 2 powi t" using lead(2) by (auto elim!: less_le_trans)
  then have x1: "x < 2 ^ 53" unfolding x_def by (subst pos_divide_less_eq) simp_all
  have x2: "2 ^ 52 \<le> x" if "T \<noteq> 0"
  proof -
    have "t = lead a d" using that unfolding T_def t_def by auto
    then show ?thesis using lead(1) unfolding x_def by (subst pos_le_divide_eq) simp_all
  qed
  have "real m < 2 ^ 53 + 1" using near(1) x1 by linarith
  then have "real m < real (2 ^ 53 + 1)" by (simp only: of_nat_add of_nat_power of_nat_numeral of_nat_1)
  then have m1: "m \<le> 2 ^ 53" by (simp only: of_nat_less_iff)
  have "real (2 ^ 52) < real (m + 1)" if "T \<noteq> 0"
  proof -
    have "2 ^ 52 < real m + 1" using near(1) x2 [OF that] by linarith
    then show ?thesis by (simp only: of_nat_add of_nat_power of_nat_numeral of_nat_1)
  qed
  then have m2: "T = 0 \<or> 2 ^ 52 \<le> m" by (auto simp only: of_nat_less_iff Suc_eq_plus1 [symmetric] less_Suc_eq_le)
  let ?s = "int T - 1074"
  have X': "X = x * 2 powi ?s" unfolding x_def T X by (simp add: power_int_add)
  have dist: "\<bar>real m * 2 powi ?s - X\<bar> = \<bar>real m - x\<bar> * 2 powi ?s"
    unfolding X' left_diff_distrib [symmetric] abs_mult by simp
  show ?thesis
  proof (rule that [OF n m1 m2])
    show "\<bar>real m * 2 powi ?s - X\<bar> \<le> 2 powi ?s / 2" unfolding dist using mult_right_mono [OF near(1), of "2 powi ?s"] by simp
    show "T = 0 \<or> 2 ^ 52 * 2 powi ?s \<le> X" using x2 unfolding X' by (cases "T = 0") simp_all
    show "X < 2 ^ 53 * 2 powi ?s" using x1 unfolding X' by simp
    assume "\<bar>real m * 2 powi ?s - X\<bar> = 2 powi ?s / 2"
    then have "\<bar>real m - x\<bar> = 1 / 2" unfolding dist by simp
    then show "even m" by (rule near(2))
  qed
qed

theorem round_bits_rounds:
  assumes "0 < a" "0 < d" "round_bits a d e < inf_bits"
  shows "rounds_to (mk_dbl False (round_bits a d e)) (real a / real d * 2 powi e)"
proof -
  obtain T m where u: "round_bits a d e = min inf_bits (T * 2 ^ 52 + m)" "m \<le> 2 ^ 53" "T = 0 \<or> 2 ^ 52 \<le> m"
    and near: "\<bar>real m * 2 powi (int T - 1074) - real a / real d * 2 powi e\<bar> \<le> 2 powi (int T - 1074) / 2"
      "\<bar>real m * 2 powi (int T - 1074) - real a / real d * 2 powi e\<bar> = 2 powi (int T - 1074) / 2 \<Longrightarrow> even m"
      "T = 0 \<or> 2 ^ 52 * 2 powi (int T - 1074) \<le> real a / real d * 2 powi e"
      "real a / real d * 2 powi e < 2 ^ 53 * 2 powi (int T - 1074)"
    using round_bits_unit [OF assms(1,2) refl, where e = e] by blast
  have n: "round_bits a d e = T * 2 ^ 52 + m" using u(1) assms(3) by simp
  note bv = bits_value [OF u(2,3) n assms(3), of False]
  show ?thesis
    by (rule rounds_toI [OF bv(1), of m "int T - 1074"]) (use bv near in auto)
qed

text \<open>A value that is a double is rounded to itself.\<close>

lemma round_bits_exact:
  assumes "0 < a" "0 < d" and X: "real a / real d * 2 powi e = real k * 2 powi s"
    and k: "k < 2 ^ 53" "- 1074 \<le> s" "real k * 2 powi s < 2 powi 1024"
  shows "round_bits a d e < inf_bits" "dbl_real (mk_dbl sg (round_bits a d e)) = (if sg then - 1 else 1) * (real k * 2 powi s)"
proof -
  obtain T m where u: "round_bits a d e = min inf_bits (T * 2 ^ 52 + m)" "m \<le> 2 ^ 53" "T = 0 \<or> 2 ^ 52 \<le> m"
    and near: "\<bar>real m * 2 powi (int T - 1074) - real k * 2 powi s\<bar> \<le> 2 powi (int T - 1074) / 2"
      "T = 0 \<or> 2 ^ 52 * 2 powi (int T - 1074) \<le> real k * 2 powi s"
      "real k * 2 powi s < 2 ^ 53 * 2 powi (int T - 1074)"
    by (rule round_bits_unit [OF assms(1,2) X [symmetric]])
  let ?u = "int T - 1074"
  have "?u \<le> s"
  proof (cases "T = 0")
    case False
    have "real k * 2 powi s < 2 ^ 53 * 2 powi s" using k(1) by (intro mult_strict_right_mono) (simp_all flip: of_nat_less_iff)
    then have "(2::real) ^ 52 * 2 powi ?u < 2 ^ 53 * 2 powi s" using near(2) False by linarith
    then have "(2::real) powi (52 + ?u) < 2 powi (53 + s)" unfolding powi_shift by simp
    then show ?thesis by (simp add: powi_less)
  qed (use k(2) in simp)
  then have ks: "real k * 2 powi s = of_int (int (k * 2 ^ nat (s - ?u))) * 2 powi ?u" unfolding powi_split [OF \<open>?u \<le> s\<close>] by simp
  have mk: "m = k * 2 ^ nat (s - ?u)"
  proof (rule ccontr)
    assume "m \<noteq> k * 2 ^ nat (s - ?u)"
    then have "int (k * 2 ^ nat (s - ?u)) \<noteq> int m" by linarith
    then have "1 \<le> \<bar>of_int (int (k * 2 ^ nat (s - ?u))) - of_int (int m) :: real\<bar>" by linarith
    then have "1 * 2 powi ?u \<le> \<bar>of_int (int (k * 2 ^ nat (s - ?u))) - of_int (int m)\<bar> * (2::real) powi ?u"
      by (rule mult_right_mono) simp
    then have "2 powi ?u \<le> \<bar>of_int (int (k * 2 ^ nat (s - ?u))) * 2 powi ?u - real m * 2 powi ?u\<bar>"
      unfolding left_diff_distrib [symmetric] abs_mult by simp
    moreover have "2 powi ?u / 2 < (2::real) powi ?u" by simp
    ultimately show False using near(1) unfolding ks by linarith
  qed
  have km: "real k * 2 powi s = real m * 2 powi ?u" unfolding ks mk by simp
  then have m53: "m < 2 ^ 53" using near(3) by (simp flip: of_nat_less_iff)
  have "T \<le> 2045"
  proof (cases "T = 0")
    case False
    then have "(2::real) ^ 52 * 2 powi ?u < 2 powi 1024" using near(2) k(3) by linarith
    then have "int 52 + ?u < 1024" unfolding powi_shift powi_less .
    then show ?thesis by simp
  qed simp
  then have "T * 2 ^ 52 + m < inf_bits" using m53 by (simp add: inf_bits_def)
  then have n: "round_bits a d e = T * 2 ^ 52 + m" "round_bits a d e < inf_bits" using u(1) by simp_all
  show "round_bits a d e < inf_bits" by (rule n(2))
  show "dbl_real (mk_dbl sg (round_bits a d e)) = (if sg then - 1 else 1) * (real k * 2 powi s)"
    using bits_value(3) [OF u(2,3) n, of sg] km by simp
qed

text \<open>Below half the largest exponent nothing overflows.\<close>

lemma round_bits_finite:
  assumes "0 < a" "0 < d" and X: "real a / real d * 2 powi e < 2 powi 1023"
  shows "round_bits a d e < inf_bits"
proof -
  obtain T m where u: "round_bits a d e = min inf_bits (T * 2 ^ 52 + m)" "m \<le> 2 ^ 53"
    "T = 0 \<or> 2 ^ 52 * 2 powi (int T - 1074) \<le> real a / real d * 2 powi e"
    using round_bits_unit [OF assms(1,2) refl, where e = e] by blast
  have "T \<le> 2044"
  proof (cases "T = 0")
    case False
    then have "(2::real) ^ 52 * 2 powi (int T - 1074) < 2 powi 1023" using u(3) X by linarith
    then have "int 52 + (int T - 1074) < 1023" unfolding powi_shift powi_less .
    then show ?thesis by simp
  qed simp
  then show ?thesis using u(1,2) by (simp add: inf_bits_def)
qed

section \<open>Operations\<close>

text \<open>The doubles from zero on.\<close>

definition pos_dbl :: "dbl \<Rightarrow> bool" where
  "pos_dbl x \<longleftrightarrow> finite_dbl x \<and> \<not> dbl_neg x"

lemma pos_real: "pos_dbl x \<Longrightarrow> dbl_real x = real (mantissa x) * 2 powi dbl_scale x"
  by (simp add: pos_dbl_def dbl_real_def)

lemma pos_not_special: "finite_dbl x \<Longrightarrow> \<not> is_nan x \<and> \<not> is_inf x"
  by (simp add: finite_dbl_def is_nan_def is_inf_def)

lemma inf_bits_less: "n < inf_bits \<Longrightarrow> n < 2 ^ 63"
  by (simp add: inf_bits_def)

lemma pos_mk: "n < inf_bits \<Longrightarrow> pos_dbl (mk_dbl False n)"
  using inf_bits_less [of n] by (simp add: pos_dbl_def finite_dbl_def)

lemma mk_zero: "pos_dbl (mk_dbl False 0)" "dbl_real (mk_dbl sg 0) = 0"
  using bits_value [of 0 0 0] by (simp_all add: pos_mk inf_bits_def)

lemma dmul_pos:
  assumes "pos_dbl x" "pos_dbl y"
  shows "dmul x y = mk_dbl False (round_bits (mantissa x * mantissa y) 1 (dbl_scale x + dbl_scale y))"
    "real (mantissa x * mantissa y) / real 1 * 2 powi (dbl_scale x + dbl_scale y) = dbl_real x * dbl_real y"
  using assms pos_not_special [of x] pos_not_special [of y]
  by (simp_all add: dmul_def pos_real power_int_add) (simp_all add: pos_dbl_def)

lemma ddiv_pos:
  assumes "pos_dbl x" "pos_dbl y" "mantissa y \<noteq> 0"
  shows "ddiv x y = mk_dbl False (round_bits (mantissa x) (mantissa y) (dbl_scale x - dbl_scale y))"
    "real (mantissa x) / real (mantissa y) * 2 powi (dbl_scale x - dbl_scale y) = dbl_real x / dbl_real y"
  using assms pos_not_special [of x] pos_not_special [of y]
  by (simp_all add: ddiv_def pos_real power_int_diff) (simp_all add: pos_dbl_def)

lemma pos_mantissa: "pos_dbl x \<Longrightarrow> 0 < dbl_real x \<longleftrightarrow> 0 < mantissa x"
  by (simp add: pos_real zero_less_mult_iff)

lemma dmul_exact:
  assumes "pos_dbl x" "pos_dbl y" and X: "dbl_real x * dbl_real y = real k * 2 powi s"
    and k: "k < 2 ^ 53" "- 1074 \<le> s" "real k * 2 powi s < 2 powi 1024"
  shows "pos_dbl (dmul x y)" "dbl_real (dmul x y) = dbl_real x * dbl_real y"
proof -
  note m = dmul_pos [OF assms(1,2)]
  have "pos_dbl (dmul x y) \<and> dbl_real (dmul x y) = dbl_real x * dbl_real y"
  proof (cases "mantissa x * mantissa y = 0")
    case True
    then have "dmul x y = mk_dbl False 0" unfolding m(1) by (simp add: round_bits_def)
    moreover have "dbl_real x * dbl_real y = 0" using m(2) unfolding True by simp
    ultimately show ?thesis by (simp add: mk_zero)
  next
    case False
    then have "0 < mantissa x * mantissa y" by simp
    note r = round_bits_exact [OF this zero_less_one m(2) [unfolded X] k]
    from r(1) r(2) [of False] show ?thesis unfolding m(1) X by (simp add: pos_mk)
  qed
  then show "pos_dbl (dmul x y)" "dbl_real (dmul x y) = dbl_real x * dbl_real y" by blast+
qed

lemma dmul_rounds:
  assumes "pos_dbl x" "pos_dbl y" "0 < dbl_real x * dbl_real y" "dbl_real x * dbl_real y < 2 powi 1023"
  shows "rounds_to (dmul x y) (dbl_real x * dbl_real y)" "pos_dbl (dmul x y)"
proof -
  note m = dmul_pos [OF assms(1,2)]
  have "mantissa x * mantissa y \<noteq> 0"
  proof
    assume z: "mantissa x * mantissa y = 0"
    show False using assms(3) unfolding m(2) [symmetric] z by simp
  qed
  then have p: "0 < mantissa x * mantissa y" by simp
  have f: "round_bits (mantissa x * mantissa y) 1 (dbl_scale x + dbl_scale y) < inf_bits"
    by (rule round_bits_finite [OF p zero_less_one]) (unfold m(2), rule assms(4))
  show "rounds_to (dmul x y) (dbl_real x * dbl_real y)" unfolding m(1) m(2) [symmetric] by (rule round_bits_rounds [OF p zero_less_one f])
  show "pos_dbl (dmul x y)" unfolding m(1) by (rule pos_mk [OF f])
qed

lemma ddiv_rounds:
  assumes "pos_dbl x" "pos_dbl y" "0 < dbl_real x" "0 < dbl_real y" "dbl_real x / dbl_real y < 2 powi 1023"
  shows "rounds_to (ddiv x y) (dbl_real x / dbl_real y)" "pos_dbl (ddiv x y)"
proof -
  have p: "0 < mantissa x" "0 < mantissa y" using assms(3,4) pos_mantissa assms(1,2) by auto
  then have ny: "mantissa y \<noteq> 0" by simp
  note m = ddiv_pos [OF assms(1,2) ny]
  have f: "round_bits (mantissa x) (mantissa y) (dbl_scale x - dbl_scale y) < inf_bits"
    by (rule round_bits_finite [OF p]) (unfold m(2), rule assms(5))
  show "rounds_to (ddiv x y) (dbl_real x / dbl_real y)" unfolding m(1) m(2) [symmetric] by (rule round_bits_rounds [OF p f])
  show "pos_dbl (ddiv x y)" unfolding m(1) by (rule pos_mk [OF f])
qed

text \<open>Literals and natural numbers.\<close>

lemma dbl_lit_exact:
  assumes "k < 2 ^ 53" "real a = real k * 2 ^ n" "real k * 2 ^ n < 2 powi 1024"
  shows "pos_dbl (dbl_lit a 1)" "dbl_real (dbl_lit a 1) = real a"
proof -
  have "pos_dbl (dbl_lit a 1) \<and> dbl_real (dbl_lit a 1) = real a"
  proof (cases "a = 0")
    case True
    then show ?thesis by (simp add: dbl_lit_def round_bits_def mk_zero)
  next
    case False
    then have a: "0 < a" by simp
    have e: "real a / real 1 * 2 powi 0 = real k * 2 powi int n" "real k * 2 powi int n < 2 powi 1024" using assms(2,3) by simp_all
    note r = round_bits_exact [OF a zero_less_one e(1) assms(1) _ e(2)]
    from r(1) r(2) [of False] show ?thesis using assms(2) by (simp add: dbl_lit_def pos_mk)
  qed
  then show "pos_dbl (dbl_lit a 1)" "dbl_real (dbl_lit a 1) = real a" by blast+
qed

lemma dbl_of_nat_exact:
  assumes "n < 2 ^ 53"
  shows "pos_dbl (dbl_of_nat n)" "dbl_real (dbl_of_nat n) = real n"
proof -
  have "real n < 2 ^ 53" using assms by (metis of_nat_less_iff of_nat_numeral of_nat_power)
  also have "(2::real) ^ 53 = 2 powi int 53" by (simp only: power_int_of_nat)
  also have "\<dots> < 2 powi 1024" unfolding powi_less by simp
  finally have "real n * 2 ^ 0 < 2 powi 1024" by simp
  from dbl_lit_exact [OF assms _ this, of n] show "pos_dbl (dbl_of_nat n)" "dbl_real (dbl_of_nat n) = real n"
    by (simp_all add: dbl_of_nat_def dbl_lit_def)
qed

text \<open>Sums: exact when a double has the value.\<close>

lemma dadd_exact:
  assumes "finite_dbl x" "finite_dbl y" and X: "dbl_real x + dbl_real y = real k * 2 powi s"
    and k: "0 < k" "k < 2 ^ 53" "- 1074 \<le> s" "real k * 2 powi s < 2 powi 1024"
  shows "pos_dbl (dadd x y)" "dbl_real (dadd x y) = real k * 2 powi s"
proof -
  define e where "e = min (dbl_scale x) (dbl_scale y)"
  define v where "v = signed_mantissa x * 2 ^ nat (dbl_scale x - e) + signed_mantissa y * 2 ^ nat (dbl_scale y - e)"
  have r: "dbl_real z = of_int (signed_mantissa z) * 2 powi dbl_scale z" for z
    by (simp add: dbl_real_def signed_mantissa_def)
  have "of_int v * 2 powi e = dbl_real x + dbl_real y"
    unfolding r v_def using powi_split [of e "dbl_scale x"] powi_split [of e "dbl_scale y"]
    by (simp add: e_def distrib_right)
  then have ve: "of_int v * 2 powi e = real k * 2 powi s" using X by simp
  have "0 < real k * 2 powi s" using k(1) by simp
  then have "0 < of_int v * (2::real) powi e" unfolding ve .
  then have "0 < (of_int v :: real)" by (rule zero_less_mult_pos2) simp
  then have vp: "0 < v" by simp
  then have n: "0 < nat v" "real (nat v) / real 1 * 2 powi e = real k * 2 powi s" using ve by simp_all
  have d: "dadd x y = mk_dbl False (round_bits (nat v) 1 e)"
    using pos_not_special [OF assms(1)] pos_not_special [OF assms(2)] vp
    by (simp add: dadd_def Let_def e_def [symmetric] v_def [symmetric])
  note r = round_bits_exact [OF n(1) zero_less_one n(2) k(2-4)]
  show "pos_dbl (dadd x y)" unfolding d by (rule pos_mk [OF r(1)])
  show "dbl_real (dadd x y) = real k * 2 powi s" unfolding d r(2) by simp
qed

lemma dneg_fields: "dbl_bits (dneg x) = dbl_bits x" "dbl_neg (dneg x) = (\<not> dbl_neg x)"
proof -
  have "(0x80000000 :: 32 word) AND 0x7fffffff = 0" by simp
  then have "(word0 x XOR 0x80000000) AND 0x7fffffff = word0 x AND 0x7fffffff"
    by (simp add: bit.conj_xor_distrib2)
  then show "dbl_bits (dneg x) = dbl_bits x" by (simp add: dbl_bits_def dneg_def)
  have "bit (0x80000000 :: 32 word) 31" by simp
  then show "dbl_neg (dneg x) = (\<not> dbl_neg x)" by (simp add: dbl_neg_def dneg_def bit_xor_iff)
qed

lemma dneg_real: "dbl_real (dneg x) = - dbl_real x" "finite_dbl (dneg x) = finite_dbl x"
proof -
  have "mantissa (dneg x) = mantissa x" "dbl_scale (dneg x) = dbl_scale x"
    by (simp_all add: mantissa_split dbl_scale_def bits_fields dneg_fields)
  then show "dbl_real (dneg x) = - dbl_real x" by (simp add: dbl_real_def dneg_fields)
  show "finite_dbl (dneg x) = finite_dbl x" by (simp add: finite_dbl_def dneg_fields)
qed

text \<open>A value has one double, zero apart.\<close>

lemma pos_scale_le:
  assumes "pos_dbl x" "pos_dbl y" "dbl_real x = dbl_real y" "0 < mantissa x"
  shows "dbl_scale y \<le> dbl_scale x"
proof (rule ccontr)
  assume "\<not> dbl_scale y \<le> dbl_scale x"
  then have l: "dbl_scale x \<le> dbl_scale y" "1 \<le> nat (dbl_scale y - dbl_scale x)" "dbl_exp y \<noteq> 0"
    by (auto simp: dbl_scale_def split: if_splits)
  have "real (mantissa x) * 2 powi dbl_scale x = real (mantissa y) * (2 ^ nat (dbl_scale y - dbl_scale x) * 2 powi dbl_scale x)"
    using assms(1-3) by (simp add: pos_real powi_split [OF l(1), symmetric])
  then have "real (mantissa x) = real (mantissa y * 2 ^ nat (dbl_scale y - dbl_scale x))" by simp
  then have "mantissa x = mantissa y * 2 ^ nat (dbl_scale y - dbl_scale x)" by (simp only: of_nat_eq_iff)
  moreover have "(2::nat) ^ 52 * 2 ^ 1 \<le> mantissa y * 2 ^ nat (dbl_scale y - dbl_scale x)"
    by (intro mult_mono mantissa_normal [OF l(3)] power_increasing l(2)) simp_all
  ultimately show False using mantissa_less [of x] by simp
qed

lemma pos_dbl_eqI:
  assumes "pos_dbl x" "pos_dbl y" "dbl_real x = dbl_real y"
  shows "x = y"
proof -
  have m0: "mantissa x = 0 \<longleftrightarrow> mantissa y = 0" using assms by (auto simp: pos_real)
  have "mantissa x = mantissa y \<and> (mantissa x = 0 \<or> dbl_scale x = dbl_scale y)"
  proof (cases "mantissa x = 0")
    case False
    then have "dbl_scale x = dbl_scale y"
      using pos_scale_le [OF assms] pos_scale_le [OF assms(2,1) assms(3) [symmetric]] m0 by simp
    then show ?thesis using assms by (simp add: pos_real)
  qed (use m0 in simp)
  then have "dbl_bits x = dbl_bits y"
    using dbl_frac_less [of x] dbl_frac_less [of y]
    by (auto simp: dbl_bits_split mantissa_split dbl_scale_def split: if_splits)
  then show ?thesis using assms(1,2) by (intro dbl_eqI) (simp_all add: pos_dbl_def)
qed

lemma dzero_pos: "pos_dbl dzero" "dbl_real dzero = 0"
  by (simp_all add: pos_dbl_def finite_dbl_def dbl_bits_def dbl_neg_def dzero_def inf_bits_def dbl_real_def
      mantissa_def dbl_high_def dbl_exp_def Exp_shift_def Frac_mask_def)

lemma pos_less_top:
  assumes "pos_dbl x"
  shows "dbl_real x < 2 powi 1024"
proof -
  have "dbl_scale x \<le> 971" using assms by (simp add: pos_dbl_def finite_exp dbl_scale_def)
  then have "(2::real) powi dbl_scale x \<le> 2 powi 971" by (intro power_int_increasing) simp_all
  moreover have "real (mantissa x) < 2 ^ 53" using mantissa_less [of x] by (metis of_nat_less_iff of_nat_numeral of_nat_power)
  ultimately have "real (mantissa x) * 2 powi dbl_scale x < 2 ^ 53 * 2 powi 971"
    by (intro mult_less_le_imp_less) simp_all
  also have "(2::real) ^ 53 * 2 powi 971 = 2 powi (int 53 + 971)" by (rule powi_shift)
  finally show ?thesis using pos_real [OF assms] by simp
qed

lemma dadd_zero:
  assumes "pos_dbl x" "0 < mantissa x"
  shows "dadd x dzero = x"
proof (rule pos_dbl_eqI)
  have f: "finite_dbl x" "finite_dbl dzero" using assms(1) dzero_pos by (simp_all add: pos_dbl_def)
  have v: "dbl_real x + dbl_real dzero = real (mantissa x) * 2 powi dbl_scale x"
    using pos_real [OF assms(1)] dzero_pos(2) by simp
  have t: "real (mantissa x) * 2 powi dbl_scale x < 2 powi 1024"
    using pos_less_top [OF assms(1)] unfolding pos_real [OF assms(1)] .
  note r = dadd_exact [OF f v assms(2) mantissa_less dbl_scale_ge t]
  show "pos_dbl (dadd x dzero)" by (rule r(1))
  show "dbl_real (dadd x dzero) = dbl_real x" using r(2) pos_real [OF assms(1)] by simp
qed (rule assms(1))

end
