(* ===== verification/Dtoa_Free.thy ===== *)
theory Dtoa_Free
  imports Dtoa_Margins Doubles_Real
begin

text \<open>
  What the margins of \<open>dtoa\<close> (src/src/common/dtoa.cc) mean: a number inside them is read as the \<open>double\<close>
  by correct rounding, and a number outside is not. So the string of the modes that choose the length is
  the shortest one that stands for the \<open>double\<close>.
\<close>

section \<open>The distance to the neighbours\<close>

lemma exponent_above: "w AND (Exp_mask AND NOT Exp_msk1) = 0 \<longleftrightarrow> drop_bit 21 (w AND 0x7fffffff) = (0 :: 32 word)"
proof -
  have m: "Exp_mask AND NOT Exp_msk1 = push_bit 21 (mask 10)" "(0x7fffffff :: 32 word) = mask 31"
    by (simp_all add: Exp_mask_def Exp_msk1_def mask_eq_exp_minus_1)
  show ?thesis unfolding m
  proof
    assume a: "w AND push_bit 21 (mask 10) = 0"
    show "drop_bit 21 (w AND mask 31) = 0"
    proof (rule bit_word_eqI)
      fix n
      have "bit (w AND push_bit 21 (mask 10)) (21 + n) = bit (0 :: 32 word) (21 + n)" by (simp only: a)
      then show "bit (drop_bit 21 (w AND mask 31)) n = bit (0 :: 32 word) n" by (auto simp: bit_simps)
    qed
  next
    assume a: "drop_bit 21 (w AND mask 31) = 0"
    show "w AND push_bit 21 (mask 10) = 0"
    proof (rule bit_word_eqI)
      fix n
      have "bit (drop_bit 21 (w AND mask 31)) (n - 21) = bit (0 :: 32 word) (n - 21)" by (simp only: a)
      then show "bit (w AND push_bit 21 (mask 10)) n = bit (0 :: 32 word) n" by (auto simp: bit_simps)
    qed
  qed
qed

lemma boundary_iff: "boundary u \<longleftrightarrow> mantissa u = 2 ^ 52 \<and> 1 < dbl_exp u"
proof -
  have "unat (drop_bit 21 (word0 u AND 0x7fffffff)) = dbl_exp u div 2"
    unfolding unat_drop low31 dbl_exp_field by (simp flip: div_mult2_eq)
  then have e: "drop_bit 21 (word0 u AND 0x7fffffff) = 0 \<longleftrightarrow> dbl_exp u < 2"
    by (metis div_less div_greater_zero_iff linorder_not_less neq0_conv unat_eq_0 zero_less_numeral)
  have f: "word1 u = 0 \<and> word0 u AND Bndry_mask = 0 \<longleftrightarrow> dbl_frac u = 0"
    by (auto simp: dbl_frac_def Bndry_mask_def Frac_mask_def unat_eq_0)
  show ?thesis unfolding boundary_def exponent_above e using f mantissa_split [of u] by auto
qed

definition unit_of :: "dbl \<Rightarrow> real" where
  "unit_of u = 2 powi dbl_scale u"

definition lower_margin :: "dbl \<Rightarrow> real" where
  "lower_margin u = unit_of u / 2 / (if boundary u then 2 else 1)"

lemma unit_pos [simp]: "0 < unit_of u"
  by (simp add: unit_of_def)

lemma lower_margin_le: "lower_margin u \<le> unit_of u / 2"
  using unit_pos [of u] by (simp add: lower_margin_def)

lemma bits_above_exponent:
  "dbl_bits u = (max 1 (dbl_exp u) - 1) * 2 ^ 52 + mantissa u" "dbl_scale u = int (max 1 (dbl_exp u) - 1) - 1074"
  by (cases "dbl_exp u"; simp add: dbl_bits_split mantissa_split dbl_scale_def)+

lemma neighbour_above:
  assumes "pos_dbl u" "dbl_bits u + 1 < inf_bits"
  obtains y where "finite_dbl y" "dbl_real y = dbl_real u + unit_of u"
proof -
  let ?T = "max 1 (dbl_exp u) - 1"
  have m: "mantissa u + 1 \<le> 2 ^ 53" "?T = 0 \<or> 2 ^ 52 \<le> mantissa u + 1"
    using mantissa_less [of u] mantissa_normal [of u] by (auto simp: max_def)
  have "?T * 2 ^ 52 + (mantissa u + 1) < inf_bits" using assms(2) unfolding bits_above_exponent(1) by simp
  note b = bits_value [OF m refl this, of False]
  show thesis using that [OF b(1)] b(3) pos_real [OF assms(1)]
    by (simp add: unit_of_def bits_above_exponent(2) distrib_right)
qed

lemma neighbour_below:
  assumes "pos_dbl u" "mantissa u \<noteq> 0"
  obtains y where "finite_dbl y" "dbl_real y = dbl_real u - 2 * lower_margin u"
proof (cases "boundary u")
  case True
  then have b: "mantissa u = 2 ^ 52" "1 < dbl_exp u" by (simp_all add: boundary_iff)
  obtain t where t: "dbl_exp u = Suc (Suc t)" using b(2) by (metis Suc_lessE less_natE One_nat_def)
  have m: "2 ^ 53 - 1 \<le> (2::nat) ^ 53" "t = 0 \<or> 2 ^ 52 \<le> (2::nat) ^ 53 - 1" by simp_all
  have "t * 2 ^ 52 + (2 ^ 53 - 1) < inf_bits"
    using assms(1) t by (simp add: pos_dbl_def finite_exp inf_bits_def)
  note v = bits_value [OF m refl this, of False]
  have "dbl_scale u = int t - 1074 + 1" by (simp add: dbl_scale_def t)
  then have s: "unit_of u = 2 * 2 powi (int t - 1074)" unfolding unit_of_def by (simp only: powi_Suc)
  have "dbl_real (mk_dbl False (t * 2 ^ 52 + (2 ^ 53 - 1))) = dbl_real u - 2 * lower_margin u"
    using v(3) pos_real [OF assms(1)] True b(1) s by (simp add: lower_margin_def unit_of_def [symmetric])
  then show thesis using that v(1) by blast
next
  case False
  let ?T = "max 1 (dbl_exp u) - 1"
  have m: "mantissa u - 1 \<le> 2 ^ 53" "?T = 0 \<or> 2 ^ 52 \<le> mantissa u - 1"
    using mantissa_less [of u] mantissa_normal [of u] False by (auto simp: boundary_iff max_def)
  have "?T * 2 ^ 52 + (mantissa u - 1) \<le> dbl_bits u" unfolding bits_above_exponent(1) by simp
  then have "?T * 2 ^ 52 + (mantissa u - 1) < inf_bits" using assms(1) by (simp add: pos_dbl_def finite_dbl_def)
  note b = bits_value [OF m refl this, of False]
  show thesis using that [OF b(1)] b(3) pos_real [OF assms(1)] assms(2) False
    by (simp add: unit_of_def lower_margin_def bits_above_exponent(2) left_diff_distrib)
qed

section \<open>Reading a number\<close>

definition reads :: "bool \<Rightarrow> dbl \<Rightarrow> real \<Rightarrow> bool" where
  "reads incl u X \<longleftrightarrow>
     (if incl then dbl_real u - lower_margin u \<le> X \<and> X \<le> dbl_real u + unit_of u / 2
      else dbl_real u - lower_margin u < X \<and> X < dbl_real u + unit_of u / 2)"

lemma reads_rounds:
  assumes u: "pos_dbl u" and incl: "incl \<longrightarrow> even (mantissa u)" and X: "reads incl u X"
  shows "rounds_to u X"
proof -
  have f: "finite_dbl u" using u by (simp add: pos_dbl_def)
  note r = pos_real [OF u]
  have b: "dbl_real u - lower_margin u \<le> X" "X \<le> dbl_real u + unit_of u / 2"
    using X by (auto simp: reads_def split: if_splits)
  show ?thesis
  proof (cases "boundary u \<and> X < dbl_real u")
    case True
    then have m: "mantissa u = 2 ^ 52" "1 < dbl_exp u" by (simp_all add: boundary_iff)
    have s: "unit_of u = 2 * 2 powi (dbl_scale u - 1)" unfolding unit_of_def using powi_Suc [of "dbl_scale u - 1"] by simp
    have v: "dbl_real u = real (2 ^ 53) * 2 powi (dbl_scale u - 1)" using r m(1) s by (simp add: unit_of_def)
    have near: "\<bar>real (2 ^ 53) * 2 powi (dbl_scale u - 1) - X\<bar> \<le> 2 powi (dbl_scale u - 1) / 2"
      using b(1) True unfolding v [symmetric] by (simp add: lower_margin_def s)
    have "2 * (2 ^ 52 * 2 powi (dbl_scale u - 1)) - X \<le> 2 powi (dbl_scale u - 1) / 2" using abs_le_D1 [OF near] by simp
    moreover have "2 powi (dbl_scale u - 1) \<le> 2 ^ 52 * (2::real) powi (dbl_scale u - 1)" by simp
    ultimately have "(2::real) ^ 52 * 2 powi (dbl_scale u - 1) \<le> X" using powi_pos [of "dbl_scale u - 1"] by linarith
    then show ?thesis using m dbl_scale_ge [of u]
      by (intro rounds_toI [OF f v _ near]) (auto simp: dbl_scale_def)
  next
    case False
    have near: "\<bar>real (mantissa u) * 2 powi dbl_scale u - X\<bar> \<le> 2 powi dbl_scale u / 2"
    proof -
      have "dbl_real u - unit_of u / 2 \<le> X" using b(1) lower_margin_le [of u] by linarith
      then show ?thesis using b(2) unfolding r [symmetric] unit_of_def by linarith
    qed
    have far: "dbl_scale u = - 1074 \<or> 2 ^ 52 * 2 powi dbl_scale u \<le> X"
    proof (cases "1 < dbl_exp u")
      case True
      note n = mantissa_normal [of u]
      show ?thesis
      proof (cases "mantissa u = 2 ^ 52")
        case True
        then have "dbl_real u \<le> X" using False \<open>1 < dbl_exp u\<close> by (auto simp: boundary_iff)
        then show ?thesis using r True by simp
      next
        case _: False
        then have "2 ^ 52 + 1 \<le> mantissa u" using n \<open>1 < dbl_exp u\<close> by simp
        then have "real (2 ^ 52 + 1) \<le> real (mantissa u)" by (simp only: of_nat_le_iff)
        then have "real (2 ^ 52 + 1) * 2 powi dbl_scale u \<le> real (mantissa u) * 2 powi dbl_scale u" by (rule mult_right_mono) simp
        then have "2 ^ 52 * 2 powi dbl_scale u + 2 powi dbl_scale u \<le> real (mantissa u) * 2 powi dbl_scale u" by (simp add: distrib_right)
        then show ?thesis using abs_le_D1 [OF near] powi_pos [of "dbl_scale u"] by linarith
      qed
    qed (simp add: dbl_scale_def max_def)
    have tie: "even (mantissa u)" if "\<bar>real (mantissa u) * 2 powi dbl_scale u - X\<bar> = 2 powi dbl_scale u / 2"
    proof -
      have "incl"
      proof (rule ccontr)
        assume "\<not> incl"
        then have "dbl_real u - lower_margin u < X" "X < dbl_real u + unit_of u / 2" using X by (simp_all add: reads_def)
        moreover have "dbl_real u - unit_of u / 2 < X" using calculation(1) lower_margin_le [of u] by linarith
        ultimately show False using that unfolding r [symmetric] unit_of_def by linarith
      qed
      then show ?thesis using incl by simp
    qed
    show ?thesis by (rule rounds_toI [OF f r dbl_scale_ge near far tie])
  qed
qed

lemma rounds_reads:
  assumes u: "pos_dbl u" "mantissa u \<noteq> 0" "dbl_bits u + 1 < inf_bits" and incl: "even (mantissa u) \<longrightarrow> incl" and X: "rounds_to u X"
  shows "reads incl u X"
proof -
  obtain y where y: "finite_dbl y" "dbl_real y = dbl_real u + unit_of u" by (rule neighbour_above [OF u(1,3)])
  obtain z where z: "finite_dbl z" "dbl_real z = dbl_real u - 2 * lower_margin u" by (rule neighbour_below [OF u(1,2)])
  have l: "0 < lower_margin u" by (simp add: lower_margin_def)
  have near: "\<bar>dbl_real u - X\<bar> \<le> \<bar>dbl_real w - X\<bar>" "\<bar>dbl_real u - X\<bar> = \<bar>dbl_real w - X\<bar> \<Longrightarrow> dbl_real w \<noteq> dbl_real u \<Longrightarrow> even (mantissa u)"
    if "finite_dbl w" for w using X that by (auto simp: rounds_to_def)
  have "X \<le> dbl_real u + unit_of u / 2" using near(1) [OF y(1)] unit_pos [of u] unfolding y(2) by linarith
  moreover have "X = dbl_real u + unit_of u / 2 \<Longrightarrow> incl" using near(2) [OF y(1)] unit_pos [of u] incl unfolding y(2) by auto
  moreover have "dbl_real u - lower_margin u \<le> X" using near(1) [OF z(1)] l unfolding z(2) by linarith
  moreover have "X = dbl_real u - lower_margin u \<Longrightarrow> incl" using near(2) [OF z(1)] l incl unfolding z(2) by auto
  ultimately show ?thesis by (cases incl) (auto simp: reads_def order.strict_iff_order)
qed

section \<open>The margins of the loop\<close>

definition unum :: "dbl \<Rightarrow> int \<Rightarrow> nat" where
  "unum u k = 2 ^ max 1 (dbl_exp u) * 10 ^ nat (- k)"

lemma dnum_unum: "dnum u k = mantissa u * unum u k"
  by (simp add: dnum_def unum_def)

lemma unum_pred: "10 * unum u k * dden (k - 1) = unum u (k - 1) * dden k"
proof (cases "k \<ge> 1")
  case True
  then have "nat k = Suc (nat (k - 1))" "nat (- k) = 0" "nat (- (k - 1)) = 0" by simp_all
  then show ?thesis by (simp only: unum_def dden_def power_Suc power_0 ac_simps mult_1_right)
next
  case False
  then have "nat (- (k - 1)) = Suc (nat (- k))" "nat k = 0" "nat (k - 1) = 0" by simp_all
  then show ?thesis by (simp only: unum_def dden_def power_Suc power_0 ac_simps mult_1_right)
qed

lemma unit_ratio: "real (unum u k) / real (dden k) * 10 powi k = unit_of u"
proof -
  have t: "(10::real) powi k = 10 ^ nat k / 10 ^ nat (- k)" 
    by (cases k rule: int_cases2) (simp_all add: power_int_minus divide_inverse)
  have "unit_of u = 2 ^ max 1 (dbl_exp u) / 2 ^ 1075"
  proof -
    have "unit_of u = 2 powi (int (max 1 (dbl_exp u)) - int 1075)" by (simp add: unit_of_def dbl_scale_def)
    then show ?thesis by (simp only: powi_div [symmetric] power_int_of_nat)
  qed
  moreover have "real (unum u k) / real (dden k) * 10 powi k = 2 ^ max 1 (dbl_exp u) / 2 ^ 1075"
    unfolding t unum_def dden_def of_nat_mult of_nat_power by simp
  ultimately show ?thesis by (simp only:)
qed

lemma scaled_margin: "a * c \<le> (b * c :: real) \<longleftrightarrow> a \<le> b" "a * c < b * c \<longleftrightarrow> a < b" if "0 < c" for a b c :: real
  using that by simp_all

text \<open>The numbers of the loop as real numbers: \<open>w\<close> units of \<open>10 ^ (k - j)\<close> are inside when they are read as \<open>u\<close>.\<close>

lemma in_margins_reads:
  assumes u: "pos_dbl u" and S: "0 < S" and A: "A * dden k = dnum u k * S"
    and m: "m * 2 ^ (1 + margin_shift u) * dden k = unum u k * S" and M: "M = m * 2 ^ margin_shift u"
  shows "in_margins incl A S m M j w \<longleftrightarrow> reads incl u (real w * 10 powi (k - int j))"
proof -
  define P where "P = (10::real) powi k"
  define c where "c = real S * 10 ^ j / P"
  have P: "0 < P" by (simp add: P_def)
  then have c: "0 < c" using S by (simp add: c_def)
  have d: "0 < real (dden k)" by simp
  have unit: "real (unum u k) = unit_of u * real (dden k) / P" using unit_ratio [of u k] d P by (simp add: P_def field_simps)
  have "real A * real (dden k) = real (mantissa u) * real (unum u k) * real S"
    using A unfolding dnum_unum by (metis of_nat_mult)
  then have "real A * real (dden k) = dbl_real u * real S / P * real (dden k)"
    unfolding unit pos_real [OF u] unit_of_def by (simp add: ac_simps)
  then have a: "real A = dbl_real u * real S / P" using d by (simp only: mult_right_cancel)
  have "real m * 2 ^ (1 + margin_shift u) * real (dden k) = real (unum u k) * real S"
    using m by (metis of_nat_mult of_nat_numeral of_nat_power)
  then have m1: "real m * 2 ^ (1 + margin_shift u) = unit_of u * real S / P"
  proof -
    have "real m * 2 ^ (1 + margin_shift u) * real (dden k) = unit_of u * real S / P * real (dden k)"
      unfolding \<open>real m * 2 ^ (1 + margin_shift u) * real (dden k) = _\<close> unit by (simp add: ac_simps)
    then show ?thesis using d by (simp only: mult_right_cancel)
  qed
  then have m2: "real m = lower_margin u * real S / P" by (cases "boundary u") (simp_all add: lower_margin_def margin_shift_def field_simps)
  have m3: "real M = unit_of u / 2 * real S / P" using m1 by (simp add: M field_simps)
  have w: "real w * 10 powi (k - int j) * c = real w * real S" using P by (simp add: c_def P_def power_int_diff)
  have "real (w * S + m * 10 ^ j) = real w * real S + lower_margin u * c"
    "real ((A + M) * 10 ^ j) = dbl_real u * c + unit_of u / 2 * c"
    by (simp_all add: m2 a m3 c_def distrib_right)
  then have lo: "real (A * 10 ^ j) = dbl_real u * c" "real (w * S + m * 10 ^ j) = (real w * 10 powi (k - int j) + lower_margin u) * c"
    and hi: "real (w * S) = real w * 10 powi (k - int j) * c" "real ((A + M) * 10 ^ j) = (dbl_real u + unit_of u / 2) * c"
    unfolding distrib_right w by (simp_all add: a c_def)
  have le: "A * 10 ^ j \<le> w * S + m * 10 ^ j \<longleftrightarrow> dbl_real u \<le> real w * 10 powi (k - int j) + lower_margin u"
    "A * 10 ^ j < w * S + m * 10 ^ j \<longleftrightarrow> dbl_real u < real w * 10 powi (k - int j) + lower_margin u"
    "w * S \<le> (A + M) * 10 ^ j \<longleftrightarrow> real w * 10 powi (k - int j) \<le> dbl_real u + unit_of u / 2"
    "w * S < (A + M) * 10 ^ j \<longleftrightarrow> real w * 10 powi (k - int j) < dbl_real u + unit_of u / 2"
    unfolding of_nat_le_iff [where 'a = real, symmetric] of_nat_less_iff [where 'a = real, symmetric] lo hi scaled_margin [OF c] by blast+
  show ?thesis unfolding in_margins_def before_def reads_def le by auto
qed

section \<open>The string\<close>

lemma mantissa_even: "even (mantissa u) \<longleftrightarrow> even (unat (word1 u))"
  by (simp add: mantissa_def)

lemma reaches_real:
  assumes "pos_dbl u"
  shows "reaches u k \<longleftrightarrow> 10 powi k \<le> dbl_real u"
proof -
  have d: "0 < real (dden k)" and p: "0 < (10::real) powi k" by simp_all
  have "dbl_real u = real (mantissa u) * (real (unum u k) / real (dden k) * 10 powi k)"
    unfolding unit_ratio pos_real [OF assms] unit_of_def ..
  then have "dbl_real u = real (dnum u k) / real (dden k) * 10 powi k" by (simp add: dnum_unum)
  then have "10 powi k \<le> dbl_real u \<longleftrightarrow> 1 * 10 powi k \<le> real (dnum u k) / real (dden k) * 10 powi k" by simp
  also have "\<dots> \<longleftrightarrow> 1 \<le> real (dnum u k) / real (dden k)" by (rule scaled_margin(1) [OF p])
  also have "\<dots> \<longleftrightarrow> real (dden k) \<le> real (dnum u k)" using d by (simp add: le_divide_eq)
  finally show ?thesis by (simp add: reaches_def)
qed

text \<open>Seventeen digits are always enough.\<close>

lemma margins_bound:
  assumes u: "pos_dbl u" and S: "0 < S" and A: "A * dden k = dnum u k * S"
    and m: "m * 2 ^ (1 + margin_shift u) * dden k = unum u k * S" and M: "M = m * 2 ^ margin_shift u" and AS: "S \<le> A"
  shows "S < (m + M) * 10 ^ 16"
proof -
  have d: "0 < dden k" by simp
  have "A * dden k = mantissa u * (unum u k * S)" using A by (simp add: dnum_unum)
  also have "\<dots> = mantissa u * m * 2 ^ (1 + margin_shift u) * dden k" unfolding m [symmetric] by simp
  finally have a: "A = mantissa u * m * 2 ^ (1 + margin_shift u)" using d by (simp only: mult_right_cancel)
  have m0: "0 < m" using a AS S by (cases m) simp_all
  show ?thesis
  proof (cases "boundary u")
    case True
    then have "mantissa u = 2 ^ 52" by (simp add: boundary_iff)
    then show ?thesis using a AS m0 True by (simp add: M margin_shift_def)
  next
    case False
    have "mantissa u * m < 2 ^ 53 * m" using mantissa_less [of u] m0 by (intro mult_strict_right_mono)
    then have "mantissa u * m < 10 ^ 16 * m" by (rule less_le_trans) (simp add: mult_right_mono)
    moreover have "S \<le> 2 * (mantissa u * m)" "(m + M) * 10 ^ 16 = 2 * (10 ^ 16 * m)"
      using a AS False by (simp_all add: M margin_shift_def)
    ultimately show ?thesis by linarith
  qed
qed

lemma d2b_increment:
  assumes v: "mantissa u = vb * 2 ^ kz" "be = int (max 1 (dbl_exp u)) - 1075 + int kz"
    and n: "bbits = int n" "0 < n" "2 ^ (n - 1) \<le> vb" "vb < 2 ^ n" and d: "denorm \<longleftrightarrow> dbl_exp u = 0"
  shows "(if denorm then be + (Bias + (P_bits - 1) - 1 + 1) else 1 + P_bits - bbits) = 1 + int kz"
proof (cases "dbl_exp u = 0")
  case True
  then show ?thesis using v(2) d by (simp add: Bias_def P_bits_def)
next
  case False
  have mb: "2 ^ 52 \<le> mantissa u" "mantissa u < 2 ^ (52 + 1)" using mantissa_normal [OF False] mantissa_less [of u] by simp_all
  have "2 ^ (n - 1) * 2 ^ kz \<le> vb * 2 ^ kz" "vb * 2 ^ kz < 2 ^ n * 2 ^ kz" using n by simp_all
  moreover have s: "n + kz = n - 1 + kz + 1" using n(2) by simp
  ultimately have "2 ^ (n - 1 + kz) \<le> mantissa u" "mantissa u < 2 ^ (n - 1 + kz + 1)"
    by (simp_all only: v(1) power_add [symmetric] s)
  from bit_length_unique [OF this mb] have "n - 1 + kz = 52" .
  then show ?thesis using n(1,2) d False by (simp add: P_bits_def)
qed

lemma corrected_margin:
  assumes "h * p * dden k = unum u k * S"
  shows "10 * h * p * dden (k - 1) = unum u (k - 1) * S"
proof -
  have "10 * h * p * dden (k - 1) * dden k = 10 * (h * p * dden k) * dden (k - 1)" by simp
  also have "\<dots> = 10 * unum u k * dden (k - 1) * S" unfolding assms by simp
  also have "\<dots> = unum u (k - 1) * S * dden k" unfolding unum_pred by simp
  finally show ?thesis using dden_pos [of k] by (simp only: mult_right_cancel)
qed

lemma dtoa_long_shortest:
  assumes u: "pos_dbl u" "p5s_ok al" and b: "normal b" "0 < value_of b" "mantissa u = value_of b * 2 ^ kz"
    "be = int (max 1 (dbl_exp u)) - 1075 + int kz"
    and exps: "bbits - i - 1 = - be" "(if denorm then be + (Bias + (P_bits - 1) - 1 + 1) else 1 + P_bits - bbits) = 1 + int kz"
    and dm: "dm_leftright dm" "dm_mode dm < 2" "dm_ilim dm \<le> 0" "dm_ilim1 dm \<le> 0"
    and est: "\<not> reaches u (k + 1)" "if k_check then reaches u (k - 1) else reaches u k"
    and k1: "k1 = (if reaches u k then k else k - 1)" and incl: "incl \<longleftrightarrow> dm_mode dm \<noteq> 1 \<and> even (mantissa u)" and fuel: "16 < fuel"
  shows "\<exists>n\<le>16. \<exists>s k' al' v. dtoa_long fuel dm denorm be bbits u b i k k_check al = Inr (s, k', al') \<and>
    printed [] k1 s k' n v \<and> reads incl u (real v * 10 powi (k1 - int n)) \<and>
    (\<forall>j<n. \<forall>w. \<not> reads incl u (real w * 10 powi (k1 - int j)))"
proof -
  obtain b2 b5 s2 s5 where st: "start_exponents bbits i k = (b2, b5, s2, s5)" "0 \<le> b2" "0 \<le> b5" "0 \<le> s2" "0 \<le> s5"
    "nat b2 = nat be + nat (- k)" "nat b5 = nat (- k)" "nat s2 = nat (- be) + nat k" "nat s5 = nat k"
    by (rule start_exponents_nat [OF exps(1)])
  have inc: "1 + int kz = (if denorm then be + (Bias + (P_bits - 1) - 1 + 1) else 1 + P_bits - bbits)" "0 \<le> 1 + int kz"
    using exps(2) by simp_all
  obtain ds al1 mhi where ds: "scale True (dm_mode dm) denorm be bbits u b (b2, b5, s2, s5) al = Inr (ds, al1)"
    "ds_mhi ds = Some mhi" "normal mhi" "0 < value_of mhi" "0 \<le> ds_m2 ds" "ds_spec ds = boundary u"
    "normal (ds_b ds)" "0 < value_of (ds_b ds)" "divisor_ok (ds_S ds)" "p5s_ok al1"
    "value_of (ds_b ds) * (2 ^ nat s2 * 5 ^ nat s5) = value_of b * 2 ^ nat b2 * 5 ^ nat b5 * value_of (ds_S ds)"
    "value_of mhi * 2 ^ nat (ds_m2 ds) * 2 ^ (nat (1 + int kz) + margin_shift u) * (2 ^ nat s2 * 5 ^ nat s5) =
      2 ^ nat b2 * 5 ^ nat b5 * value_of (ds_S ds)"
    using scale_free [OF b(1,2) u(2) st(2-5) inc, of "dm_mode dm" u] by blast
  let ?S = "value_of (ds_S ds)" and ?h = "value_of mhi * 2 ^ nat (ds_m2 ds)"
  have ratio: "value_of (ds_b ds) * dden k = dnum u k * ?S" by (rule scaled_ratio [OF b(3,4) st(6-9) ds(11)])
  have margin: "?h * 2 ^ (1 + margin_shift u) * dden k = unum u k * ?S"
  proof -
    have "value_of b * (?h * 2 ^ (nat (1 + int kz) + margin_shift u)) * (2 ^ nat s2 * 5 ^ nat s5) =
        value_of b * 2 ^ nat b2 * 5 ^ nat b5 * ?S"
      using ds(12) by (simp add: mult.assoc)
    from scaled_ratio [OF b(3,4) st(6-9) this]
    have "value_of b * 2 ^ kz * (?h * 2 ^ (1 + margin_shift u) * dden k) = value_of b * 2 ^ kz * (unum u k * ?S)"
      unfolding dnum_unum b(3) by (simp add: nat_add_distrib power_add ac_simps)
    moreover have "0 < value_of b * 2 ^ kz" using b(2) by simp
    ultimately show ?thesis by (simp only: mult_left_cancel)
  qed
  note ord = ratio_order [OF ratio ds(8)]
  define low where "low = (value_of (ds_b ds) < ?S)"
  have low: "reaches u k = (\<not> low)" using ord(2) by (auto simp: low_def)
  have kc: "k_check \<or> ?S \<le> value_of (ds_b ds)" using est(2) ord(2) by (cases k_check) simp_all
  have nS: "normal (ds_S ds)" using ds(9) by (simp add: divisor_ok_def)
  obtain ds' mhi' al2 where ce:
    "correct_estimate k_check dm ds k al1 = Inr (ds', if low then k - 1 else k, if low then dm_ilim1 dm else dm_ilim dm, al2)"
    "ds_mhi ds' = Some mhi'" "normal mhi'" "value_of mhi' = (if low then 10 * value_of mhi else value_of mhi)"
    "ds_S ds' = ds_S ds" "ds_m2 ds' = ds_m2 ds" "ds_spec ds' = ds_spec ds" "normal (ds_b ds')"
    "value_of (ds_b ds') = (if low then 10 * value_of (ds_b ds) else value_of (ds_b ds))"
    by (rule correct_estimate_free [OF ds(2-4,7,8) nS kc low_def])
  have k1': "(if low then k - 1 else k) = k1" using k1 low by simp
  define m where "m = value_of mhi' * 2 ^ nat (ds_m2 ds')"
  define M where "M = m * 2 ^ margin_shift u"
  have ratio': "value_of (ds_b ds') * dden k1 = dnum u k1 * ?S" using corrected_ratio [OF ratio, of low] k1' ce(9) by simp
  have margin': "m * 2 ^ (1 + margin_shift u) * dden k1 = unum u k1 * ?S"
    using margin corrected_margin [OF margin] k1' ce(4,6) by (cases low) (simp_all add: m_def mult.assoc)
  have range: "?S \<le> value_of (ds_b ds')" "value_of (ds_b ds') < 10 * ?S"
    using ce(9) ord(3,4) est low kc by (auto simp: low_def split: if_splits)
  have pos: "0 < value_of mhi'" "0 \<le> ds_m2 ds'" "divisor_ok (ds_S ds')" using ce(4,5,6) ds(4,5,9) by simp_all
  have Mm: "M = m * (if ds_spec ds' then 2 else 1)" using ce(7) ds(6) by (simp add: M_def margin_shift_def)
  have ilim: "(if low then dm_ilim1 dm else dm_ilim dm) \<le> 0" using dm by simp
  have incl': "incl \<longleftrightarrow> dm_mode dm \<noteq> 1 \<and> even (unat (word1 u))" using incl by (simp add: mantissa_even)
  have bound: "value_of (ds_S ds') < (m + M) * 10 ^ 16"
    using margins_bound [OF u(1) ord(1) ratio' margin' M_def range(1)] ce(5) by simp
  from generate_shortest [OF ce(2,3) pos ce(8) _ _ dm(2) ilim incl' m_def Mm bound fuel, of k1 al2] range ce(5)
  obtain n s k' al3 v where g: "n \<le> 16" "generate fuel dm u ds' k1 (if low then dm_ilim1 dm else dm_ilim dm) al2 = Inr (s, k', al3)"
    "printed [] k1 s k' n v" "in_margins incl (value_of (ds_b ds')) ?S m M n v"
    "\<forall>j<n. \<forall>w. \<not> in_margins incl (value_of (ds_b ds')) ?S m M j w" by auto
  have "dtoa_long fuel dm denorm be bbits u b i k k_check al = Inr (s, k', al3)"
    by (simp add: dtoa_long_def dm(1) st(1) ds(1) ce(1) k1' g(2))
  with g show ?thesis unfolding in_margins_reads [OF u(1) ord(1) ratio' margin' M_def] by blast
qed

end
