(* ===== verification/Doubles_Error.thy ===== *)
theory Doubles_Error
  imports Doubles_Real
begin

text \<open>
  Further facts on the arithmetic of \<open>Doubles\<close>: the error of an operation of any sign, the order of
  doubles, and natural numbers as doubles, with which the operations are exact.
\<close>

section \<open>The error of one operation\<close>

abbreviation roundoff_error :: "real \<Rightarrow> real" where
  "roundoff_error X \<equiv> \<bar>X\<bar> / 2 ^ 53 + 2 powi - 1075"

lemma round_bits_error:
  assumes "0 < d" and X: "X = real a / real d * 2 powi e" "X < 2 powi 1023"
  shows "finite_dbl (mk_dbl sg (round_bits a d e))"
    "\<bar>dbl_real (mk_dbl sg (round_bits a d e)) - (if sg then - 1 else 1) * X\<bar> \<le> roundoff_error X"
proof -
  have "finite_dbl (mk_dbl sg (round_bits a d e)) \<and>
    \<bar>dbl_real (mk_dbl sg (round_bits a d e)) - (if sg then - 1 else 1) * X\<bar> \<le> roundoff_error X"
  proof (cases "a = 0")
    case True
    then show ?thesis using X(1) by (simp add: round_bits_def mk_zero finite_dbl_def inf_bits_def)
  next
    case False
    then have a: "0 < a" by simp
    obtain T m where u: "round_bits a d e = min inf_bits (T * 2 ^ 52 + m)" "m \<le> 2 ^ 53" "T = 0 \<or> 2 ^ 52 \<le> m"
      and near: "\<bar>real m * 2 powi (int T - 1074) - X\<bar> \<le> 2 powi (int T - 1074) / 2"
        "T = 0 \<or> 2 ^ 52 * 2 powi (int T - 1074) \<le> X"
      using round_bits_unit [OF a assms(1) X(1)] by blast
    have f: "round_bits a d e < inf_bits" using X by (intro round_bits_finite [OF a assms(1)]) simp
    then have n: "round_bits a d e = T * 2 ^ 52 + m" using u(1) by simp
    note bv = bits_value [OF u(2,3) n f, of sg]
    have "0 \<le> X" unfolding X(1) by simp
    have "2 powi (int T - 1074) / 2 \<le> roundoff_error X"
    proof (cases "T = 0")
      case True
      have "(2::real) powi (- 1075 + 1) = 2 * 2 powi - 1075" by (rule powi_Suc)
      then show ?thesis using True \<open>0 \<le> X\<close> by simp
    next
      case False
      then have "2 ^ 52 * 2 powi (int T - 1074) \<le> X" using near(2) by simp
      then have "2 powi (int T - 1074) / 2 \<le> X / 2 ^ 53" by simp
      moreover have "0 \<le> (2::real) powi - 1075" by simp
      ultimately show ?thesis using \<open>0 \<le> X\<close> by linarith
    qed
    moreover have "\<bar>dbl_real (mk_dbl sg (round_bits a d e)) - (if sg then - 1 else 1) * X\<bar> = \<bar>real m * 2 powi (int T - 1074) - X\<bar>"
      unfolding bv(3) by (cases sg) (simp_all add: abs_minus_commute)
    ultimately show ?thesis using bv(1) near(1) by linarith
  qed
  then show "finite_dbl (mk_dbl sg (round_bits a d e))"
    "\<bar>dbl_real (mk_dbl sg (round_bits a d e)) - (if sg then - 1 else 1) * X\<bar> \<le> roundoff_error X" by blast+
qed

lemma real_signed: "dbl_real z = of_int (signed_mantissa z) * 2 powi dbl_scale z"
  by (simp add: dbl_real_def signed_mantissa_def)

lemma dmul_error:
  assumes "finite_dbl x" "finite_dbl y" "\<bar>dbl_real x * dbl_real y\<bar> < 2 powi 1023"
  shows "finite_dbl (dmul x y)" "\<bar>dbl_real (dmul x y) - dbl_real x * dbl_real y\<bar> \<le> roundoff_error (dbl_real x * dbl_real y)"
proof -
  define sg where "sg = (dbl_neg x \<noteq> dbl_neg y)"
  have d: "dmul x y = mk_dbl sg (round_bits (mantissa x * mantissa y) 1 (dbl_scale x + dbl_scale y))"
    using pos_not_special [OF assms(1)] pos_not_special [OF assms(2)] by (simp add: dmul_def Let_def sg_def)
  let ?X = "real (mantissa x * mantissa y) / real 1 * 2 powi (dbl_scale x + dbl_scale y)"
  have X: "dbl_real x * dbl_real y = (if sg then - 1 else 1) * ?X" "\<bar>dbl_real x * dbl_real y\<bar> = ?X"
    by (simp_all add: dbl_real_def sg_def power_int_add abs_mult)
  have l: "?X < 2 powi 1023" using assms(3) unfolding X(2) .
  note e = round_bits_error [OF zero_less_one refl l, of sg, folded d X(1)]
  show "finite_dbl (dmul x y)" by (rule e(1))
  have "roundoff_error ?X = roundoff_error (dbl_real x * dbl_real y)" unfolding X(2) by simp
  then show "\<bar>dbl_real (dmul x y) - dbl_real x * dbl_real y\<bar> \<le> roundoff_error (dbl_real x * dbl_real y)" using e(2) by linarith
qed

lemma dadd_error:
  assumes "finite_dbl x" "finite_dbl y" "\<bar>dbl_real x + dbl_real y\<bar> < 2 powi 1023"
  shows "finite_dbl (dadd x y)" "\<bar>dbl_real (dadd x y) - (dbl_real x + dbl_real y)\<bar> \<le> roundoff_error (dbl_real x + dbl_real y)"
proof -
  define e where "e = min (dbl_scale x) (dbl_scale y)"
  define v where "v = signed_mantissa x * 2 ^ nat (dbl_scale x - e) + signed_mantissa y * 2 ^ nat (dbl_scale y - e)"
  have ve: "dbl_real x + dbl_real y = of_int v * 2 powi e"
    unfolding real_signed v_def using powi_split [of e "dbl_scale x"] powi_split [of e "dbl_scale y"]
    by (simp add: e_def distrib_right)
  have d: "dadd x y = (if v = 0 then mk_dbl (dbl_neg x \<and> dbl_neg y) 0 else mk_dbl (v < 0) (round_bits (nat \<bar>v\<bar>) 1 e))"
    using pos_not_special [OF assms(1)] pos_not_special [OF assms(2)]
    by (simp add: dadd_def Let_def e_def [symmetric] v_def [symmetric])
  let ?X = "real (nat \<bar>v\<bar>) / real 1 * 2 powi e"
  have X: "dbl_real x + dbl_real y = (if v < 0 then - 1 else 1) * ?X" "\<bar>dbl_real x + dbl_real y\<bar> = ?X"
    unfolding ve by (auto simp: abs_mult of_nat_nat)
  have l: "?X < 2 powi 1023" using assms(3) unfolding X(2) .
  note r = round_bits_error [OF zero_less_one refl l, of "v < 0", folded X(1)]
  have "roundoff_error ?X = roundoff_error (dbl_real x + dbl_real y)" unfolding X(2) by simp
  then have "finite_dbl (dadd x y) \<and> \<bar>dbl_real (dadd x y) - (dbl_real x + dbl_real y)\<bar> \<le> roundoff_error (dbl_real x + dbl_real y)"
    unfolding d using r ve by (auto simp: mk_zero finite_dbl_def inf_bits_def)
  then show "finite_dbl (dadd x y)" "\<bar>dbl_real (dadd x y) - (dbl_real x + dbl_real y)\<bar> \<le> roundoff_error (dbl_real x + dbl_real y)"
    by blast+
qed

lemma dsub_error:
  assumes "finite_dbl x" "finite_dbl y" "\<bar>dbl_real x - dbl_real y\<bar> < 2 powi 1023"
  shows "finite_dbl (dsub x y)" "\<bar>dbl_real (dsub x y) - (dbl_real x - dbl_real y)\<bar> \<le> roundoff_error (dbl_real x - dbl_real y)"
  using dadd_error [of x "dneg y"] assms by (simp_all add: dsub_def dneg_real)

lemma ddiv_error:
  assumes "pos_dbl x" "pos_dbl y" "0 < dbl_real y" "dbl_real x / dbl_real y < 2 powi 1023"
  shows "\<bar>dbl_real (ddiv x y) - dbl_real x / dbl_real y\<bar> \<le> roundoff_error (dbl_real x / dbl_real y)"
proof -
  have p: "0 < mantissa y" using assms(2,3) pos_mantissa by blast
  then have ny: "mantissa y \<noteq> 0" by simp
  note m = ddiv_pos [OF assms(1,2) ny]
  show ?thesis using round_bits_error(2) [OF p m(2) [symmetric] assms(4), of False] by (simp add: m(1))
qed

lemma dbl_lit_error:
  assumes "0 < d" "real a / real d < 2 powi 1023"
  shows "finite_dbl (dbl_lit a d)" "\<bar>dbl_real (dbl_lit a d) - real a / real d\<bar> \<le> roundoff_error (real a / real d)"
  using round_bits_error [OF assms(1), of "real a / real d" a 0 False] assms(2) by (simp_all add: dbl_lit_def)

section \<open>The order\<close>

lemma bits_less_real:
  assumes "dbl_bits x < dbl_bits y"
  shows "real (mantissa x) * 2 powi dbl_scale x < real (mantissa y) * 2 powi dbl_scale y"
proof (cases "dbl_exp x = dbl_exp y")
  case True
  then have "mantissa x < mantissa y" using assms by (simp add: dbl_bits_split mantissa_split)
  then show ?thesis using True by (simp add: dbl_scale_def)
next
  case False
  have l: "dbl_exp x < dbl_exp y"
  proof (rule ccontr)
    assume "\<not> dbl_exp x < dbl_exp y"
    then have "(dbl_exp y + 1) * 2 ^ 52 \<le> dbl_exp x * 2 ^ 52" using False by (intro mult_right_mono) simp_all
    then show False using assms dbl_frac_less [of y] by (simp add: dbl_bits_split)
  qed
  then have my: "2 ^ 52 \<le> mantissa y" by (intro mantissa_normal) simp
  show ?thesis
  proof (cases "dbl_scale x = dbl_scale y")
    case True
    then have "dbl_exp x = 0" using l by (auto simp: dbl_scale_def split: if_splits)
    then have "mantissa x < mantissa y" using my dbl_frac_less [of x] by (simp add: mantissa_split)
    then show ?thesis using True by simp
  next
    case ne: False
    then have s: "dbl_scale x + 1 \<le> dbl_scale y" using l by (auto simp: dbl_scale_def)
    have "real (mantissa x) < 2 ^ 53" using mantissa_less [of x] by (metis of_nat_less_iff of_nat_numeral of_nat_power)
    then have "real (mantissa x) * 2 powi dbl_scale x < 2 ^ 53 * 2 powi dbl_scale x" by (rule mult_strict_right_mono) simp
    also have "\<dots> = 2 ^ 52 * 2 powi (dbl_scale x + 1)" unfolding powi_Suc by simp
    also have "\<dots> \<le> 2 ^ 52 * 2 powi dbl_scale y" using s by (intro mult_left_mono power_int_increasing) simp_all
    also have "\<dots> \<le> real (mantissa y) * 2 powi dbl_scale y"
    proof (rule mult_right_mono)
      show "(2::real) ^ 52 \<le> real (mantissa y)" using my by (metis of_nat_le_iff of_nat_numeral of_nat_power)
    qed simp
    finally show ?thesis .
  qed
qed

lemma pos_bits_real:
  assumes "pos_dbl x" "pos_dbl y"
  shows "dbl_bits x < dbl_bits y \<longleftrightarrow> dbl_real x < dbl_real y"
  using bits_less_real [of x y] bits_less_real [of y x] assms pos_real [of x] pos_real [of y] pos_dbl_eqI [of x y]
  by (metis dbl_eqI linorder_cases less_asym order_less_irrefl pos_dbl_def)

lemma pos_order:
  assumes "pos_dbl x" "pos_dbl y"
  shows "dless x y \<longleftrightarrow> dbl_real x < dbl_real y" "dle x y \<longleftrightarrow> dbl_real x \<le> dbl_real y" "deq x y \<longleftrightarrow> dbl_real x = dbl_real y"
proof -
  have f: "\<not> is_nan x" "\<not> is_nan y" "\<not> dbl_neg x" "\<not> dbl_neg y"
    using assms pos_not_special [of x] pos_not_special [of y] by (auto simp: pos_dbl_def)
  note b = pos_bits_real [OF assms] pos_bits_real [OF assms(2,1)]
  show "dless x y \<longleftrightarrow> dbl_real x < dbl_real y" "dle x y \<longleftrightarrow> dbl_real x \<le> dbl_real y" "deq x y \<longleftrightarrow> dbl_real x = dbl_real y"
    using f b by (auto simp: dless_def dle_def deq_def dkey_def)
qed

text \<open>The conversion to an integer type is the floor of a number that is not negative.\<close>

lemma dtrunc_floor:
  assumes "pos_dbl x"
  shows "dtrunc x = \<lfloor>dbl_real x\<rfloor>"
proof -
  have "\<lfloor>real (mantissa x) * 2 powi dbl_scale x\<rfloor> = int (mantissa x) * 2 ^ nat (dbl_scale x) div 2 ^ nat (- dbl_scale x)"
  proof (cases "0 \<le> dbl_scale x")
    case True
    then have "real (mantissa x) * 2 powi dbl_scale x = of_int (int (mantissa x) * 2 ^ nat (dbl_scale x))"
      using powi_split [of 0 "dbl_scale x"] by simp
    then show ?thesis using True by (simp only: floor_of_int) simp
  next
    case False
    then have "(2::real) powi dbl_scale x * 2 ^ nat (- dbl_scale x) = 1"
      using powi_split [of "dbl_scale x" 0] by (simp add: mult.commute)
    then have "real (mantissa x) * 2 powi dbl_scale x = of_int (int (mantissa x)) / of_int (2 ^ nat (- dbl_scale x))"
      by (simp add: field_simps)
    then show ?thesis using False by (simp only: floor_divide_of_int_eq) simp
  qed
  then show ?thesis using assms pos_real [OF assms] by (simp add: dtrunc_def pos_dbl_def)
qed

section \<open>Natural numbers\<close>

lemma nat_dblI:
  assumes "pos_dbl x" "dbl_real x = real n" "n < 2 ^ 53"
  shows "x = dbl_of_nat n"
  using assms dbl_of_nat_exact [OF assms(3)] by (intro pos_dbl_eqI) simp_all

lemma nat_below_top: "n < 2 ^ 53 \<Longrightarrow> real n * 2 powi 0 < 2 powi 1024"
proof -
  assume "n < 2 ^ 53"
  from pos_less_top [OF dbl_of_nat_exact(1) [OF this]] dbl_of_nat_exact(2) [OF this] show ?thesis by simp
qed

lemma dmul_nat:
  assumes "a < 2 ^ 53" "b < 2 ^ 53" "a * b < 2 ^ 53"
  shows "dmul (dbl_of_nat a) (dbl_of_nat b) = dbl_of_nat (a * b)"
proof -
  note ab = dbl_of_nat_exact [OF assms(1)] dbl_of_nat_exact [OF assms(2)]
  have v: "dbl_real (dbl_of_nat a) * dbl_real (dbl_of_nat b) = real (a * b) * 2 powi 0" by (simp add: ab)
  note m = dmul_exact [OF ab(1,3) v assms(3) _ nat_below_top [OF assms(3)]]
  show ?thesis by (rule nat_dblI) (use m assms(3) ab in simp_all)
qed

lemma dadd_nat:
  assumes "finite_dbl x" "finite_dbl y" "dbl_real x + dbl_real y = real n" "0 < n" "n < 2 ^ 53"
  shows "dadd x y = dbl_of_nat n"
proof -
  have v: "dbl_real x + dbl_real y = real n * 2 powi 0" by (simp add: assms(3))
  note r = dadd_exact [OF assms(1,2) v assms(4,5) _ nat_below_top [OF assms(5)]]
  show ?thesis by (rule nat_dblI) (use r assms(5) in simp_all)
qed

lemma dsub_nat:
  assumes "b \<le> a" "a < 2 ^ 53"
  shows "dsub (dbl_of_nat a) (dbl_of_nat b) = dbl_of_nat (a - b)"
proof (cases "a = b")
  case True
  let ?x = "dbl_of_nat a"
  have p: "pos_dbl ?x" "finite_dbl ?x" using dbl_of_nat_exact [OF assms(2)] by (simp_all add: pos_dbl_def)
  have n: "\<not> is_nan ?x" "\<not> is_inf ?x" "\<not> is_nan (dneg ?x)" "\<not> is_inf (dneg ?x)"
    using pos_not_special [OF p(2)] pos_not_special [of "dneg ?x"] p(2) by (simp_all add: dneg_real)
  have "mantissa (dneg ?x) = mantissa ?x" "dbl_scale (dneg ?x) = dbl_scale ?x"
    by (simp_all add: mantissa_split dbl_scale_def bits_fields dneg_fields)
  then have "dadd ?x (dneg ?x) = mk_dbl False 0"
    using p(1) n by (simp add: dadd_def Let_def signed_mantissa_def dneg_fields pos_dbl_def)
  then show ?thesis using True by (simp add: dsub_def dbl_of_nat_def round_bits_def)
next
  case False
  then have b: "b < 2 ^ 53" "0 < a - b" "a - b < 2 ^ 53" using assms by simp_all
  note ab = dbl_of_nat_exact [OF assms(2)] dbl_of_nat_exact [OF b(1)]
  have f: "finite_dbl (dbl_of_nat a)" "finite_dbl (dneg (dbl_of_nat b))" using ab(1,3) by (simp_all only: dneg_real pos_dbl_def)
  have "dbl_real (dbl_of_nat a) + dbl_real (dneg (dbl_of_nat b)) = real (a - b)"
    unfolding dneg_real ab of_nat_diff [OF assms(1)] by simp
  from dadd_nat [OF f this b(2,3)] show ?thesis unfolding dsub_def .
qed

lemma nat_order:
  assumes "a < 2 ^ 53" "b < 2 ^ 53"
  shows "dless (dbl_of_nat a) (dbl_of_nat b) \<longleftrightarrow> a < b" "dle (dbl_of_nat a) (dbl_of_nat b) \<longleftrightarrow> a \<le> b"
    "deq (dbl_of_nat a) (dbl_of_nat b) \<longleftrightarrow> a = b"
  using pos_order [OF dbl_of_nat_exact(1) [OF assms(1)] dbl_of_nat_exact(1) [OF assms(2)]] dbl_of_nat_exact(2) assms by simp_all

lemma dzero_nat: "dzero = dbl_of_nat 0"
  by (rule nat_dblI) (simp_all add: dzero_pos)

lemma nat_inj: "a < 2 ^ 53 \<Longrightarrow> b < 2 ^ 53 \<Longrightarrow> dbl_of_nat a = dbl_of_nat b \<longleftrightarrow> a = b"
  by (metis dbl_of_nat_exact(2) of_nat_eq_iff)

lemma power_below: "k \<le> 15 \<Longrightarrow> n < 10 ^ k \<Longrightarrow> n < 2 ^ 53" for n :: nat
proof -
  assume "k \<le> 15" "n < 10 ^ k"
  then have "n < 10 ^ 15" using power_increasing [of k 15 "10::nat"] by simp
  then show ?thesis by (rule order.strict_trans) simp
qed

text \<open>The quotient of two numbers, truncated: exact while it is short and the divisor is not too large.\<close>

lemma ddiv_nat_trunc:
  assumes "0 < a" "a < 2 ^ 53" "0 < b" "b \<le> 10 ^ 14" "a < 10 * b"
  shows "dbl_to_int (- (2 ^ 31)) (2 ^ 31 - 1) (ddiv (dbl_of_nat a) (dbl_of_nat b)) = Inr (int (a div b))"
proof -
  have b53: "b < 2 ^ 53" using assms(4) by (rule order.strict_trans1) simp
  note ab = dbl_of_nat_exact [OF assms(2)] dbl_of_nat_exact [OF b53]
  define Q where "Q = real a / real b"
  have Q: "0 < Q" "Q < 10" using assms by (simp_all add: Q_def divide_less_eq)
  have "(2::real) powi 4 \<le> 2 powi 1023" by (intro power_int_increasing) simp_all
  then have top: "Q < 2 powi 1023" using Q by simp
  have dv: "dbl_real (dbl_of_nat a) / dbl_real (dbl_of_nat b) = Q" by (simp add: ab Q_def)
  note r = ddiv_rounds [OF ab(1,3), unfolded dv, OF _ _ top, unfolded ab(2,4)]
  have rn: "rounds_to (ddiv (dbl_of_nat a) (dbl_of_nat b)) Q" "pos_dbl (ddiv (dbl_of_nat a) (dbl_of_nat b))" using r assms by simp_all
  have e: "\<bar>dbl_real (ddiv (dbl_of_nat a) (dbl_of_nat b)) - Q\<bar> \<le> roundoff_error Q"
    using ddiv_error [OF ab(1,3), unfolded dv, OF _ top] ab(4) assms(3) by simp
  let ?q = "a div b" let ?v = "dbl_real (ddiv (dbl_of_nat a) (dbl_of_nat b))"
  have q9: "?q < 10" using assms(3,5) by (simp add: less_mult_imp_div_less)
  have near: "\<bar>?v - Q\<bar> \<le> \<bar>real n - Q\<bar>" if "n < 2 ^ 53" for n
    using rn(1) dbl_of_nat_exact [OF that] by (auto simp: rounds_to_def pos_dbl_def)
  have eq: "real a = real ?q * real b + real (a mod b)" by (metis div_mult_mod_eq of_nat_add of_nat_mult)
  have lo: "real ?q \<le> Q" using assms(3) eq by (simp add: Q_def le_divide_eq)
  have "a mod b + 1 \<le> b" using mod_less_divisor [OF assms(3), of a] by linarith
  then have "real (a mod b + 1) \<le> real b" by (simp only: of_nat_le_iff)
  then have "real a \<le> (real ?q + 1) * real b - 1" unfolding eq distrib_right by simp
  then have "Q \<le> ((real ?q + 1) * real b - 1) / real b" unfolding Q_def by (rule divide_right_mono) simp
  also have "\<dots> = real ?q + 1 - 1 / real b" using assms(3) by (simp add: diff_divide_distrib)
  finally have "Q \<le> real ?q + 1 - 1 / real b" .
  moreover have "1 / 10 ^ 14 \<le> 1 / real b"
  proof -
    have "real b \<le> 10 ^ 14" using assms(4) by (metis of_nat_le_iff of_nat_numeral of_nat_power)
    then show ?thesis using assms(3) by (intro divide_left_mono) simp_all
  qed
  ultimately have hi: "Q \<le> real ?q + 1 - 1 / 10 ^ 14" by linarith
  have "real ?q \<le> ?v" using near [of ?q] lo q9 by simp
  moreover have "?v < real ?q + 1"
  proof -
    have "(2::real) powi - 1075 \<le> 2 powi - 60" by (intro power_int_increasing) simp_all
    also have "\<dots> = 1 / 2 ^ 60" by (simp add: power_int_minus inverse_eq_divide)
    finally have "\<bar>Q\<bar> / 2 ^ 53 + 2 powi - 1075 < 1 / 10 ^ 14" using Q by simp
    then show ?thesis using e hi by linarith
  qed
  ultimately have fl: "\<lfloor>?v\<rfloor> = int ?q" by (simp add: floor_eq_iff)
  have "finite_dbl (ddiv (dbl_of_nat a) (dbl_of_nat b))" using rn(2) by (simp add: pos_dbl_def)
  then show ?thesis using dtrunc_floor [OF rn(2)] fl q9 by (simp add: dbl_to_int_def)
qed

end
