(* ===== verification/Dtoa_Powers.thy ===== *)
theory Dtoa_Powers
  imports Doubles_Error
begin

text \<open>
  The powers of ten that doubles reach, between two multiples of powers of two, and the line with which
  \<open>dtoa\<close> (src/src/common/dtoa.cc) estimates the logarithm, compared with the exponent at every one of them.
\<close>

section \<open>A table of powers\<close>

text \<open>\<open>10 ^ K\<close> lies between \<open>m\<close> and \<open>M\<close>, in units of \<open>2 ^ (i - 39)\<close>; \<open>i\<close> is its binary exponent.\<close>

definition ten_between :: "int \<Rightarrow> int \<Rightarrow> int \<Rightarrow> int \<Rightarrow> bool" where
  "ten_between m M i K \<longleftrightarrow> of_int m * 2 powi (i - 39) \<le> (10::real) powi K \<and> (10::real) powi K \<le> of_int M * 2 powi (i - 39)"

text \<open>
  At the power itself the line, in units of \<open>10 ^ - 15\<close>, is above the exponent, with room for the errors of the
  computation, and less than one above it.
\<close>

definition line_entry :: "int \<Rightarrow> int \<Rightarrow> int \<Rightarrow> int \<Rightarrow> bool" where
  "line_entry m M i K \<longleftrightarrow> 2 ^ 39 \<le> m \<and> M \<le> 2 ^ 40 \<and>
     2 ^ 40 * (K * 10 ^ 15 + 8000000) \<le>
       (2 * m - 3 * 2 ^ 39) * 289529654602168 + 2 ^ 40 * (176091259055800 + i * 301029995663981) \<and>
     (2 * M - 3 * 2 ^ 39) * 289529654602168 + 2 ^ 40 * (176091259055800 + i * 301029995663981 + 8000000) \<le>
       2 ^ 40 * ((K + 1) * 10 ^ 15)"

fun rising :: "nat \<Rightarrow> int \<Rightarrow> int \<Rightarrow> int \<Rightarrow> int \<Rightarrow> bool" where
  "rising 0 m M i K = True"
| "rising (Suc n) m M i K \<longleftrightarrow> line_entry m M i K \<and>
     (if 10 * m < 8796093022208 then rising n (10 * m div 8) (10 * M div 8 + 1) (i + 3) (K + 1)
      else rising n (10 * m div 16) (10 * M div 16 + 1) (i + 4) (K + 1))"

fun falling :: "nat \<Rightarrow> int \<Rightarrow> int \<Rightarrow> int \<Rightarrow> int \<Rightarrow> bool" where
  "falling 0 m M i K = True"
| "falling (Suc n) m M i K \<longleftrightarrow> line_entry m M i K \<and>
     (if 5497558138880 \<le> 8 * m then falling n (8 * m div 10) (8 * M div 10 + 1) (i - 3) (K - 1)
      else falling n (16 * m div 10) (16 * M div 10 + 1) (i - 4) (K - 1))"

lemma rising_table: "rising 310 549755813888 549755813888 0 0"
  by code_simp

lemma falling_table: "falling 325 549755813888 549755813888 0 0"
  by code_simp

lemma div_between:
  fixes a d :: int
  assumes "0 < d"
  shows "real_of_int (a div d) * of_int d \<le> of_int a" "real_of_int a \<le> of_int (a div d + 1) * of_int d"
proof -
  have "a = a div d * d + a mod d" "0 \<le> a mod d" "a mod d < d" using assms by simp_all
  then have "a div d * d \<le> a" "a \<le> a div d * d + d" by linarith+
  then have "a div d * d \<le> a" "a \<le> (a div d + 1) * d" by (simp_all add: distrib_right)
  then show "real_of_int (a div d) * of_int d \<le> of_int a" "real_of_int a \<le> of_int (a div d + 1) * of_int d"
    by (simp_all only: of_int_mult [symmetric] of_int_le_iff)
qed

text \<open>One step of a table: both bounds are multiplied by \<open>c / d\<close>.\<close>

lemma ten_between_step:
  assumes b: "ten_between m M i K" and "0 < c" "0 < d"
    and r: "(10::real) powi K' * (of_int d * 2 powi (i - 39)) = of_int c * 10 powi K * 2 powi (i' - 39)"
  shows "ten_between (c * m div d) (c * M div d + 1) i' K'"
proof -
  define t t' T T' where t_def: "t = (2::real) powi (i - 39)" "t' = (2::real) powi (i' - 39)" "T = (10::real) powi K" "T' = (10::real) powi K'"
  have p: "0 < t" "0 < t'" "0 < real_of_int c" "0 < real_of_int d" using assms(2,3) by (simp_all add: t_def)
  have T: "T' * (real_of_int d * t) = real_of_int c * T * t'" using r by (simp add: t_def)
  have b: "real_of_int m * t \<le> T" "T \<le> real_of_int M * t" using b by (simp_all add: ten_between_def t_def)
  note lo = div_between(1) [OF assms(3), of "c * m"] and hi = div_between(2) [OF assms(3), of "c * M"]
  have "real_of_int (c * m div d) * t' * (real_of_int d * t) = real_of_int (c * m div d) * real_of_int d * (t * t')" by (simp only: ac_simps)
  also have "\<dots> \<le> real_of_int (c * m) * (t * t')" using lo p by (intro mult_right_mono) simp_all
  also have "\<dots> = real_of_int c * t' * (real_of_int m * t)" by simp
  also have "\<dots> \<le> real_of_int c * t' * T" using b(1) p by (intro mult_left_mono) simp_all
  also have "\<dots> = T' * (real_of_int d * t)" unfolding T by simp
  finally have l: "real_of_int (c * m div d) * t' \<le> T'" using p by (simp only: mult_le_cancel_right_pos mult_pos_pos)
  have "T' * (real_of_int d * t) = real_of_int c * t' * T" unfolding T by simp
  also have "\<dots> \<le> real_of_int c * t' * (real_of_int M * t)" using b(2) p by (intro mult_left_mono) simp_all
  also have "\<dots> = real_of_int (c * M) * (t * t')" by simp
  also have "\<dots> \<le> real_of_int (c * M div d + 1) * real_of_int d * (t * t')" using hi p by (intro mult_right_mono) simp_all
  also have "\<dots> = real_of_int (c * M div d + 1) * t' * (real_of_int d * t)" by (simp only: ac_simps)
  finally have "T' \<le> real_of_int (c * M div d + 1) * t'" using p by (simp only: mult_le_cancel_right_pos mult_pos_pos)
  with l show ?thesis by (simp add: ten_between_def t_def)
qed

lemma ten_between_steps:
  assumes "ten_between m M i K"
  shows "ten_between (10 * m div 8) (10 * M div 8 + 1) (i + 3) (K + 1)"
    "ten_between (10 * m div 16) (10 * M div 16 + 1) (i + 4) (K + 1)"
    "ten_between (8 * m div 10) (8 * M div 10 + 1) (i - 3) (K - 1)"
    "ten_between (16 * m div 10) (16 * M div 10 + 1) (i - 4) (K - 1)"
proof -
  have p: "(2::real) powi (s + 3) = 8 * 2 powi s" "(2::real) powi (s + 4) = 16 * 2 powi s" "(10::real) powi (s + 1) = 10 * 10 powi s" for s
    by (simp_all add: power_int_add)
  have e: "(2::real) powi (i + 3 - 39) = 8 * 2 powi (i - 39)" "(2::real) powi (i + 4 - 39) = 16 * 2 powi (i - 39)"
    "(2::real) powi (i - 39) = 8 * 2 powi (i - 3 - 39)" "(2::real) powi (i - 39) = 16 * 2 powi (i - 4 - 39)"
    "(10::real) powi K = 10 * 10 powi (K - 1)"
    using p(1) [of "i - 39"] p(2) [of "i - 39"] p(1) [of "i - 3 - 39"] p(2) [of "i - 4 - 39"] p(3) [of "K - 1"] by (simp_all add: algebra_simps)
  have r: "(10::real) powi (K + 1) * (real_of_int 8 * 2 powi (i - 39)) = real_of_int 10 * 10 powi K * 2 powi (i + 3 - 39)"
    "(10::real) powi (K + 1) * (real_of_int 16 * 2 powi (i - 39)) = real_of_int 10 * 10 powi K * 2 powi (i + 4 - 39)"
    unfolding e(1,2) p by simp_all
  have q: "(10::real) powi (K - 1) * (real_of_int 10 * 2 powi (i - 39)) = real_of_int 8 * 10 powi K * 2 powi (i - 3 - 39)"
    "(10::real) powi (K - 1) * (real_of_int 10 * 2 powi (i - 39)) = real_of_int 16 * 10 powi K * 2 powi (i - 4 - 39)"
    by (simp only: e(3,5), simp) (simp only: e(4,5), simp)
  show "ten_between (10 * m div 8) (10 * M div 8 + 1) (i + 3) (K + 1)"
    by (rule ten_between_step [OF assms _ _ r(1)]) simp_all
  show "ten_between (10 * m div 16) (10 * M div 16 + 1) (i + 4) (K + 1)"
    by (rule ten_between_step [OF assms _ _ r(2)]) simp_all
  show "ten_between (8 * m div 10) (8 * M div 10 + 1) (i - 3) (K - 1)"
    by (rule ten_between_step [OF assms _ _ q(1)]) simp_all
  show "ten_between (16 * m div 10) (16 * M div 10 + 1) (i - 4) (K - 1)"
    by (rule ten_between_step [OF assms _ _ q(2)]) simp_all
qed

lemma rising_sound:
  assumes "rising n m M i K" "ten_between m M i K" "j < n"
  shows "\<exists>m M i. ten_between m M i (K + int j) \<and> line_entry m M i (K + int j)"
  using assms
proof (induction n arbitrary: m M i K j)
  case (Suc n)
  show ?case
  proof (cases j)
    case 0
    then show ?thesis using Suc.prems by auto
  next
    case (Suc j')
    then obtain m' M' i' where "rising n m' M' i' (K + 1)" "ten_between m' M' i' (K + 1)"
      using Suc.prems(1) ten_between_steps(1,2) [OF Suc.prems(2)] by (metis rising.simps(2))
    from Suc.IH [OF this, of j'] show ?thesis using Suc.prems(3) Suc by (simp add: algebra_simps)
  qed
qed simp

lemma falling_sound:
  assumes "falling n m M i K" "ten_between m M i K" "j < n"
  shows "\<exists>m M i. ten_between m M i (K - int j) \<and> line_entry m M i (K - int j)"
  using assms
proof (induction n arbitrary: m M i K j)
  case (Suc n)
  show ?case
  proof (cases j)
    case 0
    then show ?thesis using Suc.prems by auto
  next
    case (Suc j')
    then obtain m' M' i' where "falling n m' M' i' (K - 1)" "ten_between m' M' i' (K - 1)"
      using Suc.prems(1) ten_between_steps(3,4) [OF Suc.prems(2)] by (metis falling.simps(2))
    from Suc.IH [OF this, of j'] show ?thesis using Suc.prems(3) Suc by (simp add: algebra_simps)
  qed
qed simp

lemma power_entry:
  assumes "- 324 \<le> K" "K \<le> 309"
  obtains m M i where "ten_between m M i K" "line_entry m M i K"
proof -
  have z: "ten_between 549755813888 549755813888 0 0" by (simp add: ten_between_def power_int_minus)
  show thesis
  proof (cases "0 \<le> K")
    case True
    then have "nat K < 310" "0 + int (nat K) = K" using assms(2) by linarith+
    then show thesis using rising_sound [OF rising_table z, of "nat K"] that by auto
  next
    case False
    then have "nat (- K) < 325" "0 - int (nat (- K)) = K" using assms(1) by linarith+
    then show thesis using falling_sound [OF falling_table z, of "nat (- K)"] that by auto
  qed
qed

section \<open>The line\<close>

text \<open>\<open>log10_line\<close> is the linear function the code evaluates, with the decimal constants of the source.\<close>

definition log10_line :: "real \<Rightarrow> int \<Rightarrow> real" where
  "log10_line x i =
     (x - 3 / 2) * (289529654602168 / 10 ^ 15) + 1760912590558 / 10 ^ 13 + real_of_int i * (301029995663981 / 10 ^ 15)"

lemma line_step: "log10_line 2 i \<le> log10_line 1 (i + 1)"
  by (simp add: log10_line_def field_simps)

lemma line_le: "x \<le> y \<Longrightarrow> log10_line x i \<le> log10_line y i"
  by (simp add: log10_line_def)

lemma line_le_exp: "i \<le> j \<Longrightarrow> log10_line x i \<le> log10_line x j"
  by (simp add: log10_line_def)

lemma line_mono:
  assumes "x \<le> 2" "1 \<le> y" "i < j \<or> i = j \<and> x \<le> y"
  shows "log10_line x i \<le> log10_line y j"
proof (cases "i = j")
  case False
  then have "i + 1 \<le> j" using assms(3) by simp
  have "log10_line x i \<le> log10_line 2 i" by (rule line_le [OF assms(1)])
  also have "\<dots> \<le> log10_line 1 (i + 1)" by (rule line_step)
  also have "\<dots> \<le> log10_line 1 j" by (rule line_le_exp [OF \<open>i + 1 \<le> j\<close>])
  also have "\<dots> \<le> log10_line y j" by (rule line_le [OF assms(2)])
  finally show ?thesis .
qed (use assms(3) in \<open>simp add: line_le\<close>)

text \<open>What an entry of the table says of the line as a real function.\<close>

lemma entry_line:
  assumes "line_entry m M i K"
  shows "1 \<le> of_int m / (2::real) ^ 39" "of_int M / (2::real) ^ 39 \<le> 2"
    "of_int K + 8 / 10 ^ 9 \<le> log10_line (of_int m / 2 ^ 39) i" "log10_line (of_int M / 2 ^ 39) i \<le> of_int K + 1 - 8 / 10 ^ 9"
proof -
  have e: "2 ^ 39 \<le> m" "M \<le> 2 ^ 40"
    "2 ^ 40 * (K * 10 ^ 15 + 8000000) \<le>
       (2 * m - 3 * 2 ^ 39) * 289529654602168 + 2 ^ 40 * (176091259055800 + i * 301029995663981)"
    "(2 * M - 3 * 2 ^ 39) * 289529654602168 + 2 ^ 40 * (176091259055800 + i * 301029995663981 + 8000000) \<le>
       2 ^ 40 * ((K + 1) * 10 ^ 15)"
    using assms by (simp_all only: line_entry_def)
  note r = e [unfolded of_int_le_iff [where 'a = real, symmetric]]
  show "1 \<le> of_int m / (2::real) ^ 39" "of_int M / (2::real) ^ 39 \<le> 2" using r(1,2) by simp_all
  show "of_int K + 8 / 10 ^ 9 \<le> log10_line (of_int m / 2 ^ 39) i" using r(3) by (simp add: log10_line_def field_simps)
  show "log10_line (of_int M / 2 ^ 39) i \<le> of_int K + 1 - 8 / 10 ^ 9" using r(4) by (simp add: log10_line_def field_simps)
qed

lemma entry_order:
  assumes "ten_between m M i K" "line_entry m M i K"
  shows "of_int m / (2::real) ^ 39 \<le> 2" "1 \<le> of_int M / (2::real) ^ 39"
proof -
  have "of_int m * 2 powi (i - 39) \<le> of_int M * (2::real) powi (i - 39)" using assms(1) unfolding ten_between_def by linarith
  then have "real_of_int m \<le> of_int M" by (simp only: mult_le_cancel_right_pos powi_pos)
  then have "of_int m / (2::real) ^ 39 \<le> of_int M / 2 ^ 39" by (rule divide_right_mono) simp
  then show "of_int m / (2::real) ^ 39 \<le> 2" "1 \<le> of_int M / (2::real) ^ 39" using entry_line(1,2) [OF assms(2)] by linarith+
qed

text \<open>
  A number with the binary exponent \<open>i\<close> and the decimal exponent \<open>K\<close>: the line lies between \<open>K\<close> and \<open>K + 2\<close>, with room
  for errors of \<open>8 / 10 ^ 9\<close>.
\<close>

lemma line_bounds:
  assumes i: "2 powi i \<le> X" "X < 2 powi (i + 1)" and K: "10 powi K \<le> X" "X < 10 powi (K + 1)" "- 324 \<le> K" "K \<le> 308"
  shows "of_int K + 8 / 10 ^ 9 \<le> log10_line (X / 2 powi i) i" "log10_line (X / 2 powi i) i \<le> of_int K + 2 - 8 / 10 ^ 9"
proof -
  define x where "x = X / 2 powi i"
  have x: "1 \<le> x" "x \<le> 2" "X = x * 2 powi i" using i by (simp_all add: x_def powi_Suc divide_le_eq)
  have half: "of_int m * (2::real) powi (j - 39) = of_int m / 2 ^ 39 * 2 powi j" for m j
    using powi_div [of j 39] by simp
  obtain m M j where t: "ten_between m M j K" and l: "line_entry m M j K" by (rule power_entry [of K]) (use K in simp_all)
  have "of_int m / 2 ^ 39 * 2 powi j \<le> X" using t K(1) unfolding ten_between_def half by linarith
  then have a: "of_int m / 2 ^ 39 * 2 powi j \<le> x * 2 powi i" using x(3) by simp
  have o: "1 * (2::real) powi j \<le> of_int m / 2 ^ 39 * 2 powi j" by (rule mult_right_mono [OF entry_line(1) [OF l]]) simp
  have "(2::real) powi j < 2 powi (i + 1)" using a o x(3) i(2) by linarith
  then have "j < i + 1" by (simp only: powi_less)
  moreover have "of_int m / 2 ^ 39 \<le> x" if "j = i" using a that by (simp only: mult_le_cancel_right_pos powi_pos)
  ultimately show "of_int K + 8 / 10 ^ 9 \<le> log10_line (X / 2 powi i) i"
    unfolding x_def [symmetric] by (intro order_trans [OF entry_line(3) [OF l] line_mono [OF entry_order(1) [OF t l] x(1)]]) auto
  have "- 324 \<le> K + 1" "K + 1 \<le> 309" using K(3,4) by simp_all
  then obtain m M j where t: "ten_between m M j (K + 1)" and l: "line_entry m M j (K + 1)" by (rule power_entry)
  note y = entry_order(2) [OF t l]
  have "X < of_int M / 2 ^ 39 * 2 powi j" using t K(2) unfolding ten_between_def half by linarith
  then have a: "x * 2 powi i < of_int M / 2 ^ 39 * 2 powi j" using x(3) by simp
  have o: "of_int M / 2 ^ 39 * (2::real) powi j \<le> 2 * 2 powi j" by (rule mult_right_mono [OF entry_line(2) [OF l]]) simp
  have "(2::real) powi i < 2 powi (j + 1)" using a o i(1) x(3) unfolding powi_Suc by linarith
  then have "i < j + 1" by (simp only: powi_less)
  moreover have "x \<le> of_int M / 2 ^ 39" if "i = j" using a that by (simp only: mult_less_cancel_right_pos powi_pos less_imp_le)
  ultimately have "log10_line x i \<le> log10_line (of_int M / 2 ^ 39) j" by (intro line_mono [OF x(2) y]) auto
  also have "\<dots> \<le> of_int (K + 1) + 1 - 8 / 10 ^ 9" by (rule entry_line(4) [OF l])
  finally show "log10_line (X / 2 powi i) i \<le> of_int K + 2 - 8 / 10 ^ 9" by (simp add: x_def)
qed

end
