(* ===== verification/Strtod.thy ===== *)
theory Strtod
  imports Doubles Dtoa_Print
begin

text \<open>
  The part of \<open>strtod\<close> (src/src/common/dtoa.cc) behind the scanning of the digits: the short cuts for
  few digits, the first approximation by powers of ten, the cut to 18 digits, the loop that corrects
  the approximation with multiple-precision integers, and \<open>bigcomp\<close>, which compares with all digits
  in close cases. The configuration is \<open>IEEE_8087\<close> with \<open>Avoid_Underflow\<close> and without
  \<open>Sudden_Underflow\<close>, \<open>Honor_FLT_ROUNDS\<close> and \<open>SET_INEXACT\<close>. The variable \<open>bc.uflchk\<close> is only written in
  this file and has no part in the model.
\<close>

section \<open>Tables\<close>

definition tens :: "dbl list" where
  "tens = map (\<lambda>i. dbl_lit (10 ^ i) 1) [0..<23]"

definition bigtens :: "dbl list" where
  "bigtens = map (\<lambda>j. dbl_lit (10 ^ (16 * 2 ^ j)) 1) [0..<5]"

definition tinytens :: "dbl list" where
  "tinytens =
     map (\<lambda>j. dbl_lit 1 (10 ^ (16 * 2 ^ j))) [0..<4] @
     [dmul (dbl_lit 9007199254740992 1) (dbl_lit 9007199254740992 (10 ^ 256))]"

definition Ten_pmax :: int where "Ten_pmax = 22"
definition DBL_DIG :: int where "DBL_DIG = 15"
definition DBL_MAX_10_EXP :: int where "DBL_MAX_10_EXP = 308"
definition n_bigtens :: nat where "n_bigtens = 5"
definition Emin :: int where "Emin = - 1022"
definition strtod_diglim :: int where "strtod_diglim = 40"

definition Big :: dbl where
  "Big = \<lparr>word0 = Frac_mask OR 0x7fe00000, word1 = 0xffffffff\<rparr>"

text \<open>The exponent field of a double, and adding to it.\<close>

definition exp_field :: "dbl \<Rightarrow> 32 word" where
  "exp_field x = word0 x AND Exp_mask"

definition add_exp :: "int \<Rightarrow> dbl \<Rightarrow> dbl" where
  "add_exp n x = x\<lparr>word0 := word0 x + word_of_int n * Exp_msk1\<rparr>"

section \<open>Short cuts\<close>

text \<open>The first 16 digits as a double; \<open>y\<close> holds nine of them, \<open>z\<close> the others.\<close>

definition first_digits :: "32 word \<Rightarrow> 32 word \<Rightarrow> int \<Rightarrow> dbl" where
  "first_digits y z k =
     (let rv = dbl_of_nat (unat y) in
      if k > 9 then dadd (dmul (tens ! nat (k - 9)) rv) (dbl_of_nat (unat z)) else rv)"

definition short_cut :: "int \<Rightarrow> int \<Rightarrow> dbl \<Rightarrow> dbl option" where
  "short_cut nd e rv =
     (if nd \<le> DBL_DIG then
        if e = 0 then Some rv
        else if e > 0 then
          if e \<le> Ten_pmax then Some (dmul rv (tens ! nat e))
          else
            let i = DBL_DIG - nd in
            if e \<le> Ten_pmax + i then Some (dmul (dmul rv (tens ! nat i)) (tens ! nat (e - i))) else None
        else if e \<ge> - Ten_pmax then Some (ddiv rv (tens ! nat (- e)))
        else None
      else None)"

section \<open>The first approximation\<close>

text \<open>Leaving the computation with an overflow or an underflow, or going on with \<open>rv\<close> and \<open>bc.scale\<close>.\<close>

datatype approximation = Ovfl | Undfl | Approx dbl int

text \<open>The loop over the bits of the exponent but the last; the index of the last factor is returned.\<close>

function mul_bigtens :: "nat \<Rightarrow> nat \<Rightarrow> dbl \<Rightarrow> dbl \<times> nat" where
  "mul_bigtens e1 j rv =
     (if e1 > 1 then mul_bigtens (e1 div 2) (j + 1) (if odd e1 then dmul rv (bigtens ! j) else rv) else (rv, j))"
  by pat_completeness auto
termination by (relation "measure (\<lambda>(e1, j, rv). e1)") auto

definition scale_up :: "int \<Rightarrow> dbl \<Rightarrow> approximation" where
  "scale_up e1 rv =
     (let i = nat e1 mod 16; rv = (if i \<noteq> 0 then dmul rv (tens ! i) else rv); e1 = e1 - int i in
      if e1 = 0 then Approx rv 0
      else if e1 > DBL_MAX_10_EXP then Ovfl
      else
        let (rv, j) = mul_bigtens (nat e1 div 16) 0 rv;
            rv = dmul (add_exp (- P_bits) rv) (bigtens ! j);
            z = exp_field rv in
        if z > Exp_msk1 * (1024 + 1023 - 53) then Ovfl
        else if z > Exp_msk1 * (1024 + 1023 - 1 - 53) then Approx Big 0
        else Approx (add_exp P_bits rv) 0)"

function mul_tinytens :: "nat \<Rightarrow> nat \<Rightarrow> dbl \<Rightarrow> dbl" where
  "mul_tinytens e1 j rv =
     (if e1 > 0 then mul_tinytens (e1 div 2) (j + 1) (if odd e1 then dmul rv (tinytens ! j) else rv) else rv)"
  by pat_completeness auto
termination by (relation "measure (\<lambda>(e1, j, rv). e1)") auto

declare mul_bigtens.simps [simp del] mul_tinytens.simps [simp del]

text \<open>A scaled number that stands for a denormal one loses its low bits.\<close>

definition clear_low_bits :: "dbl \<Rightarrow> dbl" where
  "clear_low_bits rv =
     (let j = 2 * P_bits + 1 - uint (drop_bit Exp_shift (exp_field rv)) in
      if j > 0 then
        if j \<ge> 32 then
          rv\<lparr>word1 := 0, word0 := (if j \<ge> 53 then 55 * Exp_msk1 else word0 rv AND push_bit (nat (j - 32)) 0xffffffff)\<rparr>
        else rv\<lparr>word1 := word1 rv AND push_bit (nat j) 0xffffffff\<rparr>
      else rv)"

definition scale_down :: "int \<Rightarrow> dbl \<Rightarrow> approximation" where
  "scale_down e1 rv =
     (let i = nat e1 mod 16; rv = (if i \<noteq> 0 then ddiv rv (tens ! i) else rv); n = nat e1 div 16 in
      if n = 0 then Approx rv 0
      else if n \<ge> 2 ^ n_bigtens then Undfl
      else
        let sc = (if n \<ge> 16 then 2 * P_bits else 0);
            rv = mul_tinytens n 0 rv;
            rv = (if sc \<noteq> 0 then clear_low_bits rv else rv) in
        if deq rv dzero then Undfl else Approx rv sc)"

definition first_approximation :: "int \<Rightarrow> dbl \<Rightarrow> approximation" where
  "first_approximation e1 rv =
     (if e1 > 0 then scale_up e1 rv else if e1 < 0 then scale_down (- e1) rv else Approx rv 0)"

section \<open>The cut to 18 digits\<close>

text \<open>
  \<open>s0_at s s0 j\<close> is \<open>s0[j]\<close>, with an index that may be negative. \<open>last_nonzero\<close> is the loop that goes back
  from the 18th digit to the last one that is not zero, jumping over the decimal point at \<open>dp0\<close>; it
  returns the number of digits left, which the code counts in \<open>i\<close>.
\<close>

definition s0_at :: "char list \<Rightarrow> nat \<Rightarrow> int \<Rightarrow> char res" where
  "s0_at s s0 j =
     (if 0 \<le> int s0 + j \<and> int s0 + j \<le> int (length s) then Inr (char_at s (nat (int s0 + j))) else Inl OutOfBounds)"

definition back_one :: "int \<Rightarrow> int \<Rightarrow> int \<Rightarrow> int" where
  "back_one dp0 dp1 j = (if j - 1 \<le> dp1 \<and> j - 1 \<ge> dp0 then dp0 - 1 else j - 1)"

lemma s0_at_bounds: "s0_at s s0 j = Inr c \<Longrightarrow> 0 \<le> int s0 + j"
  by (simp add: s0_at_def split: if_splits)

lemma back_one_less: "back_one dp0 dp1 j < j"
  by (simp add: back_one_def)

function last_nonzero :: "char list \<Rightarrow> nat \<Rightarrow> int \<Rightarrow> int \<Rightarrow> int \<Rightarrow> int \<Rightarrow> int res" where
  "last_nonzero s s0 dp0 dp1 j i =
     bindR (s0_at s s0 (back_one dp0 dp1 j)) (\<lambda>c.
       if c \<noteq> CHR ''0'' then Inr i else last_nonzero s s0 dp0 dp1 (back_one dp0 dp1 j) (i - 1))"
  by pat_completeness auto
termination
proof (relation "measure (\<lambda>(s, s0, dp0, dp1, j, i). nat (int s0 + j + 1))", goal_cases)
  case (2 s s0 dp0 dp1 j i c)
  then show ?case using s0_at_bounds [of s s0 "back_one dp0 dp1 j" c] back_one_less [of dp0 dp1 j] by simp
qed simp

declare last_nonzero.simps [simp del]

text \<open>The characters of the digits: \<open>nd0\<close> of them from \<open>s0\<close> on, the others from \<open>dp1\<close> on.\<close>

definition digit_chars :: "char list \<Rightarrow> nat \<Rightarrow> int \<Rightarrow> int \<Rightarrow> nat \<Rightarrow> char list" where
  "digit_chars s s0 nd0 nd dp1 =
     map (\<lambda>i. char_at s (s0 + i)) [0..<nat nd0] @ map (\<lambda>j. char_at s (s0 + dp1 + j)) [0..<nat (nd - nd0)]"

record cut =
  ct_nd :: int
  ct_nd0 :: int
  ct_e :: int
  ct_y :: "32 word"

definition cut_digits :: "char list \<Rightarrow> scan \<Rightarrow> int \<Rightarrow> int \<Rightarrow> int \<Rightarrow> cut res" where
  "cut_digits s sc dp0 nd0 e =
     (if sc_nd sc > strtod_diglim then
        let j = (if 18 > nd0 then 18 + int (sc_dplen sc) else 18) in
        bindR (last_nonzero s (sc_s0 sc) dp0 (int (sc_dp1 sc)) j 18) (\<lambda>i.
          let e = e + (sc_nd sc - i); nd = i; nd0 = (if nd0 > nd then nd else nd0);
              y = (if nd < 9 then foldl (\<lambda>y c. 10 * y + dval c) 0 (digit_chars s (sc_s0 sc) nd0 nd (sc_dp1 sc))
                   else sc_y sc) in
          Inr \<lparr>ct_nd = nd, ct_nd0 = nd0, ct_e = e, ct_y = y\<rparr>)
      else Inr \<lparr>ct_nd = sc_nd sc, ct_nd0 = nd0, ct_e = e, ct_y = sc_y sc\<rparr>)"

section \<open>One comparison\<close>

text \<open>
  \<open>bb\<close>, \<open>bd\<close> and \<open>bs\<close>: the approximation, the decimal number and half a unit in the last place of the
  approximation, all times the same factor. The result of \<open>compare_round\<close> also has the difference
  \<open>delta\<close>, \<open>bc.dsign\<close> and the sign \<open>i\<close> of the difference minus half a unit.
\<close>

record comparison =
  cm_bb :: bigint
  cm_bd :: bigint
  cm_bs :: bigint
  cm_delta :: bigint
  cm_dsign :: bool
  cm_i :: int

definition half_exponent :: "int \<Rightarrow> int \<Rightarrow> int \<Rightarrow> int" where
  "half_exponent bbe bbbits sc =
     (let j = bbe - sc; i = j + bbbits - 1 in
      if i < Emin then j + (P_bits - Emin) else P_bits + 1 - bbbits)"

definition common_factor :: "int \<Rightarrow> int \<Rightarrow> int \<Rightarrow> int" where
  "common_factor bb2 bd2 bs2 =
     (let i = (if bb2 < bd2 then bb2 else bd2); i = (if i > bs2 then bs2 else i) in if i > 0 then i else 0)"

text \<open>
  \<open>round_exponents\<close> gives the exponents of two and five of the three numbers; \<open>scale_round\<close> brings the
  numbers to them.
\<close>

definition round_exponents :: "int \<Rightarrow> int \<Rightarrow> int \<Rightarrow> int \<Rightarrow> int \<times> int \<times> int \<times> int \<times> int" where
  "round_exponents e sc bbe bbbits =
     (let (bb2, bb5, bd2, bd5) = (if e \<ge> 0 then (0, 0, e, e) else (- e, - e, 0, 0));
          (bb2, bd2) = (if bbe \<ge> 0 then (bb2 + bbe, bd2) else (bb2, bd2 - bbe));
          bs2 = bb2; j = half_exponent bbe bbbits sc;
          bb2 = bb2 + j; bd2 = bd2 + j + sc; i = common_factor bb2 bd2 bs2 in
      (bb2 - i, bb5, bd2 - i, bd5, bs2 - i))"

definition scale_round ::
  "int \<times> int \<times> int \<times> int \<times> int \<Rightarrow> bigint \<Rightarrow> bigint \<Rightarrow> bigint \<Rightarrow> alloc \<Rightarrow> (bigint \<times> bigint \<times> bigint \<times> alloc) res" where
  "scale_round exps bb bd bs al =
     (let (bb2, bb5, bd2, bd5, bs2) = exps in
      bindR (if bb5 > 0 then
               bindR (pow5mult bs (nat bb5) al) (\<lambda>(bs, al).
               bindR (mult bs bb al) (\<lambda>(bb1, al). Inr (bs, bb1, Bfree (Some bb) al)))
             else Inr (bs, bb, al)) (\<lambda>(bs, bb, al).
      bindR (lshift_if (bb2 > 0) bb bb2 al) (\<lambda>(bb, al).
      bindR (pow5_if (bd5 > 0) bd bd5 al) (\<lambda>(bd, al).
      bindR (lshift_if (bd2 > 0) bd bd2 al) (\<lambda>(bd, al).
      bindR (lshift_if (bs2 > 0) bs bs2 al) (\<lambda>(bs, al). Inr (bb, bd, bs, al)))))))"

definition compare_scaled :: "bigint \<Rightarrow> bigint \<Rightarrow> bigint \<Rightarrow> alloc \<Rightarrow> (comparison \<times> alloc) res" where
  "compare_scaled bb bd bs al =
     bindR (diff bb bd al) (\<lambda>(delta, al).
     bindR (cmp (delta\<lparr>bg_sign := 0\<rparr>) bs) (\<lambda>i.
     Inr (\<lparr>cm_bb = bb, cm_bd = bd, cm_bs = bs, cm_delta = delta\<lparr>bg_sign := 0\<rparr>,
           cm_dsign = (bg_sign delta \<noteq> 0), cm_i = i\<rparr>, al)))"

definition compare_round :: "int \<Rightarrow> int \<Rightarrow> bigint \<Rightarrow> dbl \<Rightarrow> alloc \<Rightarrow> (comparison \<times> dbl \<times> alloc) res" where
  "compare_round e sc bd0 rv al =
     (let (bd, al) = Balloc (bg_k bd0) al in
      bindR (Bcopy bd bd0) (\<lambda>bd.
      bindR (d2b rv al) (\<lambda>(bb, bbe, bbbits, rv, al).
      bindR (i2b 1 al) (\<lambda>(bs, al).
      bindR (scale_round (round_exponents e sc bbe bbbits) bb bd bs al) (\<lambda>(bb, bd, bs, al).
      bindR (compare_scaled bb bd bs al) (\<lambda>(cm, al). Inr (cm, rv, al)))))))"

section \<open>One correction\<close>

text \<open>
  How a round of the loop ends: by a \<open>break\<close> or going on, with \<open>rv\<close>, \<open>bc.nd\<close> and \<open>bc.dsign\<close>, or by a jump out
  of the loop. Every round also returns \<open>delta\<close>, which a shift may have replaced.
\<close>

datatype round_end = Break dbl int bool | Again dbl int | Leave_ovfl | Leave_undfl

definition power_of_two :: "dbl \<Rightarrow> bool" where
  "power_of_two rv \<longleftrightarrow> word1 rv = 0 \<and> word0 rv AND Bndry_mask = 0"

definition drop_down :: "int \<Rightarrow> int \<Rightarrow> int \<Rightarrow> bool \<Rightarrow> dbl \<Rightarrow> round_end" where
  "drop_down nd bc_nd sc dsign rv =
     (let L = exp_field rv in
      if sc \<noteq> 0 \<and> L \<le> 107 * Exp_msk1 then
        if L > 55 * Exp_msk1 then Break rv bc_nd dsign
        else if bc_nd > nd then Break rv bc_nd dsign
        else Leave_undfl
      else Break \<lparr>word0 = (L - Exp_msk1) OR Bndry_mask, word1 = 0xffffffff\<rparr> bc_nd dsign)"

definition below_half ::
  "int \<Rightarrow> int \<Rightarrow> int \<Rightarrow> bool \<Rightarrow> dbl \<Rightarrow> bigint \<Rightarrow> bigint \<Rightarrow> alloc \<Rightarrow> (round_end \<times> bigint \<times> alloc) res" where
  "below_half nd bc_nd sc dsign rv delta bs al =
     (if dsign \<or> \<not> power_of_two rv \<or> exp_field rv \<le> 107 * Exp_msk1 then Inr (Break rv bc_nd dsign, delta, al)
      else
        bindR (is_exact delta) (\<lambda>exact.
          if exact then Inr (Break rv bc_nd dsign, delta, al)
          else
            bindR (lshift delta Log2P al) (\<lambda>(delta, al).
            bindR (cmp delta bs) (\<lambda>c.
              Inr (if c > 0 then drop_down nd bc_nd sc dsign rv else Break rv bc_nd dsign, delta, al)))))"

text \<open>
  The shift in the test for the largest mantissa is by the width of the word or more when the number
  stands for a denormal one with a short mantissa: then C++ gives it no result.
\<close>

definition at_half :: "int \<Rightarrow> int \<Rightarrow> int \<Rightarrow> bool \<Rightarrow> dbl \<Rightarrow> round_end res" where
  "at_half nd bc_nd sc dsign rv =
     (let y = exp_field rv; denormal = (sc \<noteq> 0 \<and> y \<le> 106 * Exp_msk1); k = 107 - uint (drop_bit Exp_shift y);
          full = (dsign \<and> word0 rv AND Bndry_mask = Bndry_mask) in
      if full \<and> denormal \<and> k \<ge> 32 then Inl Overflow
      else if full \<and> word1 rv = (if denormal then push_bit (nat k) 0xffffffff else 0xffffffff) then
        Inr (Break \<lparr>word0 = y + Exp_msk1, word1 = 0\<rparr> bc_nd False)
      else if \<not> dsign \<and> power_of_two rv then Inr (drop_down nd bc_nd sc dsign rv)
      else if word1 rv AND 1 = 0 then Inr (Break rv bc_nd dsign)
      else if dsign then Inr (Break (dadd rv (ulp rv)) bc_nd (\<not> dsign))
      else
        let rv = dsub rv (ulp rv) in
        if deq rv dzero then Inr (if bc_nd > nd then Break rv bc_nd dsign else Leave_undfl)
        else Inr (Break rv bc_nd (\<not> dsign)))"

text \<open>The quotient of two numbers as a double.\<close>

definition ratio :: "bigint \<Rightarrow> bigint \<Rightarrow> dbl res" where
  "ratio a b =
     bindR (b2d a) (\<lambda>(da, ka).
     bindR (b2d b) (\<lambda>(db, kb).
       let k = ka - kb + 32 * (int (bg_wds a) - int (bg_wds b)) in
       Inr (if k > 0 then ddiv (add_exp k da) db else ddiv da (add_exp (- k) db))))"

text \<open>\<open>aadj\<close> and \<open>aadj1\<close>, or the end of the loop at the smallest denormal number.\<close>

definition dbl_one :: dbl where "dbl_one = dbl_lit 1 1"
definition dbl_half :: dbl where "dbl_half = dbl_lit 1 2"

definition choose_adj :: "bool \<Rightarrow> dbl \<Rightarrow> dbl \<Rightarrow> (dbl \<times> dbl) option" where
  "choose_adj dsign rv aadj =
     (if dle aadj (dbl_lit 2 1) then
        if dsign then Some (dbl_one, dbl_one)
        else if \<not> power_of_two rv then
          if word1 rv = 1 \<and> word0 rv = 0 then None else Some (dbl_one, dneg dbl_one)
        else
          let aadj = (if dless aadj dbl_one then dbl_half else dmul aadj dbl_half) in Some (aadj, dneg aadj)
      else
        let aadj = dmul aadj dbl_half in Some (aadj, if dsign then aadj else dneg aadj))"

text \<open>\<open>aadj1\<close> for a number that stands for a denormal one: a whole number of its units.\<close>

definition denormal_adj :: "dbl \<Rightarrow> bool \<Rightarrow> dbl \<Rightarrow> dbl \<Rightarrow> (dbl \<times> dbl) res" where
  "denormal_adj rv dsign aadj aadj1 =
     bindR (if dle aadj (dbl_of_nat 0x7fffffff) then
              bindR (dbl_to_int 0 (2 ^ 32 - 1) aadj) (\<lambda>z.
                let aadj = dbl_of_int (if z \<le> 0 then 1 else z) in
                Inr (aadj, if dsign then aadj else dneg aadj))
            else Inr (aadj, aadj1)) (\<lambda>(aadj, aadj1).
     Inr (aadj, aadj1\<lparr>word0 := word0 aadj1 + (107 * Exp_msk1 - exp_field rv)\<rparr>))"

definition can_stop :: "dbl \<Rightarrow> bool \<Rightarrow> dbl \<Rightarrow> bool res" where
  "can_stop rv dsign aadj =
     bindR (dbl_to_int (- (2 ^ 31)) (2 ^ 31 - 1) aadj) (\<lambda>L.
       let aadj = dsub aadj (dbl_of_int L); lo = dbl_lit 4999999 10000000; hi = dbl_lit 5000001 10000000 in
       Inr (if dsign \<or> \<not> power_of_two rv then dless aadj lo \<or> dless hi aadj
            else dless aadj (ddiv lo (dbl_lit 2 1))))"

text \<open>After the correction: the end of the loop when another round cannot change the result.\<close>

definition stop_test :: "int \<Rightarrow> int \<Rightarrow> int \<Rightarrow> bool \<Rightarrow> 32 word \<Rightarrow> dbl \<Rightarrow> dbl \<Rightarrow> round_end res" where
  "stop_test nd bc_nd sc dsign y rv aadj =
     (if bc_nd = nd \<and> sc = 0 \<and> y = exp_field rv then
        bindR (can_stop rv dsign aadj) (\<lambda>stop. Inr (if stop then Break rv bc_nd dsign else Again rv bc_nd))
      else Inr (Again rv bc_nd))"

definition above_half :: "int \<Rightarrow> int \<Rightarrow> int \<Rightarrow> bool \<Rightarrow> dbl \<Rightarrow> bigint \<Rightarrow> bigint \<Rightarrow> round_end res" where
  "above_half nd bc_nd sc dsign rv delta bs =
     bindR (ratio delta bs) (\<lambda>r.
       case choose_adj dsign rv r of
         None \<Rightarrow> Inr (if bc_nd > nd then Break rv bc_nd dsign else Leave_undfl)
       | Some (aadj, aadj1) \<Rightarrow>
           let y = exp_field rv in
           if y = Exp_msk1 * (1024 + 1023 - 1) then
             let low = add_exp (- P_bits) rv; rv1 = dadd low (dmul aadj1 (ulp low)) in
             if exp_field rv1 \<ge> Exp_msk1 * (1024 + 1023 - 53) then
               Inr (if rv = Big then Leave_ovfl else Again Big bc_nd)
             else stop_test nd bc_nd sc dsign y (add_exp P_bits rv1) aadj
           else
             bindR (if sc \<noteq> 0 \<and> y \<le> 106 * Exp_msk1 then denormal_adj rv dsign aadj aadj1 else Inr (aadj, aadj1))
               (\<lambda>(aadj, aadj1). stop_test nd bc_nd sc dsign y (dadd rv (dmul aadj1 (ulp rv))) aadj))"

definition decide_round ::
  "int \<Rightarrow> int \<Rightarrow> int \<Rightarrow> dbl \<Rightarrow> int \<Rightarrow> comparison \<Rightarrow> alloc \<Rightarrow> (round_end \<times> bigint \<times> alloc) res" where
  "decide_round nd bc_nd sc rv i cm al =
     (let dsign = cm_dsign cm; delta = cm_delta cm; bs = cm_bs cm in
      if i < 0 then below_half nd bc_nd sc dsign rv delta bs al
      else if i = 0 then bindR (at_half nd bc_nd sc dsign rv) (\<lambda>r. Inr (r, delta, al))
      else bindR (above_half nd bc_nd sc dsign rv delta bs) (\<lambda>r. Inr (r, delta, al)))"

text \<open>Digits that were cut off make the difference smaller, or call for \<open>bigcomp\<close>.\<close>

definition correct_round ::
  "int \<Rightarrow> int \<Rightarrow> int \<Rightarrow> dbl \<Rightarrow> comparison \<Rightarrow> alloc \<Rightarrow> (round_end \<times> bigint \<times> alloc) res" where
  "correct_round nd bc_nd sc rv cm al =
     (if bc_nd > nd \<and> cm_i cm \<le> 0 then
        if cm_dsign cm then Inr (Break rv bc_nd True, cm_delta cm, al)
        else decide_round nd nd sc rv (- 1) cm al
      else decide_round nd bc_nd sc rv (cm_i cm) cm al)"

section \<open>The loop\<close>

text \<open>The numbers of a round are freed, and the decimal number too when the loop ends with a \<open>break\<close>.\<close>

fun strtod_loop :: "nat \<Rightarrow> int \<Rightarrow> int \<Rightarrow> int \<Rightarrow> bigint \<Rightarrow> int \<Rightarrow> dbl \<Rightarrow> alloc \<Rightarrow> (round_end \<times> alloc) res" where
  "strtod_loop 0 nd e sc bd0 bc_nd rv al = Inl FuelOut"
| "strtod_loop (Suc n) nd e sc bd0 bc_nd rv al =
     bindR (compare_round e sc bd0 rv al) (\<lambda>(cm, rv, al).
     bindR (correct_round nd bc_nd sc rv cm al) (\<lambda>(r, delta, al).
       case r of
         Again rv bc_nd \<Rightarrow>
           strtod_loop n nd e sc bd0 bc_nd rv
             (free_all [Some (cm_bb cm), Some (cm_bd cm), Some (cm_bs cm), Some delta] al)
       | Break _ _ _ \<Rightarrow>
           Inr (r, free_all [Some (cm_bb cm), Some (cm_bd cm), Some (cm_bs cm), Some bd0, Some delta] al)
       | _ \<Rightarrow> Inr (r, al)))"

section \<open>bigcomp\<close>

text \<open>
  The comparison of the digits of \<open>b / d\<close> with those of the input: \<open>dd\<close>, the sign of the input minus
  the quotient. The two loops over the digits before and after the point are one over a list here; a
  quotient that ends before the digits is smaller.
\<close>

definition is_zero :: "bigint \<Rightarrow> bool res" where
  "is_zero b = (case bg_x b of [] \<Rightarrow> Inl Uninit | x # _ \<Rightarrow> Inr (x = 0 \<and> bg_wds b = 1))"

fun bigcomp_digits :: "char list \<Rightarrow> 32 word \<Rightarrow> bigint \<Rightarrow> bigint \<Rightarrow> alloc \<Rightarrow> (int \<times> bigint \<times> alloc) res" where
  "bigcomp_digits [] dig b d al =
     bindR (is_exact b) (\<lambda>exact. Inr (if exact then 0 else - 1, b, al))"
| "bigcomp_digits (c # cs) dig b d al =
     (let dd = digit_int c - uint dig in
      if dd \<noteq> 0 then Inr (dd, b, al)
      else
        bindR (is_zero b) (\<lambda>zero.
          if zero then Inr (if cs \<noteq> [] then 1 else 0, b, al)
          else
            bindR (multadd b 10 0 al) (\<lambda>(b, al).
            bindR (quorem b d) (\<lambda>(dig, b). bigcomp_digits cs dig b d al))))"

text \<open>
  The number half-way between \<open>rv\<close> and its neighbour as \<open>b * 2 ^ p2\<close>; when \<open>rv\<close> was rounded to zero, half
  the smallest denormal number. The first component is \<open>speccase\<close>.
\<close>

definition halfway :: "dbl \<Rightarrow> int \<Rightarrow> alloc \<Rightarrow> (bool \<times> dbl \<times> bigint \<times> int \<times> alloc) res" where
  "halfway rv sc al =
     (if deq rv dzero then
        bindR (i2b 1 al) (\<lambda>(b, al).
        Inr (True, rv\<lparr>word0 := push_bit Exp_shift 55\<rparr>, b, Emin - P_bits + 1 - 1, al))
      else
        bindR (d2b rv al) (\<lambda>(b, p2, bbits, rv, al).
          let p2 = p2 - sc; i = P_bits - bbits; j = P_bits - Emin - 1 + p2; i = (if i > j then j else i) + 1 in
          bindR (lshift b (nat i) al) (\<lambda>(b, al).
          bindR (case bg_x b of [] \<Rightarrow> Inl Uninit | x # _ \<Rightarrow> put_digit b 0 (x OR 1)) (\<lambda>b.
          Inr (False, rv, b, p2 - i, al)))))"

definition bigcomp_round :: "bool \<Rightarrow> int \<Rightarrow> bool \<Rightarrow> dbl \<Rightarrow> dbl" where
  "bigcomp_round speccase dd dsign rv =
     (if speccase then (if dd \<le> 0 then dzero else rv)
      else if dd < 0 then (if dsign then rv else dsub rv (ulp rv))
      else if dd > 0 then (if dsign then dadd rv (ulp rv) else rv)
      else if word1 rv AND 1 \<noteq> 0 then (if dsign then dadd rv (ulp rv) else dsub rv (ulp rv))
      else rv)"

definition bigcomp :: "char list \<Rightarrow> int \<Rightarrow> int \<Rightarrow> int \<Rightarrow> bool \<Rightarrow> dbl \<Rightarrow> alloc \<Rightarrow> (dbl \<times> alloc) res" where
  "bigcomp cs nd e0 sc dsign rv al =
     bindR (halfway rv sc al) (\<lambda>(speccase, rv, b, p2, al).
       let p5 = nd + e0 - 1; p2 = p2 - p5 in
       bindR (i2b 1 al) (\<lambda>(d, al).
       bindR (if p5 > 0 then bindR (pow5mult d (nat p5) al) (\<lambda>(d, al). Inr (b, d, al))
              else if p5 < 0 then bindR (pow5mult b (nat (- p5)) al) (\<lambda>(b, al). Inr (b, d, al))
              else Inr (b, d, al)) (\<lambda>(b, d, al).
         let (b2, d2) = (if p2 > 0 then (p2, 0) else (0, - p2)) in
         bindR (dshift d d2) (\<lambda>i.
         bindR (lshift_if (b2 + i > 0) b (b2 + i) al) (\<lambda>(b, al).
         bindR (lshift_if (d2 + i > 0) d (d2 + i) al) (\<lambda>(d, al).
         bindR (quorem b d) (\<lambda>(dig, b).
         bindR (if dig = 0 then
                  bindR (multadd b 10 0 al) (\<lambda>(b, al). bindR (quorem b d) (\<lambda>(dig, b). Inr (dig, b, al)))
                else Inr (dig, b, al)) (\<lambda>(dig, b, al).
         bindR (bigcomp_digits cs dig b d al) (\<lambda>(dd, b, al).
         Inr (bigcomp_round speccase dd (dsign \<and> \<not> speccase) rv, free_all [Some b, Some d] al))))))))))"

section \<open>strtod\<close>

text \<open>
  The result: the value, \<open>*se\<close> as an index, and whether \<open>errno\<close> was set. A jump out of the loop leaves the
  numbers of the round and the decimal number allocated.
\<close>

record strtod_result =
  sr_value :: dbl
  sr_pos :: nat
  sr_erange :: bool

definition unscale :: "int \<Rightarrow> dbl \<Rightarrow> dbl \<times> bool" where
  "unscale sc rv =
     (if sc \<noteq> 0 then
        let rv = dmul rv \<lparr>word0 = Exp_1 - 106 * Exp_msk1, word1 = 0\<rparr> in (rv, exp_field rv = 0)
      else (rv, False))"

definition strtod_digits :: "nat \<Rightarrow> char list \<Rightarrow> scan \<Rightarrow> int \<Rightarrow> alloc \<Rightarrow> (dbl \<times> bool \<times> alloc) res" where
  "strtod_digits fuel s sc e al =
     (let nd = sc_nd sc; dp0 = sc_nd0 sc; nd0 = (if sc_nd0 sc = 0 then nd else sc_nd0 sc); k = min nd (DBL_DIG + 1);
          rv = first_digits (sc_y sc) (sc_z sc) k in
      case short_cut nd e rv of
        Some rv \<Rightarrow> Inr (rv, False, al)
      | None \<Rightarrow>
          (case first_approximation (e + (nd - k)) rv of
             Ovfl \<Rightarrow> Inr (\<lparr>word0 = Exp_mask, word1 = 0\<rparr>, True, al)
           | Undfl \<Rightarrow> Inr (dzero, True, al)
           | Approx rv scl \<Rightarrow>
               bindR (cut_digits s sc dp0 nd0 e) (\<lambda>ct.
               bindR (s2b (drop (sc_s0 sc) s) (nat (ct_nd0 ct)) (nat (ct_nd ct)) (ct_y ct) (sc_dplen sc) al) (\<lambda>(bd0, al).
               bindR (strtod_loop fuel (ct_nd ct) (ct_e ct) scl bd0 nd rv al) (\<lambda>(r, al).
                 case r of
                   Leave_ovfl \<Rightarrow> Inr (\<lparr>word0 = Exp_mask, word1 = 0\<rparr>, True, al)
                 | Leave_undfl \<Rightarrow> Inr (dzero, True, al)
                 | Again _ _ \<Rightarrow> Inl FuelOut
                 | Break rv bc_nd dsign \<Rightarrow>
                     bindR (if bc_nd > ct_nd ct
                            then bigcomp (digit_chars s (sc_s0 sc) nd0 nd (sc_dp1 sc)) nd e scl dsign rv al
                            else Inr (rv, al)) (\<lambda>(rv, al).
                       let (rv, erange) = unscale scl rv in Inr (rv, erange, al)))))))"

definition strtod :: "nat \<Rightarrow> char list \<Rightarrow> alloc \<Rightarrow> (strtod_result \<times> alloc) res" where
  "strtod fuel s al =
     (case strtod_scan s of
        NoNumber \<Rightarrow> Inr (\<lparr>sr_value = dzero, sr_pos = 0, sr_erange = False\<rparr>, al)
      | Zero sign pos \<Rightarrow> Inr (\<lparr>sr_value = (if sign then dneg dzero else dzero), sr_pos = pos, sr_erange = False\<rparr>, al)
      | Special sign rv pos \<Rightarrow> Inr (\<lparr>sr_value = (if sign then dneg rv else rv), sr_pos = pos, sr_erange = False\<rparr>, al)
      | Digits sign sc e \<Rightarrow>
          bindR (strtod_digits fuel s sc e al) (\<lambda>(rv, erange, al).
          Inr (\<lparr>sr_value = (if sign then dneg rv else rv), sr_pos = sc_pos sc, sr_erange = erange\<rparr>, al)))"

section \<open>StringToDouble\<close>

text \<open>
  The conversions of src/src/common/string_util.cc that call \<open>strtod\<close>: the value written to \<open>*output\<close>
  with the returned flag, the value alone, and the values of the fields of a list.
\<close>

definition StringToDoubleTraits :: "nat \<Rightarrow> char list \<Rightarrow> alloc \<Rightarrow> ((dbl \<times> nat \<times> bool) \<times> alloc) res" where
  "StringToDoubleTraits fuel str al =
     bindR (strtod fuel str al) (\<lambda>(r, al). Inr ((sr_value r, sr_pos r, sr_erange r), al))"

definition StringToDouble :: "nat \<Rightarrow> char list \<Rightarrow> alloc \<Rightarrow> ((dbl \<times> bool) \<times> alloc) res" where
  "StringToDouble fuel input al =
     bindR (StringToDoubleTraits fuel (c_str input) al) (\<lambda>(r, al). Inr (StringToNumber (\<lambda>_. r) input, al))"

definition StringToDouble_value :: "nat \<Rightarrow> char list \<Rightarrow> alloc \<Rightarrow> (dbl \<times> alloc) res" where
  "StringToDouble_value fuel input al = bindR (StringToDouble fuel input al) (\<lambda>((v, _), al). Inr (v, al))"

fun StringToDouble_fields :: "nat \<Rightarrow> char list list \<Rightarrow> dbl list \<Rightarrow> alloc \<Rightarrow> (dbl list \<times> alloc) res" where
  "StringToDouble_fields fuel [] result al = Inr (result, al)"
| "StringToDouble_fields fuel (f # fs) result al =
     bindR (StringToDouble fuel f al) (\<lambda>((tmp, _), al). StringToDouble_fields fuel fs (result @ [tmp]) al)"

definition StringToDouble_list :: "nat \<Rightarrow> char list \<Rightarrow> char \<Rightarrow> dbl list \<Rightarrow> alloc \<Rightarrow> (dbl list \<times> alloc) res" where
  "StringToDouble_list fuel input delemiter result al =
     StringToDouble_fields fuel (SplitString input delemiter []) result al"

end
