(* ===== verification/Dtoa_Quick.thy ===== *)
theory Dtoa_Quick
  imports Strtod
begin

text \<open>
  The parts of \<open>dtoa\<close> (src/src/common/dtoa.cc) that compute with doubles: the estimate of the decimal
  exponent, the attempt to get by with floating-point digits, and the digits of small integers; and
  \<open>dtoa\<close> as a whole. Its last part is \<open>dtoa_long\<close>.
\<close>

section \<open>The decimal exponent\<close>

definition Exp_11 :: "32 word" where "Exp_11 = 0x3ff00000"
definition Quick_max :: int where "Quick_max = 14"
definition Int_max :: int where "Int_max = 14"
definition Bletch :: nat where "Bletch = 16"

text \<open>
  \<open>split_exponent\<close> gives the number scaled to the interval from 1 to 2, its binary exponent \<open>i\<close>, and
  whether it is denormal: then the upper 32 bits of its mantissa are the scaled number.
\<close>

definition split_exponent :: "dbl \<Rightarrow> int \<Rightarrow> int \<Rightarrow> dbl \<times> int \<times> bool" where
  "split_exponent u be bbits =
     (let i = uint (drop_bit Exp_shift (word0 u) AND drop_bit Exp_shift Exp_mask) in
      if i \<noteq> 0 then (u\<lparr>word0 := (word0 u AND Frac_mask) OR Exp_11\<rparr>, i - Bias, False)
      else
        let i = bbits + be + (Bias + (P_bits - 1) - 1);
            x = (if i > 32 then push_bit (nat (64 - i)) (word0 u) OR drop_bit (nat (i - 32)) (word1 u)
                 else push_bit (nat (32 - i)) (word1 u)) in
        (add_exp (- 31) (dbl_of_nat (unat x)), i - ((Bias + (P_bits - 1) - 1) + 1), True))"

definition log10_estimate :: "dbl \<Rightarrow> int \<Rightarrow> dbl" where
  "log10_estimate d2 i =
     dadd (dadd (dmul (dsub d2 (dbl_lit 3 2)) (dbl_lit 289529654602168 (10 ^ 15))) (dbl_lit 1760912590558 (10 ^ 13)))
       (dmul (dbl_of_int i) (dbl_lit 301029995663981 (10 ^ 15)))"

text \<open>\<open>k\<close> and \<open>k_check\<close>.\<close>

definition estimate_k :: "dbl \<Rightarrow> dbl \<Rightarrow> int \<Rightarrow> (int \<times> bool) res" where
  "estimate_k u d2 i =
     (let ds = log10_estimate d2 i in
      bindR (dbl_to_int (- (2 ^ 31)) (2 ^ 31 - 1) ds) (\<lambda>k.
        let k = (if dless ds dzero \<and> \<not> deq ds (dbl_of_int k) then k - 1 else k) in
        if 0 \<le> k \<and> k \<le> Ten_pmax then Inr (if dless u (tens ! nat k) then k - 1 else k, False)
        else Inr (k, True)))"

section \<open>Floating-point digits\<close>

text \<open>The product of \<open>x\<close> with the powers in \<open>bigtens\<close> that the bits of \<open>j\<close> name; \<open>ieps\<close> counts roundings.\<close>

function mul_powers :: "nat \<Rightarrow> nat \<Rightarrow> nat \<Rightarrow> dbl \<Rightarrow> nat \<times> dbl" where
  "mul_powers j i ieps x =
     (if j > 0 then
        (if odd j then mul_powers (j div 2) (i + 1) (ieps + 1) (dmul x (bigtens ! i))
         else mul_powers (j div 2) (i + 1) ieps x)
      else (ieps, x))"
  by pat_completeness auto
termination by (relation "measure (\<lambda>(j, i, ieps, x). j)") auto

declare mul_powers.simps [simp del]

definition quick_scale :: "dbl \<Rightarrow> int \<Rightarrow> dbl \<times> nat" where
  "quick_scale u k =
     (if k > 0 then
        let ds = tens ! (nat k mod 16); j = nat k div 16;
            (j, u, ieps) =
              (if j AND Bletch \<noteq> 0 then (j AND (Bletch - 1), ddiv u (bigtens ! (n_bigtens - 1)), 3) else (j, u, 2));
            (ieps, ds) = mul_powers j 0 ieps ds in
        (ddiv u ds, ieps)
      else if k \<noteq> 0 then
        let j1 = nat (- k); (ieps, u) = mul_powers (j1 div 16) 0 2 (dmul u (tens ! (j1 mod 16))) in (u, ieps)
      else (u, 2))"

definition long_digit :: "int \<Rightarrow> char" where
  "long_digit L = char_of (nat ((48 + L) mod 256))"

definition dbl_to_Long :: "dbl \<Rightarrow> int res" where
  "dbl_to_Long x = dbl_to_int (- (2 ^ 31)) (2 ^ 31 - 1) x"

text \<open>
  The attempts return the string and the exponent, or None where the source goes on to \<open>fast_failed\<close>. In
  the first loop \<open>n\<close> digits are wanted after this one; the second one ends early with a remainder of zero.
\<close>

fun quick_short :: "nat \<Rightarrow> dbl \<Rightarrow> dbl \<Rightarrow> char list \<Rightarrow> int \<Rightarrow> (char list \<times> int) option res" where
  "quick_short n u eps s k =
     bindR (dbl_to_Long u) (\<lambda>L.
       let u = dsub u (dbl_of_int L); s = s @ [long_digit L] in
       if dless u eps then Inr (Some (s, k))
       else if dless (dsub dbl_one u) eps then Inr (Some (roundoff s k))
       else (case n of 0 \<Rightarrow> Inr None
             | Suc m \<Rightarrow> quick_short m (dmul u (dbl_lit 10 1)) (dmul eps (dbl_lit 10 1)) s k))"

fun quick_fixed :: "nat \<Rightarrow> dbl \<Rightarrow> dbl \<Rightarrow> char list \<Rightarrow> int \<Rightarrow> (char list \<times> int) option res" where
  "quick_fixed n u eps s k =
     bindR (dbl_to_Long u) (\<lambda>L.
       let u = dsub u (dbl_of_int L); s = s @ [long_digit L];
           finish =
             (if dless (dadd dbl_half eps) u then Inr (Some (roundoff s k))
              else if dless u (dsub dbl_half eps) then bindR (trimzeros s) (\<lambda>s. Inr (Some (s, k)))
              else Inr None) in
       if deq u dzero then finish
       else (case n of 0 \<Rightarrow> finish | Suc m \<Rightarrow> quick_fixed m (dmul u (dbl_lit 10 1)) eps s k))"

declare quick_short.simps [simp del] quick_fixed.simps [simp del]

text \<open>Behind the scaling: the bound on the error, and the choice of the loop.\<close>

definition quick_generate :: "bool \<Rightarrow> int \<Rightarrow> int \<Rightarrow> dbl \<Rightarrow> int \<Rightarrow> nat \<Rightarrow> (char list \<times> int) option res" where
  "quick_generate leftright ndigits ilim u k ieps =
     (let eps = add_exp (- (P_bits - 1)) (dadd (dmul (dbl_of_nat ieps) u) (dbl_lit 7 1)) in
      if ilim = 0 then
        let u = dsub u (dbl_lit 5 1) in
        Inr (if dless eps u then Some (''1'', k + 1)
             else if dless u (dneg eps) then Some ([], - 1 - ndigits) else None)
      else if leftright then
        quick_short (nat (ilim - 1)) u (dsub (ddiv dbl_half (tens ! nat (ilim - 1))) eps) [] k
      else quick_fixed (nat (ilim - 1)) u (dmul eps (tens ! nat (ilim - 1))) [] k)"

definition quick_digits :: "dtoa_mode \<Rightarrow> dbl \<Rightarrow> int \<Rightarrow> bool \<Rightarrow> (char list \<times> int) option res" where
  "quick_digits dm u k k_check =
     (if 0 \<le> dm_ilim dm \<and> dm_ilim dm \<le> Quick_max \<and> dm_try_quick dm then
        let (u, ieps) = quick_scale u k in
        if k_check \<and> dless u dbl_one \<and> dm_ilim dm > 0 then
          if dm_ilim1 dm \<le> 0 then Inr None
          else quick_generate (dm_leftright dm) (dm_ndigits dm) (dm_ilim1 dm) (dmul u (dbl_lit 10 1)) (k - 1) (ieps + 1)
        else quick_generate (dm_leftright dm) (dm_ndigits dm) (dm_ilim dm) u k ieps
      else Inr None)"

section \<open>Small integers\<close>

text \<open>
  The digits of an integer below \<open>10 ^ 15\<close>: \<open>ds\<close> is the power of ten of its first digit, \<open>i\<close> the number
  of the digit, and a negative \<open>ilim\<close> asks for all digits.
\<close>

fun integer_digits :: "nat \<Rightarrow> int \<Rightarrow> int \<Rightarrow> dbl \<Rightarrow> dbl \<Rightarrow> char list \<Rightarrow> int \<Rightarrow> (char list \<times> int) res" where
  "integer_digits 0 ilim i u ds s k = Inl FuelOut"
| "integer_digits (Suc n) ilim i u ds s k =
     bindR (dbl_to_Long (ddiv u ds)) (\<lambda>L.
       let u = dsub u (dmul (dbl_of_int L) ds); s = s @ [long_digit L] in
       if deq u dzero then Inr (s, k)
       else if i = ilim then
         let u = dadd u u in
         Inr (if dless ds u \<or> (deq u ds \<and> odd L) then roundoff s k else (s, k))
       else integer_digits n ilim (i + 1) (dmul u (dbl_lit 10 1)) ds s k)"

declare integer_digits.simps [simp del]

definition small_integer :: "nat \<Rightarrow> dtoa_mode \<Rightarrow> dbl \<Rightarrow> int \<Rightarrow> (char list \<times> int) res" where
  "small_integer fuel dm u k =
     (if k < 0 then Inl OutOfBounds
      else
        let ds = tens ! nat k in
        if dm_ndigits dm < 0 \<and> dm_ilim dm \<le> 0 then
          Inr (if dm_ilim dm < 0 \<or> dle u (dmul (dbl_lit 5 1) ds) then ([], - 1 - dm_ndigits dm) else (''1'', k + 1))
        else integer_digits fuel (dm_ilim dm) 1 u ds [] k)"

section \<open>dtoa\<close>

text \<open>
  The string, \<open>*decpt\<close> and \<open>*sign\<close>; the string is also the new \<open>dtoa_result\<close>, and the one of the call before,
  \<open>prev\<close>, is freed. A string must fit in its block with the zero byte.
\<close>

record dtoa_output =
  do_string :: rstring
  do_decpt :: int
  do_sign :: bool

definition free_last :: "rstring option \<Rightarrow> alloc \<Rightarrow> alloc" where
  "free_last prev al = (case prev of None \<Rightarrow> al | Some r \<Rightarrow> snd (freedtoa r (Some (rv_addr r)) al))"

definition dtoa_digits ::
  "nat \<Rightarrow> dtoa_mode \<Rightarrow> int \<Rightarrow> int \<Rightarrow> dbl \<Rightarrow> bigint \<Rightarrow> int \<Rightarrow> bool \<Rightarrow> int \<Rightarrow> bool \<Rightarrow> alloc \<Rightarrow> (char list \<times> int \<times> alloc) res" where
  "dtoa_digits fuel dm be bbits u b i denorm k k_check al =
     bindR (quick_digits dm u k k_check) (\<lambda>q.
       case q of
         Some (s, k) \<Rightarrow> Inr (s, k, Bfree (Some b) al)
       | None \<Rightarrow>
           if be \<ge> 0 \<and> k \<le> Int_max then bindR (small_integer fuel dm u k) (\<lambda>(s, k). Inr (s, k, Bfree (Some b) al))
           else dtoa_long fuel dm denorm be bbits u b i k k_check al)"

definition dtoa :: "nat \<Rightarrow> dbl \<Rightarrow> int \<Rightarrow> int \<Rightarrow> rstring option \<Rightarrow> alloc \<Rightarrow> (dtoa_output \<times> alloc) res" where
  "dtoa fuel dd mode ndigits prev al =
     (let (sign, u, special) = dtoa_special dd; al = free_last prev al in
      case special of
        Some (chars, n, decpt) \<Rightarrow>
          bindR (nrv_alloc chars n al) (\<lambda>(rv, _, _, al). Inr (\<lparr>do_string = rv, do_decpt = decpt, do_sign = sign\<rparr>, al))
      | None \<Rightarrow>
          bindR (d2b u al) (\<lambda>(b, be, bbits, u, al).
            let (d2, i, denorm) = split_exponent u be bbits in
            bindR (estimate_k u d2 i) (\<lambda>(k, k_check).
              let dm = choose_mode mode ndigits k; (rv, _, al) = rv_alloc (nat (dm_i dm)) al in
              bindR (dtoa_digits fuel dm be bbits u b i denorm k k_check al) (\<lambda>(s, k, al).
                if length s + 1 \<le> rv_room (rv_k rv)
                then Inr (\<lparr>do_string = rv\<lparr>rv_chars := s\<rparr>, do_decpt = k + 1, do_sign = sign\<rparr>, al)
                else Inl OutOfBounds))))"

end
