(* ===== verification/Strtod_Scan.thy ===== *)
theory Strtod_Scan
  imports Strtod Doubles_Real Dtoa_Digits
begin

text \<open>
  What the scanning of \<open>strtod\<close> (src/src/common/dtoa.cc) makes of the digits before and after a
  decimal point, and the texts for which the short cuts of \<open>strtod\<close> give the nearest double; the
  functions of src/src/common/string_util.cc that convert texts to doubles.
\<close>

section \<open>Accumulated digits\<close>

text \<open>The first nine digits are in \<open>y\<close>, up to seven more in \<open>z\<close>.\<close>

definition acc :: "32 word \<Rightarrow> 32 word \<Rightarrow> int \<Rightarrow> nat \<Rightarrow> bool" where
  "acc y z nd V \<longleftrightarrow> 0 \<le> nd \<and> nd \<le> 16 \<and> V < 10 ^ nat nd \<and>
     unat y = V div 10 ^ (nat nd - 9) \<and> unat z = V mod 10 ^ (nat nd - 9)"

lemma is_dec_digit: "is_dec c = dec_digit c"
  unfolding is_dec_def dec_digit_def digit_int_def code_def by linarith

lemma dec_props:
  assumes "is_dec c"
  shows "nat (digit_int c) \<le> 9" "dval c = of_nat (nat (digit_int c))"
proof -
  have d: "dec_digit c" using assms by (simp add: is_dec_digit)
  then show "nat (digit_int c) \<le> 9" unfolding dec_digit_def by linarith
  show "dval c = of_nat (nat (digit_int c))" unfolding dval_def digit_code [OF d] by simp
qed

lemma push_unat:
  assumes "unat (y :: 32 word) < 10 ^ 8" "c \<le> 9"
  shows "unat (10 * y + of_nat c) = 10 * unat y + c"
proof -
  have "10 * unat y + c < 2 ^ 32" using assms by simp
  moreover have "10 * y + of_nat c = of_nat (10 * unat y + c)" by simp
  ultimately show ?thesis by (simp only: unat_of_nat) (simp add: take_bit_nat_eq_self)
qed

lemma acc_push:
  assumes "acc y z nd V" "c \<le> 9" "nd < 16"
  shows "nd < 9 \<Longrightarrow> acc (10 * y + of_nat c) z (nd + 1) (10 * V + c)"
    "\<not> nd < 9 \<Longrightarrow> acc y (10 * z + of_nat c) (nd + 1) (10 * V + c)"
proof -
  have V: "V < 10 ^ nat nd" "0 \<le> nd" and u: "unat y = V div 10 ^ (nat nd - 9)" "unat z = V mod 10 ^ (nat nd - 9)"
    using assms(1) by (simp_all add: acc_def)
  have n: "nat (nd + 1) = Suc (nat nd)" using V(2) by simp
  have V': "10 * V + c < 10 ^ Suc (nat nd)" using V(1) assms(2) by simp
  {
    assume "nd < 9"
    then have e: "nat nd - 9 = 0" "Suc (nat nd) - 9 = 0" by simp_all
    have "(10::nat) ^ nat nd \<le> 10 ^ 8" using \<open>nd < 9\<close> by (intro power_increasing) simp_all
    then have "unat y < 10 ^ 8" using u(1) V(1) e by simp
    from push_unat [OF this assms(2)] show "acc (10 * y + of_nat c) z (nd + 1) (10 * V + c)"
      using u e V' V(2) assms(3) by (simp add: acc_def n)
  next
    assume "\<not> nd < 9"
    then have e: "nat nd - 8 = Suc (nat nd - 9)" by simp
    have "(10::nat) ^ (nat nd - 9) \<le> 10 ^ 7" using assms(3) by (intro power_increasing) simp_all
    moreover have "unat z < 10 ^ (nat nd - 9)" unfolding u(2) by simp
    ultimately have "unat z < 10 ^ 8" by simp
    from push_unat [OF this assms(2)]
    have "unat (10 * z + of_nat c) = 10 * (V mod 10 ^ (nat nd - 9)) + c" unfolding u(2) .
    moreover have "10 * (V mod 10 ^ (nat nd - 9)) + c = (10 * V + c) mod 10 ^ Suc (nat nd - 9)"
    proof -
      let ?p = "10 ^ (nat nd - 9) :: nat"
      have "V mod ?p + 1 \<le> ?p" using mod_less_divisor [of ?p V] by (simp add: Suc_le_eq)
      then have "10 * (V mod ?p + 1) \<le> 10 * ?p" by (rule mult_left_mono) simp
      then have "10 * (V mod ?p) + c < 10 * ?p" using assms(2) by simp
      moreover have "10 * V + c = 10 * (V mod ?p) + c + (V div ?p) * (10 * ?p)"
        using arg_cong [OF div_mult_mod_eq [of V ?p], of "(*) 10"] by (simp only: distrib_left ac_simps)
      ultimately show ?thesis by (simp only: mod_mult_self1 mod_less power_Suc)
    qed
    moreover have "(10 * V + c) div 10 ^ Suc (nat nd - 9) = V div 10 ^ (nat nd - 9)"
      using assms(2) by (simp add: div_mult2_eq)
    ultimately show "acc y (10 * z + of_nat c) (nd + 1) (10 * V + c)"
      using u V' V(2) assms(3) by (simp add: acc_def n e)
  }
qed

lemma acc_zero: "acc 0 0 0 0"
  by (simp add: acc_def)

text \<open>The loop before the point.\<close>

lemma append_decimal_Cons: "append_decimal v (c # cs) = append_decimal (10 * v + nat (digit_int c)) cs"
  by (simp add: append_decimal_def mult.commute)

lemma append_decimal_Nil [simp]: "append_decimal v [] = v"
  by (simp add: append_decimal_def)

lemma append_decimal_append: "append_decimal v (s @ t) = append_decimal (append_decimal v s) t"
  by (simp add: append_decimal_def)

lemma append_decimal_value: "append_decimal v s = v * 10 ^ length s + append_decimal 0 s"
proof (induction s arbitrary: v)
  case (Cons c s)
  show ?case
    unfolding append_decimal_Cons Cons [of "10 * v + nat (digit_int c)"] Cons [of "10 * 0 + nat (digit_int c)"]
    by (simp add: algebra_simps)
qed simp

lemma scan_int_acc:
  assumes "acc y z nd V" "list_all is_dec cs" "nd + int (length cs) \<le> 16"
  shows "\<exists>y' z'. scan_int cs y z nd = (y', z', nd + int (length cs)) \<and> acc y' z' (nd + int (length cs)) (append_decimal V cs)"
  using assms
proof (induction cs arbitrary: y z nd V)
  case (Cons c cs)
  note d = dec_props [of c] and p = acc_push [OF Cons.prems(1), of "nat (digit_int c)"]
  have c: "is_dec c" "list_all is_dec cs" "nd < 16" "nd + 1 + int (length cs) \<le> 16" using Cons.prems by simp_all
  show ?case
  proof (cases "nd < 9")
    case True
    from Cons.IH [OF p(1) [OF d(1) [OF c(1)] c(3) True] c(2,4)] True
    show ?thesis by (simp add: d(2) [OF c(1)] append_decimal_Cons add.assoc)
  next
    case False
    from Cons.IH [OF p(2) [OF d(1) [OF c(1)] c(3) False] c(2,4)] False c(3)
    show ?thesis by (simp add: d(2) [OF c(1)] append_decimal_Cons add.assoc)
  qed
qed simp

text \<open>The loop behind the point: zeros wait until a digit that is not zero comes.\<close>

lemma scan_zeros_acc:
  assumes "acc y z nd V" "nd + int n \<le> 16"
  shows "\<exists>y' z'. scan_zeros n y z nd = (y', z', nd + int n) \<and> acc y' z' (nd + int n) (V * 10 ^ n)"
  using assms
proof (induction n arbitrary: y z nd V)
  case (Suc n)
  note p = acc_push [OF Suc.prems(1), of 0]
  have nd: "nd < 16" "nd + 1 + int n \<le> 16" using Suc.prems by simp_all
  show ?case
  proof (cases "nd < 9")
    case True
    from Suc.IH [OF p(1) [OF _ nd(1) True] nd(2)] True show ?thesis by (simp add: mult.commute ac_simps)
  next
    case False
    from Suc.IH [OF p(2) [OF _ nd(1) False] nd(2)] False nd(1) show ?thesis by (simp add: mult.commute ac_simps)
  qed
qed simp

lemma scan_frac_acc:
  assumes "acc y z nd V" "0 \<le> nz" "list_all is_dec cs" "nd + nz + int (length cs) \<le> 16"
  shows "\<exists>y' z' nd' nf' nz' V'. scan_frac cs y z nd nf nz = (y', z', nd', nf', nz') \<and> acc y' z' nd' V' \<and> nd \<le> nd' \<and>
    nf \<le> nf' \<and> 0 \<le> nz' \<and> nf' + nz' = nf + nz + int (length cs) \<and> nd' + nz' = nd + nz + int (length cs) \<and>
    V' * 10 ^ nat nz' = append_decimal (V * 10 ^ nat nz) cs"
  using assms
proof (induction cs arbitrary: y z nd V nf nz)
  case (Cons c cs)
  note d = dec_props [of c]
  have c: "is_dec c" "list_all is_dec cs" "nd + int (nat nz) \<le> 16" using Cons.prems by simp_all
  let ?c = "nat (digit_int c)"
  have z0: "dval c = 0 \<longleftrightarrow> ?c = 0"
  proof
    assume "dval c = 0"
    then have "(of_nat ?c :: 32 word) = of_nat 0" unfolding d(2) [OF c(1)] by simp
    then have "unat (of_nat ?c :: 32 word) = 0" by simp
    moreover have "unat (of_nat ?c :: 32 word) = ?c" using d(1) [OF c(1)] by (simp add: unat_of_nat take_bit_nat_eq_self)
    ultimately show "?c = 0" by simp
  next
    assume z: "?c = 0"
    show "dval c = 0" unfolding d(2) [OF c(1)] z by simp
  qed
  show ?case
  proof (cases "?c = 0")
    case True
    then have "dval c = 0" using z0 by simp
    moreover have "V * 10 ^ nat (nz + 1) = 10 * (V * 10 ^ nat nz) + ?c"
      using True Cons.prems(2) by (simp add: nat_add_distrib)
    ultimately show ?thesis
      using Cons.IH [OF Cons.prems(1) _ c(2), of "nz + 1" nf] Cons.prems(2,4) by (simp add: append_decimal_Cons algebra_simps)
  next
    case False
    obtain y1 z1 where s: "scan_zeros (nat nz) y z nd = (y1, z1, nd + nz)" "acc y1 z1 (nd + nz) (V * 10 ^ nat nz)"
      using scan_zeros_acc [OF Cons.prems(1) c(3)] Cons.prems(2) by auto
    have l: "nd + nz < 16" using Cons.prems(4) by simp
    note p = acc_push [OF s(2) d(1) [OF c(1)] l]
    let ?V = "10 * (V * 10 ^ nat nz) + ?c"
    obtain y2 z2 where t: "(if nd + nz < 9 then (10 * y1 + dval c, z1)
        else if nd + nz + 1 \<le> 16 then (y1, 10 * z1 + dval c) else (y1, z1)) = (y2, z2)" "acc y2 z2 (nd + nz + 1) ?V"
      using p l by (cases "nd + nz < 9") (auto simp: d(2) [OF c(1)])
    have run: "scan_frac (c # cs) y z nd nf nz = scan_frac cs y2 z2 (nd + nz + 1) (nf + (nz + 1)) 0"
      using False z0 by (simp add: s(1) t(1) Let_def)
    have "nd + nz + 1 + 0 + int (length cs) \<le> 16" using Cons.prems(4) by simp
    from Cons.IH [OF t(2) _ c(2) this, of "nf + (nz + 1)"] Cons.prems(2)
    obtain y' z' nd' nf' nz' V' where
      "scan_frac cs y2 z2 (nd + nz + 1) (nf + (nz + 1)) 0 = (y', z', nd', nf', nz')" "acc y' z' nd' V'"
      "nd + nz + 1 \<le> nd'" "nf + (nz + 1) \<le> nf'" "0 \<le> nz'" "nf' + nz' = nf + (nz + 1) + int (length cs)"
      "nd' + nz' = nd + nz + 1 + int (length cs)" "V' * 10 ^ nat nz' = append_decimal ?V cs"
      by auto
    then show ?thesis unfolding run using Cons.prems(2) by (auto simp: append_decimal_Cons)
  qed
qed (use assms in simp)

section \<open>A number with a decimal point\<close>

lemma takeWhile_stop: "\<not> P x \<Longrightarrow> takeWhile P (xs @ x # ys) = takeWhile P xs"
  by (induction xs) simp_all

lemma decs_at:
  assumes "s = u @ ds @ t" "list_all is_dec ds" "t = [] \<or> \<not> is_dec (hd t)"
  shows "decs s (length u) = ds"
proof (cases t)
  case Nil
  then show ?thesis using assms by (simp add: decs_def list_all_iff)
next
  case (Cons x xs)
  then have "decs s (length u) = takeWhile is_dec (ds @ x # xs)" using assms(1) by (simp add: decs_def)
  also have "\<dots> = ds" using assms(2,3) Cons by (simp add: takeWhile_stop list_all_iff)
  finally show ?thesis .
qed

lemma zeros_decimal:
  assumes "\<forall>c \<in> set zs. c = CHR ''0''"
  shows "append_decimal 0 zs = 0"
  using assms by (induction zs) (simp_all add: append_decimal_Cons digit_int_def)

text \<open>The digits from an index on, with the point: what \<open>scan_digits\<close> has found at the end of the text.\<close>

lemma char_at_append: "char_at (u @ c # t) (length u) = c"
  by (simp add: char_at_def)

lemma scan_digits_no_int:
  assumes "decs s i = []" "char_at s i = CHR ''.''" "zs = takeWhile (\<lambda>c. c = CHR ''0'') (drop (i + 1) s)"
    and "l = i + 1 + length zs" "is_dec (char_at s l)" "decs s l = ds"
    and "scan_frac ds 0 0 0 (int (length zs)) 0 = (y', z', nd', nf', nz')"
  shows "scan_digits s i = \<lparr>sc_y = y', sc_z = z', sc_nd = nd', sc_nd0 = 0, sc_nf = nf',
        sc_nz = nz', sc_s0 = l, sc_dp1 = 1, sc_dplen = 1, sc_pos = l + length ds\<rparr>"
  unfolding scan_digits_def assms(1) Let_def using assms(2-7) by simp

lemma scan_digits_fraction:
  assumes s: "s = zp @ ip @ CHR ''.'' # fp" and d: "list_all is_dec ip" "list_all is_dec fp"
    and len: "length ip + length fp \<le> 15" and pos: "0 < append_decimal 0 (ip @ fp)"
  shows "\<exists>V. acc (sc_y (scan_digits s (length zp))) (sc_z (scan_digits s (length zp))) (sc_nd (scan_digits s (length zp))) V \<and>
    0 < V \<and> sc_nd (scan_digits s (length zp)) \<le> 15 \<and> 0 \<le> sc_nf (scan_digits s (length zp)) \<and>
    sc_nf (scan_digits s (length zp)) \<le> int (length fp) \<and> sc_pos (scan_digits s (length zp)) = length s \<and>
    V * 10 ^ (length fp - nat (sc_nf (scan_digits s (length zp)))) = append_decimal 0 (ip @ fp)"
proof -
  have dot: "\<not> is_dec (CHR ''.'')" by (simp add: is_dec_def code_def)
  have ip: "decs s (length zp) = ip" by (rule decs_at [OF s d(1)]) (simp add: dot)
  have at: "char_at s (length zp + length ip) = CHR ''.''" by (simp add: char_at_def s nth_append)
  obtain y z where i: "scan_int ip 0 0 0 = (y, z, int (length ip))" "acc y z (int (length ip)) (append_decimal 0 ip)"
    using scan_int_acc [OF acc_zero d(1)] len by auto
  have final: "\<exists>V. acc y' z' nd' V \<and> 0 < V \<and> nd' \<le> 15 \<and> 0 \<le> nf' \<and> nf' \<le> int (length fp) \<and>
      V * 10 ^ (length fp - nat nf') = append_decimal 0 (ip @ fp)"
    if "acc y' z' nd' V'" "0 \<le> nf'" "0 \<le> nz'" "nf' + nz' = int (length fp)" "nd' + nz' \<le> 15"
      "V' * 10 ^ nat nz' = append_decimal 0 (ip @ fp)" for y' z' nd' nf' nz' V'
  proof -
    have "length fp - nat nf' = nat nz'" using that by linarith
    moreover have "0 < V'" using that(6) pos by (cases V') auto
    ultimately show ?thesis using that by (intro exI [of _ V']) simp
  qed
  show ?thesis
  proof (cases "ip = []")
    case False
    have fp: "decs s (length zp + length ip + 1) = fp"
      using decs_at [of s "zp @ ip @ ''.''" fp "[]"] d(2) by (simp add: s)
    obtain y' z' nd' nf' nz' V' where f: "scan_frac fp y z (int (length ip)) 0 0 = (y', z', nd', nf', nz')"
      "acc y' z' nd' V'" "0 \<le> nf'" "0 \<le> nz'" "nf' + nz' = int (length fp)" "nd' + nz' = int (length ip) + int (length fp)"
      "V' * 10 ^ nat nz' = append_decimal (append_decimal 0 ip) fp"
      using scan_frac_acc [OF i(2) _ d(2), of 0 0] len by auto
    have "nd' + nz' \<le> 15" using f(6) len by simp
    from final [OF f(2-5) this] f(7)
    have ex: "\<exists>V. acc y' z' nd' V \<and> 0 < V \<and> nd' \<le> 15 \<and> 0 \<le> nf' \<and> nf' \<le> int (length fp) \<and>
      V * 10 ^ (length fp - nat nf') = append_decimal 0 (ip @ fp)" by (simp add: append_decimal_append)
    have "scan_digits s (length zp) = \<lparr>sc_y = y', sc_z = z', sc_nd = nd', sc_nd0 = int (length ip), sc_nf = nf',
        sc_nz = nz', sc_s0 = length zp, sc_dp1 = length ip + 1, sc_dplen = 1, sc_pos = length s\<rparr>"
      using False fp by (simp add: scan_digits_def Let_def ip i(1) at f(1)) (simp add: s)
    with ex show ?thesis by simp
  next
    case True
    let ?zs = "takeWhile (\<lambda>c. c = CHR ''0'') fp" and ?fp = "dropWhile (\<lambda>c. c = CHR ''0'') fp"
    have i0: "y = 0" "z = 0" using i(1) True by simp_all
    have dr: "drop (length zp + 1) s = fp" using True by (simp add: s)
    have split: "fp = ?zs @ ?fp" by simp
    have v: "append_decimal 0 fp = append_decimal 0 ?fp"
      by (subst split, subst append_decimal_append, subst zeros_decimal) (auto dest: set_takeWhileD)
    have ne: "?fp \<noteq> []"
    proof
      assume n: "?fp = []"
      have "append_decimal 0 fp = 0" by (rule trans [OF v]) (simp only: n append_decimal_Nil)
      then show False using pos True by simp
    qed
    then obtain c cs where c: "?fp = c # cs" by (cases ?fp) auto
    have d': "list_all is_dec ?fp" using d(2) set_dropWhileD by (fastforce simp: list_all_iff)
    have "s = (zp @ CHR ''.'' # ?zs) @ c # cs" using s True split unfolding c by simp
    from arg_cong [OF this, of "\<lambda>s. char_at s (length (zp @ CHR ''.'' # ?zs))"]
    have ch: "char_at s (length zp + 1 + length ?zs) = c" unfolding char_at_append by simp
    have fp: "decs s (length zp + 1 + length ?zs) = ?fp"
      using decs_at [of s "zp @ ''.'' @ ?zs" ?fp "[]"] d' True split by (simp add: s)
    have l: "length fp = length ?zs + length ?fp" by (metis length_append split)
    obtain y' z' nd' nf' nz' V' where f: "scan_frac ?fp 0 0 0 (int (length ?zs)) 0 = (y', z', nd', nf', nz')"
      "acc y' z' nd' V'" "int (length ?zs) \<le> nf'" "0 \<le> nz'" "nf' + nz' = int (length ?zs) + int (length ?fp)" "nd' + nz' = int (length ?fp)"
      "V' * 10 ^ nat nz' = append_decimal 0 ?fp"
      using scan_frac_acc [OF acc_zero _ d', of 0 "int (length ?zs)"] len l by auto
    have a: "0 \<le> nf'" "nf' + nz' = int (length fp)" "nd' + nz' \<le> 15" using f(3,5,6) l len by simp_all
    have ex: "\<exists>V. acc y' z' nd' V \<and> 0 < V \<and> nd' \<le> 15 \<and> 0 \<le> nf' \<and> nf' \<le> int (length fp) \<and>
      V * 10 ^ (length fp - nat nf') = append_decimal 0 (ip @ fp)"
      using final [OF f(2) a(1) f(4) a(2,3)] f(7) v True by simp
    have "is_dec c" using d' c by simp
    then have dc: "is_dec (char_at s (length zp + 1 + length ?zs))" unfolding ch .
    have ip': "decs s (length zp) = []" "char_at s (length zp) = CHR ''.''" using ip at True by simp_all
    have "length zp + 1 + length ?zs + length ?fp = length s" using l True by (simp add: s)
    then have "scan_digits s (length zp) = \<lparr>sc_y = y', sc_z = z', sc_nd = nd', sc_nd0 = 0, sc_nf = nf',
        sc_nz = nz', sc_s0 = length zp + 1 + length ?zs, sc_dp1 = 1, sc_dplen = 1, sc_pos = length s\<rparr>"
      using scan_digits_no_int [OF ip' _ refl dc fp f(1)] unfolding dr by simp
    with ex show ?thesis by simp
  qed
qed

lemma dec_not_special:
  assumes "is_dec c"
  shows "c \<noteq> CHR ''-''" "c \<noteq> CHR ''+''" "c \<notin> {CHR 0x09, CHR 0x0A, CHR 0x0B, CHR 0x0C, CHR 0x0D, CHR '' ''}" "c \<noteq> CHR 0x00"
  using assms by (auto simp: is_dec_def code_def)

lemma skip_sign_digit: "is_dec c \<Longrightarrow> skip_sign (c # cs) i = Some (False, i)"
  using dec_not_special [of c] by (simp only: skip_sign.simps simp_thms if_False)

lemma strtod_scan_fraction:
  assumes s: "s = ip @ CHR ''.'' # fp" and d: "list_all is_dec ip" "list_all is_dec fp"
    and len: "ip \<noteq> []" "length ip + length fp \<le> 15" and pos: "0 < append_decimal 0 (ip @ fp)"
  obtains sc V where "strtod_scan s = Digits False sc (- sc_nf sc)" "sc_pos sc = length s"
    "acc (sc_y sc) (sc_z sc) (sc_nd sc) V" "0 < V" "sc_nd sc \<le> 15" "0 \<le> sc_nf sc" "sc_nf sc \<le> int (length fp)"
    "V * 10 ^ (length fp - nat (sc_nf sc)) = append_decimal 0 (ip @ fp)"
proof -
  let ?zs = "takeWhile (\<lambda>c. c = CHR ''0'') ip" and ?ip = "dropWhile (\<lambda>c. c = CHR ''0'') ip"
  have split: "ip = ?zs @ ?ip" by simp
  have s': "s = ?zs @ ?ip @ CHR ''.'' # fp" unfolding s by (simp flip: append_assoc)
  have d': "list_all is_dec ?ip" using d(1) set_dropWhileD by (fastforce simp: list_all_iff)
  have l: "length ip = length ?zs + length ?ip" by (metis length_append split)
  have v: "append_decimal 0 (ip @ fp) = append_decimal 0 (?ip @ fp)"
    by (subst split, unfold append_assoc, subst append_decimal_append, subst zeros_decimal) (auto dest: set_takeWhileD)
  obtain c cs where c: "ip = c # cs" using len(1) by (cases ip) auto
  have "is_dec c" using d(1) c by simp
  then have sk: "skip_sign s 0 = Some (False, 0)" unfolding s c append_Cons by (rule skip_sign_digit)
  have tw: "takeWhile (\<lambda>c. c = CHR ''0'') s = ?zs" unfolding s by (rule takeWhile_stop) simp
  obtain V where V: "acc (sc_y (scan_digits s (length ?zs))) (sc_z (scan_digits s (length ?zs))) (sc_nd (scan_digits s (length ?zs))) V"
    "0 < V" "sc_nd (scan_digits s (length ?zs)) \<le> 15" "0 \<le> sc_nf (scan_digits s (length ?zs))"
    "sc_nf (scan_digits s (length ?zs)) \<le> int (length fp)" "sc_pos (scan_digits s (length ?zs)) = length s"
    "V * 10 ^ (length fp - nat (sc_nf (scan_digits s (length ?zs)))) = append_decimal 0 (?ip @ fp)"
    using scan_digits_fraction [OF s' d' d(2)] len(2) pos v l by auto
  let ?sc = "scan_digits s (length ?zs)"
  have nd: "sc_nd ?sc \<noteq> 0" using V(1,2) by (auto simp: acc_def)
  have i: "\<not> length s \<le> length ?zs" using l by (simp add: s)
  have at: "char_at s (length s) = CHR 0x00" by (simp add: char_at_def)
  have "strtod_scan s = Digits False (?sc\<lparr>sc_pos := length s\<rparr>) (0 - sc_nf ?sc)"
    unfolding strtod_scan_def sk option.case prod.case drop_0 tw add_0 Let_def using i nd
    by (simp add: V(6) at)
  then have run: "strtod_scan s = Digits False (?sc\<lparr>sc_pos := length s\<rparr>) (- sc_nf (?sc\<lparr>sc_pos := length s\<rparr>))" by simp
  show ?thesis
    by (rule that [OF run]) (use V v in simp_all)
qed

section \<open>The short cuts\<close>

lemma tens_nth:
  assumes "i < 23"
  shows "pos_dbl (tens ! i)" "dbl_real (tens ! i) = 10 ^ i"
proof -
  have e: "tens ! i = dbl_lit (10 ^ i) 1" using assms by (simp add: tens_def)
  have "(5::nat) ^ i \<le> 5 ^ 22" using assms by (intro power_increasing) simp_all
  then have k: "(5::nat) ^ i < 2 ^ 53" by (rule order.strict_trans1) simp
  have v: "real (10 ^ i) = real (5 ^ i) * 2 ^ i" by (simp flip: power_mult_distrib)
  have "(10::real) ^ i \<le> 10 ^ 22" using assms by (intro power_increasing) simp_all
  then have "real (10 ^ i) \<le> 10 ^ 22" by simp
  also have "(10::real) ^ 22 < 2 ^ 1024" by simp
  also have "(2::real) ^ 1024 = 2 powi 1024" by simp
  finally have "real (5 ^ i) * 2 ^ i < 2 powi 1024" unfolding v .
  from dbl_lit_exact [OF k v this] show "pos_dbl (tens ! i)" "dbl_real (tens ! i) = 10 ^ i"
    unfolding e by simp_all
qed

lemma below_2_53:
  assumes "n < 2 ^ 53"
  shows "real n * 2 powi 0 < 2 powi 1024" "- 1074 \<le> (0 :: int)"
proof -
  have "real n < 2 ^ 53" using assms by (metis of_nat_less_iff of_nat_numeral of_nat_power)
  also have "(2::real) ^ 53 = 2 powi int 53" by (simp only: power_int_of_nat)
  also have "\<dots> < 2 powi 1024" unfolding powi_less by simp
  finally show "real n * 2 powi 0 < 2 powi 1024" by simp
qed simp

lemma first_digits_value:
  assumes "acc y z nd V" "nd \<le> 15" "0 < V"
  shows "pos_dbl (first_digits y z nd)" "dbl_real (first_digits y z nd) = real V"
proof -
  have a: "0 \<le> nd" "V < 10 ^ nat nd" "unat y = V div 10 ^ (nat nd - 9)" "unat z = V mod 10 ^ (nat nd - 9)"
    using assms(1) by (simp_all add: acc_def)
  have "(10::nat) ^ nat nd \<le> 10 ^ 15" using assms(2) by (intro power_increasing) simp_all
  then have V: "V < 2 ^ 53" using a(2) by simp
  have "unat y < 2 ^ 32" "unat z < 2 ^ 32" by (rule unat32)+
  then have yz: "unat y < 2 ^ 53" "unat z < 2 ^ 53" by simp_all
  note Y = dbl_of_nat_exact [OF yz(1)] and Z = dbl_of_nat_exact [OF yz(2)]
  have "pos_dbl (first_digits y z nd) \<and> dbl_real (first_digits y z nd) = real V"
  proof (cases "nd > 9")
    case False
    then show ?thesis using Y a by (simp add: first_digits_def)
  next
    case True
    let ?n = "nat nd - 9"
    have n: "nat (nd - 9) = ?n" "?n < 23" using True assms(2) by linarith+
    note t = tens_nth [OF n(2)]
    have yn: "V = unat y * 10 ^ ?n + unat z" unfolding a(3,4) by (rule div_mult_mod_eq [symmetric])
    then have k: "unat y * 10 ^ ?n < 2 ^ 53" using V by linarith
    have "dbl_real (tens ! ?n) * dbl_real (dbl_of_nat (unat y)) = real (unat y * 10 ^ ?n) * 2 powi 0"
      unfolding t(2) Y(2) by simp
    note p = dmul_exact [OF t(1) Y(1) this k below_2_53(2,1) [OF k]]
    have f: "finite_dbl (dmul (tens ! ?n) (dbl_of_nat (unat y)))" "finite_dbl (dbl_of_nat (unat z))"
      using p(1) Z(1) by (simp_all add: pos_dbl_def)
    have "real V = real (unat y) * 10 ^ ?n + real (unat z)"
      using arg_cong [OF yn, of real] by (simp only: of_nat_add of_nat_mult of_nat_power of_nat_numeral)
    then have "dbl_real (dmul (tens ! ?n) (dbl_of_nat (unat y))) + dbl_real (dbl_of_nat (unat z)) = real V * 2 powi 0"
      unfolding p(2) t(2) Y(2) Z(2) by simp
    from dadd_exact [OF f this assms(3) V below_2_53(2,1) [OF V]] True show ?thesis by (simp add: first_digits_def n(1))
  qed
  then show "pos_dbl (first_digits y z nd)" "dbl_real (first_digits y z nd) = real V" by blast+
qed

lemma short_cut_fraction:
  assumes "pos_dbl rv" "dbl_real rv = real V" "0 < V" "V < 2 ^ 53" and nd: "nd \<le> 15" "0 \<le> nf" "nf \<le> 15"
  obtains v where "short_cut nd (- nf) rv = Some v" "pos_dbl v" "rounds_to v (real V / 10 ^ nat nf)"
proof (cases "nf = 0")
  case True
  have "rounds_to rv (real V)"
  proof (rule rounds_toI)
    show "finite_dbl rv" using assms(1) by (simp add: pos_dbl_def)
    show "dbl_real rv = real (mantissa rv) * 2 powi dbl_scale rv" by (rule pos_real [OF assms(1)])
    then have e: "real (mantissa rv) * 2 powi dbl_scale rv = real V" using assms(2) by simp
    show "- 1074 \<le> dbl_scale rv" by (rule dbl_scale_ge)
    show "\<bar>real (mantissa rv) * 2 powi dbl_scale rv - real V\<bar> \<le> 2 powi dbl_scale rv / 2" unfolding e by simp
    show "dbl_scale rv = - 1074 \<or> 2 ^ 52 * 2 powi dbl_scale rv \<le> real V"
      unfolding e [symmetric] using mantissa_normal [of rv]
      by (cases "dbl_exp rv = 0") (simp add: dbl_scale_def, simp flip: of_nat_le_iff)
    show "even (mantissa rv)" if "\<bar>real (mantissa rv) * 2 powi dbl_scale rv - real V\<bar> = 2 powi dbl_scale rv / 2"
      using that powi_pos [of "dbl_scale rv"] unfolding e by simp
  qed
  then show ?thesis using True nd assms(1) by (intro that [of rv]) (simp_all add: short_cut_def DBL_DIG_def)
next
  case False
  then have n: "nat nf < 23" using nd by linarith
  note t = tens_nth [OF n]
  have v: "0 < dbl_real rv" "0 < dbl_real (tens ! nat nf)" unfolding assms(2) t(2) using assms(3) by simp_all
  have "real V / 10 ^ nat nf \<le> real V" using assms(3) by (simp add: divide_le_eq)
  also have "real V < 2 powi int 53" using assms(4) unfolding power_int_of_nat by (metis of_nat_less_iff of_nat_numeral of_nat_power)
  also have "(2::real) powi int 53 < 2 powi 1023" unfolding powi_less by simp
  finally have "dbl_real rv / dbl_real (tens ! nat nf) < 2 powi 1023" unfolding assms(2) t(2) .
  note r = ddiv_rounds [OF assms(1) t(1) v this, unfolded assms(2) t(2)]
  show ?thesis
    by (rule that [of "ddiv rv (tens ! nat nf)"]) (use r False nd in \<open>simp_all add: short_cut_def DBL_DIG_def Ten_pmax_def\<close>)
qed

end
