(* ===== verification/Dtoa_Estimate.thy ===== *)
theory Dtoa_Estimate
  imports Dtoa_Scale Dtoa_Powers Dtoa_Quick Strtod_Scan
begin

text \<open>
  The estimate of the decimal exponent in \<open>dtoa\<close> (src/src/common/dtoa.cc): the code evaluates a line above the
  logarithm with doubles. The errors of the operations are bounded one by one; with the table of \<open>Dtoa_Powers\<close>
  the estimate of every positive \<open>double\<close>, normal or not, is its exponent or one more, and the code knows which
  when it does not check.
\<close>

section \<open>The estimate of the exponent\<close>

lemma roundoff_error_le:
  assumes "\<bar>X\<bar> \<le> B"
  shows "roundoff_error X \<le> (B + 1) / 2 ^ 53"
proof -
  have "(2::real) powi - 1075 \<le> 2 powi - 53" by (intro power_int_increasing) simp_all
  also have "\<dots> = 1 / 2 ^ 53" by (simp add: power_int_minus inverse_eq_divide)
  finally have "(2::real) powi - 1075 \<le> 1 / 2 ^ 53" .
  moreover have "\<bar>X\<bar> / 2 ^ 53 \<le> B / 2 ^ 53" using assms by (rule divide_right_mono) simp
  ultimately show ?thesis unfolding add_divide_distrib by linarith
qed

lemma small_below_top: "\<bar>X\<bar> \<le> 2 ^ 10 \<Longrightarrow> \<bar>X\<bar> < 2 powi 1023" for X :: real
proof -
  assume "\<bar>X\<bar> \<le> 2 ^ 10"
  also have "(2::real) ^ 10 = 2 powi 10" by simp
  also have "\<dots> < 2 powi 1023" unfolding powi_less by simp
  finally show ?thesis .
qed

lemma product_error:
  fixes a b c d :: real
  assumes "\<bar>a - b\<bar> \<le> p" "\<bar>c - d\<bar> \<le> q" "\<bar>c\<bar> \<le> C" "\<bar>b\<bar> \<le> B"
  shows "\<bar>a * c - b * d\<bar> \<le> p * C + B * q"
proof -
  have "a * c - b * d = (a - b) * c + b * (c - d)" by (simp add: algebra_simps)
  also have "\<bar>\<dots>\<bar> \<le> \<bar>a - b\<bar> * \<bar>c\<bar> + \<bar>b\<bar> * \<bar>c - d\<bar>" by (metis abs_mult abs_triangle_ineq)
  also have "\<dots> \<le> p * C + B * q" using assms by (intro add_mono mult_mono) simp_all
  finally show ?thesis .
qed

lemma error_trans: "\<bar>a - b\<bar> \<le> p \<Longrightarrow> \<bar>b - c\<bar> \<le> q \<Longrightarrow> p + q \<le> r \<Longrightarrow> \<bar>a - c\<bar> \<le> r" for a b c p q r :: real
  by linarith

lemma sum_error: "\<bar>a - b\<bar> \<le> p \<Longrightarrow> \<bar>c - d\<bar> \<le> q \<Longrightarrow> \<bar>(a + c) - (b + d)\<bar> \<le> p + q" for a b c d p q :: real
  by linarith

lemma bound_trans: "\<bar>x - c\<bar> \<le> e \<Longrightarrow> \<bar>c\<bar> \<le> B \<Longrightarrow> B + e \<le> r \<Longrightarrow> \<bar>x\<bar> \<le> r" for x c e B r :: real
  by linarith

text \<open>An operation whose exact result is at most \<open>B\<close>.\<close>

lemma dmul_near:
  assumes "finite_dbl x" "finite_dbl y" "\<bar>dbl_real x * dbl_real y\<bar> \<le> B" "B \<le> 2 ^ 10"
  shows "finite_dbl (dmul x y)" "\<bar>dbl_real (dmul x y) - dbl_real x * dbl_real y\<bar> \<le> (B + 1) / 2 ^ 53"
  using dmul_error [OF assms(1,2) small_below_top [OF order_trans [OF assms(3,4)]]] roundoff_error_le [OF assms(3)]
  by (blast, blast intro: order_trans)

lemma dadd_near:
  assumes "finite_dbl x" "finite_dbl y" "\<bar>dbl_real x + dbl_real y\<bar> \<le> B" "B \<le> 2 ^ 10"
  shows "finite_dbl (dadd x y)" "\<bar>dbl_real (dadd x y) - (dbl_real x + dbl_real y)\<bar> \<le> (B + 1) / 2 ^ 53"
  using dadd_error [OF assms(1,2) small_below_top [OF order_trans [OF assms(3,4)]]] roundoff_error_le [OF assms(3)]
  by (blast, blast intro: order_trans)

lemma dsub_near:
  assumes "finite_dbl x" "finite_dbl y" "\<bar>dbl_real x - dbl_real y\<bar> \<le> B" "B \<le> 2 ^ 10"
  shows "finite_dbl (dsub x y)" "\<bar>dbl_real (dsub x y) - (dbl_real x - dbl_real y)\<bar> \<le> (B + 1) / 2 ^ 53"
  using dsub_error [OF assms(1,2) small_below_top [OF order_trans [OF assms(3,4)]]] roundoff_error_le [OF assms(3)]
  by (blast, blast intro: order_trans)

text \<open>The constants and the operations of the code each add an error of at most a few times \<open>2 ^ - 53\<close>.\<close>

lemma lit_near:
  assumes "0 < d" "real a / real d \<le> 2"
  shows "finite_dbl (dbl_lit a d)" "\<bar>dbl_real (dbl_lit a d) - real a / real d\<bar> \<le> (real a / real d + 1) / 2 ^ 53"
proof -
  have t: "real a / real d < 2 powi 1023" using small_below_top [of "real a / real d"] assms(2) by simp
  note e = dbl_lit_error [OF assms(1) t]
  show "finite_dbl (dbl_lit a d)" by (rule e(1))
  have "\<bar>real a / real d\<bar> \<le> real a / real d" by simp
  from e(2) roundoff_error_le [OF this] show "\<bar>dbl_real (dbl_lit a d) - real a / real d\<bar> \<le> (real a / real d + 1) / 2 ^ 53"
    by (rule order_trans)
qed

lemma three_halves: "finite_dbl (dbl_lit 3 2)" "dbl_real (dbl_lit 3 2) = 3 / 2"
proof -
  have v: "real 3 / real 2 * 2 powi 0 = real 3 * 2 powi - 1" by (simp add: power_int_minus)
  have t: "real 3 * 2 powi - 1 < (2::real) powi 1024" using small_below_top [of "3 / 2"] powi_less [of 1023 1024]
    by (simp add: power_int_minus)
  have b: "(0::nat) < 3" "(0::nat) < 2" "(3::nat) < 2 ^ 53" "(- 1074::int) \<le> - 1" by simp_all
  note r = round_bits_exact [OF b(1,2) v b(3,4) t]
  show "finite_dbl (dbl_lit 3 2)" using pos_mk [OF r(1)] by (simp add: dbl_lit_def pos_dbl_def)
  show "dbl_real (dbl_lit 3 2) = 3 / 2" using r(2) [of False] v by (simp add: dbl_lit_def)
qed

lemma within: "\<bar>x - l\<bar> < e \<Longrightarrow> a + e \<le> l \<Longrightarrow> l \<le> b - e \<Longrightarrow> a < x \<and> x < b" for x l e a b :: real
  by linarith

lemma int_double:
  assumes "\<bar>i\<bar> < 2 ^ 53"
  shows "finite_dbl (dbl_of_int i)" "dbl_real (dbl_of_int i) = of_int i"
proof -
  have n: "nat \<bar>i\<bar> < 2 ^ 53" using assms by (simp add: nat_less_iff)
  note u = dbl_of_nat_exact [OF n]
  have d: "dbl_of_int i = (if i < 0 then dneg (dbl_of_nat (nat \<bar>i\<bar>)) else dbl_of_nat (nat \<bar>i\<bar>))" by (simp add: dbl_of_int_def)
  have "finite_dbl (dbl_of_nat (nat \<bar>i\<bar>))" "dbl_real (dbl_of_nat (nat \<bar>i\<bar>)) = \<bar>of_int i\<bar>" using u by (simp_all add: pos_dbl_def)
  then show "finite_dbl (dbl_of_int i)" "dbl_real (dbl_of_int i) = of_int i"
    unfolding d by (simp_all only: dneg_real if_distrib [of finite_dbl] if_distrib [of dbl_real] if_cancel) auto
qed

lemma log10_estimate_near:
  assumes x: "finite_dbl d2" "1 \<le> dbl_real d2" "dbl_real d2 \<le> 2" and i: "\<bar>i\<bar> \<le> 1100"
  shows "finite_dbl (log10_estimate d2 i)"
    "\<bar>dbl_real (log10_estimate d2 i) - log10_line (dbl_real d2) i\<bar> \<le> 2200 / 2 ^ 53"
proof -
  define C1 C2 C3 :: real where C: "C1 = 289529654602168 / 10 ^ 15" "C2 = 1760912590558 / 10 ^ 13" "C3 = 301029995663981 / 10 ^ 15"
  define c1 c2 c3 where c: "c1 = dbl_lit 289529654602168 (10 ^ 15)" "c2 = dbl_lit 1760912590558 (10 ^ 13)"
    "c3 = dbl_lit 301029995663981 (10 ^ 15)"
  define T where "T = dbl_real d2 - 3 / 2"
  define t where "t = dsub d2 (dbl_lit 3 2)"
  define m where "m = dmul t c1"
  define r where "r = dadd m c2"
  define z where "z = dmul (dbl_of_int i) c3"
  have c1: "finite_dbl c1" "\<bar>dbl_real c1 - C1\<bar> \<le> 13 / 10 / 2 ^ 53"
    using lit_near [of "10 ^ 15" 289529654602168] by (simp_all add: C c)
  have c2: "finite_dbl c2" "\<bar>dbl_real c2 - C2\<bar> \<le> 12 / 10 / 2 ^ 53"
    using lit_near [of "10 ^ 13" 1760912590558] by (simp_all add: C c)
  have c3: "finite_dbl c3" "\<bar>dbl_real c3 - C3\<bar> \<le> 131 / 100 / 2 ^ 53"
    using lit_near [of "10 ^ 15" 301029995663981] by (simp_all add: C c)
  have b: "\<bar>C1\<bar> \<le> 29 / 100" "\<bar>C2\<bar> \<le> 18 / 100" "\<bar>C3\<bar> \<le> 3011 / 10000" by (simp_all add: C)
  have b1: "\<bar>dbl_real c1\<bar> \<le> 3 / 10" by (rule bound_trans [OF c1(2) b(1)]) simp
  have b3: "\<bar>dbl_real c3\<bar> \<le> 302 / 1000" by (rule bound_trans [OF c3(2) b(3)]) simp
  have T: "\<bar>T\<bar> \<le> 1 / 2" using x(2,3) unfolding T_def by linarith
  note dt = dsub_near [OF x(1) three_halves(1), unfolded three_halves(2), folded T_def t_def, OF T]
  have t: "finite_dbl t" "\<bar>dbl_real t - T\<bar> \<le> 3 / 2 / 2 ^ 53" using dt by simp_all
  have y: "\<bar>T * C1\<bar> \<le> 1 / 2 * (29 / 100)" unfolding abs_mult using T b by (intro mult_mono) simp_all
  note p1 = product_error [OF t(2) c1(2) b1 T]
  have B1: "\<bar>dbl_real t * dbl_real c1\<bar> \<le> 2 / 10" by (rule bound_trans [OF p1 y]) simp
  note dm = dmul_near [OF t(1) c1(1) B1, folded m_def]
  have m: "finite_dbl m" using dm(1) by simp
  have m': "\<bar>dbl_real m - T * C1\<bar> \<le> 24 / 10 / 2 ^ 53" by (rule error_trans [OF dm(2) p1]) simp_all
  have w: "\<bar>T * C1 + C2\<bar> \<le> 1 / 2 * (29 / 100) + 18 / 100" using y b(2) by linarith
  note s1 = sum_error [OF m' c2(2)]
  have B2: "\<bar>dbl_real m + dbl_real c2\<bar> \<le> 6 / 10" by (rule bound_trans [OF s1 w]) simp
  note dr = dadd_near [OF m c2(1) B2, folded r_def]
  have r: "finite_dbl r" using dr(1) by simp
  have r': "\<bar>dbl_real r - (T * C1 + C2)\<bar> \<le> 52 / 10 / 2 ^ 53" by (rule error_trans [OF dr(2) s1]) simp_all
  have I: "finite_dbl (dbl_of_int i)" "dbl_real (dbl_of_int i) = of_int i" by (rule int_double; use i in simp)+
  have I': "\<bar>real_of_int i\<bar> \<le> 1100" using i by linarith
  have "\<bar>real_of_int i - of_int i\<bar> \<le> 0" by simp
  note p3 = product_error [OF this c3(2) b3 I']
  have v: "\<bar>real_of_int i * C3\<bar> \<le> 1100 * (3011 / 10000)" unfolding abs_mult using I' b by (intro mult_mono) simp_all
  have B3: "\<bar>of_int i * dbl_real c3\<bar> \<le> 332" by (rule bound_trans [OF p3 v]) simp
  note dz = dmul_near [OF I(1) c3(1), unfolded I(2), OF B3, folded z_def]
  have z: "finite_dbl z" using dz(1) by simp
  have z': "\<bar>dbl_real z - of_int i * C3\<bar> \<le> 1775 / 2 ^ 53" by (rule error_trans [OF dz(2) p3]) simp_all
  note s2 = sum_error [OF r' z']
  have wv: "\<bar>(T * C1 + C2) + of_int i * C3\<bar> \<le> 1 / 2 * (29 / 100) + 18 / 100 + 1100 * (3011 / 10000)" using w v by linarith
  have B4: "\<bar>dbl_real r + dbl_real z\<bar> \<le> 333" by (rule bound_trans [OF s2 wv]) simp
  have d: "log10_estimate d2 i = dadd r z" by (simp add: log10_estimate_def r_def z_def m_def t_def c)
  have l: "log10_line (dbl_real d2) i = (T * C1 + C2) + of_int i * C3" by (simp add: log10_line_def T_def C)
  note e = dadd_near [OF r z B4, folded d]
  show "finite_dbl (log10_estimate d2 i)" using e(1) by simp
  show "\<bar>dbl_real (log10_estimate d2 i) - log10_line (dbl_real d2) i\<bar> \<le> 2200 / 2 ^ 53"
    unfolding l by (rule error_trans [OF e(2) s2]) simp_all
qed

section \<open>The number scaled to the interval from one to two\<close>

lemma nat_exponent:
  assumes "0 < n" "n < 2 ^ 53"
  obtains i where "dbl_exp (dbl_of_nat n) = i + 1023" "2 ^ i \<le> n" "n < 2 ^ Suc i"
    "real (mantissa (dbl_of_nat n)) * 2 powi - 52 = real n / 2 ^ i"
proof -
  let ?u = "dbl_of_nat n"
  note u = dbl_of_nat_exact [OF assms(2)]
  have v: "real (mantissa ?u) * 2 powi dbl_scale ?u = real n" using pos_real [OF u(1)] u(2) by simp
  have m: "real (mantissa ?u) < 2 ^ 53" using mantissa_less [of ?u] by (metis of_nat_less_iff of_nat_numeral of_nat_power)
  have e: "1023 \<le> dbl_exp ?u"
  proof (rule ccontr)
    assume "\<not> 1023 \<le> dbl_exp ?u"
    then have "(2::real) powi dbl_scale ?u \<le> 2 powi - 53" by (intro power_int_increasing) (simp_all add: dbl_scale_def)
    then have "real (mantissa ?u) * 2 powi dbl_scale ?u < 2 ^ 53 * 2 powi - 53"
      using m by (intro mult_less_le_imp_less) simp_all
    then have "real n < 1" unfolding v by (simp add: power_int_minus)
    then show False using assms(1) by simp
  qed
  define i where "i = dbl_exp ?u - 1023"
  have i: "dbl_exp ?u = i + 1023" using e by (simp add: i_def)
  have sc: "dbl_scale ?u = int i + - 52" by (simp add: dbl_scale_def i)
  have p: "(2::real) powi dbl_scale ?u = 2 ^ i * 2 powi - 52" unfolding sc powi_shift ..
  have n: "real (mantissa ?u) * 2 powi - 52 = real n / 2 ^ i" using v unfolding p by (simp add: field_simps)
  have "2 ^ 52 \<le> real (mantissa ?u)" using mantissa_normal [of ?u] i by (metis add_is_0 of_nat_le_iff of_nat_numeral of_nat_power zero_neq_numeral)
  then have "1 \<le> real n / 2 ^ i" "real n / 2 ^ i < 2" using m unfolding n [symmetric] by (simp_all add: power_int_minus field_simps)
  then have "real (2 ^ i) \<le> real n" "real n < real (2 ^ Suc i)" by (simp_all add: field_simps)
  then have "2 ^ i \<le> n" "n < 2 ^ Suc i" by (simp_all only: of_nat_le_iff of_nat_less_iff)
  with i n show ?thesis by (intro that)
qed

lemma exponent_word: "drop_bit Exp_shift w AND drop_bit Exp_shift Exp_mask = drop_bit Exp_shift (w AND 0x7fffffff)"
proof -
  have "drop_bit Exp_shift (0x7fffffff :: 32 word) = drop_bit Exp_shift Exp_mask" by (simp add: Exp_shift_def Exp_mask_def)
  then show ?thesis by (simp add: drop_bit_and)
qed

text \<open>The number with the exponent of the numbers between one and two.\<close>

lemma unit_double:
  assumes "dbl_exp u \<noteq> 0"
  shows "finite_dbl (u\<lparr>word0 := (word0 u AND Frac_mask) OR Exp_11\<rparr>)"
    "dbl_real (u\<lparr>word0 := (word0 u AND Frac_mask) OR Exp_11\<rparr>) = real (mantissa u) * 2 powi - 52"
proof -
  let ?d = "u\<lparr>word0 := (word0 u AND Frac_mask) OR Exp_11\<rparr>"
  have "unat Exp_11 = push_bit 20 1023" by (simp add: Exp_11_def)
  then have "unat ((word0 u AND Frac_mask) OR Exp_11) = push_bit 20 1023 OR unat (word0 u AND Frac_mask)"
    by (simp only: unsigned_or_eq or.commute)
  then have w: "unat (word0 ?d) = unat (word0 u AND Frac_mask) + 1023 * 2 ^ 20" using or_low_bits [OF frac_bound, of 1023 u] by simp
  have f: "unat (word0 u AND Frac_mask) < 2 ^ 20" by (rule frac_bound)
  have "unat (word0 ?d) mod 2 ^ 31 = unat (word0 ?d)" using w f by simp
  then have e: "dbl_exp ?d = 1023" unfolding dbl_exp_field using w f by simp
  have fr: "unat (word0 ?d AND Frac_mask) = unat (word0 u AND Frac_mask)" unfolding low20 [of "word0 ?d"] w mod_mult_self1 using f by (rule mod_less)
  have m: "mantissa ?d = mantissa u" using fr assms by (simp add: mantissa_def dbl_high_def e)
  have "\<not> dbl_neg ?d" using unat_halves [of "word0 ?d"] w f by (auto simp: dbl_neg_def split: if_splits)
  then show "dbl_real ?d = real (mantissa u) * 2 powi - 52" by (simp add: dbl_real_def m dbl_scale_def e)
  show "finite_dbl ?d" by (simp add: finite_exp e)
qed

text \<open>
  \<open>scaled_to\<close>: \<open>d2\<close> is the number divided by the power of two below it. Of a denormal number the code takes the upper
  32 bits of the mantissa.
\<close>

definition scaled_to :: "dbl \<Rightarrow> dbl \<Rightarrow> int \<Rightarrow> bool" where
  "scaled_to u d2 i \<longleftrightarrow> finite_dbl d2 \<and> 2 powi i \<le> dbl_real u \<and> dbl_real u < 2 powi (i + 1) \<and> 1 \<le> dbl_real d2 \<and>
     dbl_real d2 \<le> dbl_real u / 2 powi i \<and> dbl_real u / 2 powi i - 1 / 2 ^ 31 \<le> dbl_real d2"

lemma powi_add: "(2::real) powi (a + b) = 2 powi a * 2 powi b"
  by (simp add: power_int_add)

lemma scaled_normal:
  assumes "pos_dbl u" "dbl_exp u \<noteq> 0"
  shows "scaled_to u (u\<lparr>word0 := (word0 u AND Frac_mask) OR Exp_11\<rparr>) (int (dbl_exp u) - 1023)"
proof -
  note d = unit_double [OF assms(2)]
  have sc: "dbl_scale u = (int (dbl_exp u) - 1023) + - 52" using assms(2) by (simp add: dbl_scale_def)
  have v: "dbl_real u = real (mantissa u) * 2 powi - 52 * 2 powi (int (dbl_exp u) - 1023)"
    unfolding pos_real [OF assms(1)] sc powi_add by simp
  have m: "real (2 ^ 52) \<le> real (mantissa u)" "real (mantissa u) < real (2 ^ 53)"
    using mantissa_normal [OF assms(2)] mantissa_less [of u] by (simp_all only: of_nat_le_iff of_nat_less_iff)
  have x: "1 \<le> real (mantissa u) * 2 powi - 52" "real (mantissa u) * 2 powi - 52 < 2"
    using m by (simp_all add: power_int_minus field_simps)
  have "1 * 2 powi (int (dbl_exp u) - 1023) \<le> dbl_real u" "dbl_real u < 2 * 2 powi (int (dbl_exp u) - 1023)"
    unfolding v using x by (intro mult_right_mono mult_strict_right_mono; simp)+
  moreover have "dbl_real u / 2 powi (int (dbl_exp u) - 1023) =
      dbl_real (u\<lparr>word0 := (word0 u AND Frac_mask) OR Exp_11\<rparr>)"
    unfolding d(2) by (simp only: v) simp
  moreover have "1 \<le> dbl_real (u\<lparr>word0 := (word0 u AND Frac_mask) OR Exp_11\<rparr>)" unfolding d(2) by (rule x(1))
  ultimately show ?thesis using d(1) unfolding scaled_to_def powi_Suc by simp
qed

lemma denormal_high_bits:
  assumes "dbl_exp u = 0" "\<not> dbl_neg u" "2 ^ (L - 1) \<le> mantissa u" "mantissa u < 2 ^ L" "0 < L"
  shows "unat (if 32 < L then push_bit (64 - L) (word0 u) OR drop_bit (L - 32) (word1 u) else push_bit (32 - L) (word1 u)) =
    mantissa u * 2 ^ 32 div 2 ^ L"
proof -
  have "unat (word0 u) mod 2 ^ 31 div 2 ^ 20 = 0" "unat (word0 u) = unat (word0 u) mod 2 ^ 31"
    using assms(1,2) unat_halves [of "word0 u"] by (simp_all add: dbl_exp_field dbl_neg_def)
  then have "unat (word0 u) < 2 ^ 20" by (simp add: div_eq_0_iff)
  then have h: "mantissa u = unat (word1 u) + 2 ^ 32 * unat (word0 u)"
    using assms(1) by (simp add: mantissa_def dbl_high_def low20)
  have lo: "unat (word1 u) < 2 ^ 32" by (rule unat32)
  have p: "(2::nat) ^ L = 2 ^ (L - n) * 2 ^ n" if "n \<le> L" for n using that by (simp flip: power_add)
  show ?thesis
  proof (cases "32 < L")
    case True
    have L: "L \<le> 64"
    proof (rule ccontr)
      assume "\<not> L \<le> 64"
      then have "(2::nat) ^ 64 \<le> 2 ^ (L - 1)" by (intro power_increasing) simp_all
      then show False using assms(3) mantissa_less [of u] by simp
    qed
    have q: "(2::nat) ^ 32 = 2 ^ (64 - L) * 2 ^ (L - 32)" using True L by (simp flip: power_add)
    have "2 ^ 32 * unat (word0 u) < 2 ^ 32 * 2 ^ (L - 32)" using h assms(4) p [of 32] True by (simp add: mult.commute)
    then have w: "unat (word0 u) < 2 ^ (L - 32)" by simp
    then have "unat (word0 u) * 2 ^ (64 - L) < 2 ^ 32" unfolding q by (simp add: mult.commute)
    then have a: "unat (push_bit (64 - L) (word0 u)) = push_bit (64 - L) (unat (word0 u))"
      by (simp only: unsigned_push_bit_eq) (simp add: push_bit_eq_mult take_bit_nat_eq_self)
    have d: "unat (drop_bit (L - 32) (word1 u)) = unat (word1 u) div 2 ^ (L - 32)" by (simp only: unat_drop_bit_eq drop_bit_eq_div [of _ "unat (word1 u)"])
    have "unat (word1 u) div 2 ^ (L - 32) < 2 ^ (64 - L)" using lo unfolding q by (rule less_mult_imp_div_less)
    then have "unat (push_bit (64 - L) (word0 u) OR drop_bit (L - 32) (word1 u)) =
        unat (word0 u) * 2 ^ (64 - L) + unat (word1 u) div 2 ^ (L - 32)"
      unfolding unsigned_or_eq a d by (rule or_low_bits)
    also have "\<dots> = mantissa u div 2 ^ (L - 32)"
    proof -
      have "mantissa u = unat (word1 u) + unat (word0 u) * 2 ^ (64 - L) * 2 ^ (L - 32)" unfolding h q by simp
      then show ?thesis by simp
    qed
    also have "\<dots> = mantissa u * 2 ^ 32 div 2 ^ L" using p [of 32] True by simp
    finally show ?thesis using True by simp
  next
    case False
    then have "(2::nat) ^ L \<le> 2 ^ 32" by (intro power_increasing) simp_all
    then have "2 ^ 32 * unat (word0 u) < 2 ^ 32" using h assms(4) by linarith
    then have m: "mantissa u = unat (word1 u)" using h by simp
    have q: "(2::nat) ^ 32 = 2 ^ (32 - L) * 2 ^ L" using False by (simp flip: power_add)
    have "unat (word1 u) * 2 ^ (32 - L) < 2 ^ 32" using assms(4) unfolding m q by simp
    then have "unat (push_bit (32 - L) (word1 u)) = unat (word1 u) * 2 ^ (32 - L)"
      by (simp only: unsigned_push_bit_eq) (simp add: push_bit_eq_mult take_bit_nat_eq_self)
    also have "\<dots> = mantissa u * 2 ^ 32 div 2 ^ L" unfolding m q mult.assoc [symmetric] by simp
    finally show ?thesis using False by simp
  qed
qed

lemma add_exp_unit:
  assumes "2 ^ 31 \<le> N" "N < 2 ^ 32"
  shows "finite_dbl (add_exp (- 31) (dbl_of_nat N))" "dbl_real (add_exp (- 31) (dbl_of_nat N)) = real N / 2 ^ 31"
proof -
  let ?v = "dbl_of_nat N"
  have n: "0 < N" "N < 2 ^ 53" using assms by simp_all
  obtain i where i: "dbl_exp ?v = i + 1023" "2 ^ i \<le> N" "N < 2 ^ Suc i" "real (mantissa ?v) * 2 powi - 52 = real N / 2 ^ i"
    by (rule nat_exponent [OF n])
  have "(2::nat) ^ i < 2 ^ 32" "(2::nat) ^ 31 < 2 ^ Suc i" using i(2,3) assms by linarith+
  then have "i < 32" "31 < Suc i" by (simp_all only: power_strict_increasing_iff one_less_numeral_iff semiring_norm)
  then have i31: "i = 31" by simp
  define w where "w = (word0 ?v AND Frac_mask) OR Exp_11"
  have e: "dbl_exp ?v \<noteq> 0" using i(1) by simp
  have f: "unat (word0 ?v AND Frac_mask) < 2 ^ 20" by (rule frac_bound)
  have "unat Exp_11 = push_bit 20 1023" by (simp add: Exp_11_def)
  then have "unat w = push_bit 20 1023 OR unat (word0 ?v AND Frac_mask)" unfolding w_def by (simp only: unsigned_or_eq or.commute)
  then have w: "unat w = unat (word0 ?v AND Frac_mask) + 1023 * 2 ^ 20" using or_low_bits [OF f, of 1023] by simp
  have m: "unat (word0 ?v) = unat (word0 ?v) mod 2 ^ 31"
    using unat_halves [of "word0 ?v"] dbl_of_nat_exact(1) [OF n(2)] by (simp add: pos_dbl_def dbl_neg_def)
  have "unat (word0 ?v) mod 2 ^ 31 div 2 ^ 20 = 1054" using i(1) i31 unfolding dbl_exp_field by simp
  then have q: "unat (word0 ?v) div 2 ^ 20 = 1054" unfolding m [symmetric] .
  have v: "unat (word0 ?v) = 1054 * 2 ^ 20 + unat (word0 ?v AND Frac_mask)"
    unfolding low20 using div_mult_mod_eq [of "unat (word0 ?v)" "2 ^ 20"] unfolding q by simp
  have "w + 31 * Exp_msk1 = word0 ?v"
    by (rule word_unat_eq_iff [THEN iffD2]) (use v w f in \<open>simp add: unat_word_ariths Exp_msk1_def\<close>)
  then have "word0 ?v + word_of_int (- 31) * Exp_msk1 = w" by (auto simp: algebra_simps)
  then have a: "add_exp (- 31) ?v = ?v\<lparr>word0 := (word0 ?v AND Frac_mask) OR Exp_11\<rparr>" by (simp add: add_exp_def w_def)
  show "finite_dbl (add_exp (- 31) ?v)" "dbl_real (add_exp (- 31) ?v) = real N / 2 ^ 31"
    unfolding a using unit_double [OF e] i(4) i31 by simp_all
qed

lemma scaled_denormal:
  assumes u: "pos_dbl u" "dbl_exp u = 0" and L: "2 ^ (L - 1) \<le> mantissa u" "mantissa u < 2 ^ L" "0 < L"
    and N: "N = mantissa u * 2 ^ 32 div 2 ^ L"
  shows "scaled_to u (add_exp (- 31) (dbl_of_nat N)) (int L - 1075)"
proof -
  have p: "2 * (2::nat) ^ (L - 1) = 2 ^ L" using L(3) by (cases L) simp_all
  have N1: "N * 2 ^ L \<le> mantissa u * 2 ^ 32" "mantissa u * 2 ^ 32 < (N + 1) * 2 ^ L"
  proof -
    have "N * 2 ^ L + mantissa u * 2 ^ 32 mod 2 ^ L = mantissa u * 2 ^ 32" unfolding N by (rule div_mult_mod_eq)
    moreover have "mantissa u * 2 ^ 32 mod 2 ^ L < 2 ^ L" by simp
    ultimately show "N * 2 ^ L \<le> mantissa u * 2 ^ 32" "mantissa u * 2 ^ 32 < (N + 1) * 2 ^ L"
      unfolding distrib_right mult_1 by linarith+
  qed
  have "2 ^ 31 * 2 ^ L \<le> mantissa u * 2 ^ 32" using L(1) p by simp
  then have lo: "2 ^ 31 \<le> N" unfolding N by (simp add: less_eq_div_iff_mult_less_eq)
  have "mantissa u * 2 ^ 32 < 2 ^ 32 * 2 ^ L" using L(2) by simp
  then have hi: "N < 2 ^ 32" unfolding N by (rule less_mult_imp_div_less)
  note d = add_exp_unit [OF lo hi]
  define x where "x = real (mantissa u) / 2 ^ (L - 1)"
  have sc: "dbl_scale u = - 1074" using u(2) by (simp add: dbl_scale_def)
  have t: "(2::real) powi (int L - 1075) = 2 ^ (L - 1) * 2 powi - 1074"
    using L(3) unfolding powi_shift by (simp add: of_nat_diff)
  have v: "dbl_real u = x * 2 powi (int L - 1075)" proof -
    have "real (mantissa u) * P = x * (2 ^ (L - 1) * P)" for P by (simp add: x_def)
    then show ?thesis unfolding pos_real [OF u(1)] sc t .
  qed
  have "real (N * 2 ^ L) \<le> real (mantissa u * 2 ^ 32)" "real (mantissa u * 2 ^ 32) < real ((N + 1) * 2 ^ L)"
    using N1 by (simp_all only: of_nat_le_iff of_nat_less_iff)
  moreover have "(2::real) ^ L = 2 * 2 ^ (L - 1)" using L(3) by (cases L) simp_all
  ultimately have x: "real N / 2 ^ 31 \<le> x" "x - 1 / 2 ^ 31 \<le> real N / 2 ^ 31"
    unfolding x_def by (simp_all add: field_simps)
  have "real (2 ^ 31) \<le> real N" using lo by (simp only: of_nat_le_iff)
  then have n1: "1 \<le> real N / 2 ^ 31" by simp
  have "real (mantissa u) < real (2 ^ L)" using L(2) by (simp only: of_nat_less_iff)
  then have "x < 2" using \<open>(2::real) ^ L = 2 * 2 ^ (L - 1)\<close> by (simp add: x_def divide_less_eq)
  then have b: "1 * 2 powi (int L - 1075) \<le> dbl_real u" "dbl_real u < 2 * 2 powi (int L - 1075)"
    unfolding v using n1 x(1) by (intro mult_right_mono mult_strict_right_mono; simp)+
  have "dbl_real u / 2 powi (int L - 1075) = x" unfolding v by simp
  with b x n1 d show ?thesis unfolding scaled_to_def powi_Suc by simp
qed

text \<open>\<open>split_exponent\<close> behind \<open>d2b\<close>.\<close>

lemma split_scaled:
  assumes u: "pos_dbl u" "mantissa u \<noteq> 0"
    and v: "mantissa u = vb * 2 ^ kz" "be = int (max 1 (dbl_exp u)) - 1075 + int kz"
    and n: "bbits = int n" "0 < n" "2 ^ (n - 1) \<le> vb" "vb < 2 ^ n"
  obtains d2 i where "split_exponent u be bbits = (d2, i, dbl_exp u = 0)" "scaled_to u d2 i" "bbits - i - 1 = - be" "\<bar>i\<bar> \<le> 1100"
proof -
  have w: "2 ^ (n + kz - 1) \<le> mantissa u" "mantissa u < 2 ^ (n + kz)"
  proof -
    have "2 ^ (n - 1) * 2 ^ kz \<le> vb * 2 ^ kz" "vb * 2 ^ kz < 2 ^ n * 2 ^ kz" using n by simp_all
    moreover have e: "n + kz - 1 = n - 1 + kz" using n(2) by simp
    ultimately show "2 ^ (n + kz - 1) \<le> mantissa u" "mantissa u < 2 ^ (n + kz)" unfolding e v(1) power_add by simp_all
  qed
  have le: "n + kz \<le> 53"
  proof (rule ccontr)
    assume "\<not> n + kz \<le> 53"
    then have "(2::nat) ^ 53 \<le> 2 ^ (n + kz - 1)" by (intro power_increasing) simp_all
    then show False using w(1) mantissa_less [of u] by simp
  qed
  define e where "e = uint (drop_bit Exp_shift (word0 u AND 0x7fffffff))"
  have e: "e = int (dbl_exp u)" by (simp only: e_def dbl_exp_def uint_nat)
  show thesis
  proof (cases "dbl_exp u = 0")
    case False
    have m: "2 ^ 52 \<le> mantissa u" "mantissa u < 2 ^ (52 + 1)" using mantissa_normal [OF False] mantissa_less [of u] by simp_all
    have "mantissa u < 2 ^ (n + kz - 1 + 1)" using w(2) n(2) by simp
    from bit_length_unique [OF w(1) this m] have nk: "n + kz - 1 = 52" .
    have "split_exponent u be bbits = (u\<lparr>word0 := (word0 u AND Frac_mask) OR Exp_11\<rparr>, int (dbl_exp u) - 1023, False)"
      unfolding split_exponent_def exponent_word e_def [symmetric] e using False by (simp add: Bias_def Let_def)
    moreover have "bbits - (int (dbl_exp u) - 1023) - 1 = - be" using v(2) n(1,2) nk False by simp
    moreover have "\<bar>int (dbl_exp u) - 1023\<bar> \<le> 1100" using dbl_exp_less [of u] by simp
    ultimately show thesis using scaled_normal [OF u(1) False] False by (intro that) simp_all
  next
    case True
    define L where "L = n + kz"
    have L: "2 ^ (L - 1) \<le> mantissa u" "mantissa u < 2 ^ L" "0 < L" "L \<le> 53" using w n(2) le by (simp_all add: L_def)
    have i: "bbits + be + (Bias + (P_bits - 1) - 1) = int L" using v(2) n(1) True by (simp add: Bias_def P_bits_def L_def)
    have x: "unat (if int L > 32 then push_bit (nat (64 - int L)) (word0 u) OR drop_bit (nat (int L - 32)) (word1 u)
        else push_bit (nat (32 - int L)) (word1 u)) = mantissa u * 2 ^ 32 div 2 ^ L"
    proof -
      have "nat (64 - int L) = 64 - L" "nat (int L - 32) = L - 32" "nat (32 - int L) = 32 - L" by linarith+
      then show ?thesis using denormal_high_bits [OF True _ L(1-3)] u(1) by (simp only: pos_dbl_def simp_thms) simp
    qed
    have "split_exponent u be bbits = (add_exp (- 31) (dbl_of_nat (mantissa u * 2 ^ 32 div 2 ^ L)), int L - 1075, True)"
      unfolding split_exponent_def exponent_word e_def [symmetric] e True Let_def i x by (simp add: Bias_def P_bits_def)
    moreover have "bbits - (int L - 1075) - 1 = - be" using v(2) n(1) True by (simp add: L_def)
    moreover have "\<bar>int L - 1075\<bar> \<le> 1100" using L(4) by simp
    ultimately show thesis using scaled_denormal [OF u(1) True L(1-3) refl] True
      by (intro that [of "add_exp (- 31) (dbl_of_nat (mantissa u * 2 ^ 32 div 2 ^ L))" "int L - 1075"]) (simp_all only: simp_thms)
  qed
qed

section \<open>The floor\<close>

lemma dneg_dneg: "dneg (dneg x) = x"
  by (simp add: dneg_def xor.assoc)

lemma dtrunc_dneg: "dtrunc (dneg x) = - dtrunc x"
  by (simp add: dtrunc_def mantissa_split dbl_scale_def bits_fields dneg_fields Let_def)

lemma dkey_dneg: "dkey (dneg x) = - dkey x"
  by (simp add: dkey_def dneg_fields)

lemma nan_dneg: "is_nan (dneg x) = is_nan x"
  by (simp add: is_nan_def dneg_fields)

lemma dkey_dzero: "dkey dzero = 0"
  by (simp add: dkey_def dzero_def dbl_bits_def)

text \<open>The truncation of the source, corrected for negative numbers, is the floor.\<close>

lemma floor_estimate:
  assumes x: "finite_dbl x" "\<bar>dbl_real x\<bar> < 1000"
  obtains k where "dbl_to_int (- (2 ^ 31)) (2 ^ 31 - 1) x = Inr k"
    "(if dless x dzero \<and> \<not> deq x (dbl_of_int k) then k - 1 else k) = \<lfloor>dbl_real x\<rfloor>"
proof (cases "dbl_neg x")
  case False
  then have p: "pos_dbl x" using x(1) by (simp add: pos_dbl_def)
  have z: "\<not> dless x dzero" using pos_order(1) [OF p dzero_pos(1)] pos_real [OF p] dzero_pos(2) by (simp add: not_less)
  have "- (2 ^ 31) \<le> dbl_real x" "dbl_real x < 2 ^ 31" using x(2) by simp_all
  then have "dbl_to_int (- (2 ^ 31)) (2 ^ 31 - 1) x = Inr \<lfloor>dbl_real x\<rfloor>" using x(1) unfolding dbl_to_int_def dtrunc_floor [OF p] by simp
  then show thesis using z by (intro that) simp_all
next
  case True
  define p where "p = dneg x"
  have xp: "x = dneg p" by (simp add: p_def dneg_dneg)
  have p: "pos_dbl p" using True x(1) by (simp add: p_def pos_dbl_def dneg_real dneg_fields)
  have r: "dbl_real x = - dbl_real p" by (simp add: xp dneg_real)
  have p0: "0 \<le> dbl_real p" using pos_real [OF p] by simp
  have f: "\<bar>\<lfloor>dbl_real p\<rfloor>\<bar> \<le> 1000" "0 \<le> \<lfloor>dbl_real p\<rfloor>" using x(2) r p0 by linarith+
  define n where "n = nat \<lfloor>dbl_real p\<rfloor>"
  have n: "\<lfloor>dbl_real p\<rfloor> = int n" using f(2) by (simp add: n_def)
  have n53: "n < 2 ^ 53" using f(1) n by simp
  note un = dbl_of_nat_exact [OF n53]
  have t: "dbl_to_int (- (2 ^ 31)) (2 ^ 31 - 1) x = Inr (- int n)"
    using x(1) f(1) n unfolding dbl_to_int_def xp dtrunc_dneg dtrunc_floor [OF p] by simp
  have neg: "dless x dzero \<longleftrightarrow> 0 < dbl_real p"
  proof -
    have "dless x dzero \<longleftrightarrow> dless dzero p"
      by (auto simp: dless_def xp dkey_dneg nan_dneg dkey_dzero)
    then show ?thesis using pos_order(1) [OF dzero_pos(1) p] dzero_pos(2) by simp
  qed
  have same: "deq x (dbl_of_int (- int n)) \<longleftrightarrow> dbl_real p = real n" if "0 < dbl_real p"
  proof (cases "n = 0")
    case True
    then have "deq x (dbl_of_int (- int n)) \<longleftrightarrow> deq p dzero"
      by (auto simp: deq_def dbl_of_int_def dzero_nat [symmetric] xp dkey_dneg nan_dneg dkey_dzero)
    then show ?thesis using pos_order(3) [OF p dzero_pos(1)] dzero_pos(2) True by simp
  next
    case False
    then have "deq x (dbl_of_int (- int n)) \<longleftrightarrow> deq p (dbl_of_nat n)"
      by (simp add: deq_def dbl_of_int_def xp dkey_dneg nan_dneg)
    then show ?thesis using pos_order(3) [OF p un(1)] un(2) by simp
  qed
  have "(if dless x dzero \<and> \<not> deq x (dbl_of_int (- int n)) then - int n - 1 else - int n) = \<lfloor>dbl_real x\<rfloor>"
  proof (cases "dbl_real p = real n")
    case True
    then have "dbl_real x = of_int (- int n)" unfolding r by simp
    then have "\<lfloor>dbl_real x\<rfloor> = - int n" by (simp only: floor_of_int)
    then show ?thesis using True neg same by auto
  next
    case False
    then have "real n < dbl_real p" "dbl_real p < real n + 1" using n by (simp_all add: floor_eq_iff)
    then have "\<lfloor>dbl_real x\<rfloor> = - int n - 1" "0 < dbl_real p" unfolding r by (simp_all add: floor_eq_iff)
    then show ?thesis using False neg same by simp
  qed
  with t show thesis by (rule that)
qed

section \<open>The decimal exponent\<close>

lemma ten_powi_less: "(10::real) powi a < 10 powi b \<longleftrightarrow> a < b"
  using power_int_strict_increasing [of a b "10::real"] power_int_increasing [of b a "10::real"] by (cases "a < b") auto

text \<open>Every positive double has a decimal exponent, in the range of the table.\<close>

lemma decimal_exponent_real:
  assumes "pos_dbl u" "0 < mantissa u"
  obtains K where "10 powi K \<le> dbl_real u" "dbl_real u < 10 powi (K + 1)" "- 324 \<le> K" "K \<le> 308"
proof -
  have X: "0 < dbl_real u" using assms pos_mantissa by blast
  define K where "K = \<lfloor>log 10 (dbl_real u)\<rfloor>"
  have "(10::real) powr of_int K \<le> dbl_real u \<and> dbl_real u < 10 powr of_int (K + 1)"
    using floor_log_eq_powr_iff [of "dbl_real u" 10 K] X by (simp add: K_def)
  moreover have "(10::real) powr of_int n = 10 powi n" for n by (rule powr_real_of_int') simp_all
  ultimately have K: "10 powi K \<le> dbl_real u" "dbl_real u < 10 powi (K + 1)" by (simp_all only: simp_thms)
  have "(10::real) powi - 324 \<le> 2 powi - 1074" by (simp add: power_int_minus field_simps)
  also have "\<dots> \<le> 2 powi dbl_scale u" by (rule power_int_increasing [OF dbl_scale_ge]) simp
  also have "\<dots> = 1 * 2 powi dbl_scale u" by simp
  also have "\<dots> \<le> dbl_real u" unfolding pos_real [OF assms(1)] using assms(2) by (intro mult_right_mono) simp_all
  finally have "(10::real) powi - 324 < 10 powi (K + 1)" using K(2) by linarith
  then have lo: "- 324 < K + 1" unfolding ten_powi_less .
  have "dbl_real u < 2 powi 1024" by (rule pos_less_top [OF assms(1)])
  also have "(2::real) powi 1024 \<le> 10 powi 309" by simp
  finally have "(10::real) powi K < 10 powi 309" using K(1) by linarith
  then have "K < 309" unfolding ten_powi_less .
  then have "- 324 \<le> K" "K \<le> 308" using lo by linarith+
  with K show thesis by (rule that)
qed

text \<open>
  The estimate of the source: the decimal exponent or one more; right when the code does not check, which is the
  case for the exponents from 0 to 21 at least.
\<close>

lemma estimate_right:
  assumes u: "pos_dbl u" "0 < mantissa u" and d2: "scaled_to u d2 i" "\<bar>i\<bar> \<le> 1100"
    and K: "10 powi K \<le> dbl_real u" "dbl_real u < 10 powi (K + 1)"
  obtains k c where "estimate_k u d2 i = Inr (k, c)" "k = K \<or> (c \<and> k = K + 1)" "0 \<le> K \<Longrightarrow> K \<le> 21 \<Longrightarrow> \<not> c"
proof -
  have x: "finite_dbl d2" "2 powi i \<le> dbl_real u" "dbl_real u < 2 powi (i + 1)" "1 \<le> dbl_real d2"
    "dbl_real d2 \<le> dbl_real u / 2 powi i" "dbl_real u / 2 powi i - 1 / 2 ^ 31 \<le> dbl_real d2"
    using d2(1) by (simp_all only: scaled_to_def)
  have range: "- 324 \<le> K" "K \<le> 308"
  proof -
    obtain K' where K': "10 powi K' \<le> dbl_real u" "dbl_real u < 10 powi (K' + 1)" "- 324 \<le> K'" "K' \<le> 308"
      by (rule decimal_exponent_real [OF u])
    have "(10::real) powi K < 10 powi (K' + 1)" "(10::real) powi K' < 10 powi (K + 1)" using K K' by linarith+
    then have "K = K'" unfolding ten_powi_less by simp
    then show "- 324 \<le> K" "K \<le> 308" using K'(3,4) by simp_all
  qed
  have "dbl_real u < 2 * 2 powi i" using x(3) unfolding powi_Suc .
  then have "dbl_real u / 2 powi i \<le> 2" by (simp add: divide_le_eq)
  then have d22: "dbl_real d2 \<le> 2" using x(5) by linarith
  note l = line_bounds [OF x(2,3) K range]
  have "dbl_real d2 - dbl_real u / 2 powi i \<le> 0" "- 1 / 2 ^ 31 \<le> dbl_real d2 - dbl_real u / 2 powi i" using x(5,6) by linarith+
  moreover have "log10_line (dbl_real d2) i - log10_line (dbl_real u / 2 powi i) i =
      (dbl_real d2 - dbl_real u / 2 powi i) * (289529654602168 / 10 ^ 15)"
    unfolding log10_line_def by (simp only: left_diff_distrib)
  ultimately have cut: "\<bar>log10_line (dbl_real d2) i - log10_line (dbl_real u / 2 powi i) i\<bar> \<le> 1 / 2 ^ 31" by simp
  note es = log10_estimate_near [OF x(1,4) d22 d2(2)]
  define ds where "ds = log10_estimate d2 i"
  have "\<bar>dbl_real ds - log10_line (dbl_real u / 2 powi i) i\<bar> \<le> 1 / 10 ^ 9"
    unfolding ds_def by (rule error_trans [OF es(2) cut]) simp
  then have "\<bar>dbl_real ds - log10_line (dbl_real u / 2 powi i) i\<bar> < 8 / 10 ^ 9" by (rule order.strict_trans1) simp
  then have ds: "of_int K < dbl_real ds" "dbl_real ds < of_int K + 2" using within [OF _ l] by blast+
  have fin: "finite_dbl ds" using es(1) by (simp add: ds_def)
  have "\<bar>dbl_real ds\<bar> < 1000" using ds range by linarith
  then obtain j where j: "dbl_to_int (- (2 ^ 31)) (2 ^ 31 - 1) ds = Inr j"
    "(if dless ds dzero \<and> \<not> deq ds (dbl_of_int j) then j - 1 else j) = \<lfloor>dbl_real ds\<rfloor>"
    by (rule floor_estimate [OF fin])
  define f where "f = \<lfloor>dbl_real ds\<rfloor>"
  have f: "f = K \<or> f = K + 1" using ds unfolding f_def by linarith
  have e: "estimate_k u d2 i = (if 0 \<le> f \<and> f \<le> Ten_pmax then Inr (if dless u (tens ! nat f) then f - 1 else f, False) else Inr (f, True))"
    unfolding estimate_k_def Let_def ds_def [symmetric] j(1) bindR_Inr j(2) f_def ..
  show thesis
  proof (cases "0 \<le> f \<and> f \<le> 22")
    case True
    then have n: "nat f < 23" "int (nat f) = f" by linarith+
    have t: "pos_dbl (tens ! nat f)" "dbl_real (tens ! nat f) = 10 powi f"
      using tens_nth [OF n(1)] power_int_of_nat [of "10::real" "nat f"] by (simp_all only: n(2))
    have "dless u (tens ! nat f) \<longleftrightarrow> f = K + 1"
    proof
      assume "dless u (tens ! nat f)"
      then have "dbl_real u < 10 powi f" using pos_order(1) [OF u(1) t(1)] t(2) by simp
      then show "f = K + 1" using f K(1) by auto
    next
      assume "f = K + 1"
      then show "dless u (tens ! nat f)" using pos_order(1) [OF u(1) t(1)] t(2) K(2) by simp
    qed
    then show thesis using True f e by (intro that [of K False]) (auto simp: Ten_pmax_def)
  next
    case False
    then show thesis using f e by (intro that [of f True]) (auto simp: Ten_pmax_def)
  qed
qed

text \<open>The estimate of an integer below \<open>10 ^ 15\<close> is its exponent.\<close>

lemma estimate_integer:
  assumes K: "10 ^ K \<le> n" "n < 10 ^ Suc K" "K < 15" and d: "d2b (dbl_of_nat n) al = Inr (b, be, bbits, u', al')"
  obtains d2 i where "split_exponent (dbl_of_nat n) be bbits = (d2, i, False)" "estimate_k (dbl_of_nat n) d2 i = Inr (int K, False)"
proof -
  let ?u = "dbl_of_nat n"
  have n: "0 < n" "n < 2 ^ 53" using K power_below [of "Suc K" n] by (simp_all add: order.strict_trans2 [OF _ K(1)])
  note u = dbl_of_nat_exact [OF n(2)]
  have m: "mantissa ?u \<noteq> 0" using pos_mantissa [OF u(1)] u(2) n(1) by simp
  obtain kz l where v: "mantissa ?u = value_of b * 2 ^ kz" "be = int (max 1 (dbl_exp ?u)) - 1075 + int kz"
    "bbits = int l" "0 < l" "2 ^ (l - 1) \<le> value_of b" "value_of b < 2 ^ l"
    using d2b_lemma [OF m, of al] d by auto
  obtain d2 i where s: "split_exponent ?u be bbits = (d2, i, dbl_exp ?u = 0)" "scaled_to ?u d2 i" "\<bar>i\<bar> \<le> 1100"
    by (rule split_scaled [OF u(1) m v])
  obtain i' where "dbl_exp ?u = i' + 1023" by (rule nat_exponent [OF n])
  then have e: "(dbl_exp ?u = 0) = False" by simp
  have "real (10 ^ K) \<le> real n" "real n < real (10 ^ Suc K)" using K by (simp_all only: of_nat_le_iff of_nat_less_iff)
  moreover have "(10::real) powi (int K + 1) = 10 powi int (Suc K)" by (simp add: add.commute)
  ultimately have "10 powi int K \<le> dbl_real ?u" "dbl_real ?u < 10 powi (int K + 1)" unfolding u(2) by (simp_all only: power_int_of_nat of_nat_power of_nat_numeral)
  then obtain k c where k: "estimate_k ?u d2 i = Inr (k, c)" "k = int K \<or> (c \<and> k = int K + 1)" "0 \<le> int K \<Longrightarrow> int K \<le> 21 \<Longrightarrow> \<not> c"
    using estimate_right [OF u(1) _ s(2,3)] m by blast
  have "\<not> c" using k(3) K(3) by simp
  with s(1) k(1,2) e show ?thesis by (intro that) auto
qed

end
