(* ===== verification/Strtod_Props.thy ===== *)
theory Strtod_Props
  imports Strtod_Scan
begin

text \<open>
  What \<open>strtod\<close> of src/src/common/dtoa.cc promises, and what it does where it breaks its promise.
\<close>

section \<open>Short numbers\<close>

lemma strtod_fraction:
  assumes "list_all is_dec ip" "list_all is_dec fp" "ip \<noteq> []" "length ip + length fp \<le> 15"
    and "0 < append_decimal 0 (ip @ fp)" and s: "s = ip @ CHR ''.'' # fp"
  obtains v where "strtod fuel s al = Inr (\<lparr>sr_value = v, sr_pos = length s, sr_erange = False\<rparr>, al)"
    "rounds_to v (real (append_decimal 0 (ip @ fp)) / 10 ^ length fp)"
proof -
  obtain sc V where sc: "strtod_scan s = Digits False sc (- sc_nf sc)" "sc_pos sc = length s"
    "acc (sc_y sc) (sc_z sc) (sc_nd sc) V" "0 < V" "sc_nd sc \<le> 15" "0 \<le> sc_nf sc" "sc_nf sc \<le> int (length fp)"
    "V * 10 ^ (length fp - nat (sc_nf sc)) = append_decimal 0 (ip @ fp)"
    by (rule strtod_scan_fraction [OF s assms(1-5)])
  have "(10::nat) ^ nat (sc_nd sc) \<le> 10 ^ 15" using sc(5) by (intro power_increasing) simp_all
  then have V: "V < 2 ^ 53" using sc(3) by (simp add: acc_def)
  note fd = first_digits_value [OF sc(3,5,4)]
  have nf: "sc_nf sc \<le> 15" using sc(7) assms(4) by linarith
  obtain v where v: "short_cut (sc_nd sc) (- sc_nf sc) (first_digits (sc_y sc) (sc_z sc) (sc_nd sc)) = Some v"
    "rounds_to v (real V / 10 ^ nat (sc_nf sc))"
    using short_cut_fraction [OF fd sc(4) V sc(5,6) nf] by blast
  have k: "min (sc_nd sc) (DBL_DIG + 1) = sc_nd sc" using sc(5) by (simp add: DBL_DIG_def)
  have run: "strtod fuel s al = Inr (\<lparr>sr_value = v, sr_pos = length s, sr_erange = False\<rparr>, al)"
    by (simp add: strtod_def sc(1,2) strtod_digits_def Let_def k v(1))
  have "length fp = nat (sc_nf sc) + (length fp - nat (sc_nf sc))" using sc(6,7) by simp
  then have "real (append_decimal 0 (ip @ fp)) / 10 ^ length fp =
      real (V * 10 ^ (length fp - nat (sc_nf sc))) / (10 ^ nat (sc_nf sc) * 10 ^ (length fp - nat (sc_nf sc)))"
    unfolding sc(8) [symmetric] by (metis power_add)
  also have "\<dots> = real V / 10 ^ nat (sc_nf sc)" by simp
  finally show ?thesis using run v(2) by (intro that) simp_all
qed

lemma StringToDouble_fraction:
  assumes "list_all dec_digit ip" "list_all dec_digit fp" "ip \<noteq> []" "length ip + length fp \<le> 15"
    and "0 < decimal (ip @ fp)"
  shows "\<exists>v. StringToDouble fuel (ip @ ''.'' @ fp) al = Inr ((v, True), al) \<and>
    rounds_to v (real (decimal (ip @ fp)) / 10 ^ length fp)"
proof -
  let ?s = "ip @ CHR ''.'' # fp"
  have d: "list_all is_dec ip" "list_all is_dec fp" using assms(1,2) by (simp_all add: is_dec_digit list_all_iff)
  obtain v where v: "strtod fuel ?s al = Inr (\<lparr>sr_value = v, sr_pos = length ?s, sr_erange = False\<rparr>, al)"
    "rounds_to v (real (append_decimal 0 (ip @ fp)) / 10 ^ length fp)"
    using strtod_fraction [OF d assms(3,4) assms(5) [unfolded decimal_def] refl] by blast
  obtain c cs where c: "ip = c # cs" using assms(3) by (cases ip) auto
  have "\<forall>x \<in> set ?s. x \<noteq> CHR 0x00" using d dec_not_special(4) by (auto simp: list_all_iff)
  then have cs: "c_str ?s = ?s" by (auto simp: c_str_def)
  have "is_dec c" using d(1) c by simp
  then have "\<not> isspace c" using dec_not_special(3) [of c] by (auto simp: isspace_def)
  then have "valid_func ?s" by (simp add: valid_func_def c)
  then have "StringToDouble fuel ?s al = Inr ((v, True), al)"
    by (simp add: StringToDouble_def StringToDoubleTraits_def cs v(1) StringToNumber_def)
  then show ?thesis using v(2) by (auto simp: decimal_def)
qed

text \<open>
  C12. A text of at most 15 decimal digits with a point, at least one digit before it, and a value
  that is not zero is converted to the nearest double, to the one with an even mantissa when two are
  as near; the whole text is used, and no number is allocated.
\<close>

theorem StringToDouble_rounds:
  assumes "list_all dec_digit ip" "list_all dec_digit fp" "ip \<noteq> []" "length ip + length fp \<le> 15"
    and "0 < decimal (ip @ fp)"
  shows "\<exists>v. StringToDouble fuel (ip @ ''.'' @ fp) al = Inr ((v, True), al) \<and>
    rounds_to v (real (decimal (ip @ fp)) / 10 ^ length fp)"
  using assms by (rule StringToDouble_fraction)

theorem StringToDouble_rounds_witness:
  "\<exists>v. StringToDouble 0 ''3.25'' alloc_init = Inr ((v, True), alloc_init) \<and> rounds_to v (325 / 100)"
  using StringToDouble_rounds [of "''3''" "''25''" 0 alloc_init]
  by (simp add: dec_digit_def digit_int_def decimal_def append_decimal_def)

end
