(* ===== verification/Dtoa_Integers.thy ===== *)
theory Dtoa_Integers
  imports Dtoa_Estimate Strtod_Props
begin

text \<open>
  What \<open>dtoa\<close> (src/src/common/dtoa.cc) prints for integers below \<open>10 ^ 15\<close> in mode 0: the estimate of
  the exponent is right after its correction, and the loop over floating-point digits is exact.
\<close>

section \<open>The digits\<close>

lemma long_digit_props:
  assumes "n \<le> 9"
  shows "digit_int (long_digit (int n)) = int n" "dec_digit (long_digit (int n))" "long_digit (int n) = CHR ''0'' \<longleftrightarrow> n = 0"
proof -
  have "nat ((48 + int n) mod 256) = n + 48" using assms by simp
  then have c: "long_digit (int n) = char_of (n + 48 :: nat)" by (simp add: long_digit_def)
  show v: "digit_int (long_digit (int n)) = int n" unfolding c by (rule digit_of [OF assms])
  then show "dec_digit (long_digit (int n))" using assms by (simp add: dec_digit_def)
  have z: "digit_int (CHR ''0'') = 0" "(char_of (0 + 48 :: nat) :: char) = CHR ''0''"
    by (simp_all add: digit_int_def char_of_def bit_0)
  show "long_digit (int n) = CHR ''0'' \<longleftrightarrow> n = 0"
  proof
    assume "long_digit (int n) = CHR ''0''"
    with v z(1) show "n = 0" by (simp only: of_nat_eq_0_iff)
  next
    assume "n = 0"
    then show "long_digit (int n) = CHR ''0''" unfolding c by (simp only: z(2))
  qed
qed

text \<open>One digit: the quotient, the remainder, and the number the digits so far stand for.\<close>

lemma integer_step:
  assumes "k \<le> 14" "0 < a" "a < 10 ^ Suc k"
  shows "integer_digits (Suc n) ilim i (dbl_of_nat a) (dbl_of_nat (10 ^ k)) s kk =
    (let s = s @ [long_digit (int (a div 10 ^ k))] in
     if a mod 10 ^ k = 0 then Inr (s, kk)
     else if i = ilim then
       let u = dadd (dbl_of_nat (a mod 10 ^ k)) (dbl_of_nat (a mod 10 ^ k)) in
       Inr (if dless (dbl_of_nat (10 ^ k)) u \<or> (deq u (dbl_of_nat (10 ^ k)) \<and> odd (a div 10 ^ k)) then roundoff s kk else (s, kk))
     else integer_digits n ilim (i + 1) (dbl_of_nat (a mod 10 ^ k * 10)) (dbl_of_nat (10 ^ k)) s kk)"
proof -
  have a: "a < 2 ^ 53" using assms(1) by (intro power_below [OF _ assms(3)]) simp
  have "(10::nat) ^ k \<le> 10 ^ 14" using assms(1) by (intro power_increasing) simp_all
  then have d: "(10::nat) ^ k < 2 ^ 53" by (rule order.strict_trans1) simp
  have q: "a div 10 ^ k \<le> a" "a div 10 ^ k * 10 ^ k \<le> a" by (simp_all add: div_le_dividend)
  have t: "dbl_to_Long (ddiv (dbl_of_nat a) (dbl_of_nat (10 ^ k))) = Inr (int (a div 10 ^ k))"
    unfolding dbl_to_Long_def using assms \<open>10 ^ k \<le> 10 ^ 14\<close> a by (intro ddiv_nat_trunc) simp_all
  have i: "dbl_of_int (int (a div 10 ^ k)) = dbl_of_nat (a div 10 ^ k)" by (simp add: dbl_of_int_def)
  have m: "dmul (dbl_of_nat (a div 10 ^ k)) (dbl_of_nat (10 ^ k)) = dbl_of_nat (a div 10 ^ k * 10 ^ k)"
    using q a d by (intro dmul_nat) linarith+
  have "dsub (dbl_of_nat a) (dbl_of_nat (a div 10 ^ k * 10 ^ k)) = dbl_of_nat (a - a div 10 ^ k * 10 ^ k)"
    by (rule dsub_nat [OF q(2) a])
  also have "a - a div 10 ^ k * 10 ^ k = a mod 10 ^ k" by (rule minus_div_mult_eq_mod)
  finally have s: "dsub (dbl_of_nat a) (dbl_of_nat (a div 10 ^ k * 10 ^ k)) = dbl_of_nat (a mod 10 ^ k)" .
  have r: "a mod 10 ^ k < 10 ^ k" by simp
  have r10: "a mod 10 ^ k * 10 < 2 ^ 53" using r assms(1) by (intro power_below [of "Suc k"]) simp_all
  have "dbl_lit 10 1 = dbl_of_nat 10" by (simp add: dbl_lit_def dbl_of_nat_def)
  moreover have "dmul (dbl_of_nat (a mod 10 ^ k)) (dbl_of_nat 10) = dbl_of_nat (a mod 10 ^ k * 10)"
    using r10 by (intro dmul_nat) simp_all
  moreover have "deq (dbl_of_nat (a mod 10 ^ k)) dzero \<longleftrightarrow> a mod 10 ^ k = 0"
    unfolding dzero_nat using r10 by (intro nat_order) simp_all
  ultimately show ?thesis by (simp add: integer_digits.simps t i m s Let_def)
qed

lemma dvd_short:
  fixes a :: nat
  assumes "0 < a" "a < 10 ^ Suc k" "10 ^ j dvd a"
  shows "j \<le> k"
proof (rule ccontr)
  assume "\<not> j \<le> k"
  then have "(10::nat) ^ Suc k \<le> 10 ^ j" by (intro power_increasing) simp_all
  then show False using dvd_imp_le [OF assms(3,1)] assms(2) by linarith
qed

lemma integer_digits_prints:
  assumes "k \<le> 14" "0 < a" "a < 10 ^ Suc k" "10 ^ length s dvd a" "k \<le> length s + n"
    and s: "list_all dec_digit s" "if s = [] then 10 ^ k \<le> a else hd s \<noteq> CHR ''0''"
    and V: "decimal s * 10 ^ Suc k + a = V * 10 ^ length s" and i: "ilim < i"
  shows "\<exists>s'. integer_digits (Suc n) ilim i (dbl_of_nat a) (dbl_of_nat (10 ^ k)) s kk = Inr (s', kk) \<and>
    length s' \<le> Suc k \<and> prints s' (Suc k - length s') V"
  using assms(2-5) s V i
proof (induction n arbitrary: a s i)
  have *: "prints s1 (Suc k - length s1) V \<and> length s1 \<le> Suc k"
    if s1: "s1 = s @ [long_digit (int (a div 10 ^ k))]" and z: "a mod 10 ^ k = 0" and a: "0 < a" "a < 10 ^ Suc k" "10 ^ length s dvd a"
      and s: "list_all dec_digit s" "if s = [] then 10 ^ k \<le> a else hd s \<noteq> CHR ''0''"
      and V: "decimal s * 10 ^ Suc k + a = V * 10 ^ length s" for a s s1
  proof -
    have q: "a div 10 ^ k \<le> 9" using less_mult_imp_div_less [of a 10 "10 ^ k"] a(2) by simp
    note d = long_digit_props [OF q]
    note L = dvd_short [OF a]
    have aq: "a = a div 10 ^ k * 10 ^ k" using z by (metis add.right_neutral div_mult_mod_eq)
    then have q0: "a div 10 ^ k \<noteq> 0" using a(1) by (metis less_irrefl mult_0)
    have "decimal s1 * 10 ^ k = decimal s * 10 ^ Suc k + a div 10 ^ k * 10 ^ k"
      by (simp add: s1 d(1) distrib_right)
    also have "\<dots> = decimal s * 10 ^ Suc k + a" unfolding aq [symmetric] ..
    also have "\<dots> = V * 10 ^ length s" by (rule V)
    finally have "decimal s1 * 10 ^ (k - length s) * 10 ^ length s = V * 10 ^ length s"
      using L by (simp add: mult.assoc power_add [symmetric])
    then have "decimal s1 * 10 ^ (k - length s) = V" by simp
    moreover have "hd s1 \<noteq> CHR ''0''" using s(2) d(3) q0 by (cases s) (simp_all add: s1)
    ultimately show ?thesis using s(1) d q0 L by (simp add: prints_def s1)
  qed
  {
    case 0
    have "length s = k" using dvd_short [OF 0(1-3)] 0(4) by simp
    then have "10 ^ k dvd a" using 0(3) by simp
    then have z: "a mod 10 ^ k = 0" by simp
    show ?case
      using * [OF refl z 0(1-3) 0(5-7)] by (simp add: integer_step [OF assms(1) 0(1,2)] z)
  next
    case (Suc n)
    let ?s = "s @ [long_digit (int (a div 10 ^ k))]"
    show ?case
    proof (cases "a mod 10 ^ k = 0")
      case True
      then show ?thesis using * [OF refl True Suc.prems(1-3) Suc.prems(5-7)] by (simp add: integer_step [OF assms(1) Suc.prems(1,2)])
    next
      case False
      have q: "a div 10 ^ k \<le> 9" using less_mult_imp_div_less [of a 10 "10 ^ k"] Suc.prems(2) by simp
      note d = long_digit_props [OF q]
      note L = dvd_short [OF Suc.prems(1-3)]
      let ?a = "a mod 10 ^ k * 10"
      have dv: "10 ^ length ?s dvd ?a"
        using Suc.prems(3) le_imp_power_dvd [OF L, of "10::nat"] by (simp add: dvd_mod)
      have hd: "if ?s = [] then 10 ^ k \<le> ?a else hd ?s \<noteq> CHR ''0''"
      proof (cases s)
        case Nil
        then have "a div 10 ^ k \<noteq> 0" using Suc.prems(6) by (simp add: div_eq_0_iff)
        then show ?thesis using Nil d(3) by simp
      next
        case (Cons c cs)
        then show ?thesis using Suc.prems(6) by simp
      qed
      have "decimal ?s * 10 ^ Suc k + ?a = 10 * (decimal s * 10 ^ Suc k + (a div 10 ^ k * 10 ^ k + a mod 10 ^ k))"
        unfolding decimal_snoc d(1) by (simp add: distrib_right)
      also have "\<dots> = 10 * (V * 10 ^ length s)" by (simp only: div_mult_mod_eq Suc.prems(7))
      also have "\<dots> = V * 10 ^ length ?s" by simp
      finally have v: "decimal ?s * 10 ^ Suc k + ?a = V * 10 ^ length ?s" .
      have "\<exists>s'. integer_digits (Suc n) ilim (i + 1) (dbl_of_nat ?a) (dbl_of_nat (10 ^ k)) ?s kk = Inr (s', kk) \<and>
          length s' \<le> Suc k \<and> prints s' (Suc k - length s') V"
        by (rule Suc.IH) (use False dv hd v Suc.prems(4,5,8) d(2) in simp_all)
      then show ?thesis using False Suc.prems(8) by (simp add: integer_step [OF assms(1) Suc.prems(1,2)] Let_def)
    qed
  }
qed

section \<open>The parts of an integer\<close>

lemma dtoa_special_pos:
  assumes u: "pos_dbl u" "0 < mantissa u"
  shows "dtoa_special u = (False, u, None)"
proof -
  have s: "Sign_bit = push_bit 31 1" "NOT Sign_bit = 0x7fffffff" by (simp_all add: Sign_bit_def)
  have n: "word0 u AND Sign_bit = 0" using u(1) by (simp add: s(1) pos_dbl_def dbl_neg_def bit_iff_and_push_bit_not_eq_0)
  have e: "word0 u AND Exp_mask \<noteq> Exp_mask"
  proof
    assume "word0 u AND Exp_mask = Exp_mask"
    then have "drop_bit Exp_shift (word0 u) AND drop_bit Exp_shift Exp_mask = drop_bit Exp_shift Exp_mask" by (metis drop_bit_and)
    then have "dbl_exp u = unat (drop_bit Exp_shift Exp_mask)" unfolding dbl_exp_def exponent_word [symmetric] by simp
    then show False using u(1) by (simp add: pos_dbl_def finite_exp Exp_shift_def Exp_mask_def)
  qed
  have z: "\<not> (word0 u AND NOT Sign_bit = 0 \<and> word1 u = 0)"
  proof
    assume "word0 u AND NOT Sign_bit = 0 \<and> word1 u = 0"
    then have "dbl_bits u = 0" by (simp add: dbl_bits_def s(2))
    then show False using u(2) by (simp add: mantissa_split bits_fields)
  qed
  show ?thesis using n e z by (simp add: dtoa_special_def)
qed

lemma pos_word: "pos_dbl u \<Longrightarrow> u\<lparr>word0 := word0 u AND 0x7fffffff\<rparr> = u"
proof (rule dbl_eqI)
  have "(word0 u AND 0x7fffffff) AND 0x7fffffff = word0 u AND 0x7fffffff" by (simp only: and.assoc and.idem)
  then show "dbl_bits (u\<lparr>word0 := word0 u AND 0x7fffffff\<rparr>) = dbl_bits u" by (simp add: dbl_bits_def)
  have "\<not> bit (0x7fffffff :: 32 word) 31" by simp
  moreover assume "pos_dbl u"
  ultimately show "dbl_neg (u\<lparr>word0 := word0 u AND 0x7fffffff\<rparr>) = dbl_neg u" by (simp add: dbl_neg_def bit_and_iff pos_dbl_def)
qed

text \<open>The binary exponent of the odd part of an integer is not negative.\<close>

lemma d2b_integer:
  assumes "0 < n" "n < 2 ^ 53"
  obtains b be bbits al' where "d2b (dbl_of_nat n) al = Inr (b, be, bbits, dbl_of_nat n, al')" "0 \<le> be"
proof -
  let ?u = "dbl_of_nat n"
  note u = dbl_of_nat_exact [OF assms(2)]
  have m: "mantissa ?u \<noteq> 0" using pos_mantissa [OF u(1)] u(2) assms(1) by simp
  obtain b be bbits al' k where d: "d2b ?u al = Inr (b, be, bbits, ?u, al')" "odd (value_of b)"
    "mantissa ?u = value_of b * 2 ^ k" "be = int (max 1 (dbl_exp ?u)) - 1075 + int k"
    using d2b_lemma [OF m, of al] pos_word [OF u(1)] by auto
  have "real n = real (value_of b * 2 ^ k) * 2 powi dbl_scale ?u" using pos_real [OF u(1)] u(2) d(3) by simp
  also have "\<dots> = real (value_of b) * (2 ^ k * 2 powi dbl_scale ?u)" by simp
  also have "\<dots> = real (value_of b) * 2 powi be" unfolding powi_shift d(4) dbl_scale_def by (simp add: add.commute)
  finally have n: "real n = real (value_of b) * 2 powi be" .
  have "0 \<le> be"
  proof (rule ccontr)
    assume "\<not> 0 \<le> be"
    then have be: "be \<le> 0" "0 < nat (- be)" by simp_all
    from powi_split [OF be(1)] have "2 ^ nat (- be) * 2 powi be = (1 :: real)" by simp
    then have "real n * 2 ^ nat (- be) = real (value_of b)" unfolding n by (simp add: mult.assoc mult.commute [of "2 powi be"])
    then have "real (n * 2 ^ nat (- be)) = real (value_of b)" by simp
    then have "n * 2 ^ nat (- be) = value_of b" by (simp only: of_nat_eq_iff)
    moreover have "even (n * 2 ^ nat (- be))" using be(2) by simp
    ultimately show False using d(2) by simp
  qed
  with d(1) show ?thesis by (rule that)
qed

lemma decimal_exponent:
  fixes n :: nat
  assumes "0 < n" "n < 10 ^ 15"
  obtains K where "10 ^ K \<le> n" "n < 10 ^ Suc K" "K < 15"
proof -
  define K where "K = (LEAST k. n < 10 ^ Suc k)"
  have "n < 10 ^ Suc 14" using assms(2) by simp
  then have K: "n < 10 ^ Suc K" "K \<le> 14" unfolding K_def by (rule LeastI, rule Least_le)
  have "10 ^ K \<le> n"
  proof (cases K)
    case (Suc j)
    then have "j < K" by simp
    then have "\<not> n < 10 ^ Suc j" unfolding K_def by (rule not_less_Least)
    then show ?thesis by (simp add: Suc)
  qed (use assms(1) in simp)
  moreover have "K < 15" using K(2) by linarith
  ultimately show ?thesis using K(1) by (intro that)
qed

section \<open>Printing and reading\<close>

lemma digit_zero: "digit_int (CHR ''0'') = 0"
  by (simp add: digit_int_def)

lemma decimal_trailing: "decimal (s @ replicate n (CHR ''0'')) = decimal s * 10 ^ n"
proof (induction n)
  case (Suc n)
  have "s @ replicate (Suc n) (CHR ''0'') = (s @ replicate n (CHR ''0'')) @ [CHR ''0'']" by (simp add: replicate_append_same)
  then show ?case using Suc by (simp only: decimal_snoc digit_zero) simp
qed simp

lemma dtoa_integer:
  assumes "0 < n" "n < 10 ^ 15" "15 \<le> fuel"
  obtains out al' where "dtoa fuel (dbl_of_nat n) 0 ndigits prev al = Inr (out, al')" "\<not> do_sign out"
    "10 ^ (nat (do_decpt out) - 1) \<le> n" "n < 10 ^ nat (do_decpt out)" "length (rv_chars (do_string out)) \<le> nat (do_decpt out)"
    "prints (rv_chars (do_string out)) (nat (do_decpt out) - length (rv_chars (do_string out))) n"
proof -
  let ?u = "dbl_of_nat n" and ?al = "free_last prev al"
  obtain K where K: "10 ^ K \<le> n" "n < 10 ^ Suc K" "K < 15" by (rule decimal_exponent [OF assms(1,2)])
  have n: "n < 2 ^ 53" by (rule power_below [OF _ assms(2)]) simp
  note u = dbl_of_nat_exact [OF n]
  have m: "0 < mantissa ?u" using pos_mantissa [OF u(1)] u(2) assms(1) by simp
  obtain b be bbits al1 where d: "d2b ?u ?al = Inr (b, be, bbits, ?u, al1)" "0 \<le> be" by (rule d2b_integer [OF assms(1) n])
  obtain d2 i where e: "split_exponent ?u be bbits = (d2, i, False)" "estimate_k ?u d2 i = Inr (int K, False)"
    by (rule estimate_integer [OF K d(1)])
  define dm where "dm = choose_mode 0 ndigits (int K)"
  have dm: "dm_ilim dm = - 1" "dm_ndigits dm = 0" "dm_i dm = 18" by (simp_all add: dm_def choose_mode_def)
  obtain rv res al2 where rv: "rv_alloc 18 al1 = (rv, res, al2)" by (metis prod_cases3)
  have room: "18 + 1 \<le> rv_room (rv_k rv)" using rv_alloc_fields [OF rv] rv_class_room [of 4 0 18] by simp
  obtain f where f: "fuel = Suc f" "K \<le> f" using assms(3) K(3) by (cases fuel) auto
  have k14: "K \<le> 14" and t: "tens ! K = dbl_of_nat (10 ^ K)" using K(3) by (simp_all add: tens_def dbl_lit_def dbl_of_nat_def)
  obtain s where s: "integer_digits (Suc f) (- 1) 1 ?u (dbl_of_nat (10 ^ K)) [] (int K) = Inr (s, int K)"
    "length s \<le> Suc K" "prints s (Suc K - length s) n"
    using integer_digits_prints [OF k14 assms(1) K(2), of "[]" f n "- 1" 1 "int K"] f(2) K(1) by auto
  have q: "quick_digits dm ?u (int K) False = Inr None" by (simp add: quick_digits_def dm)
  have si: "small_integer fuel dm ?u (int K) = Inr (s, int K)" using s(1) by (simp add: small_integer_def Let_def dm t f(1))
  have dd: "dtoa_digits fuel dm be bbits ?u b i False (int K) False al2 = Inr (s, int K, Bfree (Some b) al2)"
    using d(2) k14 by (simp add: dtoa_digits_def q si Int_max_def)
  have len: "Suc (length s) \<le> rv_room (rv_k rv)" using s(2) room k14 by linarith
  have run: "dtoa fuel ?u 0 ndigits prev al =
      Inr (\<lparr>do_string = rv\<lparr>rv_chars := s\<rparr>, do_decpt = int K + 1, do_sign = False\<rparr>, Bfree (Some b) al2)"
    by (simp add: dtoa_def dtoa_special_pos [OF u(1) m] d(1) e dm_def [symmetric] dm(3) rv dd len)
  have "nat (int K + 1) = Suc K" by simp
  then show ?thesis using K s(2,3) by (intro that [OF run]) simp_all
qed

text \<open>
  In mode 0 \<open>dtoa\<close> prints every integer from 1 up to \<open>10 ^ 15\<close> exactly: the digits have neither a leading nor a
  trailing zero, the number is the digits followed by zeros up to the decimal point, the exponent is the number of
  digits before the point, and the sign is not set. Fifteen rounds of the loop are enough, whatever was printed before.
\<close>

theorem dtoa_prints_integers:
  assumes "0 < n" "n < 10 ^ 15" "15 \<le> fuel"
  shows "\<exists>out al'. dtoa fuel (dbl_of_nat n) 0 ndigits prev al = Inr (out, al') \<and> \<not> do_sign out \<and>
    10 ^ (nat (do_decpt out) - 1) \<le> n \<and> n < 10 ^ nat (do_decpt out) \<and>
    prints (rv_chars (do_string out)) (nat (do_decpt out) - length (rv_chars (do_string out))) n"
  by (rule dtoa_integer [OF assms]) blast

theorem dtoa_prints_integers_witness:
  "\<exists>out al'. dtoa 15 (dbl_of_nat 120000) 0 0 None alloc_init = Inr (out, al') \<and> \<not> do_sign out \<and>
    (10::nat) ^ (nat (do_decpt out) - 1) \<le> 120000"
  using dtoa_prints_integers [of 120000 15 0 None alloc_init] by auto

text \<open>
  What \<open>dtoa\<close> prints for an integer below \<open>10 ^ 14\<close>, written out with the zeros up to the decimal
  point and one decimal, is read by \<open>StringToDouble\<close> as the same double, whatever the state of the
  free lists is when it is read.
\<close>

theorem integer_roundtrip:
  assumes "0 < n" "n < 10 ^ 14" "15 \<le> fuel"
  shows "\<exists>out al'. dtoa fuel (dbl_of_nat n) 0 ndigits prev al = Inr (out, al') \<and>
    (let s = rv_chars (do_string out); zeros = replicate (nat (do_decpt out) - length s) (CHR ''0'') in
     \<forall>rounds al2. StringToDouble rounds ((s @ zeros) @ ''.'' @ ''0'') al2 = Inr ((dbl_of_nat n, True), al2))"
proof -
  have "n < 10 ^ 15" using assms(2) by simp
  then obtain out al' where o: "dtoa fuel (dbl_of_nat n) 0 ndigits prev al = Inr (out, al')" "\<not> do_sign out"
    "10 ^ (nat (do_decpt out) - 1) \<le> n" "n < 10 ^ nat (do_decpt out)" "length (rv_chars (do_string out)) \<le> nat (do_decpt out)"
    "prints (rv_chars (do_string out)) (nat (do_decpt out) - length (rv_chars (do_string out))) n"
    by (rule dtoa_integer [OF assms(1) _ assms(3)])
  define s where "s = rv_chars (do_string out)"
  define m where "m = nat (do_decpt out) - length s"
  let ?ip = "s @ replicate m (CHR ''0'')"
  have p: "s \<noteq> []" "list_all dec_digit s" "decimal s * 10 ^ m = n" using o(6) by (simp_all add: prints_def s_def m_def)
  have "(10::nat) ^ (nat (do_decpt out) - 1) < 10 ^ 14" using o(3) assms(2) by (rule order.strict_trans1)
  then have dp: "nat (do_decpt out) - 1 < 14" by (rule power_less_imp_less_exp [rotated]) simp
  have zd: "list_all dec_digit (replicate j (CHR ''0''))" for j by (simp add: list_all_iff dec_digit_def digit_zero)
  have d: "list_all dec_digit ?ip" "list_all dec_digit ''0''" using p(2) zd [of m] by (simp_all add: dec_digit_def digit_zero)
  have l: "length ?ip + length ''0'' \<le> 15" using dp o(5) by (simp add: m_def s_def)
  have v: "decimal (?ip @ ''0'') = n * 10" unfolding decimal_snoc decimal_trailing p(3) digit_zero by simp
  have "\<forall>rounds al2. StringToDouble rounds (?ip @ ''.'' @ ''0'') al2 = Inr ((dbl_of_nat n, True), al2)"
  proof (intro allI)
    fix rounds al2
    obtain w where w: "StringToDouble rounds (?ip @ ''.'' @ ''0'') al2 = Inr ((w, True), al2)" "rounds_to w (real (n * 10) / 10 ^ length ''0'')"
      using StringToDouble_fraction [OF d _ l, of rounds al2] p(1) assms(1) v by auto
    have n53: "n < 2 ^ 53" by (rule power_below [OF _ \<open>n < 10 ^ 15\<close>]) simp
    note u = dbl_of_nat_exact [OF n53]
    have "\<bar>dbl_real w - real n\<bar> \<le> \<bar>dbl_real (dbl_of_nat n) - real n\<bar>" "finite_dbl w"
      using w(2) u by (auto simp: rounds_to_def pos_dbl_def)
    then have wr: "dbl_real w = real n" by (simp add: u)
    moreover have "dbl_real w \<le> 0" if "dbl_neg w" using that by (simp add: dbl_real_def)
    ultimately have "pos_dbl w" using \<open>finite_dbl w\<close> assms(1) by (auto simp: pos_dbl_def)
    then have "w = dbl_of_nat n" using wr n53 by (rule nat_dblI)
    with w(1) show "StringToDouble rounds (?ip @ ''.'' @ ''0'') al2 = Inr ((dbl_of_nat n, True), al2)" by simp
  qed
  with o(1) show ?thesis by (auto simp: Let_def s_def m_def)
qed

theorem integer_roundtrip_witness:
  "\<exists>out al'. dtoa 20 (dbl_of_nat 4096) 0 0 None alloc_init = Inr (out, al') \<and>
    (let s = rv_chars (do_string out); zeros = replicate (nat (do_decpt out) - length s) (CHR ''0'') in
     StringToDouble 0 ((s @ zeros) @ ''.'' @ ''0'') al' = Inr ((dbl_of_nat 4096, True), al'))"
  using integer_roundtrip [of 4096 20 0 None alloc_init] by (fastforce simp: Let_def)

end
