(* ===== verification/Dtoa_Correct.thy ===== *)
theory Dtoa_Correct
  imports Dtoa_Free Dtoa_Integers
begin

text \<open>
  \<open>dtoa\<close> in mode 0 (src/src/common/dtoa.cc), as a whole: for every finite \<open>double\<close> that is not zero it prints
  the shortest string that is read as the \<open>double\<close>. The estimate of the exponent is the one of
  \<open>Dtoa_Estimate\<close>, small integers are those of \<open>Dtoa_Integers\<close>, and all other numbers go through the loop of
  \<open>Dtoa_Free\<close>.
\<close>

section \<open>No shorter number\<close>

lemma ten_powi_nat: "0 \<le> a \<Longrightarrow> (10::real) powi a = real (10 ^ nat a)"
  by (simp add: power_int_def)

lemma ten_powi_add: "(10::real) powi (a + b) = 10 powi a * 10 powi b"
  by (simp add: power_int_add)

lemma reads_between:
  assumes "reads incl u X" "X \<le> Y" "Y \<le> dbl_real u"
  shows "reads incl u Y"
proof -
  have "Y < dbl_real u + unit_of u / 2" using assms(3) by (rule le_less_trans) simp
  then show ?thesis using assms(1,2) unfolding reads_def by (cases incl; simp only: if_True if_False; linarith)
qed

lemma reads_pos:
  assumes "pos_dbl u" "0 < mantissa u" "reads incl u X"
  shows "0 < X"
proof -
  have "1 * unit_of u \<le> dbl_real u" unfolding pos_real [OF assms(1)] unit_of_def using assms(2) by (intro mult_right_mono) simp_all
  then have "unit_of u / 2 < dbl_real u" using unit_pos [of u] by linarith
  then show ?thesis using assms(3) lower_margin_le [of u] unfolding reads_def by (cases incl; simp only: if_True if_False; linarith)
qed

text \<open>
  When no multiple of \<open>10 ^ (K - j)\<close> with \<open>j < n\<close> is read as the number, which has the exponent \<open>K\<close>, no number with \<open>n\<close>
  digits is, whatever its exponent.
\<close>

lemma none_shorter:
  assumes u: "pos_dbl u" "0 < mantissa u" and K: "10 powi K \<le> dbl_real u"
    and none: "\<forall>j<n. \<forall>w. \<not> reads incl u (real w * 10 powi (K - int j))" and w: "w < 10 ^ n"
  shows "\<not> reads incl u (real w * 10 powi e)"
proof
  assume r: "reads incl u (real w * 10 powi e)"
  have w0: "0 < w" using reads_pos [OF u r] by (cases w) simp_all
  have n: "0 < n" using w w0 by (cases n) simp_all
  show False
  proof (cases "real w * 10 powi e \<le> 10 powi K")
    case True
    from reads_between [OF r this K] none [rule_format, OF n, of 1] show False by simp
  next
    case False
    have "real w < real (10 ^ n)" using w by (simp only: of_nat_less_iff)
    then have "real w * 10 powi e < 10 powi int n * 10 powi e" by (intro mult_strict_right_mono) simp_all
    then have "(10::real) powi K < 10 powi (int n + e)" using False unfolding ten_powi_add by linarith
    then have e: "K - int (n - 1) \<le> e" using n unfolding ten_powi_less by simp
    then have "(10::real) powi e = real (10 ^ nat (e - (K - int (n - 1)))) * 10 powi (K - int (n - 1))"
      using ten_powi_nat [of "e - (K - int (n - 1))"] ten_powi_add [of "e - (K - int (n - 1))" "K - int (n - 1)"] by simp
    then have "real w * 10 powi e = real (w * 10 ^ nat (e - (K - int (n - 1)))) * 10 powi (K - int (n - 1))" by simp
    moreover have "n - 1 < n" using n by simp
    ultimately show False using r none by metis
  qed
qed

section \<open>The shortest string\<close>

text \<open>
  A string without zeros at its ends, with the point in front of its digits moved by the exponent; it is read as the
  number, and no number with fewer digits is.
\<close>

definition decimal_value :: "char list \<Rightarrow> int \<Rightarrow> real" where
  "decimal_value s decpt = real (decimal s) * 10 powi (decpt - int (length s))"

definition shortest_for :: "dbl \<Rightarrow> char list \<Rightarrow> int \<Rightarrow> bool" where
  "shortest_for u s decpt \<longleftrightarrow> s \<noteq> [] \<and> list_all dec_digit s \<and> hd s \<noteq> CHR ''0'' \<and> last s \<noteq> CHR ''0'' \<and>
     rounds_to u (decimal_value s decpt) \<and> (\<forall>w e. w < 10 ^ (length s - 1) \<longrightarrow> \<not> rounds_to u (real w * 10 powi e))"

lemma printed_value:
  assumes "printed [] K s k' n v"
  shows "real v * 10 powi (K - int n) = decimal_value s (k' + 1)" "length s - 1 \<le> n"
    "s \<noteq> []" "list_all dec_digit s" "hd s \<noteq> CHR ''0''" "last s \<noteq> CHR ''0''"
proof -
  obtain m where m: "int (length s + m) = int (n + 1) + (k' - K)" "prints s m v" using assms by (auto simp: printed_def)
  have e: "k' + 1 - int (length s) = int m + (K - int n)" using m(1) by simp
  have "decimal s * 10 ^ m = v" using m(2) by (simp add: prints_def)
  then have "real v = real (decimal s) * 10 powi int m" by auto
  then show "real v * 10 powi (K - int n) = decimal_value s (k' + 1)" unfolding decimal_value_def e ten_powi_add by simp
  show "length s - 1 \<le> n" using assms by (auto simp: printed_def)
  show "s \<noteq> []" "list_all dec_digit s" "hd s \<noteq> CHR ''0''" "last s \<noteq> CHR ''0''" using m(2) by (simp_all add: prints_def)
qed

lemma shortest_forI:
  assumes u: "pos_dbl u" "0 < mantissa u" "dbl_bits u + 1 < inf_bits" and K: "10 powi K \<le> dbl_real u"
    and s: "s \<noteq> []" "list_all dec_digit s" "hd s \<noteq> CHR ''0''" "last s \<noteq> CHR ''0''"
    and v: "reads (even (mantissa u)) u (decimal_value s decpt)"
    and none: "\<forall>j<n. \<forall>w. \<not> reads (even (mantissa u)) u (real w * 10 powi (K - int j))" and n: "length s - 1 \<le> n"
  shows "shortest_for u s decpt"
proof -
  have "\<not> rounds_to u (real w * 10 powi e)" if "w < 10 ^ (length s - 1)" for w e
  proof
    assume r: "rounds_to u (real w * 10 powi e)"
    have "reads (even (mantissa u)) u (real w * 10 powi e)" by (rule rounds_reads [OF u(1) _ u(3) _ r]) (use u(2) in simp_all)
    moreover have "\<forall>j<length s - 1. \<forall>w. \<not> reads (even (mantissa u)) u (real w * 10 powi (K - int j))" using none n by simp
    ultimately show False using none_shorter [OF u(1,2) K _ that] by blast
  qed
  moreover have "rounds_to u (decimal_value s decpt)" by (rule reads_rounds [OF u(1) _ v]) simp
  ultimately show ?thesis using s by (simp add: shortest_for_def)
qed

section \<open>Small integers\<close>

lemma last_not_zero:
  assumes "s \<noteq> []" "list_all dec_digit s" "last s \<noteq> CHR ''0''"
  shows "decimal s \<noteq> n * 10"
proof
  assume a: "decimal s = n * 10"
  have s: "s = butlast s @ [last s]" using assms(1) by simp
  have d: "decimal s = decimal (butlast s) * 10 + nat (digit_int (last s))" by (subst s) (rule decimal_snoc)
  have "dec_digit (last s)" using assms(1,2) by (simp add: list_all_iff)
  then have x: "0 \<le> digit_int (last s)" "nat (digit_int (last s)) < 10" by (auto simp: dec_digit_def)
  have "b * 10 + x = n * 10 \<Longrightarrow> x < 10 \<Longrightarrow> x = 0" for b x :: nat by presburger
  from this [OF _ x(2)] have "nat (digit_int (last s)) = 0" using a d by simp
  then have "digit_int (last s) = 0" using x(1) by simp
  then have "of_char (last s) = (48 :: nat)" by (simp add: digit_int_def)
  then have "last s = char_of (48 :: nat)" by (metis char_of_char)
  with assms(3) show False by (simp add: char_of_def bit_iff_odd)
qed

lemma integer_exponent:
  assumes "0 < n" "n < 10 ^ 15"
  shows "1023 \<le> dbl_exp (dbl_of_nat n)" "dbl_exp (dbl_of_nat n) < 1073"
proof -
  have "n < 2 ^ 53" by (rule power_below [OF _ assms(2)]) simp
  then obtain i where i: "dbl_exp (dbl_of_nat n) = i + 1023" "2 ^ i \<le> n" by (rule nat_exponent [OF assms(1)])
  have "(2::nat) ^ i < 2 ^ 50" by (rule le_less_trans [OF i(2) less_trans [OF assms(2)]]) simp
  then have "i < 50" by (rule power_less_imp_less_exp [rotated]) simp
  then show "1023 \<le> dbl_exp (dbl_of_nat n)" "dbl_exp (dbl_of_nat n) < 1073" using i(1) by simp_all
qed

lemma integer_below_top:
  assumes "0 < n" "n < 10 ^ 15"
  shows "dbl_bits (dbl_of_nat n) + 1 < inf_bits"
proof -
  let ?u = "dbl_of_nat n"
  have "(max 1 (dbl_exp ?u) - 1) * 2 ^ 52 \<le> 1072 * 2 ^ 52" using integer_exponent [OF assms] by (intro mult_right_mono) simp_all
  then show ?thesis using mantissa_less [of ?u] unfolding bits_above_exponent(1) by (simp add: inf_bits_def)
qed

lemma integer_shortest:
  assumes n: "0 < n" "n < 10 ^ 15" and K: "10 ^ (d - 1) \<le> n" "n < 10 ^ d" "length s \<le> d" and p: "prints s (d - length s) n"
  shows "shortest_for (dbl_of_nat n) s (int d)"
proof -
  let ?u = "dbl_of_nat n"
  have n53: "n < 2 ^ 53" by (rule power_below [OF _ n(2)]) simp
  note u = dbl_of_nat_exact [OF n53]
  have m: "0 < mantissa ?u" using pos_mantissa [OF u(1)] u(2) n(1) by simp
  have s: "s \<noteq> []" "list_all dec_digit s" "hd s \<noteq> CHR ''0''" "last s \<noteq> CHR ''0''" "decimal s * 10 ^ (d - length s) = n"
    using p by (simp_all add: prints_def)
  have d0: "0 < d" using s(1) K(3) by (cases d) simp_all
  have unit: "unit_of ?u \<le> 1 / 8"
  proof -
    have "unit_of ?u \<le> 2 powi - 3"
      unfolding unit_of_def using integer_exponent [OF n] by (intro power_int_increasing) (simp_all add: dbl_scale_def)
    then show ?thesis by (simp add: power_int_minus)
  qed
  note top = integer_below_top [OF n]
  have val: "decimal_value s (int d) = dbl_real ?u"
  proof -
    have e: "int d - int (length s) = int (d - length s)" using K(3) by simp
    have "decimal_value s (int d) = real (decimal s * 10 ^ (d - length s))" unfolding decimal_value_def e power_int_of_nat by simp
    then show ?thesis unfolding s(5) u(2) .
  qed
  have near: "\<bar>X - real n\<bar> < 1" if "reads incl ?u X" for incl X
    using that unit lower_margin_le [of ?u] unfolding reads_def u(2) by (auto split: if_splits)
  show ?thesis
  proof (rule shortest_forI [OF u(1) m top _ s(1-4), of "int d - 1" _ "length s - 1"])
    have "int d - 1 = int (d - 1)" using d0 by simp
    then have "(10::real) powi (int d - 1) = real (10 ^ (d - 1))" by (simp only: power_int_of_nat of_nat_power of_nat_numeral)
    then show "10 powi (int d - 1) \<le> dbl_real ?u" unfolding u(2) using K(1) by (simp only: of_nat_le_iff)
    show "reads (even (mantissa ?u)) ?u (decimal_value s (int d))" unfolding val by (simp add: reads_def lower_margin_def less_imp_le)
    show "\<forall>j<length s - 1. \<forall>w. \<not> reads (even (mantissa ?u)) ?u (real w * 10 powi (int d - 1 - int j))"
    proof (intro allI impI notI)
      fix j w assume j: "j < length s - 1" and r: "reads (even (mantissa ?u)) ?u (real w * 10 powi (int d - 1 - int j))"
      define t where "t = d - 1 - j"
      have t: "int d - 1 - int j = int t" "d - length s + 1 \<le> t" using j K(3) by (simp_all add: t_def)
      from near [OF r] have "\<bar>real (w * 10 ^ t) - real n\<bar> < 1" unfolding t(1) by simp
      then have "n = w * 10 ^ t" by linarith
      also have "\<dots> = w * 10 ^ (t - (d - length s + 1)) * 10 * 10 ^ (d - length s)"
        using t(2) by (simp flip: power_add power_Suc add: mult.assoc)
      finally have "decimal s = w * 10 ^ (t - (d - length s + 1)) * 10" unfolding s(5) [symmetric] by simp
      then show False using last_not_zero [OF s(1,2,4)] by blast
    qed
  qed simp
qed

section \<open>Every number\<close>

lemma ten_powi_le: "a \<le> b \<Longrightarrow> (10::real) powi a \<le> 10 powi b"
  by (rule power_int_increasing) simp_all

text \<open>The odd part of a number with an exponent that is not negative is an integer.\<close>

lemma integer_dbl:
  assumes "pos_dbl u" "mantissa u = vb * 2 ^ kz" "be = int (max 1 (dbl_exp u)) - 1075 + int kz" "0 \<le> be" "dbl_real u < 10 ^ 15"
  obtains n where "n < 10 ^ 15" "u = dbl_of_nat n"
proof -
  define n where "n = vb * 2 ^ nat be"
  have "dbl_real u = real vb * (2 ^ kz * 2 powi dbl_scale u)" using pos_real [OF assms(1)] assms(2) by simp
  also have "2 ^ kz * (2::real) powi dbl_scale u = 2 powi be" unfolding powi_shift assms(3) dbl_scale_def by (simp add: add.commute)
  also have "(2::real) powi be = 2 ^ nat be" using assms(4) by (simp add: power_int_def)
  finally have v: "dbl_real u = real n" by (simp add: n_def)
  then have "real n < real (10 ^ 15)" using assms(5) by simp
  then have n: "n < 10 ^ 15" by (simp only: of_nat_less_iff)
  have "n < 2 ^ 53" by (rule power_below [OF _ n]) simp
  with nat_dblI [OF assms(1) v this] n show thesis by (intro that)
qed

lemma free_last_p5s: "p5s_ok al \<Longrightarrow> p5s_ok (free_last prev al)"
  by (cases prev) (simp_all add: free_last_def freedtoa_def p5s_ok_def)

lemma dtoa_pos_shortest:
  assumes u: "pos_dbl u" "0 < mantissa u" "dbl_bits u + 1 < inf_bits" and al: "p5s_ok al" and fuel: "16 < fuel"
  shows "\<exists>out al'. dtoa fuel u 0 ndigits prev al = Inr (out, al') \<and> \<not> do_sign out \<and>
    shortest_for u (rv_chars (do_string out)) (do_decpt out)"
proof (cases "\<exists>n<10 ^ 15. u = dbl_of_nat n")
  case True
  then obtain n where n: "n < 10 ^ 15" "u = dbl_of_nat n" by blast
  have n53: "n < 2 ^ 53" by (rule power_below [OF _ n(1)]) simp
  have n0: "0 < n" using pos_mantissa [OF u(1)] u(2) n(2) dbl_of_nat_exact(2) [OF n53] by simp
  have f: "15 \<le> fuel" using fuel by simp
  obtain out al' where o: "dtoa fuel (dbl_of_nat n) 0 ndigits prev al = Inr (out, al')" "\<not> do_sign out"
    "10 ^ (nat (do_decpt out) - 1) \<le> n" "n < 10 ^ nat (do_decpt out)" "length (rv_chars (do_string out)) \<le> nat (do_decpt out)"
    "prints (rv_chars (do_string out)) (nat (do_decpt out) - length (rv_chars (do_string out))) n"
    by (rule dtoa_integer [OF n0 n(1) f])
  have "rv_chars (do_string out) \<noteq> []" using o(6) by (simp add: prints_def)
  then have "int (nat (do_decpt out)) = do_decpt out" using o(5) by (cases "0 \<le> do_decpt out") simp_all
  with integer_shortest [OF n0 n(1) o(3-6)] o(1,2) n(2) show ?thesis by auto
next
  case False
  let ?al = "free_last prev al"
  have m: "mantissa u \<noteq> 0" using u(2) by simp
  obtain b be bbits al1 kz l where d: "d2b u ?al = Inr (b, be, bbits, u, al1)" "normal b" "odd (value_of b)"
    "mantissa u = value_of b * 2 ^ kz" "be = int (max 1 (dbl_exp u)) - 1075 + int kz"
    "bbits = int l" "0 < l" "2 ^ (l - 1) \<le> value_of b" "value_of b < 2 ^ l"
    using d2b_lemma [OF m, of ?al] pos_word [OF u(1)] by auto
  have b0: "0 < value_of b" using d(3) by (rule odd_pos)
  obtain d2 i where sp: "split_exponent u be bbits = (d2, i, dbl_exp u = 0)" "scaled_to u d2 i" "bbits - i - 1 = - be" "\<bar>i\<bar> \<le> 1100"
    by (rule split_scaled [OF u(1) m d(4-9)])
  obtain K where K: "10 powi K \<le> dbl_real u" "dbl_real u < 10 powi (K + 1)" by (rule decimal_exponent_real [OF u(1,2)])
  obtain k c where k: "estimate_k u d2 i = Inr (k, c)" "k = K \<or> (c \<and> k = K + 1)"
    by (rule estimate_right [OF u(1,2) sp(2,4) K])
  define dm where "dm = choose_mode 0 ndigits k"
  have dm: "dm_mode dm = 0" "dm_leftright dm" "dm_ilim dm = - 1" "dm_ilim1 dm = - 1" "dm_i dm = 18"
    by (simp_all add: dm_def choose_mode_def)
  obtain rv res al2 where rv: "rv_alloc 18 al1 = (rv, res, al2)" by (metis prod_cases3)
  have room: "18 + 1 \<le> rv_room (rv_k rv)" using rv_alloc_fields [OF rv] rv_class_room [of 4 0 18] by simp
  have al2: "p5s_ok al2"
    using rv_alloc_fields [OF rv] free_last_p5s [OF al, of prev] p5s_ok_cong [of al2 al1] p5s_ok_cong [OF d2b_p5s [OF d(1)]] by simp
  note rr = reaches_real [OF u(1)]
  have top: "\<not> reaches u (k + 1)" unfolding rr using K(2) k(2) ten_powi_le [of "K + 1" "k + 1"] by auto
  have est: "if c then reaches u (k - 1) else reaches u k" unfolding rr using K(1) k(2) ten_powi_le [of "k - 1" K] by auto
  have k1: "K = (if reaches u k then k else k - 1)" unfolding rr using K k(2) by auto
  have incl: "even (mantissa u) \<longleftrightarrow> dm_mode dm \<noteq> 1 \<and> even (mantissa u)" using dm by simp
  have md: "dm_mode dm < 2" "dm_ilim dm \<le> 0" "dm_ilim1 dm \<le> 0" using dm by simp_all
  note inc = d2b_increment [OF d(4-9) refl]
  from dtoa_long_shortest [OF u(1) al2 d(2) b0 d(4,5) sp(3) inc dm(2) md top est k1 incl fuel]
  obtain n s k' al3 v where g: "n \<le> 16" "dtoa_long fuel dm (dbl_exp u = 0) be bbits u b i k c al2 = Inr (s, k', al3)"
    "printed [] K s k' n v" "reads (even (mantissa u)) u (real v * 10 powi (K - int n))"
    "\<forall>j<n. \<forall>w. \<not> reads (even (mantissa u)) u (real w * 10 powi (K - int j))" by blast
  note p = printed_value [OF g(3)]
  have "\<not> (be \<ge> 0 \<and> k \<le> Int_max)"
  proof
    assume a: "be \<ge> 0 \<and> k \<le> Int_max"
    then have "K + 1 \<le> 15" using k(2) by (auto simp: Int_max_def)
    then have "dbl_real u < 10 powi 15" using K(2) ten_powi_le [of "K + 1" 15] by linarith
    then have "dbl_real u < 10 ^ 15" by simp
    from integer_dbl [OF u(1) d(4,5) _ this] a False show False by blast
  qed
  then have dd: "dtoa_digits fuel dm be bbits u b i (dbl_exp u = 0) k c al2 = Inr (s, k', al3)"
    using g(2) by (auto simp: dtoa_digits_def quick_digits_def dm)
  have len: "Suc (length s) \<le> rv_room (rv_k rv)" using p(2) g(1) room by linarith
  have run: "dtoa fuel u 0 ndigits prev al = Inr (\<lparr>do_string = rv\<lparr>rv_chars := s\<rparr>, do_decpt = k' + 1, do_sign = False\<rparr>, al3)"
    by (simp add: dtoa_def dtoa_special_pos [OF u(1,2)] d(1) sp(1) k(1) dm_def [symmetric] dm(5) rv dd len)
  have "shortest_for u s (k' + 1)"
    by (rule shortest_forI [OF u K(1) p(3-6) _ g(5) p(2)]) (use g(4) p(1) in simp)
  with run show ?thesis by simp
qed

section \<open>Negative numbers\<close>

lemma dneg_inj: "finite_dbl y \<Longrightarrow> \<exists>z. finite_dbl z \<and> y = dneg z"
  by (rule exI [of _ "dneg y"]) (simp add: dneg_real dneg_dneg)

lemma mantissa_dneg: "mantissa (dneg x) = mantissa x"
  by (simp add: mantissa_split bits_fields dneg_fields)

lemma rounds_to_dneg: "rounds_to (dneg u) (- X) \<longleftrightarrow> rounds_to u X"
proof -
  have a: "\<bar>- x - - X\<bar> = \<bar>x - X\<bar>" for x :: real by simp
  have i: "rounds_to (dneg u) (- X)" if "rounds_to u X" for u X
    unfolding rounds_to_def
  proof (intro conjI allI impI)
    show "finite_dbl (dneg u)" using that by (simp add: rounds_to_def dneg_real)
    fix y assume "finite_dbl y"
    then obtain z where z: "finite_dbl z" "y = dneg z" using dneg_inj by blast
    have e: "\<bar>- x - - X\<bar> = \<bar>x - X\<bar>" for x :: real by simp
    show "\<bar>dbl_real (dneg u) - - X\<bar> \<le> \<bar>dbl_real y - - X\<bar>"
      using that z(1) unfolding z(2) dneg_real e by (simp add: rounds_to_def)
    show "even (mantissa (dneg u))" if "\<bar>dbl_real (dneg u) - - X\<bar> = \<bar>dbl_real y - - X\<bar> \<and> dbl_real y \<noteq> dbl_real (dneg u)"
      using that \<open>rounds_to u X\<close> z(1) unfolding z(2) dneg_real e mantissa_dneg by (auto simp: rounds_to_def)
  qed
  show ?thesis using i [of u X] i [of "dneg u" "- X"] by (auto simp: dneg_dneg)
qed

lemma dtoa_special_dneg:
  assumes u: "pos_dbl u" "0 < mantissa u"
  shows "dtoa_special (dneg u) = (True, u, None)"
proof -
  have s: "Sign_bit = push_bit 31 1" by (simp add: Sign_bit_def)
  have n: "\<not> bit (word0 u) 31" using u(1) by (simp add: pos_dbl_def dbl_neg_def)
  have w: "word0 (dneg u) = word0 u XOR Sign_bit" by (simp add: dneg_def Sign_bit_def)
  have "bit (word0 (dneg u) AND Sign_bit) 31" unfolding w s bit_and_iff bit_xor_iff bit_push_bit_iff using n by simp
  then have a: "word0 (dneg u) AND Sign_bit \<noteq> 0" by (metis bit_0_eq bot_apply bot_bool_def)
  have "(word0 u XOR Sign_bit) AND NOT Sign_bit = word0 u"
  proof (rule bit_word_eqI)
    fix j assume "j < LENGTH(32)"
    moreover have "bit Sign_bit j \<longleftrightarrow> j = 31" if "j < 32" using that unfolding s bit_push_bit_iff bit_1_iff by auto
    ultimately show "bit ((word0 u XOR Sign_bit) AND NOT Sign_bit) j = bit (word0 u) j"
      using n by (auto simp: bit_xor_iff bit_and_iff bit_not_iff)
  qed
  then have c: "(dneg u)\<lparr>word0 := word0 (dneg u) AND NOT Sign_bit\<rparr> = u" unfolding w by (simp add: dneg_def)
  have "dtoa_special u = (False, u, None)" by (rule dtoa_special_pos [OF u])
  then show ?thesis using a unfolding dtoa_special_def Let_def by (auto simp: c split: if_splits)
qed

lemma dtoa_dneg:
  assumes u: "pos_dbl u" "0 < mantissa u" and r: "dtoa fuel u mode ndigits prev al = Inr (out, al')"
  shows "dtoa fuel (dneg u) mode ndigits prev al = Inr (out\<lparr>do_sign := True\<rparr>, al')"
  using r unfolding dtoa_def dtoa_special_pos [OF u] dtoa_special_dneg [OF u]
  by (auto simp: bindR_eq_Inr Let_def case_prod_beta split: if_splits)

text \<open>A finite number that is not zero is a positive one, or the opposite of one.\<close>

lemma signed_dbl:
  assumes "finite_dbl d" "mantissa d \<noteq> 0"
  obtains u where "pos_dbl u" "0 < mantissa u" "dbl_bits u = dbl_bits d" "d = (if dbl_neg d then dneg u else u)"
proof (cases "dbl_neg d")
  case True
  then show thesis using assms
    by (intro that [of "dneg d"]) (simp_all add: pos_dbl_def dneg_real dneg_fields mantissa_dneg dneg_dneg)
qed (use assms in \<open>auto intro!: that [of d] simp: pos_dbl_def\<close>)

text \<open>
  C4. \<open>dtoa\<close> in mode 0 prints every finite \<open>double\<close> that is neither zero nor one of the two of the largest
  magnitude: it returns after at most 17 rounds of its loop, with the sign of the number and a string without zeros at
  its ends, which with the decimal exponent is a number that is rounded to the \<open>double\<close>, to the even one of two; and no
  number with fewer digits, whatever its exponent, is rounded to it.
\<close>

theorem dtoa_shortest:
  assumes "finite_dbl d" "mantissa d \<noteq> 0" "dbl_bits d + 1 < inf_bits" "p5s_ok al" "16 < fuel"
  shows "\<exists>out al'. dtoa fuel d 0 ndigits prev al = Inr (out, al') \<and> do_sign out = dbl_neg d \<and>
    (let s = rv_chars (do_string out); sg = (if dbl_neg d then - 1 else 1) in
     s \<noteq> [] \<and> list_all dec_digit s \<and> hd s \<noteq> CHR ''0'' \<and> last s \<noteq> CHR ''0'' \<and>
     rounds_to d (sg * decimal_value s (do_decpt out)) \<and>
     (\<forall>w e. w < 10 ^ (length s - 1) \<longrightarrow> \<not> rounds_to d (sg * (real w * 10 powi e))))"
proof -
  obtain u where u: "pos_dbl u" "0 < mantissa u" "dbl_bits u = dbl_bits d" "d = (if dbl_neg d then dneg u else u)"
    by (rule signed_dbl [OF assms(1,2)])
  have "dbl_bits u + 1 < inf_bits" using assms(3) unfolding u(3) .
  then obtain out al' where o: "dtoa fuel u 0 ndigits prev al = Inr (out, al')" "\<not> do_sign out"
    "shortest_for u (rv_chars (do_string out)) (do_decpt out)"
    using dtoa_pos_shortest [OF u(1,2) _ assms(4,5)] by blast
  show ?thesis
  proof (cases "dbl_neg d")
    case False
    then show ?thesis using o u(4) by (simp add: shortest_for_def Let_def)
  next
    case True
    then have d: "d = dneg u" using u(4) by simp
    have "dtoa fuel d 0 ndigits prev al = Inr (out\<lparr>do_sign := True\<rparr>, al')" unfolding d by (rule dtoa_dneg [OF u(1,2) o(1)])
    moreover have "rounds_to d (- 1 * X) = rounds_to u X" for X unfolding d using rounds_to_dneg [of u X] by simp
    ultimately show ?thesis using o(3) True by (simp add: shortest_for_def Let_def)
  qed
qed

theorem dtoa_shortest_witness:
  "\<exists>out al'. dtoa 17 (dneg third) 0 0 None alloc_init = Inr (out, al') \<and> do_sign out \<and>
    rounds_to (dneg third) (- decimal_value (rv_chars (do_string out)) (do_decpt out))"
proof -
  have b: "dbl_bits (dneg third) + 1 < inf_bits" unfolding dneg_fields by (simp add: third_def dbl_bits_def inf_bits_def)
  then have f: "finite_dbl (dneg third)" by (simp add: finite_dbl_def)
  have m: "mantissa (dneg third) \<noteq> 0" by (simp add: mantissa_dneg third_value)
  have a: "p5s_ok alloc_init" by (simp add: p5s_ok_def alloc_init_def)
  have n: "dbl_neg (dneg third)" unfolding dneg_fields by (simp add: third_def dbl_neg_def)
  show ?thesis using dtoa_shortest [OF f m b a, of 17 0 None] n by (auto simp: Let_def)
qed

end
