(* ===== verification/Dtoa_Fixed.thy ===== *)
theory Dtoa_Fixed
  imports Dtoa_Correct
begin

text \<open>
  \<open>dtoa\<close> (src/src/common/dtoa.cc) asked for a number of digits, from the \<open>double\<close> to the string, on the
  multiple-precision path: modes 6 and 7 take it for every number that is no integer below \<open>10 ^ 15\<close>,
  modes 2 and 3 when more than 14 digits are asked for.
\<close>

section \<open>Rounding to an integer\<close>

text \<open>\<open>v\<close> is the integer nearest to \<open>x\<close>, the even one of two.\<close>

definition nearest_even :: "nat \<Rightarrow> real \<Rightarrow> bool" where
  "nearest_even v x \<longleftrightarrow> \<bar>real v - x\<bar> \<le> 1 / 2 \<and> (\<bar>real v - x\<bar> = 1 / 2 \<longrightarrow> even v)"

lemma round_half_even_nearest:
  assumes "0 < d"
  shows "nearest_even (round_half_even a d) (real a / real d)"
proof -
  define q r where "q = a div d" and "r = a mod d"
  have "a = q * d + r" "r < d" using assms by (simp_all add: q_def r_def)
  then have "real a = real q * real d + real r" by (simp only: of_nat_add of_nat_mult)
  then have x: "real a / real d = real q + real r / real d" using assms by (simp add: field_simps)
  have v: "round_half_even a d = (if 2 * r > d \<or> (2 * r = d \<and> odd q) then q + 1 else q)"
    by (simp add: round_half_even_def q_def r_def)
  have lt: "real r / real d < 1" "0 \<le> real r / real d" using \<open>r < d\<close> by (simp_all add: divide_less_eq)
  have d0: "0 < real d" using assms by simp
  have half: "1 / 2 < real r / real d \<longleftrightarrow> d < 2 * r" "1 / 2 = real r / real d \<longleftrightarrow> d = 2 * r"
  proof -
    have "1 / 2 < real r / real d \<longleftrightarrow> real d < real (2 * r)" using d0 by (simp add: field_simps)
    then show "1 / 2 < real r / real d \<longleftrightarrow> d < 2 * r" by (simp only: of_nat_less_iff)
    have "1 / 2 = real r / real d \<longleftrightarrow> real d = real (2 * r)" using d0 by (simp add: field_simps)
    then show "1 / 2 = real r / real d \<longleftrightarrow> d = 2 * r" by (simp only: of_nat_eq_iff)
  qed
  define y where "y = real r / real d"
  show ?thesis
  proof (cases "d < 2 * r \<or> d = 2 * r \<and> odd q")
    case True
    then have y: "1 / 2 \<le> y" using half unfolding y_def by linarith
    have e: "\<bar>real (q + 1) - (real q + y)\<bar> = 1 - y" using lt unfolding y_def by simp
    have "even (q + 1)" if "1 - y = 1 / 2"
    proof -
      have "1 / 2 = y" using that by linarith
      then have "d = 2 * r" using half(2) unfolding y_def by blast
      then show ?thesis using True by auto
    qed
    moreover have "round_half_even a d = q + 1" using True v by auto
    ultimately show ?thesis using y e unfolding nearest_even_def x y_def [symmetric] by auto
  next
    case False
    then have y: "y \<le> 1 / 2" using half(1) unfolding y_def by linarith
    have e: "\<bar>real q - (real q + y)\<bar> = y" using lt unfolding y_def by simp
    have "even q" if "y = 1 / 2" using False half(2) that unfolding y_def by auto
    moreover have "round_half_even a d = q" using False v by auto
    ultimately show ?thesis using y e unfolding nearest_even_def x y_def [symmetric] by auto
  qed
qed

section \<open>The printed number\<close>

lemma dnum_real:
  assumes "pos_dbl u"
  shows "real (dnum u k * 10 ^ n) / real (dden k) = dbl_real u * 10 powi (int n - k)"
proof -
  have p: "(10::real) powi k \<noteq> 0" by simp
  have "dbl_real u = real (mantissa u) * (real (unum u k) / real (dden k) * 10 powi k)"
    unfolding unit_ratio pos_real [OF assms] unit_of_def ..
  then have "dbl_real u = real (dnum u k) / real (dden k) * 10 powi k" by (simp add: dnum_unum)
  then have "real (dnum u k) / real (dden k) = dbl_real u / 10 powi k" using p by (simp add: field_simps)
  then have "real (dnum u k * 10 ^ n) / real (dden k) = dbl_real u / 10 powi k * 10 ^ n" by (simp add: field_simps)
  also have "\<dots> = dbl_real u * 10 powi (int n - k)" using p by (simp add: power_int_diff)
  finally show ?thesis .
qed

text \<open>The number of digits a mode asks for, for a number with the decimal exponent \<open>K\<close>.\<close>

definition digits_asked :: "int \<Rightarrow> int \<Rightarrow> int \<Rightarrow> int" where
  "digits_asked mode ndigits K = (if mode = 2 \<or> mode = 6 then max 1 ndigits else ndigits + K + 1)"

definition rounded_for :: "dbl \<Rightarrow> int \<Rightarrow> int \<Rightarrow> char list \<Rightarrow> int \<Rightarrow> bool" where
  "rounded_for u N K s decpt \<longleftrightarrow> s \<noteq> [] \<and> list_all dec_digit s \<and> hd s \<noteq> CHR ''0'' \<and> last s \<noteq> CHR ''0'' \<and>
     int (length s) \<le> N \<and>
     (\<exists>v. decimal_value s decpt = real v * 10 powi (K + 1 - N) \<and> nearest_even v (dbl_real u * 10 powi (N - 1 - K)))"

lemma dtoa_pos_rounds:
  assumes u: "pos_dbl u" "0 < mantissa u" and al: "p5s_ok al" and frac: "\<not> (\<exists>n<10 ^ 15. u = dbl_of_nat n)"
    and K: "10 powi K \<le> dbl_real u" "dbl_real u < 10 powi (K + 1)"
    and N: "N = digits_asked mode ndigits K" "0 < N" "\<bar>ndigits + K\<bar> < 2 ^ 30"
    and mode: "mode = 6 \<or> mode = 7 \<or> (mode = 2 \<or> mode = 3) \<and> 14 < N"
  shows "\<exists>out al'. dtoa fuel u mode ndigits prev al = Inr (out, al') \<and> \<not> do_sign out \<and>
    rounded_for u N K (rv_chars (do_string out)) (do_decpt out)"
proof -
  let ?al = "free_last prev al"
  have m: "mantissa u \<noteq> 0" using u(2) by simp
  obtain b be bbits al1 kz l where d: "d2b u ?al = Inr (b, be, bbits, u, al1)" "normal b" "odd (value_of b)"
    "mantissa u = value_of b * 2 ^ kz" "be = int (max 1 (dbl_exp u)) - 1075 + int kz"
    "bbits = int l" "0 < l" "2 ^ (l - 1) \<le> value_of b" "value_of b < 2 ^ l"
    using d2b_lemma [OF m, of ?al] pos_word [OF u(1)] by auto
  have b0: "0 < value_of b" using d(3) by (rule odd_pos)
  obtain d2 i where sp: "split_exponent u be bbits = (d2, i, dbl_exp u = 0)" "scaled_to u d2 i" "bbits - i - 1 = - be" "\<bar>i\<bar> \<le> 1100"
    by (rule split_scaled [OF u(1) m d(4-9)])
  obtain k c where k: "estimate_k u d2 i = Inr (k, c)" "k = K \<or> (c \<and> k = K + 1)"
    by (rule estimate_right [OF u(1,2) sp(2,4) K])
  define dm where "dm = choose_mode mode ndigits k"
  have i32: "int32 (ndigits + k + 1) = ndigits + k + 1" "int32 (ndigits + k) = ndigits + k"
    using N(3) k(2) by (auto intro!: int32_id)
  have dm: "\<not> dm_leftright dm" "0 < dm_ilim dm" "dm_try_quick dm \<longrightarrow> 14 < dm_ilim dm"
    "(if k = K then dm_ilim dm else dm_ilim1 dm) = N"
    using mode N(1,2) k(2) i32 by (auto simp: dm_def choose_mode_def digits_asked_def max_def Let_def)
  obtain rv res al2 where rv: "rv_alloc (nat (dm_i dm)) al1 = (rv, res, al2)" by (metis prod_cases3)
  have room: "nat (dm_i dm) + 1 \<le> rv_room (rv_k rv)" using rv_alloc_fields [OF rv] rv_class_room [of 4 0 "nat (dm_i dm)"] by simp
  have al2: "p5s_ok al2"
    using rv_alloc_fields [OF rv] free_last_p5s [OF al, of prev] p5s_ok_cong [of al2 al1] p5s_ok_cong [OF d2b_p5s [OF d(1)]] by simp
  note rr = reaches_real [OF u(1)]
  have top: "\<not> reaches u (k + 1)" unfolding rr using K(2) k(2) ten_powi_le [of "K + 1" "k + 1"] by auto
  have est: "if c then reaches u (k - 1) else reaches u k" unfolding rr using K(1) k(2) ten_powi_le [of "k - 1" K] by auto
  have rk: "reaches u k \<longleftrightarrow> k = K" unfolding rr using K k(2) by auto
  have k1: "K = (if reaches u k then k else k - 1)" unfolding rk using k(2) by auto
  define n where "n = nat N - 1"
  have n: "Suc n = nat (if reaches u k then dm_ilim dm else dm_ilim1 dm)" "int n = N - 1"
    unfolding rk dm(4) using N(2) by (simp_all add: n_def)
  obtain s k2 al3 where g: "dtoa_long fuel dm (dbl_exp u = 0) be bbits u b i k c al2 = Inr (s, k2, al3)"
    "length s \<le> nat (dm_i dm)" "printed [] K s k2 n (round_half_even (dnum u K * 10 ^ n) (dden K))"
    using dtoa_long_fixed [OF d(2) b0 d(4,5) sp(3) al2 dm_def dm(1) top est k1 n(1) dm(2)] by blast
  note p = printed_value [OF g(3)]
  have "\<not> (be \<ge> 0 \<and> k \<le> Int_max)"
  proof
    assume a: "be \<ge> 0 \<and> k \<le> Int_max"
    then have "K + 1 \<le> 15" using k(2) by (auto simp: Int_max_def)
    then have "dbl_real u < 10 powi 15" using K(2) ten_powi_le [of "K + 1" 15] by linarith
    then have "dbl_real u < 10 ^ 15" by simp
    from integer_dbl [OF u(1) d(4,5) _ this] a frac show False by blast
  qed
  then have dd: "dtoa_digits fuel dm be bbits u b i (dbl_exp u = 0) k c al2 = Inr (s, k2, al3)"
    using g(1) dm(3) by (auto simp: dtoa_digits_def quick_digits_def Quick_max_def)
  have len: "length s + 1 \<le> rv_room (rv_k rv)" using g(2) room by linarith
  have run: "dtoa fuel u mode ndigits prev al = Inr (\<lparr>do_string = rv\<lparr>rv_chars := s\<rparr>, do_decpt = k2 + 1, do_sign = False\<rparr>, al3)"
    using len by (simp add: dtoa_def dtoa_special_pos [OF u(1,2)] d(1) sp(1) k(1) dm_def [symmetric] rv dd)
  have e: "K - int n = K + 1 - N" "int n - K = N - 1 - K" using n(2) by simp_all
  have "rounded_for u N K s (k2 + 1)"
    unfolding rounded_for_def
  proof (intro conjI exI)
    show "int (length s) \<le> N" using p(2) n(2) by linarith
    show "decimal_value s (k2 + 1) = real (round_half_even (dnum u K * 10 ^ n) (dden K)) * 10 powi (K + 1 - N)"
      using p(1) unfolding e(1) by simp
    show "nearest_even (round_half_even (dnum u K * 10 ^ n) (dden K)) (dbl_real u * 10 powi (N - 1 - K))"
      using round_half_even_nearest [OF dden_pos, of "dnum u K * 10 ^ n" K] unfolding dnum_real [OF u(1)] e(2) .
  qed (use p in simp_all)
  with run show ?thesis by simp
qed

section \<open>Every number\<close>

text \<open>
  C10. \<open>dtoa\<close> asked for \<open>N\<close> digits rounds correctly: in mode 6 (\<open>N\<close> is \<open>ndigits\<close>, at least 1) and mode 7
  (\<open>ndigits\<close> places behind the point, so that \<open>N\<close> depends on the decimal exponent \<open>K\<close> of the number), and
  in modes 2 and 3 when \<open>N > 14\<close>, it returns for every finite \<open>double\<close> other than zero that is no integer
  below \<open>10 ^ 15\<close>, with its sign and a string of at most \<open>N\<close> digits without zeros at its ends. With its
  decimal exponent the string is a multiple of \<open>10 ^ (K + 1 - N)\<close>, the one nearest to the number, with the
  even factor when two are nearest.
\<close>

theorem dtoa_rounds:
  assumes "finite_dbl d" "mantissa d \<noteq> 0" "p5s_ok al" "\<not> (\<exists>n<10 ^ 15. \<bar>dbl_real d\<bar> = real n)"
    "10 powi K \<le> \<bar>dbl_real d\<bar>" "\<bar>dbl_real d\<bar> < 10 powi (K + 1)"
    "N = (if mode = 2 \<or> mode = 6 then max 1 ndigits else ndigits + K + 1)" "0 < N" "\<bar>ndigits + K\<bar> < 2 ^ 30"
    "mode = 6 \<or> mode = 7 \<or> (mode = 2 \<or> mode = 3) \<and> 14 < N"
  shows "\<exists>out al'. dtoa fuel d mode ndigits prev al = Inr (out, al') \<and> do_sign out = dbl_neg d \<and>
    (let s = rv_chars (do_string out) in
     s \<noteq> [] \<and> list_all dec_digit s \<and> hd s \<noteq> CHR ''0'' \<and> last s \<noteq> CHR ''0'' \<and> int (length s) \<le> N \<and>
     (\<exists>v. decimal_value s (do_decpt out) = real v * 10 powi (K + 1 - N) \<and>
       \<bar>real v - \<bar>dbl_real d\<bar> * 10 powi (N - 1 - K)\<bar> \<le> 1 / 2 \<and>
       (\<bar>real v - \<bar>dbl_real d\<bar> * 10 powi (N - 1 - K)\<bar> = 1 / 2 \<longrightarrow> even v)))"
proof -
  obtain u where u: "pos_dbl u" "0 < mantissa u" "dbl_bits u = dbl_bits d" "d = (if dbl_neg d then dneg u else u)"
    by (rule signed_dbl [OF assms(1,2)])
  have "0 < dbl_real u" using pos_mantissa [OF u(1)] u(2) by blast
  then have a: "\<bar>dbl_real d\<bar> = dbl_real u" using u(4) by (cases "dbl_neg d") (simp_all add: dneg_real)
  have frac: "\<not> (\<exists>n<10 ^ 15. u = dbl_of_nat n)"
  proof
    assume "\<exists>n<10 ^ 15. u = dbl_of_nat n"
    then obtain n where n: "n < 10 ^ 15" "u = dbl_of_nat n" by blast
    have "n < 2 ^ 53" by (rule power_below [OF _ n(1)]) simp
    then have "dbl_real u = real n" using n(2) dbl_of_nat_exact(2) by simp
    then show False using assms(4) n(1) unfolding a by blast
  qed
  have N: "N = digits_asked mode ndigits K" using assms(7) by (simp add: digits_asked_def)
  obtain out al' where o: "dtoa fuel u mode ndigits prev al = Inr (out, al')" "\<not> do_sign out"
    "rounded_for u N K (rv_chars (do_string out)) (do_decpt out)"
    using dtoa_pos_rounds [OF u(1,2) assms(3) frac assms(5,6) [unfolded a] N assms(8-10)] by blast
  show ?thesis
  proof (cases "dbl_neg d")
    case False
    then show ?thesis using o u(4) unfolding a by (simp add: rounded_for_def nearest_even_def Let_def)
  next
    case True
    then have d: "d = dneg u" using u(4) by simp
    have "dtoa fuel d mode ndigits prev al = Inr (out\<lparr>do_sign := True\<rparr>, al')" unfolding d by (rule dtoa_dneg [OF u(1,2) o(1)])
    then show ?thesis using o(3) True unfolding a by (simp add: rounded_for_def nearest_even_def Let_def)
  qed
qed

text \<open>One third with three digits.\<close>

theorem dtoa_rounds_witness:
  "\<exists>out al' v. dtoa 0 third 6 3 None alloc_init = Inr (out, al') \<and>
    decimal_value (rv_chars (do_string out)) (do_decpt out) = real v * 10 powi - 3 \<and>
    \<bar>real v - dbl_real third * 10 ^ 3\<bar> \<le> 1 / 2"
proof -
  have b: "dbl_bits third < inf_bits" by (simp add: third_def dbl_bits_def inf_bits_def)
  then have f: "finite_dbl third" by (simp add: finite_dbl_def)
  have m: "mantissa third \<noteq> 0" by (simp add: third_value)
  have p: "p5s_ok alloc_init" by (simp add: p5s_ok_def alloc_init_def)
  have "pos_dbl third" using f by (simp add: pos_dbl_def third_def dbl_neg_def)
  then have v: "dbl_real third = 6004799503160661 * 2 powi - 54"
    by (simp add: pos_real unit_of_def dbl_scale_def third_value)
  then have r: "dbl_real third = 6004799503160661 / 18014398509481984" by (simp add: power_int_minus)
  have i: "\<not> (\<exists>n<10 ^ 15. \<bar>dbl_real third\<bar> = real n)"
  proof
    assume "\<exists>n<10 ^ 15. \<bar>dbl_real third\<bar> = real n"
    then obtain n where "\<bar>dbl_real third\<bar> = real n" by blast
    then have "0 < real n" "real n < 1" unfolding r by simp_all
    then show False by simp
  qed
  have K: "10 powi - 1 \<le> \<bar>dbl_real third\<bar>" "\<bar>dbl_real third\<bar> < 10 powi (- 1 + 1)" unfolding r by (simp_all add: power_int_minus)
  have "0 \<le> dbl_real third" unfolding r by simp
  then show ?thesis
    using dtoa_rounds [OF f m p i K, of 3 6 3 0 None] by (auto simp: Let_def)
qed

end
