(* ===== verification/Dtoa_Roundtrip.thy ===== *)
theory Dtoa_Roundtrip
  imports Dtoa_Correct
begin

text \<open>
  What \<open>dtoa\<close> prints is read back: a text with at most 15 digits is converted by \<open>StringToDouble\<close> to the
  nearest \<open>double\<close>, and that is the \<open>double\<close> printed, since a number has only one.
\<close>

section \<open>A number has one double\<close>

lemma even_bits: "even (mantissa x) \<longleftrightarrow> even (dbl_bits x)"
  by (simp add: mantissa_split dbl_bits_split)

lemma rounds_to_le:
  assumes u: "pos_dbl u" and w: "pos_dbl w" and r: "rounds_to u X" "rounds_to w X"
  shows "dbl_real w \<le> dbl_real u"
proof (rule ccontr)
  assume "\<not> dbl_real w \<le> dbl_real u"
  then have l: "dbl_real u < dbl_real w" by simp
  have fu: "finite_dbl u" and fw: "finite_dbl w" using u w by (simp_all add: pos_dbl_def)
  have e: "\<bar>dbl_real u - X\<bar> = \<bar>dbl_real w - X\<bar>" using r fu fw by (auto simp: rounds_to_def intro: antisym)
  then have ev: "even (mantissa u)" "even (mantissa w)" using r fu fw l by (auto simp: rounds_to_def)
  have X: "2 * X = dbl_real u + dbl_real w" using e l by (simp add: abs_if split: if_splits)
  have b: "dbl_bits u < dbl_bits w" using l pos_bits_real [OF u w] by simp
  have top: "dbl_bits u + 1 < inf_bits" using b fw by (simp add: finite_dbl_def)
  let ?y = "mk_dbl False (dbl_bits u + 1)"
  have py: "pos_dbl ?y" by (rule pos_mk [OF top])
  have "dbl_bits ?y = dbl_bits u + 1" using inf_bits_less [OF top] by (simp add: mk_dbl_fields)
  then have by1: "dbl_bits ?y = dbl_bits u + 1" .
  have uy: "dbl_real u < dbl_real ?y" using pos_bits_real [OF u py] by1 by simp
  have "\<not> dbl_bits w < dbl_bits ?y \<Longrightarrow> dbl_bits ?y \<noteq> dbl_bits w \<Longrightarrow> dbl_real ?y < dbl_real w" using pos_bits_real [OF py w] by simp
  moreover have "\<bar>dbl_real u - X\<bar> \<le> \<bar>dbl_real ?y - X\<bar>" using r(1) py by (auto simp: rounds_to_def pos_dbl_def)
  then have "dbl_real w \<le> dbl_real ?y" using uy X l by (simp add: abs_if split: if_splits)
  ultimately have "dbl_bits w = dbl_bits u + 1" using b by1 by force
  then show False using ev unfolding even_bits by simp
qed

lemma rounds_to_unique: "pos_dbl u \<Longrightarrow> pos_dbl w \<Longrightarrow> rounds_to u X \<Longrightarrow> rounds_to w X \<Longrightarrow> u = w"
  by (intro pos_dbl_eqI antisym rounds_to_le)

text \<open>A positive number is rounded to a number without a sign.\<close>

lemma rounds_pos:
  assumes "rounds_to w X" "0 < X" "pos_dbl u" "0 < mantissa u" "rounds_to u X"
  shows "pos_dbl w"
proof (rule ccontr)
  assume "\<not> pos_dbl w"
  then have "dbl_neg w" using assms(1) by (auto simp: rounds_to_def pos_dbl_def)
  then have n: "dbl_real w \<le> 0" by (simp add: dbl_real_def)
  have f: "finite_dbl dzero" using dzero_pos(1) by (simp add: pos_dbl_def)
  have z: "mantissa dzero = 0" using dzero_pos pos_mantissa [OF dzero_pos(1)] by simp
  have "\<bar>dbl_real dzero - X\<bar> \<le> \<bar>dbl_real w - X\<bar>" using n assms(2) by (simp add: dzero_pos)
  then have "rounds_to dzero X" using assms(1) f z by (fastforce simp: rounds_to_def)
  from rounds_to_unique [OF assms(3) dzero_pos(1) assms(5) this] show False using assms(4) z by simp
qed

section \<open>The text\<close>

text \<open>The digits with a point, written without an exponent; there is a digit on both sides of the point.\<close>

definition plain :: "char list \<Rightarrow> int \<Rightarrow> char list \<times> char list" where
  "plain s p =
     (if p \<le> 0 then (''0'', replicate (nat (- p)) (CHR ''0'') @ s)
      else if p < int (length s) then (take (nat p) s, drop (nat p) s)
      else (s @ replicate (nat p - length s) (CHR ''0''), ''0''))"

lemma decimal_leading: "decimal (replicate n (CHR ''0'') @ s) = decimal s"
  by (induction n) (simp_all add: decimal_def append_decimal_Cons digit_zero)

lemma plain_value:
  assumes "s \<noteq> []" "list_all dec_digit s" "plain s p = (ip, fp)"
  shows "real (decimal (ip @ fp)) / 10 ^ length fp = decimal_value s p" "list_all dec_digit ip" "list_all dec_digit fp" "ip \<noteq> []"
proof -
  have z: "list_all dec_digit (replicate n (CHR ''0''))" for n by (simp add: list_all_iff dec_digit_def digit_zero)
  have "real (decimal (ip @ fp)) / 10 ^ length fp = decimal_value s p \<and> list_all dec_digit ip \<and> list_all dec_digit fp \<and> ip \<noteq> []"
  proof (cases "p \<le> 0")
    case True
    define j where "j = nat (- p)"
    have p: "p - int (length s) = - int (j + length s)" using True by (simp add: j_def)
    have e: "ip = ''0''" "fp = replicate j (CHR ''0'') @ s" using assms(3) True by (simp_all add: plain_def j_def)
    have "decimal (ip @ fp) = decimal s" using decimal_leading [of "Suc j" s] by (simp add: e)
    then show ?thesis using z [of 1] z [of j] assms(2) unfolding decimal_value_def p power_int_minus power_int_of_nat
      by (simp add: e divide_inverse power_add)
  next
    case False
    define q where "q = nat p"
    have q: "p = int q" "0 < q" using False by (simp_all add: q_def)
    show ?thesis
    proof (cases "q < length s")
      case True
      have e: "ip = take q s" "fp = drop q s" using assms(3) True q by (simp_all add: plain_def)
      have p: "p - int (length s) = - int (length s - q)" using True q(1) by simp
      have "list_all dec_digit (take q s @ drop q s)" using assms(2) by simp
      then have "list_all dec_digit (take q s)" "list_all dec_digit (drop q s)" by (simp_all only: list_all_append)
      then show ?thesis using q(2) assms(1) unfolding decimal_value_def p power_int_minus power_int_of_nat
        by (simp add: e divide_inverse)
    next
      case False
      have e: "ip = s @ replicate (q - length s) (CHR ''0'')" "fp = ''0''" using assms(3) False q by (simp_all add: plain_def)
      have p: "p - int (length s) = int (q - length s)" using False q(1) by simp
      have "decimal (ip @ fp) = decimal s * 10 ^ (q - length s) * 10" unfolding e decimal_snoc decimal_trailing digit_zero by simp
      then show ?thesis using z [of 1] z [of "q - length s"] assms(1,2) unfolding decimal_value_def p power_int_of_nat by (simp add: e)
    qed
  qed
  then show "real (decimal (ip @ fp)) / 10 ^ length fp = decimal_value s p" "list_all dec_digit ip" "list_all dec_digit fp" "ip \<noteq> []"
    by blast+
qed

lemma decimal_pos:
  assumes "s \<noteq> []" "list_all dec_digit s" "last s \<noteq> CHR ''0''"
  shows "0 < decimal s"
  using last_not_zero [OF assms, of 0] by simp

section \<open>Printing and reading\<close>

text \<open>
  C5. What \<open>dtoa\<close> prints in mode 0 for a positive \<open>double\<close>, written out with a point, with the zeros that the exponent
  asks for, is read by \<open>StringToDouble\<close> as the same \<open>double\<close> when the text has at most 15 digits, whatever the state
  of the free lists is when it is read.
\<close>

theorem double_roundtrip:
  assumes "finite_dbl d" "\<not> dbl_neg d" "mantissa d \<noteq> 0" "dbl_bits d + 1 < inf_bits" "p5s_ok al" "16 < fuel"
    and "dtoa fuel d 0 ndigits prev al = Inr (out, al')"
    and "plain (rv_chars (do_string out)) (do_decpt out) = (ip, fp)" "length ip + length fp \<le> 15"
  shows "StringToDouble rounds (ip @ ''.'' @ fp) al2 = Inr ((d, True), al2)"
proof -
  have u: "pos_dbl d" "0 < mantissa d" using assms(1-3) by (simp_all add: pos_dbl_def)
  let ?s = "rv_chars (do_string out)"
  have sh: "shortest_for d ?s (do_decpt out)" using dtoa_pos_shortest [OF u assms(4-6), of ndigits prev] assms(7) by auto
  then have s: "?s \<noteq> []" "list_all dec_digit ?s" "last ?s \<noteq> CHR ''0''" "rounds_to d (decimal_value ?s (do_decpt out))"
    by (simp_all add: shortest_for_def)
  note p = plain_value [OF s(1,2) assms(8)]
  have v0: "0 < decimal_value ?s (do_decpt out)" using decimal_pos [OF s(1-3)] by (simp add: decimal_value_def)
  then have "0 < real (decimal (ip @ fp)) / 10 ^ length fp" unfolding p(1) .
  then have "0 < decimal (ip @ fp)" by (simp add: zero_less_divide_iff)
  from StringToDouble_fraction [OF p(2-4) assms(9) this, of rounds al2, unfolded p(1)]
  obtain v where v: "StringToDouble rounds (ip @ ''.'' @ fp) al2 = Inr ((v, True), al2)" "rounds_to v (decimal_value ?s (do_decpt out))"
    by blast
  have "pos_dbl v" by (rule rounds_pos [OF v(2) v0 u s(4)])
  from rounds_to_unique [OF this u(1) v(2) s(4)] v(1) show ?thesis by simp
qed

text \<open>\<open>120000\<close> is printed with at most six digits in front of the point.\<close>

theorem double_roundtrip_witness:
  "\<exists>out al' ip fp. dtoa 17 (dbl_of_nat 120000) 0 0 None alloc_init = Inr (out, al') \<and>
    plain (rv_chars (do_string out)) (do_decpt out) = (ip, fp) \<and>
    StringToDouble 0 (ip @ ''.'' @ fp) al' = Inr ((dbl_of_nat 120000, True), al')"
proof -
  let ?n = "120000 :: nat"
  have n: "0 < ?n" "?n < 10 ^ 15" "15 \<le> (17::nat)" "?n < 2 ^ 53" by simp_all
  obtain out al' where o: "dtoa 17 (dbl_of_nat ?n) 0 0 None alloc_init = Inr (out, al')"
    "10 ^ (nat (do_decpt out) - 1) \<le> ?n" "?n < 10 ^ nat (do_decpt out)" "length (rv_chars (do_string out)) \<le> nat (do_decpt out)"
    by (rule dtoa_integer [OF n(1-3)])
  let ?s = "rv_chars (do_string out)"
  have "(10::nat) ^ (nat (do_decpt out) - 1) < 10 ^ 6" using o(2) by (rule le_less_trans) simp
  then have p: "nat (do_decpt out) - 1 < 6" by (rule power_less_imp_less_exp [rotated]) simp
  obtain ip fp where f: "plain ?s (do_decpt out) = (ip, fp)" by fastforce
  have "0 < do_decpt out" using o(3) by (cases "0 < do_decpt out") simp_all
  then have "length ip + length fp \<le> 15" using f p o(4) by (auto simp: plain_def split: if_splits)
  note len = this
  note u = dbl_of_nat_exact [OF n(4)]
  have fin: "finite_dbl (dbl_of_nat ?n)" "\<not> dbl_neg (dbl_of_nat ?n)" using u(1) by (simp_all add: pos_dbl_def)
  have m: "mantissa (dbl_of_nat ?n) \<noteq> 0" using pos_mantissa [OF u(1)] u(2) by simp
  have top: "dbl_bits (dbl_of_nat ?n) + 1 < inf_bits" by (rule integer_below_top) simp_all
  have a: "p5s_ok alloc_init" by (simp add: p5s_ok_def alloc_init_def)
  have "16 < (17::nat)" by simp
  from double_roundtrip [OF fin m top a this o(1) f len] o(1) f show ?thesis by blast
qed

end
