(* ===== verification/Strtod_Zeros.thy ===== *)
theory Strtod_Zeros
  imports Strtod Doubles_Real
begin

text \<open>
  A run of \<open>strtod\<close> (src/src/common/dtoa.cc) that faults: the cut to 18 digits goes back over zeros
  with an index that leaves the digits when they start behind zeros of the fraction.
\<close>

section \<open>Evaluating\<close>

lemma bit_length_eval: "bit_length 0 = 0" "0 < n \<Longrightarrow> bit_length n = Suc (bit_length (n div 2))"
  by (simp_all add: bit_length.simps)

lemmas dbl_eval =
  dmul_def ddiv_def dadd_def dbl_lit_def dbl_of_nat_def mk_dbl_def mantissa_def dbl_high_def dbl_exp_def
  dbl_bits_def dbl_neg_def dbl_scale_def signed_mantissa_def is_nan_def is_inf_def inf_bits_def
  round_bits_def lead_def round_half_even_def bit_length_eval dle_def deq_def dkey_def dneg_def
  Exp_shift_def Frac_mask_def Let_def

lemmas alloc_eval =
  Balloc_def Bfree_def Bcopy_def put_digits_def put_digit_def do_digits_def digits_def bg_maxwds_def
  Kmax_def PRIVATE_mem_def sizeof_Bigint_def Let_def

lemmas bigint_eval =
  i2b_def d2b_def lo0bits_def hi0bits_def pow5mult_def multadd_def p05_def mult_def strip_top_def lshift_def
  lshift_if_def pow5_if_def diff_def cmp_def Frac_mask_def Exp_shift_def Exp_msk1_def Bias_def P_bits_def alloc_eval

lemmas round_eval =
  compare_round_def round_exponents_def scale_round_def compare_scaled_def half_exponent_def
  common_factor_def Emin_def bigint_eval

section \<open>A fraction that starts with zeros\<close>

text \<open>\<open>0.001\<close>, forty zeros and a \<open>1\<close>: 42 digits behind the first that is not zero.\<close>

definition long_fraction :: "char list" where
  "long_fraction = ''0.001'' @ replicate 40 (CHR ''0'') @ ''1''"

definition long_scan :: scan where
  "long_scan = \<lparr>sc_y = 100000000, sc_z = 0, sc_nd = 42, sc_nd0 = 0, sc_nf = 44, sc_nz = 0, sc_s0 = 4,
     sc_dp1 = 1, sc_dplen = 1, sc_pos = 46\<rparr>"

lemma long_scanned: "strtod_scan long_fraction = Digits False long_scan (- 44)"
  by code_simp

text \<open>The cut leaves no digit: the loop runs over the zeros in front of the digits up to the point.\<close>

lemma long_cut:
  "cut_digits long_fraction long_scan 0 42 (- 44) = Inr \<lparr>ct_nd = 0, ct_nd0 = 0, ct_e = - 2, ct_y = 0\<rparr>"
  by code_simp

text \<open>The approximation is good, the number it is compared with is zero.\<close>

definition milli :: dbl where
  "milli = \<lparr>word0 = 0x3f50624d, word1 = 0xd2f1a9fc\<rparr>"

definition al_zero :: alloc where
  "al_zero = \<lparr>al_free = (\<lambda>_. []), al_next = 1, al_pmem = 4, al_p5s = []\<rparr>"

definition big_zero :: bigint where
  "big_zero = \<lparr>bg_addr = 0, bg_k = 0, bg_sign = 0, bg_wds = 1, bg_x = [0]\<rparr>"

lemma tens_at: "i < 23 \<Longrightarrow> tens ! i = dbl_lit (10 ^ i) 1"
  by (simp add: tens_def)

lemma long_start: "first_digits 100000000 0 16 = \<lparr>word0 = 1124887541, word1 = 640942080\<rparr>"
proof -
  have t: "tens ! 7 = dbl_lit 10000000 (Suc 0)" by (simp add: tens_at)
  have m: "dmul (dbl_lit 10000000 (Suc 0)) (dbl_of_nat 100000000) = \<lparr>word0 = 1124887541, word1 = 640942080\<rparr>"
    by (simp add: dbl_eval)
  have z: "dbl_of_nat 0 = dzero" by (simp add: dbl_eval dzero_def)
  have "dadd \<lparr>word0 = 1124887541, word1 = 640942080\<rparr> dzero = \<lparr>word0 = 1124887541, word1 = 640942080\<rparr>"
    by (rule dadd_zero) (simp_all add: pos_dbl_def finite_dbl_def dbl_eval)
  then show ?thesis by (simp add: first_digits_def t m z)
qed

lemma long_approximation: "first_approximation (- 18) \<lparr>word0 = 1124887541, word1 = 640942080\<rparr> = Approx milli 0"
proof -
  have t: "tens ! 2 = \<lparr>word0 = 0x40590000, word1 = 0\<rparr>" by (simp add: tens_at dbl_eval)
  have d: "ddiv \<lparr>word0 = 1124887541, word1 = 640942080\<rparr> (tens ! 2) = \<lparr>word0 = 1117925532, word1 = 3846176768\<rparr>"
    unfolding t by (simp add: dbl_eval)
  have n: "tinytens ! 0 = dbl_lit (Suc 0) 10000000000000000" by (simp add: tinytens_def nth_append)
  have m: "dmul \<lparr>word0 = 1117925532, word1 = 3846176768\<rparr> (dbl_lit (Suc 0) 10000000000000000) = milli"
    by (simp add: dbl_eval milli_def)
  have z: "\<not> deq milli dzero" by (simp add: dbl_eval milli_def dzero_def)
  have "mul_tinytens 1 0 \<lparr>word0 = 1117925532, word1 = 3846176768\<rparr> = milli"
    by (simp add: mul_tinytens.simps n m)
  then show ?thesis using d z by (simp add: first_approximation_def scale_down_def n_bigtens_def Let_def)
qed

lemma long_s2b: "s2b (drop 4 long_fraction) 0 0 0 1 alloc_init = Inr (big_zero, al_zero)"
  by (simp add: s2b_def alloc_eval alloc_init_def big_zero_def al_zero_def)

definition long_cm :: comparison where
  "long_cm =
     \<lparr>cm_bb = \<lparr>bg_addr = 5, bg_k = 2, bg_sign = 0, bg_wds = 2, bg_x = [858993464, 53687091, 0]\<rparr>,
      cm_bd = \<lparr>bg_addr = 4, bg_k = 2, bg_sign = 0, bg_wds = 2, bg_x = [0, 0, 0]\<rparr>,
      cm_bs = \<lparr>bg_addr = 3, bg_k = 1, bg_sign = 0, bg_wds = 1, bg_x = [25]\<rparr>,
      cm_delta = \<lparr>bg_addr = 6, bg_k = 2, bg_sign = 0, bg_wds = 2, bg_x = [858993464, 53687091]\<rparr>,
      cm_dsign = False, cm_i = 1\<rparr>"

definition long_al :: alloc where
  "long_al = \<lparr>al_free = (\<lambda>_. [])(Suc 0 := [Suc (Suc 0)], Suc (Suc 0) := [], 0 := [Suc 0]), al_next = 7, al_pmem = 36, al_p5s = []\<rparr>"

lemma long_first: "compare_round (- 2) 0 big_zero milli al_zero = Inr (long_cm, milli, long_al)"
  by (simp add: round_eval big_zero_def milli_def al_zero_def long_cm_def long_al_def)

lemma long_adjust: "correct_round 0 42 0 milli long_cm long_al = Inr (Again dzero 42, cm_delta long_cm, long_al)"
proof -
  have r: "ratio (cm_delta long_cm) (cm_bs long_cm) = Inr \<lparr>word0 = 1128292941, word1 = 3539053052\<rparr>"
    by (simp add: ratio_def b2d_def long_cm_def digits_def top_digit_def hi0bits_def Ebits_def Exp_1_def add_exp_def
        Exp_msk1_def dbl_eval)
  have c: "choose_adj False milli \<lparr>word0 = 1128292941, word1 = 3539053052\<rparr> =
      Some (\<lparr>word0 = 1127244365, word1 = 3539053052\<rparr>, \<lparr>word0 = 3274728013, word1 = 3539053052\<rparr>)"
    by (simp add: choose_adj_def dbl_half_def dbl_eval)
  have a: "dadd milli (dmul \<lparr>word0 = 3274728013, word1 = 3539053052\<rparr> (ulp milli)) = dzero"
    by (simp add: ulp_def Exp_mask_def Exp_msk1_def milli_def dzero_def dbl_eval)
  have e: "exp_field milli = 0x3f500000" by (simp add: exp_field_def milli_def Exp_mask_def)
  have "above_half 0 42 0 False milli (cm_delta long_cm) (cm_bs long_cm) = Inr (Again dzero 42)"
    by (simp add: above_half_def r c a e Exp_msk1_def stop_test_def Let_def)
  moreover have "cm_i long_cm = 1" "cm_dsign long_cm = False" by (simp_all add: long_cm_def)
  ultimately show ?thesis by (simp add: correct_round_def decide_round_def)
qed

lemma long_second:
  "compare_round (- 2) 0 big_zero dzero
     (free_all [Some (cm_bb long_cm), Some (cm_bd long_cm), Some (cm_bs long_cm), Some (cm_delta long_cm)] long_al) =
   Inl OutOfBounds"
  by (simp add: round_eval big_zero_def dzero_def long_al_def long_cm_def free_all_def)

text \<open>
  The text of \<open>long_fraction\<close>, a decimal number a little above \<open>0.001\<close>, makes \<open>strtod\<close> read outside the
  digits of one of its numbers: the cut to 18 digits leaves none, the approximation is corrected
  down to zero, and the second round subtracts two zeros of different lengths.
\<close>

theorem strtod_leading_zeros: "strtod (Suc (Suc n)) long_fraction alloc_init = Inl OutOfBounds"
proof -
  have k: "sc_nd long_scan = 42" "sc_nd0 long_scan = 0" "sc_s0 long_scan = 4"
    "sc_y long_scan = 100000000" "sc_z long_scan = 0" "sc_dplen long_scan = 1"
    by (simp_all add: long_scan_def)
  have s: "short_cut 42 (- 44) rv = None" for rv by (simp add: short_cut_def DBL_DIG_def)
  have l: "strtod_loop (Suc (Suc n)) 0 (- 2) 0 big_zero 42 milli al_zero = Inl OutOfBounds"
    by (simp add: long_first long_adjust long_second)
  have "strtod_digits (Suc (Suc n)) long_fraction long_scan (- 44) alloc_init = Inl OutOfBounds"
    using long_cut l long_s2b long_approximation
    by (simp del: strtod_loop.simps add: strtod_digits_def Let_def k s long_start DBL_DIG_def [THEN arg_cong, of "\<lambda>x. min 42 (x + 1)"])
  then show ?thesis by (simp add: strtod_def long_scanned)
qed

end
