(* ===== verification/Strtod_Round.thy ===== *)
theory Strtod_Round
  imports Strtod Doubles_Real Dtoa_Scale
begin

text \<open>
  The correction loop of \<open>strtod\<close> (src/src/common/dtoa.cc): what the multiple-precision comparison of
  a round decides about the approximation, and that a round whose approximation is at most half a
  unit away from the decimal number ends the loop with the nearest double.
\<close>

section \<open>The comparison\<close>

lemma round_exponents_facts:
  assumes "round_exponents e sc bbe bbbits = (bb2, bb5, bd2, bd5, bs2)" "0 \<le> half_exponent bbe bbbits sc" "0 \<le> sc"
  shows "0 \<le> bb2" "0 \<le> bb5" "0 \<le> bd2" "0 \<le> bd5" "0 \<le> bs2" "bb2 = bs2 + half_exponent bbe bbbits sc"
    "bb2 - bd2 = bbe - e - sc" "bd5 = bb5 + e"
  using assms by (auto simp: round_exponents_def common_factor_def Let_def split: if_splits)

lemma mult_normal:
  assumes "normal a" "normal b" "0 < value_of a" "0 < value_of b"
  obtains c al' where "mult a b al = Inr (c, al')" "normal c" "value_of c = value_of a * value_of b" "al_p5s al' = al_p5s al"
proof -
  obtain c al' where "mult a b al = Inr (c, al')" "value_of c = value_of a * value_of b" "al_p5s al' = al_p5s al"
    "0 < value_of c \<longrightarrow> normal c"
    using mult_value [OF normal_ok [OF assms(1)] normal_pos [OF assms(1)] normal_ok [OF assms(2)] normal_pos [OF assms(2)], of al]
    by auto
  with assms(3,4) show ?thesis by (intro that [of c al']) simp_all
qed

text \<open>The first step: \<open>bs\<close>, which is one, becomes a power of five, and multiplies \<open>bb\<close>.\<close>

lemma scale_five_round:
  assumes "normal bb" "0 < value_of bb" "normal bs" "value_of bs = 1" "p5s_ok al" "0 \<le> bb5"
  obtains bs' bb' al' where
    "(if bb5 > 0 then
        bindR (pow5mult bs (nat bb5) al) (\<lambda>(bs, al).
        bindR (mult bs bb al) (\<lambda>(bb1, al). Inr (bs, bb1, Bfree (Some bb) al)))
      else Inr (bs, bb, al)) = Inr (bs', bb', al')"
    "normal bs'" "value_of bs' = 5 ^ nat bb5" "normal bb'" "value_of bb' = value_of bb * 5 ^ nat bb5" "p5s_ok al'"
proof (cases "bb5 > 0")
  case True
  have one: "0 < value_of bs" using assms(4) by simp
  obtain bs' al1 where p: "pow5mult bs (nat bb5) al = Inr (bs', al1)" "normal bs'" "value_of bs' = 5 ^ nat bb5" "p5s_ok al1"
    using pow5mult_lemma [OF assms(3) one assms(5), of "nat bb5"] assms(4) by auto
  have v: "0 < value_of bs'" by (simp add: p(3))
  obtain bb' al2 where m: "mult bs' bb al1 = Inr (bb', al2)" "normal bb'" "value_of bb' = value_of bs' * value_of bb"
    "al_p5s al2 = al_p5s al1"
    by (rule mult_normal [OF p(2) assms(1) v assms(2)])
  have "p5s_ok (Bfree (Some bb) al2)" using p(4) m(4) p5s_ok_cong [of "Bfree (Some bb) al2" al1] by simp
  with True p m show ?thesis by (intro that [of bs' bb' "Bfree (Some bb) al2"]) (simp_all add: mult.commute)
next
  case False
  with assms show ?thesis by (intro that) simp_all
qed

lemma scale_round_value:
  assumes "normal bb" "0 < value_of bb" "normal bd" "0 < value_of bd" "normal bs" "value_of bs = 1" "p5s_ok al"
    and "0 \<le> bb2" "0 \<le> bb5" "0 \<le> bd2" "0 \<le> bd5" "0 \<le> bs2"
  obtains bb' bd' bs' al' where "scale_round (bb2, bb5, bd2, bd5, bs2) bb bd bs al = Inr (bb', bd', bs', al')"
    "normal bb'" "value_of bb' = value_of bb * 5 ^ nat bb5 * 2 ^ nat bb2"
    "normal bd'" "value_of bd' = value_of bd * 5 ^ nat bd5 * 2 ^ nat bd2"
    "normal bs'" "value_of bs' = 5 ^ nat bb5 * 2 ^ nat bs2" "p5s_ok al'"
proof -
  obtain bs1 bb1 al1 where 1: "(if bb5 > 0 then
        bindR (pow5mult bs (nat bb5) al) (\<lambda>(bs, al).
        bindR (mult bs bb al) (\<lambda>(bb1, al). Inr (bs, bb1, Bfree (Some bb) al)))
      else Inr (bs, bb, al)) = Inr (bs1, bb1, al1)"
    "normal bs1" "value_of bs1 = 5 ^ nat bb5" "normal bb1" "value_of bb1 = value_of bb * 5 ^ nat bb5" "p5s_ok al1"
    by (rule scale_five_round [OF assms(1,2,5-7,9)])
  have p: "0 < value_of bb1" "0 < value_of bs1" using 1 assms(2) by simp_all
  obtain bb2' al2 where 2: "lshift_if (bb2 > 0) bb1 bb2 al1 = Inr (bb2', al2)" "normal bb2'"
    "value_of bb2' = value_of bb1 * 2 ^ nat bb2" "p5s_ok al2"
    by (rule lshift_if_value [OF 1(4) p(1) 1(6) assms(8)])
  obtain bd1 al3 where 3: "pow5_if (bd5 > 0) bd bd5 al2 = Inr (bd1, al3)" "normal bd1"
    "value_of bd1 = value_of bd * 5 ^ nat bd5" "p5s_ok al3"
    by (rule pow5_if_value [OF assms(3,4) 2(4) assms(11)])
  have p3: "0 < value_of bd1" using 3 assms(4) by simp
  obtain bd2' al4 where 4: "lshift_if (bd2 > 0) bd1 bd2 al3 = Inr (bd2', al4)" "normal bd2'"
    "value_of bd2' = value_of bd1 * 2 ^ nat bd2" "p5s_ok al4"
    by (rule lshift_if_value [OF 3(2) p3 3(4) assms(10)])
  obtain bs2' al5 where 5: "lshift_if (bs2 > 0) bs1 bs2 al4 = Inr (bs2', al5)" "normal bs2'"
    "value_of bs2' = value_of bs1 * 2 ^ nat bs2" "p5s_ok al5"
    by (rule lshift_if_value [OF 1(2) p(2) 4(4) assms(12)])
  have "scale_round (bb2, bb5, bd2, bd5, bs2) bb bd bs al = Inr (bb2', bd2', bs2', al5)"
    by (simp only: scale_round_def Let_def prod.case 1(1) bindR_Inr 2(1) 3(1) 4(1) 5(1))
  then show ?thesis
    by (rule that) (simp_all add: 1 2 3 4 5)
qed

lemma compare_scaled_value:
  assumes "normal bb" "normal bd" "normal bs"
  obtains cm al' where "compare_scaled bb bd bs al = Inr (cm, al')" "normal (cm_delta cm)" "cm_bs cm = bs"
    "int (value_of (cm_delta cm)) = \<bar>int (value_of bb) - int (value_of bd)\<bar>"
    "cm_dsign cm \<longleftrightarrow> value_of bb < value_of bd"
    "cm_i cm < 0 \<longleftrightarrow> value_of (cm_delta cm) < value_of bs" "cm_i cm = 0 \<longleftrightarrow> value_of (cm_delta cm) = value_of bs"
    "al_p5s al' = al_p5s al"
proof -
  obtain c al' where d: "diff bb bd al = Inr (c, al')" "normal c" "int (value_of c) = \<bar>int (value_of bb) - int (value_of bd)\<bar>"
    "bg_sign c = (if value_of bb < value_of bd then 1 else 0)" "al_p5s al' = al_p5s al"
    using diff_lemma [OF assms(1,2), of al] by blast
  let ?c = "c\<lparr>bg_sign := 0\<rparr>"
  have nc: "normal ?c" "value_of ?c = value_of c"
    using d(2) by (simp_all add: normal_def bg_ok_def digits_def bg_maxwds_def value_of_def)
  obtain i where i: "cmp ?c bs = Inr i" "i < 0 \<longleftrightarrow> value_of ?c < value_of bs" "i = 0 \<longleftrightarrow> value_of ?c = value_of bs"
    using cmp_value [OF nc(1) assms(3)] by blast
  have "compare_scaled bb bd bs al = Inr (\<lparr>cm_bb = bb, cm_bd = bd, cm_bs = bs, cm_delta = ?c, cm_dsign = (bg_sign c \<noteq> 0), cm_i = i\<rparr>, al')"
    by (simp add: compare_scaled_def d(1) i(1))
  then show ?thesis
    by (rule that) (use nc d i in simp_all)
qed

text \<open>
  Half a unit in the last place of the approximation, and the factor the three numbers share. \<open>R\<close> is
  the approximation, \<open>X\<close> the decimal number.
\<close>

lemma powi_mult: "(2::real) powi a * 2 powi b = 2 powi (a + b)"
  by (simp add: power_int_add)

lemma half_exponent_normal:
  assumes "mantissa rv = b * 2 ^ k" "2 ^ (n - 1) \<le> b" "b < 2 ^ n" "0 < n" "2 ^ 52 \<le> mantissa rv"
    and "bbe = dbl_scale rv + int k" "- 1074 \<le> dbl_scale rv - sc"
  shows "half_exponent bbe (int n) sc = bbe - (dbl_scale rv - 1)" "0 \<le> half_exponent bbe (int n) sc"
proof -
  have u: "(2::nat) ^ (n + k - 1) \<le> mantissa rv" "mantissa rv < 2 ^ (n + k)"
  proof -
    have "n + k - 1 = (n - 1) + k" using assms(4) by simp
    then show "(2::nat) ^ (n + k - 1) \<le> mantissa rv" "mantissa rv < 2 ^ (n + k)"
      unfolding assms(1) using assms(2,3) by (simp_all add: power_add)
  qed
  have "(2::nat) ^ (n + k - 1) < 2 ^ 53" using u(1) mantissa_less [of rv] by linarith
  then have "n + k - 1 < 53" by (rule power_less_imp_less_exp [rotated]) simp
  moreover have "(2::nat) ^ 52 < 2 ^ (n + k)" using u(2) assms(5) by linarith
  then have "52 < n + k" by (rule power_less_imp_less_exp [rotated]) simp
  ultimately have nk: "n + k = 53" by linarith
  then have "int k = 53 - int n" by linarith
  then show "half_exponent bbe (int n) sc = bbe - (dbl_scale rv - 1)" "0 \<le> half_exponent bbe (int n) sc"
    using assms(6,7) nk by (auto simp: half_exponent_def Emin_def P_bits_def Let_def)
qed

lemma round_factor:
  fixes b V :: nat
  assumes f: "0 \<le> bb2" "0 \<le> bb5" "0 \<le> bd2" "0 \<le> bd5" "0 \<le> bs2" "bb2 = bs2 + j" "bb2 - bd2 = bbe - e - sc" "bd5 = bb5 + e"
  defines "F \<equiv> 2 powi (bb2 - bbe + sc) * 5 powi bb5"
  shows "real (b * 5 ^ nat bb5 * 2 ^ nat bb2) = F * (real b * 2 powi (bbe - sc))"
    "real (V * 5 ^ nat bd5 * 2 ^ nat bd2) = F * (real V * 10 powi e)"
    "real (5 ^ nat bb5 * 2 ^ nat bs2) = F * 2 powi (bbe - sc - j)" "0 < F"
proof -
  have p: "(2::real) ^ nat i = 2 powi i" "(5::real) ^ nat i = 5 powi i" if "0 \<le> i" for i using that by (simp_all add: power_int_def)
  have t: "(10::real) powi e = 2 powi e * 5 powi e" by (simp flip: power_int_mult_distrib)
  have d2: "bd2 = (bb2 - bbe + sc) + e" using f(7) by linarith
  show "real (b * 5 ^ nat bb5 * 2 ^ nat bb2) = F * (real b * 2 powi (bbe - sc))"
    using p f(1,2) powi_mult [of "bb2 - bbe + sc" "bbe - sc"] by (simp add: F_def ac_simps)
  show "real (V * 5 ^ nat bd5 * 2 ^ nat bd2) = F * (real V * 10 powi e)"
    using p f(3,4) powi_mult [of "bb2 - bbe + sc" e] power_int_add [of "5::real" bb5 e] d2 f(8) by (simp add: F_def t ac_simps)
  show "real (5 ^ nat bb5 * 2 ^ nat bs2) = F * 2 powi (bbe - sc - j)"
    using p f(2,5,6) powi_mult [of "bb2 - bbe + sc" "bbe - sc - j"] by (simp add: F_def ac_simps)
  show "0 < F" by (simp add: F_def)
qed

lemma compare_round_value:
  assumes bd0: "normal bd0" "0 < value_of bd0" and al: "p5s_ok al"
    and rv: "pos_dbl rv" "dbl_exp rv \<noteq> 0" and sc: "0 \<le> sc" "- 1074 \<le> dbl_scale rv - sc"
    and R: "R = dbl_real rv * 2 powi (- sc)" and X: "X = real (value_of bd0) * 10 powi e" and h: "h = 2 powi (dbl_scale rv - sc - 1)"
  obtains cm al' F where "compare_round e sc bd0 rv al = Inr (cm, rv, al')" "normal (cm_delta cm)" "normal (cm_bs cm)"
    "cm_dsign cm \<longleftrightarrow> R < X" "cm_i cm < 0 \<longleftrightarrow> \<bar>R - X\<bar> < h" "cm_i cm = 0 \<longleftrightarrow> \<bar>R - X\<bar> = h"
    "real (value_of (cm_delta cm)) = F * \<bar>R - X\<bar>" "real (value_of (cm_bs cm)) = F * h" "0 < F" "p5s_ok al'"
proof -
  have m52: "2 ^ 52 \<le> mantissa rv" by (rule mantissa_normal [OF rv(2)])
  then have m0: "mantissa rv \<noteq> 0" by (cases "mantissa rv") simp_all
  obtain bd al1 where ba: "Balloc (bg_k bd0) al = (bd, al1)" "bg_x bd = []" "bg_maxwds bd = 2 ^ bg_k bd0" "al_p5s al1 = al_p5s al"
    by (rule Balloc_obtain [of "bg_k bd0" al]) (metis Balloc_p5s)
  have wl: "bg_wds bd0 \<le> bg_maxwds bd" using bd0(1) ba(3) by (simp add: normal_def bg_ok_def bg_maxwds_def)
  obtain bd1 where bc: "Bcopy bd bd0 = Inr bd1" "bg_ok bd1" "digits bd1 = digits bd0" "bg_wds bd1 = bg_wds bd0"
    by (rule Bcopy_ok [OF normal_ok [OF bd0(1)] ba(2) wl]) blast
  have nbd: "normal bd1" "value_of bd1 = value_of bd0" using bc bd0(1) by (simp_all add: normal_def value_of_def)
  obtain bb bbe bits rv' al2 k n where d: "d2b rv al1 = Inr (bb, bbe, bits, rv', al2)" "normal bb" "odd (value_of bb)"
    "mantissa rv = value_of bb * 2 ^ k" "bbe = int (max 1 (dbl_exp rv)) - 1075 + int k"
    "bits = int n" "0 < n" "2 ^ (n - 1) \<le> value_of bb" "value_of bb < 2 ^ n" "rv' = rv\<lparr>word0 := word0 rv AND 0x7fffffff\<rparr>"
    using d2b_lemma [OF m0, of al1] by blast
  have vb: "0 < value_of bb" using d(3) by (cases "value_of bb") simp_all
  have rv': "rv' = rv"
  proof (rule dbl_eqI)
    show "dbl_bits rv' = dbl_bits rv" by (simp add: d(10) dbl_bits_def and.assoc)
    show "dbl_neg rv' = dbl_neg rv" using rv(1) by (simp add: d(10) pos_dbl_def dbl_neg_def bit_and_iff)
  qed
  have al2: "p5s_ok al2" using al p5s_ok_cong [of al2 al] d2b_p5s [OF d(1)] ba(4) by simp
  obtain bs al3 where s: "i2b 1 al2 = Inr (bs, al3)" "normal bs" "value_of bs = 1" "al_p5s al3 = al_p5s al2"
    using i2b_value [of 1 al2] by auto
  have al3: "p5s_ok al3" using al2 p5s_ok_cong [OF s(4)] by simp
  have bbe: "bbe = dbl_scale rv + int k" by (simp add: d(5) dbl_scale_def)
  note he = half_exponent_normal [OF d(4,8,9,7) m52 bbe sc(2), folded d(6)]
  obtain bb2 bb5 bd2 bd5 bs2 where ex: "round_exponents e sc bbe bits = (bb2, bb5, bd2, bd5, bs2)" by (metis prod_cases5)
  note f = round_exponents_facts [OF ex he(2) sc(1)]
  have v1: "0 < value_of bd1" using nbd(2) bd0(2) by simp
  obtain bb' bd' bs' al4 where r: "scale_round (bb2, bb5, bd2, bd5, bs2) bb bd1 bs al3 = Inr (bb', bd', bs', al4)"
    "normal bb'" "value_of bb' = value_of bb * 5 ^ nat bb5 * 2 ^ nat bb2"
    "normal bd'" "value_of bd' = value_of bd1 * 5 ^ nat bd5 * 2 ^ nat bd2"
    "normal bs'" "value_of bs' = 5 ^ nat bb5 * 2 ^ nat bs2" "p5s_ok al4"
    by (rule scale_round_value [OF d(2) vb nbd(1) v1 s(2,3) al3 f(1-5)])
  obtain cm al5 where c: "compare_scaled bb' bd' bs' al4 = Inr (cm, al5)" "normal (cm_delta cm)" "cm_bs cm = bs'"
    "int (value_of (cm_delta cm)) = \<bar>int (value_of bb') - int (value_of bd')\<bar>" "cm_dsign cm \<longleftrightarrow> value_of bb' < value_of bd'"
    "cm_i cm < 0 \<longleftrightarrow> value_of (cm_delta cm) < value_of bs'" "cm_i cm = 0 \<longleftrightarrow> value_of (cm_delta cm) = value_of bs'"
    "al_p5s al5 = al_p5s al4"
    by (rule compare_scaled_value [OF r(2,4,6)])
  define F where "F = (2::real) powi (bb2 - bbe + sc) * 5 powi bb5"
  note ff = round_factor [OF f, folded F_def]
  have Rv: "R = real (value_of bb) * 2 powi (bbe - sc)"
    unfolding R pos_real [OF rv(1)] d(4) bbe by (simp add: power_int_add power_int_diff power_int_minus divide_inverse ac_simps)
  have bb: "real (value_of bb') = F * R" unfolding r(3) Rv by (rule ff(1))
  have bd: "real (value_of bd') = F * X" unfolding r(5) X nbd(2) by (rule ff(2))
  have hs: "bbe - sc - half_exponent bbe bits sc = dbl_scale rv - sc - 1" using he(1) by linarith
  have bs: "real (value_of bs') = F * h" unfolding r(7) h using ff(3) unfolding hs .
  have "real (value_of (cm_delta cm)) = \<bar>real (value_of bb') - real (value_of bd')\<bar>"
    using arg_cong [OF c(4), of real_of_int] by simp
  then have delta: "real (value_of (cm_delta cm)) = F * \<bar>R - X\<bar>"
    unfolding bb bd right_diff_distrib [symmetric] abs_mult using ff(4) by simp
  have i1: "cm_dsign cm \<longleftrightarrow> R < X"
    unfolding c(5) of_nat_less_iff [where 'a = real, symmetric] bb bd using ff(4) by simp
  have i2: "cm_i cm < 0 \<longleftrightarrow> \<bar>R - X\<bar> < h"
    unfolding c(6) of_nat_less_iff [where 'a = real, symmetric] delta bs using ff(4) by simp
  have i3: "cm_i cm = 0 \<longleftrightarrow> \<bar>R - X\<bar> = h"
    unfolding c(7) of_nat_eq_iff [where 'a = real, symmetric] delta bs using ff(4) by simp
  have run: "compare_round e sc bd0 rv al = Inr (cm, rv, al5)"
    by (simp only: compare_round_def Let_def ba(1) prod.case bc(1) bindR_Inr d(1) s(1) ex r(1) c(1) rv')
  show ?thesis
    by (rule that [OF run c(2) _ i1 i2 i3 delta _ ff(4)]) (use c(3,8) r(6,8) bs p5s_ok_cong [of al5 al4] in simp_all)
qed

section \<open>Neighbours\<close>

text \<open>The double as its bits, and the doubles next to it.\<close>

lemma pos_bits: "pos_dbl v \<Longrightarrow> v = mk_dbl False (dbl_bits v)"
  using inf_bits_less [of "dbl_bits v"] by (intro dbl_eqI) (simp_all add: pos_dbl_def finite_dbl_def)

lemma bits_of_normal:
  assumes "dbl_exp rv \<noteq> 0"
  shows "dbl_bits rv = (dbl_exp rv - 1) * 2 ^ 52 + mantissa rv" "dbl_scale rv = int (dbl_exp rv - 1) - 1074"
  using assms by (cases "dbl_exp rv"; simp add: dbl_bits_split mantissa_split dbl_scale_def)+

lemma next_double:
  assumes "pos_dbl v" "dbl_bits v = dbl_bits rv + 1" "dbl_exp rv \<noteq> 0"
  shows "dbl_real v = real (mantissa rv + 1) * 2 powi dbl_scale rv" "even (mantissa v) = odd (mantissa rv)"
proof -
  have m: "mantissa rv + 1 \<le> 2 ^ 53" "dbl_exp rv - 1 = 0 \<or> 2 ^ 52 \<le> mantissa rv + 1"
    using mantissa_less [of rv] mantissa_normal [OF assms(3)] by simp_all
  have n: "dbl_bits v = (dbl_exp rv - 1) * 2 ^ 52 + (mantissa rv + 1)" "dbl_bits v < inf_bits"
    using assms bits_of_normal [OF assms(3)] by (simp_all add: pos_dbl_def finite_dbl_def)
  note b = bits_value [OF m n, of False, folded pos_bits [OF assms(1)]]
  show "dbl_real v = real (mantissa rv + 1) * 2 powi dbl_scale rv"
    using b(3) bits_of_normal(2) [OF assms(3)] by simp
  show "even (mantissa v) = odd (mantissa rv)"
  proof (cases "mantissa rv + 1 = 2 ^ 53")
    case True
    then have "even (mantissa rv + 1)" by simp
    then show ?thesis using b(2) True by simp
  qed (use b(2) in simp)
qed

lemma previous_double:
  assumes "pos_dbl v" "dbl_bits v + 1 = dbl_bits rv" "mantissa rv = 2 ^ 52" "1 < dbl_exp rv"
  shows "dbl_real v = real (2 ^ 53 - 1) * 2 powi (dbl_scale rv - 1)"
proof -
  have e: "dbl_exp rv \<noteq> 0" "dbl_exp rv - 1 = Suc (dbl_exp rv - 2)" using assms(4) by simp_all
  have n: "dbl_bits v = (dbl_exp rv - 2) * 2 ^ 52 + (2 ^ 53 - 1)" "dbl_bits v < inf_bits"
    using assms(1-3) bits_of_normal(1) [OF e(1)] e(2) by (simp_all add: pos_dbl_def finite_dbl_def)
  have m: "2 ^ 53 - 1 \<le> (2::nat) ^ 53" "dbl_exp rv - 2 = 0 \<or> 2 ^ 52 \<le> (2::nat) ^ 53 - 1" by simp_all
  note b = bits_value [OF m n, of False, folded pos_bits [OF assms(1)]]
  have "int (dbl_exp rv - 2) - 1074 = dbl_scale rv - 1" using bits_of_normal(2) [OF e(1)] e(2) by simp
  then show ?thesis using b(3) by simp
qed

text \<open>When the approximation is the nearest double, and when one next to it is.\<close>

lemma below_two_to_53:
  fixes w :: real
  assumes "0 < w" "2 ^ 53 * w - w / 2 \<le> X \<or> 2 ^ 53 * w - X \<le> w"
  shows "2 ^ 52 * w \<le> X"
  using assms by auto

lemma rounds_stay:
  assumes rv: "pos_dbl rv" "1 < dbl_exp rv" and near: "\<bar>dbl_real rv - X\<bar> \<le> 2 powi dbl_scale rv / 2"
    and pow: "X < dbl_real rv \<Longrightarrow> mantissa rv = 2 ^ 52 \<Longrightarrow> \<bar>dbl_real rv - X\<bar> \<le> 2 powi dbl_scale rv / 4"
    and tie: "\<bar>dbl_real rv - X\<bar> = 2 powi dbl_scale rv / 2 \<Longrightarrow> even (mantissa rv)"
  shows "rounds_to rv X"
proof -
  let ?u = "(2::real) powi dbl_scale rv"
  have f: "finite_dbl rv" using rv(1) by (simp add: pos_dbl_def)
  note r = pos_real [OF rv(1)]
  have m52: "2 ^ 52 \<le> mantissa rv" using rv(2) by (intro mantissa_normal) simp
  show ?thesis
  proof (cases "2 ^ 52 * ?u \<le> X")
    case True
    then show ?thesis
      by (intro rounds_toI [OF f r dbl_scale_ge]) (use near tie r in simp_all)
  next
    case False
    have "real (mantissa rv) * ?u < (2 ^ 52 + 1) * ?u" using near False powi_pos [of "dbl_scale rv"] unfolding r distrib_right by linarith
    then have "real (mantissa rv) < 2 ^ 52 + 1" by (rule mult_right_less_imp_less) simp
    then have "real (mantissa rv) < real (2 ^ 52 + 1)" by simp
    then have "mantissa rv < 2 ^ 52 + 1" by (simp only: of_nat_less_iff)
    then have m: "mantissa rv = 2 ^ 52" using m52 by linarith
    then have r52: "dbl_real rv = 2 ^ 52 * ?u" using r by simp
    then have q: "\<bar>dbl_real rv - X\<bar> \<le> ?u / 4" using pow m False by simp
    have p: "?u = 2 * 2 powi (dbl_scale rv - 1)" using powi_Suc [of "dbl_scale rv - 1"] by simp
    then have r53: "dbl_real rv = real (2 ^ 53) * 2 powi (dbl_scale rv - 1)" using r52 by simp
    show ?thesis
    proof (rule rounds_toI [OF f r53])
      show "- 1074 \<le> dbl_scale rv - 1" using rv(2) by (simp add: dbl_scale_def)
      show "\<bar>real (2 ^ 53) * 2 powi (dbl_scale rv - 1) - X\<bar> \<le> 2 powi (dbl_scale rv - 1) / 2"
        using q unfolding r53 [symmetric] p by simp
      have "2 ^ 53 * 2 powi (dbl_scale rv - 1) - 2 powi (dbl_scale rv - 1) / 2 \<le> X"
        using q False unfolding r52 p by (simp add: abs_le_iff)
      then have "2 ^ 52 * 2 powi (dbl_scale rv - 1) \<le> X" by (intro below_two_to_53) simp_all
      then show "dbl_scale rv - 1 = - 1074 \<or> 2 ^ 52 * 2 powi (dbl_scale rv - 1) \<le> X" by blast
      show "even (mantissa rv)" unfolding m by simp
    qed
  qed
qed

lemma rounds_up:
  assumes rv: "pos_dbl rv" "dbl_exp rv \<noteq> 0" and half: "X = dbl_real rv + 2 powi dbl_scale rv / 2"
    and v: "finite_dbl v" "dbl_real v = real (mantissa rv + 1) * 2 powi dbl_scale rv" "even (mantissa v)"
  shows "rounds_to v X"
proof (rule rounds_toI [OF v(1,2) dbl_scale_ge])
  let ?u = "(2::real) powi dbl_scale rv"
  have X: "X = real (mantissa rv) * ?u + ?u / 2" using half pos_real [OF rv(1)] by simp
  have d: "real (mantissa rv + 1) * ?u - X = ?u / 2" unfolding X by (simp add: distrib_right)
  show "\<bar>real (mantissa rv + 1) * ?u - X\<bar> \<le> ?u / 2" unfolding d by simp
  have "(2::real) ^ 52 \<le> real (mantissa rv)" using mantissa_normal [OF rv(2)] by (metis of_nat_le_iff of_nat_numeral of_nat_power)
  then have "2 ^ 52 * ?u \<le> real (mantissa rv) * ?u" by (rule mult_right_mono) simp
  then show "dbl_scale rv = - 1074 \<or> 2 ^ 52 * ?u \<le> X" unfolding X using powi_pos [of "dbl_scale rv"] by linarith
qed (rule v(3))

lemma rounds_down:
  assumes rv: "pos_dbl rv" "2 ^ 52 < mantissa rv" and half: "X = dbl_real rv - 2 powi dbl_scale rv / 2"
    and v: "finite_dbl v" "dbl_real v = real (mantissa rv - 1) * 2 powi dbl_scale rv" "even (mantissa v)"
  shows "rounds_to v X"
proof (rule rounds_toI [OF v(1,2) dbl_scale_ge])
  let ?u = "(2::real) powi dbl_scale rv"
  have m: "mantissa rv = (mantissa rv - 1) + 1" using rv(2) by simp
  have X: "X = real (mantissa rv - 1) * ?u + ?u / 2"
    unfolding half pos_real [OF rv(1)] by (subst m) (simp add: distrib_right del: One_nat_def)
  show "\<bar>real (mantissa rv - 1) * ?u - X\<bar> \<le> ?u / 2" unfolding X by simp
  have "2 ^ 52 \<le> mantissa rv - 1" using rv(2) by simp
  then have "(2::real) ^ 52 \<le> real (mantissa rv - 1)" by (metis of_nat_le_iff of_nat_numeral of_nat_power)
  then have "2 ^ 52 * ?u \<le> real (mantissa rv - 1) * ?u" by (rule mult_right_mono) simp
  then show "dbl_scale rv = - 1074 \<or> 2 ^ 52 * ?u \<le> X" unfolding X using powi_pos [of "dbl_scale rv"] by linarith
qed (rule v(3))

lemma rounds_drop:
  assumes rv: "pos_dbl rv" "mantissa rv = 2 ^ 52" "1 < dbl_exp rv"
    and X: "dbl_real rv - X \<le> 2 powi dbl_scale rv / 2" "2 powi dbl_scale rv / 4 < dbl_real rv - X"
    and v: "finite_dbl v" "dbl_real v = real (2 ^ 53 - 1) * 2 powi (dbl_scale rv - 1)"
  shows "rounds_to v X"
proof (rule rounds_toI [OF v])
  let ?w = "(2::real) powi (dbl_scale rv - 1)"
  have p: "2 powi dbl_scale rv = 2 * ?w" using powi_Suc [of "dbl_scale rv - 1"] by simp
  have r: "dbl_real rv = 2 ^ 53 * ?w" using pos_real [OF rv(1)] rv(2) p by simp
  have m: "real (2 ^ 53 - 1) * ?w = 2 ^ 53 * ?w - ?w" by (simp add: left_diff_distrib [symmetric])
  show "- 1074 \<le> dbl_scale rv - 1" using rv(3) by (simp add: dbl_scale_def)
  show "\<bar>real (2 ^ 53 - 1) * ?w - X\<bar> \<le> ?w / 2" unfolding m using X unfolding r p by linarith
  have "2 ^ 53 * ?w - X \<le> ?w" using X(1) unfolding r p by simp
  then have "2 ^ 52 * ?w \<le> X" by (intro below_two_to_53 [of ?w]) simp_all
  then show "dbl_scale rv - 1 = - 1074 \<or> 2 ^ 52 * ?w \<le> X" by blast
  assume "\<bar>real (2 ^ 53 - 1) * ?w - X\<bar> = ?w / 2"
  then show "even (mantissa v)" unfolding m using X unfolding r p by linarith
qed

end
