(* ===== verification/Strtod_Nearest.thy ===== *)
theory Strtod_Nearest
  imports Strtod_Round Dtoa_Estimate
begin

text \<open>
  A round of the correction loop of \<open>strtod\<close> (src/src/common/dtoa.cc) whose approximation is at most half
  a unit away from the decimal number: every branch the code takes ends the loop with the nearest double.
\<close>

section \<open>The words of an approximation\<close>

lemma exp_field_nat: "unat (exp_field rv) = 2 ^ 20 * dbl_exp rv"
proof -
  let ?w = "exp_field rv"
  have "take_bit 20 (Exp_mask :: 32 word) = 0" by (simp add: Exp_mask_def take_bit_eq_mask mask_eq_exp_minus_1)
  then have "take_bit 20 ?w = 0" unfolding exp_field_def by simp
  then have "take_bit 20 (unat ?w) = 0" by (simp only: unsigned_take_bit_eq [symmetric]) simp
  then have t: "unat ?w mod 2 ^ 20 = 0" by (simp only: take_bit_eq_mod)
  have "drop_bit Exp_shift ?w = drop_bit Exp_shift (word0 rv AND 0x7fffffff)"
    unfolding exp_field_def drop_bit_and [of _ "word0 rv" Exp_mask] by (rule exponent_word)
  then have "unat (drop_bit 20 ?w) = dbl_exp rv" by (simp only: dbl_exp_def) (simp only: Exp_shift_def)
  moreover have "unat (drop_bit 20 ?w) = unat ?w div 2 ^ 20" by (subst unat_drop_bit_eq) (rule drop_bit_eq_div)
  ultimately have "unat ?w div 2 ^ 20 = dbl_exp rv" by simp
  then show ?thesis using div_mult_mod_eq [of "unat ?w" "2 ^ 20"] t by simp
qed

lemma exp_field_le:
  assumes "n < 2 ^ 11"
  shows "exp_field rv \<le> of_nat n * Exp_msk1 \<longleftrightarrow> dbl_exp rv \<le> n"
proof -
  have "unat (of_nat n * Exp_msk1 :: 32 word) = 2 ^ 20 * n"
    using assms by (simp add: Exp_msk1_def unat_word_ariths unat_of_nat take_bit_nat_eq_self mod_less)
  then show ?thesis by (simp add: word_le_nat_alt exp_field_nat)
qed

lemma power_of_two_frac: "power_of_two rv \<longleftrightarrow> dbl_frac rv = 0"
  by (auto simp: power_of_two_def dbl_frac_def Bndry_mask_def Frac_mask_def unat_eq_0)

lemma full_frac: "word0 rv AND Bndry_mask = Bndry_mask \<and> word1 rv = 0xffffffff \<longleftrightarrow> dbl_frac rv = 2 ^ 52 - 1"
proof -
  have b: "unat (word0 rv AND Frac_mask) < 2 ^ 20" "unat (word1 rv) < 2 ^ 32" by (rule frac_bound, rule unat32)
  have m: "Bndry_mask = Frac_mask" "unat Frac_mask = 2 ^ 20 - 1" "unat (0xffffffff :: 32 word) = 2 ^ 32 - 1"
    by (simp_all add: Bndry_mask_def Frac_mask_def)
  have "word0 rv AND Bndry_mask = Bndry_mask \<longleftrightarrow> unat (word0 rv AND Frac_mask) = 2 ^ 20 - 1"
    unfolding m(1) m(2) [symmetric] by (simp only: word_unat_eq_iff)
  moreover have "word1 rv = 0xffffffff \<longleftrightarrow> unat (word1 rv) = 2 ^ 32 - 1"
    unfolding m(3) [symmetric] by (simp only: word_unat_eq_iff)
  moreover have "l + 2 ^ 32 * h = 2 ^ 52 - 1 \<longleftrightarrow> h = 2 ^ 20 - 1 \<and> l = 2 ^ 32 - 1" if "h < 2 ^ 20" "l < 2 ^ 32" for l h :: nat
  proof -
    have dm: "(l + 2 ^ 32 * h) div 2 ^ 32 = h" "(l + 2 ^ 32 * h) mod 2 ^ 32 = l" using that(2) by simp_all
    have c: "(2 ^ 52 - 1) div 2 ^ 32 = (2 :: nat) ^ 20 - 1" "(2 ^ 52 - 1) mod 2 ^ 32 = (2 :: nat) ^ 32 - 1"
      "2 ^ 32 - 1 + 2 ^ 32 * (2 ^ 20 - 1) = (2 :: nat) ^ 52 - 1" by simp_all
    show ?thesis using dm c by metis
  qed
  ultimately show ?thesis using b unfolding dbl_frac_def by blast
qed

lemma even_mantissa: "word1 rv AND 1 = 0 \<longleftrightarrow> even (mantissa rv)"
proof -
  have "word1 rv AND 1 = 0 \<longleftrightarrow> even (word1 rv)" by (simp add: and_one_eq even_iff_mod_2_eq_zero)
  also have "\<dots> \<longleftrightarrow> \<not> bit (unat (word1 rv)) 0" by (simp only: bit_unsigned_iff) (simp add: bit_0)
  also have "\<dots> \<longleftrightarrow> even (unat (word1 rv))" by (simp only: bit_0 not_not)
  also have "\<dots> \<longleftrightarrow> even (mantissa rv)" by (simp add: mantissa_def)
  finally show ?thesis .
qed

text \<open>A double from its exponent and fraction.\<close>

lemma dbl_of_words:
  assumes "unat w0 = e * 2 ^ 20 + h" "h < 2 ^ 20" "e < 2047"
  shows "pos_dbl \<lparr>word0 = w0, word1 = w1\<rparr>" "dbl_bits \<lparr>word0 = w0, word1 = w1\<rparr> = e * 2 ^ 52 + (unat w1 + 2 ^ 32 * h)"
proof -
  let ?d = "\<lparr>word0 = w0, word1 = w1\<rparr>"
  have l: "e * 2 ^ 20 + h < 2 ^ 31" using assms(2,3) by simp
  have "unat w0 mod 2 ^ 31 = e * 2 ^ 20 + h" using l assms(1) by simp
  then show b: "dbl_bits ?d = e * 2 ^ 52 + (unat w1 + 2 ^ 32 * h)" by (simp add: dbl_bits_def low31)
  have "\<not> bit w0 31" using unat_halves [of w0] assms(1) l by (auto split: if_splits)
  moreover have "unat w1 + 2 ^ 32 * h < 2 ^ 52" using assms(2) unat32 [of w1] by simp
  moreover have "(e + 1) * 2 ^ 52 \<le> 2047 * (2::nat) ^ 52" using assms(3) by (intro mult_right_mono) simp_all
  ultimately show "pos_dbl ?d" unfolding pos_dbl_def finite_dbl_def b by (simp add: dbl_neg_def inf_bits_def)
qed

lemma exp_step:
  assumes "n < 2 ^ 11"
  shows "unat (of_nat n * Exp_msk1 :: 32 word) = n * 2 ^ 20"
  using assms by (simp add: Exp_msk1_def unat_word_ariths unat_of_nat take_bit_nat_eq_self mod_less)

lemma exp_field_word: "exp_field rv = of_nat (dbl_exp rv) * Exp_msk1"
  by (rule word_unat_eq_iff [THEN iffD2]) (simp add: exp_field_nat exp_step dbl_exp_less)

text \<open>One unit, the double below a power of two, and the power of two above a full mantissa.\<close>

lemma ulp_value:
  assumes "52 < dbl_exp rv" "dbl_exp rv < 2047"
  shows "pos_dbl (ulp rv)" "dbl_real (ulp rv) = 2 powi dbl_scale rv"
proof -
  define n where "n = dbl_exp rv - 52"
  have n: "dbl_exp rv = n + 52" "n < 2047" "0 < n" using assms by (simp_all add: n_def)
  have "exp_field rv - 52 * Exp_msk1 = of_nat n * Exp_msk1" unfolding exp_field_word n(1) by (simp add: algebra_simps)
  then have u: "ulp rv = \<lparr>word0 = of_nat n * Exp_msk1, word1 = 0\<rparr>" by (simp add: ulp_def exp_field_def)
  have w: "unat (of_nat n * Exp_msk1 :: 32 word) = n * 2 ^ 20 + 0" using exp_step [of n] n(2) by simp
  note d = dbl_of_words [OF w _ n(2), of 0, folded u]
  show p: "pos_dbl (ulp rv)" using d(1) by simp
  have b: "dbl_bits (ulp rv) = n * 2 ^ 52" using d(2) by simp
  have "dbl_exp (ulp rv) = n" "dbl_frac (ulp rv) = 0" by (simp_all add: bits_fields b)
  then have "mantissa (ulp rv) = 2 ^ 52" "dbl_scale (ulp rv) = int n - 1075" using n(3) by (simp_all add: mantissa_split dbl_scale_def)
  then have "dbl_real (ulp rv) = 2 ^ 52 * 2 powi (int n - 1075)" using pos_real [OF p] by simp
  also have "\<dots> = 2 powi (int 52 + (int n - 1075))" by (rule powi_shift)
  also have "int 52 + (int n - 1075) = dbl_scale rv" by (simp add: dbl_scale_def n(1))
  finally show "dbl_real (ulp rv) = 2 powi dbl_scale rv" .
qed

lemma dropped:
  assumes "0 < dbl_exp rv" "dbl_exp rv < 2047" "dbl_frac rv = 0"
  shows "pos_dbl \<lparr>word0 = (exp_field rv - Exp_msk1) OR Bndry_mask, word1 = 0xffffffff\<rparr>"
    "dbl_bits \<lparr>word0 = (exp_field rv - Exp_msk1) OR Bndry_mask, word1 = 0xffffffff\<rparr> + 1 = dbl_bits rv"
proof -
  define n where "n = dbl_exp rv - 1"
  have n: "dbl_exp rv = Suc n" "n < 2047" using assms by (simp_all add: n_def)
  have "exp_field rv - Exp_msk1 = of_nat n * Exp_msk1" unfolding exp_field_word n(1) by (simp add: algebra_simps)
  moreover have "unat (of_nat n * Exp_msk1 OR Bndry_mask :: 32 word) = n * 2 ^ 20 + (2 ^ 20 - 1)"
  proof -
    have "unat (of_nat n * Exp_msk1 :: 32 word) = push_bit 20 n" "unat Bndry_mask = 2 ^ 20 - 1"
      using exp_step [of n] n(2) by (simp_all add: push_bit_eq_mult Bndry_mask_def)
    then have "unat (of_nat n * Exp_msk1 OR Bndry_mask :: 32 word) = push_bit 20 n OR (2 ^ 20 - 1)" by (simp only: unsigned_or_eq)
    also have "\<dots> = n * 2 ^ 20 + (2 ^ 20 - 1)" by (rule or_low_bits) simp
    finally show ?thesis .
  qed
  ultimately have w: "unat ((exp_field rv - Exp_msk1) OR Bndry_mask) = n * 2 ^ 20 + (2 ^ 20 - 1)" by simp
  have h: "2 ^ 20 - 1 < (2 :: nat) ^ 20" by simp
  note d = dbl_of_words [OF w h n(2), of "0xffffffff"]
  show "pos_dbl \<lparr>word0 = (exp_field rv - Exp_msk1) OR Bndry_mask, word1 = 0xffffffff\<rparr>" by (rule d(1))
  show "dbl_bits \<lparr>word0 = (exp_field rv - Exp_msk1) OR Bndry_mask, word1 = 0xffffffff\<rparr> + 1 = dbl_bits rv"
    unfolding d(2) dbl_bits_split [of rv] n(1) assms(3) by simp
qed

lemma carried:
  assumes "dbl_exp rv < 2046" "dbl_frac rv = 2 ^ 52 - 1"
  shows "pos_dbl \<lparr>word0 = exp_field rv + Exp_msk1, word1 = 0\<rparr>"
    "dbl_bits \<lparr>word0 = exp_field rv + Exp_msk1, word1 = 0\<rparr> = dbl_bits rv + 1"
proof -
  define n where "n = dbl_exp rv + 1"
  have n: "n < 2047" using assms by (simp add: n_def)
  have "exp_field rv + Exp_msk1 = of_nat n * Exp_msk1" unfolding exp_field_word n_def by (simp add: algebra_simps)
  then have w: "unat (exp_field rv + Exp_msk1) = n * 2 ^ 20 + 0" using exp_step [of n] n by simp
  note d = dbl_of_words [OF w _ n, of 0]
  show "pos_dbl \<lparr>word0 = exp_field rv + Exp_msk1, word1 = 0\<rparr>" using d(1) by simp
  show "dbl_bits \<lparr>word0 = exp_field rv + Exp_msk1, word1 = 0\<rparr> = dbl_bits rv + 1"
    unfolding d(2) [OF zero_less_power [OF zero_less_numeral]] dbl_bits_split [of rv] assms(2) by (simp add: n_def)
qed

section \<open>The decision of a round\<close>

text \<open>
  Below half a unit: the approximation stays, but when it is a power of two and the number is below it,
  the distance counts against half of the smaller unit there.
\<close>

lemma quarter: "u / 2 < a * 2 \<longleftrightarrow> u / 4 < a" for u a :: real
  by (rule iffI) linarith+

lemma below_half_rounds:
  assumes rv: "pos_dbl rv" "108 \<le> dbl_exp rv" and X: "\<bar>dbl_real rv - X\<bar> < 2 powi dbl_scale rv / 2"
    and d: "normal delta" "normal bs" "dsign \<longleftrightarrow> dbl_real rv < X" "real (value_of delta) = F * \<bar>dbl_real rv - X\<bar>"
      "real (value_of bs) = F * (2 powi dbl_scale rv / 2)" "0 < F"
  obtains v delta' al' where "below_half nd bc_nd 0 dsign rv delta bs al = Inr (Break v bc_nd dsign, delta', al')" "rounds_to v X"
proof -
  let ?u = "(2::real) powi dbl_scale rv"
  have e: "\<not> exp_field rv \<le> 107 * Exp_msk1" using exp_field_le [of 107 rv] rv(2) by simp
  have e1: "1 < dbl_exp rv" "0 < dbl_exp rv" "dbl_exp rv < 2047" using rv by (simp_all add: pos_dbl_def finite_exp)
  have stay: "rounds_to rv X" if "X < dbl_real rv \<Longrightarrow> mantissa rv = 2 ^ 52 \<Longrightarrow> \<bar>dbl_real rv - X\<bar> \<le> ?u / 4"
    by (rule rounds_stay [OF rv(1) e1(1)]) (use X that in simp_all)
  have pt: "power_of_two rv \<longleftrightarrow> mantissa rv = 2 ^ 52" using e1(2) by (simp add: power_of_two_frac mantissa_split)
  show ?thesis
  proof (cases "dsign \<or> \<not> power_of_two rv")
    case True
    then have "rounds_to rv X" by (intro stay) (use d(3) pt in auto)
    then show ?thesis using True by (intro that [of rv delta al]) (auto simp: below_half_def)
  next
    case False
    obtain x xs where dx: "bg_x delta = x # xs" using d(1) by (cases "bg_x delta") (auto simp: normal_def bg_ok_def)
    have ex: "is_exact delta = Inr (value_of delta = 0)"
      by (rule is_exact_value(1)) (use d(1) dx in \<open>auto simp: remainder_ok_def normal_def\<close>)
    show ?thesis
    proof (cases "value_of delta = 0")
      case True
      then have "\<bar>dbl_real rv - X\<bar> = 0" using d(4,6) by simp
      then have "rounds_to rv X" by (intro stay) simp
      then show ?thesis using True False e ex by (intro that [of rv delta al]) (simp_all add: below_half_def)
    next
      case pos: False
      obtain delta' al' where l: "lshift delta Log2P al = Inr (delta', al')" "value_of delta' = value_of delta * 2" "normal delta'"
        using lshift_lemma [OF d(1), of Log2P al] pos by (auto simp: Log2P_def)
      obtain c where c: "cmp delta' bs = Inr c" "c < 0 \<longleftrightarrow> value_of delta' < value_of bs" "c = 0 \<longleftrightarrow> value_of delta' = value_of bs"
        using cmp_value [OF l(3) d(2)] by blast
      have "c > 0 \<longleftrightarrow> value_of bs < value_of delta'" using c(2,3) by linarith
      also have "\<dots> \<longleftrightarrow> F * (?u / 2) < F * (\<bar>dbl_real rv - X\<bar> * 2)"
        unfolding of_nat_less_iff [where 'a = real, symmetric] l(2) d(5) by (simp add: d(4))
      also have "\<dots> \<longleftrightarrow> ?u / 4 < \<bar>dbl_real rv - X\<bar>" unfolding mult_less_cancel_left_pos [OF d(6)] by (rule quarter)
      finally have c4: "c > 0 \<longleftrightarrow> ?u / 4 < \<bar>dbl_real rv - X\<bar>" .
      show ?thesis
      proof (cases "c > 0")
        case True
        let ?v = "\<lparr>word0 = (exp_field rv - Exp_msk1) OR Bndry_mask, word1 = 0xffffffff\<rparr>"
        have f0: "dbl_frac rv = 0" using False power_of_two_frac by blast
        note v = dropped [OF e1(2,3) f0]
        have m: "mantissa rv = 2 ^ 52" using False pt by blast
        have "?u / 4 < dbl_real rv - X" using True c4 False d(3) by simp
        moreover have "dbl_real rv - X \<le> ?u / 2" using X by linarith
        ultimately have "rounds_to ?v X"
          using v(1) by (intro rounds_drop [OF rv(1) m e1(1)] previous_double [OF v m e1(1)]) (simp_all add: pos_dbl_def)
        then show ?thesis using True False pos e ex l(1) c(1)
          by (intro that [of ?v delta' al']) (simp_all add: below_half_def drop_down_def Let_def)
      next
        case le: False
        then have "rounds_to rv X" using c4 by (intro stay) simp
        then show ?thesis using le False pos e ex l(1) c(1) by (intro that [of rv delta' al']) (simp_all add: below_half_def)
      qed
    qed
  qed
qed

lemma below_top:
  assumes "k < 2 ^ 53" "s \<le> 970"
  shows "real k * 2 powi s < 2 powi 1024"
proof -
  have "real k < 2 ^ 53" using assms(1) by (metis of_nat_less_iff of_nat_numeral of_nat_power)
  moreover have "(2::real) powi s \<le> 2 powi 970" using assms(2) by (intro power_int_increasing) simp_all
  ultimately have "real k * 2 powi s < 2 ^ 53 * 2 powi 970" by (intro mult_less_le_imp_less) simp_all
  also have "(2::real) ^ 53 * 2 powi 970 = 2 powi (int 53 + 970)" by (rule powi_shift)
  also have "\<dots> < 2 powi 1024" unfolding powi_less by simp
  finally show ?thesis .
qed

lemma mantissa_of_value:
  assumes "pos_dbl v" "dbl_real v = real k * 2 powi s" "2 ^ 52 \<le> k" "k < 2 ^ 53" "- 1074 \<le> s" "s \<le> 970"
  shows "mantissa v = k"
proof -
  define T where "T = nat (s + 1074)"
  have T: "T \<le> 2044" "int T - 1074 = s" using assms(5,6) by (simp_all add: T_def)
  define n where "n = T * 2 ^ 52 + k"
  have "T * 2 ^ 52 \<le> 2044 * 2 ^ 52" using T(1) by simp
  then have f: "n < inf_bits" using assms(4) by (simp add: n_def inf_bits_def)
  have k: "k \<le> 2 ^ 53" "T = 0 \<or> 2 ^ 52 \<le> k" using assms(3,4) by simp_all
  note b = bits_value [OF k n_def f, of False]
  have "v = mk_dbl False n" using assms(2) b(3) T(2) by (intro pos_dbl_eqI [OF assms(1) pos_mk [OF f]]) simp
  then show ?thesis using b(2) assms(4) by simp
qed

text \<open>Exactly half a unit: to the even neighbour.\<close>

lemma at_half_rounds:
  assumes rv: "pos_dbl rv" "108 \<le> dbl_exp rv" "dbl_exp rv \<le> 2045" and X: "\<bar>dbl_real rv - X\<bar> = 2 powi dbl_scale rv / 2"
    and dsign: "dsign \<longleftrightarrow> dbl_real rv < X"
  obtains v ds' where "at_half nd bc_nd 0 dsign rv = Inr (Break v bc_nd ds')" "rounds_to v X"
proof -
  let ?u = "(2::real) powi dbl_scale rv" and ?m = "mantissa rv"
  have e: "1 < dbl_exp rv" "0 < dbl_exp rv" "dbl_exp rv \<noteq> 0" "dbl_exp rv < 2046" "dbl_exp rv < 2047" "52 < dbl_exp rv" using rv(2,3) by simp_all
  have f: "finite_dbl rv" "finite_dbl (ulp rv)" "finite_dbl (dneg (ulp rv))"
    using rv(1) ulp_value(1) [OF e(6,5)] by (simp_all add: pos_dbl_def dneg_real)
  have sc: "dbl_scale rv \<le> 970" using rv(3) by (simp add: dbl_scale_def)
  have pt: "power_of_two rv \<longleftrightarrow> ?m = 2 ^ 52" using e(2) by (simp add: power_of_two_frac mantissa_split)
  have r: "dbl_real rv = real ?m * ?u" by (rule pos_real [OF rv(1)])
  have above: "X = dbl_real rv + ?u / 2" if dsign using that X dsign by linarith
  have below: "X = dbl_real rv - ?u / 2" if "\<not> dsign" using that X dsign powi_pos [of "dbl_scale rv"] by linarith
  have full: "dsign \<and> word0 rv AND Bndry_mask = Bndry_mask \<and> word1 rv = 0xffffffff \<longleftrightarrow> dsign \<and> dbl_frac rv = 2 ^ 52 - 1"
    using full_frac [of rv] by blast
  consider (full) "dsign" "dbl_frac rv = 2 ^ 52 - 1" | (power) "\<not> dsign" "?m = 2 ^ 52"
    | (even) "even ?m" "\<not> (dsign \<and> dbl_frac rv = 2 ^ 52 - 1)" "\<not> (\<not> dsign \<and> ?m = 2 ^ 52)"
    | (up) "odd ?m" "dsign" "dbl_frac rv \<noteq> 2 ^ 52 - 1" | (down) "odd ?m" "\<not> dsign" "?m \<noteq> 2 ^ 52" by blast
  then show ?thesis
  proof cases
    case full
    let ?v = "\<lparr>word0 = exp_field rv + Exp_msk1, word1 = 0\<rparr>"
    note v = carried [OF e(4) full(2)]
    have m: "odd ?m" using full(2) e(2) by (simp add: mantissa_split)
    note n = next_double [OF v e(3)]
    have "rounds_to ?v X" by (rule rounds_up [OF rv(1) e(3) above [OF full(1)] _ n(1)]) (use v(1) n(2) m in \<open>simp_all add: pos_dbl_def\<close>)
    then show ?thesis using full full_frac [of rv] by (intro that [of ?v False]) (simp_all add: at_half_def Let_def)
  next
    case power
    let ?v = "\<lparr>word0 = (exp_field rv - Exp_msk1) OR Bndry_mask, word1 = 0xffffffff\<rparr>"
    have f0: "dbl_frac rv = 0" using power pt power_of_two_frac by blast
    note v = dropped [OF e(2,5) f0]
    have "dbl_real rv - X = ?u / 2" "?u / 4 < ?u / 2" using below [OF power(1)] by simp_all
    then have "dbl_real rv - X \<le> ?u / 2" "?u / 4 < dbl_real rv - X" by linarith+
    then have "rounds_to ?v X"
      using v(1) by (intro rounds_drop [OF rv(1) power(2) e(1)] previous_double [OF v power(2) e(1)]) (simp_all add: pos_dbl_def)
    then show ?thesis using power pt by (intro that [of ?v dsign]) (simp_all add: at_half_def drop_down_def Let_def)
  next
    case even
    have "rounds_to rv X"
      by (rule rounds_stay [OF rv(1) e(1)]) (use X even(1,3) dsign in auto)
    then show ?thesis using even full pt even_mantissa [of rv] by (intro that [of rv dsign]) (auto simp: at_half_def Let_def)
  next
    case up
    let ?v = "dadd rv (ulp rv)"
    have "?m \<noteq> 2 ^ 53 - 1" using up(3) e(2) by (simp add: mantissa_split)
    then have k: "0 < ?m + 1" "?m + 1 < 2 ^ 53" using mantissa_less [of rv] by simp_all
    have s: "dbl_real rv + dbl_real (ulp rv) = real (?m + 1) * ?u" unfolding r ulp_value(2) [OF e(6,5)] by (simp add: distrib_right)
    note t = below_top [OF k(2) sc]
    note v = dadd_exact [OF f(1,2) s k dbl_scale_ge t]
    have "2 ^ 52 \<le> ?m + 1" using mantissa_normal [OF e(3)] by simp
    then have "mantissa ?v = ?m + 1" using v by (intro mantissa_of_value [OF _ _ _ k(2) dbl_scale_ge sc]) simp_all
    then have "rounds_to ?v X" using v up(1) by (intro rounds_up [OF rv(1) e(3) above [OF up(2)]]) (simp_all add: pos_dbl_def)
    then show ?thesis using up full full_frac [of rv] even_mantissa [of rv] by (intro that [of ?v False]) (auto simp: at_half_def Let_def)
  next
    case down
    let ?v = "dsub rv (ulp rv)"
    have m: "2 ^ 52 < ?m" using mantissa_normal [OF e(3)] down(3) by simp
    then have k: "0 < ?m - 1" "?m - 1 < 2 ^ 53" "2 ^ 52 \<le> ?m - 1" using mantissa_less [of rv] by simp_all
    have "1 \<le> ?m" using m by simp
    then have s: "dbl_real rv + dbl_real (dneg (ulp rv)) = real (?m - 1) * ?u"
      unfolding r dneg_real ulp_value(2) [OF e(6,5)] by (simp add: of_nat_diff left_diff_distrib)
    note v = dadd_exact [OF f(1,3) s k(1,2) dbl_scale_ge below_top [OF k(2) sc], folded dsub_def]
    have mv: "mantissa ?v = ?m - 1" using v k by (intro mantissa_of_value [OF _ _ _ _ dbl_scale_ge sc]) simp_all
    then have "rounds_to ?v X" using v down(1) by (intro rounds_down [OF rv(1) m below [OF down(2)]]) (simp_all add: pos_dbl_def)
    moreover have "\<not> deq ?v dzero"
      using pos_order(3) [OF v(1) dzero_pos(1)] pos_mantissa [OF v(1)] k(1) by (simp add: dzero_pos mv)
    ultimately show ?thesis using down pt even_mantissa [of rv] by (intro that [of ?v True]) (simp_all add: at_half_def Let_def)
  qed
qed

section \<open>The loop\<close>

lemma strtod_loop_nearest:
  assumes bd0: "normal bd0" "0 < value_of bd0" and al: "p5s_ok al"
    and rv: "pos_dbl rv" "108 \<le> dbl_exp rv" "dbl_exp rv \<le> 2045"
    and near: "\<bar>dbl_real rv - real (value_of bd0) * 10 powi e\<bar> \<le> 2 powi dbl_scale rv / 2"
  obtains v ds al' where "strtod_loop (Suc n) nd e 0 bd0 nd rv al = Inr (Break v nd ds, al')"
    "rounds_to v (real (value_of bd0) * 10 powi e)"
proof -
  define X where "X = real (value_of bd0) * 10 powi e"
  let ?h = "(2::real) powi (dbl_scale rv - 0 - 1)"
  have h: "?h = 2 powi dbl_scale rv / 2" using powi_Suc [of "dbl_scale rv - 1"] by simp
  have e0: "dbl_exp rv \<noteq> 0" "(0::int) \<le> 0" "- 1074 \<le> dbl_scale rv - 0" using rv(2) dbl_scale_ge by simp_all
  have R: "dbl_real rv = dbl_real rv * 2 powi (- 0)" by simp
  obtain cm al1 F where cm: "compare_round e 0 bd0 rv al = Inr (cm, rv, al1)" "normal (cm_delta cm)" "normal (cm_bs cm)"
    "cm_dsign cm \<longleftrightarrow> dbl_real rv < X" "cm_i cm < 0 \<longleftrightarrow> \<bar>dbl_real rv - X\<bar> < ?h" "cm_i cm = 0 \<longleftrightarrow> \<bar>dbl_real rv - X\<bar> = ?h"
    "real (value_of (cm_delta cm)) = F * \<bar>dbl_real rv - X\<bar>" "real (value_of (cm_bs cm)) = F * ?h" "0 < F"
    by (rule compare_round_value [OF bd0 al rv(1) e0 R X_def refl])
  obtain v ds delta' al2 where v: "decide_round nd nd 0 rv (cm_i cm) cm al1 = Inr (Break v nd ds, delta', al2)" "rounds_to v X"
  proof (cases "cm_i cm < 0")
    case True
    then have near: "\<bar>dbl_real rv - X\<bar> < 2 powi dbl_scale rv / 2" using cm(5) h by simp
    obtain v delta' al2 where "below_half nd nd 0 (cm_dsign cm) rv (cm_delta cm) (cm_bs cm) al1 = Inr (Break v nd (cm_dsign cm), delta', al2)"
      "rounds_to v X"
      by (rule below_half_rounds [OF rv(1,2) near cm(2-4,7) cm(8) [unfolded h] cm(9)])
    with True show ?thesis by (intro that [of v "cm_dsign cm" delta' al2]) (simp_all add: decide_round_def)
  next
    case False
    then have z: "\<bar>dbl_real rv - X\<bar> = ?h" using cm(5) near h by (simp add: X_def)
    then have i: "cm_i cm = 0" using cm(6) by blast
    obtain v ds where "at_half nd nd 0 (cm_dsign cm) rv = Inr (Break v nd ds)" "rounds_to v X"
      by (rule at_half_rounds [OF rv z [unfolded h] cm(4)])
    with i show ?thesis by (intro that [of v ds "cm_delta cm" al1]) (simp_all add: decide_round_def)
  qed
  have "strtod_loop (Suc n) nd e 0 bd0 nd rv al =
      Inr (Break v nd ds, free_all [Some (cm_bb cm), Some (cm_bd cm), Some (cm_bs cm), Some bd0, Some delta'] al2)"
    by (simp add: cm(1) correct_round_def v(1))
  then show ?thesis using v(2) unfolding X_def by (rule that)
qed

text \<open>
  C13. The correction loop of \<open>strtod\<close>, for a decimal number \<open>bd0 * 10 ^ e\<close> of which no digit has been cut
  (\<open>bc.nd\<close> is \<open>nd\<close>, so that \<open>bigcomp\<close> is not asked) and without scaling for denormal numbers: when the
  approximation is a normal double with an exponent field from 108 to 2045, which is far from underflow
  and below the largest, and at most half a unit in the last place away, the first round of the loop ends
  it with the double nearest to the number - the one with an even mantissa when two are as near, also
  when it has another exponent than the approximation.
\<close>

theorem strtod_loop_rounds:
  assumes "normal bd0" "0 < value_of bd0" "p5s_ok al"
    and "pos_dbl rv" "108 \<le> dbl_exp rv" "dbl_exp rv \<le> 2045"
    and "\<bar>dbl_real rv - real (value_of bd0) * 10 powi e\<bar> \<le> 2 powi dbl_scale rv / 2"
  shows "\<exists>v ds al'. strtod_loop (Suc n) nd e 0 bd0 nd rv al = Inr (Break v nd ds, al') \<and>
    rounds_to v (real (value_of bd0) * 10 powi e)"
  by (rule strtod_loop_nearest [OF assms]) blast

text \<open>
  The number \<open>2 ^ 54 - 1\<close> lies half-way between two doubles; from the lower one, whose mantissa has only
  ones, the loop goes to the power of two above.
\<close>

definition all_ones :: dbl where
  "all_ones = \<lparr>word0 = 0x434fffff, word1 = 0xffffffff\<rparr>"

lemma all_ones_value:
  "pos_dbl all_ones" "dbl_exp all_ones = 1076" "mantissa all_ones = 2 ^ 53 - 1" "dbl_scale all_ones = 1"
proof -
  show e: "dbl_exp all_ones = 1076" and m: "mantissa all_ones = 2 ^ 53 - 1"
    by (simp_all add: all_ones_def mantissa_def dbl_high_def dbl_exp_def Frac_mask_def Exp_shift_def)
  show "dbl_scale all_ones = 1" by (simp add: dbl_scale_def e)
  show "pos_dbl all_ones" by (simp add: pos_dbl_def finite_exp e) (simp add: all_ones_def dbl_neg_def)
qed

theorem strtod_loop_rounds_witness:
  "\<exists>v ds al'. strtod_loop 1 17 0 0 (sample_big 1 [0xffffffff, 0x3fffff]) 17 all_ones alloc_init = Inr (Break v 17 ds, al') \<and>
    rounds_to v (2 ^ 54 - 1)"
proof -
  let ?b = "sample_big 1 [0xffffffff, 0x3fffff]"
  have b: "normal ?b" "value_of ?b = 2 ^ 54 - 1" by (simp_all add: sample_big_normal sample_big_value)
  have p: "p5s_ok alloc_init" by (simp add: p5s_ok_def alloc_init_def)
  have r: "dbl_real all_ones = 2 ^ 54 - 2" using pos_real [OF all_ones_value(1)] by (simp add: all_ones_value)
  have x: "real (value_of ?b) * 10 powi 0 = 2 ^ 54 - 1" unfolding b(2) by simp
  have n: "\<bar>dbl_real all_ones - real (value_of ?b) * 10 powi 0\<bar> \<le> 2 powi dbl_scale all_ones / 2"
    unfolding x r all_ones_value by simp
  have v: "0 < value_of ?b" unfolding b(2) by simp
  have e: "108 \<le> dbl_exp all_ones" "dbl_exp all_ones \<le> 2045" by (simp_all add: all_ones_value)
  show ?thesis
    using strtod_loop_rounds [OF b(1) v p all_ones_value(1) e n, of 0 17] unfolding x by (simp only: One_nat_def)
qed

end
