(* ===== verification/Shared_Ptr.thy ===== *)
theory Shared_Ptr
  imports Toy_Prelude "HOL-Library.Multiset"
begin

text \<open>
  src/src/common/shared_ptr.h: reference-counted pointers and their weak observers over an explicit
  heap of objects and control blocks. A pointer variable is a value; constructing, copying, assigning
  and destroying one changes the counters of its control block. The counters are \<open>int\<close>s that count
  variables in memory, so they do not wrap. \<open>weak_ptr::swap\<close>, and with it assignment and \<open>reset\<close> of
  weak pointers, calls \<open>swap_weak_ptr\<close> with raw pointers, which no overload accepts: these
  templates cannot be instantiated and have no definition here.
\<close>

section \<open>The heap\<close>

record SharedPtrControlBlock =
  cb_refcount :: int
  cb_weak_count :: int

text \<open>The liveness of each object, and the control blocks.\<close>

record ptr_heap =
  ph_objs :: "bool list"
  ph_ctls :: "SharedPtrControlBlock option list"

record shared_ptr =
  sp_ptr :: "nat option"
  sp_ctl :: "nat option"

record weak_ptr =
  wp_ptr :: "nat option"
  wp_ctl :: "nat option"

definition ctl_at :: "ptr_heap \<Rightarrow> nat \<Rightarrow> SharedPtrControlBlock option" where
  "ctl_at h c = (if c < length (ph_ctls h) then ph_ctls h ! c else None)"

definition obj_alive :: "ptr_heap \<Rightarrow> nat \<Rightarrow> bool" where
  "obj_alive h p \<longleftrightarrow> p < length (ph_objs h) \<and> ph_objs h ! p"

definition get_ctl :: "nat option \<Rightarrow> ptr_heap \<Rightarrow> SharedPtrControlBlock res" where
  "get_ctl p h = (case p of None \<Rightarrow> Inl NullDeref
     | Some c \<Rightarrow> (case ctl_at h c of None \<Rightarrow> Inl Dangling | Some b \<Rightarrow> Inr b))"

definition put_ctl :: "nat \<Rightarrow> SharedPtrControlBlock option \<Rightarrow> ptr_heap \<Rightarrow> ptr_heap" where
  "put_ctl c b h = h\<lparr>ph_ctls := (ph_ctls h)[c := b]\<rparr>"

definition new_ctl :: "ptr_heap \<Rightarrow> nat \<times> ptr_heap" where
  "new_ctl h = (length (ph_ctls h), h\<lparr>ph_ctls := ph_ctls h @ [Some \<lparr>cb_refcount = 1, cb_weak_count = 1\<rparr>]\<rparr>)"

definition new_obj :: "ptr_heap \<Rightarrow> nat \<times> ptr_heap" where
  "new_obj h = (length (ph_objs h), h\<lparr>ph_objs := ph_objs h @ [True]\<rparr>)"

definition delete_obj :: "nat \<Rightarrow> ptr_heap \<Rightarrow> ptr_heap res" where
  "delete_obj p h = (if obj_alive h p then Inr (h\<lparr>ph_objs := (ph_objs h)[p := False]\<rparr>) else Inl Dangling)"

section \<open>Shared pointers\<close>

definition SharedPtr_empty :: shared_ptr where
  "SharedPtr_empty = \<lparr>sp_ptr = None, sp_ctl = None\<rparr>"

definition SharedPtr_new :: "nat option \<Rightarrow> ptr_heap \<Rightarrow> shared_ptr \<times> ptr_heap" where
  "SharedPtr_new p h =
     (if p \<noteq> None then let (c, h') = new_ctl h in (\<lparr>sp_ptr = p, sp_ctl = Some c\<rparr>, h')
      else (\<lparr>sp_ptr = p, sp_ctl = None\<rparr>, h))"

definition SharedPtr_Initialize :: "shared_ptr \<Rightarrow> shared_ptr \<Rightarrow> ptr_heap \<Rightarrow> (shared_ptr \<times> ptr_heap) res" where
  "SharedPtr_Initialize this r h =
     (case sp_ctl r of
        Some c \<Rightarrow>
          bindR (get_ctl (sp_ctl r) h) (\<lambda>b.
          Inr (\<lparr>sp_ptr = sp_ptr r, sp_ctl = sp_ctl r\<rparr>, put_ctl c (Some (b\<lparr>cb_refcount := cb_refcount b + 1\<rparr>)) h))
      | None \<Rightarrow> Inr (this, h))"

definition SharedPtr_copy :: "shared_ptr \<Rightarrow> ptr_heap \<Rightarrow> (shared_ptr \<times> ptr_heap) res" where
  "SharedPtr_copy r h = SharedPtr_Initialize \<lparr>sp_ptr = None, sp_ctl = None\<rparr> r h"

definition SharedPtr_destroy :: "shared_ptr \<Rightarrow> ptr_heap \<Rightarrow> ptr_heap res" where
  "SharedPtr_destroy r h =
     (case sp_ptr r of
        None \<Rightarrow> Inr h
      | Some p \<Rightarrow>
          bindR (get_ctl (sp_ctl r) h) (\<lambda>b.
            let c = the (sp_ctl r); b1 = b\<lparr>cb_refcount := cb_refcount b - 1\<rparr>; h1 = put_ctl c (Some b1) h in
            if cb_refcount b1 = 0 then
              bindR (delete_obj p h1) (\<lambda>h2.
                let b2 = b1\<lparr>cb_weak_count := cb_weak_count b1 - 1\<rparr> in
                if cb_weak_count b2 = 0 then Inr (put_ctl c None h2) else Inr (put_ctl c (Some b2) h2))
            else Inr h1))"

definition SharedPtr_swap :: "shared_ptr \<Rightarrow> shared_ptr \<Rightarrow> shared_ptr \<times> shared_ptr" where
  "SharedPtr_swap this r =
     (this\<lparr>sp_ptr := sp_ptr r, sp_ctl := sp_ctl r\<rparr>, r\<lparr>sp_ptr := sp_ptr this, sp_ctl := sp_ctl this\<rparr>)"

definition SharedPtr_assign :: "shared_ptr \<Rightarrow> shared_ptr \<Rightarrow> ptr_heap \<Rightarrow> (shared_ptr \<times> ptr_heap) res" where
  "SharedPtr_assign this r h =
     (if sp_ptr this \<noteq> sp_ptr r then
        bindR (SharedPtr_copy r h) (\<lambda>(me, h1).
          let (this', me') = SharedPtr_swap this me in
          bindR (SharedPtr_destroy me' h1) (\<lambda>h2. Inr (this', h2)))
      else Inr (this, h))"

definition SharedPtr_reset :: "shared_ptr \<Rightarrow> nat option \<Rightarrow> ptr_heap \<Rightarrow> (shared_ptr \<times> ptr_heap) res" where
  "SharedPtr_reset this p h =
     (if p \<noteq> sp_ptr this then
        let (tmp, h1) = SharedPtr_new p h; (tmp', this') = SharedPtr_swap tmp this in
        bindR (SharedPtr_destroy tmp' h1) (\<lambda>h2. Inr (this', h2))
      else Inr (this, h))"

definition SharedPtr_get :: "shared_ptr \<Rightarrow> nat option" where
  "SharedPtr_get r = sp_ptr r"

definition SharedPtr_deref :: "shared_ptr \<Rightarrow> ptr_heap \<Rightarrow> nat res" where
  "SharedPtr_deref r h =
     (case sp_ptr r of None \<Rightarrow> Inl NullDeref | Some p \<Rightarrow> if obj_alive h p then Inr p else Inl Dangling)"

definition SharedPtr_use_count :: "shared_ptr \<Rightarrow> ptr_heap \<Rightarrow> int res" where
  "SharedPtr_use_count r h =
     (if sp_ctl r \<noteq> None then bindR (get_ctl (sp_ctl r) h) (\<lambda>b. Inr (cb_refcount b)) else Inr 1)"

definition SharedPtr_unique :: "shared_ptr \<Rightarrow> ptr_heap \<Rightarrow> bool res" where
  "SharedPtr_unique r h = bindR (SharedPtr_use_count r h) (\<lambda>n. Inr (n = 1))"

section \<open>Weak pointers\<close>

definition WeakPtr_empty :: weak_ptr where
  "WeakPtr_empty = \<lparr>wp_ptr = None, wp_ctl = None\<rparr>"

definition WeakPtr_CopyFrom :: "nat option \<Rightarrow> nat option \<Rightarrow> ptr_heap \<Rightarrow> (weak_ptr \<times> ptr_heap) res" where
  "WeakPtr_CopyFrom p cb h =
     (let this = \<lparr>wp_ptr = p, wp_ctl = cb\<rparr> in
      case cb of
        None \<Rightarrow> Inr (this, h)
      | Some c \<Rightarrow>
          bindR (get_ctl cb h) (\<lambda>b. Inr (this, put_ctl c (Some (b\<lparr>cb_weak_count := cb_weak_count b + 1\<rparr>)) h)))"

definition WeakPtr_of_shared :: "shared_ptr \<Rightarrow> ptr_heap \<Rightarrow> (weak_ptr \<times> ptr_heap) res" where
  "WeakPtr_of_shared r h = WeakPtr_CopyFrom (sp_ptr r) (sp_ctl r) h"

definition WeakPtr_copy :: "weak_ptr \<Rightarrow> ptr_heap \<Rightarrow> (weak_ptr \<times> ptr_heap) res" where
  "WeakPtr_copy r h = WeakPtr_CopyFrom (wp_ptr r) (wp_ctl r) h"

definition WeakPtr_destroy :: "weak_ptr \<Rightarrow> ptr_heap \<Rightarrow> ptr_heap res" where
  "WeakPtr_destroy r h =
     (case wp_ctl r of
        None \<Rightarrow> Inr h
      | Some c \<Rightarrow>
          bindR (get_ctl (wp_ctl r) h) (\<lambda>b.
            let b1 = b\<lparr>cb_weak_count := cb_weak_count b - 1\<rparr> in
            if cb_weak_count b1 = 0 then Inr (put_ctl c None h) else Inr (put_ctl c (Some b1) h)))"

definition WeakPtr_use_count :: "weak_ptr \<Rightarrow> ptr_heap \<Rightarrow> int res" where
  "WeakPtr_use_count r h =
     (if wp_ctl r \<noteq> None then bindR (get_ctl (wp_ctl r) h) (\<lambda>b. Inr (cb_refcount b)) else Inr 0)"

definition WeakPtr_expired :: "weak_ptr \<Rightarrow> ptr_heap \<Rightarrow> bool res" where
  "WeakPtr_expired r h = bindR (WeakPtr_use_count r h) (\<lambda>n. Inr (n = 0))"

section \<open>The invariant\<close>

text \<open>
  The variables of a program are two multisets. A control block counts the shared pointers that
  share it and the weak ones, with one more while it is shared; variables share an object exactly
  when they share a control block; the live objects are those some shared pointer points to.
\<close>

definition owners :: "nat \<Rightarrow> shared_ptr multiset \<Rightarrow> nat" where
  "owners c S = size (filter_mset (\<lambda>r. sp_ctl r = Some c) S)"

definition observers :: "nat \<Rightarrow> weak_ptr multiset \<Rightarrow> nat" where
  "observers c W = size (filter_mset (\<lambda>r. wp_ctl r = Some c) W)"

definition counted :: "SharedPtrControlBlock option \<Rightarrow> nat \<Rightarrow> nat \<Rightarrow> bool" where
  "counted b n k \<longleftrightarrow> (case b of None \<Rightarrow> n = 0 \<and> k = 0
     | Some x \<Rightarrow> cb_refcount x = int n \<and> cb_weak_count x = int k + (if n > 0 then 1 else 0) \<and> n + k > 0)"

definition counts :: "ptr_heap \<Rightarrow> shared_ptr multiset \<Rightarrow> weak_ptr multiset \<Rightarrow> bool" where
  "counts h S W \<longleftrightarrow> (\<forall>c. counted (ctl_at h c) (owners c S) (observers c W))"

definition paired :: "shared_ptr multiset \<Rightarrow> bool" where
  "paired S \<longleftrightarrow> (\<forall>r \<in># S. sp_ptr r = None \<longleftrightarrow> sp_ctl r = None) \<and>
     (\<forall>r \<in># S. \<forall>q \<in># S. sp_ptr r = sp_ptr q \<longleftrightarrow> sp_ctl r = sp_ctl q)"

definition ptr_inv :: "ptr_heap \<Rightarrow> shared_ptr multiset \<Rightarrow> weak_ptr multiset \<Rightarrow> bool" where
  "ptr_inv h S W \<longleftrightarrow> counts h S W \<and> paired S \<and> (\<forall>p. obj_alive h p \<longleftrightarrow> Some p \<in># image_mset sp_ptr S)"

lemma owners_add [simp]: "owners c (add_mset r S) = (if sp_ctl r = Some c then Suc (owners c S) else owners c S)"
  by (simp add: owners_def)

lemma observers_add [simp]: "observers c (add_mset r W) = (if wp_ctl r = Some c then Suc (observers c W) else observers c W)"
  by (simp add: observers_def)

lemma owners_0: "owners c S = 0 \<longleftrightarrow> (\<forall>r \<in># S. sp_ctl r \<noteq> Some c)"
  by (induction S) (auto simp: owners_def)

lemma ctl_at_put [simp]: "ctl_at h c = Some b \<Longrightarrow> ctl_at (put_ctl c v h) d = (if d = c then v else ctl_at h d)"
  by (auto simp: ctl_at_def put_ctl_def split: if_splits)

lemma ctl_at_other [simp]: "ctl_at (h\<lparr>ph_objs := x\<rparr>) c = ctl_at h c" "obj_alive (put_ctl c v h) p = obj_alive h p"
  by (simp_all add: ctl_at_def obj_alive_def put_ctl_def)

lemma get_ctl_eval [simp]: "ctl_at h c = Some b \<Longrightarrow> get_ctl (Some c) h = Inr b"
  by (simp add: get_ctl_def)

lemma counts_put:
  assumes "counts h S W" "ctl_at h c = Some b"
    and "\<And>d. d \<noteq> c \<Longrightarrow> owners d S' = owners d S \<and> observers d W' = observers d W"
    and "counted v (owners c S') (observers c W')"
  shows "counts (put_ctl c v h) S' W'"
  using assms by (simp add: counts_def)

text \<open>A control block that is in use.\<close>

lemma ctl_used:
  assumes "counts h S W" "0 < owners c S + observers c W"
  obtains b where "ctl_at h c = Some b" "cb_refcount b = int (owners c S)"
    "cb_weak_count b = int (observers c W) + (if owners c S > 0 then 1 else 0)"
proof -
  have "counted (ctl_at h c) (owners c S) (observers c W)" using assms(1) by (simp add: counts_def)
  then show ?thesis using assms(2) that by (cases "ctl_at h c") (auto simp: counted_def)
qed

lemma ctl_shared:
  assumes "counts h (add_mset r S) W" "sp_ctl r = Some c"
  obtains b where "ctl_at h c = Some b" "cb_refcount b = int (owners c S) + 1" "cb_weak_count b = int (observers c W) + 1"
proof (rule ctl_used [OF assms(1), of c])
  show "0 < owners c (add_mset r S) + observers c W" using assms(2) by simp
next
  fix b assume "ctl_at h c = Some b" "cb_refcount b = int (owners c (add_mset r S))"
    "cb_weak_count b = int (observers c W) + (if owners c (add_mset r S) > 0 then 1 else 0)"
  with assms(2) show thesis by (intro that [of b]) simp_all
qed

lemma paired_again: "paired (add_mset r S) \<Longrightarrow> paired (add_mset r (add_mset r S))"
  by (simp add: paired_def)

lemma paired_less: "paired (add_mset r S) \<Longrightarrow> paired S"
  by (simp add: paired_def)

lemma paired_cases:
  assumes "paired (add_mset r S)"
  obtains "r = SharedPtr_empty" | p c where "sp_ptr r = Some p" "sp_ctl r = Some c"
  using assms by (cases r) (auto simp: paired_def SharedPtr_empty_def)

lemma ptr_inv_empty: "ptr_inv h S W \<Longrightarrow> ptr_inv h (add_mset SharedPtr_empty S) W"
  by (auto simp: ptr_inv_def SharedPtr_empty_def counts_def paired_def)

lemma ptr_inv_drop_empty: "ptr_inv h (add_mset SharedPtr_empty S) W \<Longrightarrow> ptr_inv h S W"
  by (auto simp: ptr_inv_def SharedPtr_empty_def counts_def paired_def)

lemma SharedPtr_copy_inv:
  assumes inv: "ptr_inv h (add_mset r S) W"
  shows "\<exists>h'. SharedPtr_copy r h = Inr (r, h') \<and> ptr_inv h' (add_mset r (add_mset r S)) W"
proof -
  have p: "paired (add_mset r S)" and n: "counts h (add_mset r S) W" using inv by (simp_all add: ptr_inv_def)
  from p show ?thesis
  proof (cases rule: paired_cases)
    case 1
    then show ?thesis using ptr_inv_empty [OF inv] by (simp add: SharedPtr_copy_def SharedPtr_Initialize_def SharedPtr_empty_def)
  next
    case (2 a c)
    obtain b where b: "ctl_at h c = Some b" "cb_refcount b = int (owners c S) + 1" "cb_weak_count b = int (observers c W) + 1"
      using ctl_shared [OF n 2(2)] .
    let ?h = "put_ctl c (Some (b\<lparr>cb_refcount := cb_refcount b + 1\<rparr>)) h"
    have "counts ?h (add_mset r (add_mset r S)) W"
      by (rule counts_put [OF n b(1)]) (use 2 b in \<open>auto simp: counted_def\<close>)
    then have "ptr_inv ?h (add_mset r (add_mset r S)) W"
      using inv paired_again [OF p] by (simp add: ptr_inv_def)
    moreover have "SharedPtr_copy r h = Inr (r, ?h)"
      using 2 b(1) by (cases r) (simp add: SharedPtr_copy_def SharedPtr_Initialize_def)
    ultimately show ?thesis by blast
  qed
qed

lemma SharedPtr_destroy_inv:
  assumes inv: "ptr_inv h (add_mset r S) W"
  shows "\<exists>h'. SharedPtr_destroy r h = Inr h' \<and> ptr_inv h' S W"
proof -
  have p: "paired (add_mset r S)" and n: "counts h (add_mset r S) W"
    and live: "\<And>x. obj_alive h x \<longleftrightarrow> Some x \<in># image_mset sp_ptr (add_mset r S)" using inv by (simp_all add: ptr_inv_def)
  from p show ?thesis
  proof (cases rule: paired_cases)
    case 1
    then show ?thesis using ptr_inv_drop_empty inv by (auto simp: SharedPtr_destroy_def SharedPtr_empty_def)
  next
    case (2 a c)
    obtain b where b: "ctl_at h c = Some b" "cb_refcount b = int (owners c S) + 1" "cb_weak_count b = int (observers c W) + 1"
      using ctl_shared [OF n 2(2)] .
    have same: "sp_ptr q = Some a \<longleftrightarrow> sp_ctl q = Some c" if "q \<in># S" for q
    proof -
      have "sp_ptr r = sp_ptr q \<longleftrightarrow> sp_ctl r = sp_ctl q" using p that by (simp add: paired_def)
      then show ?thesis unfolding 2 by metis
    qed
    have own: "owners c S = 0 \<longleftrightarrow> Some a \<notin># image_mset sp_ptr S" 
      unfolding owners_0 using same by (metis (no_types, lifting) imageE image_eqI set_image_mset)
    let ?h1 = "put_ctl c (Some (b\<lparr>cb_refcount := int (owners c S)\<rparr>)) h"
    show ?thesis
    proof (cases "owners c S = 0")
      case False
      have "counts ?h1 S W"
        by (rule counts_put [OF n b(1)]) (use 2 b False in \<open>auto simp: counted_def\<close>)
      then have "ptr_inv ?h1 S W" using p live own False 2(1) paired_less by (auto simp: ptr_inv_def)
      then show ?thesis using 2 b False by (simp add: SharedPtr_destroy_def Let_def)
    next
      case True
      let ?h2 = "h\<lparr>ph_objs := (ph_objs h)[a := False]\<rparr>"
      let ?v = "if observers c W = 0 then None else Some \<lparr>cb_refcount = 0, cb_weak_count = int (observers c W)\<rparr>"
      have c2: "ctl_at ?h2 c = Some b" "counts ?h2 (add_mset r S) W" using b(1) n by (simp_all add: counts_def)
      have "counts (put_ctl c ?v ?h2) S W"
        by (rule counts_put [OF c2(2,1)]) (use 2 True in \<open>auto simp: counted_def\<close>)
      moreover have "obj_alive (put_ctl c ?v ?h2) x \<longleftrightarrow> Some x \<in># image_mset sp_ptr S" for x
      proof -
        have "obj_alive (put_ctl c ?v ?h2) x \<longleftrightarrow> obj_alive h x \<and> x \<noteq> a"
          by (cases "x = a") (auto simp: obj_alive_def put_ctl_def)
        then show ?thesis using live [of x] True own 2(1) by (cases "x = a") auto
      qed
      ultimately have "ptr_inv (put_ctl c ?v ?h2) S W" using paired_less [OF p] by (simp add: ptr_inv_def)
      moreover have "SharedPtr_destroy r h = Inr (put_ctl c ?v ?h2)"
        using 2 b True live [of a] by (cases b) (simp add: SharedPtr_destroy_def Let_def delete_obj_def put_ctl_def obj_alive_def)
      ultimately show ?thesis by blast
    qed
  qed
qed

lemma SharedPtr_new_inv:
  assumes inv: "ptr_inv h S W" and n: "new_obj h = (p, h1)" "SharedPtr_new (Some p) h1 = (r, h2)"
  shows "ptr_inv h2 (add_mset r S) W"
proof -
  define c where "c = length (ph_ctls h)"
  have r: "r = \<lparr>sp_ptr = Some p, sp_ctl = Some c\<rparr>" "p = length (ph_objs h)"
    "h2 = h\<lparr>ph_objs := ph_objs h @ [True], ph_ctls := ph_ctls h @ [Some \<lparr>cb_refcount = 1, cb_weak_count = 1\<rparr>]\<rparr>"
    using n by (auto simp: new_obj_def SharedPtr_new_def new_ctl_def c_def)
  have at: "ctl_at h2 d = (if d = c then Some \<lparr>cb_refcount = 1, cb_weak_count = 1\<rparr> else ctl_at h d)" for d
    by (auto simp: r(3) ctl_at_def c_def nth_append)
  have "counted (ctl_at h c) (owners c S) (observers c W)" using inv by (simp add: ptr_inv_def counts_def)
  then have fresh: "owners c S = 0" "observers c W = 0" by (simp_all add: counted_def ctl_at_def c_def)
  have "counts h2 (add_mset r S) W"
    using inv fresh by (auto simp: counts_def at ptr_inv_def r(1) counted_def [of "Some _"])
  moreover have "Some p \<notin># image_mset sp_ptr S" using inv by (auto simp: ptr_inv_def obj_alive_def r(2))
  then have old: "\<forall>q \<in># S. sp_ptr q \<noteq> Some p \<and> sp_ctl q \<noteq> Some c"
    using fresh(1) by (auto simp: owners_0 image_iff)
  then have "paired (add_mset r S)" using inv by (fastforce simp: ptr_inv_def paired_def r(1))
  moreover have "obj_alive h2 x \<longleftrightarrow> x = p \<or> obj_alive h x" for x
    by (auto simp: obj_alive_def r nth_append)
  ultimately show ?thesis using inv by (auto simp: ptr_inv_def r(1))
qed

lemma pairedD: "paired S \<Longrightarrow> r \<in># S \<Longrightarrow> q \<in># S \<Longrightarrow> sp_ptr r = sp_ptr q \<longleftrightarrow> sp_ctl r = sp_ctl q"
  by (simp add: paired_def)

lemma same_pointer:
  assumes "paired (add_mset a (add_mset b S))" "sp_ptr a = sp_ptr b"
  shows "a = b"
proof -
  have "sp_ctl a = sp_ctl b" using pairedD [OF assms(1), of a b] assms(2) by simp
  with assms(2) show ?thesis by (intro shared_ptr.equality) simp_all
qed

lemma SharedPtr_swap_whole: "SharedPtr_swap a b = (b, a)"
  by (cases a; cases b) (simp add: SharedPtr_swap_def)

lemma SharedPtr_assign_inv:
  assumes inv: "ptr_inv h (add_mset a (add_mset b S)) W"
  shows "\<exists>h'. SharedPtr_assign a b h = Inr (b, h') \<and> ptr_inv h' (add_mset b (add_mset b S)) W"
proof (cases "sp_ptr a = sp_ptr b")
  case True
  have "paired (add_mset a (add_mset b S))" using inv by (simp add: ptr_inv_def)
  from same_pointer [OF this True] have "a = b" .
  then show ?thesis using inv by (simp add: SharedPtr_assign_def)
next
  case False
  have "ptr_inv h (add_mset b (add_mset a S)) W" using inv by (simp add: add_mset_commute)
  from SharedPtr_copy_inv [OF this] obtain h1 where h1: "SharedPtr_copy b h = Inr (b, h1)"
    "ptr_inv h1 (add_mset b (add_mset b (add_mset a S))) W" by blast
  then have "ptr_inv h1 (add_mset a (add_mset b (add_mset b S))) W" by (simp add: add_mset_commute)
  from SharedPtr_destroy_inv [OF this] h1(1) False show ?thesis
    by (auto simp: SharedPtr_assign_def SharedPtr_swap_whole)
qed

lemma SharedPtr_reset_inv:
  assumes inv: "ptr_inv h (add_mset a S) W"
  shows "\<exists>h'. SharedPtr_reset a None h = Inr (SharedPtr_empty, h') \<and> ptr_inv h' (add_mset SharedPtr_empty S) W"
proof (cases "sp_ptr a")
  case None
  then have "a = SharedPtr_empty" using inv by (cases a) (auto simp: SharedPtr_empty_def ptr_inv_def paired_def)
  then show ?thesis using inv by (simp add: SharedPtr_reset_def SharedPtr_empty_def)
next
  case (Some p)
  from SharedPtr_destroy_inv [OF inv] show ?thesis
    using Some ptr_inv_empty by (auto simp: SharedPtr_reset_def SharedPtr_new_def SharedPtr_swap_whole SharedPtr_empty_def)
qed

lemma SharedPtr_reset_new_inv:
  assumes inv: "ptr_inv h (add_mset a S) W" and n: "new_obj h = (p, h1)"
  shows "\<exists>r h'. SharedPtr_reset a (Some p) h1 = Inr (r, h') \<and> sp_ptr r = Some p \<and> ptr_inv h' (add_mset r S) W"
proof -
  obtain r h2 where r: "SharedPtr_new (Some p) h1 = (r, h2)" by fastforce
  have rp: "sp_ptr r = Some p" using r by (auto simp: SharedPtr_new_def split: prod.splits)
  have "ptr_inv h2 (add_mset a (add_mset r S)) W" using SharedPtr_new_inv [OF inv n r] by (simp add: add_mset_commute)
  from SharedPtr_destroy_inv [OF this] obtain h' where h': "SharedPtr_destroy a h2 = Inr h'" "ptr_inv h' (add_mset r S) W" by blast
  have "Some p \<noteq> sp_ptr a"
    using inv n by (auto simp: ptr_inv_def obj_alive_def new_obj_def)
  then show ?thesis using r h' rp by (auto simp: SharedPtr_reset_def SharedPtr_swap_whole)
qed

text \<open>Weak pointers.\<close>

lemma CopyFrom_inv:
  assumes inv: "ptr_inv h S W" and used: "\<And>c. cb = Some c \<Longrightarrow> 0 < owners c S + observers c W"
  shows "\<exists>h'. WeakPtr_CopyFrom p cb h = Inr (\<lparr>wp_ptr = p, wp_ctl = cb\<rparr>, h') \<and>
    ptr_inv h' S (add_mset \<lparr>wp_ptr = p, wp_ctl = cb\<rparr> W)"
proof (cases cb)
  case None
  then show ?thesis using inv by (simp add: WeakPtr_CopyFrom_def ptr_inv_def counts_def)
next
  case (Some c)
  have n: "counts h S W" using inv by (simp add: ptr_inv_def)
  obtain b where b: "ctl_at h c = Some b" "cb_refcount b = int (owners c S)"
    "cb_weak_count b = int (observers c W) + (if owners c S > 0 then 1 else 0)"
    by (rule ctl_used [OF n used [OF Some]])
  have "counts (put_ctl c (Some (b\<lparr>cb_weak_count := cb_weak_count b + 1\<rparr>)) h) S (add_mset \<lparr>wp_ptr = p, wp_ctl = cb\<rparr> W)"
    by (rule counts_put [OF n b(1)]) (use b(2,3) Some in \<open>auto simp: counted_def\<close>)
  then show ?thesis using inv b(1) Some by (simp add: WeakPtr_CopyFrom_def ptr_inv_def)
qed

lemma WeakPtr_destroy_inv:
  assumes inv: "ptr_inv h S (add_mset w W)"
  shows "\<exists>h'. WeakPtr_destroy w h = Inr h' \<and> ptr_inv h' S W"
proof (cases "wp_ctl w")
  case None
  then show ?thesis using inv by (simp add: WeakPtr_destroy_def ptr_inv_def counts_def)
next
  case (Some c)
  have n: "counts h S (add_mset w W)" using inv by (simp add: ptr_inv_def)
  have "0 < owners c S + observers c (add_mset w W)" using Some by simp
  then obtain b where b: "ctl_at h c = Some b" "cb_refcount b = int (owners c S)"
    "cb_weak_count b = int (observers c (add_mset w W)) + (if owners c S > 0 then 1 else 0)"
    by (rule ctl_used [OF n])
  let ?k = "cb_weak_count b - 1"
  let ?v = "if ?k = 0 then None else Some (b\<lparr>cb_weak_count := ?k\<rparr>)"
  have "counts (put_ctl c ?v h) S W"
    by (rule counts_put [OF n b(1)]) (use b(2,3) Some in \<open>auto simp: counted_def\<close>)
  then show ?thesis using inv b(1) Some by (auto simp: WeakPtr_destroy_def ptr_inv_def Let_def)
qed

section \<open>Programs\<close>

text \<open>
  What a program may do with its pointer variables: each operation names them by position, and an
  operation on a variable that does not exist is none.
\<close>

record ptr_prog =
  pp_heap :: ptr_heap
  pp_shared :: "shared_ptr list"
  pp_weak :: "weak_ptr list"

datatype ptr_op = MakeShared | CopyShared nat | AssignShared nat nat | ResetShared nat | RenewShared nat
  | DropShared nat | ObserveShared nat | CopyWeak nat | DropWeak nat

definition without :: "nat \<Rightarrow> 'a list \<Rightarrow> 'a list" where
  "without i xs = take i xs @ drop (Suc i) xs"

fun run_op :: "ptr_op \<Rightarrow> ptr_prog \<Rightarrow> ptr_prog res" where
  "run_op MakeShared P =
     (let (p, h) = new_obj (pp_heap P); (r, h') = SharedPtr_new (Some p) h in
      Inr (P\<lparr>pp_heap := h', pp_shared := r # pp_shared P\<rparr>))"
| "run_op (CopyShared i) P =
     (if i < length (pp_shared P)
      then bindR (SharedPtr_copy (pp_shared P ! i) (pp_heap P)) (\<lambda>(r, h). Inr (P\<lparr>pp_heap := h, pp_shared := r # pp_shared P\<rparr>))
      else Inr P)"
| "run_op (AssignShared i j) P =
     (if i < length (pp_shared P) \<and> j < length (pp_shared P)
      then bindR (SharedPtr_assign (pp_shared P ! i) (pp_shared P ! j) (pp_heap P)) (\<lambda>(r, h).
        Inr (P\<lparr>pp_heap := h, pp_shared := (pp_shared P)[i := r]\<rparr>))
      else Inr P)"
| "run_op (ResetShared i) P =
     (if i < length (pp_shared P)
      then bindR (SharedPtr_reset (pp_shared P ! i) None (pp_heap P)) (\<lambda>(r, h).
        Inr (P\<lparr>pp_heap := h, pp_shared := (pp_shared P)[i := r]\<rparr>))
      else Inr P)"
| "run_op (RenewShared i) P =
     (if i < length (pp_shared P)
      then let (p, h) = new_obj (pp_heap P) in bindR (SharedPtr_reset (pp_shared P ! i) (Some p) h) (\<lambda>(r, h').
        Inr (P\<lparr>pp_heap := h', pp_shared := (pp_shared P)[i := r]\<rparr>))
      else Inr P)"
| "run_op (DropShared i) P =
     (if i < length (pp_shared P)
      then bindR (SharedPtr_destroy (pp_shared P ! i) (pp_heap P)) (\<lambda>h.
        Inr (P\<lparr>pp_heap := h, pp_shared := without i (pp_shared P)\<rparr>))
      else Inr P)"
| "run_op (ObserveShared i) P =
     (if i < length (pp_shared P)
      then bindR (WeakPtr_of_shared (pp_shared P ! i) (pp_heap P)) (\<lambda>(w, h). Inr (P\<lparr>pp_heap := h, pp_weak := w # pp_weak P\<rparr>))
      else Inr P)"
| "run_op (CopyWeak i) P =
     (if i < length (pp_weak P)
      then bindR (WeakPtr_copy (pp_weak P ! i) (pp_heap P)) (\<lambda>(w, h). Inr (P\<lparr>pp_heap := h, pp_weak := w # pp_weak P\<rparr>))
      else Inr P)"
| "run_op (DropWeak i) P =
     (if i < length (pp_weak P)
      then bindR (WeakPtr_destroy (pp_weak P ! i) (pp_heap P)) (\<lambda>h. Inr (P\<lparr>pp_heap := h, pp_weak := without i (pp_weak P)\<rparr>))
      else Inr P)"

fun run_ops :: "ptr_op list \<Rightarrow> ptr_prog \<Rightarrow> ptr_prog res" where
  "run_ops [] P = Inr P"
| "run_ops (x # xs) P = bindR (run_op x P) (run_ops xs)"

definition ptr_start :: ptr_prog where
  "ptr_start = \<lparr>pp_heap = \<lparr>ph_objs = [], ph_ctls = []\<rparr>, pp_shared = [], pp_weak = []\<rparr>"

definition prog_inv :: "ptr_prog \<Rightarrow> bool" where
  "prog_inv P \<longleftrightarrow> ptr_inv (pp_heap P) (mset (pp_shared P)) (mset (pp_weak P))"

lemma mset_without: "i < length xs \<Longrightarrow> mset xs = add_mset (xs ! i) (mset (without i xs))"
  by (subst id_take_nth_drop [of i xs]) (simp_all add: without_def)

lemma mset_replace: "i < length xs \<Longrightarrow> mset (xs[i := y]) = add_mset y (mset (without i xs))"
  by (simp add: upd_conv_take_nth_drop without_def)

lemma used_weak: "w \<in># W \<Longrightarrow> wp_ctl w = Some c \<Longrightarrow> 0 < observers c W"
  by (metis multi_member_split observers_add zero_less_Suc)

lemma used_shared: "r \<in># S \<Longrightarrow> sp_ctl r = Some c \<Longrightarrow> 0 < owners c S"
  by (metis multi_member_split owners_add zero_less_Suc)

lemma run_op_inv:
  assumes "prog_inv P"
  shows "\<exists>P'. run_op x P = Inr P' \<and> prog_inv P'"
proof -
  let ?h = "pp_heap P" and ?S = "mset (pp_shared P)" and ?W = "mset (pp_weak P)"
  have inv: "ptr_inv ?h ?S ?W" using assms by (simp add: prog_inv_def)
  have split: "ptr_inv ?h (add_mset (pp_shared P ! i) (mset (without i (pp_shared P)))) ?W" if "i < length (pp_shared P)" for i
    using inv mset_without [OF that] by simp
  show ?thesis
  proof (cases x)
    case MakeShared
    obtain p h r h' where n: "new_obj ?h = (p, h)" "SharedPtr_new (Some p) h = (r, h')" by fastforce
    then show ?thesis using SharedPtr_new_inv [OF inv n] MakeShared by (simp add: prog_inv_def)
  next
    case (CopyShared i)
    then show ?thesis using SharedPtr_copy_inv [OF split [of i]] mset_without [of i "pp_shared P"]
      assms by (auto simp: prog_inv_def)
  next
    case (AssignShared i j)
    show ?thesis
    proof (cases "i < length (pp_shared P) \<and> j < length (pp_shared P)")
      case True
      show ?thesis
      proof (cases "i = j")
        case True
        then show ?thesis using AssignShared assms by (auto simp: SharedPtr_assign_def prog_inv_def)
      next
        case False
        let ?a = "pp_shared P ! i" and ?b = "pp_shared P ! j" and ?R = "mset (without i (pp_shared P))"
        have "?b = (without i (pp_shared P)) ! (if j < i then j else j - 1)" "(if j < i then j else j - 1) < length (without i (pp_shared P))"
          using True False by (auto simp: without_def nth_append min_def)
        then have "?b \<in># ?R" by (metis nth_mem_mset)
        then obtain R where R: "?R = add_mset ?b R" by (metis multi_member_split)
        have "ptr_inv ?h (add_mset ?a (add_mset ?b R)) ?W" using split [of i] True R by simp
        from SharedPtr_assign_inv [OF this] obtain h' where "SharedPtr_assign ?a ?b ?h = Inr (?b, h')"
          "ptr_inv h' (add_mset ?b (add_mset ?b R)) ?W" by blast
        then show ?thesis using AssignShared True R mset_replace [of i "pp_shared P" ?b] by (simp add: prog_inv_def)
      qed
    qed (use AssignShared assms in auto)
  next
    case (ResetShared i)
    then show ?thesis using SharedPtr_reset_inv [OF split [of i]] mset_replace [of i "pp_shared P"]
      assms by (auto simp: prog_inv_def)
  next
    case (RenewShared i)
    obtain p h where n: "new_obj ?h = (p, h)" by fastforce
    then show ?thesis using SharedPtr_reset_new_inv [OF split [of i] n] RenewShared mset_replace [of i "pp_shared P"]
      assms by (auto simp: prog_inv_def)
  next
    case (DropShared i)
    then show ?thesis using SharedPtr_destroy_inv [OF split [of i]] assms by (auto simp: prog_inv_def)
  next
    case (ObserveShared i)
    have "\<exists>h'. WeakPtr_of_shared r ?h = Inr (\<lparr>wp_ptr = sp_ptr r, wp_ctl = sp_ctl r\<rparr>, h') \<and>
        ptr_inv h' ?S (add_mset \<lparr>wp_ptr = sp_ptr r, wp_ctl = sp_ctl r\<rparr> ?W)" if "r \<in># ?S" for r
      unfolding WeakPtr_of_shared_def by (rule CopyFrom_inv [OF inv]) (use used_shared [OF that] in simp)
    from this [of "pp_shared P ! i"] show ?thesis using ObserveShared assms by (auto simp: prog_inv_def)
  next
    case (CopyWeak i)
    have "\<exists>h'. WeakPtr_copy w ?h = Inr (\<lparr>wp_ptr = wp_ptr w, wp_ctl = wp_ctl w\<rparr>, h') \<and>
        ptr_inv h' ?S (add_mset \<lparr>wp_ptr = wp_ptr w, wp_ctl = wp_ctl w\<rparr> ?W)" if "w \<in># ?W" for w
      unfolding WeakPtr_copy_def by (rule CopyFrom_inv [OF inv]) (use used_weak [OF that] in simp)
    from this [of "pp_weak P ! i"] show ?thesis using CopyWeak assms by (auto simp: prog_inv_def)
  next
    case (DropWeak i)
    have "ptr_inv ?h ?S (add_mset (pp_weak P ! i) (mset (without i (pp_weak P))))" if "i < length (pp_weak P)"
      using inv mset_without [OF that] by simp
    from WeakPtr_destroy_inv [OF this] show ?thesis using DropWeak assms by (auto simp: prog_inv_def)
  qed
qed

lemma run_ops_inv: "prog_inv P \<Longrightarrow> \<exists>P'. run_ops xs P = Inr P' \<and> prog_inv P'"
proof (induction xs arbitrary: P)
  case (Cons x xs)
  then obtain P1 where "run_op x P = Inr P1" "prog_inv P1" using run_op_inv by blast
  with Cons.IH show ?case by simp
qed simp

lemma start_inv: "prog_inv ptr_start"
  by (simp add: prog_inv_def ptr_start_def ptr_inv_def counts_def paired_def counted_def ctl_at_def owners_def observers_def obj_alive_def)

lemma use_count_owners:
  assumes "ptr_inv h S W" "r \<in># S" "sp_ptr r = Some p"
  shows "SharedPtr_use_count r h = Inr (int (size (filter_mset (\<lambda>q. sp_ptr q = Some p) S)))"
proof -
  have pr: "paired S" using assms(1) by (simp add: ptr_inv_def)
  then obtain c where c: "sp_ctl r = Some c" using assms(2,3) by (fastforce simp: paired_def)
  have "filter_mset (\<lambda>q. sp_ptr q = Some p) S = filter_mset (\<lambda>q. sp_ctl q = Some c) S"
    using pairedD [OF pr assms(2)] assms(3) c by (intro filter_mset_cong refl) metis
  moreover have "counts h S W" using assms(1) by (simp add: ptr_inv_def)
  then obtain b where "ctl_at h c = Some b" "cb_refcount b = int (owners c S)"
    using ctl_used [of h S W c] used_shared [OF assms(2) c] by (metis add_gr_0)
  ultimately show ?thesis using c by (simp add: SharedPtr_use_count_def owners_def)
qed

text \<open>
  C22. Whatever a program does with its shared and weak pointers - make, copy, assign, reset, destroy and
  observe them in any order - no operation faults: nothing is deleted twice and no deleted object or
  control block is read. Every pointer reads a live object and \<open>use_count\<close> is the number of variables
  that share it; an object is alive exactly as long as some shared pointer points to it; and a
  weak pointer has expired exactly when no shared pointer shares its control block.
\<close>

theorem shared_ptr_safe:
  "\<exists>P. run_ops xs ptr_start = Inr P \<and>
    (\<forall>r \<in> set (pp_shared P). \<forall>p. sp_ptr r = Some p \<longrightarrow> SharedPtr_deref r (pp_heap P) = Inr p \<and>
       SharedPtr_use_count r (pp_heap P) = Inr (int (length (filter (\<lambda>q. sp_ptr q = Some p) (pp_shared P))))) \<and>
    (\<forall>p. obj_alive (pp_heap P) p \<longleftrightarrow> (\<exists>r \<in> set (pp_shared P). sp_ptr r = Some p)) \<and>
    (\<forall>w \<in> set (pp_weak P). \<forall>c. wp_ctl w = Some c \<longrightarrow>
       WeakPtr_expired w (pp_heap P) = Inr (\<forall>r \<in> set (pp_shared P). sp_ctl r \<noteq> Some c))"
proof -
  obtain P where P: "run_ops xs ptr_start = Inr P" "prog_inv P" using run_ops_inv [OF start_inv] by blast
  let ?h = "pp_heap P" and ?S = "mset (pp_shared P)"
  have inv: "ptr_inv ?h ?S (mset (pp_weak P))" using P(2) by (simp add: prog_inv_def)
  have live: "obj_alive ?h p \<longleftrightarrow> (\<exists>r \<in> set (pp_shared P). sp_ptr r = Some p)" for p
    using inv by (auto simp: ptr_inv_def image_iff eq_commute [of "Some p"])
  have use: "SharedPtr_deref r ?h = Inr p \<and>
      SharedPtr_use_count r ?h = Inr (int (length (filter (\<lambda>q. sp_ptr q = Some p) (pp_shared P))))"
    if "r \<in> set (pp_shared P)" "sp_ptr r = Some p" for r p
    using use_count_owners [OF inv, of r p] live [of p] that by (auto simp: SharedPtr_deref_def simp flip: mset_filter size_mset)
  have weak: "WeakPtr_expired w ?h = Inr (\<forall>r \<in> set (pp_shared P). sp_ctl r \<noteq> Some c)"
    if w: "w \<in> set (pp_weak P)" "wp_ctl w = Some c" for w c
  proof -
    have "counts ?h ?S (mset (pp_weak P))" using inv by (simp add: ptr_inv_def)
    then obtain b where "ctl_at ?h c = Some b" "cb_refcount b = int (owners c ?S)"
      using ctl_used [of ?h ?S _ c] used_weak [of w "mset (pp_weak P)" c] w by (metis add_gr_0 set_mset_mset)
    then show ?thesis using w(2) owners_0 [of c ?S] by (simp add: WeakPtr_expired_def WeakPtr_use_count_def)
  qed
  show ?thesis using P(1) use live weak by blast
qed

theorem shared_ptr_safe_witness:
  "\<exists>P w r. run_ops [MakeShared, CopyShared 0, ObserveShared 0, DropShared 0] ptr_start = Inr P \<and> pp_weak P = [w] \<and>
    pp_shared P = [r] \<and> SharedPtr_use_count r (pp_heap P) = Inr 1 \<and> WeakPtr_expired w (pp_heap P) = Inr False"
proof -
  let ?xs = "[MakeShared, CopyShared 0, ObserveShared 0, DropShared 0]"
  obtain P where P: "run_ops ?xs ptr_start = Inr P"
    "\<forall>r \<in> set (pp_shared P). \<forall>p. sp_ptr r = Some p \<longrightarrow> SharedPtr_deref r (pp_heap P) = Inr p \<and>
       SharedPtr_use_count r (pp_heap P) = Inr (int (length (filter (\<lambda>q. sp_ptr q = Some p) (pp_shared P))))"
    "\<forall>w \<in> set (pp_weak P). \<forall>c. wp_ctl w = Some c \<longrightarrow>
       WeakPtr_expired w (pp_heap P) = Inr (\<forall>r \<in> set (pp_shared P). sp_ctl r \<noteq> Some c)"
    using shared_ptr_safe [of ?xs] by blast
  have "pp_shared P = [\<lparr>sp_ptr = Some 0, sp_ctl = Some 0\<rparr>]" "pp_weak P = [\<lparr>wp_ptr = Some 0, wp_ctl = Some 0\<rparr>]"
    using P(1) by (auto simp: ptr_start_def new_obj_def SharedPtr_new_def new_ctl_def SharedPtr_copy_def
        SharedPtr_Initialize_def get_ctl_def ctl_at_def put_ctl_def WeakPtr_of_shared_def WeakPtr_CopyFrom_def
        SharedPtr_destroy_def without_def Let_def)
  with P show ?thesis by auto
qed

end
