(* ===== verification/Registerer.thy ===== *)
theory Registerer
  imports Toy_Prelude
begin

text \<open>
  src/src/common/registerer.h, registerer.cc and singleton.h: factories registered by the name of a
  class under the name of its base class, before \<open>main\<close> starts, and the instances they make. An
  object is its position in the list of all objects made, which records their classes; a constructor
  has no other effect here. \<open>any_cast<base_class*>\<close> reads the stored pointer to the class as one to
  its base class, which are taken to be the same address. The lock of \<open>Singleton::GetInstance\<close> is left out: there is one thread
  (the theory \<open>Singleton\<close> has it, with many).
\<close>

section \<open>State\<close>

text \<open>The base class of the factories makes nothing; the macro derives one factory for each class.\<close>

datatype ObjectFactory = BaseFactory | FactoryOf "char list"

type_synonym FactoryMap = "(char list \<times> ObjectFactory) list"

record registry =
  rg_map :: "(char list \<times> FactoryMap) list"
  rg_objs :: "char list list"
  rg_inst :: "char list \<rightharpoonup> nat"

definition global_factory_map :: registry where
  "global_factory_map = \<lparr>rg_map = [], rg_objs = [], rg_inst = Map.empty\<rparr>"

text \<open>\<open>operator[]\<close> of the map of base classes: a missing entry is made.\<close>

definition factories :: "char list \<Rightarrow> registry \<Rightarrow> FactoryMap \<times> registry" where
  "factories base r =
     (case map_of (rg_map r) base of Some m \<Rightarrow> (m, r) | None \<Rightarrow> ([], r\<lparr>rg_map := (base, []) # rg_map r\<rparr>))"

definition put_factories :: "char list \<Rightarrow> FactoryMap \<Rightarrow> registry \<Rightarrow> registry" where
  "put_factories base m r = r\<lparr>rg_map := (base, m) # filter (\<lambda>e. fst e \<noteq> base) (rg_map r)\<rparr>"

text \<open>\<open>Any\<close> holds a value or nothing; \<open>any_cast\<close> gives a pointer to it, null when it is empty.\<close>

type_synonym 'a any = "'a option"

definition any_cast :: "'a any \<Rightarrow> 'a option" where
  "any_cast x = x"

definition deref_any :: "'a any \<Rightarrow> 'a res" where
  "deref_any x = (case any_cast x of None \<Rightarrow> Inl NullDeref | Some v \<Rightarrow> Inr v)"

section \<open>Instances\<close>

definition new_instance :: "char list \<Rightarrow> registry \<Rightarrow> nat \<times> registry" where
  "new_instance cls r = (length (rg_objs r), r\<lparr>rg_objs := rg_objs r @ [cls]\<rparr>)"

definition Singleton_GetInstance :: "char list \<Rightarrow> registry \<Rightarrow> nat \<times> registry" where
  "Singleton_GetInstance cls r =
     (case rg_inst r cls of
        Some p \<Rightarrow> (p, r)
      | None \<Rightarrow> let (p, r') = new_instance cls r in (p, r'\<lparr>rg_inst := (rg_inst r')(cls \<mapsto> p)\<rparr>))"

definition NewInstance :: "ObjectFactory \<Rightarrow> registry \<Rightarrow> nat any \<times> registry" where
  "NewInstance f r =
     (case f of BaseFactory \<Rightarrow> (None, r) | FactoryOf cls \<Rightarrow> let (p, r') = new_instance cls r in (Some p, r'))"

definition GetSingletonInstance :: "ObjectFactory \<Rightarrow> registry \<Rightarrow> nat any \<times> registry" where
  "GetSingletonInstance f r =
     (case f of BaseFactory \<Rightarrow> (None, r) | FactoryOf cls \<Rightarrow> let (p, r') = Singleton_GetInstance cls r in (Some p, r'))"

section \<open>Registration and lookup\<close>

definition register_factory :: "char list \<Rightarrow> char list \<Rightarrow> registry \<Rightarrow> registry" where
  "register_factory base name r =
     (let (m, r1) = factories base r in
      if map_of m name = None then put_factories base ((name, FactoryOf name) # m) r1 else r1)"

definition GetInstanceByName :: "char list \<Rightarrow> char list \<Rightarrow> registry \<Rightarrow> (nat option \<times> registry) res" where
  "GetInstanceByName base name r =
     (let (m, r1) = factories base r in
      case map_of m name of
        None \<Rightarrow> Inr (None, r1)
      | Some f \<Rightarrow> let (obj, r2) = NewInstance f r1 in bindR (deref_any obj) (\<lambda>p. Inr (Some p, r2)))"

definition GetSingletonInstanceByName :: "char list \<Rightarrow> char list \<Rightarrow> registry \<Rightarrow> (nat option \<times> registry) res" where
  "GetSingletonInstanceByName base name r =
     (let (m, r1) = factories base r in
      case map_of m name of
        None \<Rightarrow> Inr (None, r1)
      | Some f \<Rightarrow> let (obj, r2) = GetSingletonInstance f r1 in bindR (deref_any obj) (\<lambda>p. Inr (Some p, r2)))"

definition GetUniqInstanceName :: "char list \<Rightarrow> registry \<Rightarrow> (char list \<times> registry) res" where
  "GetUniqInstanceName base r =
     (let (m, r1) = factories base r in CHECK (length m = 1) (Inr (fst (hd m), r1)))"

definition GetUniqInstance :: "char list \<Rightarrow> registry \<Rightarrow> (nat \<times> registry) res" where
  "GetUniqInstance base r =
     (let (m, r1) = factories base r in
      CHECK (length m = 1)
        (let (obj, r2) = NewInstance (snd (hd m)) r1 in bindR (deref_any obj) (\<lambda>p. Inr (p, r2))))"

definition registerer_IsValid :: "char list \<Rightarrow> char list \<Rightarrow> registry \<Rightarrow> bool \<times> registry" where
  "registerer_IsValid base name r = (let (m, r1) = factories base r in (map_of m name \<noteq> None, r1))"

section \<open>What a registry holds\<close>

text \<open>The names under a base class; every class is registered under its own name, once.\<close>

definition names_of :: "char list \<Rightarrow> registry \<Rightarrow> char list list" where
  "names_of base r = map fst (fst (factories base r))"

definition registry_ok :: "registry \<Rightarrow> bool" where
  "registry_ok r \<longleftrightarrow> (\<forall>base. distinct (names_of base r) \<and>
     fst (factories base r) = map (\<lambda>n. (n, FactoryOf n)) (names_of base r))"

lemma map_of_self: "map_of (map (\<lambda>n. (n, FactoryOf n)) ns) x = (if x \<in> set ns then Some (FactoryOf x) else None)"
  by (induction ns) auto

lemma factories_filter:
  "map_of (filter (\<lambda>e. fst e \<noteq> base) xs) b = (if b = base then None else map_of xs b)"
  by (induction xs) auto

lemma fst_factories_touch [simp]: "fst (factories b (snd (factories base r))) = fst (factories b r)"
  by (auto simp: factories_def split: option.splits)

lemma touch_simps [simp]:
  "rg_objs (snd (factories base r)) = rg_objs r" "rg_inst (snd (factories base r)) = rg_inst r"
  by (simp_all add: factories_def split: option.splits)

lemma fst_factories_put: "fst (factories b (put_factories base m r)) = (if b = base then m else fst (factories b r))"
  by (auto simp: factories_def put_factories_def factories_filter split: option.splits)

lemma registry_okD: "registry_ok r \<Longrightarrow> fst (factories base r) = map (\<lambda>n. (n, FactoryOf n)) (names_of base r)"
  by (simp add: registry_ok_def)

lemma find_factory:
  "registry_ok r \<Longrightarrow> map_of (fst (factories base r)) x = (if x \<in> set (names_of base r) then Some (FactoryOf x) else None)"
  by (subst registry_okD) (simp_all add: map_of_self)

text \<open>Once a base class has an entry, looking it up changes nothing.\<close>

lemma factories_again: "rg_map r' = rg_map (snd (factories base r)) \<Longrightarrow> factories base r' = (fst (factories base r), r')"
  by (auto simp: factories_def split: option.splits)

lemma factories_register:
  assumes "registry_ok r"
  shows "fst (factories b (register_factory base name r)) =
    (if b = base \<and> name \<notin> set (names_of base r) then (name, FactoryOf name) # fst (factories base r) else fst (factories b r))"
  by (simp add: register_factory_def split_beta Let_def find_factory [OF assms] fst_factories_put)

lemma names_register:
  assumes "registry_ok r"
  shows "names_of b (register_factory base name r) =
      (if b = base \<and> name \<notin> set (names_of base r) then name # names_of base r else names_of b r)"
  by (simp add: names_of_def [of b] factories_register [OF assms]) (simp add: names_of_def)

lemma registry_ok_register:
  assumes "registry_ok r"
  shows "registry_ok (register_factory base name r)"
proof -
  have "fst (factories b (register_factory base name r)) = map (\<lambda>n. (n, FactoryOf n)) (names_of b (register_factory base name r))" for b
    unfolding factories_register [OF assms] names_register [OF assms] by (simp flip: registry_okD [OF assms])
  then show ?thesis using assms by (simp add: registry_ok_def names_register [OF assms])
qed

fun register_all :: "(char list \<times> char list) list \<Rightarrow> registry \<Rightarrow> registry" where
  "register_all [] r = r"
| "register_all (x # xs) r = register_all xs (register_factory (fst x) (snd x) r)"

abbreviation registered :: "(char list \<times> char list) list \<Rightarrow> registry" where
  "registered regs \<equiv> register_all regs global_factory_map"

lemma registry_start: "registry_ok global_factory_map" "names_of base global_factory_map = []"
  by (simp_all add: registry_ok_def names_of_def factories_def global_factory_map_def)

lemma register_all_ok:
  "registry_ok r \<Longrightarrow> registry_ok (register_all xs r) \<and>
    set (names_of base (register_all xs r)) = set (names_of base r) \<union> {n. (base, n) \<in> set xs}"
proof (induction xs arbitrary: r)
  case (Cons x xs)
  from Cons.IH [OF registry_ok_register [OF Cons.prems], of "fst x" "snd x"] show ?case
    by (cases x) (auto simp: names_register [OF Cons.prems])
qed simp

lemma unique_name: "distinct xs \<Longrightarrow> length xs = 1 \<longleftrightarrow> (\<exists>n. set xs = {n})"
  by (metis One_nat_def card_1_singleton_iff distinct_card)

text \<open>
  C35. Lookups see exactly the registrations made, in whatever order and however often: a name is valid
  iff its class was registered under the base class, and then \<open>GetInstanceByName\<close> makes a new object of
  that class and \<open>GetSingletonInstanceByName\<close> gives the same object every time, otherwise both
  give null; \<open>GetUniqInstanceName\<close> gives the only name under a base class and aborts when there
  is none or more than one.
\<close>

theorem registry_lookups:
  "fst (registerer_IsValid base name (registered regs)) = ((base, name) \<in> set regs) \<and>
    (\<exists>r'. GetInstanceByName base name (registered regs) =
         Inr (if (base, name) \<in> set regs then Some (length (rg_objs (registered regs))) else None, r') \<and>
       rg_objs r' = (if (base, name) \<in> set regs then rg_objs (registered regs) @ [name] else rg_objs (registered regs))) \<and>
    (\<exists>p r'. GetSingletonInstanceByName base name (registered regs) = Inr (p, r') \<and> (p \<noteq> None) = ((base, name) \<in> set regs) \<and>
       GetSingletonInstanceByName base name r' = Inr (p, r')) \<and>
    (if \<exists>n. {n. (base, n) \<in> set regs} = {n}
     then \<exists>r'. GetUniqInstanceName base (registered regs) = Inr (the_elem {n. (base, n) \<in> set regs}, r')
     else GetUniqInstanceName base (registered regs) = Inl CheckFail)"
proof -
  define r where "r = registered regs"
  define known where "known \<longleftrightarrow> (base, name) \<in> set regs"
  have ok: "registry_ok r" "set (names_of base r) = {n. (base, n) \<in> set regs}"
    using register_all_ok [OF registry_start(1), of regs base] registry_start(2) by (simp_all add: r_def)
  have f: "fst (factories base r) = map (\<lambda>n. (n, FactoryOf n)) (names_of base r)" using registry_okD [OF ok(1)] .
  have k: "known \<longleftrightarrow> name \<in> set (names_of base r)" using ok(2) by (simp add: known_def)
  have d: "distinct (names_of base r)" using ok(1) by (simp add: registry_ok_def)
  have lk: "map_of (fst (factories base r)) name = (if known then Some (FactoryOf name) else None)"
    using find_factory [OF ok(1)] k by simp
  have valid: "fst (registerer_IsValid base name r) = known"
    by (simp add: registerer_IsValid_def split_beta Let_def lk)
  have make: "\<exists>r'. GetInstanceByName base name r = Inr (if known then Some (length (rg_objs r)) else None, r') \<and>
       rg_objs r' = (if known then rg_objs r @ [name] else rg_objs r)"
    by (simp add: GetInstanceByName_def split_beta Let_def lk NewInstance_def new_instance_def deref_any_def any_cast_def)
  have single: "\<exists>p r'. GetSingletonInstanceByName base name r = Inr (p, r') \<and> (p \<noteq> None) = known \<and>
       GetSingletonInstanceByName base name r' = Inr (p, r')"
  proof (cases known)
    case False
    then show ?thesis using factories_again [of "snd (factories base r)" base r]
      by (simp add: GetSingletonInstanceByName_def split_beta Let_def lk)
  next
    case True
    obtain p r' where g: "Singleton_GetInstance name (snd (factories base r)) = (p, r')" by fastforce
    then have "rg_inst r' name = Some p" "rg_map r' = rg_map (snd (factories base r))"
      by (auto simp: Singleton_GetInstance_def new_instance_def Let_def split: option.splits)
    then have "Singleton_GetInstance name r' = (p, r')" "factories base r' = (fst (factories base r), r')"
      by (simp_all add: Singleton_GetInstance_def factories_again)
    with g True show ?thesis
      by (intro exI [of _ "Some p"] exI [of _ r'])
        (simp add: GetSingletonInstanceByName_def split_beta Let_def lk GetSingletonInstance_def deref_any_def any_cast_def)
  qed
  have uniq: "if \<exists>n. {n. (base, n) \<in> set regs} = {n}
     then \<exists>r'. GetUniqInstanceName base r = Inr (the_elem {n. (base, n) \<in> set regs}, r')
     else GetUniqInstanceName base r = Inl CheckFail"
  proof (cases "length (names_of base r) = 1")
    case True
    then obtain n where n: "names_of base r = [n]" by (metis One_nat_def length_0_conv length_Suc_conv)
    then have "{n. (base, n) \<in> set regs} = {n}" using ok(2) by simp
    then show ?thesis using n f by (simp add: GetUniqInstanceName_def split_beta Let_def)
  next
    case False
    then have "\<not> (\<exists>n. {n. (base, n) \<in> set regs} = {n})" using unique_name [OF d] ok(2) by simp
    then show ?thesis using False f by (simp add: GetUniqInstanceName_def split_beta Let_def)
  qed
  from valid make single uniq show ?thesis unfolding r_def known_def by blast
qed

end
