(* ===== verification/Mutex.thy ===== *)
theory Mutex
  imports Toy_Prelude
begin

text \<open>
  src/src/common/mutex.h and raai.h. The threads library is a parameter: a record of functions that
  answer each call from the history of all calls made before, with the number of the calling thread.
  A call that has no answer yet is a thread that waits. A call of \<open>abort()\<close> ends the process like a
  failed \<open>CHECK\<close>; the messages printed before are left out.
\<close>

section \<open>Threads library\<close>

datatype pcall =
    P_mutex_init nat int
  | P_mutex_destroy nat int
  | P_mutex_lock nat nat int
  | P_mutex_unlock nat nat int
  | P_cond_init nat int
  | P_cond_destroy nat int
  | P_cond_sleep nat nat nat
  | P_cond_woken nat nat nat int
  | P_cond_signal nat nat int

type_synonym ptrace = "pcall list"

record pthreads =
  p_mutex_init :: "ptrace \<Rightarrow> nat \<Rightarrow> int"
  p_mutex_destroy :: "ptrace \<Rightarrow> nat \<Rightarrow> int"
  p_mutex_lock :: "ptrace \<Rightarrow> nat \<Rightarrow> nat \<Rightarrow> int option"
  p_mutex_unlock :: "ptrace \<Rightarrow> nat \<Rightarrow> nat \<Rightarrow> int"
  p_cond_init :: "ptrace \<Rightarrow> nat \<Rightarrow> int"
  p_cond_destroy :: "ptrace \<Rightarrow> nat \<Rightarrow> int"
  p_cond_woken :: "ptrace \<Rightarrow> nat \<Rightarrow> nat \<Rightarrow> nat \<Rightarrow> int option"
  p_cond_signal :: "ptrace \<Rightarrow> nat \<Rightarrow> nat \<Rightarrow> int"

section \<open>Mutex\<close>

definition Mutex_ctor :: "pthreads \<Rightarrow> nat \<Rightarrow> ptrace \<Rightarrow> ptrace res" where
  "Mutex_ctor p m tr = (let r = p_mutex_init p tr m in CHECK (r = 0) (Inr (tr @ [P_mutex_init m r])))"

definition Mutex_dtor :: "pthreads \<Rightarrow> nat \<Rightarrow> ptrace \<Rightarrow> ptrace" where
  "Mutex_dtor p m tr = tr @ [P_mutex_destroy m (p_mutex_destroy p tr m)]"

definition Mutex_Lock :: "pthreads \<Rightarrow> nat \<Rightarrow> nat \<Rightarrow> ptrace \<Rightarrow> ptrace res option" where
  "Mutex_Lock p t m tr =
     (case p_mutex_lock p tr t m of
        None \<Rightarrow> None
      | Some r \<Rightarrow> Some (CHECK (r = 0) (Inr (tr @ [P_mutex_lock t m r]))))"

definition Mutex_Unlock :: "pthreads \<Rightarrow> nat \<Rightarrow> nat \<Rightarrow> ptrace \<Rightarrow> ptrace res" where
  "Mutex_Unlock p t m tr =
     (let r = p_mutex_unlock p tr t m in CHECK (r = 0) (Inr (tr @ [P_mutex_unlock t m r])))"

text \<open>The lock of a scope: taken by the constructor, given back by the destructor.\<close>

definition MutexLock_ctor :: "pthreads \<Rightarrow> nat \<Rightarrow> nat \<Rightarrow> ptrace \<Rightarrow> ptrace res option" where
  "MutexLock_ctor p t m tr = Mutex_Lock p t m tr"

definition MutexLock_dtor :: "pthreads \<Rightarrow> nat \<Rightarrow> nat \<Rightarrow> ptrace \<Rightarrow> ptrace res" where
  "MutexLock_dtor p t m tr = Mutex_Unlock p t m tr"

section \<open>CondVar\<close>

definition CondVar_ctor :: "pthreads \<Rightarrow> nat \<Rightarrow> ptrace \<Rightarrow> ptrace res" where
  "CondVar_ctor p c tr = (let r = p_cond_init p tr c in CHECK (r = 0) (Inr (tr @ [P_cond_init c r])))"

definition CondVar_dtor :: "pthreads \<Rightarrow> nat \<Rightarrow> ptrace \<Rightarrow> ptrace res" where
  "CondVar_dtor p c tr = (let r = p_cond_destroy p tr c in CHECK (r = 0) (Inr (tr @ [P_cond_destroy c r])))"

text \<open>
  \<open>Wait\<close> is two steps, between which other threads run: the call gives the mutex back and sleeps,
  and its return has taken the mutex again.
\<close>

definition CondVar_Wait_call :: "nat \<Rightarrow> nat \<Rightarrow> nat \<Rightarrow> ptrace \<Rightarrow> ptrace" where
  "CondVar_Wait_call t c m tr = tr @ [P_cond_sleep t c m]"

definition CondVar_Wait_return :: "pthreads \<Rightarrow> nat \<Rightarrow> nat \<Rightarrow> nat \<Rightarrow> ptrace \<Rightarrow> ptrace res option" where
  "CondVar_Wait_return p t c m tr =
     (case p_cond_woken p tr t c m of
        None \<Rightarrow> None
      | Some r \<Rightarrow> Some (CHECK (r = 0) (Inr (tr @ [P_cond_woken t c m r]))))"

definition CondVar_Signal :: "pthreads \<Rightarrow> nat \<Rightarrow> nat \<Rightarrow> ptrace \<Rightarrow> ptrace res" where
  "CondVar_Signal p t c tr =
     (let r = p_cond_signal p tr t c in CHECK (r = 0) (Inr (tr @ [P_cond_signal t c r])))"

section \<open>RAAI\<close>

text \<open>
  The clean-up of a scope holds a function of the state, or none (an empty \<open>std::function\<close>).
\<close>

type_synonym 's raai = "('s \<Rightarrow> 's res) option"

definition RAAI_ctor :: "('s \<Rightarrow> 's res) option \<Rightarrow> 's raai" where
  "RAAI_ctor f = f"

definition RAAI_Release :: "'s raai \<Rightarrow> 's raai" where
  "RAAI_Release r = None"

definition RAAI_dtor :: "'s raai \<Rightarrow> 's \<Rightarrow> 's res" where
  "RAAI_dtor r s = (case r of None \<Rightarrow> Inr s | Some f \<Rightarrow> f s)"

section \<open>Who holds a mutex\<close>

text \<open>Read off the history: the thread whose lock succeeded last and that has not given it back.\<close>

definition mutex_event :: "pcall \<Rightarrow> (nat \<Rightarrow> nat option) \<Rightarrow> nat \<Rightarrow> nat option" where
  "mutex_event e h =
     (case e of
        P_mutex_init m r \<Rightarrow> h(m := None)
      | P_mutex_lock t m r \<Rightarrow> if r = 0 then h(m := Some t) else h
      | P_mutex_unlock t m r \<Rightarrow> if r = 0 then h(m := None) else h
      | P_cond_sleep t c m \<Rightarrow> h(m := None)
      | P_cond_woken t c m r \<Rightarrow> if r = 0 then h(m := Some t) else h
      | _ \<Rightarrow> h)"

definition holders :: "ptrace \<Rightarrow> nat \<Rightarrow> nat option" where
  "holders tr = fold mutex_event tr (\<lambda>m. None)"

lemma holders_snoc [simp]: "holders (tr @ [e]) = mutex_event e (holders tr)"
  by (simp add: holders_def)

lemma holders_Nil [simp]: "holders [] = (\<lambda>m. None)"
  by (simp add: holders_def)

lemmas mutex_event_simps [simp] = mutex_event_def [of "P_mutex_init m r" for m r, simplified]
  mutex_event_def [of "P_mutex_lock t m r" for t m r, simplified]
  mutex_event_def [of "P_mutex_unlock t m r" for t m r, simplified]

text \<open>
  What POSIX says of a mutex: a lock succeeds only when nobody holds it. \<open>serves_mutex\<close> is a mutex of
  the default kind used without errors: its lock is granted whenever it is free and waits otherwise,
  and its holder can give it back.
\<close>

definition excludes :: "pthreads \<Rightarrow> bool" where
  "excludes p \<longleftrightarrow> (\<forall>tr t m. p_mutex_lock p tr t m = Some 0 \<longrightarrow> holders tr m = None)"

definition serves_mutex :: "pthreads \<Rightarrow> bool" where
  "serves_mutex p \<longleftrightarrow>
     (\<forall>tr t m. p_mutex_init p tr m = 0 \<and>
        p_mutex_lock p tr t m = (if holders tr m = None then Some 0 else None) \<and>
        (holders tr m = Some t \<longrightarrow> p_mutex_unlock p tr t m = 0))"

lemma serves_excludes: "serves_mutex p \<Longrightarrow> excludes p"
  by (auto simp: serves_mutex_def excludes_def split: if_splits)

lemma Mutex_Lock_Inr: "excludes p \<Longrightarrow> Mutex_Lock p t m tr = Some (Inr tr') \<Longrightarrow>
    holders tr m = None \<and> holders tr' = (holders tr)(m := Some t)"
  by (auto simp: Mutex_Lock_def excludes_def CHECK_def split: option.splits if_splits)

lemma Mutex_Unlock_Inr: "Mutex_Unlock p t m tr = Inr tr' \<Longrightarrow> holders tr' = (holders tr)(m := None)"
  by (auto simp: Mutex_Unlock_def CHECK_def Let_def split: if_splits)

end
