(* ===== verification/Singleton.thy ===== *)
theory Singleton
  imports Mutex
begin

text \<open>
  src/src/common/singleton.h as several threads run it: \<open>GetInstance\<close> looks at the pointer, locks,
  looks again, makes the object, stores the pointer and unlocks. One step of a thread is one access to
  what the threads share, and the threads take turns in any order; that a read sees the last write is
  an assumption of the model, which the plain pointer of \<open>inst_\<close> does not give in C++.
\<close>

section \<open>State\<close>

text \<open>
  Where a thread is in \<open>GetInstance\<close>; \<open>Store q\<close> has made the object \<open>q\<close> and \<open>Done x\<close> has returned \<open>x\<close>.
  An object is its number in the order of construction. \<open>m_\<close> is the mutex 0.
\<close>

datatype get_pc = Look | Take_lock | Look_again | Make | Store nat | Give_back | Leave | Done "nat option"

record singleton =
  sg_inst :: "nat option"
  sg_made :: nat
  sg_trace :: ptrace
  sg_pc :: "nat \<Rightarrow> get_pc"

abbreviation goes_to :: "nat \<Rightarrow> get_pc \<Rightarrow> singleton \<Rightarrow> singleton" where
  "goes_to t c s \<equiv> s\<lparr>sg_pc := (sg_pc s)(t := c)\<rparr>"

text \<open>The static members are constructed before \<open>main\<close>; then any thread may call \<open>GetInstance\<close>.\<close>

definition Singleton_start :: "pthreads \<Rightarrow> singleton res" where
  "Singleton_start p =
     bindR (Mutex_ctor p 0 []) (\<lambda>tr. Inr \<lparr>sg_inst = None, sg_made = 0, sg_trace = tr, sg_pc = (\<lambda>t. Look)\<rparr>)"

text \<open>One step of thread \<open>t\<close>; none when it has returned or waits for the mutex.\<close>

definition GetInstance_step :: "pthreads \<Rightarrow> nat \<Rightarrow> singleton \<Rightarrow> singleton res option" where
  "GetInstance_step p t s =
     (case sg_pc s t of
        Look \<Rightarrow> Some (Inr (goes_to t (if sg_inst s = None then Take_lock else Leave) s))
      | Take_lock \<Rightarrow>
          map_option (\<lambda>r. bindR r (\<lambda>tr. Inr (goes_to t Look_again (s\<lparr>sg_trace := tr\<rparr>))))
            (MutexLock_ctor p t 0 (sg_trace s))
      | Look_again \<Rightarrow> Some (Inr (goes_to t (if sg_inst s = None then Make else Give_back) s))
      | Make \<Rightarrow> Some (Inr (goes_to t (Store (sg_made s)) (s\<lparr>sg_made := sg_made s + 1\<rparr>)))
      | Store q \<Rightarrow> Some (Inr (goes_to t Give_back (s\<lparr>sg_inst := Some q\<rparr>)))
      | Give_back \<Rightarrow>
          Some (bindR (MutexLock_dtor p t 0 (sg_trace s)) (\<lambda>tr. Inr (goes_to t Leave (s\<lparr>sg_trace := tr\<rparr>))))
      | Leave \<Rightarrow> Some (Inr (goes_to t (Done (sg_inst s)) s))
      | Done x \<Rightarrow> None)"

text \<open>A schedule names the thread whose turn it is; the turn of a thread that cannot step passes.\<close>

fun run_threads :: "pthreads \<Rightarrow> nat list \<Rightarrow> singleton \<Rightarrow> singleton res" where
  "run_threads p [] s = Inr s"
| "run_threads p (t # ts) s =
     (case GetInstance_step p t s of None \<Rightarrow> run_threads p ts s | Some r \<Rightarrow> bindR r (run_threads p ts))"

lemma run_threads_append: "run_threads p (ts @ us) s = bindR (run_threads p ts s) (run_threads p us)"
  by (induction ts arbitrary: s) (auto simp: bindR_def split: option.splits sum.splits)

text \<open>The states the threads can reach, whatever the scheduler does.\<close>

inductive reachable :: "pthreads \<Rightarrow> singleton \<Rightarrow> bool" for p where
  start: "Singleton_start p = Inr s \<Longrightarrow> reachable p s"
| step: "reachable p s \<Longrightarrow> GetInstance_step p t s = Some (Inr s') \<Longrightarrow> reachable p s'"

lemma run_reachable: "reachable p s \<Longrightarrow> run_threads p ts s = Inr s' \<Longrightarrow> reachable p s'"
proof (induction ts arbitrary: s)
  case (Cons t ts)
  then show ?case
    by (cases "GetInstance_step p t s") (auto simp: bindR_eq_Inr intro: reachable.step)
qed simp

section \<open>Invariant\<close>

definition inside :: "get_pc \<Rightarrow> bool" where
  "inside c \<longleftrightarrow> c \<in> {Look_again, Make, Give_back} \<or> (\<exists>q. c = Store q)"

text \<open>
  The thread that holds the mutex is the one inside the locked part; the pointer is null until the one
  object made is stored, and who is past that point has seen it.
\<close>

definition thread_ok :: "nat option \<Rightarrow> nat \<Rightarrow> get_pc \<Rightarrow> bool" where
  "thread_ok inst made c \<longleftrightarrow>
     (case c of
        Make \<Rightarrow> made = 0
      | Store q \<Rightarrow> q = 0 \<and> made = 1 \<and> inst = None
      | Give_back \<Rightarrow> inst = Some 0
      | Leave \<Rightarrow> inst = Some 0
      | Done x \<Rightarrow> x = Some 0 \<and> inst = Some 0
      | _ \<Rightarrow> True)"

definition threads_ok :: "nat option \<Rightarrow> nat \<Rightarrow> nat option \<Rightarrow> (nat \<Rightarrow> get_pc) \<Rightarrow> bool" where
  "threads_ok inst made h pc \<longleftrightarrow>
     (\<forall>t. inside (pc t) \<longleftrightarrow> h = Some t) \<and>
     (\<forall>t. thread_ok inst made (pc t)) \<and>
     (inst = None \<or> inst = Some 0 \<and> made = 1) \<and>
     (inst = None \<longrightarrow> made = 0 \<or> made = 1 \<and> (\<exists>t. pc t = Store 0))"

definition singleton_inv :: "singleton \<Rightarrow> bool" where
  "singleton_inv s \<longleftrightarrow> threads_ok (sg_inst s) (sg_made s) (holders (sg_trace s) 0) (sg_pc s)"

lemma inside_simps [simp]:
  "inside Look_again" "inside Make" "inside (Store q)" "inside Give_back"
  "\<not> inside Look" "\<not> inside Take_lock" "\<not> inside Leave" "\<not> inside (Done x)"
  by (simp_all add: inside_def)

lemma thread_ok_simps [simp]:
  "thread_ok inst made Look" "thread_ok inst made Take_lock" "thread_ok inst made Look_again"
  "thread_ok inst made Make \<longleftrightarrow> made = 0"
  "thread_ok inst made (Store q) \<longleftrightarrow> q = 0 \<and> made = 1 \<and> inst = None"
  "thread_ok inst made Give_back \<longleftrightarrow> inst = Some 0" "thread_ok inst made Leave \<longleftrightarrow> inst = Some 0"
  "thread_ok inst made (Done x) \<longleftrightarrow> x = Some 0 \<and> inst = Some 0"
  by (simp_all add: thread_ok_def)

lemma outside_ok:
  "\<not> inside c \<Longrightarrow> thread_ok inst made c \<Longrightarrow> inst = None \<Longrightarrow> thread_ok inst' made' c"
  by (cases c) simp_all

lemma threads_moved:
  assumes "threads_ok inst made h pc" "\<And>q. pc t \<noteq> Store q"
    and "inside c \<longleftrightarrow> inside (pc t)" "thread_ok inst made c"
  shows "threads_ok inst made h (pc(t := c))"
  using assms unfolding threads_ok_def by (simp add: fun_upd_def) metis

lemma threads_locked:
  assumes "threads_ok inst made None pc"
  shows "threads_ok inst made (Some t) (pc(t := Look_again))"
  using assms unfolding threads_ok_def by (auto simp: inside_def)

lemma threads_alone:
  assumes "threads_ok inst made h pc" "inside (pc t)" "u \<noteq> t"
  shows "\<not> inside (pc u)"
  using assms unfolding threads_ok_def by (metis option.inject)

lemma threads_unlocked:
  assumes "threads_ok inst made h pc" "pc t = Give_back"
  shows "threads_ok inst made None (pc(t := Leave))"
proof -
  have o: "\<not> inside (pc u)" if "u \<noteq> t" for u using threads_alone [OF assms(1), of t u] assms(2) that by simp
  have "thread_ok inst made (pc t)" using assms(1) unfolding threads_ok_def by blast
  then have "inst = Some 0" using assms(2) by simp
  with assms(1) o show ?thesis by (auto simp: threads_ok_def)
qed

lemma threads_unmade:
  assumes "threads_ok None made h pc" "inside (pc t)" "\<And>q. pc t \<noteq> Store q"
  shows "made = 0"
  using assms threads_alone [OF assms(1,2)] unfolding threads_ok_def by (metis inside_simps(3))

lemma inv_start: "Singleton_start p = Inr s \<Longrightarrow> singleton_inv s"
  using holders_snoc [of "[]"]
  by (auto simp: Singleton_start_def Mutex_ctor_def CHECK_def Let_def singleton_inv_def threads_ok_def split: if_splits)

lemma inv_step:
  assumes ex: "excludes p" and inv: "singleton_inv s" and st: "GetInstance_step p t s = Some (Inr s')"
  shows "singleton_inv s'"
proof -
  have ok: "threads_ok (sg_inst s) (sg_made s) (holders (sg_trace s) 0) (sg_pc s)" using inv by (simp add: singleton_inv_def)
  then have inst: "sg_inst s = None \<or> sg_inst s = Some 0 \<and> sg_made s = 1" and h: "inside (sg_pc s t) \<longleftrightarrow> holders (sg_trace s) 0 = Some t"
    and me: "thread_ok (sg_inst s) (sg_made s) (sg_pc s t)" by (auto simp: threads_ok_def)
  show ?thesis
  proof (cases "sg_pc s t")
    case Look
    then show ?thesis using ok st inst
      by (auto simp: GetInstance_step_def singleton_inv_def intro!: threads_moved)
  next
    case Take_lock
    then obtain tr where l: "Mutex_Lock p t 0 (sg_trace s) = Some (Inr tr)" "s' = goes_to t Look_again (s\<lparr>sg_trace := tr\<rparr>)"
      using st by (auto simp: GetInstance_step_def MutexLock_ctor_def bindR_eq_Inr)
    then show ?thesis using threads_locked [of _ _ _ t] ok Mutex_Lock_Inr [OF ex l(1)] by (simp add: singleton_inv_def)
  next
    case Look_again
    have "sg_made s = 0" if "sg_inst s = None" using threads_unmade [of _ _ _ t] ok that Look_again by auto
    then show ?thesis using ok st inst Look_again
      by (auto simp: GetInstance_step_def singleton_inv_def intro!: threads_moved)
  next
    case Make
    have o: "\<not> inside (sg_pc s u)" if "u \<noteq> t" for u using threads_alone [OF ok, of t u] Make that by simp
    have "sg_inst s = None" using me Make inst by auto
    then show ?thesis using ok st Make me o h outside_ok [of _ None "sg_made s"]
      by (auto simp: GetInstance_step_def singleton_inv_def threads_ok_def)
  next
    case (Store q)
    have o: "\<not> inside (sg_pc s u)" if "u \<noteq> t" for u using threads_alone [OF ok, of t u] Store that by simp
    show ?thesis using ok st Store me o h outside_ok [of _ None "sg_made s"]
      by (auto simp: GetInstance_step_def singleton_inv_def threads_ok_def)
  next
    case Give_back
    then obtain tr where l: "Mutex_Unlock p t 0 (sg_trace s) = Inr tr" "s' = goes_to t Leave (s\<lparr>sg_trace := tr\<rparr>)"
      using st by (auto simp: GetInstance_step_def MutexLock_dtor_def bindR_eq_Inr)
    then show ?thesis using threads_unlocked [OF ok Give_back] Mutex_Unlock_Inr [OF l(1)] by (simp add: singleton_inv_def)
  next
    case Leave
    then show ?thesis using ok st me by (auto simp: GetInstance_step_def singleton_inv_def intro!: threads_moved)
  next
    case (Done x)
    then show ?thesis using st by (simp add: GetInstance_step_def)
  qed
qed


lemma reachable_inv: "reachable p s \<Longrightarrow> excludes p \<Longrightarrow> singleton_inv s"
  by (induction rule: reachable.induct) (blast intro: inv_start inv_step)+

section \<open>Progress\<close>

fun rank :: "get_pc \<Rightarrow> nat" where
  "rank Look = 0"
| "rank Take_lock = 1"
| "rank Look_again = 2"
| "rank Make = 3"
| "rank (Store q) = 4"
| "rank Give_back = 5"
| "rank Leave = 6"
| "rank (Done x) = 7"

lemma rank_le: "rank c \<le> 7"
  by (cases c) simp_all

text \<open>With a mutex that is granted when free, a step never fails, moves its thread on, and no other.\<close>

lemma step_serves:
  assumes sv: "serves_mutex p" and inv: "singleton_inv s"
  shows "case GetInstance_step p t s of
      None \<Rightarrow> (\<exists>x. sg_pc s t = Done x) \<or> sg_pc s t = Take_lock \<and> holders (sg_trace s) 0 \<noteq> None
    | Some r \<Rightarrow> \<exists>s' c. r = Inr s' \<and> sg_pc s' = (sg_pc s)(t := c) \<and> rank (sg_pc s t) < rank c"
proof -
  have g: "p_mutex_lock p (sg_trace s) t 0 = (if holders (sg_trace s) 0 = None then Some 0 else None)"
    "holders (sg_trace s) 0 = Some t \<longrightarrow> p_mutex_unlock p (sg_trace s) t 0 = 0"
    using sv by (simp_all add: serves_mutex_def)
  have h: "inside (sg_pc s t) \<longleftrightarrow> holders (sg_trace s) 0 = Some t" using inv by (simp add: singleton_inv_def threads_ok_def)
  show ?thesis using g h
    by (cases "sg_pc s t") (auto simp: GetInstance_step_def MutexLock_ctor_def MutexLock_dtor_def Mutex_Lock_def Mutex_Unlock_def)
qed

definition total_rank :: "nat \<Rightarrow> singleton \<Rightarrow> nat" where
  "total_rank n s = (\<Sum>t<n. rank (sg_pc s t))"

lemma total_rank_le: "total_rank n s \<le> 7 * n"
  using sum_bounded_above [of "{..<n}" "\<lambda>t. rank (sg_pc s t)" 7] rank_le by (simp add: total_rank_def mult.commute)

lemma total_rank_full: "total_rank n s = 7 * n \<Longrightarrow> t < n \<Longrightarrow> rank (sg_pc s t) = 7"
proof (rule ccontr)
  assume a: "total_rank n s = 7 * n" "t < n" "rank (sg_pc s t) \<noteq> 7"
  then have "rank (sg_pc s t) < 7" using rank_le [of "sg_pc s t"] by simp
  then have "(\<Sum>t<n. rank (sg_pc s t)) < (\<Sum>t<n. 7)" using a(2) rank_le by (intro sum_strict_mono_ex1) auto
  with a(1) show False by (simp add: total_rank_def)
qed

lemma total_rank_step:
  assumes "sg_pc s' = (sg_pc s)(t := c)" "rank (sg_pc s t) < rank c" "t < n"
  shows "total_rank n s < total_rank n s'"
  unfolding total_rank_def using assms by (intro sum_strict_mono_ex1) auto

definition idle_above :: "nat \<Rightarrow> singleton \<Rightarrow> bool" where
  "idle_above n s \<longleftrightarrow> (\<forall>t\<ge>n. sg_pc s t = Look)"

text \<open>Turns of threads below \<open>n\<close> keep everything and never lose ground; a thread that can step gains some.\<close>

lemma run_gains:
  assumes "serves_mutex p" "singleton_inv s" "idle_above n s" "set ts \<subseteq> {..<n}"
  shows "\<exists>s'. run_threads p ts s = Inr s' \<and> singleton_inv s' \<and> idle_above n s' \<and> total_rank n s \<le> total_rank n s' \<and>
    ((\<exists>t\<in>set ts. GetInstance_step p t s \<noteq> None) \<longrightarrow> total_rank n s < total_rank n s')"
  using assms(2-)
proof (induction ts arbitrary: s)
  case (Cons t ts)
  show ?case
  proof (cases "GetInstance_step p t s")
    case None
    then show ?thesis using Cons.IH [OF Cons.prems(1,2)] Cons.prems(3) by auto
  next
    case (Some r)
    then obtain s1 c where s1: "r = Inr s1" "sg_pc s1 = (sg_pc s)(t := c)" "rank (sg_pc s t) < rank c"
      using step_serves [OF assms(1) Cons.prems(1), of t] by auto
    have t: "t < n" using Cons.prems(3) by simp
    have i: "singleton_inv s1" using inv_step [OF serves_excludes [OF assms(1)] Cons.prems(1)] Some s1(1) by simp
    have a: "idle_above n s1" using Cons.prems(2) s1(2) t by (simp add: idle_above_def)
    have g: "total_rank n s < total_rank n s1" by (rule total_rank_step [OF s1(2,3) t])
    obtain s' where "run_threads p ts s1 = Inr s'" "singleton_inv s'" "idle_above n s'" "total_rank n s1 \<le> total_rank n s'"
      using Cons.IH [OF i a] Cons.prems(3) by auto
    then show ?thesis using Some s1(1) g by auto
  qed
qed simp

text \<open>No deadlock: while a thread below \<open>n\<close> has not returned, one of them can step.\<close>

lemma some_step:
  assumes "serves_mutex p" "singleton_inv s" "idle_above n s" "t < n" "rank (sg_pc s t) \<noteq> 7"
  shows "\<exists>u<n. GetInstance_step p u s \<noteq> None"
proof (cases "GetInstance_step p t s")
  case None
  then have "holders (sg_trace s) 0 \<noteq> None" using step_serves [OF assms(1,2), of t] assms(5) by auto
  then obtain u where u: "holders (sg_trace s) 0 = Some u" by blast
  then have i: "inside (sg_pc s u)" using assms(2) by (simp add: singleton_inv_def threads_ok_def)
  then have "u < n" using assms(3) by (metis idle_above_def inside_simps(5) not_le)
  moreover have "GetInstance_step p u s \<noteq> None" using step_serves [OF assms(1,2), of u] i
    by (cases "GetInstance_step p u s") auto
  ultimately show ?thesis by blast
qed (use assms(4) in blast)


lemma rounds_gain:
  assumes "serves_mutex p" "\<forall>r\<in>set rounds. set r = {..<n}" "singleton_inv s" "idle_above n s"
  shows "\<exists>s'. run_threads p (concat rounds) s = Inr s' \<and> singleton_inv s' \<and>
    (total_rank n s' = 7 * n \<or> total_rank n s + length rounds \<le> total_rank n s')"
  using assms(2-)
proof (induction rounds arbitrary: s)
  case (Cons r rounds)
  have r: "set r = {..<n}" using Cons.prems(1) by simp
  obtain s1 where s1: "run_threads p r s = Inr s1" "singleton_inv s1" "idle_above n s1" "total_rank n s \<le> total_rank n s1"
    "(\<exists>t\<in>set r. GetInstance_step p t s \<noteq> None) \<longrightarrow> total_rank n s < total_rank n s1"
    using run_gains [OF assms(1) Cons.prems(2,3), of r] r by auto
  obtain s2 where s2: "run_threads p (concat rounds) s1 = Inr s2" "singleton_inv s2"
    "total_rank n s2 = 7 * n \<or> total_rank n s1 + length rounds \<le> total_rank n s2"
    using Cons.IH [OF _ s1(2,3)] Cons.prems(1) by auto
  have "total_rank n s < total_rank n s1 \<or> total_rank n s = 7 * n"
  proof (cases "\<forall>t<n. rank (sg_pc s t) = 7")
    case True
    then show ?thesis by (simp add: total_rank_def)
  next
    case False
    then show ?thesis using some_step [OF assms(1) Cons.prems(2,3)] s1(5) r by blast
  qed
  moreover have "run_threads p (concat (r # rounds)) s = Inr s2" using s1(1) s2(1) by (simp add: run_threads_append)
  moreover have "total_rank n s2 \<le> 7 * n" "total_rank n s1 \<le> 7 * n" by (rule total_rank_le)+
  ultimately show ?case using s2(2,3) s1(4) by (intro exI [of _ s2]) auto
qed simp


section \<open>Properties\<close>

text \<open>
  C11. However threads interleave in \<open>GetInstance\<close>, at most one object is made, every call that returns
  gives that object, never null, and no two threads are between lock and unlock at once. It holds of
  every mutex that is granted only when nobody holds it, also one whose calls fail.
\<close>

theorem singleton_made_once:
  assumes "excludes p" "reachable p s"
  shows "sg_made s \<le> 1 \<and> (\<forall>t x. sg_pc s t = Done x \<longrightarrow> x = Some 0 \<and> sg_inst s = Some 0 \<and> sg_made s = 1) \<and>
    (\<forall>t u. inside (sg_pc s t) \<longrightarrow> inside (sg_pc s u) \<longrightarrow> t = u)"
proof -
  have ok: "threads_ok (sg_inst s) (sg_made s) (holders (sg_trace s) 0) (sg_pc s)"
    using reachable_inv [OF assms(2,1)] by (simp add: singleton_inv_def)
  have "t = u" if "inside (sg_pc s t)" "inside (sg_pc s u)" for t u using threads_alone [OF ok, of t u] that by blast
  moreover have "x = Some 0 \<and> sg_inst s = Some 0 \<and> sg_made s = 1" if "sg_pc s t = Done x" for t x
    using ok that unfolding threads_ok_def by (metis option.distinct(1) thread_ok_simps(8))
  moreover have "sg_made s \<le> 1" using ok by (auto simp: threads_ok_def)
  ultimately show ?thesis by blast
qed

text \<open>A mutex as POSIX has it, and two threads that race for the first look.\<close>

definition posix_threads :: pthreads where
  "posix_threads =
     \<lparr>p_mutex_init = (\<lambda>tr m. 0), p_mutex_destroy = (\<lambda>tr m. 0),
      p_mutex_lock = (\<lambda>tr t m. if holders tr m = None then Some 0 else None),
      p_mutex_unlock = (\<lambda>tr t m. if holders tr m = Some t then 0 else 1),
      p_cond_init = (\<lambda>tr c. 0), p_cond_destroy = (\<lambda>tr c. 0),
      p_cond_woken = (\<lambda>tr t c m. if holders tr m = None then Some 0 else None), p_cond_signal = (\<lambda>tr t c. 0)\<rparr>"

lemma posix_serves: "serves_mutex posix_threads"
  by (simp add: serves_mutex_def posix_threads_def)

definition racing :: singleton where
  "racing = \<lparr>sg_inst = None, sg_made = 0, sg_trace = [P_mutex_init 0 0], sg_pc = (\<lambda>t. Look)\<rparr>"

lemma racing_start: "Singleton_start posix_threads = Inr racing"
  by (simp add: Singleton_start_def Mutex_ctor_def posix_threads_def racing_def)

lemma racing_run:
  "\<exists>s. run_threads posix_threads [0, 1, 0, 1, 0, 0, 0, 0, 1, 1, 1, 1, 0] racing = Inr s \<and>
    sg_pc s 0 = Done (Some 0) \<and> sg_pc s 1 = Done (Some 0)"
  by (simp add: racing_def GetInstance_step_def MutexLock_ctor_def Mutex_Lock_def MutexLock_dtor_def Mutex_Unlock_def
      posix_threads_def holders_def)

lemma singleton_made_once_witness:
  "\<exists>s. run_threads posix_threads [0, 1, 0, 1, 0, 0, 0, 0, 1, 1, 1, 1, 0] racing = Inr s \<and> sg_made s \<le> 1 \<and>
    sg_pc s 0 = Done (Some 0) \<and> sg_pc s 1 = Done (Some 0)"
proof -
  obtain s where s: "run_threads posix_threads [0, 1, 0, 1, 0, 0, 0, 0, 1, 1, 1, 1, 0] racing = Inr s"
    "sg_pc s 0 = Done (Some 0)" "sg_pc s 1 = Done (Some 0)" using racing_run by blast
  have "reachable posix_threads s" using run_reachable [OF reachable.start [OF racing_start] s(1)] .
  from singleton_made_once [OF serves_excludes [OF posix_serves] this] s show ?thesis by blast
qed

text \<open>
  C19. There is no deadlock and no starvation under a fair scheduler: when every one of \<open>n\<close> threads has at
  least one turn in each of \<open>7 * n\<close> rounds, in whatever order, all of them have returned, each with the
  one object, and no step fails, for every mutex that is granted when it is free.
\<close>

theorem singleton_returns:
  assumes "serves_mutex p" "\<forall>r\<in>set rounds. set r = {..<n}" "7 * n \<le> length rounds"
  shows "\<exists>s0 s. Singleton_start p = Inr s0 \<and> run_threads p (concat rounds) s0 = Inr s \<and>
    (\<forall>t<n. sg_pc s t = Done (Some 0))"
proof -
  have "p_mutex_init p [] 0 = 0" using assms(1) by (simp add: serves_mutex_def)
  then obtain s0 where s0: "Singleton_start p = Inr s0" "idle_above n s0"
    by (auto simp: Singleton_start_def Mutex_ctor_def idle_above_def)
  obtain s where s: "run_threads p (concat rounds) s0 = Inr s" "singleton_inv s"
    "total_rank n s = 7 * n \<or> total_rank n s0 + length rounds \<le> total_rank n s"
    using rounds_gain [OF assms(1,2) inv_start [OF s0(1)] s0(2)] by blast
  have full: "total_rank n s = 7 * n" using s(3) assms(3) total_rank_le [of n s] by linarith
  have "sg_pc s t = Done (Some 0)" if t: "t < n" for t
  proof -
    obtain x where "sg_pc s t = Done x" using total_rank_full [OF full t] by (cases "sg_pc s t") auto
    moreover have "thread_ok (sg_inst s) (sg_made s) (sg_pc s t)" using s(2) by (simp add: singleton_inv_def threads_ok_def)
    ultimately show ?thesis by simp
  qed
  with s0(1) s(1) show ?thesis by blast
qed

lemma singleton_returns_witness:
  "\<exists>s0 s. Singleton_start posix_threads = Inr s0 \<and> run_threads posix_threads (concat (replicate 14 [1, 0])) s0 = Inr s \<and>
    (\<forall>t<2. sg_pc s t = Done (Some 0))"
  by (rule singleton_returns [OF posix_serves]) auto

end
