(* ===== verification/Process.thy ===== *)
theory Process
  imports String_Num Doubles_Real
begin

text \<open>
  src/src/common/util.cc: a process that detaches from its terminal, its signal handlers, its pid file, the
  clocks, and numbers of bytes for human readers. The operating system is a parameter that answers
  each call from the history of all calls made before. What is printed on the terminal is left out.
\<close>

section \<open>Operating system\<close>

datatype disposition = SIG_IGN | Handler nat

datatype host_call =
    H_open "char list" int
  | H_dup2 int int int
  | H_close int int
  | H_fork int
  | H_exit int
  | H_setsid int
  | H_chdir "char list" int
  | H_signal nat disposition
  | H_sigaction nat disposition
  | H_stat "char list" int
  | H_fopen "char list" bool
  | H_fprintf "char list"
  | H_fclose
  | H_getpid int
  | H_gettimeofday int int

type_synonym history = "host_call list"

record host =
  h_open :: "history \<Rightarrow> char list \<Rightarrow> int"
  h_dup2 :: "history \<Rightarrow> int \<Rightarrow> int \<Rightarrow> int"
  h_close :: "history \<Rightarrow> int \<Rightarrow> int"
  h_fork :: "history \<Rightarrow> int"
  h_setsid :: "history \<Rightarrow> int"
  h_chdir :: "history \<Rightarrow> char list \<Rightarrow> int"
  h_stat :: "history \<Rightarrow> char list \<Rightarrow> int"
  h_fopen :: "history \<Rightarrow> char list \<Rightarrow> bool"
  h_getpid :: "history \<Rightarrow> int"
  h_time :: "history \<Rightarrow> int \<times> int"

section \<open>Detaching\<close>

definition STDIN_FILENO :: int where "STDIN_FILENO = 0"
definition STDOUT_FILENO :: int where "STDOUT_FILENO = 1"
definition STDERR_FILENO :: int where "STDERR_FILENO = 2"

definition dev_null :: "char list" where
  "dev_null = ''/dev/null''"

definition sys_dup2 :: "host \<Rightarrow> history \<Rightarrow> int \<Rightarrow> int \<Rightarrow> int \<times> history" where
  "sys_dup2 h tr old new = (let r = h_dup2 h tr old new in (r, tr @ [H_dup2 old new r]))"

definition silence :: "host \<Rightarrow> history \<Rightarrow> int \<times> history" where
  "silence h tr =
     (let fd = h_open h tr dev_null; t0 = tr @ [H_open dev_null fd] in
      if fd = - 1 then (- 1, t0)
      else let (r, t1) = sys_dup2 h t0 fd STDIN_FILENO in
      if r < 0 then (- 1, t1)
      else let (r, t2) = sys_dup2 h t1 fd STDOUT_FILENO in
      if r < 0 then (- 1, t2)
      else let (r, t3) = sys_dup2 h t2 fd STDERR_FILENO in
      if r < 0 then (- 1, t3)
      else if fd > STDERR_FILENO then
        let r = h_close h t3 fd; t4 = t3 @ [H_close fd r] in if r < 0 then (- 1, t4) else (0, t4)
      else (0, t3))"

text \<open>The parent of the new process ends in \<open>daemonize\<close>; the child returns from it.\<close>

datatype outcome = Exited int | Returned int

definition daemonize :: "host \<Rightarrow> int \<Rightarrow> history \<Rightarrow> outcome \<times> history" where
  "daemonize h chdir2root tr =
     (let r = h_fork h tr; t1 = tr @ [H_fork r] in
      if r = - 1 then (Returned (- 1), t1)
      else if r \<noteq> 0 then (Exited 0, t1 @ [H_exit 0])
      else
        let r = h_setsid h t1; t2 = t1 @ [H_setsid r] in
        if r = - 1 then (Returned (- 1), t2)
        else if chdir2root \<noteq> 0 then
          let r = h_chdir h t2 ''/''; t3 = t2 @ [H_chdir ''/'' r] in
          (Returned (if r \<noteq> 0 then - 1 else 0), t3)
        else (Returned 0, t2))"

definition SIGHUP :: nat where "SIGHUP = 1"
definition SIGPIPE :: nat where "SIGPIPE = 13"
definition SIGTERM :: nat where "SIGTERM = 15"

text \<open>The handlers for crashes are compiled only with \<open>HAVE_BACKTRACE\<close>, which nothing defines.\<close>

definition setupSignalHandlers :: "nat \<Rightarrow> history \<Rightarrow> history" where
  "setupSignalHandlers sigtermHandler tr =
     tr @ [H_signal SIGHUP SIG_IGN, H_signal SIGPIPE SIG_IGN, H_sigaction SIGTERM (Handler sigtermHandler)]"

definition createPidFile :: "host \<Rightarrow> char list option \<Rightarrow> history \<Rightarrow> history" where
  "createPidFile h pidfile tr =
     (case pidfile of
        None \<Rightarrow> tr
      | Some path \<Rightarrow>
          let r = h_stat h tr path; t1 = tr @ [H_stat path r] in
          if r = 0 then t1
          else
            let fp = h_fopen h t1 path; t2 = t1 @ [H_fopen path fp] in
            if fp then
              let pid = h_getpid h t2 in t2 @ [H_getpid pid, H_fprintf (dec_int pid @ [CHR 0x0A]), H_fclose]
            else t2)"

section \<open>Clocks\<close>

text \<open>A signed sum or product of 64 bits that the type cannot hold has no value in C++.\<close>

definition int64_value :: "int \<Rightarrow> int res" where
  "int64_value v = (if - (2 ^ 63) \<le> v \<and> v < 2 ^ 63 then Inr v else Inl Overflow)"

definition c_quot :: "int \<Rightarrow> int \<Rightarrow> int" where
  "c_quot a b = (if (0 \<le> a) = (0 \<le> b) then \<bar>a\<bar> div \<bar>b\<bar> else - (\<bar>a\<bar> div \<bar>b\<bar>))"

definition ustime :: "host \<Rightarrow> history \<Rightarrow> int res \<times> history" where
  "ustime h tr =
     (let (sec, usec) = h_time h tr in
      (bindR (int64_value (sec * 1000000)) (\<lambda>ust. int64_value (ust + usec)), tr @ [H_gettimeofday sec usec]))"

definition mstime :: "host \<Rightarrow> history \<Rightarrow> int res \<times> history" where
  "mstime h tr =
     (let (sec, usec) = h_time h tr in
      (bindR (int64_value (sec * 1000)) (\<lambda>mst. int64_value (mst + c_quot usec 1000)), tr @ [H_gettimeofday sec usec]))"

section \<open>Bytes for human readers\<close>

text \<open>\<open>sprintf\<close> writes a text and a zero byte over the start of the caller's array.\<close>

definition sprintf :: "char list \<Rightarrow> char list \<Rightarrow> char list res" where
  "sprintf s txt =
     (if length txt < length s then Inr (txt @ [CHR 0x00] @ drop (length txt + 1) s) else Inl OutOfBounds)"

text \<open>\<open>%.2f\<close> prints the hundredth nearest to the exact value of a double, the even one of two.\<close>

definition hundredths :: "nat \<Rightarrow> char list" where
  "hundredths r = dec_nat (r div 100) @ [CHR ''.'', char_of (48 + r div 10 mod 10), char_of (48 + r mod 10)]"

definition printf_f2 :: "dbl \<Rightarrow> char list" where
  "printf_f2 d =
     (if dbl_neg d then ''-'' else []) @
     (if is_nan d then ''nan'' else if is_inf d then ''inf''
      else hundredths (round_half_even (mantissa d * 100 * 2 ^ nat (dbl_scale d)) (2 ^ nat (- dbl_scale d))))"

definition bytesToHuman :: "char list \<Rightarrow> 64 word \<Rightarrow> char list res" where
  "bytesToHuman s n =
     (if n < 1024 then sprintf s (dec_nat (unat n) @ ''B'')
      else if n < 1024 * 1024 then
        let d = ddiv (dbl_of_nat (unat n)) (dbl_of_nat 1024) in sprintf s (printf_f2 d @ ''K'')
      else if n < 1024 * 1024 * 1024 then
        let d = ddiv (dbl_of_nat (unat n)) (dbl_of_nat (1024 * 1024)) in sprintf s (printf_f2 d @ ''M'')
      else if n < 1024 * 1024 * 1024 * 1024 then
        let d = ddiv (dbl_of_nat (unat n)) (dbl_of_nat (1024 * 1024 * 1024)) in sprintf s (printf_f2 d @ ''G'')
      else Inr s)"

end
