(* ===== verification/Process_Props.thy ===== *)
theory Process_Props
  imports Process
begin

text \<open>
  What src/src/common/util.cc does: \<open>silence\<close> redirects exactly the standard descriptors, the clocks
  agree until the first of them overflows, and \<open>bytesToHuman\<close> prints correctly rounded hundredths within nine
  bytes.
\<close>

section \<open>Descriptors\<close>

text \<open>The files the descriptors of the process refer to, as the answers of the system say.\<close>

definition fd_event :: "host_call \<Rightarrow> (int \<Rightarrow> char list option) \<Rightarrow> int \<Rightarrow> char list option" where
  "fd_event e files =
     (case e of
        H_open path r \<Rightarrow> if 0 \<le> r then files(r := Some path) else files
      | H_dup2 old new r \<Rightarrow> if 0 \<le> r then files(new := files old) else files
      | H_close fd r \<Rightarrow> if 0 \<le> r then files(fd := None) else files
      | _ \<Rightarrow> files)"

definition files_after :: "(int \<Rightarrow> char list option) \<Rightarrow> history \<Rightarrow> int \<Rightarrow> char list option" where
  "files_after files tr = fold fd_event tr files"

lemma files_after_append: "files_after files (tr @ es) = fold fd_event es (files_after files tr)"
  by (simp add: files_after_def)

text \<open>A new descriptor is one that is not in use.\<close>

definition opens_unused :: "host \<Rightarrow> (int \<Rightarrow> char list option) \<Rightarrow> bool" where
  "opens_unused h files \<longleftrightarrow>
     (\<forall>tr path. h_open h tr path = - 1 \<or> 0 \<le> h_open h tr path \<and> files_after files tr (h_open h tr path) = None)"

lemma silence_trace:
  assumes "silence h tr = (0, tr')"
  obtains fd r0 r1 r2 r3 where "fd = h_open h tr dev_null" "fd \<noteq> - 1" "0 \<le> r0" "0 \<le> r1" "0 \<le> r2" "0 \<le> r3"
    "tr' = tr @ [H_open dev_null fd, H_dup2 fd 0 r0, H_dup2 fd 1 r1, H_dup2 fd 2 r2] @ (if 2 < fd then [H_close fd r3] else [])"
proof -
  define fd where "fd = h_open h tr dev_null"
  define t1 where "t1 = tr @ [H_open dev_null fd]"
  define r0 where "r0 = h_dup2 h t1 fd 0"
  define t2 where "t2 = t1 @ [H_dup2 fd 0 r0]"
  define r1 where "r1 = h_dup2 h t2 fd 1"
  define t3 where "t3 = t2 @ [H_dup2 fd 1 r1]"
  define r2 where "r2 = h_dup2 h t3 fd 2"
  define t4 where "t4 = t3 @ [H_dup2 fd 2 r2]"
  define r3 where "r3 = (if 2 < fd then h_close h t4 fd else 0)"
  note defs = fd_def [symmetric] t1_def [symmetric] r0_def [symmetric] t2_def [symmetric] r1_def [symmetric]
    t3_def [symmetric] r2_def [symmetric] t4_def [symmetric]
  have "fd \<noteq> - 1 \<and> 0 \<le> r0 \<and> 0 \<le> r1 \<and> 0 \<le> r2 \<and> 0 \<le> r3 \<and> tr' = t4 @ (if 2 < fd then [H_close fd r3] else [])"
    using assms by (simp add: silence_def Let_def sys_dup2_def STDIN_FILENO_def STDOUT_FILENO_def STDERR_FILENO_def defs r3_def
        del: append_assoc split: if_splits)
  then show ?thesis by (intro that [of fd r0 r1 r2 r3]) (simp_all add: fd_def t1_def t2_def t3_def t4_def)
qed

lemma silence_files:
  assumes unused: "opens_unused h files" and run: "silence h tr = (0, tr')"
  shows "files_after files tr' n = (if n \<in> {0, 1, 2} then Some dev_null else files_after files tr n)"
proof -
  obtain fd r0 r1 r2 r3 where s: "fd = h_open h tr dev_null" "fd \<noteq> - 1" "0 \<le> r0" "0 \<le> r1" "0 \<le> r2" "0 \<le> r3"
    "tr' = tr @ [H_open dev_null fd, H_dup2 fd 0 r0, H_dup2 fd 1 r1, H_dup2 fd 2 r2] @ (if 2 < fd then [H_close fd r3] else [])"
    using silence_trace [OF run] .
  have f: "0 \<le> fd" "files_after files tr fd = None" using unused s(1,2) by (auto simp: opens_unused_def)
  show ?thesis using f s(3-6) by (simp add: s(7) files_after_append fd_event_def)
qed

text \<open>A redirection that fails leaves the descriptor open.\<close>

lemma silence_leaks:
  assumes "fd = h_open h tr dev_null" "3 \<le> fd" "h_dup2 h (tr @ [H_open dev_null fd]) fd 0 < 0"
  shows "\<exists>tr'. silence h tr = (- 1, tr') \<and> files_after files tr' fd = Some dev_null"
  using assms by (simp add: silence_def sys_dup2_def Let_def STDIN_FILENO_def files_after_append fd_event_def)

section \<open>Ratios\<close>

lemma round_half_even_scale:
  assumes "0 < k"
  shows "round_half_even (a * k) (d * k) = round_half_even a d"
proof -
  have "2 * (a * k mod (d * k)) = (2 * (a mod d)) * k" by (simp add: mult_mod_left)
  then show ?thesis using assms by (simp add: round_half_even_def)
qed

lemma round_half_even_ratio:
  assumes "a * d' = a' * d" "0 < d" "0 < d'"
  shows "round_half_even a d = round_half_even a' d'"
  using round_half_even_scale [OF assms(3), of a d] round_half_even_scale [OF assms(2), of a' d']
  by (simp add: assms(1) mult.commute)

lemma ddiv_power:
  assumes "0 < n" "n < 2 ^ 53" "k \<le> 52"
  shows "pos_dbl (ddiv (dbl_of_nat n) (dbl_of_nat (2 ^ k)))"
    "dbl_real (ddiv (dbl_of_nat n) (dbl_of_nat (2 ^ k))) = real n / 2 ^ k"
proof -
  have k: "(2::nat) ^ k < 2 ^ 53" using assms(3) by (intro power_strict_increasing) simp_all
  note x = dbl_of_nat_exact [OF assms(2)] and y = dbl_of_nat_exact [OF k]
  have m: "0 < mantissa (dbl_of_nat n)" "0 < mantissa (dbl_of_nat (2 ^ k))"
    using pos_mantissa [OF x(1)] pos_mantissa [OF y(1)] x(2) y(2) assms(1) by simp_all
  note d = ddiv_pos [OF x(1) y(1) m(2) [THEN gr_implies_not0]]
  have v: "real (mantissa (dbl_of_nat n)) / real (mantissa (dbl_of_nat (2 ^ k))) *
      2 powi (dbl_scale (dbl_of_nat n) - dbl_scale (dbl_of_nat (2 ^ k))) = real n * 2 powi (- int k)"
    unfolding d(2) x(2) y(2) by (simp add: power_int_minus divide_inverse)
  have s: "real n * 2 powi (- int k) < 2 powi 1024"
  proof -
    have "real n * 2 powi (- int k) \<le> real n * 2 powi 0"
      by (intro mult_left_mono power_int_increasing) simp_all
    also have "\<dots> < 2 powi 1024" using pos_less_top [OF x(1)] x(2) by simp
    finally show ?thesis .
  qed
  have lo: "- 1074 \<le> - int k" using assms(3) by simp
  note r = round_bits_exact [OF m v assms(2) lo s]
  show "pos_dbl (ddiv (dbl_of_nat n) (dbl_of_nat (2 ^ k)))" unfolding d(1) by (rule pos_mk [OF r(1)])
  show "dbl_real (ddiv (dbl_of_nat n) (dbl_of_nat (2 ^ k))) = real n / 2 ^ k"
    unfolding d(1) r(2) by (simp add: power_int_minus divide_inverse)
qed

lemma printf_f2_ratio:
  assumes "pos_dbl d" "dbl_real d = real n / 2 ^ k"
  shows "printf_f2 d = hundredths (round_half_even (n * 100) (2 ^ k))"
proof -
  have "real (mantissa d * 2 ^ nat (dbl_scale d)) / real (1 * 2 ^ nat (- dbl_scale d)) = real n / 2 ^ k"
    using shifted_ratio [of 1 "mantissa d" "- dbl_scale d"] pos_real [OF assms(1)] assms(2)
    by (simp add: power_int_minus divide_inverse)
  then have "real (mantissa d * 2 ^ nat (dbl_scale d) * 2 ^ k) = real (n * 2 ^ nat (- dbl_scale d))"
    by (simp add: field_simps)
  then have "mantissa d * 2 ^ nat (dbl_scale d) * 2 ^ k = n * 2 ^ nat (- dbl_scale d)" by (simp only: of_nat_eq_iff)
  then have "100 * (mantissa d * 2 ^ nat (dbl_scale d) * 2 ^ k) = 100 * (n * 2 ^ nat (- dbl_scale d))" by (rule arg_cong)
  then have "mantissa d * 100 * 2 ^ nat (dbl_scale d) * 2 ^ k = n * 100 * 2 ^ nat (- dbl_scale d)" by (simp only: ac_simps)
  then have "round_half_even (mantissa d * 100 * 2 ^ nat (dbl_scale d)) (2 ^ nat (- dbl_scale d)) = round_half_even (n * 100) (2 ^ k)"
    by (rule round_half_even_ratio) simp_all
  moreover have "\<not> dbl_neg d" "finite_dbl d" using assms(1) by (simp_all add: pos_dbl_def)
  ultimately show ?thesis using pos_not_special [of d] by (simp add: printf_f2_def)
qed

section \<open>What bytesToHuman prints\<close>

text \<open>The number in the largest unit it reaches, as the nearest hundredth; nothing from 1024 G on.\<close>

definition human_text :: "nat \<Rightarrow> char list option" where
  "human_text n =
     (if n < 2 ^ 10 then Some (dec_nat n @ ''B'')
      else if n < 2 ^ 20 then Some (hundredths (round_half_even (n * 100) (2 ^ 10)) @ ''K'')
      else if n < 2 ^ 30 then Some (hundredths (round_half_even (n * 100) (2 ^ 20)) @ ''M'')
      else if n < 2 ^ 40 then Some (hundredths (round_half_even (n * 100) (2 ^ 30)) @ ''G'')
      else None)"

lemma quotient_text:
  assumes "\<not> n < 2 ^ 10" "n < 2 ^ m" "m \<le> 40" "k \<le> 30"
  shows "printf_f2 (ddiv (dbl_of_nat n) (dbl_of_nat (2 ^ k))) = hundredths (round_half_even (n * 100) (2 ^ k))"
proof -
  have "(2::nat) ^ m \<le> 2 ^ 40" using assms(3) by (intro power_increasing) simp_all
  then show ?thesis using assms by (intro printf_f2_ratio ddiv_power) simp_all
qed

lemma unit_limits:
  "n < 1024 \<longleftrightarrow> unat n < 2 ^ 10" "n < 1024 * 1024 \<longleftrightarrow> unat n < 2 ^ 20"
  "n < 1024 * 1024 * 1024 \<longleftrightarrow> unat n < 2 ^ 30" "n < 1024 * 1024 * 1024 * 1024 \<longleftrightarrow> unat n < 2 ^ 40"
  for n :: "64 word"
  by (simp_all add: word_less_nat_alt)

lemma unit_powers: "(1024::nat) = 2 ^ 10" "(1024 * 1024 :: nat) = 2 ^ 20" "(1024 * 1024 * 1024 :: nat) = 2 ^ 30"
  by simp_all

lemma human_text_printed:
  "bytesToHuman s n = (case human_text (unat n) of None \<Rightarrow> Inr s | Some t \<Rightarrow> sprintf s t)"
  using quotient_text [of "unat n" 20 10] quotient_text [of "unat n" 30 20] quotient_text [of "unat n" 40 30]
  unfolding bytesToHuman_def human_text_def unit_limits unit_powers Let_def
  by (auto simp del: power_numeral)

lemma hundredths_length: "r \<le> 102400 \<Longrightarrow> length (hundredths r) \<le> 7"
  using dec_nat_length [of "r div 100" 4] by (simp add: hundredths_def)

lemma quotient_hundredths:
  assumes "n < 2 ^ 10 * 2 ^ k"
  shows "round_half_even (n * 100) (2 ^ k) \<le> 102400"
proof -
  have "n * 100 \<le> 102400 * 2 ^ k" using assms by simp
  then have q: "n * 100 div 2 ^ k \<le> 102400" by (rule div_le_mono [THEN order_trans]) simp
  show ?thesis
  proof (cases "n * 100 div 2 ^ k = 102400")
    case True
    have "n * 100 < 102400 * 2 ^ k" using assms by simp
    then have "n * 100 div 2 ^ k < 102400" by (rule less_mult_imp_div_less)
    then show ?thesis using True by simp
  next
    case False
    then show ?thesis using q by (simp add: round_half_even_def)
  qed
qed

lemma human_text_length: "human_text n = Some t \<Longrightarrow> length t \<le> 8"
  using dec_nat_length [of n 4] hundredths_length quotient_hundredths [of n 10] quotient_hundredths [of n 20]
    quotient_hundredths [of n 30]
  by (auto simp: human_text_def split: if_splits)

section \<open>Properties\<close>

text \<open>
  C36. When \<open>silence\<close> returns 0, the descriptors 0, 1 and 2 refer to the null device and every other one refers
  to what it did before - the descriptor opened for the redirection is closed again, unless it is itself one
  of the three - for every system that opens unused descriptors; the other result is -1.
\<close>

theorem silence_redirects:
  assumes "opens_unused h files" "silence h tr = (r, tr')"
  shows "r \<in> {0, - 1} \<and>
    (r = 0 \<longrightarrow> files_after files tr' = (files_after files tr)(0 := Some dev_null, 1 := Some dev_null, 2 := Some dev_null))"
proof -
  have "r \<in> {0, - 1}" using assms(2) by (auto simp: silence_def Let_def sys_dup2_def split: if_splits)
  moreover have "files_after files tr' n = ((files_after files tr)(0 := Some dev_null, 1 := Some dev_null, 2 := Some dev_null)) n"
    if "r = 0" for n using silence_files [OF assms(1), of tr tr' n] assms(2) that by simp
  ultimately show ?thesis by blast
qed

text \<open>A system that opens descriptor 3 when it is unused, and the terminal on the standard descriptors.\<close>

definition terminal :: "int \<Rightarrow> char list option" where
  "terminal n = (if n \<in> {0, 1, 2} then Some ''tty'' else None)"

definition sample_host :: host where
  "sample_host =
     \<lparr>h_open = (\<lambda>tr path. if files_after terminal tr 3 = None then 3 else - 1), h_dup2 = (\<lambda>tr old new. new),
      h_close = (\<lambda>tr fd. 0), h_fork = (\<lambda>tr. 0), h_setsid = (\<lambda>tr. 1), h_chdir = (\<lambda>tr path. 0),
      h_stat = (\<lambda>tr path. - 1), h_fopen = (\<lambda>tr path. True), h_getpid = (\<lambda>tr. 7), h_time = (\<lambda>tr. (1, 2500))\<rparr>"

lemma silence_redirects_witness:
  "\<exists>tr'. silence sample_host [] = (0, tr') \<and> files_after terminal tr' 1 = Some dev_null \<and> files_after terminal tr' 3 = None"
proof -
  obtain r tr' where s: "silence sample_host [] = (r, tr')" by fastforce
  have "r = 0" using s
    by (simp add: silence_def sample_host_def sys_dup2_def files_after_def terminal_def STDIN_FILENO_def STDOUT_FILENO_def
        STDERR_FILENO_def)
  moreover have "opens_unused sample_host terminal" by (simp add: opens_unused_def sample_host_def)
  ultimately show ?thesis using silence_redirects [of sample_host terminal "[]" r tr'] s
    by (simp add: files_after_def terminal_def)
qed

text \<open>
  While it does not overflow, \<open>ustime\<close> is the time in microseconds, and \<open>mstime\<close> is that time in
  milliseconds, rounded down; each has no value exactly when its result does not fit 64 bits, which \<open>ustime\<close>
  reaches a thousand times earlier.
\<close>

theorem clocks_agree:
  assumes "h_time h tr = (sec, usec)" "0 \<le> sec" "0 \<le> usec" "usec < 1000000"
  shows "fst (ustime h tr) = int64_value (sec * 1000000 + usec) \<and>
    fst (mstime h tr) = int64_value ((sec * 1000000 + usec) div 1000)"
proof -
  have "(sec * 1000000 + usec) div 1000 = sec * 1000 + usec div 1000" by linarith
  moreover have "c_quot usec 1000 = usec div 1000" "0 \<le> usec div 1000" using assms(3) by (simp_all add: c_quot_def)
  moreover have "usec div 1000 < 1000" using assms(4) by linarith
  ultimately show ?thesis using assms by (simp add: ustime_def mstime_def int64_value_def)
qed

lemma clocks_agree_witness: "fst (mstime sample_host []) = Inr 1002 \<and> fst (ustime sample_host []) = Inr 1002500"
  using clocks_agree [of sample_host "[]" 1 2500] by (simp add: sample_host_def int64_value_def)

text \<open>
  C37. \<open>bytesToHuman\<close> prints the number of bytes below 1024 as it is, and below \<open>2 ^ 20\<close>, \<open>2 ^ 30\<close> and \<open>2 ^ 40\<close> the
  hundredth nearest to the exact quotient - the division of doubles and \<open>%.2f\<close> lose nothing -, and leaves the array
  as it was from \<open>2 ^ 40\<close> on.
\<close>

theorem bytesToHuman_prints:
  "bytesToHuman s n = (case human_text (unat n) of None \<Rightarrow> Inr s | Some t \<Rightarrow> sprintf s t)"
  by (rule human_text_printed)

text \<open>
  C38. An array of nine bytes is enough for \<open>bytesToHuman\<close> and every number: no more than nine bytes are
  written, inside the array. Eight are not: just below a unit the text rounds up to 1024.00.
\<close>

theorem bytesToHuman_fits:
  "(9 \<le> length s \<longrightarrow> (\<exists>s'. bytesToHuman s n = Inr s' \<and> length s' = length s \<and> drop 9 s' = drop 9 s)) \<and>
    (length s = 8 \<longrightarrow> bytesToHuman s (2 ^ 20 - 1) = Inl OutOfBounds)"
proof -
  have "\<exists>s'. bytesToHuman s n = Inr s' \<and> length s' = length s \<and> drop 9 s' = drop 9 s" if "9 \<le> length s"
    using that human_text_length [of "unat n"]
    by (cases "human_text (unat n)") (auto simp: human_text_printed sprintf_def drop_Cons' add.commute)
  moreover have "round_half_even (1048575 * 100) (2 ^ 10) = 102400" by (simp add: round_half_even_def)
  then have "human_text 1048575 = Some (hundredths 102400 @ ''K'')" by (simp add: human_text_def)
  moreover have "dec_nat 1024 = ''1024''" by (simp add: dec_nat.simps char_of_def bit_iff_odd)
  ultimately show ?thesis by (simp add: human_text_printed sprintf_def hundredths_def)
qed

lemma bytesToHuman_fits_witness: "\<exists>s'. bytesToHuman (replicate 9 CHR ''x'') 1536 = Inr s'"
  using bytesToHuman_fits [of "replicate 9 CHR ''x''" 1536] by auto

end
