(* ===== verification/Base_Types.thy ===== *)
theory Base_Types
  imports Doubles_Real
begin

text \<open>
  The code in src/src/common/basictypes.h: the limits of the integer types, copies of the bytes of one type
  into another, checked casts down a hierarchy of classes and the length of an array from its size. An object
  in memory is the list of its bytes, the lowest first.
\<close>

section \<open>Limits\<close>

text \<open>Hexadecimal constants converted to the type: those with the top bit set are negative when signed.\<close>

definition kuint8max :: "8 word" where "kuint8max = 0xFF"
definition kuint16max :: "16 word" where "kuint16max = 0xFFFF"
definition kuint32max :: "32 word" where "kuint32max = 0xFFFFFFFF"
definition kuint64max :: "64 word" where "kuint64max = 0xFFFFFFFFFFFFFFFF"
definition kint8min :: "8 word" where "kint8min = 0x80"
definition kint8max :: "8 word" where "kint8max = 0x7F"
definition kint16min :: "16 word" where "kint16min = 0x8000"
definition kint16max :: "16 word" where "kint16max = 0x7FFF"
definition kint32min_word :: "32 word" where "kint32min_word = 0x80000000"
definition kint32max_word :: "32 word" where "kint32max_word = 0x7FFFFFFF"
definition kint64min :: "64 word" where "kint64min = 0x8000000000000000"
definition kint64max :: "64 word" where "kint64max = 0x7FFFFFFFFFFFFFFF"

lemmas limit_defs = kuint8max_def kuint16max_def kuint32max_def kuint64max_def kint8min_def kint8max_def
  kint16min_def kint16max_def kint32min_word_def kint32max_word_def kint64min_def kint64max_def

lemma unsigned_limits:
  "kuint8max = - 1" "kuint16max = - 1" "kuint32max = - 1" "kuint64max = - 1"
  by (simp_all add: limit_defs)

lemma signed_limits:
  "sint kint8min = - (2 ^ 7)" "sint kint8max = 2 ^ 7 - 1" "sint kint16min = - (2 ^ 15)" "sint kint16max = 2 ^ 15 - 1"
  "sint kint32min_word = - (2 ^ 31)" "sint kint32max_word = 2 ^ 31 - 1"
  "sint kint64min = - (2 ^ 63)" "sint kint64max = 2 ^ 63 - 1"
  by (simp_all add: limit_defs)

section \<open>Arrays and casts\<close>

text \<open>\<open>ARRAYSIZE_UNSAFE\<close>, of the size of an array and of an element: the program does not compile when it divides by zero.\<close>

definition ARRAYSIZE_UNSAFE :: "nat \<Rightarrow> nat \<Rightarrow> nat option" where
  "ARRAYSIZE_UNSAFE whole element =
     (let divisor = (if whole mod element = 0 then 1 else 0) in
      if divisor = 0 then None else Some (whole div element div divisor))"

text \<open>
  \<open>down_cast\<close>: \<open>is_a\<close> tells which objects are of the derived class; without \<open>NDEBUG\<close> the cast of an object that
  is not fails an assertion.
\<close>

definition down_cast :: "bool \<Rightarrow> ('obj \<Rightarrow> bool) \<Rightarrow> 'obj option \<Rightarrow> 'obj option res" where
  "down_cast ndebug is_a f =
     (case f of None \<Rightarrow> Inr f | Some x \<Rightarrow> if ndebug then Inr f else CHECK (is_a x) (Inr f))"

text \<open>\<open>bit_cast\<close> copies as many bytes as the destination has.\<close>

definition bit_cast :: "nat \<Rightarrow> 8 word list \<Rightarrow> 8 word list res" where
  "bit_cast dest_size source = (if dest_size \<le> length source then Inr (take dest_size source) else Inl OutOfBounds)"

section \<open>Objects as bytes\<close>

definition bytes_of :: "nat \<Rightarrow> 'a::len word \<Rightarrow> 8 word list" where
  "bytes_of n w = map (\<lambda>i. ucast (drop_bit (8 * i) w)) [0..<n]"

definition word_of_bytes :: "8 word list \<Rightarrow> 'a::len word" where
  "word_of_bytes bs = foldr (\<lambda>b w. push_bit 8 w OR ucast b) bs 0"

definition bytes_of_dbl :: "dbl \<Rightarrow> 8 word list" where
  "bytes_of_dbl d = bytes_of 4 (word1 d) @ bytes_of 4 (word0 d)"

definition dbl_of_bytes :: "8 word list \<Rightarrow> dbl" where
  "dbl_of_bytes bs = \<lparr>word0 = word_of_bytes (drop 4 bs), word1 = word_of_bytes (take 4 bs)\<rparr>"

lemma word_of_bytes_Cons [simp]: "word_of_bytes (b # bs) = push_bit 8 (word_of_bytes bs) OR ucast b"
  by (simp add: word_of_bytes_def)

lemma word_of_bytes_Nil [simp]: "word_of_bytes [] = 0"
  by (simp add: word_of_bytes_def)

lemma bytes_of_Suc: "bytes_of (Suc n) w = ucast w # bytes_of n (drop_bit 8 w)"
  by (simp add: bytes_of_def upt_conv_Cons map_Suc_upt [symmetric] drop_bit_drop_bit add.commute del: upt_Suc)

lemma length_bytes_of [simp]: "length (bytes_of n w) = n"
  by (simp add: bytes_of_def)

lemma word_of_bytes_of: "word_of_bytes (bytes_of n w) = (take_bit (8 * n) (ucast w) :: 'b::len word)"
proof (induction n arbitrary: w)
  case (Suc n)
  show ?case unfolding bytes_of_Suc by (simp add: Suc) (auto intro!: bit_word_eqI simp: bit_simps)
qed (simp add: bytes_of_def)

lemma word_of_bytes_append:
  "word_of_bytes (as @ bs) = push_bit (8 * length as) (word_of_bytes bs) OR word_of_bytes as"
  by (induction as) (simp_all add: push_bit_or push_bit_push_bit or.assoc add.commute)

text \<open>
  A double copied into an unsigned integer of 64 bits has its two words as the halves, and copied into a
  double again is itself.
\<close>

lemma bit_cast_dbl:
  "\<exists>bs. bit_cast 8 (bytes_of_dbl d) = Inr bs \<and> bit_cast 8 bs = Inr bs \<and> dbl_of_bytes bs = d \<and>
    word_of_bytes bs = (push_bit 32 (ucast (word0 d)) OR ucast (word1 d) :: 64 word)"
proof -
  have "take_bit 32 (ucast (w :: 32 word)) = (ucast w :: 64 word)" for w
    using bit_imp_le_length [of w] by (auto intro!: bit_word_eqI simp: bit_simps)
  moreover have "take_bit 32 (w :: 32 word) = w" for w by (auto intro!: bit_word_eqI simp: bit_simps)
  ultimately show ?thesis
    by (simp add: bit_cast_def bytes_of_dbl_def dbl_of_bytes_def word_of_bytes_append word_of_bytes_of)
qed

end
