(* ===== verification/Spec2Isabelle.thy ===== *)
theory Spec2Isabelle
  imports Http_Prefix IOBuffer_Cut IOBuffer_Streams Rpc_Props Dtoa_Fixed Dtoa_Roundtrip Strtod_Zeros Strtod_Nearest Shared_Ptr Registerer Singleton
    Process_Props Base_Types
begin

text \<open>
  A development for toyRPC: an RPC server and client over HTTP/1.1 in C++ (\<open>src/src\<close>), with the
  utilities of \<open>src/src/common\<close> it carries. Every definition translates the lines its name points to in
  the manifest; what the code takes from outside the repository - the kernel, protobuf closures and
  services, the iteration order of hash maps - is an argument of the definitions that use it.

  \<^bold>\<open>How the program works.\<close> A \<open>Server\<close> listens on a socket; the event loop of \<open>Epoll\<close> calls \<open>Accept\<close>
  and \<open>OnNewMsgReceived\<close> for ready descriptors. A connection is a \<open>Socket\<close> with two \<open>IOBuffer\<close>s, owned
  by the global \<open>SocketPool\<close>. What arrives is parsed by \<open>Http::Parse\<close>; a complete request becomes a
  controller in the global controller pool, and the method of the service it names is called with a
  closure that packs the response into the output buffer and starts writing it. A \<open>Channel\<close> is the
  client's side: it packs a request and starts writing. What cannot be written at once is flushed
  by \<open>ProcessEpollOut\<close>.

  \<^bold>\<open>Theories.\<close>
  \<^item> \<open>Toy_Prelude\<close>: faults (null, dangling and out-of-bounds accesses, reads of unwritten memory,
    failed \<open>CHECK\<close>s, uncaught exceptions, loops out of fuel) as the left side of a sum, \<open>bindR\<close> and
    \<open>CHECK\<close>, and lemmas on lists and intervals.
  \<^item> \<open>Block_Heap\<close>, \<open>IOBuffer\<close> (iobuffer.h, iobuffer.cc): blocks of 8192 bytes in an explicit store,
    the buffer as a doubly linked list with a recycling list. \<open>IOBuffer_Inv\<close>, \<open>IOBuffer_Queue\<close>,
    \<open>IOBuffer_Pop\<close>, \<open>IOBuffer_Transfer\<close> prove the representation invariant \<open>buf_inv\<close> of every
    operation and its effect on \<open>contents\<close>, the byte string a buffer stands for; \<open>IOBuffer_Props\<close>
    states the contract, with the locale \<open>byte_sink\<close> for those who append.
  \<^item> \<open>IOBuffer_Iter\<close>, \<open>IOBuffer_Scan\<close>: the iterators as positions of the byte string of a buffer they can walk
    (\<open>walkable\<close>: every block but the last full, the last with a free byte, every block but the first read
    from 0 on), and the scanners; \<open>IOBuffer_Cut\<close>: what \<open>PopFront(iterator)\<close> removes, which is more than
    asked for inside a first block that has been read before, and what it leaves;
    \<open>IOBuffer_Streams\<close>: the protobuf streams.
  \<^item> \<open>String_Util\<close>, \<open>String_Num\<close> (common/string_util.*): splitting, joining, formatting, and the
    conversion of numerals with their overflow rules.
  \<^item> \<open>Http\<close> (protocols/http.*): the parser as a state machine over a buffer, requests and responses;
    \<open>Http_Steps\<close> follows one state of the parser each, \<open>Http_Props\<close> states what it accepts,
    refuses, keeps and loses, \<open>Http_Prefix\<close> that every proper prefix of a request makes it wait.
  \<^item> \<open>Epoll\<close> (event.h, epoll.*, common/fd_guard.h): the table of events beside the kernel's interest
    list, with the contract of \<open>epoll_ctl\<close> as a hypothesis, which lets the kernel refuse what its
    documentation lets it refuse; \<open>Net\<close> (net.*): system calls over a kernel
    that answers from the history of all calls, so that what happened to a descriptor can be read
    off the trace.
  \<^item> \<open>Socket\<close> (socket.*), \<open>Server\<close> (controller.*, server.*, channel.*): the record \<open>world\<close> is the
    process; every method is a function of it. \<open>Socket_Frame\<close> proves what an operation on one
    socket leaves alone (\<open>frame\<close>) with rules that follow the sequence of steps (\<open>holds\<close>);
    \<open>Server_Inv\<close> has the locale \<open>server_invariant\<close>: what sockets and pools keep is kept by every
    callback and by the event loop, in all reachable states; \<open>Server_Props\<close> interprets it for the
    ownership of sockets and for call ids; \<open>Socket_Props\<close> and \<open>Rpc_Props\<close> hold the properties of
    writing, reading and connecting, and of a whole call.
  \<^item> \<open>Shared_Ptr\<close> (common/shared_ptr.h): reference-counted pointers with weak observers over a heap of
    control blocks, safe under every sequence of operations; \<open>Registerer\<close> (common/registerer.*,
    common/singleton.h): factories by class name.
  \<^item> \<open>Bigint\<close>, \<open>Bigint_Value\<close>, \<open>Bigint_Ops\<close>, \<open>Bigint_Quorem\<close> (common/dtoa.cc): integers of 32-bit
    digits with their free lists, and the numbers they stand for; \<open>Dtoa\<close>, \<open>Dtoa_Bits\<close>,
    \<open>Dtoa_Print\<close>, \<open>Dtoa_Digits\<close>, \<open>Dtoa_Scale\<close>, \<open>Dtoa_Props\<close>: the words of a double, the scanner of
    \<open>strtod\<close>, and the part of \<open>dtoa\<close> that prints digits with multiple-precision integers. \<open>Doubles\<close> defines the
    arithmetic of doubles on their words - exact, then rounded once to nearest even - and
    \<open>Doubles_Real\<close> relates it to real numbers; \<open>Strtod\<close> is \<open>strtod\<close> behind the scanning, \<open>bigcomp\<close>
    and the conversions \<open>StringToDouble\<close>; \<open>Strtod_Scan\<close> and \<open>Strtod_Props\<close> prove the result of short
    numerals, \<open>Strtod_Round\<close> the comparison that decides a round of the loop, \<open>Strtod_Zeros\<close> a fault;
    \<open>Dtoa_Quick\<close> has the estimate of the exponent, the two short cuts, and \<open>dtoa\<close> as a whole;
    \<open>Doubles_Error\<close> bounds the error of an operation, \<open>Dtoa_Powers\<close> has a table of the powers of ten, and
    \<open>Dtoa_Estimate\<close> shows with both that the estimate is the exponent of the number or one more, for every
    positive double; \<open>Dtoa_Integers\<close> follows the short cut for integers below \<open>10 ^ 15\<close>, which prints them exactly.
    \<open>Dtoa_Shortest\<close> is about the loop that stops at the shortest string inside two margins, \<open>Dtoa_Margins\<close> about the
    scaling of number and margins, \<open>Dtoa_Free\<close> says what the margins are - half the distance to the next doubles, so
    that inside them is what is read as the number - and \<open>Dtoa_Correct\<close> puts the parts together: in mode 0 \<open>dtoa\<close>
    prints the shortest string for every finite double but zero and the largest. \<open>Dtoa_Roundtrip\<close> reads it back.
    \<open>Dtoa_Fixed\<close> does the same for a given number of digits on the multiple-precision path: the string is the
    correct decimal rounding. \<open>Strtod_Nearest\<close> shows that
    a round of the loop that starts within half a unit ends with the nearest double.
  \<^item> \<open>Mutex\<close> (common/mutex.h, common/raai.h) over a threads library that answers each call or lets the
    caller wait, and \<open>Singleton\<close> (common/singleton.h): \<open>GetInstance\<close> under every interleaving of threads, with
    mutual exclusion, one construction and progress under a fair schedule.
  \<^item> \<open>Process\<close>, \<open>Process_Props\<close> (common/util.*): detaching, pid file, clocks and \<open>bytesToHuman\<close>, over a system
    that answers from the history of calls; \<open>Base_Types\<close> (common/basictypes.h): limits and casts.

  \<^bold>\<open>Bounds and fuel.\<close> A loop whose end depends on the state of the store has a bound computed from it:
  \<open>steps m\<close> counts every cell once and every byte of every cell once, and the lemmas show that a valid
  buffer never needs more, so a \<open>FuelOut\<close> is a loop that does not end in the code. Loops that end when
  the kernel decides take the number of rounds as an argument: \<open>ProcessEpollOut_returns\<close> shows that one
  round per byte and one more are enough against every kernel, \<open>ReadUntilFail_returns\<close> that reading
  returns when the kernel's data ends. The event loop runs over the list of the kernel's answers.
  The loops of \<open>dtoa\<close> and \<open>strtod\<close> take the number of rounds as an argument; 17 are enough for every double that
  \<open>dtoa\<close> prints in mode 0, because the margins grow tenfold in every round. Seven turns are the most a thread needs in
  \<open>GetInstance\<close>, and \<open>7 * n\<close> rounds enough for \<open>n\<close> threads.
  Machine integers are words, or integers with the wrap-around of the casts written out. Doubles are
  computed as a machine does that rounds every operation once to 53 bits (SSE2, not the x87 stack).

  \<^bold>\<open>Not modelled.\<close> \<open>gethex\<close> and the other branches that the configuration of dtoa.cc does
  not compile have no definition, and \<open>g_fmt\<close> has no body in the repository. The handlers
  for crashes in util.cc need a macro that nothing defines. What is left of basictypes.h, basics.h and
  port.h is typedefs and compiler macros; the templates of callback.h do not compile when they are
  instantiated, and nothing does; the examples only set flags and start the server. Log messages have no
  effect on the state and are left out. The server is single-threaded, and so is its model; only
  \<open>Singleton\<close> has threads, under the assumption that a read sees the last write.
\<close>

end
